(* ===== verification/Xv6_Prelude.thy ===== *)
theory Xv6_Prelude
  imports Main "HOL-Library.Word" "HOL-Library.Monad_Syntax"
begin

unbundle bit_operations_syntax

text \<open>
  Shared prelude: the machine types of the RISC-V code, byte-addressed memory with
  little-endian 32- and 64-bit accesses, and the option-monad lemmas every component uses.
  A result of type \<open>'a option\<close> is \<open>None\<close> where the C code does not come back with a value:
  it calls \<open>panic\<close>, it sleeps with nobody left to wake it, or it runs into undefined
  behaviour (a null pointer, an index outside an array) that the text next to the definition
  names. Error returns of the C code (\<open>-1\<close>, \<open>0\<close>) stay ordinary values.
\<close>

section \<open>Machine types\<close>

type_synonym u8 = "8 word"
type_synonym u16 = "16 word"
type_synonym u32 = "32 word"
type_synonym u64 = "64 word"
type_synonym memory = "u64 \<Rightarrow> u8"

named_theorems monad_simps \<open>inversion of successful runs in the option monad\<close>
named_theorems mem_simps \<open>reads over writes in byte memory\<close>

lemmas [monad_simps] = Option.bind_eq_Some_conv

lemma bind_eq_None [monad_simps]:
  "Option.bind m f = None \<longleftrightarrow> m = None \<or> (\<exists>x. m = Some x \<and> f x = None)"
  by (cases m) auto

lemma if_None_eq_Some [monad_simps, simp]:
  "((if c then None else m) = Some x) \<longleftrightarrow> \<not> c \<and> m = Some x"
  by simp

lemma if_Some_eq_None [monad_simps, simp]:
  "((if c then m else None) = Some x) \<longleftrightarrow> c \<and> m = Some x"
  by simp

lemma unat_lt_u8: "unat (x :: u8) < 256"
  by (rule order_less_le_trans [OF unsigned_less]) simp

lemma unat_lt_u32: "unat (x :: u32) < 2 ^ 32"
  by (rule order_less_le_trans [OF unsigned_less]) simp

lemma unat_lt_u64: "unat (x :: u64) < 2 ^ 64"
  by (rule order_less_le_trans [OF unsigned_less]) simp

lemma unat_ucast_32_64 [simp]: "unat (ucast (n :: u32) :: u64) = unat n"
  using unat_lt_u32 [of n] by (simp add: unsigned_ucast_eq take_bit_nat_eq_self)

lemma uint_sint32: "uint (x :: u32) = (if sint x < 0 then sint x + 2 ^ 32 else sint x)"
proof -
  have r: "- (2 ^ 31) \<le> sint x" "sint x < 2 ^ 31" using sint_greater_eq [of x] sint_less [of x] by simp_all
  have "uint x = sint x mod 2 ^ 32" by (simp add: uint_sint take_bit_eq_mod)
  also have "\<dots> = (if sint x < 0 then sint x + 2 ^ 32 else sint x)"
    using r mod_pos_pos_trivial [of "sint x + 2 ^ 32" "2 ^ 32"] by (simp add: mod_pos_pos_trivial)
  finally show ?thesis .
qed

lemma option_eqI: "(\<And>i. x = Some i \<longleftrightarrow> y = Some i) \<Longrightarrow> x = y"
  by (cases x; cases y) auto

lemma nth_in_take: "t < n \<Longrightarrow> n \<le> length xs \<Longrightarrow> xs ! t \<in> set (take n xs)"
  using nth_mem [of t "take n xs"] by simp

lemma nth_update_in: "i < length b \<Longrightarrow> b[j := x] ! i = (if i = j then x else b ! i)"
  by (cases "i = j") simp_all

section \<open>Regions of memory\<close>

text \<open>\<open>in_region d n a\<close>: the address \<open>a\<close> is one of the \<open>n\<close> bytes from \<open>d\<close>, with the wrap-around
  of 64-bit pointer arithmetic.\<close>

definition in_region :: "u64 \<Rightarrow> nat \<Rightarrow> u64 \<Rightarrow> bool" where
  "in_region d n a \<longleftrightarrow> unat (a - d) < n"

lemma in_region_0 [simp]: "\<not> in_region d 0 a"
  by (simp add: in_region_def)

lemma in_region_self [simp]: "0 < n \<Longrightarrow> in_region d n d"
  by (simp add: in_region_def)

lemma unat_of_nat_lt64: "i < 2 ^ 64 \<Longrightarrow> unat (of_nat i :: u64) = i"
  by (simp add: unat_of_nat take_bit_nat_eq_self)

lemma in_region_offset: "i < n \<Longrightarrow> n \<le> 2 ^ 64 \<Longrightarrow> in_region d n (d + of_nat i)"
  by (simp add: in_region_def unat_of_nat_lt64)

lemma word_offset_unat: "a = d + (of_nat (unat (a - d)) :: u64)"
  by simp

lemma in_region_iff_offset:
  assumes "n \<le> 2 ^ 64"
  shows "in_region d n a \<longleftrightarrow> (\<exists>i < n. a = d + of_nat i)"
proof
  assume "in_region d n a"
  then have "unat (a - d) < n" by (simp add: in_region_def)
  then show "\<exists>i < n. a = d + of_nat i" using word_offset_unat by blast
next
  assume "\<exists>i < n. a = d + of_nat i"
  then show "in_region d n a" using assms in_region_offset by blast
qed

lemma in_region_Suc:
  assumes "n < 2 ^ 64"
  shows "in_region d (Suc n) a \<longleftrightarrow> a = d + of_nat n \<or> in_region d n a"
  using assms by (auto simp: in_region_iff_offset less_Suc_eq)

text \<open>An interval of bytes: below another one they do not meet.\<close>

lemma in_region_unat:
  assumes "unat d + n \<le> 2 ^ 64"
  shows "in_region d n a \<longleftrightarrow> unat d \<le> unat a \<and> unat a < unat d + n"
proof (cases "unat d \<le> unat a")
  case True
  then have "unat (a - d) = unat a - unat d" by (simp add: unat_sub word_le_nat_alt)
  then show ?thesis using True by (auto simp: in_region_def)
next
  case False
  have "\<not> in_region d n a"
  proof
    assume "in_region d n a"
    then obtain i where i: "i < n" "a = d + of_nat i" using assms by (auto simp: in_region_iff_offset)
    then have "unat a = unat d + i" using assms by (simp add: unat_word_ariths unat_of_nat take_bit_nat_eq_self)
    then show False using False by simp
  qed
  then show ?thesis using False by simp
qed

section \<open>Little-endian memory accesses\<close>

primrec load_bytes :: "memory \<Rightarrow> u64 \<Rightarrow> nat \<Rightarrow> nat" where
  "load_bytes m a 0 = 0"
| "load_bytes m a (Suc n) = unat (m a) + 256 * load_bytes m (a + 1) n"

primrec store_bytes :: "memory \<Rightarrow> u64 \<Rightarrow> nat \<Rightarrow> nat \<Rightarrow> memory" where
  "store_bytes m a 0 v = m"
| "store_bytes m a (Suc n) v = store_bytes (m(a := of_nat v)) (a + 1) n (v div 256)"

definition load16 :: "memory \<Rightarrow> u64 \<Rightarrow> u16" where
  "load16 m a = of_nat (load_bytes m a 2)"

definition load32 :: "memory \<Rightarrow> u64 \<Rightarrow> u32" where
  "load32 m a = of_nat (load_bytes m a 4)"

definition load64 :: "memory \<Rightarrow> u64 \<Rightarrow> u64" where
  "load64 m a = of_nat (load_bytes m a 8)"

definition store64 :: "memory \<Rightarrow> u64 \<Rightarrow> u64 \<Rightarrow> memory" where
  "store64 m a v = store_bytes m a 8 (unat v)"

definition store32 :: "memory \<Rightarrow> u64 \<Rightarrow> u32 \<Rightarrow> memory" where
  "store32 m a v = store_bytes m a 4 (unat v)"

lemma unat_Suc_le: "unat (x + 1 :: u64) \<le> Suc (unat x)"
  by (simp add: unat_word_ariths)

lemma in_region_tail: "in_region (a + 1) n b \<Longrightarrow> in_region a (Suc n) b"
  using unat_Suc_le [of "b - (a + 1)"] by (simp add: in_region_def)

lemma in_region_head_tail: "n < 2 ^ 64 \<Longrightarrow> \<not> in_region (a + 1) n a"
  by (simp add: in_region_def unsigned_minus_1_eq_mask mask_eq_exp_minus_1)

lemma load_bytes_cong:
  assumes "\<And>b. in_region a n b \<Longrightarrow> m b = m' b" and "n < 2 ^ 64"
  shows "load_bytes m a n = load_bytes m' a n"
  using assms
proof (induction n arbitrary: a)
  case 0
  then show ?case by simp
next
  case (Suc n)
  have "m a = m' a" using Suc.prems(1) by simp
  moreover have "load_bytes m (a + 1) n = load_bytes m' (a + 1) n"
    using Suc.prems by (intro Suc.IH) (auto dest: in_region_tail)
  ultimately show ?case by simp
qed

lemma store_bytes_frame:
  assumes "\<not> in_region a n b" and "n < 2 ^ 64"
  shows "store_bytes m a n v b = m b"
  using assms
proof (induction n arbitrary: a m v)
  case 0
  then show ?case by simp
next
  case (Suc n)
  have "b \<noteq> a" using Suc.prems(1) by auto
  moreover have "\<not> in_region (a + 1) n b"
    using Suc.prems by (auto dest: in_region_tail)
  ultimately show ?case using Suc.IH Suc.prems(2) by simp
qed

lemma load_store_bytes:
  "n < 2 ^ 64 \<Longrightarrow> load_bytes (store_bytes m a n v) a n = v mod 256 ^ n"
proof (induction n arbitrary: a m v)
  case 0
  then show ?case by simp
next
  case (Suc n)
  have "store_bytes (m(a := of_nat v)) (a + 1) n (v div 256) a = of_nat v"
    using Suc.prems by (simp add: store_bytes_frame in_region_head_tail)
  moreover have "unat (of_nat v :: u8) = v mod 256"
    by (simp add: unat_of_nat take_bit_eq_mod)
  ultimately show ?case
    using Suc.IH Suc.prems by (simp add: mod_mult2_eq)
qed

lemma load_bytes_less: "load_bytes m a n < 256 ^ n"
proof (induction n arbitrary: a)
  case 0
  then show ?case by simp
next
  case (Suc n)
  have "unat (m a) < 256" by (rule unat_lt_u8)
  then show ?case using Suc.IH [of "a + 1"] by simp
qed

lemma load_store_64 [mem_simps]: "load64 (store64 m a v) a = v"
proof -
  have "unat v < 256 ^ 8" using unat_lt_u64 [of v] by simp
  then show ?thesis by (simp add: load64_def store64_def load_store_bytes)
qed

lemma store64_frame [mem_simps]: "\<not> in_region a 8 b \<Longrightarrow> store64 m a v b = m b"
  by (simp add: store64_def store_bytes_frame)

lemma load_store_32 [mem_simps]: "load32 (store32 m a v) a = v"
proof -
  have "unat v < 256 ^ 4" using unat_lt_u32 [of v] by simp
  then show ?thesis by (simp add: load32_def store32_def load_store_bytes)
qed

lemma store32_frame [mem_simps]: "\<not> in_region a 4 b \<Longrightarrow> store32 m a v b = m b"
  by (simp add: store32_def store_bytes_frame)

lemma load32_cong:
  "(\<And>b. in_region a 4 b \<Longrightarrow> m b = m' b) \<Longrightarrow> load32 m a = load32 m' a"
  unfolding load32_def by (subst load_bytes_cong [of a 4 m m']) auto

lemma load64_cong:
  "(\<And>b. in_region a 8 b \<Longrightarrow> m b = m' b) \<Longrightarrow> load64 m a = load64 m' a"
  unfolding load64_def by (subst load_bytes_cong [of a 8 m m']) auto

lemma load_store_64_other:
  assumes "\<And>c. in_region b 8 c \<Longrightarrow> \<not> in_region a 8 c"
  shows "load64 (store64 m a v) b = load64 m b"
  by (rule load64_cong) (simp add: assms store64_frame)

lemma load64_zero [simp]: "load64 (\<lambda>_. 0) a = 0"
  by (simp add: load64_def numeral_eq_Suc)

section \<open>Scanning an array\<close>

text \<open>The loops that look for the first array element with some property and stop there.\<close>

primrec first_index :: "('a \<Rightarrow> bool) \<Rightarrow> 'a list \<Rightarrow> nat option" where
  "first_index P [] = None"
| "first_index P (x # xs) = (if P x then Some 0 else map_option Suc (first_index P xs))"

lemma first_index_None: "first_index P xs = None \<longleftrightarrow> (\<forall>x \<in> set xs. \<not> P x)"
  by (induction xs) auto

lemma first_index_Some:
  "first_index P xs = Some i \<longleftrightarrow> i < length xs \<and> P (xs ! i) \<and> (\<forall>j < i. \<not> P (xs ! j))"
proof (induction xs arbitrary: i)
  case Nil
  then show ?case by simp
next
  case (Cons x xs)
  then show ?case
    by (cases i) (auto simp: less_Suc_eq_0_disj)
qed

lemma first_index_SomeD:
  "first_index P xs = Some i \<Longrightarrow> i < length xs \<and> P (xs ! i)"
  by (simp add: first_index_Some)

lemma first_index_ex: "x \<in> set xs \<Longrightarrow> P x \<Longrightarrow> \<exists>i. first_index P xs = Some i"
  using first_index_None [of P xs] by (cases "first_index P xs") auto

end
