(* ===== verification/Cstring.thy ===== *)
theory Cstring
  imports Xv6_Prelude
begin

text \<open>
  The byte and string routines of kernel/string.c over byte memory. Lengths are \<open>uint\<close>
  (\<open>u32\<close>) or \<open>int\<close> as in the code; the loops count a \<open>nat\<close> down or up to them. The
  functions return their \<open>dst\<close> argument unchanged in C, so the model returns the memory only.
\<close>

section \<open>memset, memcmp, memmove\<close>

function memset_loop :: "memory \<Rightarrow> u64 \<Rightarrow> u8 \<Rightarrow> nat \<Rightarrow> nat \<Rightarrow> memory" where
  "memset_loop m cdst c i n =
     (if i < n then memset_loop (m(cdst + of_nat i := c)) cdst c (Suc i) n else m)"
  by pat_completeness auto
termination by (relation "measure (\<lambda>(m, cdst, c, i, n). n - i)") auto

declare memset_loop.simps [simp del]

definition memset :: "memory \<Rightarrow> u64 \<Rightarrow> int \<Rightarrow> u32 \<Rightarrow> memory" where
  "memset m dst c n = memset_loop m dst (of_int c) 0 (unat n)"

primrec memcmp_loop :: "memory \<Rightarrow> u64 \<Rightarrow> u64 \<Rightarrow> nat \<Rightarrow> int" where
  "memcmp_loop m s1 s2 0 = 0"
| "memcmp_loop m s1 s2 (Suc n) =
     (if m s1 \<noteq> m s2 then uint (m s1) - uint (m s2)
      else memcmp_loop m (s1 + 1) (s2 + 1) n)"

definition memcmp :: "memory \<Rightarrow> u64 \<Rightarrow> u64 \<Rightarrow> u32 \<Rightarrow> int" where
  "memcmp m v1 v2 n = memcmp_loop m v1 v2 (unat n)"

primrec copy_down :: "memory \<Rightarrow> u64 \<Rightarrow> u64 \<Rightarrow> nat \<Rightarrow> memory" where
  "copy_down m d s 0 = m"
| "copy_down m d s (Suc n) = copy_down (m(d - 1 := m (s - 1))) (d - 1) (s - 1) n"

primrec copy_up :: "memory \<Rightarrow> u64 \<Rightarrow> u64 \<Rightarrow> nat \<Rightarrow> memory" where
  "copy_up m d s 0 = m"
| "copy_up m d s (Suc n) = copy_up (m(d := m s)) (d + 1) (s + 1) n"

definition memmove :: "memory \<Rightarrow> u64 \<Rightarrow> u64 \<Rightarrow> u32 \<Rightarrow> memory" where
  "memmove m dst src n =
     (if n = 0 then m
      else if src < dst \<and> src + ucast n > dst
      then copy_down m (dst + ucast n) (src + ucast n) (unat n)
      else copy_up m dst src (unat n))"

definition memcpy :: "memory \<Rightarrow> u64 \<Rightarrow> u64 \<Rightarrow> u32 \<Rightarrow> memory" where
  "memcpy m dst src n = memmove m dst src n"

section \<open>NUL-terminated strings\<close>

primrec strncmp_loop :: "memory \<Rightarrow> u64 \<Rightarrow> u64 \<Rightarrow> nat \<Rightarrow> int" where
  "strncmp_loop m p q 0 = 0"
| "strncmp_loop m p q (Suc n) =
     (if m p \<noteq> 0 \<and> m p = m q then strncmp_loop m (p + 1) (q + 1) n
      else uint (m p) - uint (m q))"

definition strncmp :: "memory \<Rightarrow> u64 \<Rightarrow> u64 \<Rightarrow> u32 \<Rightarrow> int" where
  "strncmp m p q n = strncmp_loop m p q (unat n)"

primrec zero_fill :: "memory \<Rightarrow> u64 \<Rightarrow> nat \<Rightarrow> memory" where
  "zero_fill m s 0 = m"
| "zero_fill m s (Suc n) = zero_fill (m(s := 0)) (s + 1) n"

primrec strncpy_loop :: "memory \<Rightarrow> u64 \<Rightarrow> u64 \<Rightarrow> nat \<Rightarrow> memory" where
  "strncpy_loop m s t 0 = m"
| "strncpy_loop m s t (Suc n) =
     (let m' = m(s := m t)
      in if m t \<noteq> 0 then strncpy_loop m' (s + 1) (t + 1) n
         else zero_fill m' (s + 1) n)"

definition strncpy :: "memory \<Rightarrow> u64 \<Rightarrow> u64 \<Rightarrow> int \<Rightarrow> memory" where
  "strncpy m s t n = strncpy_loop m s t (nat n)"

text \<open>\<open>safestrcpy_loop m s t k\<close>: the loop of \<open>safestrcpy\<close> with \<open>k\<close> bytes left before the last.
  The loop leaves \<open>s\<close> one past the last byte it wrote, and the final store writes there,
  also when the byte copied last was the NUL.\<close>

primrec safestrcpy_loop :: "memory \<Rightarrow> u64 \<Rightarrow> u64 \<Rightarrow> nat \<Rightarrow> memory \<times> u64" where
  "safestrcpy_loop m s t 0 = (m, s)"
| "safestrcpy_loop m s t (Suc k) =
     (let m' = m(s := m t)
      in if m t \<noteq> 0 then safestrcpy_loop m' (s + 1) (t + 1) k else (m', s + 1))"

definition safestrcpy :: "memory \<Rightarrow> u64 \<Rightarrow> u64 \<Rightarrow> int \<Rightarrow> memory" where
  "safestrcpy m s t n =
     (if n \<le> 0 then m
      else (case safestrcpy_loop m s t (nat n - 1) of (m', s') \<Rightarrow> m'(s' := 0)))"

text \<open>\<open>strlen\<close> reads until a NUL; a memory with none from \<open>s\<close> on is \<open>None\<close>.\<close>

partial_function (option) strlen_loop :: "memory \<Rightarrow> u64 \<Rightarrow> nat \<Rightarrow> nat option" where
  "strlen_loop m s n = (if m (s + of_nat n) = 0 then Some n else strlen_loop m s (Suc n))"

definition strlen :: "memory \<Rightarrow> u64 \<Rightarrow> nat option" where
  "strlen m s = strlen_loop m s 0"

section \<open>What the loops compute\<close>

lemma memset_loop_apply:
  "n \<le> 2 ^ 64 \<Longrightarrow>
   memset_loop m d c i n a = (if \<exists>k. i \<le> k \<and> k < n \<and> a = d + of_nat k then c else m a)"
proof (induction m d c i n rule: memset_loop.induct)
  case (1 m d c i n)
  show ?case
  proof (cases "i < n")
    case True
    then have eq: "(\<exists>k. i \<le> k \<and> k < n \<and> a = d + of_nat k) \<longleftrightarrow>
        a = d + of_nat i \<or> (\<exists>k. Suc i \<le> k \<and> k < n \<and> a = d + of_nat k)"
      by (metis Suc_leD le_refl not_less_eq_eq order_antisym)
    show ?thesis
      unfolding memset_loop.simps [of m d c i n] eq using True "1.IH" "1.prems"
      by (auto simp: fun_upd_def)
  next
    case False
    then show ?thesis by (subst memset_loop.simps) auto
  qed
qed

lemma unat_u32_le64: "unat (n :: u32) \<le> 2 ^ 64"
  using unat_lt_u32 [of n] by simp

lemma memset_apply:
  "memset m d c n a = (if in_region d (unat n) a then of_int c else m a)"
  unfolding memset_def in_region_iff_offset [OF unat_u32_le64]
  by (subst memset_loop_apply [OF unat_u32_le64]) auto

lemma in_region_pos: "in_region d n a \<Longrightarrow> 0 < n"
  by (cases n) auto

lemma copy_up_apply:
  assumes "\<And>k. 0 < k \<Longrightarrow> k < n \<Longrightarrow> d \<noteq> s + of_nat k" and "n < 2 ^ 64"
  shows "copy_up m d s n a = (if in_region d n a then m (s + (a - d)) else m a)"
  using assms
proof (induction n arbitrary: m d s)
  case 0
  then show ?case by simp
next
  case (Suc n)
  let ?m = "m(d := m s)"
  have IH: "copy_up ?m (d + 1) (s + 1) n a =
      (if in_region (d + 1) n a then ?m (s + 1 + (a - (d + 1))) else ?m a)"
  proof (rule Suc.IH)
    fix k :: nat assume "0 < k" "k < n"
    then show "d + 1 \<noteq> s + 1 + of_nat k" using Suc.prems(1) [of k] by simp
  qed (use Suc.prems in simp)
  show ?case
  proof (cases "in_region (d + 1) n a")
    case True
    then obtain k where k: "k < n" "a = d + 1 + of_nat k"
      using Suc.prems(2) by (auto simp: in_region_iff_offset)
    have "d \<noteq> s + of_nat (Suc k)" using Suc.prems(1) [of "Suc k"] k by simp
    then have "s + (a - d) \<noteq> d" using k by (auto simp: algebra_simps)
    then show ?thesis using IH True in_region_tail [OF True] by (simp add: algebra_simps)
  next
    case False
    have "in_region d (Suc n) a \<Longrightarrow> a = d"
    proof -
      assume "in_region d (Suc n) a"
      then obtain k where k: "k < Suc n" "a = d + of_nat k"
        using Suc.prems(2) by (auto simp: in_region_iff_offset)
      show "a = d"
      proof (cases k)
        case (Suc j)
        then have "in_region (d + 1) n (d + 1 + of_nat j)"
          using k Suc.prems(2) by (intro in_region_offset) auto
        with False k Suc show ?thesis by (simp add: algebra_simps)
      qed (use k in simp)
    qed
    then show ?thesis using IH False by auto
  qed
qed

lemma copy_down_apply:
  assumes "\<And>k. 0 < k \<Longrightarrow> k < n \<Longrightarrow> s \<noteq> d + of_nat k" and "n < 2 ^ 64"
  shows "copy_down m (d + of_nat n) (s + of_nat n) n a =
         (if in_region d n a then m (s + (a - d)) else m a)"
  using assms
proof (induction n arbitrary: m)
  case 0
  then show ?case by simp
next
  case (Suc n)
  let ?m = "m(d + of_nat n := m (s + of_nat n))"
  have "copy_down m (d + of_nat (Suc n)) (s + of_nat (Suc n)) (Suc n) a =
      copy_down ?m (d + of_nat n) (s + of_nat n) n a"
    by (simp add: algebra_simps)
  also have "\<dots> = (if in_region d n a then ?m (s + (a - d)) else ?m a)"
    using Suc.prems by (intro Suc.IH) auto
  finally have IH: "copy_down m (d + of_nat (Suc n)) (s + of_nat (Suc n)) (Suc n) a =
      (if in_region d n a then ?m (s + (a - d)) else ?m a)" .
  show ?case
  proof (cases "in_region d n a")
    case True
    then obtain k where k: "k < n" "a = d + of_nat k"
      using Suc.prems(2) by (auto simp: in_region_iff_offset)
    have "s \<noteq> d + of_nat (n - k)" using Suc.prems(1) [of "n - k"] k by simp
    then have "s + (a - d) \<noteq> d + of_nat n" using k by (auto simp: algebra_simps of_nat_diff)
    then show ?thesis using IH True Suc.prems(2) by (simp add: in_region_Suc)
  next
    case False
    then show ?thesis using IH Suc.prems(2) by (auto simp: in_region_Suc)
  qed
qed

text \<open>\<open>memmove\<close> moves the bytes as if through a temporary buffer, for overlapping regions too,
  as long as the source does not run past the top of the address space.\<close>

lemma memmove_apply:
  assumes "unat src + unat n < 2 ^ 64" and "unat dst + unat n < 2 ^ 64"
  shows "memmove m dst src n a =
         (if in_region dst (unat n) a then m (src + (a - dst)) else m a)"
proof (cases "src < dst \<and> src + ucast n > dst")
  case True
  have "unat (src + ucast n) = unat src + unat n"
    using assms(1) by (simp add: unat_word_ariths)
  with True have lt: "unat src < unat dst" "unat dst < unat src + unat n"
    by (auto simp: word_less_nat_alt)
  have "copy_down m (dst + of_nat (unat n)) (src + of_nat (unat n)) (unat n) a =
      (if in_region dst (unat n) a then m (src + (a - dst)) else m a)"
  proof (rule copy_down_apply)
    fix k :: nat assume "0 < k" "k < unat n"
    show "src \<noteq> dst + of_nat k"
    proof
      assume "src = dst + of_nat k"
      then have "unat src = unat dst + k"
        using assms(2) \<open>k < unat n\<close> by (simp add: unat_word_ariths unat_of_nat_lt64)
      with lt show False by simp
    qed
  qed (use unat_lt_u32 [of n] in simp)
  moreover have "n \<noteq> 0" using True by auto
  ultimately show ?thesis using True by (simp add: memmove_def)
next
  case False
  have "copy_up m dst src (unat n) a =
      (if in_region dst (unat n) a then m (src + (a - dst)) else m a)"
  proof (rule copy_up_apply)
    fix k :: nat assume k: "0 < k" "k < unat n"
    show "dst \<noteq> src + of_nat k"
    proof
      assume "dst = src + of_nat k"
      then have "unat dst = unat src + k"
        using assms(1) k by (simp add: unat_word_ariths unat_of_nat_lt64)
      moreover have "unat (src + ucast n) = unat src + unat n"
        using assms(1) by (simp add: unat_word_ariths)
      ultimately show False using False k by (auto simp: word_less_nat_alt)
    qed
  qed (use unat_lt_u32 [of n] in simp)
  then show ?thesis using False by (auto simp: memmove_def)
qed

end
