(* ===== verification/Riscv.thy ===== *)
theory Riscv
  imports Xv6_Prelude
begin

text \<open>
  The page and page-table-entry macros of kernel/riscv.h and the address-space constants of
  kernel/memlayout.h, on 64-bit words, with the arithmetic facts the memory components use:
  rounding to pages, pages as disjoint regions, and the round trip of a physical address
  through a page-table entry.
\<close>

section \<open>The macros\<close>

abbreviation PGSIZE :: u64 where "PGSIZE \<equiv> 4096"

definition PGROUNDUP :: "u64 \<Rightarrow> u64" where
  "PGROUNDUP sz = (sz + PGSIZE - 1) AND NOT (PGSIZE - 1)"

definition PGROUNDDOWN :: "u64 \<Rightarrow> u64" where
  "PGROUNDDOWN a = a AND NOT (PGSIZE - 1)"

abbreviation PTE_V :: u64 where "PTE_V \<equiv> 1"
abbreviation PTE_R :: u64 where "PTE_R \<equiv> 2"
abbreviation PTE_W :: u64 where "PTE_W \<equiv> 4"
abbreviation PTE_X :: u64 where "PTE_X \<equiv> 8"
abbreviation PTE_U :: u64 where "PTE_U \<equiv> 16"

definition PA2PTE :: "u64 \<Rightarrow> u64" where
  "PA2PTE pa = push_bit 10 (drop_bit 12 pa)"

definition PTE2PA :: "u64 \<Rightarrow> u64" where
  "PTE2PA pte = push_bit 12 (drop_bit 10 pte)"

definition PTE_FLAGS :: "u64 \<Rightarrow> u64" where
  "PTE_FLAGS pte = pte AND 0x3FF"

definition PX :: "nat \<Rightarrow> u64 \<Rightarrow> u64" where
  "PX level va = drop_bit (12 + 9 * level) va AND 0x1FF"

definition MAXVA :: u64 where
  "MAXVA = push_bit (9 + 9 + 9 + 12 - 1) 1"

definition UART0 :: u64 where "UART0 = 0x10000000"
definition VIRTIO0 :: u64 where "VIRTIO0 = 0x10001000"
definition PLIC :: u64 where "PLIC = 0x0c000000"
definition KERNBASE :: u64 where "KERNBASE = 0x80000000"
definition PHYSTOP :: u64 where "PHYSTOP = KERNBASE + 128 * 1024 * 1024"
definition TRAMPOLINE :: u64 where "TRAMPOLINE = MAXVA - PGSIZE"
definition TRAPFRAME :: u64 where "TRAPFRAME = TRAMPOLINE - PGSIZE"
definition KSTACK :: "u64 \<Rightarrow> u64" where
  "KSTACK p = TRAMPOLINE - (p + 1) * 2 * PGSIZE"

section \<open>Pages\<close>

definition page_aligned :: "u64 \<Rightarrow> bool" where
  "page_aligned p \<longleftrightarrow> p mod PGSIZE = 0"

lemma PGSIZE_mask: "PGSIZE - 1 = mask 12"
  by (simp add: mask_eq_exp_minus_1)

lemma PGROUNDDOWN_shift: "PGROUNDDOWN a = push_bit 12 (drop_bit 12 a)"
  unfolding PGROUNDDOWN_def PGSIZE_mask by (rule bit_eqI) (auto simp: bit_simps)

lemma unat_PGROUNDDOWN: "unat (PGROUNDDOWN a) = 4096 * (unat a div 4096)"
proof -
  have "unat a div 4096 * 4096 < 2 ^ 64"
    using unat_lt_u64 [of a] by (rule le_less_trans [OF div_times_less_eq_dividend])
  then have "unat (push_bit 12 (drop_bit 12 a)) = unat a div 4096 * 4096"
    by (simp add: push_bit_eq_mult drop_bit_eq_div unat_word_ariths unat_div_distrib)
  then show ?thesis by (simp add: PGROUNDDOWN_shift)
qed

lemma page_aligned_unat: "page_aligned p \<longleftrightarrow> unat p mod 4096 = 0"
proof -
  have "unat (p mod 4096) = unat p mod 4096" by (simp add: unat_mod_distrib)
  then show ?thesis by (metis page_aligned_def unsigned_0 unsigned_eq_0_iff)
qed

lemma PGROUNDDOWN_aligned [simp]: "page_aligned (PGROUNDDOWN a)"
  by (simp add: page_aligned_unat unat_PGROUNDDOWN)

lemma PGROUNDDOWN_id: "page_aligned p \<Longrightarrow> PGROUNDDOWN p = p"
  by (simp add: word_unat_eq_iff unat_PGROUNDDOWN page_aligned_unat mult.commute)
     (metis add.right_neutral div_mult_mod_eq mult.commute)

lemma PGROUNDDOWN_le: "PGROUNDDOWN a \<le> a"
  by (simp add: word_le_nat_alt unat_PGROUNDDOWN)

lemma unat_diff_PGROUNDDOWN: "unat (a - PGROUNDDOWN a) = unat a mod 4096"
  using PGROUNDDOWN_le [of a]
  by (simp add: unat_sub unat_PGROUNDDOWN minus_mult_div_eq_mod)

lemma page_arith:
  assumes "(p :: nat) mod 4096 = 0" and "i < 4096"
  shows "4096 * ((p + i) div 4096) = p"
proof -
  obtain k where "p = 4096 * k" using assms(1) by auto
  with assms(2) show ?thesis by simp
qed

lemma in_page_iff:
  assumes "page_aligned p"
  shows "in_region p 4096 a \<longleftrightarrow> PGROUNDDOWN a = p"
proof
  assume "PGROUNDDOWN a = p"
  then show "in_region p 4096 a"
    using unat_diff_PGROUNDDOWN [of a] by (simp add: in_region_def)
next
  assume r: "in_region p 4096 a"
  have "unat p + 4096 \<le> 2 ^ 64"
  proof -
    obtain k where "unat p = 4096 * k" using assms by (auto simp: page_aligned_unat)
    moreover have "unat p < 2 ^ 64" by (rule unat_lt_u64)
    ultimately show ?thesis by simp
  qed
  moreover from r obtain i where i: "i < 4096" "a = p + of_nat i"
    by (auto simp: in_region_iff_offset)
  ultimately have "unat a = unat p + i"
    by (simp add: unat_word_ariths unat_of_nat_lt64)
  then show "PGROUNDDOWN a = p"
    using page_arith [of "unat p" i] assms i
    by (simp add: word_unat_eq_iff unat_PGROUNDDOWN page_aligned_unat)
qed

lemma pages_disjoint:
  "page_aligned p \<Longrightarrow> page_aligned q \<Longrightarrow> p \<noteq> q \<Longrightarrow> in_region p 4096 a \<Longrightarrow> \<not> in_region q 4096 a"
  by (simp add: in_page_iff)

lemma PGROUNDUP_down: "PGROUNDUP x = PGROUNDDOWN (x + 4095)"
  by (simp add: PGROUNDUP_def PGROUNDDOWN_def algebra_simps)

lemma PGROUNDUP_aligned [simp]: "page_aligned (PGROUNDUP x)"
  by (simp add: PGROUNDUP_down)

lemma unat_PGROUNDUP:
  "unat x + 4095 < 2 ^ 64 \<Longrightarrow> unat (PGROUNDUP x) = 4096 * ((unat x + 4095) div 4096)"
  by (simp add: PGROUNDUP_down unat_PGROUNDDOWN unat_word_ariths)

lemma PGROUNDUP_le_iff:
  assumes "unat x + 4095 < 2 ^ 64" and "page_aligned q"
  shows "PGROUNDUP x \<le> q \<longleftrightarrow> x \<le> q"
proof -
  obtain k where k: "unat q = 4096 * k" using assms(2) by (auto simp: page_aligned_unat)
  have "(unat x + 4095) div 4096 \<le> k \<longleftrightarrow> unat x \<le> 4096 * k" by arith
  then show ?thesis by (simp add: word_le_nat_alt unat_PGROUNDUP [OF assms(1)] k)
qed

lemma PGROUNDUP_id: "page_aligned p \<Longrightarrow> unat p + 4095 < 2 ^ 64 \<Longrightarrow> PGROUNDUP p = p"
  by (meson PGROUNDUP_aligned PGROUNDUP_le_iff order_refl order_antisym)

lemma page_aligned_next:
  "page_aligned p \<Longrightarrow> page_aligned (p + 4096)"
  by (simp add: page_aligned_unat unat_word_ariths mod_mod_cancel)

section \<open>Page-table entries and slots\<close>

lemma page_aligned_bits: "page_aligned p \<longleftrightarrow> take_bit 12 p = 0"
  by (simp add: page_aligned_def take_bit_eq_mod)

lemma bit_aligned: "page_aligned p \<Longrightarrow> bit p n \<Longrightarrow> 12 \<le> n"
  unfolding page_aligned_bits
  by (metis bit_take_bit_iff bit_0_eq bot2E linorder_not_le bot_apply bot_bool_def)

lemma PHYSTOP_val: "PHYSTOP = 0x88000000"
  by (simp add: PHYSTOP_def KERNBASE_def)

lemma bit_less_exp:
  assumes "x < (2 :: u64) ^ k" and "bit x n"
  shows "n < k"
proof -
  have "x AND mask k = x" using assms(1) by (rule less_mask_eq)
  with assms(2) have "bit (x AND mask k) n" by simp
  then show ?thesis by (simp add: bit_simps)
qed

lemma bit_flags: "f < 1024 \<Longrightarrow> bit (f :: u64) n \<Longrightarrow> n < 10"
  by (rule bit_less_exp) simp

lemma PTE2PA_PA2PTE:
  assumes "page_aligned pa" and "pa < 2 ^ 54" and "f < 1024"
  shows "PTE2PA (PA2PTE pa OR f) = pa"
proof (rule bit_eqI)
  fix n assume "possible_bit TYPE(u64) n"
  then have "n < 64" by simp
  moreover have "bit pa n \<Longrightarrow> 12 \<le> n" using assms(1) by (rule bit_aligned)
  moreover have "bit pa n \<Longrightarrow> n < 54" using assms(2) by (rule bit_less_exp)
  moreover have "\<not> bit f (10 + (n - 12))" using bit_flags [OF assms(3)] by fastforce
  ultimately show "bit (PTE2PA (PA2PTE pa OR f)) n = bit pa n"
    by (auto simp: PTE2PA_def PA2PTE_def bit_simps)
qed

lemma PTE_FLAGS_PA2PTE:
  assumes "f < 1024"
  shows "PTE_FLAGS (PA2PTE pa OR f) = f"
proof -
  have "(0x3FF :: u64) = mask 10" by (simp add: mask_eq_exp_minus_1)
  moreover have "(PA2PTE pa OR f) AND mask 10 = f"
    by (rule bit_eqI) (use bit_flags [OF assms] in \<open>auto simp: PA2PTE_def bit_simps\<close>)
  ultimately show ?thesis by (simp add: PTE_FLAGS_def)
qed

lemma page_aligned_PTE2PA [simp]: "page_aligned (PTE2PA pte)"
  unfolding page_aligned_bits PTE2PA_def by (rule bit_eqI) (auto simp: bit_simps)

lemma PX_less: "PX l va < 512"
proof -
  have "(0x1FF :: u64) = mask 9" by (simp add: mask_eq_exp_minus_1)
  then have "PX l va = take_bit 9 (drop_bit (12 + 9 * l) va)"
    by (simp add: PX_def take_bit_eq_mask)
  moreover have "unat (take_bit 9 x) < 512" for x :: u64
    using take_bit_nat_less_exp [of 9 "unat x"] by (simp add: unsigned_take_bit_eq)
  ultimately show ?thesis by (simp add: word_less_nat_alt)
qed

text \<open>\<open>pte_slot pt i\<close> is \<open>&pagetable[i]\<close>; the 512 slots tile the table's page.\<close>

definition pte_slot :: "u64 \<Rightarrow> u64 \<Rightarrow> u64" where
  "pte_slot pt i = pt + 8 * i"

lemma unat_8: "i < 512 \<Longrightarrow> unat (8 * i :: u64) = 8 * unat i"
  by (simp add: unat_word_ariths word_less_nat_alt)

lemma pte_slot_in_page:
  assumes "i < 512" and "in_region (pte_slot pt i) 8 b"
  shows "in_region pt 4096 b"
proof -
  obtain j where j: "j < 8" "b = pt + 8 * i + of_nat j"
    using assms(2) by (auto simp: pte_slot_def in_region_iff_offset)
  then have "b - pt = 8 * i + of_nat j" by simp
  moreover have "unat (8 * i + of_nat j :: u64) = 8 * unat i + j"
    using assms(1) j(1)
    by (simp add: unat_word_ariths unat_of_nat_lt64 word_less_nat_alt)
  ultimately show ?thesis
    using assms(1) j(1) by (simp add: in_region_def word_less_nat_alt)
qed

lemma pte_slot_disjoint:
  assumes "i < 512" "j < 512" "i \<noteq> j" and "in_region (pte_slot pt i) 8 b"
  shows "\<not> in_region (pte_slot pt j) 8 b"
proof
  assume "in_region (pte_slot pt j) 8 b"
  then obtain y where y: "y < 8" "b = pt + 8 * j + of_nat y"
    by (auto simp: pte_slot_def in_region_iff_offset)
  obtain x where x: "x < 8" "b = pt + 8 * i + of_nat x"
    using assms(4) by (auto simp: pte_slot_def in_region_iff_offset)
  from x y have "8 * i + of_nat x = 8 * j + (of_nat y :: u64)" by simp
  then have "unat (8 * i + of_nat x :: u64) = unat (8 * j + of_nat y :: u64)" by simp
  then have "8 * unat i + x = 8 * unat j + y"
    using assms(1,2) x(1) y(1)
    by (simp add: unat_word_ariths unat_of_nat_lt64 word_less_nat_alt)
  then have "unat i = unat j" using x(1) y(1) by arith
  then have "i = j" by (simp add: word_unat_eq_iff)
  with assms(3) show False ..
qed

text \<open>The three indices of \<open>PX\<close> identify the page of an address below \<open>MAXVA\<close>.\<close>

lemma MAXVA_val: "MAXVA = 2 ^ 38"
  by (simp add: MAXVA_def push_bit_eq_mult)

lemma bit_PX: "bit (PX l va) n \<longleftrightarrow> n < 9 \<and> bit va (12 + 9 * l + n)"
proof -
  have m: "(0x1FF :: u64) = mask 9" by (simp add: mask_eq_exp_minus_1)
  show ?thesis unfolding PX_def m
    by (auto simp: bit_simps dest: bit_imp_le_length)
qed

lemma PX_determines_page:
  assumes "va < MAXVA" "vb < MAXVA"
    and "PX 0 va = PX 0 vb" "PX 1 va = PX 1 vb" "PX 2 va = PX 2 vb"
  shows "PGROUNDDOWN va = PGROUNDDOWN vb"
proof (rule bit_eqI)
  fix n
  have le: "bit va n = bit vb n" if "12 \<le> n"
  proof (cases "n < 39")
    case True
    have "bit va (12 + 9 * l + k) = bit vb (12 + 9 * l + k)" if "l \<in> {0, 1, 2}" "k < 9" for l k
      using assms(3-5) that bit_PX [of l va k] bit_PX [of l vb k] by auto
    moreover have "(n - 12) div 9 < 3" using True by arith
    then have "(n - 12) div 9 \<in> {0, 1, 2}" by auto
    ultimately have "bit va (12 + 9 * ((n - 12) div 9) + (n - 12) mod 9) =
        bit vb (12 + 9 * ((n - 12) div 9) + (n - 12) mod 9)"
      by (meson mod_less_divisor zero_less_numeral)
    moreover have "12 + 9 * ((n - 12) div 9) + (n - 12) mod 9 = n"
      using \<open>12 \<le> n\<close> by (simp add: add.assoc)
    ultimately show ?thesis by simp
  next
    case False
    then show ?thesis
      using assms(1,2) bit_less_exp [of va 38 n] bit_less_exp [of vb 38 n]
      by (auto simp: MAXVA_val)
  qed
  then show "bit (PGROUNDDOWN va) n = bit (PGROUNDDOWN vb) n"
    by (auto simp: PGROUNDDOWN_shift bit_simps)
qed

end
