(* ===== verification/Kalloc.thy ===== *)
theory Kalloc
  imports Cstring Riscv
begin

text \<open>
  The physical page allocator, kernel/kalloc.c. The free list is the C one: \<open>freelist\<close> is the
  head pointer and every free page holds the pointer to the next one in its first eight bytes.
  \<open>kend\<close> is the linker's symbol \<open>end\<close>, the first address after the kernel image. The body of
  \<open>kalloc\<close> and \<open>kfree\<close> between \<open>acquire\<close> and \<open>release\<close> runs under \<open>kmem.lock\<close> and is one step.
\<close>

section \<open>State and operations\<close>

record kmem_state =
  mem :: memory
  freelist :: u64
  kend :: u64

definition kfree :: "u64 \<Rightarrow> 'a kmem_state_scheme \<Rightarrow> 'a kmem_state_scheme option" where
  "kfree pa s =
     (if pa mod PGSIZE \<noteq> 0 \<or> pa < kend s \<or> PHYSTOP \<le> pa then None \<comment> \<open>panic kfree\<close>
      else let m = memset (mem s) pa 1 4096;
               m' = store64 m pa (freelist s)
           in Some (s\<lparr>mem := m', freelist := pa\<rparr>))"

definition kalloc :: "'a kmem_state_scheme \<Rightarrow> u64 \<times> 'a kmem_state_scheme" where
  "kalloc s =
     (let r = freelist s;
          s' = (if r \<noteq> 0 then s\<lparr>freelist := load64 (mem s) r\<rparr> else s)
      in (r, if r \<noteq> 0 then s'\<lparr>mem := memset (mem s') r 5 4096\<rparr> else s'))"

partial_function (option) freerange_loop ::
  "u64 \<Rightarrow> u64 \<Rightarrow> 'a kmem_state_scheme \<Rightarrow> 'a kmem_state_scheme option" where
  "freerange_loop p pa_end s =
     (if p + PGSIZE \<le> pa_end
      then do { s' \<leftarrow> kfree p s; freerange_loop (p + PGSIZE) pa_end s' }
      else Some s)"

definition freerange ::
  "u64 \<Rightarrow> u64 \<Rightarrow> 'a kmem_state_scheme \<Rightarrow> 'a kmem_state_scheme option" where
  "freerange pa_start pa_end s = freerange_loop (PGROUNDUP pa_start) pa_end s"

definition kinit :: "'a kmem_state_scheme \<Rightarrow> 'a kmem_state_scheme option" where
  "kinit s = freerange (kend s) PHYSTOP s"

section \<open>The list of free pages behind the pointers\<close>

primrec is_freelist :: "memory \<Rightarrow> u64 \<Rightarrow> u64 list \<Rightarrow> bool" where
  "is_freelist m head [] \<longleftrightarrow> head = 0"
| "is_freelist m head (p # ps) \<longleftrightarrow> head = p \<and> p \<noteq> 0 \<and> is_freelist m (load64 m p) ps"

definition ram_page :: "'a kmem_state_scheme \<Rightarrow> u64 \<Rightarrow> bool" where
  "ram_page s p \<longleftrightarrow> page_aligned p \<and> kend s \<le> p \<and> p < PHYSTOP \<and> p \<noteq> 0"

definition kmem_inv :: "'a kmem_state_scheme \<Rightarrow> u64 list \<Rightarrow> bool" where
  "kmem_inv s ps \<longleftrightarrow> is_freelist (mem s) (freelist s) ps \<and> distinct ps \<and> (\<forall>p \<in> set ps. ram_page s p)"

lemma ram_page_cong: "kend s' = kend s \<Longrightarrow> ram_page s' q = ram_page s q"
  by (simp add: ram_page_def)

lemma head_in_page: "in_region p 8 b \<Longrightarrow> in_region p 4096 b"
  by (simp add: in_region_def)

lemma is_freelist_cong:
  "(\<And>p b. p \<in> set ps \<Longrightarrow> in_region p 8 b \<Longrightarrow> m b = m' b) \<Longrightarrow>
   is_freelist m head ps = is_freelist m' head ps"
proof (induction ps arbitrary: head)
  case Nil
  then show ?case by simp
next
  case (Cons p ps)
  have "load64 m p = load64 m' p" by (rule load64_cong) (rule Cons.prems, simp_all)
  moreover have "is_freelist m h ps = is_freelist m' h ps" for h
    by (intro Cons.IH Cons.prems) auto
  ultimately show ?case by simp
qed

lemma is_freelist_other_page:
  assumes "is_freelist m head ps" and "page_aligned q" "q \<notin> set ps" "\<forall>p \<in> set ps. page_aligned p"
    and same: "\<And>b. \<not> in_region q 4096 b \<Longrightarrow> m' b = m b"
  shows "is_freelist m' head ps"
proof -
  have "m b = m' b" if "p \<in> set ps" "in_region p 8 b" for p b
  proof -
    have "p \<noteq> q" using that(1) assms(3) by auto
    then have "\<not> in_region q 4096 b"
      using pages_disjoint [of p q b] head_in_page [OF that(2)] assms(2,4) that(1) by auto
    with same show ?thesis by simp
  qed
  with assms(1) show ?thesis using is_freelist_cong by blast
qed

lemma kmem_inv_Nil: "kmem_inv s [] \<longleftrightarrow> freelist s = 0"
  by (simp add: kmem_inv_def)

lemma kmem_inv_freelist_0: "kmem_inv s ps \<Longrightarrow> freelist s = 0 \<longleftrightarrow> ps = []"
  by (cases ps) (auto simp: kmem_inv_def)

text \<open>Allocation from a nonempty list takes the head and fills it with the byte 5.\<close>

lemma kalloc_empty: "kmem_inv s [] \<Longrightarrow> kalloc s = (0, s)"
  by (simp add: kmem_inv_Nil kalloc_def)

lemma kalloc_Cons:
  assumes "kmem_inv s (p # ps)" and "kalloc s = (r, s')"
  shows "r = p" and "kmem_inv s' ps" and "kend s' = kend s"
    and "mem s' = memset (mem s) p 5 4096"
proof -
  have p: "freelist s = p" "p \<noteq> 0" "page_aligned p" "p \<notin> set ps"
    and ps: "is_freelist (mem s) (load64 (mem s) p) ps" "distinct ps" "\<forall>q \<in> set ps. ram_page s q"
    using assms(1) by (auto simp: kmem_inv_def ram_page_def)
  have s': "r = p" "s' = s\<lparr>freelist := load64 (mem s) p, mem := memset (mem s) p 5 4096\<rparr>"
    using assms(2) p by (auto simp: kalloc_def)
  have "is_freelist (mem s') (load64 (mem s) p) ps"
  proof (rule is_freelist_other_page [OF ps(1) p(3,4)])
    show "\<forall>q \<in> set ps. page_aligned q" using ps(3) by (auto simp: ram_page_def)
  qed (simp add: s' memset_apply)
  then show "r = p" "kmem_inv s' ps" "kend s' = kend s"
      "mem s' = memset (mem s) p 5 4096"
    using s' ps by (auto simp: kmem_inv_def ram_page_def)
qed

lemma kfree_cases:
  "kfree pa s = (if page_aligned pa \<and> kend s \<le> pa \<and> pa < PHYSTOP
     then Some (s\<lparr>mem := store64 (memset (mem s) pa 1 4096) pa (freelist s), freelist := pa\<rparr>)
     else None)"
  by (auto simp: kfree_def page_aligned_def)

lemma kfree_inv:
  assumes "kmem_inv s ps" and "ram_page s pa" and "pa \<notin> set ps"
  shows "\<exists>s'. kfree pa s = Some s' \<and> kmem_inv s' (pa # ps) \<and> kend s' = kend s \<and>
           (\<forall>b. \<not> in_region pa 4096 b \<longrightarrow> mem s' b = mem s b)"
proof -
  let ?m = "store64 (memset (mem s) pa 1 4096) pa (freelist s)"
  let ?s = "s\<lparr>mem := ?m, freelist := pa\<rparr>"
  have out: "?m b = mem s b" if "\<not> in_region pa 4096 b" for b
  proof -
    from that have "\<not> in_region pa 8 b" using head_in_page by blast
    with that show ?thesis by (simp add: store64_frame memset_apply)
  qed
  have "is_freelist ?m (freelist s) ps"
  proof (rule is_freelist_other_page)
    show "is_freelist (mem s) (freelist s) ps" "\<forall>p \<in> set ps. page_aligned p"
      using assms(1) by (auto simp: kmem_inv_def ram_page_def)
  qed (use assms(2,3) out in \<open>auto simp: ram_page_def\<close>)
  then have "kmem_inv ?s (pa # ps)"
    using assms by (auto simp: kmem_inv_def ram_page_def load_store_64)
  moreover have "kfree pa s = Some ?s"
    using assms(2) by (simp add: kfree_cases ram_page_def)
  ultimately show ?thesis using out by auto
qed

section \<open>The allocator's contract\<close>

text \<open>
  What the clients of the allocator rely on: \<open>avail s ps\<close> says that exactly the pages \<open>ps\<close>
  are free, \<open>page s p\<close> that \<open>p\<close> is a page the allocator manages.
\<close>

locale page_allocator =
  fixes alloc :: "'s \<Rightarrow> u64 \<times> 's"
    and free :: "u64 \<Rightarrow> 's \<Rightarrow> 's option"
    and avail :: "'s \<Rightarrow> u64 list \<Rightarrow> bool"
    and page :: "'s \<Rightarrow> u64 \<Rightarrow> bool"
  assumes alloc_none: "avail s [] \<Longrightarrow> alloc s = (0, s)"
    and alloc_some: "avail s (p # ps) \<Longrightarrow>
      \<exists>s'. alloc s = (p, s') \<and> avail s' ps \<and> (\<forall>q. page s' q = page s q)"
    and avail_ok: "avail s ps \<Longrightarrow> distinct ps \<and> (\<forall>p \<in> set ps. page s p)"
    and page_nonzero: "\<not> page s 0"
    and free_some: "avail s ps \<Longrightarrow> page s p \<Longrightarrow> p \<notin> set ps \<Longrightarrow>
      \<exists>s'. free p s = Some s' \<and> avail s' (p # ps) \<and> (\<forall>q. page s' q = page s q)"
begin

primrec alloc_many :: "nat \<Rightarrow> 's \<Rightarrow> u64 list \<times> 's" where
  "alloc_many 0 s = ([], s)"
| "alloc_many (Suc n) s =
     (case alloc s of (p, s') \<Rightarrow> case alloc_many n s' of (qs, s'') \<Rightarrow> (p # qs, s''))"

primrec free_many :: "u64 list \<Rightarrow> 's \<Rightarrow> 's option" where
  "free_many [] s = Some s"
| "free_many (p # ps) s = do { s' \<leftarrow> free p s; free_many ps s' }"

lemma alloc_many_take:
  "avail s ps \<Longrightarrow> n \<le> length ps \<Longrightarrow>
   \<exists>s'. alloc_many n s = (take n ps, s') \<and> avail s' (drop n ps) \<and> (\<forall>q. page s' q = page s q)"
proof (induction n arbitrary: s ps)
  case 0
  then show ?case by simp
next
  case (Suc n)
  then obtain p qs where ps: "ps = p # qs" by (cases ps) auto
  with Suc.prems obtain s1 where s1: "alloc s = (p, s1)" "avail s1 qs" "\<forall>q. page s1 q = page s q"
    using alloc_some by blast
  with Suc.IH [of s1 qs] Suc.prems ps show ?case by auto
qed

lemma alloc_many_distinct:
  assumes "avail s ps" and "n \<le> length ps" and "alloc_many n s = (qs, s')"
  shows "distinct qs \<and> length qs = n \<and> 0 \<notin> set qs"
proof -
  have "qs = take n ps" using alloc_many_take [OF assms(1,2)] assms(3) by auto
  moreover have "distinct ps" "\<forall>p \<in> set ps. page s p" using avail_ok [OF assms(1)] by auto
  ultimately show ?thesis
    using assms(2) page_nonzero by (auto dest: in_set_takeD)
qed

lemma alloc_exhausted: "avail s ps \<Longrightarrow> \<exists>s'. alloc_many (length ps) s = (ps, s') \<and> alloc s' = (0, s')"
  using alloc_many_take [of s ps "length ps"] alloc_none by auto

lemma free_many_all:
  "avail s ps \<Longrightarrow> distinct qs \<Longrightarrow> set qs \<inter> set ps = {} \<Longrightarrow> \<forall>q \<in> set qs. page s q \<Longrightarrow>
   \<exists>s'. free_many qs s = Some s' \<and> avail s' (rev qs @ ps)"
proof (induction qs arbitrary: s ps)
  case Nil
  then show ?case by simp
next
  case (Cons q qs)
  then obtain s1 where s1: "free q s = Some s1" "avail s1 (q # ps)" "\<forall>r. page s1 r = page s r"
    using free_some [of s ps q] by auto
  with Cons.IH [of s1 "q # ps"] Cons.prems show ?case by auto
qed

lemma free_after_alloc_many:
  assumes "avail s ps" and "n \<le> length ps" and "alloc_many n s = (qs, s')"
  shows "\<exists>s''. free_many qs s' = Some s'' \<and> avail s'' (rev qs @ drop n ps)"
proof -
  have qs: "qs = take n ps" "avail s' (drop n ps)" "\<forall>q. page s' q = page s q"
    using alloc_many_take [OF assms(1,2)] assms(3) by auto
  moreover have "distinct ps" "\<forall>p \<in> set ps. page s p" using avail_ok [OF assms(1)] by auto
  moreover have "set (take n ps) \<inter> set (drop n ps) = {}"
    using \<open>distinct ps\<close> by (simp add: set_take_disj_set_drop_if_distinct)
  ultimately show ?thesis by (intro free_many_all) (auto dest: in_set_takeD)
qed

end

interpretation ka: page_allocator kalloc kfree kmem_inv ram_page
proof
  fix s :: "'a kmem_state_scheme" and ps p
  show "kmem_inv s [] \<Longrightarrow> kalloc s = (0, s)" by (rule kalloc_empty)
  show "kmem_inv s ps \<Longrightarrow> distinct ps \<and> (\<forall>p \<in> set ps. ram_page s p)"
    by (simp add: kmem_inv_def)
  show "\<not> ram_page s 0" by (simp add: ram_page_def)
  assume "kmem_inv s (p # ps)"
  then show "\<exists>s'. kalloc s = (p, s') \<and> kmem_inv s' ps \<and> (\<forall>q. ram_page s' q = ram_page s q)"
    using kalloc_Cons [of s p ps] ram_page_cong by (cases "kalloc s") blast
next
  fix s :: "'a kmem_state_scheme" and ps p
  assume "kmem_inv s ps" "ram_page s p" "p \<notin> set ps"
  then show "\<exists>s'. kfree p s = Some s' \<and> kmem_inv s' (p # ps) \<and> (\<forall>q. ram_page s' q = ram_page s q)"
    using kfree_inv [of s ps p] ram_page_cong by blast
qed

section \<open>Boot: kinit hands out all of RAM\<close>

lemma freerange_loop_ram:
  assumes "kmem_inv s ps" "page_aligned p" "kend s \<le> p" "p \<le> PHYSTOP" "p \<noteq> 0"
    and "\<forall>q \<in> set ps. q < p"
  shows "\<exists>s' qs. freerange_loop p PHYSTOP s = Some s' \<and> kmem_inv s' qs \<and> kend s' = kend s \<and>
           set qs = set ps \<union> {q. page_aligned q \<and> p \<le> q \<and> q < PHYSTOP}"
  using assms
proof (induction "unat PHYSTOP - unat p" arbitrary: p s ps rule: less_induct)
  case less
  have P: "unat p \<le> 0x88000000" using less.prems(4) by (simp add: PHYSTOP_val word_le_nat_alt)
  have next_p: "unat (p + 4096) = unat p + 4096" using P by (simp add: unat_word_ariths)
  obtain k where k: "unat p = 4096 * k" using less.prems(2) by (auto simp: page_aligned_unat)
  show ?case
  proof (cases "p + 4096 \<le> PHYSTOP")
    case False
    then have "unat p = 0x88000000"
      using P k by (simp add: PHYSTOP_val word_le_nat_alt next_p)
    then have "p = PHYSTOP" by (simp add: PHYSTOP_val word_unat_eq_iff)
    then have "{q. page_aligned q \<and> p \<le> q \<and> q < PHYSTOP} = {}" by auto
    with False less.prems(1) show ?thesis by (subst freerange_loop.simps) auto
  next
    case True
    then have lt: "p < PHYSTOP" by (simp add: PHYSTOP_val word_le_nat_alt word_less_nat_alt next_p)
    then have "ram_page s p" using less.prems by (simp add: ram_page_def)
    then obtain s1 where s1: "kfree p s = Some s1" "kmem_inv s1 (p # ps)" "kend s1 = kend s"
      using kfree_inv [OF less.prems(1)] less.prems(6) by blast
    have step: "q = p \<or> p + 4096 \<le> q" if "page_aligned q" "p \<le> q" for q
    proof -
      obtain j where "unat q = 4096 * j" using \<open>page_aligned q\<close> by (auto simp: page_aligned_unat)
      with k that(2) show ?thesis
        by (auto simp: word_unat_eq_iff word_le_nat_alt next_p)
    qed
    have p_lt: "p < p + 4096" by (simp add: word_less_nat_alt next_p)
    obtain s' qs where s': "freerange_loop (p + 4096) PHYSTOP s1 = Some s'" "kmem_inv s' qs"
      "kend s' = kend s1"
      "set qs = set (p # ps) \<union> {q. page_aligned q \<and> p + 4096 \<le> q \<and> q < PHYSTOP}"
    proof -
      have "\<exists>s' qs. freerange_loop (p + 4096) PHYSTOP s1 = Some s' \<and> kmem_inv s' qs \<and>
          kend s' = kend s1 \<and>
          set qs = set (p # ps) \<union> {q. page_aligned q \<and> p + 4096 \<le> q \<and> q < PHYSTOP}"
      proof (rule less.hyps)
        show "unat PHYSTOP - unat (p + 4096) < unat PHYSTOP - unat p"
          using lt by (simp add: next_p word_less_nat_alt)
        show "\<forall>q \<in> set (p # ps). q < p + 4096"
          using less.prems(6) p_lt by (auto dest: less_trans)
        show "kend s1 \<le> p + 4096" using s1(3) less.prems(3) p_lt by (simp add: order_trans)
        show "p + 4096 \<noteq> 0" using p_lt word_not_simps(1) by metis
      qed (use s1 True less.prems(2) page_aligned_next in auto)
      then show ?thesis using that by blast
    qed
    have "{q. page_aligned q \<and> p \<le> q \<and> q < PHYSTOP} =
        insert p {q. page_aligned q \<and> p + 4096 \<le> q \<and> q < PHYSTOP}"
      using step less.prems(2) lt p_lt by (auto intro: order_trans less_imp_le)
    then have "set qs = set ps \<union> {q. page_aligned q \<and> p \<le> q \<and> q < PHYSTOP}"
      using s'(4) by auto
    moreover have "freerange_loop p PHYSTOP s = Some s'"
      using True s1(1) s'(1) by (subst freerange_loop.simps) simp
    ultimately show ?thesis using s' s1(3) by auto
  qed
qed

text \<open>
  C5: \<open>kinit\<close> returns, and afterwards the free list holds exactly the page-aligned RAM pages
  from the end of the kernel image up to \<open>PHYSTOP\<close>, each of them once.
\<close>

theorem kinit_frees_ram:
  assumes "0 < kend s" and "kend s \<le> PHYSTOP" and "freelist s = 0"
  shows "\<exists>s' ps. kinit s = Some s' \<and> kmem_inv s' ps \<and> kend s' = kend s \<and>
           set ps = {q. page_aligned q \<and> kend s \<le> q \<and> q < PHYSTOP}"
proof -
  have k: "unat (kend s) \<le> 0x88000000" using assms(2) by (simp add: PHYSTOP_val word_le_nat_alt)
  then have small: "unat (kend s) + 4095 < 2 ^ 64" by simp
  have "page_aligned PHYSTOP" by (simp add: PHYSTOP_val page_aligned_unat)
  then have up: "PGROUNDUP (kend s) \<le> q \<longleftrightarrow> kend s \<le> q" if "page_aligned q" for q
    using that PGROUNDUP_le_iff [OF small] by simp
  have p: "kend s \<le> PGROUNDUP (kend s)" using up [of "PGROUNDUP (kend s)"] by simp
  have "PGROUNDUP (kend s) \<le> PHYSTOP" using up [OF \<open>page_aligned PHYSTOP\<close>] assms(2) by simp
  moreover have "PGROUNDUP (kend s) \<noteq> 0" using p assms(1) by auto
  ultimately obtain s' qs where "freerange_loop (PGROUNDUP (kend s)) PHYSTOP s = Some s'" "kmem_inv s' qs"
    "kend s' = kend s" "set qs = {q. page_aligned q \<and> PGROUNDUP (kend s) \<le> q \<and> q < PHYSTOP}"
    using freerange_loop_ram [of s "[]" "PGROUNDUP (kend s)"] assms(3) p by (auto simp: kmem_inv_Nil)
  moreover have "{q. page_aligned q \<and> PGROUNDUP (kend s) \<le> q \<and> q < PHYSTOP} =
      {q. page_aligned q \<and> kend s \<le> q \<and> q < PHYSTOP}"
    using up by auto
  ultimately show ?thesis by (auto simp: kinit_def freerange_def)
qed

definition boot_state :: kmem_state where
  "boot_state = \<lparr>mem = (\<lambda>_. 0), freelist = 0, kend = 0x80021d50\<rparr>"

theorem kinit_frees_ram_witness:
  "\<exists>s' ps. kinit boot_state = Some s' \<and> kmem_inv s' ps \<and> 0x80022000 \<in> set ps"
proof -
  have "\<exists>s' ps. kinit boot_state = Some s' \<and> kmem_inv s' ps \<and> kend s' = kend boot_state \<and>
           set ps = {q. page_aligned q \<and> kend boot_state \<le> q \<and> q < PHYSTOP}"
    by (rule kinit_frees_ram) (simp_all add: boot_state_def PHYSTOP_val)
  moreover have "page_aligned 0x80022000" "kend boot_state \<le> 0x80022000" "0x80022000 < PHYSTOP"
    by (simp_all add: boot_state_def PHYSTOP_val page_aligned_def)
  ultimately show ?thesis by blast
qed

text \<open>
  C6: \<open>n\<close> calls of \<open>kalloc\<close> on a list of at least \<open>n\<close> free pages give \<open>n\<close> different RAM pages,
  and freeing them again puts exactly these pages back in front of the rest.
\<close>

theorem kalloc_kfree_many:
  assumes "kmem_inv s ps" and "n \<le> length ps" and "ka.alloc_many n s = (qs, s')"
  shows "distinct qs \<and> length qs = n \<and> (\<forall>q \<in> set qs. ram_page s q) \<and> kmem_inv s' (drop n ps) \<and>
         (\<exists>s''. ka.free_many qs s' = Some s'' \<and> kmem_inv s'' (rev qs @ drop n ps))"
proof -
  have "qs = take n ps" "kmem_inv s' (drop n ps)" using ka.alloc_many_take [OF assms(1,2)] assms(3) by auto
  then have "\<forall>q \<in> set qs. ram_page s q" using assms(1) by (auto simp: kmem_inv_def dest: in_set_takeD)
  then show ?thesis
    using ka.alloc_many_distinct [OF assms] ka.free_after_alloc_many [OF assms] \<open>kmem_inv s' (drop n ps)\<close>
    by blast
qed

theorem kalloc_kfree_many_witness:
  "\<exists>s' s''. ka.alloc_many 1 (boot_state\<lparr>freelist := 0x80022000\<rparr>) = ([0x80022000], s') \<and>
     ka.free_many [0x80022000] s' = Some s'' \<and> kmem_inv s'' [0x80022000]"
proof -
  let ?s = "boot_state\<lparr>freelist := 0x80022000\<rparr>"
  have inv: "kmem_inv ?s [0x80022000]"
    by (simp add: kmem_inv_def boot_state_def ram_page_def page_aligned_def PHYSTOP_val)
  moreover obtain s' where s': "ka.alloc_many 1 ?s = ([0x80022000], s')"
    by (simp add: kalloc_def boot_state_def)
  ultimately show ?thesis
    using kalloc_kfree_many [OF inv _ s'] by auto
qed

end
