(* ===== verification/Cow_Groups.thy ===== *)
theory Cow_Groups
  imports Kalloc
begin

text \<open>
  The copy-on-write groups of kernel/cow.c: a fixed array of groups, each with the list of the
  physical pages its processes share and a count of processes. The state extends the allocator's
  with the array and with the group of the running process, \<open>myproc()->cow_group\<close>.
  A null result of \<open>get_cow_group\<close> that the caller dereferences is \<open>None\<close>.
\<close>

section \<open>State\<close>

definition NPROC :: nat where "NPROC = 64"
definition SHMEM_MAX :: nat where "SHMEM_MAX = 100"

record cow_group =
  group :: int
  shmem :: "u64 list"
  count :: int

record cow_state = kmem_state +
  cow_groups :: "cow_group list"
  my_group :: int

section \<open>Operations\<close>

definition get_cow_group :: "int \<Rightarrow> cow_group list \<Rightarrow> nat option" where
  "get_cow_group g gs = (if g = -1 then None else first_index (\<lambda>c. group c = g) gs)"

definition cow_group_init :: "int \<Rightarrow> cow_group list \<Rightarrow> cow_group list" where
  "cow_group_init groupno gs =
     (case first_index (\<lambda>c. group c = 0) gs of
        None \<Rightarrow> gs
      | Some i \<Rightarrow> gs[i := (gs ! i)\<lparr>group := groupno\<rparr>])"

definition get_cow_group_count :: "int \<Rightarrow> cow_group list \<Rightarrow> int option" where
  "get_cow_group_count g gs = do { i \<leftarrow> get_cow_group g gs; Some (count (gs ! i)) }"

definition incr_cow_group_count :: "int \<Rightarrow> cow_group list \<Rightarrow> cow_group list option" where
  "incr_cow_group_count g gs = do {
     i \<leftarrow> get_cow_group g gs;
     c \<leftarrow> get_cow_group_count g gs;
     Some (gs[i := (gs ! i)\<lparr>count := c + 1\<rparr>]) }"

definition decr_cow_group_count :: "int \<Rightarrow> cow_group list \<Rightarrow> cow_group list option" where
  "decr_cow_group_count g gs = do {
     i \<leftarrow> get_cow_group g gs;
     c \<leftarrow> get_cow_group_count g gs;
     Some (gs[i := (gs ! i)\<lparr>count := c - 1\<rparr>]) }"

text \<open>The index at which the loop of \<open>add_shmem\<close> stops, \<open>None\<close> when it returns at a duplicate.\<close>

primrec shmem_slot :: "u64 \<Rightarrow> u64 list \<Rightarrow> nat option" where
  "shmem_slot pa [] = Some 0"
| "shmem_slot pa (x # xs) =
     (if x = pa then None else if x = 0 then Some 0 else map_option Suc (shmem_slot pa xs))"

text \<open>
  The store after the loop has no bound check: with the array full it goes to
  \<open>shmem[SHMEM_MAX]\<close>, which in the struct's layout is the field \<open>count\<close> that follows the
  array (offset 808), so the low 32 bits of the address become the count.
\<close>

definition store_shmem :: "nat \<Rightarrow> u64 \<Rightarrow> cow_group \<Rightarrow> cow_group" where
  "store_shmem index pa c =
     (if index < length (shmem c) then c\<lparr>shmem := (shmem c)[index := pa]\<rparr>
      else c\<lparr>count := sint (ucast pa :: u32)\<rparr>)"

definition add_shmem :: "int \<Rightarrow> u64 \<Rightarrow> cow_group list \<Rightarrow> cow_group list option" where
  "add_shmem g pa gs =
     (if g = -1 then Some gs
      else do {
        i \<leftarrow> get_cow_group g gs;
        case shmem_slot pa (shmem (gs ! i)) of
          None \<Rightarrow> Some gs
        | Some index \<Rightarrow> Some (gs[i := store_shmem index pa (gs ! i)]) })"

primrec in_shmem :: "u64 \<Rightarrow> u64 list \<Rightarrow> bool" where
  "in_shmem pa [] = False"
| "in_shmem pa (x # xs) = (if x = 0 then False else if x = pa then True else in_shmem pa xs)"

definition is_shmem :: "int \<Rightarrow> u64 \<Rightarrow> cow_group list \<Rightarrow> bool option" where
  "is_shmem g pa gs =
     (if g = -1 then Some False
      else do { i \<leftarrow> get_cow_group g gs; Some (in_shmem pa (shmem (gs ! i))) })"

definition cow_init :: "cow_group list" where
  "cow_init = replicate NPROC \<lparr>group = -1, shmem = replicate SHMEM_MAX 0, count = 0\<rparr>"

section \<open>The set of shared pages\<close>

text \<open>A page list in use: nonzero pages, all different, then zeros up to the end of the array.\<close>

definition shmem_ok :: "u64 list \<Rightarrow> bool" where
  "shmem_ok xs \<longleftrightarrow> (\<exists>ps k. xs = ps @ replicate k 0 \<and> 0 \<notin> set ps \<and> distinct ps)"

definition pages_of :: "u64 list \<Rightarrow> u64 set" where
  "pages_of xs = set xs - {0}"

lemma in_shmem_append_zeros: "0 \<notin> set ps \<Longrightarrow> in_shmem pa (ps @ replicate k 0) \<longleftrightarrow> pa \<in> set ps"
  by (induction ps) (cases k, auto)

lemma in_shmem_pages: "shmem_ok xs \<Longrightarrow> in_shmem pa xs \<longleftrightarrow> pa \<in> pages_of xs"
  by (auto simp: shmem_ok_def pages_of_def in_shmem_append_zeros)

lemma shmem_slot_append_zeros:
  "0 \<notin> set ps \<Longrightarrow> pa \<noteq> 0 \<Longrightarrow>
   shmem_slot pa (ps @ replicate k 0) = (if pa \<in> set ps then None else Some (length ps))"
  by (induction ps) (cases k, auto)

lemma shmem_slot_ok:
  assumes "shmem_ok xs" and "pa \<noteq> 0"
  shows "shmem_slot pa xs = None \<longleftrightarrow> pa \<in> pages_of xs"
    and "shmem_slot pa xs = Some i \<Longrightarrow> i < length xs \<Longrightarrow>
           shmem_ok (xs[i := pa]) \<and> pages_of (xs[i := pa]) = insert pa (pages_of xs)"
    and "shmem_slot pa xs = Some i \<Longrightarrow> i \<ge> length xs \<Longrightarrow> 0 \<notin> set xs \<and> pa \<notin> set xs"
proof -
  obtain ps k where xs: "xs = ps @ replicate k 0" "0 \<notin> set ps" "distinct ps"
    using assms(1) by (auto simp: shmem_ok_def)
  note slot = shmem_slot_append_zeros [OF xs(2) assms(2), of k]
  show "shmem_slot pa xs = None \<longleftrightarrow> pa \<in> pages_of xs"
    using slot xs assms(2) by (auto simp: pages_of_def)
  assume i: "shmem_slot pa xs = Some i"
  then have pa: "pa \<notin> set ps" "i = length ps" using slot xs(1) by (auto split: if_splits)
  show "0 \<notin> set xs \<and> pa \<notin> set xs" if "i \<ge> length xs"
    using that pa xs assms(2) by simp
  assume "i < length xs"
  then obtain k' where k': "k = Suc k'" using pa xs(1) by (cases k) auto
  then have upd: "xs[i := pa] = (ps @ [pa]) @ replicate k' 0"
    using pa xs(1) by simp
  have "shmem_ok (xs[i := pa])"
    unfolding shmem_ok_def upd using pa(1) xs(2,3) assms(2)
    by (intro exI [of _ "ps @ [pa]"] exI [of _ k']) auto
  moreover have "pages_of (xs[i := pa]) = insert pa (pages_of xs)"
    unfolding pages_of_def upd using xs assms(2) by auto
  ultimately show "shmem_ok (xs[i := pa]) \<and> pages_of (xs[i := pa]) = insert pa (pages_of xs)" ..
qed

end
