(* ===== verification/Vm.thy ===== *)
theory Vm
  imports Cow_Groups
begin

text \<open>
  Page tables and user memory: kernel/vm.c of assignment 2, over the byte memory the page
  allocator hands out. A page table is its address; its 512 entries are 64-bit words in the
  page. Kernel pointers are addresses in the direct map, so \<open>copyin\<close> and \<open>copyout\<close> move bytes
  inside the same memory. \<open>None\<close> is a panic (\<open>walk\<close>, \<open>mappages: remap\<close>, \<open>uvmunmap: \<dots>\<close>,
  \<open>freewalk: leaf\<close>, \<open>kfree\<close>); a failed walk or a full memory is the value the code returns.
\<close>

section \<open>Walking and mapping\<close>

primrec walk_level ::
  "u64 \<Rightarrow> u64 \<Rightarrow> bool \<Rightarrow> nat \<Rightarrow> 'a kmem_state_scheme \<Rightarrow> u64 \<times> 'a kmem_state_scheme" where
  "walk_level va pagetable alloc 0 s = (pte_slot pagetable (PX 0 va), s)"
| "walk_level va pagetable alloc (Suc l) s =
     (let pte = pte_slot pagetable (PX (Suc l) va);
          e = load64 (mem s) pte
      in if e AND PTE_V \<noteq> 0 then walk_level va (PTE2PA e) alloc l s
         else if \<not> alloc then (0, s)
         else (case kalloc s of (p, s1) \<Rightarrow>
                 if p = 0 then (0, s1)
                 else let s2 = s1\<lparr>mem := memset (mem s1) p 0 4096\<rparr>;
                          s3 = s2\<lparr>mem := store64 (mem s2) pte (PA2PTE p OR PTE_V)\<rparr>
                      in walk_level va p alloc l s3))"

definition walk ::
  "u64 \<Rightarrow> u64 \<Rightarrow> bool \<Rightarrow> 'a kmem_state_scheme \<Rightarrow> (u64 \<times> 'a kmem_state_scheme) option" where
  "walk pagetable va alloc s =
     (if MAXVA \<le> va then None else Some (walk_level va pagetable alloc 2 s))"

definition walkaddr :: "u64 \<Rightarrow> u64 \<Rightarrow> 'a kmem_state_scheme \<Rightarrow> u64" where
  "walkaddr pagetable va s =
     (if MAXVA \<le> va then 0
      else let pte = fst (walk_level va pagetable False 2 s) in
        if pte = 0 then 0
        else let e = load64 (mem s) pte in
          if e AND PTE_V = 0 then 0
          else if e AND PTE_U = 0 then 0
          else PTE2PA e)"

partial_function (option) mappages_loop ::
  "u64 \<Rightarrow> u64 \<Rightarrow> u64 \<Rightarrow> u64 \<Rightarrow> u64 \<Rightarrow> 'a kmem_state_scheme
     \<Rightarrow> (int \<times> 'a kmem_state_scheme) option" where
  "mappages_loop pagetable a last_a pa perm s = do {
     (pte, s1) \<leftarrow> walk pagetable a True s;
     if pte = 0 then Some (-1, s1)
     else if load64 (mem s1) pte AND PTE_V \<noteq> 0 then None \<comment> \<open>panic mappages: remap\<close>
     else let s2 = s1\<lparr>mem := store64 (mem s1) pte (PA2PTE pa OR perm OR PTE_V)\<rparr> in
       if a = last_a then Some (0, s2)
       else mappages_loop pagetable (a + PGSIZE) last_a (pa + PGSIZE) perm s2 }"

definition mappages ::
  "u64 \<Rightarrow> u64 \<Rightarrow> u64 \<Rightarrow> u64 \<Rightarrow> u64 \<Rightarrow> 'a kmem_state_scheme
     \<Rightarrow> (int \<times> 'a kmem_state_scheme) option" where
  "mappages pagetable va sz pa perm s =
     (if sz = 0 then None
      else mappages_loop pagetable (PGROUNDDOWN va) (PGROUNDDOWN (va + sz - 1)) pa perm s)"

definition kvmmap ::
  "u64 \<Rightarrow> u64 \<Rightarrow> u64 \<Rightarrow> u64 \<Rightarrow> u64 \<Rightarrow> 'a kmem_state_scheme \<Rightarrow> 'a kmem_state_scheme option" where
  "kvmmap kpgtbl va pa sz perm s = do {
     (r, s1) \<leftarrow> mappages kpgtbl va sz pa perm s;
     if r \<noteq> 0 then None else Some s1 }"

definition uvmcreate :: "'a kmem_state_scheme \<Rightarrow> u64 \<times> 'a kmem_state_scheme" where
  "uvmcreate s =
     (case kalloc s of (p, s1) \<Rightarrow>
        if p = 0 then (0, s1) else (p, s1\<lparr>mem := memset (mem s1) p 0 4096\<rparr>))"

section \<open>Unmapping and freeing\<close>

text \<open>\<open>free_unless_shared\<close>: the pages a copy-on-write group still shares are not freed.\<close>

definition free_unless_shared ::
  "u64 \<Rightarrow> 'a cow_state_scheme \<Rightarrow> 'a cow_state_scheme option" where
  "free_unless_shared pa s = do {
     sh \<leftarrow> is_shmem (my_group s) pa (cow_groups s);
     if sh then do {
       c \<leftarrow> get_cow_group_count (my_group s) (cow_groups s);
       if c = 1 then kfree pa s else Some s }
     else kfree pa s }"

partial_function (option) uvmunmap_loop ::
  "u64 \<Rightarrow> u64 \<Rightarrow> u64 \<Rightarrow> bool \<Rightarrow> 'a cow_state_scheme \<Rightarrow> 'a cow_state_scheme option" where
  "uvmunmap_loop pagetable a last_a do_free s =
     (if a < last_a then do {
        (pte, _) \<leftarrow> walk pagetable a False s;
        if pte = 0 then None \<comment> \<open>panic uvmunmap: walk\<close>
        else let e = load64 (mem s) pte in
          if e AND PTE_V = 0 then uvmunmap_loop pagetable (a + PGSIZE) last_a do_free s
          else if PTE_FLAGS e = PTE_V then None \<comment> \<open>panic uvmunmap: not a leaf\<close>
          else do {
            s1 \<leftarrow> (if do_free then free_unless_shared (PTE2PA e) s else Some s);
            uvmunmap_loop pagetable (a + PGSIZE) last_a do_free
              (s1\<lparr>mem := store64 (mem s1) pte 0\<rparr>) } }
      else Some s)"

definition uvmunmap ::
  "u64 \<Rightarrow> u64 \<Rightarrow> u64 \<Rightarrow> bool \<Rightarrow> 'a cow_state_scheme \<Rightarrow> 'a cow_state_scheme option" where
  "uvmunmap pagetable va npages do_free s =
     (if va mod PGSIZE \<noteq> 0 then None
      else uvmunmap_loop pagetable va (va + npages * PGSIZE) do_free s)"

definition uvmdealloc ::
  "u64 \<Rightarrow> u64 \<Rightarrow> u64 \<Rightarrow> 'a cow_state_scheme \<Rightarrow> (u64 \<times> 'a cow_state_scheme) option" where
  "uvmdealloc pagetable oldsz newsz s =
     (if oldsz \<le> newsz then Some (oldsz, s)
      else if PGROUNDUP newsz < PGROUNDUP oldsz
      then let npages = (PGROUNDUP oldsz - PGROUNDUP newsz) div PGSIZE in do {
        s1 \<leftarrow> uvmunmap pagetable (PGROUNDUP newsz) (scast (ucast npages :: u32)) True s;
        Some (newsz, s1) }
      else Some (newsz, s))"

partial_function (option) uvmalloc_loop ::
  "u64 \<Rightarrow> u64 \<Rightarrow> u64 \<Rightarrow> u64 \<Rightarrow> u64 \<Rightarrow> 'a cow_state_scheme
     \<Rightarrow> (u64 \<times> 'a cow_state_scheme) option" where
  "uvmalloc_loop pagetable a oldsz newsz xperm s =
     (if a < newsz then
        (case kalloc s of (p, s1) \<Rightarrow>
           if p = 0 then do {
             (_, s2) \<leftarrow> uvmdealloc pagetable a oldsz s1; Some (0, s2) }
           else do {
             (r, s2) \<leftarrow> mappages pagetable a PGSIZE p (PTE_R OR PTE_U OR xperm)
                         (s1\<lparr>mem := memset (mem s1) p 0 4096\<rparr>);
             if r \<noteq> 0 then do {
               s3 \<leftarrow> kfree p s2;
               (_, s4) \<leftarrow> uvmdealloc pagetable a oldsz s3;
               Some (0, s4) }
             else uvmalloc_loop pagetable (a + PGSIZE) oldsz newsz xperm s2 })
      else Some (newsz, s))"

definition uvmalloc ::
  "u64 \<Rightarrow> u64 \<Rightarrow> u64 \<Rightarrow> u64 \<Rightarrow> 'a cow_state_scheme \<Rightarrow> (u64 \<times> 'a cow_state_scheme) option" where
  "uvmalloc pagetable oldsz newsz xperm s =
     (if newsz < oldsz then Some (oldsz, s)
      else uvmalloc_loop pagetable (PGROUNDUP oldsz) (PGROUNDUP oldsz) newsz xperm s)"

definition uvmfirst ::
  "u64 \<Rightarrow> u64 \<Rightarrow> u32 \<Rightarrow> 'a kmem_state_scheme \<Rightarrow> 'a kmem_state_scheme option" where
  "uvmfirst pagetable src sz s =
     (if 4096 \<le> sz then None
      else case kalloc s of (p, s1) \<Rightarrow>
        do { (_, s2) \<leftarrow> mappages pagetable 0 PGSIZE p (PTE_W OR PTE_R OR PTE_X OR PTE_U)
                          (s1\<lparr>mem := memset (mem s1) p 0 4096\<rparr>);
             Some (s2\<lparr>mem := memmove (mem s2) p src sz\<rparr>) })"

text \<open>\<open>freewalk_from pt i\<close>: the loop of \<open>freewalk pt\<close> from entry \<open>i\<close> on, the recursion included.\<close>

partial_function (option) freewalk_from ::
  "u64 \<Rightarrow> u64 \<Rightarrow> 'a kmem_state_scheme \<Rightarrow> 'a kmem_state_scheme option" where
  "freewalk_from pagetable i s =
     (if i < 512 then
        let slot = pte_slot pagetable i; pte = load64 (mem s) slot in
        if pte AND PTE_V \<noteq> 0 \<and> pte AND (PTE_R OR PTE_W OR PTE_X) = 0 then do {
          s1 \<leftarrow> freewalk_from (PTE2PA pte) 0 s;
          freewalk_from pagetable (i + 1) (s1\<lparr>mem := store64 (mem s1) slot 0\<rparr>) }
        else if pte AND PTE_V \<noteq> 0 then None \<comment> \<open>panic freewalk: leaf\<close>
        else freewalk_from pagetable (i + 1) s
      else kfree pagetable s)"

definition freewalk :: "u64 \<Rightarrow> 'a kmem_state_scheme \<Rightarrow> 'a kmem_state_scheme option" where
  "freewalk pagetable s = freewalk_from pagetable 0 s"

definition uvmfree :: "u64 \<Rightarrow> u64 \<Rightarrow> 'a cow_state_scheme \<Rightarrow> 'a cow_state_scheme option" where
  "uvmfree pagetable sz s = do {
     s1 \<leftarrow> (if 0 < sz then uvmunmap pagetable 0 (PGROUNDUP sz div PGSIZE) True s else Some s);
     freewalk pagetable s1 }"

section \<open>Copying an address space\<close>

partial_function (option) uvmcopy_loop ::
  "u64 \<Rightarrow> u64 \<Rightarrow> u64 \<Rightarrow> u64 \<Rightarrow> 'a cow_state_scheme \<Rightarrow> (int \<times> 'a cow_state_scheme) option" where
  "uvmcopy_loop old new i sz s =
     (if i < sz then do {
        (pte, _) \<leftarrow> walk old i False s;
        if pte = 0 then None \<comment> \<open>panic uvmcopy: pte should exist\<close>
        else let e = load64 (mem s) pte in
          if e AND PTE_V = 0 then uvmcopy_loop old new (i + PGSIZE) sz s
          else (case kalloc s of (p, s1) \<Rightarrow>
            if p = 0 then do {
              s2 \<leftarrow> uvmunmap new 0 (i div PGSIZE) True s1; Some (-1, s2) }
            else do {
              (r, s2) \<leftarrow> mappages new i PGSIZE p (PTE_FLAGS e)
                          (s1\<lparr>mem := memmove (mem s1) p (PTE2PA e) 4096\<rparr>);
              if r \<noteq> 0 then do {
                s3 \<leftarrow> kfree p s2;
                s4 \<leftarrow> uvmunmap new 0 (i div PGSIZE) True s3;
                Some (-1, s4) }
              else uvmcopy_loop old new (i + PGSIZE) sz s2 }) }
      else Some (0, s))"

definition uvmcopy ::
  "u64 \<Rightarrow> u64 \<Rightarrow> u64 \<Rightarrow> 'a cow_state_scheme \<Rightarrow> (int \<times> 'a cow_state_scheme) option" where
  "uvmcopy old new sz s = uvmcopy_loop old new 0 sz s"

definition uvmclear :: "u64 \<Rightarrow> u64 \<Rightarrow> 'a kmem_state_scheme \<Rightarrow> 'a kmem_state_scheme option" where
  "uvmclear pagetable va s = do {
     (pte, _) \<leftarrow> walk pagetable va False s;
     if pte = 0 then None
     else Some (s\<lparr>mem := store64 (mem s) pte (load64 (mem s) pte AND NOT PTE_U)\<rparr>) }"

definition uvminvalid :: "u64 \<Rightarrow> u64 \<Rightarrow> 'a kmem_state_scheme \<Rightarrow> 'a kmem_state_scheme option" where
  "uvminvalid pagetable va s = do {
     (pte, _) \<leftarrow> walk pagetable va False s;
     if pte = 0 then None
     else Some (s\<lparr>mem := store64 (mem s) pte (load64 (mem s) pte AND NOT PTE_V)\<rparr>) }"

section \<open>Copying between kernel and user memory\<close>

text \<open>The bytes left in the page of \<open>va\<close>, at most \<open>len\<close>: the \<open>n\<close> of the copy loops.\<close>

definition chunk :: "u64 \<Rightarrow> u64 \<Rightarrow> u64" where
  "chunk va len = (let n = PGSIZE - (va - PGROUNDDOWN va) in if n > len then len else n)"

lemma chunk_bounds: "0 < len \<Longrightarrow> 0 < chunk va len \<and> chunk va len \<le> len \<and> chunk va len \<le> 4096"
proof -
  have "unat (va - PGROUNDDOWN va) < 4096" by (simp add: unat_diff_PGROUNDDOWN)
  moreover from this have "va - PGROUNDDOWN va \<le> 4096" by (simp add: word_le_nat_alt)
  then have "unat (4096 - (va - PGROUNDDOWN va)) = 4096 - unat (va - PGROUNDDOWN va)"
    by (simp add: unat_sub)
  ultimately show "0 < len \<Longrightarrow> ?thesis"
    by (auto simp: chunk_def Let_def word_less_nat_alt word_le_nat_alt)
qed

function copyout ::
  "u64 \<Rightarrow> u64 \<Rightarrow> u64 \<Rightarrow> u64 \<Rightarrow> 'a kmem_state_scheme \<Rightarrow> int \<times> 'a kmem_state_scheme" where
  "copyout pagetable dstva src len s =
     (if 0 < len then
        let va0 = PGROUNDDOWN dstva; pa0 = walkaddr pagetable va0 s in
        if pa0 = 0 then (-1, s)
        else let n = chunk dstva len in
          copyout pagetable (va0 + PGSIZE) (src + n) (len - n)
            (s\<lparr>mem := memmove (mem s) (pa0 + (dstva - va0)) src (ucast n)\<rparr>)
      else (0, s))"
  by pat_completeness auto
termination
  by (relation "measure (\<lambda>(pagetable, dstva, src, len, s). unat len)")
     (use chunk_bounds in \<open>auto simp: Let_def unat_sub word_less_nat_alt word_le_nat_alt\<close>)

declare copyout.simps [simp del]

function copyin ::
  "u64 \<Rightarrow> u64 \<Rightarrow> u64 \<Rightarrow> u64 \<Rightarrow> 'a kmem_state_scheme \<Rightarrow> int \<times> 'a kmem_state_scheme" where
  "copyin pagetable dst srcva len s =
     (if 0 < len then
        let va0 = PGROUNDDOWN srcva; pa0 = walkaddr pagetable va0 s in
        if pa0 = 0 then (-1, s)
        else let n = chunk srcva len in
          copyin pagetable (dst + n) (va0 + PGSIZE) (len - n)
            (s\<lparr>mem := memmove (mem s) dst (pa0 + (srcva - va0)) (ucast n)\<rparr>)
      else (0, s))"
  by pat_completeness auto
termination
  by (relation "measure (\<lambda>(pagetable, dst, srcva, len, s). unat len)")
     (use chunk_bounds in \<open>auto simp: Let_def unat_sub word_less_nat_alt word_le_nat_alt\<close>)

declare copyin.simps [simp del]

text \<open>The byte loop of \<open>copyinstr\<close> inside one page: the memory and whether the NUL was copied.\<close>

primrec copyinstr_page :: "memory \<Rightarrow> u64 \<Rightarrow> u64 \<Rightarrow> nat \<Rightarrow> memory \<times> bool" where
  "copyinstr_page m dst p 0 = (m, False)"
| "copyinstr_page m dst p (Suc n) =
     (if m p = 0 then (m(dst := 0), True)
      else copyinstr_page (m(dst := m p)) (dst + 1) (p + 1) n)"

function copyinstr ::
  "u64 \<Rightarrow> u64 \<Rightarrow> u64 \<Rightarrow> u64 \<Rightarrow> 'a kmem_state_scheme \<Rightarrow> int \<times> 'a kmem_state_scheme" where
  "copyinstr pagetable dst srcva maxlen s =
     (if 0 < maxlen then
        let va0 = PGROUNDDOWN srcva; pa0 = walkaddr pagetable va0 s in
        if pa0 = 0 then (-1, s)
        else let n = chunk srcva maxlen in
          case copyinstr_page (mem s) dst (pa0 + (srcva - va0)) (unat n) of
            (m, got_null) \<Rightarrow>
              if got_null then (0, s\<lparr>mem := m\<rparr>)
              else copyinstr pagetable (dst + n) (va0 + PGSIZE) (maxlen - n) (s\<lparr>mem := m\<rparr>)
      else (-1, s))"
  by pat_completeness auto
termination
  by (relation "measure (\<lambda>(pagetable, dst, srcva, maxlen, s). unat maxlen)")
     (use chunk_bounds in \<open>auto simp: Let_def unat_sub word_less_nat_alt word_le_nat_alt\<close>)

declare copyinstr.simps [simp del]

end
