(* ===== verification/Vm_Tree.thy ===== *)
theory Vm_Tree
  imports Vm
begin

text \<open>
  The page table as a tree. \<open>reach m root is\<close> is the table page reached from the root by the
  indices \<open>is\<close>, the deepest index first; \<open>leaf m root va\<close> is the last-level entry of a virtual
  address, 0 where a table is missing. \<open>pt_inv\<close> says that the table pages form a tree of RAM
  pages none of which is free. Under it, \<open>walk\<close> and \<open>mappages\<close> act on the map from pages to
  leaf entries: \<open>walk\<close> with \<open>alloc\<close> changes no leaf, \<open>mappages\<close> of a page changes that leaf only.
\<close>

section \<open>Tables reached by index paths\<close>

definition follow :: "memory \<Rightarrow> u64 \<Rightarrow> u64 \<Rightarrow> u64 option" where
  "follow m t i = (let e = load64 m (pte_slot t i) in
     if e AND PTE_V \<noteq> 0 then Some (PTE2PA e) else None)"

primrec reach :: "memory \<Rightarrow> u64 \<Rightarrow> u64 list \<Rightarrow> u64 option" where
  "reach m root [] = Some root"
| "reach m root (i # is) = do { t \<leftarrow> reach m root is; follow m t i }"

definition indices :: "u64 list \<Rightarrow> bool" where
  "indices is \<longleftrightarrow> length is \<le> 2 \<and> (\<forall>i \<in> set is. i < 512)"

definition tree :: "memory \<Rightarrow> u64 \<Rightarrow> bool" where
  "tree m root \<longleftrightarrow> (\<forall>is js t. indices is \<longrightarrow> indices js \<longrightarrow>
     reach m root is = Some t \<longrightarrow> reach m root js = Some t \<longrightarrow> is = js)"

definition pt_inv :: "'a kmem_state_scheme \<Rightarrow> u64 \<Rightarrow> u64 list \<Rightarrow> bool" where
  "pt_inv s root ps \<longleftrightarrow> kmem_inv s ps \<and> tree (mem s) root \<and>
     (\<forall>is t. indices is \<longrightarrow> reach (mem s) root is = Some t \<longrightarrow> ram_page s t \<and> t \<notin> set ps)"

definition ix :: "nat \<Rightarrow> u64 \<Rightarrow> u64 list" where
  "ix l va = (if l = 0 then [PX 1 va, PX 2 va] else if l = 1 then [PX 2 va] else [])"

definition leaf :: "memory \<Rightarrow> u64 \<Rightarrow> u64 \<Rightarrow> u64" where
  "leaf m root va = (case reach m root (ix 0 va) of None \<Rightarrow> 0
     | Some t \<Rightarrow> load64 m (pte_slot t (PX 0 va)))"

lemma indices_ix [simp]: "indices (ix l va)"
  by (auto simp: indices_def ix_def PX_less)

lemma indices_tl: "indices (i # is) \<Longrightarrow> indices is"
  by (auto simp: indices_def)

lemma treeD: "tree m root \<Longrightarrow> indices is \<Longrightarrow> indices js \<Longrightarrow>
   reach m root is = Some t \<Longrightarrow> reach m root js = Some t \<Longrightarrow> is = js"
  by (auto simp: tree_def)

text \<open>A new table \<open>p\<close> hung into the empty entry \<open>i\<close> of the table at \<open>is\<close>.\<close>

lemma reach_hang:
  assumes tr: "tree m root" and t: "reach m root is = Some t" "indices (i # is)"
    and new: "follow m t i = None" "follow m' t i = Some p"
    and empty: "\<And>j. j < 512 \<Longrightarrow> follow m' p j = None"
    and same: "\<And>js u j. indices js \<Longrightarrow> reach m root js = Some u \<Longrightarrow> j < 512 \<Longrightarrow> (u, j) \<noteq> (t, i) \<Longrightarrow>
                 follow m' u j = follow m u j"
    and js: "indices js"
  shows "reach m' root js =
    (if js = i # is then Some p else if \<exists>j. js = j # i # is then None else reach m root js)"
  using js
proof (induction js)
  case Nil
  then show ?case by simp
next
  case (Cons j js)
  have js: "indices js" "j < 512" "length js < 2"
    using Cons.prems by (auto simp: indices_def)
  note IH = Cons.IH [OF js(1)]
  show ?case
  proof (cases "js = i # is")
    case True
    then show ?thesis using IH js(2) empty by simp
  next
    case False
    moreover have "\<not> (\<exists>k. js = k # i # is)" using js(3) by auto
    ultimately have eq: "reach m' root js = reach m root js" using IH by auto
    show ?thesis
    proof (cases "reach m root js")
      case None
      then have "j # js \<noteq> i # is" using t(1) by auto
      with eq None False show ?thesis by simp
    next
      case (Some u)
      show ?thesis
      proof (cases "(u, j) = (t, i)")
        case True
        then have "js = is"
          using treeD [OF tr js(1) indices_tl [OF t(2)]] Some t(1) by auto
        then show ?thesis using True eq Some new(2) by simp
      next
        case False
        have "j # js \<noteq> i # is" using False Some t(1) by auto
        moreover have "follow m' u j = follow m u j" using same [OF js(1) Some js(2) False] .
        ultimately show ?thesis using eq Some \<open>js \<noteq> i # is\<close> by auto
      qed
    qed
  qed
qed

text \<open>A store into a last-level table does not change the tree.\<close>

lemma reach_leaf_store:
  assumes same: "\<And>js u j. indices js \<Longrightarrow> length js \<le> 1 \<Longrightarrow> reach m root js = Some u \<Longrightarrow> j < 512 \<Longrightarrow>
                 follow m' u j = follow m u j"
    and js: "indices js"
  shows "reach m' root js = reach m root js"
  using js
proof (induction js)
  case Nil
  then show ?case by simp
next
  case (Cons j js)
  then have "indices js" "length js \<le> 1" "j < 512" by (auto simp: indices_def)
  with Cons.IH same show ?case by (cases "reach m root js") auto
qed

section \<open>Entries as memory\<close>

lemma follow_cong: "load64 m (pte_slot t i) = load64 m' (pte_slot t i) \<Longrightarrow> follow m t i = follow m' t i"
  by (simp add: follow_def)

lemma slot_other_page:
  assumes "page_aligned t" "page_aligned p" "t \<noteq> p" "i < 512"
    and "\<And>b. \<not> in_region p 4096 b \<Longrightarrow> m' b = m b"
  shows "load64 m' (pte_slot t i) = load64 m (pte_slot t i)"
proof (rule load64_cong)
  fix b assume "in_region (pte_slot t i) 8 b"
  then have "in_region t 4096 b" by (rule pte_slot_in_page [OF assms(4)])
  then show "m' b = m b" using pages_disjoint [OF assms(1-3)] assms(5) by blast
qed

lemma slot_other_slot:
  assumes "page_aligned t" "page_aligned u" "i < 512" "j < 512" "(u, j) \<noteq> (t, i)"
  shows "load64 (store64 m (pte_slot t i) v) (pte_slot u j) = load64 m (pte_slot u j)"
proof (rule load_store_64_other)
  fix c assume c: "in_region (pte_slot u j) 8 c"
  show "\<not> in_region (pte_slot t i) 8 c"
  proof (cases "u = t")
    case True
    with assms(5) have "j \<noteq> i" by simp
    with c True show ?thesis using pte_slot_disjoint [OF assms(4,3)] by blast
  next
    case False
    have "in_region u 4096 c" by (rule pte_slot_in_page [OF assms(4) c])
    then have "\<not> in_region t 4096 c" using pages_disjoint [OF assms(2,1) False] by blast
    then show ?thesis using pte_slot_in_page [OF assms(3)] by blast
  qed
qed

lemma pte_slot_nonzero: "page_aligned t \<Longrightarrow> t \<noteq> 0 \<Longrightarrow> i < 512 \<Longrightarrow> pte_slot t i \<noteq> 0"
proof
  assume t: "page_aligned t" "t \<noteq> 0" "i < 512" "pte_slot t i = 0"
  have "in_region t 4096 0" using pte_slot_in_page [OF t(3), of t 0] t(4) by simp
  then show False using t(1,2) by (simp add: in_page_iff PGROUNDDOWN_id page_aligned_def)
qed

lemma load_zeroed:
  assumes "i < 512" and "\<And>b. in_region p 4096 b \<Longrightarrow> m b = 0"
  shows "load64 m (pte_slot p i) = 0"
proof -
  have "load64 m (pte_slot p i) = load64 (\<lambda>_. 0) (pte_slot p i)"
    by (rule load64_cong) (use assms pte_slot_in_page in blast)
  also have "\<dots> = 0" by (simp add: load64_def numeral_eq_Suc)
  finally show ?thesis .
qed

lemma ram_page_small: "ram_page s p \<Longrightarrow> p < 2 ^ 54"
  by (auto simp: ram_page_def PHYSTOP_val word_less_nat_alt)

lemma valid_entry: "(x OR PTE_V) AND PTE_V \<noteq> 0"
proof
  assume "(x OR PTE_V) AND PTE_V = 0"
  then have "bit ((x OR PTE_V) AND PTE_V) 0 = bit (0 :: u64) 0" by simp
  then show False by (simp add: bit_simps)
qed

lemma PTE2PA_table: "ram_page s p \<Longrightarrow> PTE2PA (PA2PTE p OR PTE_V) = p"
  by (rule PTE2PA_PA2PTE) (auto simp: ram_page_def PHYSTOP_val word_less_nat_alt)

section \<open>walk\<close>

lemma pt_invD:
  assumes "pt_inv s root ps" and "indices is" and "reach (mem s) root is = Some t"
  shows "ram_page s t" "page_aligned t" "t \<noteq> 0" "t \<notin> set ps"
  using assms by (auto simp: pt_inv_def ram_page_def)

lemma reach_ix_Suc: "l < 2 \<Longrightarrow> reach m root (ix l va) = do { t \<leftarrow> reach m root (ix (Suc l) va); follow m t (PX (Suc l) va) }"
  by (auto simp: ix_def less_Suc_eq numeral_eq_Suc)

lemma ix_Suc: "l < 2 \<Longrightarrow> ix l va = PX (Suc l) va # ix (Suc l) va"
  by (auto simp: ix_def less_Suc_eq numeral_eq_Suc)

lemma walk_level_lookup:
  assumes "l \<le> 2" and "reach (mem s) root (ix l va) = Some t"
  shows "walk_level va t False l s =
    (case reach (mem s) root (ix 0 va) of None \<Rightarrow> 0 | Some t0 \<Rightarrow> pte_slot t0 (PX 0 va), s)"
  using assms
proof (induction l arbitrary: t)
  case 0
  then show ?case by simp
next
  case (Suc l)
  have r: "reach (mem s) root (ix l va) = follow (mem s) t (PX (Suc l) va)"
    using Suc.prems reach_ix_Suc [of l "mem s" root va] by simp
  show ?case
  proof (cases "follow (mem s) t (PX (Suc l) va)")
    case None
    have "reach (mem s) root (ix 0 va) = None"
    proof (cases l)
      case 0
      then show ?thesis using r None by simp
    next
      case (Suc k)
      then have "l = 1" using \<open>Suc l \<le> 2\<close> by simp
      then show ?thesis using r None reach_ix_Suc [of 0 "mem s" root va] by simp
    qed
    then show ?thesis using None by (simp add: follow_def Let_def split: if_splits)
  next
    case (Some u)
    then have "walk_level va t False (Suc l) s = walk_level va u False l s"
      by (auto simp: follow_def Let_def split: if_splits)
    then show ?thesis using Suc.IH [of u] Suc.prems r Some by simp
  qed
qed

lemma store_slot_frame:
  "i < 512 \<Longrightarrow> \<not> in_region t 4096 b \<Longrightarrow> store64 m (pte_slot t i) v b = m b"
  using pte_slot_in_page [of i t b] by (intro store64_frame) blast

lemmas reach_Cons = reach.simps(2)
declare reach_Cons [simp del]

text \<open>What \<open>walk\<close> may touch: the pages of the tables and the free pages it took.\<close>

definition table_page :: "memory \<Rightarrow> u64 \<Rightarrow> u64 \<Rightarrow> bool" where
  "table_page m root t \<longleftrightarrow> (\<exists>is. indices is \<and> reach m root is = Some t)"

definition pt_frame :: "u64 \<Rightarrow> 'a kmem_state_scheme \<Rightarrow> u64 list \<Rightarrow> 'a kmem_state_scheme \<Rightarrow> bool" where
  "pt_frame root s ps s' \<longleftrightarrow>
     (\<forall>b. (\<forall>q \<in> set ps. \<not> in_region q 4096 b) \<longrightarrow>
        (\<forall>t. table_page (mem s) root t \<longrightarrow> \<not> in_region t 4096 b) \<longrightarrow> mem s' b = mem s b) \<and>
     kend s' = kend s \<and> kmem_state.more s' = kmem_state.more s"

text \<open>One missing table: \<open>kalloc\<close>, zero it, enter it in the slot of the table above.\<close>

lemma hang_table:
  assumes inv: "pt_inv s root (p # ps)" and path: "indices (i # is)" "reach (mem s) root is = Some t"
    and none: "follow (mem s) t i = None"
    and s': "s' = s\<lparr>freelist := f, mem := store64 (memset (memset (mem s) p 5 4096) p 0 4096)
              (pte_slot t i) (PA2PTE p OR PTE_V)\<rparr>" "f = load64 (mem s) p"
  shows "pt_inv s' root ps"
    and "reach (mem s') root (i # is) = Some p"
    and "\<And>va. leaf (mem s') root va = leaf (mem s) root va"
    and "\<And>b. \<not> in_region p 4096 b \<Longrightarrow> \<not> in_region t 4096 b \<Longrightarrow> mem s' b = mem s b"
    and "\<And>u. table_page (mem s') root u \<Longrightarrow> table_page (mem s) root u \<or> u = p"
    and "\<And>js u. indices js \<Longrightarrow> reach (mem s) root js = Some u \<Longrightarrow> reach (mem s') root js = Some u"
proof -
  let ?m = "mem s" and ?z = "memset (memset (mem s) p 5 4096) p 0 4096"
  let ?m' = "store64 ?z (pte_slot t i) (PA2PTE p OR PTE_V)"
  have i: "i < 512" "indices is" using path by (auto simp: indices_def)
  have p: "ram_page s p" "page_aligned p" "p \<noteq> 0" "p \<notin> set ps"
    using inv by (auto simp: pt_inv_def kmem_inv_def ram_page_def)
  have t: "page_aligned t" "t \<noteq> p" using pt_invD [OF inv i(2) path(2)] by auto
  have z: "?z b = (if in_region p 4096 b then 0 else ?m b)" for b
    by (simp add: memset_apply)
  have tabs: "page_aligned u" "u \<noteq> p" if "indices js" "reach ?m root js = Some u" for js u
    using pt_invD [OF inv that] by auto
  have new: "follow ?m' t i = Some p"
    using PTE2PA_table [OF p(1)] valid_entry by (simp add: follow_def load_store_64)
  have slots: "load64 ?m' (pte_slot u j) = load64 ?m (pte_slot u j)"
    if "indices js" "reach ?m root js = Some u" "j < 512" "(u, j) \<noteq> (t, i)" for js u j
  proof -
    have "load64 ?m' (pte_slot u j) = load64 ?z (pte_slot u j)"
      using tabs(1) [OF that(1,2)] t i that(3,4) by (intro slot_other_slot) auto
    also have "\<dots> = load64 ?m (pte_slot u j)"
      using tabs [OF that(1,2)] p(2) that(3) by (intro slot_other_page) (auto simp: z)
    finally show ?thesis .
  qed
  have zero: "load64 ?m' (pte_slot p j) = 0" if "j < 512" for j
  proof -
    have "load64 ?m' (pte_slot p j) = load64 ?z (pte_slot p j)"
      using p(2) t i(1) that by (intro slot_other_slot) auto
    also have "\<dots> = 0" using that by (intro load_zeroed) (auto simp: z)
    finally show ?thesis .
  qed
  have reach': "reach ?m' root js =
      (if js = i # is then Some p else if \<exists>j. js = j # i # is then None else reach ?m root js)"
    if "indices js" for js
  proof (rule reach_hang [OF _ path(2,1) none new _ _ that])
    show "tree ?m root" using inv by (simp add: pt_inv_def)
    show "follow ?m' p j = None" if "j < 512" for j
      using zero [OF that] by (simp add: follow_def)
    show "follow ?m' u j = follow ?m u j"
      if "indices js" "reach ?m root js = Some u" "j < 512" "(u, j) \<noteq> (t, i)" for js u j
      using slots [OF that] by (rule follow_cong)
  qed
  have tree': "tree ?m' root"
    unfolding tree_def
  proof (intro allI impI)
    fix js ks u
    assume "indices js" "indices ks" "reach ?m' root js = Some u" "reach ?m' root ks = Some u"
    moreover have "reach ?m root js \<noteq> Some p" if "indices js" for js
      using tabs(2) [OF that] by blast
    moreover have "tree ?m root" using inv by (simp add: pt_inv_def)
    ultimately show "js = ks"
      by (auto simp: reach' dest: treeD split: if_splits)
  qed
  obtain s1 where s1: "kalloc s = (p, s1)" "kmem_inv s1 ps" "kend s1 = kend s" "mem s1 = memset ?m p 5 4096"
    using kalloc_Cons inv by (metis pt_inv_def surj_pair)
  then have fl: "freelist s1 = load64 ?m p"
    using p(3) by (auto simp: kalloc_def Let_def split: if_splits)
  have out: "?m' b = ?m b" if "\<not> in_region p 4096 b" "\<not> in_region t 4096 b" for b
    using that i(1) by (simp add: store_slot_frame z)
  have "is_freelist ?m' (load64 ?m p) ps"
  proof -
    have ram: "\<forall>q \<in> set ps. page_aligned q" using inv by (auto simp: pt_inv_def kmem_inv_def ram_page_def)
    have "is_freelist (memset ?m p 5 4096) (load64 ?m p) ps"
      using s1 fl by (simp add: kmem_inv_def)
    then have "is_freelist ?z (load64 ?m p) ps"
      by (rule is_freelist_other_page [OF _ p(2,4) ram]) (simp add: memset_apply)
    moreover have "t \<notin> set ps" using pt_invD [OF inv i(2) path(2)] by auto
    ultimately show ?thesis
      by (rule is_freelist_other_page [OF _ t(1) _ ram])
        (simp add: store_slot_frame i(1))
  qed
  then have kinv: "kmem_inv s' ps"
    using inv by (auto simp: s' kmem_inv_def pt_inv_def ram_page_def)
  show "pt_inv s' root ps"
    unfolding pt_inv_def
  proof (intro conjI kinv allI impI)
    show "tree (mem s') root" using tree' by (simp add: s')
  next
    fix js u assume u: "indices js" "reach (mem s') root js = Some u"
    then have "u = p \<or> reach ?m root js = Some u" using reach' [OF u(1)] by (auto simp: s' split: if_splits)
    then show "ram_page s' u"
      using p(1) pt_invD(1) [OF inv u(1)] by (auto simp: s' ram_page_def)
    show "u \<notin> set ps"
      using \<open>u = p \<or> reach ?m root js = Some u\<close> p(4) pt_invD(4) [OF inv u(1)] by auto
  qed
  show "reach (mem s') root (i # is) = Some p" using reach' [OF path(1)] by (simp add: s')
  show "leaf (mem s') root va = leaf (mem s) root va" for va
  proof -
    consider "ix 0 va = i # is" | "\<exists>j. ix 0 va = j # i # is"
      | "ix 0 va \<noteq> i # is" "\<nexists>j. ix 0 va = j # i # is" by blast
    then show ?thesis
    proof cases
      case 1
      have "reach ?m' root (ix 0 va) = Some p" using reach' [OF path(1)] 1 by simp
      moreover have "reach ?m root (ix 0 va) = None" using 1 path(2) none by (simp add: reach_Cons)
      ultimately show ?thesis using zero [OF PX_less] by (simp add: leaf_def s')
    next
      case 2
      then obtain j where j: "ix 0 va = j # i # is" by blast
      then have "reach ?m' root (ix 0 va) = None" using reach' [OF indices_ix, of 0 va] by simp
      moreover have "reach ?m root (ix 0 va) = None" using j path(2) none by (simp add: reach_Cons)
      ultimately show ?thesis by (simp add: leaf_def s')
    next
      case 3
      then have r: "reach ?m' root (ix 0 va) = reach ?m root (ix 0 va)"
        using reach' [of "ix 0 va"] by simp
      show ?thesis
      proof (cases "reach ?m root (ix 0 va)")
        case None
        then show ?thesis using r by (simp add: leaf_def s')
      next
        case (Some u)
        have "(u, PX 0 va) \<noteq> (t, i)"
        proof
          assume "(u, PX 0 va) = (t, i)"
          then have "ix 0 va = is"
            using treeD [of ?m root "ix 0 va" "is" t] Some path(2) i(2) inv
            by (simp add: pt_inv_def)
          then show False using path(1) by (auto simp: ix_def indices_def)
        qed
        then show ?thesis using r Some slots [OF _ Some PX_less]
          by (simp add: leaf_def s')
      qed
    qed
  qed
  show "mem s' b = mem s b" if "\<not> in_region p 4096 b" "\<not> in_region t 4096 b" for b
    using out [OF that] by (simp add: s')
  show "table_page (mem s') root u \<Longrightarrow> table_page (mem s) root u \<or> u = p" for u
    using reach' by (auto simp: table_page_def s' split: if_splits)
  show "reach (mem s') root js = Some u" if "indices js" "reach (mem s) root js = Some u" for js u
    using reach' [OF that(1)] that(2) path(2) none by (auto simp: s' reach_Cons)
qed

lemma pt_frame_trans:
  assumes "pt_frame root s3 ps1 s'"
    and "\<And>b. \<not> in_region p 4096 b \<Longrightarrow> \<not> in_region t 4096 b \<Longrightarrow> mem s3 b = mem s b"
    and "\<And>u. table_page (mem s3) root u \<Longrightarrow> table_page (mem s) root u \<or> u = p"
    and "table_page (mem s) root t" "kend s3 = kend s" "kmem_state.more s3 = kmem_state.more s"
  shows "pt_frame root s (p # ps1) s'"
  unfolding pt_frame_def
proof (intro conjI allI impI)
  fix b
  assume q: "\<forall>q \<in> set (p # ps1). \<not> in_region q 4096 b"
    and t: "\<forall>t. table_page (mem s) root t \<longrightarrow> \<not> in_region t 4096 b"
  have "\<forall>u. table_page (mem s3) root u \<longrightarrow> \<not> in_region u 4096 b"
    using assms(3) q t by auto
  then have "mem s' b = mem s3 b" using assms(1) q by (simp add: pt_frame_def)
  also have "\<dots> = mem s b" using assms(2,4) q t by simp
  finally show "mem s' b = mem s b" .
qed (use assms in \<open>simp_all add: pt_frame_def\<close>)

lemma walk_level_alloc:
  assumes "l \<le> 2" and "pt_inv s root ps" and "reach (mem s) root (ix l va) = Some t"
    and "walk_level va t True l s = (pte, s')"
  shows "\<exists>qs ps'. ps = qs @ ps' \<and> pt_inv s' root ps' \<and>
     (\<forall>vb. leaf (mem s') root vb = leaf (mem s) root vb) \<and>
     (\<forall>u. table_page (mem s') root u \<longrightarrow> table_page (mem s) root u \<or> u \<in> set qs) \<and>
     pt_frame root s ps s' \<and>
     (if pte = 0 then ps' = []
      else \<exists>t0. reach (mem s') root (ix 0 va) = Some t0 \<and> pte = pte_slot t0 (PX 0 va))"
  using assms
proof (induction l arbitrary: s ps t)
  case 0
  have "pte_slot t (PX 0 va) \<noteq> 0"
    using pt_invD(2,3) [OF "0.prems"(2) _ "0.prems"(3)] by (simp add: pte_slot_nonzero PX_less)
  with 0 show ?case by (intro exI [of _ "[]"] exI [of _ ps]) (auto simp: pt_frame_def)
next
  case (Suc l)
  let ?i = "PX (Suc l) va"
  have l: "l < 2" using Suc.prems(1) by simp
  have idx: "indices (?i # ix (Suc l) va)" using ix_Suc [OF l, of va] indices_ix [of l va] by simp
  have ixl: "ix l va = ?i # ix (Suc l) va" by (rule ix_Suc [OF l])
  show ?case
  proof (cases "follow (mem s) t ?i")
    case (Some u)
    then have "walk_level va t True (Suc l) s = walk_level va u True l s"
      by (auto simp: follow_def Let_def split: if_splits)
    moreover have "reach (mem s) root (ix l va) = Some u"
      using Some Suc.prems(3) ixl by (simp add: reach_Cons)
    ultimately show ?thesis using Suc.IH [of s ps u] Suc.prems l by simp
  next
    case None
    then have nv: "load64 (mem s) (pte_slot t ?i) AND PTE_V = 0"
      by (auto simp: follow_def Let_def split: if_splits)
    have kinv: "kmem_inv s ps" using Suc.prems(2) by (simp add: pt_inv_def)
    show ?thesis
    proof (cases ps)
      case Nil
      then have "kalloc s = (0, s)" using kinv kalloc_empty by blast
      then have "pte = 0" "s' = s" using Suc.prems(4) nv by auto
      then show ?thesis using Suc.prems(2) Nil
        by (intro exI [of _ "[]"] exI [of _ ps]) (auto simp: pt_frame_def)
    next
      case (Cons p ps1)
      have p: "p \<noteq> 0" "freelist s = p" using kinv Cons by (auto simp: kmem_inv_def)
      let ?s3 = "s\<lparr>freelist := load64 (mem s) p, mem := store64 (memset (memset (mem s) p 5 4096) p 0 4096)
              (pte_slot t ?i) (PA2PTE p OR PTE_V)\<rparr>"
      have w: "walk_level va t True (Suc l) s = walk_level va p True l ?s3"
        using nv p by (simp add: kalloc_def Let_def)
      note h = hang_table [OF Suc.prems(2) [unfolded Cons] idx Suc.prems(3) None refl refl]
      have "reach (mem ?s3) root (ix l va) = Some p" using h(2) ixl by simp
      then obtain qs ps' where q: "ps1 = qs @ ps'" "pt_inv s' root ps'"
        "\<forall>vb. leaf (mem s') root vb = leaf (mem ?s3) root vb"
        "\<forall>u. table_page (mem s') root u \<longrightarrow> table_page (mem ?s3) root u \<or> u \<in> set qs"
        "pt_frame root ?s3 ps1 s'"
        "if pte = 0 then ps' = []
         else \<exists>t0. reach (mem s') root (ix 0 va) = Some t0 \<and> pte = pte_slot t0 (PX 0 va)"
        using Suc.IH [OF _ h(1)] Suc.prems(4) w l by (metis less_imp_le)
      have "table_page (mem s) root t"
        unfolding table_page_def using Suc.prems(3) indices_ix by blast
      then have frame: "pt_frame root s ps s'"
        using pt_frame_trans [OF q(5), where s = s and p = p and t = t] h(4,5) Cons by simp
      have tabs: "\<forall>u. table_page (mem s') root u \<longrightarrow> table_page (mem s) root u \<or> u \<in> set (p # qs)"
        using q(4) h(5) by auto
      show ?thesis using q(1,2,3,6) h(3) Cons frame tabs
        by (intro exI [of _ "p # qs"] exI [of _ ps']) simp
    qed
  qed
qed

end
