(* ===== verification/Vm_Map.thy ===== *)
theory Vm_Map
  imports Vm_Tree
begin

text \<open>
  What \<open>walkaddr\<close>, \<open>mappages\<close> and the entry updates of kernel/vm.c do to the map from pages to
  leaf entries. \<open>mappages\<close> over \<open>n\<close> pages enters exactly those \<open>n\<close> leaves, or returns -1 with a
  prefix of them entered because the free pages ran out while a table was missing.
\<close>

section \<open>Lookups\<close>

lemma walk_lookup:
  assumes "va < MAXVA"
  shows "walk root va False s = Some (case reach (mem s) root (ix 0 va) of None \<Rightarrow> 0
           | Some t \<Rightarrow> pte_slot t (PX 0 va), s)"
  using assms walk_level_lookup [of 2 s root va root] by (simp add: walk_def ix_def)

lemma walkaddr_leaf:
  assumes "pt_inv s root ps"
  shows "walkaddr root va s =
    (if va < MAXVA \<and> leaf (mem s) root va AND PTE_V \<noteq> 0 \<and> leaf (mem s) root va AND PTE_U \<noteq> 0
     then PTE2PA (leaf (mem s) root va) else 0)"
proof (cases "reach (mem s) root (ix 0 va)")
  case None
  then have "fst (walk_level va root False 2 s) = 0"
    using walk_level_lookup [of 2 s root va root] by (simp add: ix_def)
  then show ?thesis using None by (simp add: walkaddr_def leaf_def)
next
  case (Some t)
  then have "fst (walk_level va root False 2 s) = pte_slot t (PX 0 va)"
    using walk_level_lookup [of 2 s root va root] by (simp add: ix_def)
  moreover have "pte_slot t (PX 0 va) \<noteq> 0"
    using pt_invD [OF assms indices_ix Some] by (intro pte_slot_nonzero) (auto simp: PX_less)
  ultimately show ?thesis using Some by (auto simp: walkaddr_def leaf_def Let_def)
qed

section \<open>Storing a leaf entry\<close>

text \<open>\<open>same_page va vb\<close>: the two addresses have the same leaf entry.\<close>

abbreviation same_page :: "u64 \<Rightarrow> u64 \<Rightarrow> bool" where
  "same_page va vb \<equiv> PGROUNDDOWN va = PGROUNDDOWN vb"

lemma PX_same_page:
  assumes "same_page va vb"
  shows "PX l va = PX l vb"
proof (rule bit_eqI)
  fix n
  have "bit (PGROUNDDOWN va) (12 + 9 * l + n) = bit (PGROUNDDOWN vb) (12 + 9 * l + n)"
    using assms by simp
  then show "bit (PX l va) n = bit (PX l vb) n"
    by (auto simp: bit_PX PGROUNDDOWN_shift bit_simps add.assoc dest: bit_imp_le_length)
qed

lemma ix_same_page: "same_page va vb \<Longrightarrow> ix l va = ix l vb"
  unfolding ix_def using PX_same_page [of va vb 1] PX_same_page [of va vb 2] by simp

lemma leaf_same_page: "same_page va vb \<Longrightarrow> leaf m root va = leaf m root vb"
  unfolding leaf_def using PX_same_page [of va vb 0] ix_same_page [of va vb 0]
  by (simp split: option.split)

lemma leaf_PGROUNDDOWN [simp]: "leaf m root (PGROUNDDOWN va) = leaf m root va"
  by (rule leaf_same_page) (simp add: PGROUNDDOWN_id)

lemma kmem_inv_store_table:
  assumes "pt_inv s root ps" "indices is" "reach (mem s) root is = Some t" "i < 512"
  shows "kmem_inv (s\<lparr>mem := store64 (mem s) (pte_slot t i) v\<rparr>) ps"
proof -
  have "is_freelist (store64 (mem s) (pte_slot t i) v) (freelist s) ps"
  proof (rule is_freelist_other_page)
    show "is_freelist (mem s) (freelist s) ps" "\<forall>p \<in> set ps. page_aligned p"
      using assms(1) by (auto simp: pt_inv_def kmem_inv_def ram_page_def)
    show "page_aligned t" "t \<notin> set ps" using pt_invD [OF assms(1-3)] by auto
  qed (simp add: store_slot_frame assms(4))
  then show ?thesis using assms(1) by (auto simp: kmem_inv_def pt_inv_def ram_page_def)
qed

lemma store_leaf:
  assumes inv: "pt_inv s root ps" and t: "reach (mem s) root (ix 0 va) = Some t"
    and s': "s' = s\<lparr>mem := store64 (mem s) (pte_slot t (PX 0 va)) v\<rparr>"
  shows "pt_inv s' root ps"
    and "leaf (mem s') root va = v"
    and "\<And>vb. va < MAXVA \<Longrightarrow> vb < MAXVA \<Longrightarrow> \<not> same_page va vb \<Longrightarrow>
           leaf (mem s') root vb = leaf (mem s) root vb"
    and "\<And>is. indices is \<Longrightarrow> reach (mem s') root is = reach (mem s) root is"
proof -
  let ?m = "mem s" and ?m' = "store64 (mem s) (pte_slot t (PX 0 va)) v"
  have tr: "tree ?m root" using inv by (simp add: pt_inv_def)
  have al: "page_aligned t" using pt_invD [OF inv indices_ix t] by simp
  have slot: "load64 ?m' (pte_slot u j) = load64 ?m (pte_slot u j)"
    if "indices js" "reach ?m root js = Some u" "j < 512" "u \<noteq> t \<or> j \<noteq> PX 0 va" for js u j
    using pt_invD [OF inv that(1,2)] al that(3,4) PX_less
    by (intro slot_other_slot) auto
  show r: "reach (mem s') root js = reach ?m root js" if js: "indices js" for js
    unfolding s' using js
  proof (simp, intro reach_leaf_store [OF _ js])
    fix ks u and j :: u64
    assume k: "indices ks" "length ks \<le> 1" "reach ?m root ks = Some u" "j < 512"
    have "u \<noteq> t"
    proof
      assume "u = t"
      then have "ks = ix 0 va" using treeD [OF tr k(1) indices_ix k(3)] t by simp
      with k(2) show False by (simp add: ix_def)
    qed
    then show "follow ?m' u j = follow ?m u j"
      using slot [OF k(1,3,4)] by (intro follow_cong) simp
  qed
  show "pt_inv s' root ps"
    using inv kmem_inv_store_table [OF inv indices_ix t PX_less] r
    by (auto simp: pt_inv_def s' tree_def ram_page_def)
  show "leaf (mem s') root va = v"
    using r [OF indices_ix, of 0 va] t by (simp add: leaf_def s' load_store_64)
  show "leaf (mem s') root vb = leaf ?m root vb"
    if "va < MAXVA" "vb < MAXVA" "\<not> same_page va vb" for vb
  proof (cases "reach ?m root (ix 0 vb)")
    case None
    then show ?thesis using r [OF indices_ix, of 0 vb] by (simp add: leaf_def)
  next
    case (Some u)
    have "u \<noteq> t \<or> PX 0 vb \<noteq> PX 0 va"
    proof (rule ccontr)
      assume "\<not> ?thesis"
      then have e: "u = t" "PX 0 vb = PX 0 va" by auto
      then have "ix 0 vb = ix 0 va" using treeD [OF tr indices_ix indices_ix Some] t by simp
      then have "PX 1 vb = PX 1 va" "PX 2 vb = PX 2 va" by (auto simp: ix_def)
      then show False using PX_determines_page [of va vb] e that by simp
    qed
    then have "load64 ?m' (pte_slot u (PX 0 vb)) = load64 ?m (pte_slot u (PX 0 vb))"
      using slot [OF indices_ix Some PX_less] by blast
    then show ?thesis using r [OF indices_ix, of 0 vb] Some by (simp add: leaf_def s')
  qed
qed

section \<open>mappages\<close>

text \<open>The memory outside the table pages and the free pages stays as it is.\<close>

lemma pt_frame_refl: "pt_frame root s ps s"
  by (simp add: pt_frame_def)

lemma pt_frame_store:
  assumes "pt_frame root s ps s1" and "reach (mem s1) root (ix 0 va) = Some t"
    and "\<forall>u. table_page (mem s1) root u \<longrightarrow> table_page (mem s) root u \<or> u \<in> set ps"
  shows "pt_frame root s ps (s1\<lparr>mem := store64 (mem s1) (pte_slot t (PX 0 va)) v\<rparr>)"
proof -
  have t: "table_page (mem s) root t \<or> t \<in> set ps"
    using assms(2,3) indices_ix [of 0 va] unfolding table_page_def by blast
  have "store64 (mem s1) (pte_slot t (PX 0 va)) v b = mem s b"
    if "\<forall>q \<in> set ps. \<not> in_region q 4096 b"
      "\<forall>u. table_page (mem s) root u \<longrightarrow> \<not> in_region u 4096 b" for b
    using that t assms(1) store_slot_frame [OF PX_less, of t b] by (auto simp: pt_frame_def)
  with assms(1) show ?thesis by (simp add: pt_frame_def)
qed

lemma pt_frame_trans2:
  assumes "pt_frame root s ps s1" and "pt_frame root s1 ps1 s2" and "set ps1 \<subseteq> set ps"
    and "\<forall>u. table_page (mem s1) root u \<longrightarrow> table_page (mem s) root u \<or> u \<in> set ps"
  shows "pt_frame root s ps s2"
  using assms unfolding pt_frame_def by (smt (verit) subsetD)

text \<open>What a call that maps some pages leaves behind: \<open>pages\<close> maps the page addresses it
  entered to their entries.\<close>

definition mapped_pages ::
  "u64 \<Rightarrow> 'a kmem_state_scheme \<Rightarrow> u64 list \<Rightarrow> (u64 \<Rightarrow> u64 option) \<Rightarrow> 'a kmem_state_scheme \<Rightarrow> u64 list \<Rightarrow> bool"
  where
  "mapped_pages root s ps pages s' ps' \<longleftrightarrow>
     (\<exists>qs. ps = qs @ ps' \<and>
        (\<forall>u. table_page (mem s') root u \<longrightarrow> table_page (mem s) root u \<or> u \<in> set qs)) \<and>
     pt_inv s' root ps' \<and> pt_frame root s ps s' \<and>
     (\<forall>vb < MAXVA. leaf (mem s') root vb =
        (case pages (PGROUNDDOWN vb) of None \<Rightarrow> leaf (mem s) root vb | Some e \<Rightarrow> e))"

lemma mapped_pages_trans:
  assumes "mapped_pages root s ps f s1 ps1" and "mapped_pages root s1 ps1 g s2 ps2"
  shows "mapped_pages root s ps (f ++ g) s2 ps2"
proof -
  obtain qs where qs: "ps = qs @ ps1"
    "\<forall>u. table_page (mem s1) root u \<longrightarrow> table_page (mem s) root u \<or> u \<in> set qs"
    using assms(1) by (auto simp: mapped_pages_def)
  obtain rs where rs: "ps1 = rs @ ps2"
    "\<forall>u. table_page (mem s2) root u \<longrightarrow> table_page (mem s1) root u \<or> u \<in> set rs"
    using assms(2) by (auto simp: mapped_pages_def)
  have "pt_frame root s ps s2"
  proof (rule pt_frame_trans2)
    show "pt_frame root s ps s1" using assms(1) by (simp add: mapped_pages_def)
    show "pt_frame root s1 ps1 s2" using assms(2) by (simp add: mapped_pages_def)
  qed (use qs in auto)
  moreover have "\<exists>qs. ps = qs @ ps2 \<and>
      (\<forall>u. table_page (mem s2) root u \<longrightarrow> table_page (mem s) root u \<or> u \<in> set qs)"
    using qs rs by (intro exI [of _ "qs @ rs"]) auto
  ultimately show ?thesis
    using assms by (auto simp: mapped_pages_def map_add_def split: option.splits)
qed

lemma walk_alloc:
  assumes "pt_inv s root ps" and "va < MAXVA" and "walk root va True s = Some (pte, s')"
  obtains ps' where "mapped_pages root s ps Map.empty s' ps'"
    and "pte = 0 \<Longrightarrow> ps' = []"
    and "pte \<noteq> 0 \<Longrightarrow> \<exists>t. reach (mem s') root (ix 0 va) = Some t \<and> pte = pte_slot t (PX 0 va)"
proof -
  have "walk_level va root True 2 s = (pte, s')" using assms(2,3) by (auto simp: walk_def)
  moreover have "reach (mem s) root (ix 2 va) = Some root" by (simp add: ix_def)
  ultimately obtain qs ps' where *: "ps = qs @ ps'" "pt_inv s' root ps'"
     "\<forall>vb. leaf (mem s') root vb = leaf (mem s) root vb"
     "\<forall>u. table_page (mem s') root u \<longrightarrow> table_page (mem s) root u \<or> u \<in> set qs"
     "pt_frame root s ps s'"
     "if pte = 0 then ps' = []
      else \<exists>t0. reach (mem s') root (ix 0 va) = Some t0 \<and> pte = pte_slot t0 (PX 0 va)"
    using walk_level_alloc [of 2 s root ps va root pte s'] assms(1) by (metis order_refl)
  then have "mapped_pages root s ps Map.empty s' ps'"
    unfolding mapped_pages_def by auto
  with * show thesis using that [of ps'] by (simp split: if_splits)
qed

lemma mapped_pages_store:
  assumes m: "mapped_pages root s ps Map.empty s1 ps1" and va: "va < MAXVA"
    and t: "reach (mem s1) root (ix 0 va) = Some t"
  shows "mapped_pages root s ps [PGROUNDDOWN va \<mapsto> e]
           (s1\<lparr>mem := store64 (mem s1) (pte_slot t (PX 0 va)) e\<rparr>) ps1"
proof -
  let ?s = "s1\<lparr>mem := store64 (mem s1) (pte_slot t (PX 0 va)) e\<rparr>"
  have inv: "pt_inv s1 root ps1" using m by (simp add: mapped_pages_def)
  note sl = store_leaf [OF inv t refl, where v = e]
  obtain qs where qs: "ps = qs @ ps1"
    "\<forall>u. table_page (mem s1) root u \<longrightarrow> table_page (mem s) root u \<or> u \<in> set qs"
    using m by (auto simp: mapped_pages_def)
  have "table_page (mem ?s) root u = table_page (mem s1) root u" for u
    using sl(4) by (auto simp: table_page_def)
  moreover have "pt_frame root s ps ?s"
    using m qs by (intro pt_frame_store [OF _ t]) (auto simp: mapped_pages_def)
  moreover have "leaf (mem ?s) root vb = (if same_page va vb then e else leaf (mem s) root vb)"
    if "vb < MAXVA" for vb
  proof (cases "same_page va vb")
    case True
    then show ?thesis using sl(2) leaf_same_page [OF True, of "mem ?s" root] by simp
  next
    case False
    then show ?thesis using sl(3) [OF va that] m that by (simp add: mapped_pages_def)
  qed
  ultimately show ?thesis
    using sl(1) qs unfolding mapped_pages_def by auto
qed

text \<open>The entries of \<open>n\<close> pages from \<open>va\<close> that map to the frames from \<open>pa\<close>.\<close>

primrec page_entries :: "u64 \<Rightarrow> u64 \<Rightarrow> u64 \<Rightarrow> nat \<Rightarrow> u64 \<Rightarrow> u64 option" where
  "page_entries va pa perm 0 = Map.empty"
| "page_entries va pa perm (Suc n) =
     [va \<mapsto> PA2PTE pa OR perm OR PTE_V] ++ page_entries (va + PGSIZE) (pa + PGSIZE) perm n"

lemma next_page:
  assumes "page_aligned a" and "unat a + 4096 \<le> 2 ^ 38"
  shows "page_aligned (a + 4096)" "unat (a + 4096) = unat a + 4096" "a < MAXVA"
  using assms page_aligned_next by (auto simp: unat_word_ariths MAXVA_val word_less_nat_alt)

lemma mappages_loop_step:
  assumes inv: "pt_inv s root ps" and a: "page_aligned a" "a < MAXVA"
    and free: "leaf (mem s) root a AND PTE_V = 0"
  obtains (full) s1 where "\<And>b. mappages_loop root a b pa perm s = Some (-1, s1)"
      and "mapped_pages root s ps Map.empty s1 []"
    | (entered) s2 ps1 where
      "\<And>b. mappages_loop root a b pa perm s =
         (if a = b then Some (0, s2) else mappages_loop root (a + 4096) b (pa + 4096) perm s2)"
      and "mapped_pages root s ps [a \<mapsto> PA2PTE pa OR perm OR PTE_V] s2 ps1"
proof -
  obtain pte s1 where w: "walk root a True s = Some (pte, s1)"
    using a(2) by (cases "walk_level a root True 2 s") (auto simp: walk_def)
  obtain ps1 where ps1: "mapped_pages root s ps Map.empty s1 ps1" "pte = 0 \<Longrightarrow> ps1 = []"
    "pte \<noteq> 0 \<Longrightarrow> \<exists>t. reach (mem s1) root (ix 0 a) = Some t \<and> pte = pte_slot t (PX 0 a)"
    using walk_alloc [OF inv a(2) w] by metis
  show thesis
  proof (cases "pte = 0")
    case True
    then have "mappages_loop root a b pa perm s = Some (-1, s1)" for b
      using w by (subst mappages_loop.simps) simp
    with True ps1 show thesis using full by simp
  next
    case False
    then obtain t where t: "reach (mem s1) root (ix 0 a) = Some t" "pte = pte_slot t (PX 0 a)"
      using ps1(3) by auto
    have "load64 (mem s1) pte = leaf (mem s1) root a" using t by (simp add: leaf_def)
    also have "\<dots> = leaf (mem s) root a" using ps1(1) a(2) by (simp add: mapped_pages_def)
    finally have "load64 (mem s1) pte AND PTE_V = 0" using free by simp
    then have "mappages_loop root a b pa perm s =
      (if a = b then Some (0, s1\<lparr>mem := store64 (mem s1) pte (PA2PTE pa OR perm OR PTE_V)\<rparr>)
       else mappages_loop root (a + 4096) b (pa + 4096) perm
         (s1\<lparr>mem := store64 (mem s1) pte (PA2PTE pa OR perm OR PTE_V)\<rparr>))" for b
      using w False by (subst mappages_loop.simps) simp
    moreover note mapped_pages_store [OF ps1(1) a(2) t(1), of "PA2PTE pa OR perm OR PTE_V"]
    ultimately show thesis using entered t(2) PGROUNDDOWN_id [OF a(1)] by simp
  qed
qed

lemma later_pages:
  assumes "page_aligned a" and "unat a + 4096 * Suc n \<le> 2 ^ 38" and "k < n"
  shows "a + 4096 + 4096 * of_nat k < MAXVA" and "PGROUNDDOWN (a + 4096 + 4096 * of_nat k) \<noteq> a"
    and "page_aligned (a + 4096 + 4096 * of_nat k)"
proof -
  let ?b = "a + 4096 + 4096 * of_nat k"
  have b: "unat ?b = unat a + 4096 + 4096 * k"
    using assms(2,3) by (simp add: unat_word_ariths unat_of_nat_lt64)
  then show "?b < MAXVA" using assms(2,3) by (simp add: MAXVA_val word_less_nat_alt)
  show "page_aligned ?b" using assms(1) b by (simp add: page_aligned_unat)
  then show "PGROUNDDOWN ?b \<noteq> a" using b by (auto simp: PGROUNDDOWN_id word_unat_eq_iff)
qed

lemma unat_pages: "4096 * n < 2 ^ 64 \<Longrightarrow> unat (4096 * of_nat n :: u64) = 4096 * n"
  using unat_of_nat_lt64 [of "4096 * n"] by simp

lemma page_step_distinct:
  assumes "unat (a :: u64) + 4096 * n \<le> 2 ^ 38" and "0 < n"
  shows "a + 4096 * of_nat n \<noteq> a"
proof
  assume "a + 4096 * of_nat n = a"
  then have "(4096 * of_nat n :: u64) = 0" by simp
  moreover have "unat (4096 * of_nat n :: u64) = 4096 * n"
    using assms(1) by (intro unat_pages) simp
  ultimately show False using assms(2) by simp
qed

lemma mappages_loop_spec:
  assumes "pt_inv s root ps" and "page_aligned a" and "unat a + 4096 * Suc n \<le> 2 ^ 38"
    and "\<forall>k < Suc n. leaf (mem s) root (a + 4096 * of_nat k) AND PTE_V = 0"
  shows "\<exists>r s' ps' k. mappages_loop root a (a + 4096 * of_nat n) pa perm s = Some (r, s') \<and>
     mapped_pages root s ps (page_entries a pa perm k) s' ps' \<and>
     (r = 0 \<and> k = Suc n \<or> r = -1 \<and> k < Suc n \<and> ps' = [])"
  using assms
proof (induction n arbitrary: a pa s ps)
  case (0 a pa s ps)
  then have "a < MAXVA" "leaf (mem s) root a AND PTE_V = 0" using next_page(3) by auto
  from 0(1,2) this show ?case
    by (rule mappages_loop_step [where pa = pa and perm = perm])
      (auto intro: exI [of _ 0] exI [of _ "Suc 0"])
next
  case (Suc n a pa s ps)
  have a: "a < MAXVA" "page_aligned (a + 4096)" "unat (a + 4096) = unat a + 4096"
    using next_page [OF Suc.prems(2)] Suc.prems(3) by auto
  have V: "leaf (mem s) root a AND PTE_V = 0" using Suc.prems(4) [rule_format, of 0] by simp
  from Suc.prems(1,2) a(1) V show ?case
  proof (cases rule: mappages_loop_step [where pa = pa and perm = perm, case_names full entered])
    case (full s1)
    then show ?thesis by (auto intro!: exI [of _ 0])
  next
    case (entered s2 ps1)
    have "leaf (mem s2) root (a + 4096 + 4096 * of_nat k) AND PTE_V = 0" if k: "k < Suc n" for k
    proof -
      have "leaf (mem s2) root (a + 4096 + 4096 * of_nat k) = leaf (mem s) root (a + 4096 + 4096 * of_nat k)"
        using entered(2) later_pages [OF Suc.prems(2,3) k] by (simp add: mapped_pages_def)
      then show ?thesis using Suc.prems(4) [rule_format, of "Suc k"] k by (simp add: algebra_simps)
    qed
    moreover have "pt_inv s2 root ps1" using entered(2) by (simp add: mapped_pages_def)
    moreover have "unat (a + 4096) + 4096 * Suc n \<le> 2 ^ 38" using a(3) Suc.prems(3) by simp
    ultimately obtain r s' ps' k where
      r: "mappages_loop root (a + 4096) (a + 4096 + 4096 * of_nat n) (pa + 4096) perm s2 = Some (r, s')"
      "mapped_pages root s2 ps1 (page_entries (a + 4096) (pa + 4096) perm k) s' ps'"
      "r = 0 \<and> k = Suc n \<or> r = -1 \<and> k < Suc n \<and> ps' = []"
      using Suc.IH [of s2 ps1 "a + 4096" "pa + 4096"] a(2) by blast
    have "a + 4096 * of_nat (Suc n) \<noteq> a"
      by (rule page_step_distinct) (use Suc.prems(3) in auto)
    then have "mappages_loop root a (a + 4096 * of_nat (Suc n)) pa perm s = Some (r, s')"
      using entered(1) [of "a + 4096 * of_nat (Suc n)"] r(1) by (auto simp: algebra_simps)
    moreover have "mapped_pages root s ps (page_entries a pa perm (Suc k)) s' ps'"
      using mapped_pages_trans [OF entered(2) r(2)] by simp
    ultimately show ?thesis using r(3)
      by (intro exI [of _ r] exI [of _ s'] exI [of _ ps'] exI [of _ "Suc k"]) auto
  qed
qed

lemma mappages_spec:
  assumes "pt_inv s root ps" and "page_aligned va" and "0 < n" and "unat va + 4096 * n \<le> 2 ^ 38"
    and "\<forall>k < n. leaf (mem s) root (va + 4096 * of_nat k) AND PTE_V = 0"
  shows "\<exists>r s' ps' k. mappages root va (4096 * of_nat n) pa perm s = Some (r, s') \<and>
     mapped_pages root s ps (page_entries va pa perm k) s' ps' \<and>
     (r = 0 \<and> k = n \<or> r = -1 \<and> k < n \<and> ps' = [])"
proof -
  obtain m where m: "n = Suc m" using assms(3) by (cases n) auto
  have "unat (4096 * of_nat n :: u64) = 4096 * n"
    using assms(4) by (intro unat_pages) simp
  then have sz: "(4096 * of_nat n :: u64) \<noteq> 0" using assms(3) by (auto simp: word_unat_eq_iff)
  let ?e = "va + 4096 * of_nat n - 1"
  have end_val: "va + 4096 * of_nat n - 1 = va + 4096 * of_nat m + 4095"
    by (simp add: m algebra_simps)
  have u: "unat (va + 4096 * of_nat m) = unat va + 4096 * m"
    using assms(4) m by (simp add: unat_word_ariths unat_of_nat_lt64)
  have al: "page_aligned (va + 4096 * of_nat m)"
    using assms(2) by (simp add: page_aligned_unat u) 
  have "in_region (va + 4096 * of_nat m) 4096 ?e"
    by (simp add: in_region_def end_val)
  then have "PGROUNDDOWN ?e = va + 4096 * of_nat m"
    using in_page_iff [OF al] by blast
  then show ?thesis
    using sz mappages_loop_spec [of s root ps va m pa perm] assms m PGROUNDDOWN_id [OF assms(2)]
    by (simp add: mappages_def)
qed

end
