(* ===== verification/Vm_User.thy ===== *)
theory Vm_User
  imports Vm_Map
begin

text \<open>
  User memory as the process sees it: \<open>user_byte s root va\<close> is the byte at a user virtual
  address, absent where \<open>walkaddr\<close> fails. Under the address-space invariant \<open>uvm_inv\<close>
  (the frames of user pages are RAM pages, one page each, no table and not free)
  \<open>copyout\<close> and \<open>copyin\<close> of kernel/vm.c are byte-exact: they copy up to the first unmapped
  page, return -1 exactly when they stop there, and touch nothing else.
\<close>

section \<open>The address space\<close>

definition uaddr :: "'a kmem_state_scheme \<Rightarrow> u64 \<Rightarrow> u64 \<Rightarrow> u64 option" where
  "uaddr s root va = (let p = walkaddr root (PGROUNDDOWN va) s in
     if p = 0 then None else Some (p + (va - PGROUNDDOWN va)))"

definition user_byte :: "'a kmem_state_scheme \<Rightarrow> u64 \<Rightarrow> u64 \<Rightarrow> u8 option" where
  "user_byte s root va = map_option (mem s) (uaddr s root va)"

definition user_frame :: "'a kmem_state_scheme \<Rightarrow> u64 \<Rightarrow> u64 \<Rightarrow> bool" where
  "user_frame s root p \<longleftrightarrow> p \<noteq> 0 \<and> (\<exists>va. walkaddr root va s = p)"

definition uvm_inv :: "'a kmem_state_scheme \<Rightarrow> u64 \<Rightarrow> u64 list \<Rightarrow> bool" where
  "uvm_inv s root ps \<longleftrightarrow> pt_inv s root ps \<and>
     (\<forall>p. user_frame s root p \<longrightarrow> ram_page s p \<and> p \<notin> set ps \<and> \<not> table_page (mem s) root p) \<and>
     (\<forall>va vb. walkaddr root va s \<noteq> 0 \<longrightarrow> walkaddr root va s = walkaddr root vb s \<longrightarrow> same_page va vb)"

lemma walkaddr_same_page:
  "pt_inv s root ps \<Longrightarrow> same_page va vb \<Longrightarrow> va < MAXVA \<Longrightarrow> vb < MAXVA \<Longrightarrow>
   walkaddr root va s = walkaddr root vb s"
  using leaf_same_page [of va vb "mem s" root] by (simp add: walkaddr_leaf)

lemma walkaddr_MAXVA: "walkaddr root va s \<noteq> 0 \<Longrightarrow> va < MAXVA"
  by (auto simp: walkaddr_def split: if_splits)

lemma user_frameI: "walkaddr root va s = p \<Longrightarrow> p \<noteq> 0 \<Longrightarrow> user_frame s root p"
  by (auto simp: user_frame_def)

lemma uvm_inv_frame:
  assumes "uvm_inv s root ps" "walkaddr root va s = p" "p \<noteq> 0"
  shows "page_aligned p" "p < PHYSTOP" "ram_page s p" "p \<notin> set ps" "\<not> table_page (mem s) root p"
  using assms user_frameI [of root va s p] by (auto simp: uvm_inv_def ram_page_def)

text \<open>Memory that changes in user frames only keeps the page table.\<close>

lemma reach_cong:
  assumes "\<And>is t b. indices is \<Longrightarrow> reach m root is = Some t \<Longrightarrow> in_region t 4096 b \<Longrightarrow> m' b = m b"
    and "indices js"
  shows "reach m' root js = reach m root js"
  using assms(2)
proof (induction js)
  case Nil
  then show ?case by simp
next
  case (Cons j js)
  then have j: "indices js" "j < 512" by (auto simp: indices_def)
  show ?case
  proof (cases "reach m root js")
    case None
    then show ?thesis using Cons.IH [OF j(1)] by (simp add: reach_Cons)
  next
    case (Some t)
    have "load64 m' (pte_slot t j) = load64 m (pte_slot t j)"
      by (rule load64_cong) (use assms(1) [OF j(1) Some] pte_slot_in_page [OF j(2)] in blast)
    then show ?thesis using Cons.IH [OF j(1)] Some follow_cong [of m' t j m] by (simp add: reach_Cons)
  qed
qed

lemma leaf_cong:
  assumes "\<And>is t b. indices is \<Longrightarrow> reach m root is = Some t \<Longrightarrow> in_region t 4096 b \<Longrightarrow> m' b = m b"
  shows "leaf m' root va = leaf m root va"
proof (cases "reach m root (ix 0 va)")
  case None
  then show ?thesis using reach_cong [OF assms indices_ix [of 0 va]] by (simp add: leaf_def)
next
  case (Some t)
  have "load64 m' (pte_slot t (PX 0 va)) = load64 m (pte_slot t (PX 0 va))"
    by (rule load64_cong) (use assms [OF indices_ix Some] pte_slot_in_page [OF PX_less] in blast)
  then show ?thesis using reach_cong [OF assms indices_ix [of 0 va]] Some by (simp add: leaf_def)
qed

text \<open>Bytes that are in no table page and in no free page may change freely.\<close>

definition kernel_state_byte :: "'a kmem_state_scheme \<Rightarrow> u64 \<Rightarrow> u64 list \<Rightarrow> u64 \<Rightarrow> bool" where
  "kernel_state_byte s root ps b \<longleftrightarrow>
     table_page (mem s) root (PGROUNDDOWN b) \<or> PGROUNDDOWN b \<in> set ps"

lemma uvm_inv_write:
  assumes inv: "uvm_inv s root ps" and s': "s' = s\<lparr>mem := m\<rparr>"
    and same: "\<And>b. kernel_state_byte s root ps b \<Longrightarrow> m b = mem s b"
  shows "uvm_inv s' root ps" "walkaddr root va s' = walkaddr root va s" "uaddr s' root va = uaddr s root va"
    "table_page (mem s') root u = table_page (mem s) root u"
proof -
  note i = inv [unfolded uvm_inv_def]
  note pt = conjunct1 [OF i] and frames = conjunct1 [OF conjunct2 [OF i], rule_format]
    and inj = conjunct2 [OF conjunct2 [OF i], rule_format]
  have table: "m b = mem s b" if "indices is" "reach (mem s) root is = Some t" "in_region t 4096 b" for "is" t b
  proof -
    have "PGROUNDDOWN b = t" using that pt_invD(2) [OF pt that(1,2)] by (simp add: in_page_iff)
    then show ?thesis using same that(1,2) by (auto simp: kernel_state_byte_def table_page_def)
  qed
  have r: "reach m root js = reach (mem s) root js" if "indices js" for js
    by (rule reach_cong [OF table that])
  have l: "leaf m root v = leaf (mem s) root v" for v
    by (rule leaf_cong [OF table])
  have "is_freelist m (freelist s) ps"
  proof -
    have "mem s b = m b" if "p \<in> set ps" "in_region p 8 b" for p b
    proof -
      have "page_aligned p" using pt that(1) by (auto simp: pt_inv_def kmem_inv_def ram_page_def)
      then have "PGROUNDDOWN b = p" using head_in_page [OF that(2)] by (simp add: in_page_iff)
      then show ?thesis using same that(1) by (auto simp: kernel_state_byte_def)
    qed
    then show ?thesis
      using is_freelist_cong [of ps "mem s" m "freelist s"] pt by (simp add: pt_inv_def kmem_inv_def)
  qed
  then have pt': "pt_inv s' root ps"
    using pt r by (auto simp: pt_inv_def s' kmem_inv_def tree_def ram_page_def)
  show w: "walkaddr root v s' = walkaddr root v s" for v
    using walkaddr_leaf [OF pt] walkaddr_leaf [OF pt'] by (simp add: s' l)
  then show "uaddr s' root va = uaddr s root va" by (simp add: uaddr_def)
  show t: "table_page (mem s') root v = table_page (mem s) root v" for v
    using r by (auto simp: table_page_def s')
  show "uvm_inv s' root ps"
    unfolding uvm_inv_def
  proof (intro conjI pt' allI impI)
    fix p assume "user_frame s' root p"
    then have "user_frame s root p" by (simp add: user_frame_def w)
    from frames [OF this] show "ram_page s' p" "p \<notin> set ps" "\<not> table_page (mem s') root p"
      using t by (simp_all add: s' ram_page_def)
  next
    fix va vb assume a: "walkaddr root va s' \<noteq> 0" "walkaddr root va s' = walkaddr root vb s'"
    show "same_page va vb" by (rule inj [OF a [unfolded w]])
  qed
qed

section \<open>Chunks\<close>

lemma unat_chunk:
  "unat (chunk va len) = min (unat len) (4096 - unat va mod 4096)"
proof -
  have "unat (va - PGROUNDDOWN va) < 4096" by (simp add: unat_diff_PGROUNDDOWN)
  then have "va - PGROUNDDOWN va \<le> 4096" by (simp add: word_le_nat_alt)
  then have "unat (4096 - (va - PGROUNDDOWN va)) = 4096 - unat va mod 4096"
    by (simp add: unat_sub unat_diff_PGROUNDDOWN)
  then show ?thesis by (auto simp: chunk_def Let_def word_less_nat_alt)
qed

lemma unat_ucast_chunk: "unat (ucast (chunk va len) :: u32) = unat (chunk va len)"
proof -
  have "unat (chunk va len) \<le> 4096" by (simp add: unat_chunk)
  then have "unat (chunk va len) < 2 ^ 32" by simp
  then show ?thesis by (simp add: unsigned_ucast_eq take_bit_nat_eq_self)
qed

lemma chunk_last_or_page:
  "chunk va len = len \<or> va + chunk va len = PGROUNDDOWN va + 4096"
proof (cases "unat len \<le> 4096 - unat va mod 4096")
  case True
  then show ?thesis by (simp add: word_unat_eq_iff unat_chunk)
next
  case False
  then have "unat (chunk va len) = 4096 - unat va mod 4096" by (simp add: unat_chunk)
  also have "\<dots> = unat (4096 - (va - PGROUNDDOWN va))"
  proof -
    have "unat (va - PGROUNDDOWN va) < 4096" by (simp add: unat_diff_PGROUNDDOWN)
    then have "va - PGROUNDDOWN va \<le> 4096" by (simp add: word_le_nat_alt)
    then show ?thesis by (simp add: unat_sub unat_diff_PGROUNDDOWN)
  qed
  finally have "chunk va len = 4096 - (va - PGROUNDDOWN va)" by (simp add: word_unat_eq_iff)
  then show ?thesis by simp
qed

text \<open>The addresses of a chunk are in one page.\<close>

lemma chunk_in_page:
  assumes "in_region va (unat (chunk va len)) vb"
  shows "same_page va vb" and "vb - PGROUNDDOWN va = (va - PGROUNDDOWN va) + (vb - va)"
proof -
  have "in_region (PGROUNDDOWN va) 4096 vb"
  proof -
    have v: "unat (vb - va) < 4096 - unat va mod 4096"
      using assms by (simp add: in_region_def unat_chunk)
    have "unat (vb - PGROUNDDOWN va) = unat ((va - PGROUNDDOWN va) + (vb - va))" by simp
    also have "\<dots> = unat va mod 4096 + unat (vb - va)"
      using v by (subst unat_word_ariths) (simp add: unat_diff_PGROUNDDOWN)
    finally show ?thesis using v by (simp add: in_region_def)
  qed
  then show "same_page va vb" by (simp add: in_page_iff)
qed simp

section \<open>copyout\<close>

text \<open>The kernel's side of a copy: \<open>n\<close> bytes from \<open>a\<close>, without wrap-around, outside user frames.\<close>

definition kernel_buffer :: "'a kmem_state_scheme \<Rightarrow> u64 \<Rightarrow> u64 \<Rightarrow> nat \<Rightarrow> bool" where
  "kernel_buffer s root a n \<longleftrightarrow> unat a + n < 2 ^ 64 \<and>
     (\<forall>b. in_region a n b \<longrightarrow> \<not> user_frame s root (PGROUNDDOWN b))"

lemma kernel_buffer_shift:
  assumes "kernel_buffer s root a n" and "k \<le> n"
  shows "kernel_buffer s root (a + of_nat k) (n - k)"
proof -
  have k: "unat (of_nat k :: u64) = k" using assms by (intro unat_of_nat_lt64) (auto simp: kernel_buffer_def)
  have "unat (a + of_nat k) = unat a + k"
    using assms k by (simp add: unat_word_ariths kernel_buffer_def)
  moreover have "in_region a n b" if r: "in_region (a + of_nat k) (n - k) b" for b
  proof -
    have "n - k \<le> 2 ^ 64" using assms(1) unfolding kernel_buffer_def by linarith
    then obtain i where i: "i < n - k" "b = a + of_nat k + of_nat i"
      using r in_region_iff_offset [of "n - k" "a + of_nat k" b] by blast
    then have "b = a + of_nat (k + i)" by simp
    moreover have "n \<le> 2 ^ 64" using assms(1) by (simp add: kernel_buffer_def)
    moreover have "k + i < n" using i(1) by simp
    ultimately show ?thesis using i(2) in_region_offset [of "k + i" n a] by (simp add: add.assoc)
  qed
  ultimately show ?thesis using assms by (auto simp: kernel_buffer_def)
qed

lemma user_byte_walkaddr:
  "user_byte s root va = (let p = walkaddr root (PGROUNDDOWN va) s in
     if p = 0 then None else Some (mem s (p + (va - PGROUNDDOWN va))))"
  by (simp add: user_byte_def uaddr_def Let_def)

lemma offset_in_frame:
  assumes "page_aligned p"
  shows "PGROUNDDOWN (p + (va - PGROUNDDOWN va)) = p"
proof -
  have "unat (va - PGROUNDDOWN va) < 4096" by (simp add: unat_diff_PGROUNDDOWN)
  then have "in_region p 4096 (p + (va - PGROUNDDOWN va))" by (simp add: in_region_def)
  then show ?thesis using in_page_iff [OF assms] by blast
qed

text \<open>One round of the loop of \<open>copyout\<close>: the chunk in the page of \<open>dstva\<close>.\<close>

lemma copyout_round:
  assumes inv: "uvm_inv s root ps" and p: "walkaddr root (PGROUNDDOWN dstva) s = p" "p \<noteq> 0"
    and buf: "kernel_buffer s root src (unat (chunk dstva len))"
    and s': "s' = s\<lparr>mem := memmove (mem s) (p + (dstva - PGROUNDDOWN dstva)) src (ucast (chunk dstva len))\<rparr>"
  shows "uvm_inv s' root ps" "walkaddr root va s' = walkaddr root va s"
    "table_page (mem s') root u = table_page (mem s) root u"
    and "user_byte s' root va = (if in_region dstva (unat (chunk dstva len)) va
           then Some (mem s (src + (va - dstva))) else user_byte s root va)"
    and "\<not> user_frame s root (PGROUNDDOWN b) \<Longrightarrow> mem s' b = mem s b"
proof -
  let ?n = "chunk dstva len" and ?off = "dstva - PGROUNDDOWN dstva"
  note f = uvm_inv_frame [OF inv p]
  have off: "unat ?off = unat dstva mod 4096" by (rule unat_diff_PGROUNDDOWN)
  obtain k where k: "unat p = 4096 * k" using f(1) by (auto simp: page_aligned_unat)
  have "unat p < 0x88000000" using f(2) by (simp add: PHYSTOP_val word_less_nat_alt)
  then have dst: "unat (p + ?off) = unat p + unat dstva mod 4096"
    using off by (simp add: unat_word_ariths)
  have m: "mem s' b = (if in_region (p + ?off) (unat ?n) b then mem s (src + (b - (p + ?off))) else mem s b)" for b
  proof -
    have "unat src + unat (ucast ?n :: u32) < 2 ^ 64"
      using buf by (simp add: kernel_buffer_def unat_ucast_chunk)
    moreover have "unat (p + ?off) + unat (ucast ?n :: u32) < 2 ^ 64"
    proof -
      have "unat ?n \<le> 4096" by (simp add: unat_chunk)
      then show ?thesis using dst \<open>unat p < 0x88000000\<close> by (simp add: unat_ucast_chunk)
    qed
    ultimately show ?thesis using memmove_apply by (simp add: s' unat_ucast_chunk)
  qed
  have reg: "in_region p 4096 b" if "in_region (p + ?off) (unat ?n) b" for b
  proof -
    have v: "unat (b - (p + ?off)) < 4096 - unat dstva mod 4096"
      using that by (simp add: in_region_def unat_chunk)
    have "unat (b - p) = unat (?off + (b - (p + ?off)))" by simp
    also have "\<dots> = unat dstva mod 4096 + unat (b - (p + ?off))"
      using v by (subst unat_word_ariths) (simp add: off)
    finally show ?thesis using v by (simp add: in_region_def)
  qed
  show out: "\<not> user_frame s root (PGROUNDDOWN b) \<Longrightarrow> mem s' b = mem s b" for b
    using reg [of b] m [of b] user_frameI [OF p] in_page_iff [OF f(1), of b] by auto
  have same: "mem s' b = mem s b" if "kernel_state_byte s root ps b" for b
    using that out inv by (auto simp: kernel_state_byte_def uvm_inv_def)
  have s'2: "s' = s\<lparr>mem := mem s'\<rparr>" by (simp add: s')
  have w: "uvm_inv s' root ps" "walkaddr root va s' = walkaddr root va s"
    "table_page (mem s') root u = table_page (mem s) root u" for va u
    by (rule uvm_inv_write [OF inv s'2], erule same)+
  show "uvm_inv s' root ps" "walkaddr root va s' = walkaddr root va s"
    "table_page (mem s') root u = table_page (mem s) root u" for va u
    by (rule w)+
  show "user_byte s' root va = (if in_region dstva (unat ?n) va
           then Some (mem s (src + (va - dstva))) else user_byte s root va)"
  proof (cases "in_region dstva (unat ?n) va")
    case True
    then have sp: "same_page dstva va" "va - PGROUNDDOWN dstva = ?off + (va - dstva)"
      using chunk_in_page by auto
    then have "user_byte s' root va = Some (mem s' (p + (?off + (va - dstva))))"
      using p by (simp add: user_byte_walkaddr w)
    moreover have "in_region (p + ?off) (unat ?n) (p + (?off + (va - dstva)))"
      using True by (simp add: in_region_def algebra_simps)
    ultimately show ?thesis using True m by (simp add: algebra_simps)
  next
    case False
    show ?thesis
    proof (cases "walkaddr root (PGROUNDDOWN va) s = 0")
      case True
      then show ?thesis using False by (simp add: user_byte_walkaddr w)
    next
      case q: False
      let ?b = "walkaddr root (PGROUNDDOWN va) s + (va - PGROUNDDOWN va)"
      have b: "PGROUNDDOWN ?b = walkaddr root (PGROUNDDOWN va) s"
        using offset_in_frame uvm_inv_frame(1) [OF inv refl q] by blast
      have "\<not> in_region (p + ?off) (unat ?n) ?b"
      proof
        assume r: "in_region (p + ?off) (unat ?n) ?b"
        have "PGROUNDDOWN ?b = p" using reg [OF r] in_page_iff [OF f(1)] by blast
        then have e: "walkaddr root (PGROUNDDOWN va) s = p" using b by simp
        then have "same_page (PGROUNDDOWN va) (PGROUNDDOWN dstva)"
          using inv p q by (simp add: uvm_inv_def)
        then have "PGROUNDDOWN va = PGROUNDDOWN dstva" by (simp add: PGROUNDDOWN_id)
        then have d: "?b - (p + ?off) = va - dstva" using e by simp
        show False using r False unfolding in_region_def d by contradiction
      qed
      then show ?thesis using False q m by (simp add: user_byte_walkaddr w)
    qed
  qed
qed


text \<open>The outcome of a copy to user memory: \<open>k\<close> bytes were written, all of them on success.\<close>

definition stops_at :: "'a kmem_state_scheme \<Rightarrow> u64 \<Rightarrow> u64 \<Rightarrow> nat \<Rightarrow> int \<Rightarrow> nat \<Rightarrow> bool" where
  "stops_at s root va n r k \<longleftrightarrow>
     (\<forall>i < k. uaddr s root (va + of_nat i) \<noteq> None) \<and>
     (r = 0 \<and> k = n \<or> r = -1 \<and> k < n \<and> uaddr s root (va + of_nat k) = None)"

lemma stops_at_unmapped: "walkaddr root (PGROUNDDOWN va) s = 0 \<Longrightarrow> 0 < n \<Longrightarrow> stops_at s root va n (-1) 0"
  by (simp add: stops_at_def uaddr_def)

lemma chunk_mapped:
  assumes "walkaddr root (PGROUNDDOWN va) s \<noteq> 0" and "i < unat (chunk va len)"
  shows "uaddr s root (va + of_nat i) \<noteq> None"
proof -
  have "i < 2 ^ 64" using assms(2) unat_lt_u64 [of "chunk va len"] by simp
  then have "in_region va (unat (chunk va len)) (va + of_nat i)"
    using assms(2) by (simp add: in_region_def unat_of_nat_lt64)
  from chunk_in_page(1) [OF this] assms(1) show ?thesis by (simp add: uaddr_def)
qed

lemma stops_at_chunk:
  assumes "walkaddr root (PGROUNDDOWN va) s \<noteq> 0"
    and "\<And>vb. uaddr s' root vb = uaddr s root vb"
    and "stops_at s' root (va + chunk va len) (unat (len - chunk va len)) r k"
    and "0 < len"
  shows "stops_at s root va (unat len) r (unat (chunk va len) + k)"
proof -
  let ?n = "chunk va len"
  have n: "?n \<le> len" using chunk_bounds [OF assms(4)] by simp
  have "uaddr s root (va + of_nat i) \<noteq> None" if i: "i < unat ?n + k" for i
  proof (cases "i < unat ?n")
    case True
    then show ?thesis by (rule chunk_mapped [OF assms(1)])
  next
    case False
    then have "va + of_nat i = va + ?n + of_nat (i - unat ?n)" by (simp add: of_nat_diff)
    moreover have "i - unat ?n < k" using False i by simp
    ultimately show ?thesis using assms(2,3) by (simp add: stops_at_def add.assoc)
  qed
  moreover have "va + of_nat (unat ?n + k) = va + ?n + of_nat k" by simp
  moreover have "unat (len - ?n) = unat len - unat ?n" "unat ?n \<le> unat len"
    using n by (auto simp: unat_sub word_le_nat_alt)
  ultimately show ?thesis
    using assms(3) unfolding stops_at_def assms(2) by (auto simp: add.assoc)
qed

lemma in_region_split:
  assumes "n + k \<le> 2 ^ 64"
  shows "in_region d (n + k) a \<longleftrightarrow> in_region d n a \<or> in_region (d + of_nat n) k a"
proof
  assume "in_region d (n + k) a"
  then obtain i where i: "i < n + k" "a = d + of_nat i" using in_region_iff_offset [OF assms] by blast
  show "in_region d n a \<or> in_region (d + of_nat n) k a"
  proof (cases "i < n")
    case True
    then show ?thesis using i assms in_region_offset [of i n d] by simp
  next
    case False
    then have "a = d + of_nat n + of_nat (i - n)" using i by (simp add: of_nat_diff)
    then show ?thesis using False i assms in_region_offset [of "i - n" k "d + of_nat n"] by simp
  qed
next
  assume "in_region d n a \<or> in_region (d + of_nat n) k a"
  then consider i where "i < n" "a = d + of_nat i" | i where "i < k" "a = d + of_nat n + of_nat i"
    using assms in_region_iff_offset [of n d a] in_region_iff_offset [of k "d + of_nat n" a] by auto
  then show "in_region d (n + k) a"
  proof cases
    case 1
    then show ?thesis using assms in_region_offset [of i "n + k" d] by simp
  next
    case 2
    then show ?thesis using assms in_region_offset [of "n + i" "n + k" d] by (simp add: add.assoc)
  qed
qed


lemma stops_at_le: "stops_at s root va n r k \<Longrightarrow> k \<le> n"
  by (auto simp: stops_at_def)

definition copied_out ::
  "'a kmem_state_scheme \<Rightarrow> u64 \<Rightarrow> u64 list \<Rightarrow> u64 \<Rightarrow> u64 \<Rightarrow> nat \<Rightarrow> 'a kmem_state_scheme \<Rightarrow> bool" where
  "copied_out s root ps dstva src k s' \<longleftrightarrow>
     uvm_inv s' root ps \<and> (\<forall>va. walkaddr root va s' = walkaddr root va s) \<and>
     (\<forall>u. table_page (mem s') root u = table_page (mem s) root u) \<and>
     (\<forall>va. user_byte s' root va = (if in_region dstva k va then Some (mem s (src + (va - dstva)))
        else user_byte s root va)) \<and>
     (\<forall>b. \<not> user_frame s root (PGROUNDDOWN b) \<longrightarrow> mem s' b = mem s b)"

lemma uaddr_cong: "(\<And>va. walkaddr root va s' = walkaddr root va s) \<Longrightarrow> uaddr s' root vb = uaddr s root vb"
  by (simp add: uaddr_def)

lemma user_frame_cong:
  "(\<And>va. walkaddr root va s' = walkaddr root va s) \<Longrightarrow> user_frame s' root p = user_frame s root p"
  by (simp add: user_frame_def)

lemma copied_out_trans:
  assumes "copied_out s root ps dstva src n s1" and "copied_out s1 root ps (dstva + of_nat n) (src + of_nat n) k s2"
    and buf: "kernel_buffer s root src (n + k)"
  shows "copied_out s root ps dstva src (n + k) s2"
proof -
  have nk: "n + k \<le> 2 ^ 64" using buf by (simp add: kernel_buffer_def)
  have w: "walkaddr root va s1 = walkaddr root va s" "walkaddr root va s2 = walkaddr root va s" for va
    using assms(1,2) by (auto simp: copied_out_def)
  have "user_byte s2 root va = (if in_region dstva (n + k) va then Some (mem s (src + (va - dstva)))
      else user_byte s root va)" for va
  proof (cases "in_region (dstva + of_nat n) k va")
    case True
    then have r: "in_region dstva (n + k) va" using in_region_split [OF nk] by blast
    have "user_byte s2 root va = Some (mem s1 (src + (va - dstva)))"
      using assms(2) True by (simp add: copied_out_def)
    moreover have "\<not> user_frame s root (PGROUNDDOWN (src + (va - dstva)))"
      using buf r by (simp add: kernel_buffer_def in_region_def)
    ultimately show ?thesis using assms(1) r by (simp add: copied_out_def)
  next
    case False
    then have "in_region dstva (n + k) va \<longleftrightarrow> in_region dstva n va" using in_region_split [OF nk] by blast
    then show ?thesis using assms(1,2) False by (simp add: copied_out_def)
  qed
  moreover have "mem s2 b = mem s b" if "\<not> user_frame s root (PGROUNDDOWN b)" for b
    using assms(1,2) that user_frame_cong [OF w(1)] by (simp add: copied_out_def)
  moreover have "table_page (mem s2) root u = table_page (mem s) root u" for u
    using assms(1,2) by (simp add: copied_out_def)
  ultimately show ?thesis using assms(2) w by (simp add: copied_out_def)
qed

lemma kernel_buffer_cong:
  "(\<And>va. walkaddr root va s' = walkaddr root va s) \<Longrightarrow> kernel_buffer s' root a n = kernel_buffer s root a n"
  by (simp add: kernel_buffer_def user_frame_def)

lemma kernel_buffer_le: "kernel_buffer s root a n \<Longrightarrow> k \<le> n \<Longrightarrow> kernel_buffer s root a k"
  by (auto simp: kernel_buffer_def in_region_def)

lemma copyout_correct:
  assumes "uvm_inv s root ps" and "kernel_buffer s root src (unat len)"
  shows "\<exists>r s' k. copyout root dstva src len s = (r, s') \<and>
    stops_at s root dstva (unat len) r k \<and> copied_out s root ps dstva src k s'"
  using assms
proof (induction "unat len" arbitrary: dstva src len s rule: less_induct)
  case less
  let ?p = "walkaddr root (PGROUNDDOWN dstva) s" and ?n = "chunk dstva len"
  consider (zero) "len = 0" | (fault) "len \<noteq> 0" "?p = 0" | (copy) "len \<noteq> 0" "?p \<noteq> 0" by blast
  then show ?case
  proof cases
    case zero
    then show ?thesis using less.prems
      by (subst copyout.simps) (auto simp: stops_at_def copied_out_def intro!: exI [of _ 0])
  next
    case fault
    then show ?thesis using less.prems stops_at_unmapped [of root dstva s "unat len"]
      by (subst copyout.simps) (auto simp: copied_out_def word_neq_0_conv unat_gt_0 intro!: exI [of _ 0])
  next
    case copy
    have len: "0 < len" using copy(1) by (simp add: word_neq_0_conv)
    have n: "0 < unat ?n" "unat ?n \<le> unat len"
      using chunk_bounds [OF len] by (auto simp: word_le_nat_alt word_less_nat_alt)
    define s1 where "s1 = s\<lparr>mem := memmove (mem s) (?p + (dstva - PGROUNDDOWN dstva)) src (ucast ?n)\<rparr>"
    have buf: "kernel_buffer s root src (unat ?n)" by (rule kernel_buffer_le [OF less.prems(2) n(2)])
    note round = copyout_round [OF less.prems(1) refl copy(2) buf s1_def]
    have c1: "copied_out s root ps dstva src (unat ?n) s1"
      using round by (simp add: copied_out_def)
    have lens: "unat (len - ?n) = unat len - unat ?n" using n by (simp add: unat_sub word_le_nat_alt)
    have "kernel_buffer s root (src + of_nat (unat ?n)) (unat len - unat ?n)"
      by (rule kernel_buffer_shift [OF less.prems(2) n(2)])
    then have "kernel_buffer s1 root (src + ?n) (unat (len - ?n))"
      using kernel_buffer_cong [OF round(2)] lens by simp
    moreover have "unat (len - ?n) < unat len" using lens n by simp
    ultimately obtain r s' k where ih: "copyout root (dstva + ?n) (src + ?n) (len - ?n) s1 = (r, s')"
      "stops_at s1 root (dstva + ?n) (unat (len - ?n)) r k"
      "copied_out s1 root ps (dstva + ?n) (src + ?n) k s'"
      using less.hyps [OF _ round(1)] by blast
    have "copyout root dstva src len s = copyout root (PGROUNDDOWN dstva + 4096) (src + ?n) (len - ?n) s1"
      using len copy by (subst copyout.simps) (simp add: Let_def s1_def)
    also have "\<dots> = copyout root (dstva + ?n) (src + ?n) (len - ?n) s1"
    proof (cases "?n = len")
      case True
      then show ?thesis by (simp add: copyout.simps)
    next
      case False
      then have "dstva + ?n = PGROUNDDOWN dstva + 4096" using chunk_last_or_page by blast
      then show ?thesis by simp
    qed
    finally have "copyout root dstva src len s = (r, s')" using ih(1) by simp
    moreover have "stops_at s root dstva (unat len) r (unat ?n + k)"
      by (rule stops_at_chunk [OF copy(2) uaddr_cong [OF round(2)] ih(2) len])
    moreover have "copied_out s root ps dstva src (unat ?n + k) s'"
    proof (rule copied_out_trans [OF c1])
      show "kernel_buffer s root src (unat ?n + k)"
        using stops_at_le [OF ih(2)] lens n by (intro kernel_buffer_le [OF less.prems(2)]) simp
    qed (use ih(3) in simp)
    ultimately show ?thesis by blast
  qed
qed

section \<open>copyin\<close>

definition kernel_dest :: "'a kmem_state_scheme \<Rightarrow> u64 \<Rightarrow> u64 list \<Rightarrow> u64 \<Rightarrow> nat \<Rightarrow> bool" where
  "kernel_dest s root ps a n \<longleftrightarrow> kernel_buffer s root a n \<and>
     (\<forall>b. in_region a n b \<longrightarrow> \<not> kernel_state_byte s root ps b)"

definition copied_in ::
  "'a kmem_state_scheme \<Rightarrow> u64 \<Rightarrow> u64 list \<Rightarrow> u64 \<Rightarrow> u64 \<Rightarrow> nat \<Rightarrow> 'a kmem_state_scheme \<Rightarrow> bool" where
  "copied_in s root ps dst srcva k s' \<longleftrightarrow>
     uvm_inv s' root ps \<and> (\<forall>va. walkaddr root va s' = walkaddr root va s) \<and>
     (\<forall>u. table_page (mem s') root u = table_page (mem s) root u) \<and>
     (\<forall>va. user_byte s' root va = user_byte s root va) \<and>
     (\<forall>b. \<not> in_region dst k b \<longrightarrow> mem s' b = mem s b) \<and>
     (\<forall>i < k. Some (mem s' (dst + of_nat i)) = user_byte s root (srcva + of_nat i))"

lemma kernel_dest_le: "kernel_dest s root ps a n \<Longrightarrow> k \<le> n \<Longrightarrow> kernel_dest s root ps a k"
  using kernel_buffer_le [of s root a n k] by (auto simp: kernel_dest_def in_region_def)

lemma kernel_dest_shift:
  assumes "kernel_dest s root ps a n" and "k \<le> n"
  shows "kernel_dest s root ps (a + of_nat k) (n - k)"
proof -
  have "n \<le> 2 ^ 64" using assms(1) by (simp add: kernel_dest_def kernel_buffer_def)
  then have "in_region a n b" if "in_region (a + of_nat k) (n - k) b" for b
    using that assms(2) in_region_split [of k "n - k" a b] by simp
  then show ?thesis using assms kernel_buffer_shift by (auto simp: kernel_dest_def)
qed

lemma copyin_round:
  assumes inv: "uvm_inv s root ps" and p: "walkaddr root (PGROUNDDOWN srcva) s = p" "p \<noteq> 0"
    and buf: "kernel_dest s root ps dst (unat (chunk srcva len))"
    and s': "s' = s\<lparr>mem := memmove (mem s) dst (p + (srcva - PGROUNDDOWN srcva)) (ucast (chunk srcva len))\<rparr>"
  shows "copied_in s root ps dst srcva (unat (chunk srcva len)) s'"
proof -
  let ?n = "chunk srcva len" and ?off = "srcva - PGROUNDDOWN srcva"
  note f = uvm_inv_frame [OF inv p]
  have off: "unat ?off = unat srcva mod 4096" by (rule unat_diff_PGROUNDDOWN)
  have "unat p < 0x88000000" using f(2) by (simp add: PHYSTOP_val word_less_nat_alt)
  then have src: "unat (p + ?off) = unat p + unat srcva mod 4096"
    using off by (simp add: unat_word_ariths)
  have m: "mem s' b = (if in_region dst (unat ?n) b then mem s (p + ?off + (b - dst)) else mem s b)" for b
  proof -
    have "unat dst + unat (ucast ?n :: u32) < 2 ^ 64"
      using buf by (simp add: kernel_dest_def kernel_buffer_def unat_ucast_chunk)
    moreover have "unat (p + ?off) + unat (ucast ?n :: u32) < 2 ^ 64"
    proof -
      have "unat ?n \<le> 4096" by (simp add: unat_chunk)
      then show ?thesis using src \<open>unat p < 0x88000000\<close> by (simp add: unat_ucast_chunk)
    qed
    ultimately show ?thesis using memmove_apply by (simp add: s' unat_ucast_chunk)
  qed
  have same: "mem s' b = mem s b" if "kernel_state_byte s root ps b" for b
    using that m buf by (auto simp: kernel_dest_def)
  have s'2: "s' = s\<lparr>mem := mem s'\<rparr>" by (simp add: s')
  have w: "uvm_inv s' root ps" "walkaddr root va s' = walkaddr root va s"
    "table_page (mem s') root u = table_page (mem s) root u" for va u
    by (rule uvm_inv_write [OF inv s'2], erule same)+
  have "user_byte s' root va = user_byte s root va" for va
  proof (cases "walkaddr root (PGROUNDDOWN va) s = 0")
    case False
    let ?b = "walkaddr root (PGROUNDDOWN va) s + (va - PGROUNDDOWN va)"
    have "user_frame s root (PGROUNDDOWN ?b)"
      using offset_in_frame uvm_inv_frame(1) [OF inv refl False] user_frameI [OF refl False] by metis
    then have "\<not> in_region dst (unat ?n) ?b" using buf by (auto simp: kernel_dest_def kernel_buffer_def)
    then show ?thesis using False m by (simp add: user_byte_walkaddr w)
  qed (simp add: user_byte_walkaddr w)
  moreover have "Some (mem s' (dst + of_nat i)) = user_byte s root (srcva + of_nat i)"
    if i: "i < unat ?n" for i
  proof -
    have le: "unat ?n \<le> 2 ^ 64" using unat_lt_u64 [of ?n] by simp
    have "in_region srcva (unat ?n) (srcva + of_nat i)" using i le in_region_offset by blast
    from chunk_in_page [OF this]
    have sp: "same_page srcva (srcva + of_nat i)" "srcva + of_nat i - PGROUNDDOWN srcva = ?off + of_nat i"
      by simp_all
    have "in_region dst (unat ?n) (dst + of_nat i)" using i le in_region_offset by blast
    then have "mem s' (dst + of_nat i) = mem s (p + ?off + of_nat i)" using m by simp
    moreover have "user_byte s root (srcva + of_nat i) = Some (mem s (p + (?off + of_nat i)))"
      using p unfolding user_byte_walkaddr sp(1) [symmetric] sp(2) by simp
    ultimately show ?thesis by (simp add: add.assoc)
  qed
  ultimately show ?thesis using w m by (simp add: copied_in_def)
qed

lemma copied_in_trans:
  assumes a: "copied_in s root ps dst srcva n s1" and b: "copied_in s1 root ps (dst + of_nat n) (srcva + of_nat n) k s2"
    and nk: "n + k < 2 ^ 64"
  shows "copied_in s root ps dst srcva (n + k) s2"
proof -
  have out: "mem s2 c = mem s c" if "\<not> in_region dst (n + k) c" for c
    using that a b in_region_split [of n k dst c] nk by (simp add: copied_in_def)
  have "Some (mem s2 (dst + of_nat i)) = user_byte s root (srcva + of_nat i)" if i: "i < n + k" for i
  proof (cases "i < n")
    case True
    have "\<not> in_region (dst + of_nat n) k (dst + of_nat i)"
    proof
      assume "in_region (dst + of_nat n) k (dst + of_nat i)"
      then obtain j where j: "j < k" "dst + of_nat i = dst + of_nat n + of_nat j"
        using nk in_region_iff_offset [of k] by auto
      then have "(of_nat i :: u64) = of_nat (n + j)" by simp
      then have "i = n + j" using nk i j(1) unat_of_nat_lt64 by (metis add_less_cancel_left less_trans)
      then show False using True by simp
    qed
    then show ?thesis using True a b by (simp add: copied_in_def)
  next
    case False
    then have j: "i - n < k" "dst + of_nat i = dst + of_nat n + of_nat (i - n)"
      "srcva + of_nat i = srcva + of_nat n + of_nat (i - n)" using i by (auto simp: of_nat_diff)
    show ?thesis using a b j(1) unfolding j(2,3) by (simp add: copied_in_def)
  qed
  then show ?thesis using a b out by (simp add: copied_in_def)
qed

lemma kernel_dest_cong:
  assumes "\<And>va. walkaddr root va s' = walkaddr root va s" "\<And>u. table_page (mem s') root u = table_page (mem s) root u"
  shows "kernel_dest s' root ps a n = kernel_dest s root ps a n"
  using assms by (simp add: kernel_dest_def kernel_buffer_cong kernel_state_byte_def kernel_buffer_def user_frame_def)

lemma copyin_correct:
  assumes "uvm_inv s root ps" and "kernel_dest s root ps dst (unat len)"
  shows "\<exists>r s' k. copyin root dst srcva len s = (r, s') \<and>
    stops_at s root srcva (unat len) r k \<and> copied_in s root ps dst srcva k s'"
  using assms
proof (induction "unat len" arbitrary: dst srcva len s rule: less_induct)
  case less
  let ?p = "walkaddr root (PGROUNDDOWN srcva) s" and ?n = "chunk srcva len"
  consider (zero) "len = 0" | (fault) "len \<noteq> 0" "?p = 0" | (copy) "len \<noteq> 0" "?p \<noteq> 0" by blast
  then show ?case
  proof cases
    case zero
    then show ?thesis using less.prems
      by (subst copyin.simps) (auto simp: stops_at_def copied_in_def intro!: exI [of _ 0])
  next
    case fault
    then show ?thesis using less.prems stops_at_unmapped [of root srcva s "unat len"]
      by (subst copyin.simps) (auto simp: copied_in_def word_neq_0_conv unat_gt_0 intro!: exI [of _ 0])
  next
    case copy
    have len: "0 < len" using copy(1) by (simp add: word_neq_0_conv)
    have n: "0 < unat ?n" "unat ?n \<le> unat len"
      using chunk_bounds [OF len] by (auto simp: word_le_nat_alt word_less_nat_alt)
    define s1 where "s1 = s\<lparr>mem := memmove (mem s) dst (?p + (srcva - PGROUNDDOWN srcva)) (ucast ?n)\<rparr>"
    have buf: "kernel_dest s root ps dst (unat ?n)" by (rule kernel_dest_le [OF less.prems(2) n(2)])
    note c1 = copyin_round [OF less.prems(1) refl copy(2) buf s1_def]
    have r1: "uvm_inv s1 root ps" "walkaddr root va s1 = walkaddr root va s"
      "table_page (mem s1) root u = table_page (mem s) root u" for va u
      using c1 by (auto simp: copied_in_def)
    have lens: "unat (len - ?n) = unat len - unat ?n" using n by (simp add: unat_sub word_le_nat_alt)
    have "kernel_dest s root ps (dst + of_nat (unat ?n)) (unat len - unat ?n)"
      by (rule kernel_dest_shift [OF less.prems(2) n(2)])
    then have "kernel_dest s1 root ps (dst + ?n) (unat (len - ?n))"
      using kernel_dest_cong [OF r1(2,3)] lens by simp
    moreover have "unat (len - ?n) < unat len" using lens n by simp
    ultimately obtain r s' k where ih: "copyin root (dst + ?n) (srcva + ?n) (len - ?n) s1 = (r, s')"
      "stops_at s1 root (srcva + ?n) (unat (len - ?n)) r k"
      "copied_in s1 root ps (dst + ?n) (srcva + ?n) k s'"
      using less.hyps [OF _ r1(1)] by blast
    have "copyin root dst srcva len s = copyin root (dst + ?n) (PGROUNDDOWN srcva + 4096) (len - ?n) s1"
      using len copy by (subst copyin.simps) (simp add: Let_def s1_def)
    also have "\<dots> = copyin root (dst + ?n) (srcva + ?n) (len - ?n) s1"
    proof (cases "?n = len")
      case True
      then show ?thesis by (simp add: copyin.simps)
    next
      case False
      then have "srcva + ?n = PGROUNDDOWN srcva + 4096" using chunk_last_or_page by blast
      then show ?thesis by simp
    qed
    finally have "copyin root dst srcva len s = (r, s')" using ih(1) by simp
    moreover have "stops_at s root srcva (unat len) r (unat ?n + k)"
      by (rule stops_at_chunk [OF copy(2) uaddr_cong [OF r1(2)] ih(2) len])
    moreover have "copied_in s root ps dst srcva (unat ?n + k) s'"
    proof (rule copied_in_trans [OF c1])
      have "unat ?n + k \<le> unat len" using stops_at_le [OF ih(2)] lens n by simp
      then show "unat ?n + k < 2 ^ 64" using unat_lt_u64 [of len] by (rule le_less_trans)
    qed (use ih(3) in simp)
    ultimately show ?thesis by blast
  qed
qed

text \<open>Bytes copied out and back in are the bytes that went out.\<close>

lemma copyout_copyin:
  assumes inv: "uvm_inv s root ps" and src: "kernel_buffer s root src (unat len)"
    and dst: "kernel_dest s root ps dst (unat len)"
    and out: "copyout root va src len s = (0, s1)" and "copyin root dst va len s1 = (r, s2)"
  shows "r = 0 \<and> (\<forall>i < unat len. mem s2 (dst + of_nat i) = mem s (src + of_nat i))"
proof -
  obtain k where k: "stops_at s root va (unat len) 0 k" "copied_out s root ps va src k s1"
    using copyout_correct [OF inv src, of va] out by auto
  then have kl: "k = unat len" by (auto simp: stops_at_def)
  have w: "walkaddr root v s1 = walkaddr root v s" for v using k(2) by (simp add: copied_out_def)
  have t: "table_page (mem s1) root u = table_page (mem s) root u" for u using k(2) by (simp add: copied_out_def)
  have "kernel_dest s1 root ps dst (unat len)" using dst kernel_dest_cong [OF w t] by simp
  moreover have "uvm_inv s1 root ps" using k(2) by (simp add: copied_out_def)
  ultimately obtain j where j: "stops_at s1 root va (unat len) r j" "copied_in s1 root ps dst va j s2"
    using copyin_correct [of s1 root ps dst len va] assms(5) by auto
  have u: "uaddr s1 root v = uaddr s root v" for v by (rule uaddr_cong [OF w])
  have jl: "r = 0" "j = unat len"
    using j(1) k(1) kl unfolding stops_at_def u by auto
  have "mem s2 (dst + of_nat i) = mem s (src + of_nat i)" if i: "i < unat len" for i
  proof -
    have "unat len \<le> 2 ^ 64" using unat_lt_u64 [of len] by simp
    then have "in_region va k (va + of_nat i)" using i kl in_region_offset by blast
    then have "user_byte s1 root (va + of_nat i) = Some (mem s (src + of_nat i))"
      using k(2) by (simp add: copied_out_def)
    moreover have "Some (mem s2 (dst + of_nat i)) = user_byte s1 root (va + of_nat i)"
      using j(2) i jl by (simp add: copied_in_def)
    ultimately show ?thesis by simp
  qed
  with jl show ?thesis by simp
qed

end
