(* ===== verification/Vm_Props.thy ===== *)
theory Vm_Props
  imports Vm_User "HOL-Library.Sublist"
begin

text \<open>
  What the memory components guarantee, on the page table as a tree of pages: mapping a range,
  copying to and from user memory. The witnesses use a page table of three pages that maps
  one user page, and a zeroed root with three free pages.
\<close>

section \<open>A user page table in memory\<close>

abbreviation demo_root :: u64 where "demo_root \<equiv> 0x80001000"
abbreviation demo_mid :: u64 where "demo_mid \<equiv> 0x80002000"
abbreviation demo_low :: u64 where "demo_low \<equiv> 0x80003000"
abbreviation demo_user :: u64 where "demo_user \<equiv> 0x80004000"

definition demo_entry :: u64 where "demo_entry = PA2PTE demo_user OR 23"

definition demo_vm :: kmem_state where
  "demo_vm = \<lparr>mem = store64 (store64 (store64 (\<lambda>_. 0) (pte_slot demo_root 0) (PA2PTE demo_mid OR PTE_V))
       (pte_slot demo_mid 0) (PA2PTE demo_low OR PTE_V)) (pte_slot demo_low 0) demo_entry,
     freelist = 0, kend = 0x80000000\<rparr>"

lemma demo_aligned:
  "page_aligned demo_root" "page_aligned demo_mid" "page_aligned demo_low" "page_aligned demo_user"
  by (simp_all add: page_aligned_def)

lemma demo_load:
  assumes "page_aligned t" "i < 512"
  shows "load64 (mem demo_vm) (pte_slot t i) =
    (if t = demo_root \<and> i = 0 then PA2PTE demo_mid OR PTE_V
     else if t = demo_mid \<and> i = 0 then PA2PTE demo_low OR PTE_V
     else if t = demo_low \<and> i = 0 then demo_entry else 0)"
  using assms demo_aligned
  by (auto simp: demo_vm_def slot_other_slot load_store_64)

lemma demo_entries:
  "(PA2PTE demo_mid OR PTE_V) AND PTE_V \<noteq> 0" "PTE2PA (PA2PTE demo_mid OR PTE_V) = demo_mid"
  "(PA2PTE demo_low OR PTE_V) AND PTE_V \<noteq> 0" "PTE2PA (PA2PTE demo_low OR PTE_V) = demo_low"
  "demo_entry AND PTE_V \<noteq> 0" "demo_entry AND PTE_U \<noteq> 0" "PTE2PA demo_entry = demo_user"
  by (simp_all add: PA2PTE_def PTE2PA_def demo_entry_def)

lemma demo_follow:
  assumes "page_aligned t" "i < 512"
  shows "follow (mem demo_vm) t i =
    (if i \<noteq> 0 then None else if t = demo_root then Some demo_mid else if t = demo_mid then Some demo_low
     else if t = demo_low then Some demo_user else None)"
  using demo_entries by (auto simp: follow_def demo_load [OF assms] Let_def)

lemma demo_reach:
  "indices is \<Longrightarrow> reach (mem demo_vm) demo_root is =
     (if \<forall>i \<in> set is. i = 0 then Some (if length is = 0 then demo_root else if length is = 1 then demo_mid else demo_low) else None)"
proof -
  assume ind: "indices is"
  then consider "is = []" | i where "is = [i]" "i < 512" | i j where "is = [i, j]" "i < 512" "j < 512"
    by (cases "is" rule: list.exhaust; cases "tl is" rule: list.exhaust) (auto simp: indices_def)
  then show ?thesis
    by cases (simp_all add: reach_Cons demo_follow demo_aligned)
qed

lemma demo_pt_inv: "pt_inv demo_vm demo_root []"
proof -
  have ram: "ram_page demo_vm demo_root" "ram_page demo_vm demo_mid" "ram_page demo_vm demo_low"
    by (simp_all add: ram_page_def demo_vm_def demo_aligned PHYSTOP_val)
  have len: "length is \<le> 2" if "indices is" for "is" using that by (simp add: indices_def)
  have zeros: "is = replicate (length is) 0" if "\<forall>i \<in> set is. i = (0 :: u64)" for "is"
    using that by (simp add: list_eq_iff_nth_eq)
  have "tree (mem demo_vm) demo_root"
    unfolding tree_def
  proof (intro allI impI)
    fix "is" js t assume h: "indices is" "indices js" "reach (mem demo_vm) demo_root is = Some t"
      "reach (mem demo_vm) demo_root js = Some t"
    then have z: "\<forall>i \<in> set is. i = 0" "\<forall>i \<in> set js. i = 0" by (auto simp: demo_reach split: if_splits)
    moreover have "length is = 0 \<or> length is = 1 \<or> length is = 2" "length js = 0 \<or> length js = 1 \<or> length js = 2"
      using len [OF h(1)] len [OF h(2)] by linarith+
    then have "length is = length js"
      using h z by (auto simp: demo_reach split: if_splits)
    ultimately show "is = js" using zeros by metis
  qed
  moreover have "kmem_inv demo_vm []" by (simp add: kmem_inv_def demo_vm_def)
  ultimately show ?thesis using ram by (auto simp: pt_inv_def demo_reach split: if_splits)
qed

lemma demo_leaf:
  "leaf (mem demo_vm) demo_root va = (if PX 0 va = 0 \<and> PX 1 va = 0 \<and> PX 2 va = 0 then demo_entry else 0)"
proof -
  have "reach (mem demo_vm) demo_root (ix 0 va) = (if PX 1 va = 0 \<and> PX 2 va = 0 then Some demo_low else None)"
    using demo_reach [of "ix 0 va"] indices_ix [of 0 va] by (simp add: ix_def)
  then show ?thesis using PX_less [of 0 va] demo_aligned by (simp add: leaf_def demo_load)
qed

lemma demo_walkaddr: "walkaddr demo_root va demo_vm = (if va < MAXVA \<and> PGROUNDDOWN va = 0 then demo_user else 0)"
proof (cases "va < MAXVA")
  case True
  have page: "PX 0 va = 0 \<and> PX 1 va = 0 \<and> PX 2 va = 0 \<longleftrightarrow> PGROUNDDOWN va = 0"
  proof -
    have z: "PX l 0 = 0" "PGROUNDDOWN 0 = 0" for l by (simp_all add: PX_def PGROUNDDOWN_def)
    show ?thesis
    proof
      assume "PX 0 va = 0 \<and> PX 1 va = 0 \<and> PX 2 va = 0"
      then show "PGROUNDDOWN va = 0"
        using PX_determines_page [OF True, of 0] z by (simp add: MAXVA_def)
    next
      assume "PGROUNDDOWN va = 0"
      then have "same_page va 0" using z by simp
      then show "PX 0 va = 0 \<and> PX 1 va = 0 \<and> PX 2 va = 0" using PX_same_page [of va 0] z by simp
    qed
  qed
  then show ?thesis
    using demo_entries True by (simp add: walkaddr_leaf [OF demo_pt_inv] demo_leaf)
next
  case False
  then show ?thesis using walkaddr_MAXVA [of demo_root va demo_vm] by auto
qed

lemma demo_uvm_inv: "uvm_inv demo_vm demo_root []"
proof -
  have frame: "user_frame demo_vm demo_root p \<longleftrightarrow> p = demo_user" for p
    unfolding user_frame_def demo_walkaddr by (auto simp: PGROUNDDOWN_def MAXVA_def intro: exI [of _ 0])
  have "ram_page demo_vm demo_user" by (simp add: ram_page_def demo_vm_def demo_aligned PHYSTOP_val)
  moreover have "\<not> table_page (mem demo_vm) demo_root demo_user"
    by (auto simp: table_page_def demo_reach split: if_splits)
  moreover have "same_page va vb"
    if "walkaddr demo_root va demo_vm \<noteq> 0" "walkaddr demo_root va demo_vm = walkaddr demo_root vb demo_vm" for va vb
    using that by (auto simp: demo_walkaddr split: if_splits)
  ultimately show ?thesis using demo_pt_inv unfolding uvm_inv_def frame list.set by blast
qed

lemma demo_uaddr: "uaddr demo_vm demo_root va = (if PGROUNDDOWN va = 0 then Some (demo_user + va) else None)"
proof -
  have "PGROUNDDOWN va < MAXVA" if "PGROUNDDOWN va = 0" using that by (simp add: MAXVA_def)
  then show ?thesis by (auto simp: uaddr_def demo_walkaddr PGROUNDDOWN_id)
qed

lemma demo_frame: "user_frame demo_vm demo_root p \<longleftrightarrow> p = demo_user"
  unfolding user_frame_def demo_walkaddr by (auto simp: PGROUNDDOWN_def MAXVA_def intro: exI [of _ 0])

lemma demo_kernel_page: "in_region 0x80000100 n b \<Longrightarrow> n \<le> 8 \<Longrightarrow> PGROUNDDOWN b = 0x80000000"
proof -
  assume b: "in_region 0x80000100 n b" and n: "n \<le> 8"
  then obtain i where i: "i < n" "b = 0x80000100 + of_nat i" by (auto simp: in_region_iff_offset)
  then have "b - 0x80000000 = of_nat (256 + i)" by simp
  moreover have "unat (of_nat (256 + i) :: u64) = 256 + i" using i n by (intro unat_of_nat_lt64) simp
  ultimately have "in_region 0x80000000 4096 b" using i n by (simp add: in_region_def)
  moreover have "page_aligned 0x80000000" by (simp add: page_aligned_def)
  ultimately show ?thesis using in_page_iff by blast
qed

lemma demo_buffer: "n \<le> 8 \<Longrightarrow> kernel_buffer demo_vm demo_root 0x80000100 n"
  using demo_kernel_page by (fastforce simp: kernel_buffer_def demo_frame)

section \<open>The properties\<close>

text \<open>
  C12: \<open>copyout\<close> copies exactly the bytes up to the first address that is not mapped for the
  user: the user sees the source bytes there and everything else unchanged, memory outside the
  user's frames is untouched, the page table stays intact, and the result is 0 if all \<open>len\<close> bytes were
  copied and -1 if the copy stopped at an unmapped address.
\<close>

theorem copyout_exact:
  assumes "uvm_inv s root ps" and "kernel_buffer s root src (unat len)"
  shows "\<exists>r s' k. copyout root dstva src len s = (r, s') \<and>
     (r = 0 \<and> k = unat len \<or> r = -1 \<and> k < unat len \<and> uaddr s root (dstva + of_nat k) = None) \<and>
     (\<forall>i < k. uaddr s root (dstva + of_nat i) \<noteq> None) \<and>
     (\<forall>va. user_byte s' root va = (if in_region dstva k va then Some (mem s (src + (va - dstva)))
        else user_byte s root va)) \<and>
     (\<forall>b. \<not> user_frame s root (PGROUNDDOWN b) \<longrightarrow> mem s' b = mem s b) \<and> uvm_inv s' root ps"
  using copyout_correct [OF assms, of dstva] by (auto simp: stops_at_def copied_out_def)

text \<open>A copy across the end of the only mapped page writes one byte and fails.\<close>

theorem copyout_exact_witness:
  "\<exists>s'. copyout demo_root 4095 0x80000100 2 demo_vm = (-1, s') \<and>
     user_byte s' demo_root 4095 = Some (mem demo_vm 0x80000100) \<and> uvm_inv s' demo_root []"
proof -
  have buf: "kernel_buffer demo_vm demo_root 0x80000100 (unat (2 :: u64))" using demo_buffer [of 2] by simp
  have pg: "PGROUNDDOWN 4095 = 0" "PGROUNDDOWN 4096 \<noteq> 0" by (simp_all add: PGROUNDDOWN_def)
  obtain r s' k where c: "copyout demo_root 4095 0x80000100 2 demo_vm = (r, s')"
    "r = 0 \<and> k = unat (2 :: u64) \<or> r = -1 \<and> k < unat (2 :: u64) \<and> uaddr demo_vm demo_root (4095 + of_nat k) = None"
    "\<forall>i < k. uaddr demo_vm demo_root (4095 + of_nat i) \<noteq> None"
    "\<forall>va. user_byte s' demo_root va = (if in_region 4095 k va then Some (mem demo_vm (0x80000100 + (va - 4095)))
        else user_byte demo_vm demo_root va)" "uvm_inv s' demo_root []"
    using copyout_exact [OF demo_uvm_inv buf, of 4095] by blast
  have "\<not> 1 < k" using c(3) [rule_format, of 1] pg by (auto simp: demo_uaddr)
  moreover have "k \<noteq> 0" using c(2) pg by (cases "k = 0") (auto simp: demo_uaddr)
  ultimately have "k = 1" "r = -1" using c(2) by auto
  with c show ?thesis by auto
qed

text \<open>
  C13: \<open>copyin\<close> fetches exactly the user's bytes up to the first unmapped address into the kernel
  buffer, changes no other byte and leaves user memory as it was; the result is 0 if and only if all of
  the source is mapped.
\<close>

theorem copyin_exact:
  assumes "uvm_inv s root ps" and "kernel_dest s root ps dst (unat len)"
  shows "\<exists>r s' k. copyin root dst srcva len s = (r, s') \<and>
     (r = 0 \<and> k = unat len \<or> r = -1 \<and> k < unat len \<and> uaddr s root (srcva + of_nat k) = None) \<and>
     (\<forall>i < k. Some (mem s' (dst + of_nat i)) = user_byte s root (srcva + of_nat i)) \<and>
     (\<forall>b. \<not> in_region dst k b \<longrightarrow> mem s' b = mem s b) \<and>
     (\<forall>va. user_byte s' root va = user_byte s root va) \<and> uvm_inv s' root ps"
  using copyin_correct [OF assms, of srcva] by (auto simp: stops_at_def copied_in_def)

lemma demo_dest: "n \<le> 8 \<Longrightarrow> kernel_dest demo_vm demo_root [] 0x80000100 n"
  using demo_buffer demo_kernel_page [of n]
  by (auto simp: kernel_dest_def kernel_state_byte_def table_page_def demo_reach split: if_splits)

theorem copyin_exact_witness:
  "\<exists>s'. copyin demo_root 0x80000100 8 4 demo_vm = (0, s') \<and> Some (mem s' 0x80000100) = user_byte demo_vm demo_root 8"
proof -
  have "kernel_dest demo_vm demo_root [] 0x80000100 (unat (4 :: u64))" using demo_dest [of 4] by simp
  from copyin_exact [OF demo_uvm_inv this, of 8] obtain r s' k where c:
    "copyin demo_root 0x80000100 8 4 demo_vm = (r, s')"
    "r = 0 \<and> k = unat (4 :: u64) \<or> r = -1 \<and> k < unat (4 :: u64) \<and> uaddr demo_vm demo_root (8 + of_nat k) = None"
    "\<forall>i < k. Some (mem s' (0x80000100 + of_nat i)) = user_byte demo_vm demo_root (8 + of_nat i)" by blast
  have "uaddr demo_vm demo_root (8 + of_nat j) \<noteq> None" if "j < 4" for j
  proof -
    have "j = 0 \<or> j = 1 \<or> j = 2 \<or> j = 3" using that by linarith
    then show ?thesis by (auto simp: demo_uaddr PGROUNDDOWN_def)
  qed
  then have "r = 0" "k = 4" using c(2) by fastforce+
  with c(1) c(3) [rule_format, of 0] show ?thesis by simp
qed

text \<open>
  C14: what \<open>copyout\<close> has written to user memory, \<open>copyin\<close> reads back: after a successful
  \<open>copyout\<close> a \<open>copyin\<close> from the same address succeeds and yields the source bytes.
\<close>

theorem copyout_copyin_roundtrip:
  assumes "uvm_inv s root ps" and "kernel_buffer s root src (unat len)" and "kernel_dest s root ps dst (unat len)"
    and "copyout root va src len s = (0, s1)" and "copyin root dst va len s1 = (r, s2)"
  shows "r = 0 \<and> (\<forall>i < unat len. mem s2 (dst + of_nat i) = mem s (src + of_nat i))"
  using assms by (rule copyout_copyin)

theorem copyout_copyin_roundtrip_witness:
  "\<exists>s1 s2. copyout demo_root 8 0x80000100 4 demo_vm = (0, s1) \<and> copyin demo_root 0x80000100 8 4 s1 = (0, s2) \<and>
     mem s2 0x80000100 = mem demo_vm 0x80000100"
proof -
  have buf: "kernel_buffer demo_vm demo_root 0x80000100 (unat (4 :: u64))"
    and dest: "kernel_dest demo_vm demo_root [] 0x80000100 (unat (4 :: u64))"
    using demo_buffer [of 4] demo_dest [of 4] by simp_all
  obtain r s1 k where c: "copyout demo_root 8 0x80000100 4 demo_vm = (r, s1)"
    "r = 0 \<and> k = unat (4 :: u64) \<or> r = -1 \<and> k < unat (4 :: u64) \<and> uaddr demo_vm demo_root (8 + of_nat k) = None"
    using copyout_correct [OF demo_uvm_inv buf, of 8] by (auto simp: stops_at_def)
  have "uaddr demo_vm demo_root (8 + of_nat j) \<noteq> None" if "j < 4" for j
  proof -
    have "j = 0 \<or> j = 1 \<or> j = 2 \<or> j = 3" using that by linarith
    then show ?thesis by (auto simp: demo_uaddr PGROUNDDOWN_def)
  qed
  then have r: "r = 0" using c(2) by fastforce
  obtain q s2 where q: "copyin demo_root 0x80000100 8 4 s1 = (q, s2)" by fastforce
  have "q = 0 \<and> (\<forall>i < unat (4 :: u64). mem s2 (0x80000100 + of_nat i) = mem demo_vm (0x80000100 + of_nat i))"
    using copyout_copyin_roundtrip [OF demo_uvm_inv buf dest _ q] c(1) r by simp
  then show ?thesis using c(1) r q by (auto dest: spec [of _ 0])
qed

text \<open>
  \<open>mappages\<close> on a page-aligned range of \<open>n\<close> pages that are not mapped enters the \<open>k\<close> first pages,
  each with its frame and permissions, and no other translation changes: with result 0 it
  entered all of them, with result -1 it stopped because the page allocator is empty. The new table pages come from
  the free list and the table stays a tree.
\<close>

theorem mappages_range:
  assumes "pt_inv s root ps" and "page_aligned va" and "0 < n" and "unat va + 4096 * n \<le> 2 ^ 38"
    and "\<forall>k < n. leaf (mem s) root (va + 4096 * of_nat k) AND PTE_V = 0"
  shows "\<exists>r s' ps' k. mappages root va (4096 * of_nat n) pa perm s = Some (r, s') \<and>
     (r = 0 \<and> k = n \<or> r = -1 \<and> k < n \<and> ps' = []) \<and> pt_inv s' root ps' \<and> suffix ps' ps \<and>
     (\<forall>vb < MAXVA. leaf (mem s') root vb =
        (case page_entries va pa perm k (PGROUNDDOWN vb) of None \<Rightarrow> leaf (mem s) root vb | Some e \<Rightarrow> e))"
proof -
  obtain r s' ps' k where m: "mappages root va (4096 * of_nat n) pa perm s = Some (r, s')"
    "mapped_pages root s ps (page_entries va pa perm k) s' ps'" "r = 0 \<and> k = n \<or> r = -1 \<and> k < n \<and> ps' = []"
    using mappages_spec [OF assms, of pa perm] by blast
  from m(2) have "pt_inv s' root ps'" "suffix ps' ps"
    "\<forall>vb < MAXVA. leaf (mem s') root vb =
        (case page_entries va pa perm k (PGROUNDDOWN vb) of None \<Rightarrow> leaf (mem s) root vb | Some e \<Rightarrow> e)"
    by (auto simp: mapped_pages_def suffix_def)
  with m(1,3) show ?thesis by blast
qed

text \<open>Three pages behind the mapped page of the demo table: the tables exist already.\<close>

theorem mappages_range_witness:
  "\<exists>r s' ps' k. mappages demo_root 4096 (4096 * of_nat 3) demo_user 22 demo_vm = Some (r, s') \<and>
     (r = 0 \<and> k = 3 \<or> r = -1 \<and> k < 3 \<and> ps' = []) \<and> pt_inv s' demo_root ps' \<and> suffix ps' [] \<and>
     (\<forall>vb < MAXVA. leaf (mem s') demo_root vb =
        (case page_entries 4096 demo_user 22 k (PGROUNDDOWN vb) of None \<Rightarrow> leaf (mem demo_vm) demo_root vb | Some e \<Rightarrow> e))"
proof (rule mappages_range [OF demo_pt_inv])
  show "\<forall>k < 3. leaf (mem demo_vm) demo_root (4096 + 4096 * of_nat k) AND PTE_V = 0"
  proof (intro allI impI)
    fix k :: nat assume "k < 3"
    then have "k = 0 \<or> k = 1 \<or> k = 2" by linarith
    then show "leaf (mem demo_vm) demo_root (4096 + 4096 * of_nat k) AND PTE_V = 0"
      by (auto simp: demo_leaf PX_def)
  qed
qed (simp_all add: page_aligned_def)

end
