(* ===== verification/Vm_Room.thy ===== *)
theory Vm_Room
  imports Vm_User
begin

text \<open>
  How many pages the tables of a map take: \<open>mappages\<close> takes one page for each table that is missing on the paths of its
  addresses, so with as many free pages as missing tables it does not fail. \<open>A\<close> is a set of index paths, and the pages
  it can still cost are counted before and after.
\<close>

definition missing :: "memory \<Rightarrow> u64 \<Rightarrow> u64 list set \<Rightarrow> u64 list set" where
  "missing m root A = {is \<in> A. reach m root is = None}"

text \<open>The free pages are enough for the tables on the paths \<open>A\<close> and \<open>c\<close> pages more.\<close>

definition has_room :: "'a kmem_state_scheme \<Rightarrow> u64 \<Rightarrow> u64 list set \<Rightarrow> u64 list \<Rightarrow> nat \<Rightarrow> bool" where
  "has_room s root A ps c \<longleftrightarrow> finite A \<and> (\<forall>is \<in> A. indices is) \<and> card (missing (mem s) root A) + c \<le> length ps"

lemma has_room_same: "has_room s root A ps c \<Longrightarrow> (\<And>is. indices is \<Longrightarrow> reach (mem s') root is = reach (mem s) root is) \<Longrightarrow> has_room s' root A ps c"
  by (auto simp: has_room_def missing_def cong: conj_cong)

lemma is_freelist_unique: "is_freelist m h ps \<Longrightarrow> is_freelist m h qs \<Longrightarrow> ps = qs"
  by (induction ps arbitrary: h qs; case_tac qs) auto

lemma kmem_inv_unique: "kmem_inv s ps \<Longrightarrow> kmem_inv s qs \<Longrightarrow> ps = qs"
  unfolding kmem_inv_def by (blast intro: is_freelist_unique)

lemma walk_level_room:
  assumes "l \<le> 2" and "pt_inv s root ps" and "reach (mem s) root (ix l va) = Some t" and "\<forall>k < l. ix k va \<in> A"
    and "walk_level va t True l s = (pte, s')" and "has_room s root A ps c"
  shows "pte \<noteq> 0 \<and> (\<exists>ps'. kmem_inv s' ps' \<and> has_room s' root A ps' c)"
  using assms
proof (induction l arbitrary: s ps t)
  case 0
  have "pte_slot t (PX 0 va) \<noteq> 0"
    using pt_invD(2,3) [OF "0.prems"(2) _ "0.prems"(3)] by (simp add: pte_slot_nonzero PX_less)
  with 0 show ?case by (auto simp: pt_inv_def)
next
  case (Suc l)
  let ?i = "PX (Suc l) va"
  have l: "l < 2" using Suc.prems(1) by simp
  have ixl: "ix l va = ?i # ix (Suc l) va" by (rule ix_Suc [OF l])
  have idx: "indices (?i # ix (Suc l) va)" using ixl indices_ix [of l va] by simp
  show ?case
  proof (cases "follow (mem s) t ?i")
    case (Some u)
    then have "walk_level va t True (Suc l) s = walk_level va u True l s"
      by (auto simp: follow_def Let_def split: if_splits)
    moreover have "reach (mem s) root (ix l va) = Some u"
      using Some Suc.prems(3) ixl by (simp add: reach_Cons)
    ultimately show ?thesis using Suc.IH [of s ps u] Suc.prems l by simp
  next
    case None
    then have nv: "load64 (mem s) (pte_slot t ?i) AND PTE_V = 0"
      by (auto simp: follow_def Let_def split: if_splits)
    have kinv: "kmem_inv s ps" using Suc.prems(2) by (simp add: pt_inv_def)
    have mis: "ix l va \<in> missing (mem s) root A"
    proof -
      have "ix l va \<in> A" using Suc.prems(4) by simp
      moreover have "reach (mem s) root (ix l va) = None" using Suc.prems(3) None ixl by (simp add: reach_Cons)
      ultimately show ?thesis by (simp add: missing_def)
    qed
    have fin: "finite (missing (mem s) root A)" using Suc.prems(6) by (simp add: has_room_def missing_def)
    then have "0 < card (missing (mem s) root A)" using mis by (auto simp: card_gt_0_iff)
    then obtain p ps1 where ps: "ps = p # ps1" using Suc.prems(6) by (cases ps) (auto simp: has_room_def)
    have p: "p \<noteq> 0" "freelist s = p" using kinv ps by (auto simp: kmem_inv_def)
    let ?s3 = "s\<lparr>freelist := load64 (mem s) p, mem := store64 (memset (memset (mem s) p 5 4096) p 0 4096)
            (pte_slot t ?i) (PA2PTE p OR PTE_V)\<rparr>"
    have w: "walk_level va t True (Suc l) s = walk_level va p True l ?s3"
      using nv p by (simp add: kalloc_def Let_def)
    note h = hang_table [OF Suc.prems(2) [unfolded ps] idx Suc.prems(3) None refl refl]
    have r: "reach (mem ?s3) root (ix l va) = Some p" using h(2) ixl by simp
    have "missing (mem ?s3) root A \<subseteq> missing (mem s) root A - {ix l va}"
    proof
      fix js assume js: "js \<in> missing (mem ?s3) root A"
      then have "indices js" using Suc.prems(6) by (auto simp: missing_def has_room_def)
      then have "reach (mem s) root js = None"
        using h(6) [of js] js by (cases "reach (mem s) root js") (auto simp: missing_def)
      moreover have "js \<noteq> ix l va" using js r by (auto simp: missing_def)
      ultimately show "js \<in> missing (mem s) root A - {ix l va}" using js by (simp add: missing_def)
    qed
    then have "card (missing (mem ?s3) root A) \<le> card (missing (mem s) root A - {ix l va})"
      by (intro card_mono) (use fin in auto)
    then have "card (missing (mem ?s3) root A) \<le> card (missing (mem s) root A) - 1" using mis fin by simp
    moreover have "card (missing (mem s) root A) + c \<le> Suc (length ps1)" "finite A" "\<forall>is \<in> A. indices is"
      using Suc.prems(6) ps by (simp_all add: has_room_def)
    ultimately have "has_room ?s3 root A ps1 c"
      using \<open>0 < card (missing (mem s) root A)\<close> unfolding has_room_def by linarith
    then show ?thesis using Suc.IH [OF _ h(1) r] Suc.prems(4,5) w l by (metis less_SucI less_imp_le)
  qed
qed

text \<open>One page of \<open>mappages\<close>.\<close>

lemma mappages_loop_room:
  assumes inv: "pt_inv s root ps" and a: "page_aligned a" "a < MAXVA" and free: "leaf (mem s) root a AND PTE_V = 0"
    and A: "ix 0 a \<in> A" "ix 1 a \<in> A" and has_room: "has_room s root A ps c"
  obtains s2 ps1 where
    "\<And>b. mappages_loop root a b pa perm s = (if a = b then Some (0, s2) else mappages_loop root (a + 4096) b (pa + 4096) perm s2)"
    and "mapped_pages root s ps [a \<mapsto> PA2PTE pa OR perm OR PTE_V] s2 ps1" and "has_room s2 root A ps1 c"
proof -
  obtain pte s1 where w: "walk root a True s = Some (pte, s1)" "walk_level a root True 2 s = (pte, s1)"
    using a(2) by (cases "walk_level a root True 2 s") (auto simp: walk_def)
  have "\<forall>k < 2. ix k a \<in> A" using A by (auto simp: less_2_cases_iff)
  then obtain qs where q: "pte \<noteq> 0" "kmem_inv s1 qs" "has_room s1 root A qs c"
    using walk_level_room [OF _ inv _ _ w(2) has_room] by (auto simp: ix_def)
  obtain ps1 where ps1: "mapped_pages root s ps Map.empty s1 ps1"
      "\<exists>t. reach (mem s1) root (ix 0 a) = Some t \<and> pte = pte_slot t (PX 0 a)"
    using walk_alloc [OF inv a(2) w(1)] q(1) by metis
  then obtain t where t: "reach (mem s1) root (ix 0 a) = Some t" "pte = pte_slot t (PX 0 a)" by blast
  have inv1: "pt_inv s1 root ps1" using ps1(1) by (simp add: mapped_pages_def)
  then have "qs = ps1" using kmem_inv_unique q(2) by (auto simp: pt_inv_def)
  let ?s2 = "s1\<lparr>mem := store64 (mem s1) (pte_slot t (PX 0 a)) (PA2PTE pa OR perm OR PTE_V)\<rparr>"
  have "load64 (mem s1) pte = leaf (mem s1) root a" using t by (simp add: leaf_def)
  also have "\<dots> = leaf (mem s) root a" using ps1(1) a(2) by (simp add: mapped_pages_def)
  finally have nv: "load64 (mem s1) pte AND PTE_V = 0" using free by simp
  have "has_room ?s2 root A ps1 c"
    by (rule has_room_same [of s1]) (use q(3) \<open>qs = ps1\<close> store_leaf(4) [OF inv1 t(1) refl] in auto)
  moreover have "mapped_pages root s ps [a \<mapsto> PA2PTE pa OR perm OR PTE_V] ?s2 ps1"
    using mapped_pages_store [OF ps1(1) a(2) t(1)] PGROUNDDOWN_id [OF a(1)] by simp
  moreover have "mappages_loop root a b pa perm s =
      (if a = b then Some (0, ?s2) else mappages_loop root (a + 4096) b (pa + 4096) perm ?s2)" for b
    using w(1) q(1) nv t(2) by (subst mappages_loop.simps) simp
  ultimately show thesis using that by blast
qed

lemma mappages_loop_pages:
  assumes "pt_inv s root ps" and "page_aligned a" and "unat a + 4096 * Suc n \<le> 2 ^ 38"
    and "\<forall>k < Suc n. leaf (mem s) root (a + 4096 * of_nat k) AND PTE_V = 0"
    and "\<forall>k < Suc n. ix 0 (a + 4096 * of_nat k) \<in> A \<and> ix 1 (a + 4096 * of_nat k) \<in> A" and "has_room s root A ps c"
  shows "\<exists>s' ps'. mappages_loop root a (a + 4096 * of_nat n) pa perm s = Some (0, s') \<and>
     mapped_pages root s ps (page_entries a pa perm (Suc n)) s' ps' \<and> has_room s' root A ps' c"
  using assms
proof (induction n arbitrary: a pa s ps)
  case (0 a pa s ps)
  then have "a < MAXVA" "leaf (mem s) root a AND PTE_V = 0" "ix 0 a \<in> A" "ix 1 a \<in> A" using next_page(3) by auto
  then obtain s2 ps1 where s2:
    "\<And>b. mappages_loop root a b pa perm s = (if a = b then Some (0, s2) else mappages_loop root (a + 4096) b (pa + 4096) perm s2)"
    "mapped_pages root s ps [a \<mapsto> PA2PTE pa OR perm OR PTE_V] s2 ps1" "has_room s2 root A ps1 c"
    using mappages_loop_room [OF 0(1,2) _ _ _ _ 0(6), of pa perm] by metis
  have "page_entries a pa perm (Suc 0) = [a \<mapsto> PA2PTE pa OR perm OR PTE_V]"
    by (simp only: page_entries.simps map_add_empty)
  then have "mapped_pages root s ps (page_entries a pa perm (Suc 0)) s2 ps1" using s2(2) by (simp only:)
  moreover have "mappages_loop root a (a + 4096 * of_nat 0) pa perm s = Some (0, s2)" using s2(1) by simp
  ultimately show ?case using s2(3) by blast
next
  case (Suc n a pa s ps)
  have a: "a < MAXVA" "page_aligned (a + 4096)" "unat (a + 4096) = unat a + 4096"
    using next_page [OF Suc.prems(2)] Suc.prems(3) by auto
  have V: "leaf (mem s) root a AND PTE_V = 0" "ix 0 a \<in> A" "ix 1 a \<in> A"
    using Suc.prems(4,5) [rule_format, of 0] by simp_all
  obtain s2 ps1 where e:
    "\<And>b. mappages_loop root a b pa perm s = (if a = b then Some (0, s2) else mappages_loop root (a + 4096) b (pa + 4096) perm s2)"
    "mapped_pages root s ps [a \<mapsto> PA2PTE pa OR perm OR PTE_V] s2 ps1" "has_room s2 root A ps1 c"
    using mappages_loop_room [OF Suc.prems(1,2) a(1) V Suc.prems(6), of pa perm] by blast
  have "leaf (mem s2) root (a + 4096 + 4096 * of_nat k) AND PTE_V = 0" if k: "k < Suc n" for k
  proof -
    have "leaf (mem s2) root (a + 4096 + 4096 * of_nat k) = leaf (mem s) root (a + 4096 + 4096 * of_nat k)"
      using e(2) later_pages [OF Suc.prems(2,3) k] by (simp add: mapped_pages_def)
    then show ?thesis using Suc.prems(4) [rule_format, of "Suc k"] k by (simp add: algebra_simps)
  qed
  moreover have "ix 0 (a + 4096 + 4096 * of_nat k) \<in> A \<and> ix 1 (a + 4096 + 4096 * of_nat k) \<in> A" if k: "k < Suc n" for k
    using Suc.prems(5) [rule_format, of "Suc k"] k by (simp add: algebra_simps)
  moreover have "pt_inv s2 root ps1" using e(2) by (simp add: mapped_pages_def)
  moreover have "unat (a + 4096) + 4096 * Suc n \<le> 2 ^ 38" using a(3) Suc.prems(3) by simp
  ultimately obtain s' ps' where
    r: "mappages_loop root (a + 4096) (a + 4096 + 4096 * of_nat n) (pa + 4096) perm s2 = Some (0, s')"
    "mapped_pages root s2 ps1 (page_entries (a + 4096) (pa + 4096) perm (Suc n)) s' ps'" "has_room s' root A ps' c"
    using Suc.IH [of s2 ps1 "a + 4096" "pa + 4096"] a(2) e(3) by blast
  have "a + 4096 * of_nat (Suc n) \<noteq> a"
    by (rule page_step_distinct) (use Suc.prems(3) in auto)
  then have "mappages_loop root a (a + 4096 * of_nat (Suc n)) pa perm s = Some (0, s')"
    using e(1) [of "a + 4096 * of_nat (Suc n)"] r(1) by (auto simp: algebra_simps)
  moreover have "mapped_pages root s ps (page_entries a pa perm (Suc (Suc n))) s' ps'"
    using mapped_pages_trans [OF e(2) r(2)] by simp
  ultimately show ?case using r(3) by blast
qed

lemma last_page:
  assumes "page_aligned va" and "0 < n" and "unat va + 4096 * n \<le> 2 ^ 38"
  shows "PGROUNDDOWN (va + 4096 * of_nat n - 1) = va + 4096 * of_nat (n - 1)" and "(4096 * of_nat n :: u64) \<noteq> 0"
proof -
  obtain m where m: "n = Suc m" using assms(2) by (cases n) auto
  have "unat (4096 * of_nat n :: u64) = 4096 * n"
    using assms(3) by (intro unat_pages) simp
  then show "(4096 * of_nat n :: u64) \<noteq> 0" using assms(2) by (auto simp: word_unat_eq_iff)
  have end_val: "va + 4096 * of_nat n - 1 = va + 4096 * of_nat m + 4095"
    by (simp add: m algebra_simps)
  have u: "unat (va + 4096 * of_nat m) = unat va + 4096 * m"
    using assms(3) m by (simp add: unat_word_ariths unat_of_nat_lt64)
  have al: "page_aligned (va + 4096 * of_nat m)"
    using assms(1) by (simp add: page_aligned_unat u)
  have "in_region (va + 4096 * of_nat m) 4096 (va + 4096 * of_nat n - 1)"
    by (simp add: in_region_def end_val)
  then show "PGROUNDDOWN (va + 4096 * of_nat n - 1) = va + 4096 * of_nat (n - 1)"
    using in_page_iff [OF al] m by simp
qed

lemma kvmmap_room:
  assumes "pt_inv s root ps" and "page_aligned va" and "0 < n" and "unat va + 4096 * n \<le> 2 ^ 38"
    and "\<And>k. k < n \<Longrightarrow> leaf (mem s) root (va + 4096 * of_nat k) AND PTE_V = 0"
    and "\<And>k. k < n \<Longrightarrow> ix 0 (va + 4096 * of_nat k) \<in> A \<and> ix 1 (va + 4096 * of_nat k) \<in> A" and "has_room s root A ps c"
  obtains s' ps' where "kvmmap root va pa (4096 * of_nat n) perm s = Some s'"
    and "mapped_pages root s ps (page_entries va pa perm n) s' ps'" and "has_room s' root A ps' c"
proof -
  have "Suc (n - 1) = n" using assms(3) by simp
  then obtain s' ps' where "mappages_loop root va (va + 4096 * of_nat (n - 1)) pa perm s = Some (0, s')"
     "mapped_pages root s ps (page_entries va pa perm n) s' ps'" "has_room s' root A ps' c"
    using mappages_loop_pages [OF assms(1,2), of "n - 1" A c pa perm] assms(4-7) by auto
  moreover have "kvmmap root va pa (4096 * of_nat n) perm s = Some s'"
    using calculation(1) last_page [OF assms(2-4)] PGROUNDDOWN_id [OF assms(2)] by (simp add: kvmmap_def mappages_def)
  ultimately show thesis using that by blast
qed

text \<open>The entries of a range in one formula.\<close>

lemma page_entries_at:
  assumes "page_aligned va" and "page_aligned p" and "unat va + 4096 * n \<le> 2 ^ 38"
  shows "page_entries va pa perm n p =
    (if unat va \<le> unat p \<and> unat p < unat va + 4096 * n then Some (PA2PTE (pa + (p - va)) OR perm OR PTE_V) else None)"
  using assms(1,3)
proof (induction n arbitrary: va pa)
  case (Suc n)
  have n: "page_aligned (va + 4096)" "unat (va + 4096) = unat va + 4096"
    using next_page [OF Suc.prems(1)] Suc.prems(2) by auto
  have IH: "page_entries (va + 4096) (pa + 4096) perm n p =
    (if unat va + 4096 \<le> unat p \<and> unat p < unat va + 4096 + 4096 * n then Some (PA2PTE (pa + (p - va)) OR perm OR PTE_V) else None)"
    using Suc.IH [OF n(1), of "pa + 4096"] Suc.prems(2) by (simp add: n(2) algebra_simps)
  obtain j k where jk: "unat va = 4096 * j" "unat p = 4096 * k"
    using Suc.prems(1) assms(2) unfolding page_aligned_unat mod_eq_0_iff_dvd dvd_def by auto
  show ?case
  proof (cases "p = va")
    case True
    then show ?thesis using IH Suc.prems(2) by (simp add: map_add_def)
  next
    case False
    then have "j \<noteq> k" using jk by (auto simp: word_unat_eq_iff)
    then show ?thesis using IH False jk by (auto simp: map_add_def)
  qed
qed simp

end
