(* ===== verification/Vm_Bytes.thy ===== *)
theory Vm_Bytes
  imports Vm_User
begin

text \<open>
  \<open>copyout\<close> and \<open>copyin\<close> of kernel/vm.c where the kernel side of the copy is a C object that
  the model keeps as a record or a byte list (a field of \<open>struct proc\<close>, a disk block, a local
  variable) instead of bytes of \<open>mem\<close>. They are the same loops: \<open>copyout_bytes_eq\<close> proves
  the first equal to the version on addresses, \<open>copyin_bytes_spec\<close> says which bytes the second yields.
\<close>

primrec write_bytes :: "memory \<Rightarrow> u64 \<Rightarrow> u8 list \<Rightarrow> memory" where
  "write_bytes m a [] = m"
| "write_bytes m a (b # bs) = write_bytes (m(a := b)) (a + 1) bs"

definition read_bytes :: "memory \<Rightarrow> u64 \<Rightarrow> nat \<Rightarrow> u8 list" where
  "read_bytes m a n = map (\<lambda>i. m (a + of_nat i)) [0..<n]"

definition page_chunk :: "u64 \<Rightarrow> nat \<Rightarrow> nat" where
  "page_chunk va n = min n (4096 - unat (va - PGROUNDDOWN va))"

lemma page_chunk_pos: "0 < n \<Longrightarrow> 0 < page_chunk va n"
  by (simp add: page_chunk_def unat_diff_PGROUNDDOWN)

function copyout_bytes ::
  "u64 \<Rightarrow> u64 \<Rightarrow> u8 list \<Rightarrow> 'a kmem_state_scheme \<Rightarrow> int \<times> 'a kmem_state_scheme" where
  "copyout_bytes pagetable dstva bs s =
     (if bs = [] then (0, s)
      else let va0 = PGROUNDDOWN dstva; pa0 = walkaddr pagetable va0 s in
        if pa0 = 0 then (-1, s)
        else let n = page_chunk dstva (length bs) in
          copyout_bytes pagetable (va0 + PGSIZE) (drop n bs)
            (s\<lparr>mem := write_bytes (mem s) (pa0 + (dstva - va0)) (take n bs)\<rparr>))"
  by pat_completeness auto
termination
  by (relation "measure (\<lambda>(pagetable, dstva, bs, s). length bs)") (use page_chunk_pos in \<open>auto simp: Let_def\<close>)

declare copyout_bytes.simps [simp del]

text \<open>The result of the copy and the bytes copied before it stopped.\<close>

function copyin_bytes :: "u64 \<Rightarrow> u64 \<Rightarrow> nat \<Rightarrow> 'a kmem_state_scheme \<Rightarrow> int \<times> u8 list" where
  "copyin_bytes pagetable srcva len s =
     (if len = 0 then (0, [])
      else let va0 = PGROUNDDOWN srcva; pa0 = walkaddr pagetable va0 s in
        if pa0 = 0 then (-1, [])
        else let n = page_chunk srcva len in
          case copyin_bytes pagetable (va0 + PGSIZE) (len - n) s of
            (r, bs) \<Rightarrow> (r, read_bytes (mem s) (pa0 + (srcva - va0)) n @ bs))"
  by pat_completeness auto
termination
  by (relation "measure (\<lambda>(pagetable, srcva, len, s). len)")
     (use page_chunk_pos in \<open>auto simp: Let_def\<close>)

declare copyin_bytes.simps [simp del]

text \<open>The string that \<open>copyinstr\<close> copies: the bytes before the NUL, or \<open>None\<close> for its -1.\<close>

primrec scan_nul :: "memory \<Rightarrow> u64 \<Rightarrow> nat \<Rightarrow> u8 list \<times> bool" where
  "scan_nul m p 0 = ([], False)"
| "scan_nul m p (Suc n) =
     (if m p = 0 then ([], True) else case scan_nul m (p + 1) n of (bs, e) \<Rightarrow> (m p # bs, e))"

function copyinstr_bytes :: "u64 \<Rightarrow> u64 \<Rightarrow> nat \<Rightarrow> 'a kmem_state_scheme \<Rightarrow> u8 list option" where
  "copyinstr_bytes pagetable srcva maxlen s =
     (if maxlen = 0 then None
      else let va0 = PGROUNDDOWN srcva; pa0 = walkaddr pagetable va0 s in
        if pa0 = 0 then None
        else let n = page_chunk srcva maxlen in
          case scan_nul (mem s) (pa0 + (srcva - va0)) n of (bs, e) \<Rightarrow>
            if e then Some bs
            else map_option ((@) bs) (copyinstr_bytes pagetable (va0 + PGSIZE) (maxlen - n) s))"
  by pat_completeness auto
termination
  by (relation "measure (\<lambda>(pagetable, srcva, maxlen, s). maxlen)")
     (use page_chunk_pos in \<open>auto simp: Let_def\<close>)

declare copyinstr_bytes.simps [simp del]

lemma copyout_bytes_more [simp]:
  "kmem_state.more (snd (copyout_bytes pt va bs s)) = kmem_state.more s"
proof (induction pt va bs s rule: copyout_bytes.induct)
  case (1 pt va bs s)
  then show ?case by (subst copyout_bytes.simps) (simp add: Let_def)
qed

section \<open>Only memory matters\<close>

lemma walk_level_mem:
  "mem s' = mem s \<Longrightarrow> fst (walk_level va pt False l s') = fst (walk_level va pt False l s)"
  by (induction l arbitrary: pt) (simp_all add: Let_def)

lemma walkaddr_mem: "mem s' = mem s \<Longrightarrow> walkaddr pt va s' = walkaddr pt va s"
  using walk_level_mem [of s' s va pt 2] by (simp add: walkaddr_def Let_def)

lemma copyin_bytes_mem: "mem s' = mem s \<Longrightarrow> copyin_bytes pt va n s' = copyin_bytes pt va n s"
proof (induction n arbitrary: va rule: less_induct)
  case (less n)
  show ?case
  proof (cases "n = 0")
    case False
    then have "copyin_bytes pt (PGROUNDDOWN va + PGSIZE) (n - page_chunk va n) s' =
        copyin_bytes pt (PGROUNDDOWN va + PGSIZE) (n - page_chunk va n) s"
      using less page_chunk_pos [of n va] by simp
    then show ?thesis
      by (subst (1 2) copyin_bytes.simps) (simp add: walkaddr_mem [OF less.prems] less.prems Let_def)
  qed (subst (1 2) copyin_bytes.simps, simp)
qed

section \<open>Relation to the copies between addresses\<close>

lemma length_read_bytes [simp]: "length (read_bytes m a n) = n"
  by (simp add: read_bytes_def)

lemma read_bytes_split: "n \<le> k \<Longrightarrow> read_bytes m a k = read_bytes m a n @ read_bytes m (a + of_nat n) (k - n)"
  by (rule nth_equalityI) (auto simp: read_bytes_def nth_append of_nat_diff algebra_simps)

lemma write_bytes_apply:
  "length bs < 2 ^ 64 \<Longrightarrow> write_bytes m a bs b = (if in_region a (length bs) b then bs ! unat (b - a) else m b)"
proof (induction bs arbitrary: m a)
  case Nil
  then show ?case by simp
next
  case (Cons x xs)
  have len: "length xs < 2 ^ 64" using Cons.prems by simp
  show ?case
  proof (cases "b = a")
    case True
    then show ?thesis using Cons.IH [OF len] in_region_head_tail [OF len] by simp
  next
    case False
    then have "0 < unat (b - a)" by (simp add: unat_gt_0)
    then have u: "unat (b - (a + 1)) = unat (b - a) - 1"
      by (metis (no_types, lifting) diff_diff_eq unat_gt_0 unat_minus_one)
    then have "in_region (a + 1) (length xs) b \<longleftrightarrow> in_region a (Suc (length xs)) b"
      using \<open>0 < unat (b - a)\<close> by (auto simp: in_region_def)
    then show ?thesis
      using Cons.IH [OF len] False u \<open>0 < unat (b - a)\<close> by (simp add: nth_Cons')
  qed
qed

lemma write_read_bytes:
  assumes "unat src + unat n < 2 ^ 64" and "unat dst + unat n < 2 ^ 64"
  shows "write_bytes m dst (read_bytes m src (unat n)) = memmove m dst src n"
proof
  fix b
  have "unat n < 2 ^ 64" using assms(1) by simp
  then show "write_bytes m dst (read_bytes m src (unat n)) b = memmove m dst src n b"
    using memmove_apply [OF assms] by (auto simp: write_bytes_apply read_bytes_def in_region_def)
qed

lemma page_chunk_unat: "page_chunk va (unat len) = unat (chunk va len)"
  by (simp add: page_chunk_def unat_chunk unat_diff_PGROUNDDOWN)

lemma copyout_bytes_eq:
  assumes "uvm_inv s root ps" and "kernel_buffer s root src (unat len)"
  shows "copyout_bytes root dstva (read_bytes (mem s) src (unat len)) s = copyout root dstva src len s"
  using assms
proof (induction "unat len" arbitrary: dstva src len s rule: less_induct)
  case less
  let ?p = "walkaddr root (PGROUNDDOWN dstva) s" and ?n = "chunk dstva len"
    and ?bs = "read_bytes (mem s) src (unat len)"
  show ?case
  proof (cases "len = 0 \<or> ?p = 0")
    case True
    moreover have "0 < len \<longleftrightarrow> unat len \<noteq> 0" by (simp add: word_less_nat_alt)
    ultimately show ?thesis
      by (subst copyout.simps, subst copyout_bytes.simps) (auto simp: read_bytes_def Let_def)
  next
    case False
    then have len: "0 < len" by (simp add: word_neq_0_conv)
    have n: "0 < unat ?n" "unat ?n \<le> unat len"
      using chunk_bounds [OF len] by (auto simp: word_le_nat_alt word_less_nat_alt)
    define s1 where "s1 = s\<lparr>mem := memmove (mem s) (?p + (dstva - PGROUNDDOWN dstva)) src (ucast ?n)\<rparr>"
    have buf: "kernel_buffer s root src (unat ?n)" by (rule kernel_buffer_le [OF less.prems(2) n(2)])
    have p: "?p \<noteq> 0" using False by simp
    note round = copyout_round [OF less.prems(1) refl p buf s1_def]
    have lens: "unat (len - ?n) = unat len - unat ?n" using n by (simp add: unat_sub word_le_nat_alt)
    have buf2: "kernel_buffer s root (src + of_nat (unat ?n)) (unat len - unat ?n)"
      by (rule kernel_buffer_shift [OF less.prems(2) n(2)])
    then have "kernel_buffer s1 root (src + ?n) (unat (len - ?n))"
      using kernel_buffer_cong [OF round(2)] lens by simp
    moreover have "unat (len - ?n) < unat len" using lens n by simp
    ultimately have ih: "copyout_bytes root (PGROUNDDOWN dstva + 4096) (read_bytes (mem s1) (src + ?n) (unat (len - ?n))) s1
        = copyout root (PGROUNDDOWN dstva + 4096) (src + ?n) (len - ?n) s1"
      using less.hyps [OF _ round(1)] by blast
    have split: "?bs = read_bytes (mem s) src (unat ?n) @ read_bytes (mem s) (src + ?n) (unat (len - ?n))"
      using read_bytes_split [OF n(2), of "mem s" src] lens by simp
    have "mem s1 (src + ?n + of_nat i) = mem s (src + ?n + of_nat i)" if "i < unat (len - ?n)" for i
    proof -
      have "unat (len - ?n) \<le> 2 ^ 64" using unat_lt_u64 [of "len - ?n"] by simp
      then have "in_region (src + ?n) (unat (len - ?n)) (src + ?n + of_nat i)" using that in_region_offset by blast
      then show ?thesis using round(5) buf2 lens by (simp add: kernel_buffer_def)
    qed
    then have same: "read_bytes (mem s1) (src + ?n) (unat (len - ?n)) = read_bytes (mem s) (src + ?n) (unat (len - ?n))"
      by (simp add: read_bytes_def)
    have w: "write_bytes (mem s) (?p + (dstva - PGROUNDDOWN dstva)) (read_bytes (mem s) src (unat ?n)) = mem s1"
    proof -
      note f = uvm_inv_frame [OF less.prems(1) refl p]
      have "unat ?p < 0x88000000" using f(2) by (simp add: PHYSTOP_val word_less_nat_alt)
      then have "unat (?p + (dstva - PGROUNDDOWN dstva)) < 0x88001000"
        using unat_diff_PGROUNDDOWN [of dstva] by (simp add: unat_word_ariths)
      moreover have "unat ?n \<le> 4096" by (simp add: unat_chunk)
      ultimately have "unat (?p + (dstva - PGROUNDDOWN dstva)) + unat (ucast ?n :: u32) < 2 ^ 64"
        by (simp add: unat_ucast_chunk)
      moreover have "unat src + unat (ucast ?n :: u32) < 2 ^ 64" using buf by (simp add: kernel_buffer_def unat_ucast_chunk)
      ultimately show ?thesis using write_read_bytes [of src "ucast ?n"] by (simp add: s1_def unat_ucast_chunk)
    qed
    have "copyout root dstva src len s = copyout root (PGROUNDDOWN dstva + 4096) (src + ?n) (len - ?n) s1"
      using len p by (subst copyout.simps) (simp add: Let_def s1_def)
    moreover have "copyout_bytes root dstva bs s = copyout_bytes root (PGROUNDDOWN dstva + 4096) (drop (unat ?n) bs) s1"
      if "length bs = unat len" "take (unat ?n) bs = read_bytes (mem s) src (unat ?n)" for bs
    proof -
      have "bs \<noteq> []" using that(1) len by (auto simp: word_less_nat_alt)
      then show ?thesis using p w that by (subst copyout_bytes.simps) (simp add: Let_def page_chunk_unat s1_def)
    qed
    from this [of ?bs] n(2) have "copyout_bytes root dstva ?bs s = copyout_bytes root (PGROUNDDOWN dstva + 4096)
        (read_bytes (mem s) (src + ?n) (unat (len - ?n))) s1"
      by (simp add: read_bytes_split [OF n(2)] lens)
    ultimately show ?thesis using ih same by simp
  qed
qed

text \<open>
  \<open>copyin_bytes\<close> yields the bytes the user sees, up to the first unmapped address; no invariant is
  needed, because it writes nothing.
\<close>

lemma copyin_bytes_spec:
  fixes len :: u64
  shows "\<exists>r bs. copyin_bytes root va (unat len) s = (r, bs) \<and> stops_at s root va (unat len) r (length bs) \<and>
     (\<forall>i < length bs. Some (bs ! i) = user_byte s root (va + of_nat i))"
proof (induction "unat len" arbitrary: va len rule: less_induct)
  case less
  let ?p = "walkaddr root (PGROUNDDOWN va) s" and ?n = "chunk va len"
  consider (zero) "len = 0" | (fault) "0 < len" "?p = 0" | (copy) "0 < len" "?p \<noteq> 0" 
    using word_neq_0_conv [of len] by blast
  then show ?case
  proof cases
    case zero
    then show ?thesis by (subst copyin_bytes.simps) (simp add: stops_at_def)
  next
    case fault
    then show ?thesis using stops_at_unmapped [of root va s "unat len"]
      by (subst copyin_bytes.simps) (simp add: word_less_nat_alt)
  next
    case copy
    have n: "0 < unat ?n" "unat ?n \<le> unat len"
      using chunk_bounds [OF copy(1)] by (auto simp: word_le_nat_alt word_less_nat_alt)
    have lens: "unat (len - ?n) = unat len - unat ?n" using n by (simp add: unat_sub word_le_nat_alt)
    obtain r bs where ih: "copyin_bytes root (va + ?n) (unat (len - ?n)) s = (r, bs)"
      "stops_at s root (va + ?n) (unat (len - ?n)) r (length bs)"
      "\<forall>i < length bs. Some (bs ! i) = user_byte s root (va + ?n + of_nat i)"
      using less.hyps [of "len - ?n" "va + ?n"] lens n by auto
    have "copyin_bytes root (PGROUNDDOWN va + 4096) (unat (len - ?n)) s = (r, bs)"
    proof (cases "?n = len")
      case True
      then show ?thesis using ih(1) by (simp add: copyin_bytes.simps)
    next
      case False
      then have "va + ?n = PGROUNDDOWN va + 4096" using chunk_last_or_page by blast
      then show ?thesis using ih(1) by simp
    qed
    moreover have "unat len \<noteq> 0" using copy(1) by (simp add: word_less_nat_alt)
    ultimately have run: "copyin_bytes root va (unat len) s =
        (r, read_bytes (mem s) (?p + (va - PGROUNDDOWN va)) (unat ?n) @ bs)"
      using copy(2) lens by (subst copyin_bytes.simps) (simp add: Let_def page_chunk_unat)
    have first: "Some (mem s (?p + (va - PGROUNDDOWN va) + of_nat i)) = user_byte s root (va + of_nat i)"
      if "i < unat ?n" for i
    proof -
      have "i < 2 ^ 64" using that unat_lt_u64 [of ?n] by simp
      then have "in_region va (unat ?n) (va + of_nat i)" using that by (simp add: in_region_def unat_of_nat_lt64)
      from chunk_in_page [OF this] copy(2) show ?thesis by (simp add: user_byte_walkaddr algebra_simps)
    qed
    have "Some ((read_bytes (mem s) (?p + (va - PGROUNDDOWN va)) (unat ?n) @ bs) ! i) = user_byte s root (va + of_nat i)"
      if "i < unat ?n + length bs" for i
    proof (cases "i < unat ?n")
      case True
      then show ?thesis using first by (simp add: nth_append read_bytes_def)
    next
      case False
      then have "i - unat ?n < length bs" using that by simp
      with ih(3) have "Some (bs ! (i - unat ?n)) = user_byte s root (va + ?n + of_nat (i - unat ?n))" by blast
      then show ?thesis using False by (simp add: nth_append of_nat_diff add.assoc)
    qed
    moreover have "stops_at s root va (unat len) r (unat ?n + length bs)"
      by (rule stops_at_chunk [OF copy(2) refl ih(2) copy(1)])
    ultimately show ?thesis using run by simp
  qed
qed

end
