(* ===== verification/Proc.thy ===== *)
theory Proc
  imports Vm_Bytes
begin

text \<open>
  The process table, kernel/proc.c and kernel/proc.h: allocation and freeing of table entries,
  the state machine of a process and the scheduler, and \<open>either_copyout\<close>/\<open>either_copyin\<close>.
  A \<open>struct proc *\<close> is an index into \<open>procs\<close>, a \<open>struct cpu *\<close> an index into \<open>cpus\<close>; \<open>hart\<close> is
  the CPU that executes. Every body that the code runs under \<open>p->lock\<close> or \<open>wait_lock\<close> is one
  step; the locks themselves are in theory Spinlock. The symbols \<open>trampoline\<close> and \<open>forkret\<close> are
  addresses of the kernel image. Null pointers that are dereferenced are \<open>None\<close>.
\<close>

section \<open>State\<close>

definition NCPU :: nat where "NCPU = 8"
definition NOFILE :: nat where "NOFILE = 16"
definition MAXHEAP :: nat where "MAXHEAP = 1000"
definition MAXRESHEAP :: int where "MAXRESHEAP = 100"

datatype procstate = UNUSED | USED | SLEEPING | RUNNABLE | RUNNING | ZOMBIE | PFAULT

text \<open>The addresses processes sleep on, by the object they belong to; \<open>No_chan\<close> is 0.\<close>

datatype wait_chan =
  No_chan | On_proc nat | On_ticks | On_log | On_sleeplock nat | On_pipe_read u64 | On_pipe_write u64
  | On_cons | On_uart | On_disk_free | On_disk_buf nat

record kcontext =
  ctx_ra :: u64
  ctx_sp :: u64
  ctx_s :: "u64 list"

record heap_tracker =
  ht_addr :: u64
  ht_last_load :: u64
  ht_loaded :: bool
  ht_startblock :: int

record proc =
  p_state :: procstate
  p_chan :: wait_chan
  p_killed :: int
  p_xstate :: int
  p_pid :: int
  p_parent :: "nat option"
  p_kstack :: u64
  p_sz :: u64
  p_pagetable :: u64
  p_trapframe :: u64
  p_context :: kcontext
  p_ofile :: "nat option list"
  p_cwd :: "nat option"
  p_name :: "u8 list"
  p_ondemand :: bool
  p_heap :: "heap_tracker list"
  p_resident :: int
  p_cow_group :: int
  p_cow_enabled :: int

record cpu =
  c_proc :: "nat option"
  c_noff :: int
  c_intena :: bool

record proc_state = cow_state +
  procs :: "proc list"
  cpus :: "cpu list"
  hart :: nat
  initproc :: "nat option"
  nextpid :: int
  trampoline :: u64
  forkret :: u64

definition myproc :: "'a proc_state_scheme \<Rightarrow> nat option" where
  "myproc s = c_proc (cpus s ! hart s)"

text \<open>
  Updates of a table entry. The group that \<open>uvmunmap\<close> reads, \<open>myproc()->cow_group\<close>, follows the
  entry of the running process.
\<close>

definition sync_group :: "'a proc_state_scheme \<Rightarrow> 'a proc_state_scheme" where
  "sync_group s = (case myproc s of None \<Rightarrow> s | Some p \<Rightarrow> s\<lparr>my_group := p_cow_group (procs s ! p)\<rparr>)"

definition upd_proc :: "nat \<Rightarrow> (proc \<Rightarrow> proc) \<Rightarrow> 'a proc_state_scheme \<Rightarrow> 'a proc_state_scheme" where
  "upd_proc i f s = sync_group (s\<lparr>procs := (procs s)[i := f (procs s ! i)]\<rparr>)"

definition set_c_proc :: "nat option \<Rightarrow> 'a proc_state_scheme \<Rightarrow> 'a proc_state_scheme" where
  "set_c_proc p s = sync_group (s\<lparr>cpus := (cpus s)[hart s := (cpus s ! hart s)\<lparr>c_proc := p\<rparr>]\<rparr>)"

text \<open>A field of the trapframe of a process, by its offset in \<open>struct trapframe\<close>.\<close>

definition tf_epc :: u64 where "tf_epc = 24"
definition tf_sp :: u64 where "tf_sp = 48"
definition tf_a0 :: u64 where "tf_a0 = 112"
definition tf_a1 :: u64 where "tf_a1 = 120"
definition tf_a7 :: u64 where "tf_a7 = 168"

definition get_tf :: "nat \<Rightarrow> u64 \<Rightarrow> 'a proc_state_scheme \<Rightarrow> u64" where
  "get_tf i f s = load64 (mem s) (p_trapframe (procs s ! i) + f)"

definition set_tf :: "nat \<Rightarrow> u64 \<Rightarrow> u64 \<Rightarrow> 'a proc_state_scheme \<Rightarrow> 'a proc_state_scheme" where
  "set_tf i f v s = s\<lparr>mem := store64 (mem s) (p_trapframe (procs s ! i) + f) v\<rparr>"

section \<open>Allocation\<close>

primrec proc_mapstacks_loop :: "u64 \<Rightarrow> nat \<Rightarrow> nat \<Rightarrow> 'a kmem_state_scheme \<Rightarrow> 'a kmem_state_scheme option" where
  "proc_mapstacks_loop kpgtbl i 0 s = Some s"
| "proc_mapstacks_loop kpgtbl i (Suc n) s =
     (case kalloc s of (pa, s1) \<Rightarrow>
        if pa = 0 then None
        else do {
          s2 \<leftarrow> kvmmap kpgtbl (KSTACK (of_nat i)) pa PGSIZE (PTE_R OR PTE_W) s1;
          proc_mapstacks_loop kpgtbl (Suc i) n s2 })"

definition proc_mapstacks :: "u64 \<Rightarrow> 'a kmem_state_scheme \<Rightarrow> 'a kmem_state_scheme option" where
  "proc_mapstacks kpgtbl s = proc_mapstacks_loop kpgtbl 0 NPROC s"

definition procinit :: "'a proc_state_scheme \<Rightarrow> 'a proc_state_scheme" where
  "procinit s = s\<lparr>procs := map (\<lambda>i. (procs s ! i)\<lparr>p_state := UNUSED, p_kstack := KSTACK (of_nat i)\<rparr>) [0..<length (procs s)]\<rparr>"

text \<open>\<open>nextpid\<close> is a C \<open>int\<close>: the increment that takes it to \<open>2 ^ 31\<close> overflows and has no result.\<close>

definition allocpid :: "'a proc_state_scheme \<Rightarrow> (int \<times> 'a proc_state_scheme) option" where
  "allocpid s = (if nextpid s + 1 < 2 ^ 31 then Some (nextpid s, s\<lparr>nextpid := nextpid s + 1\<rparr>) else None)"

definition proc_freepagetable ::
  "u64 \<Rightarrow> u64 \<Rightarrow> 'a cow_state_scheme \<Rightarrow> 'a cow_state_scheme option" where
  "proc_freepagetable pagetable sz s = do {
     s1 \<leftarrow> uvmunmap pagetable TRAMPOLINE 1 False s;
     s2 \<leftarrow> uvmunmap pagetable TRAPFRAME 1 False s1;
     uvmfree pagetable sz s2 }"

definition freeproc :: "nat \<Rightarrow> 'a proc_state_scheme \<Rightarrow> 'a proc_state_scheme option" where
  "freeproc i s = do {
     let p = procs s ! i;
     s1 \<leftarrow> (if p_trapframe p \<noteq> 0 then kfree (p_trapframe p) s else Some s);
     s2 \<leftarrow> (if p_pagetable p \<noteq> 0 then proc_freepagetable (p_pagetable p) (p_sz p) s1 else Some s1);
     Some (upd_proc i (\<lambda>p. p\<lparr>p_trapframe := 0, p_pagetable := 0, p_sz := 0, p_pid := 0, p_parent := None,
        p_name := (p_name p)[0 := 0], p_chan := No_chan, p_killed := 0, p_xstate := 0, p_state := UNUSED\<rparr>) s2) }"

definition proc_pagetable :: "nat \<Rightarrow> 'a proc_state_scheme \<Rightarrow> (u64 \<times> 'a proc_state_scheme) option" where
  "proc_pagetable i s =
     (case uvmcreate s of (pagetable, s1) \<Rightarrow>
        if pagetable = 0 then Some (0, s1)
        else do {
          (r, s2) \<leftarrow> mappages pagetable TRAMPOLINE PGSIZE (trampoline s1) (PTE_R OR PTE_X) s1;
          if r < 0 then do { s3 \<leftarrow> uvmfree pagetable 0 s2; Some (0, s3) }
          else do {
            (r', s3) \<leftarrow> mappages pagetable TRAPFRAME PGSIZE (p_trapframe (procs s2 ! i)) (PTE_R OR PTE_W) s2;
            if r' < 0 then do {
              s4 \<leftarrow> uvmunmap pagetable TRAMPOLINE 1 False s3;
              s5 \<leftarrow> uvmfree pagetable 0 s4;
              Some (0, s5) }
            else Some (pagetable, s3) } })"

definition allocproc :: "'a proc_state_scheme \<Rightarrow> (nat option \<times> 'a proc_state_scheme) option" where
  "allocproc s =
     (case first_index (\<lambda>p. p_state p = UNUSED) (procs s) of
        None \<Rightarrow> Some (None, s)
      | Some i \<Rightarrow> do {
          (pid, s1) \<leftarrow> allocpid s;
          (case kalloc (upd_proc i (\<lambda>p. p\<lparr>p_pid := pid, p_state := USED\<rparr>) s1) of (tf, s2) \<Rightarrow>
           let s3 = upd_proc i (\<lambda>p. p\<lparr>p_trapframe := tf\<rparr>) s2 in
           if tf = 0 then do { s4 \<leftarrow> freeproc i s3; Some (None, s4) }
           else do {
             (pt, s4) \<leftarrow> proc_pagetable i s3;
             let s5 = upd_proc i (\<lambda>p. p\<lparr>p_pagetable := pt\<rparr>) s4;
             if pt = 0 then do { s6 \<leftarrow> freeproc i s5; Some (None, s6) }
             else Some (Some i, upd_proc i (\<lambda>p. p\<lparr>p_context :=
                    \<lparr>ctx_ra = forkret s5, ctx_sp = p_kstack p + PGSIZE, ctx_s = replicate 12 0\<rparr>\<rparr>) s5) }) })"

text \<open>\<open>safestrcpy(p->name, src, 16)\<close> on the 16 bytes of the name.\<close>

definition set_name :: "u8 list \<Rightarrow> u8 list \<Rightarrow> u8 list" where
  "set_name src name =
     (let cs = take 15 (takeWhile (\<lambda>c. c \<noteq> 0) src) in cs @ [0] @ drop (length cs + 1) name)"

section \<open>Growing\<close>

text \<open>
  \<open>track_heap\<close>: every free tracker entry met on the way takes a page, whose address counts from
  the index of the entry. With \<open>npages \<le> 0\<close> the loop never returns early and panics at its end.
\<close>

primrec track_heap_loop :: "u64 \<Rightarrow> nat \<Rightarrow> nat \<Rightarrow> int \<Rightarrow> heap_tracker list \<Rightarrow> heap_tracker list option" where
  "track_heap_loop start i 0 npages h = None"
| "track_heap_loop start i (Suc n) npages h =
     (if ht_addr (h ! i) = 0xFFFFFFFFFFFFFFFF then
        let h' = h[i := (h ! i)\<lparr>ht_addr := start + of_nat i * PGSIZE, ht_loaded := False, ht_startblock := -1\<rparr>] in
        if npages - 1 = 0 then Some h' else track_heap_loop start (Suc i) n (npages - 1) h'
      else track_heap_loop start (Suc i) n npages h)"

definition track_heap :: "nat \<Rightarrow> u64 \<Rightarrow> int \<Rightarrow> 'a proc_state_scheme \<Rightarrow> 'a proc_state_scheme option" where
  "track_heap i start npages s = do {
     h \<leftarrow> track_heap_loop start 0 MAXHEAP npages (p_heap (procs s ! i));
     Some (upd_proc i (\<lambda>p. p\<lparr>p_heap := h\<rparr>) s) }"

text \<open>\<open>PGROUNDUP(n)\<close> with an argument of type \<open>int\<close> computes in 32 bits.\<close>

definition round_int :: "int \<Rightarrow> int" where
  "round_int n = sint ((word_of_int n + 4095) AND NOT 4095 :: u32)"

definition c_div :: "int \<Rightarrow> int \<Rightarrow> int" where
  "c_div a b = (if a < 0 then - ((- a) div b) else a div b)"

definition growproc :: "int \<Rightarrow> 'a proc_state_scheme \<Rightarrow> (int \<times> 'a proc_state_scheme) option" where
  "growproc n s = do {
     i \<leftarrow> myproc s;
     let p = procs s ! i;
     if \<not> p_ondemand p then
       let n = round_int n; sz = p_sz p in
       if n > 0 then do {
         (sz', s1) \<leftarrow> uvmalloc (p_pagetable p) sz (sz + word_of_int n) PTE_W s;
         if sz' = 0 then Some (-1, s1) else Some (0, upd_proc i (\<lambda>p. p\<lparr>p_sz := sz'\<rparr>) s1) }
       else if n < 0 then do {
         (sz', s1) \<leftarrow> uvmdealloc (p_pagetable p) sz (sz + word_of_int n) s;
         Some (0, upd_proc i (\<lambda>p. p\<lparr>p_sz := sz'\<rparr>) s1) }
       else Some (0, upd_proc i (\<lambda>p. p\<lparr>p_sz := sz\<rparr>) s)
     else do {
       s1 \<leftarrow> track_heap i (p_sz p) (c_div n 4096) s;
       Some (0, s1) } }"

section \<open>Scheduling\<close>

text \<open>One round of the scheduler's inner loop on the CPU \<open>hart\<close>, up to the switch to the process.\<close>

definition schedule :: "nat \<Rightarrow> 'a proc_state_scheme \<Rightarrow> 'a proc_state_scheme option" where
  "schedule i s =
     (if p_state (procs s ! i) = RUNNABLE
      then Some (set_c_proc (Some i) (upd_proc i (\<lambda>p. p\<lparr>p_state := RUNNING\<rparr>) s))
      else Some s)"

text \<open>The switch back, with the scheduler's \<open>c->proc = 0\<close>.\<close>

definition sched :: "'a proc_state_scheme \<Rightarrow> 'a proc_state_scheme option" where
  "sched s = do {
     p \<leftarrow> myproc s;
     if p_state (procs s ! p) = RUNNING then None \<comment> \<open>panic sched running\<close>
     else Some (set_c_proc None s) }"

definition yield :: "'a proc_state_scheme \<Rightarrow> 'a proc_state_scheme option" where
  "yield s = do { p \<leftarrow> myproc s; sched (upd_proc p (\<lambda>p. p\<lparr>p_state := RUNNABLE\<rparr>) s) }"

text \<open>\<open>sleep\<close> up to the switch, and its end when the process runs again.\<close>

definition sleep :: "wait_chan \<Rightarrow> 'a proc_state_scheme \<Rightarrow> 'a proc_state_scheme option" where
  "sleep chan s = do {
     p \<leftarrow> myproc s;
     sched (upd_proc p (\<lambda>p. p\<lparr>p_chan := chan, p_state := SLEEPING\<rparr>) s) }"

definition sleep_return :: "'a proc_state_scheme \<Rightarrow> 'a proc_state_scheme option" where
  "sleep_return s = do { p \<leftarrow> myproc s; Some (upd_proc p (\<lambda>p. p\<lparr>p_chan := No_chan\<rparr>) s) }"

definition wakeup :: "wait_chan \<Rightarrow> 'a proc_state_scheme \<Rightarrow> 'a proc_state_scheme" where
  "wakeup chan s = s\<lparr>procs := map (\<lambda>i. let p = procs s ! i in
       if Some i \<noteq> myproc s \<and> p_state p = SLEEPING \<and> p_chan p = chan then p\<lparr>p_state := RUNNABLE\<rparr> else p)
     [0..<length (procs s)]\<rparr>"

definition kill :: "int \<Rightarrow> 'a proc_state_scheme \<Rightarrow> int \<times> 'a proc_state_scheme" where
  "kill pid s =
     (case first_index (\<lambda>p. p_pid p = pid) (procs s) of
        None \<Rightarrow> (-1, s)
      | Some i \<Rightarrow> (0, upd_proc i (\<lambda>p. p\<lparr>p_killed := 1,
          p_state := (if p_state p = SLEEPING then RUNNABLE else p_state p)\<rparr>) s))"

definition setkilled :: "nat \<Rightarrow> 'a proc_state_scheme \<Rightarrow> 'a proc_state_scheme" where
  "setkilled i s = upd_proc i (\<lambda>p. p\<lparr>p_killed := 1\<rparr>) s"

definition killed :: "nat \<Rightarrow> 'a proc_state_scheme \<Rightarrow> int" where
  "killed i s = p_killed (procs s ! i)"

definition reparent :: "nat \<Rightarrow> 'a proc_state_scheme \<Rightarrow> 'a proc_state_scheme option" where
  "reparent p s =
     (if \<exists>pp \<in> set (procs s). p_parent pp = Some p then do {
        ip \<leftarrow> initproc s;
        Some (wakeup (On_proc ip)
          (s\<lparr>procs := map (\<lambda>pp. if p_parent pp = Some p then pp\<lparr>p_parent := Some ip\<rparr> else pp) (procs s)\<rparr>)) }
      else Some s)"

section \<open>Copies from and to user or kernel addresses\<close>

definition either_copyout :: "bool \<Rightarrow> u64 \<Rightarrow> u8 list \<Rightarrow> 'a proc_state_scheme \<Rightarrow> (int \<times> 'a proc_state_scheme) option" where
  "either_copyout user_dst dst src s = do {
     p \<leftarrow> myproc s;
     Some (if user_dst then copyout_bytes (p_pagetable (procs s ! p)) dst src s
           else (0, s\<lparr>mem := write_bytes (mem s) dst src\<rparr>)) }"

definition either_copyin :: "bool \<Rightarrow> u64 \<Rightarrow> nat \<Rightarrow> 'a proc_state_scheme \<Rightarrow> (int \<times> u8 list) option" where
  "either_copyin user_src src len s = do {
     p \<leftarrow> myproc s;
     Some (if user_src then copyin_bytes (p_pagetable (procs s ! p)) src len s
           else (0, read_bytes (mem s) src len)) }"

section \<open>What the table operations leave alone\<close>

lemma proc_frame [simp]:
  "mem (sync_group s) = mem s" "procs (sync_group s) = procs s" "cpus (sync_group s) = cpus s"
  "hart (sync_group s) = hart s" "initproc (sync_group s) = initproc s"
  "mem (upd_proc i f s) = mem s" "cpus (upd_proc i f s) = cpus s" "hart (upd_proc i f s) = hart s"
  "mem (wakeup c s) = mem s" "cpus (wakeup c s) = cpus s" "hart (wakeup c s) = hart s"
  "mem (set_c_proc p s) = mem s" "length (procs (wakeup c s)) = length (procs s)"
  by (simp_all add: sync_group_def upd_proc_def wakeup_def set_c_proc_def split: option.split)

lemma myproc_wakeup [simp]: "myproc (wakeup c s) = myproc s"
  by (simp add: myproc_def)

end
