(* ===== verification/Bio.thy ===== *)
theory Bio
  imports Xv6_Prelude
begin

text \<open>
  The buffer cache, kernel/bio.c. A buffer pointer is an index into the array \<open>bufs\<close>; \<open>lru\<close> is
  the circular list from \<open>head.next\<close> (most recently used) to \<open>head.prev\<close>. The disk is what
  \<open>virtio_disk_rw\<close> reads and writes: \<open>platter\<close> holds the blocks and \<open>wtrace\<close> the writes in the
  order they reached it. A buffer's sleep lock is a flag; taking a held one is \<open>None\<close> (the
  caller never comes back when it holds the lock itself), as are the panics.
\<close>

section \<open>State\<close>

type_synonym block = "u8 list"

definition BSIZE :: nat where "BSIZE = 1024"
definition NBUF :: nat where "NBUF = 30"

record buf =
  b_valid :: bool
  b_dev :: u32
  b_blockno :: u32
  b_lock :: bool
  b_refcnt :: u32
  b_data :: block

record disk_state =
  platter :: "u32 \<Rightarrow> block"
  wtrace :: "(u32 \<times> block) list"

record bio_state = disk_state +
  bufs :: "buf list"
  lru :: "nat list"

definition upd_buf :: "nat \<Rightarrow> (buf \<Rightarrow> buf) \<Rightarrow> 'a bio_state_scheme \<Rightarrow> 'a bio_state_scheme" where
  "upd_buf i f s = s\<lparr>bufs := (bufs s)[i := f (bufs s ! i)]\<rparr>"

section \<open>Operations\<close>

text \<open>\<open>binit\<close> links each buffer in front of the ones before it.\<close>

definition empty_buf :: buf where
  "empty_buf = \<lparr>b_valid = False, b_dev = 0, b_blockno = 0, b_lock = False, b_refcnt = 0,
     b_data = replicate BSIZE 0\<rparr>"

definition binit :: "'a bio_state_scheme \<Rightarrow> 'a bio_state_scheme" where
  "binit s = s\<lparr>bufs := replicate NBUF empty_buf, lru := rev [0..<NBUF]\<rparr>"

definition acquire_buf :: "nat \<Rightarrow> 'a bio_state_scheme \<Rightarrow> (nat \<times> 'a bio_state_scheme) option" where
  "acquire_buf i s = (if b_lock (bufs s ! i) then None
     else Some (i, upd_buf i (\<lambda>b. b\<lparr>b_lock := True\<rparr>) s))"

definition bget :: "u32 \<Rightarrow> u32 \<Rightarrow> 'a bio_state_scheme \<Rightarrow> (nat \<times> 'a bio_state_scheme) option" where
  "bget dev blockno s =
     (case find (\<lambda>i. b_dev (bufs s ! i) = dev \<and> b_blockno (bufs s ! i) = blockno) (lru s) of
        Some i \<Rightarrow> acquire_buf i (upd_buf i (\<lambda>b. b\<lparr>b_refcnt := b_refcnt b + 1\<rparr>) s)
      | None \<Rightarrow>
          (case find (\<lambda>i. b_refcnt (bufs s ! i) = 0) (rev (lru s)) of
             Some i \<Rightarrow> acquire_buf i (upd_buf i (\<lambda>b. b\<lparr>b_dev := dev, b_blockno := blockno,
                          b_valid := False, b_refcnt := 1\<rparr>) s)
           | None \<Rightarrow> None))"

definition disk_read :: "nat \<Rightarrow> 'a bio_state_scheme \<Rightarrow> 'a bio_state_scheme" where
  "disk_read i s = upd_buf i (\<lambda>b. b\<lparr>b_data := platter s (b_blockno b)\<rparr>) s"

definition disk_write :: "nat \<Rightarrow> 'a bio_state_scheme \<Rightarrow> 'a bio_state_scheme" where
  "disk_write i s = (let b = bufs s ! i in
     s\<lparr>platter := (platter s)(b_blockno b := b_data b), wtrace := wtrace s @ [(b_blockno b, b_data b)]\<rparr>)"

definition bread :: "u32 \<Rightarrow> u32 \<Rightarrow> 'a bio_state_scheme \<Rightarrow> (nat \<times> 'a bio_state_scheme) option" where
  "bread dev blockno s = do {
     (i, s1) \<leftarrow> bget dev blockno s;
     Some (i, if b_valid (bufs s1 ! i) then s1
              else upd_buf i (\<lambda>b. b\<lparr>b_valid := True\<rparr>) (disk_read i s1)) }"

definition bwrite :: "nat \<Rightarrow> 'a bio_state_scheme \<Rightarrow> 'a bio_state_scheme option" where
  "bwrite i s = (if \<not> b_lock (bufs s ! i) then None else Some (disk_write i s))"

definition brelse :: "nat \<Rightarrow> 'a bio_state_scheme \<Rightarrow> 'a bio_state_scheme option" where
  "brelse i s =
     (if \<not> b_lock (bufs s ! i) then None
      else let s1 = upd_buf i (\<lambda>b. b\<lparr>b_lock := False, b_refcnt := b_refcnt b - 1\<rparr>) s in
        Some (if b_refcnt (bufs s1 ! i) = 0 then s1\<lparr>lru := i # remove1 i (lru s1)\<rparr> else s1))"

definition bpin :: "nat \<Rightarrow> 'a bio_state_scheme \<Rightarrow> 'a bio_state_scheme" where
  "bpin i s = upd_buf i (\<lambda>b. b\<lparr>b_refcnt := b_refcnt b + 1\<rparr>) s"

definition bunpin :: "nat \<Rightarrow> 'a bio_state_scheme \<Rightarrow> 'a bio_state_scheme" where
  "bunpin i s = upd_buf i (\<lambda>b. b\<lparr>b_refcnt := b_refcnt b - 1\<rparr>) s"

definition set_data :: "nat \<Rightarrow> block \<Rightarrow> 'a bio_state_scheme \<Rightarrow> 'a bio_state_scheme" where
  "set_data i d s = upd_buf i (\<lambda>b. b\<lparr>b_data := d\<rparr>) s"

abbreviation get_data :: "nat \<Rightarrow> 'a bio_state_scheme \<Rightarrow> block" where
  "get_data i s \<equiv> b_data (bufs s ! i)"

section \<open>What the cache holds\<close>

text \<open>
  \<open>holds s b i\<close>: buffer \<open>i\<close> holds block \<open>b\<close> of the root device. \<open>view\<close> is the current content of
  a block, \<open>pins\<close> its reference count, \<open>held\<close> its lock, \<open>nfree\<close> the number of buffers \<open>bget\<close> may
  recycle.
\<close>

definition ROOTDEV :: u32 where "ROOTDEV = 1"

definition holds :: "'a bio_state_scheme \<Rightarrow> u32 \<Rightarrow> nat \<Rightarrow> bool" where
  "holds s b i \<longleftrightarrow> i < length (bufs s) \<and> b_dev (bufs s ! i) = ROOTDEV \<and> b_blockno (bufs s ! i) = b"

definition bufidx :: "'a bio_state_scheme \<Rightarrow> u32 \<Rightarrow> nat option" where
  "bufidx s b = find (\<lambda>i. b_dev (bufs s ! i) = ROOTDEV \<and> b_blockno (bufs s ! i) = b) [0..<length (bufs s)]"

definition view :: "'a bio_state_scheme \<Rightarrow> u32 \<Rightarrow> block" where
  "view s b = (case bufidx s b of None \<Rightarrow> platter s b
     | Some i \<Rightarrow> if b_valid (bufs s ! i) then b_data (bufs s ! i) else platter s b)"

definition pins :: "'a bio_state_scheme \<Rightarrow> u32 \<Rightarrow> nat" where
  "pins s b = (case bufidx s b of None \<Rightarrow> 0 | Some i \<Rightarrow> unat (b_refcnt (bufs s ! i)))"

definition held :: "'a bio_state_scheme \<Rightarrow> u32 \<Rightarrow> bool" where
  "held s b = (case bufidx s b of None \<Rightarrow> False | Some i \<Rightarrow> b_lock (bufs s ! i))"

definition nfree :: "'a bio_state_scheme \<Rightarrow> nat" where
  "nfree s = length (filter (\<lambda>b. b_refcnt b = 0) (bufs s))"

definition cache_inv :: "'a bio_state_scheme \<Rightarrow> bool" where
  "cache_inv s \<longleftrightarrow>
     distinct (lru s) \<and> set (lru s) = {..<length (bufs s)} \<and>
     (\<forall>i j b. holds s b i \<longrightarrow> holds s b j \<longrightarrow> i = j) \<and>
     (\<forall>x \<in> set (bufs s). b_refcnt x = 0 \<longrightarrow> \<not> b_lock x \<and>
        (b_valid x \<longrightarrow> b_dev x = ROOTDEV \<longrightarrow> b_data x = platter s (b_blockno x))) \<and>
     (\<forall>x \<in> set (bufs s). length (b_data x) = BSIZE) \<and> (\<forall>b. length (platter s b) = BSIZE)"

lemma findD: "find P xs = Some i \<Longrightarrow> i \<in> set xs \<and> P i"
  by (induction xs) (auto split: if_splits)

lemma find_unique:
  assumes "\<And>a b. P a \<Longrightarrow> P b \<Longrightarrow> a \<in> set xs \<Longrightarrow> b \<in> set xs \<Longrightarrow> a = b"
  shows "find P xs = Some i \<longleftrightarrow> i \<in> set xs \<and> P i"
  using assms by (induction xs) auto

lemma bufidx_iff:
  assumes "cache_inv s"
  shows "bufidx s b = Some i \<longleftrightarrow> holds s b i"
  unfolding bufidx_def
  by (subst find_unique) (use assms in \<open>auto simp: cache_inv_def holds_def\<close>)

lemma bufidx_None:
  assumes "cache_inv s"
  shows "bufidx s b = None \<longleftrightarrow> (\<forall>i. \<not> holds s b i)"
  using bufidx_iff [OF assms, of b] by (cases "bufidx s b") auto

lemma bget_lookup:
  assumes "cache_inv s"
  shows "find (\<lambda>i. b_dev (bufs s ! i) = ROOTDEV \<and> b_blockno (bufs s ! i) = b) (lru s) = bufidx s b"
proof -
  have "find (\<lambda>i. b_dev (bufs s ! i) = ROOTDEV \<and> b_blockno (bufs s ! i) = b) (lru s) = Some i \<longleftrightarrow> holds s b i" for i
    by (subst find_unique) (use assms in \<open>auto simp: cache_inv_def holds_def\<close>)
  then show ?thesis using bufidx_iff [OF assms, of b] by (intro option_eqI) simp
qed

text \<open>Updates of one buffer that keep its block.\<close>

lemma upd_buf_simps [simp]:
  "bio_state.more (upd_buf i f s) = bio_state.more s"
  "length (bufs (upd_buf i f s)) = length (bufs s)"
  "lru (upd_buf i f s) = lru s"
  "platter (upd_buf i f s) = platter s"
  "wtrace (upd_buf i f s) = wtrace s"
  by (simp_all add: upd_buf_def)

lemma nth_upd_buf: "j < length (bufs s) \<Longrightarrow> bufs (upd_buf i f s) ! j = (if j = i then f (bufs s ! i) else bufs s ! j)"
  by (simp add: upd_buf_def nth_list_update)

lemma nfree_upd:
  assumes "i < length (bufs s)"
  shows "nfree (upd_buf i f s) + (if b_refcnt (bufs s ! i) = 0 then 1 else 0) =
         nfree s + (if b_refcnt (f (bufs s ! i)) = 0 then 1 else 0)"
proof -
  have *: "filter P (xs[i := y]) = filter P (take i xs) @ (if P y then [y] else []) @ filter P (drop (Suc i) xs)"
    "filter P xs = filter P (take i xs) @ (if P (xs ! i) then [xs ! i] else []) @ filter P (drop (Suc i) xs)"
    if "i < length xs" for P and xs :: "'z list" and y
  proof -
    show "filter P (xs[i := y]) = filter P (take i xs) @ (if P y then [y] else []) @ filter P (drop (Suc i) xs)"
      using that by (simp add: upd_conv_take_nth_drop)
    have "filter P xs = filter P (take i xs @ xs ! i # drop (Suc i) xs)"
      using that by (simp add: id_take_nth_drop [symmetric])
    then show "filter P xs = filter P (take i xs) @ (if P (xs ! i) then [xs ! i] else []) @ filter P (drop (Suc i) xs)"
      by simp
  qed
  show ?thesis unfolding nfree_def upd_buf_def using assms *(1) [OF assms] *(2) [OF assms] by simp
qed

lemma holds_upd_buf:
  assumes "i < length (bufs s)" and "b_dev (f (bufs s ! i)) = b_dev (bufs s ! i)"
    and "b_blockno (f (bufs s ! i)) = b_blockno (bufs s ! i)"
  shows "holds (upd_buf i f s) b j = holds s b j"
  using assms by (cases "j < length (bufs s)"; cases "j = i") (auto simp: holds_def nth_upd_buf)

lemma upd_buf_law:
  assumes inv: "cache_inv s" and h: "holds s b i"
    and f: "b_dev (f (bufs s ! i)) = b_dev (bufs s ! i)" "b_blockno (f (bufs s ! i)) = b_blockno (bufs s ! i)"
      "length (b_data (f (bufs s ! i))) = BSIZE"
    and clean: "b_refcnt (f (bufs s ! i)) = 0 \<Longrightarrow> \<not> b_lock (f (bufs s ! i)) \<and>
        (b_valid (f (bufs s ! i)) \<longrightarrow> b_data (f (bufs s ! i)) = platter s b)"
  shows "cache_inv (upd_buf i f s)"
    and "holds (upd_buf i f s) c j = holds s c j"
    and "view (upd_buf i f s) = (view s)(b := if b_valid (f (bufs s ! i)) then b_data (f (bufs s ! i)) else platter s b)"
    and "pins (upd_buf i f s) = (pins s)(b := unat (b_refcnt (f (bufs s ! i))))"
    and "held (upd_buf i f s) = (held s)(b := b_lock (f (bufs s ! i)))"
proof -
  have i: "i < length (bufs s)" "b_blockno (bufs s ! i) = b" "b_dev (bufs s ! i) = ROOTDEV"
    using h by (auto simp: holds_def)
  note hu = holds_upd_buf [of i s f, OF i(1) f(1,2)]
  then show "holds (upd_buf i f s) c j = holds s c j" .
  have set_upd: "x \<in> set (bufs (upd_buf i f s)) \<Longrightarrow> x = f (bufs s ! i) \<or> x \<in> set (bufs s)" for x
    using set_update_subset_insert by (fastforce simp: upd_buf_def)
  show inv': "cache_inv (upd_buf i f s)"
    unfolding cache_inv_def
  proof (intro conjI ballI allI impI)
    fix x assume x: "x \<in> set (bufs (upd_buf i f s))"
    show "length (b_data x) = BSIZE" using set_upd [OF x] inv f(3) by (auto simp: cache_inv_def)
    assume z: "b_refcnt x = 0"
    show "\<not> b_lock x" using set_upd [OF x] inv clean z by (auto simp: cache_inv_def)
    assume "b_valid x" "b_dev x = ROOTDEV"
    then show "b_data x = platter (upd_buf i f s) (b_blockno x)"
      using set_upd [OF x] inv clean z i f(2) by (auto simp: cache_inv_def)
  qed (use inv in \<open>auto simp: cache_inv_def hu\<close>)
  have idx: "bufidx (upd_buf i f s) c = bufidx s c" for c
    by (rule option_eqI) (simp add: bufidx_iff [OF inv] bufidx_iff [OF inv'] hu)
  have bi: "bufidx s b = Some i" using h bufidx_iff [OF inv] by simp
  have other: "bufs (upd_buf i f s) ! j = bufs s ! j" "j < length (bufs s)"
    if "bufidx s c = Some j" "c \<noteq> b" for c j
  proof -
    have j: "holds s c j" using that bufidx_iff [OF inv] by simp
    then show "j < length (bufs s)" by (simp add: holds_def)
    have "j \<noteq> i" using j i(2) that(2) by (auto simp: holds_def)
    then show "bufs (upd_buf i f s) ! j = bufs s ! j" using j by (simp add: holds_def nth_upd_buf)
  qed
  have self: "bufs (upd_buf i f s) ! i = f (bufs s ! i)" using i(1) by (simp add: nth_upd_buf)
  show "view (upd_buf i f s) = (view s)(b := if b_valid (f (bufs s ! i)) then b_data (f (bufs s ! i)) else platter s b)"
    by (rule ext) (use bi self other in \<open>auto simp: view_def idx split: option.split\<close>)
  show "pins (upd_buf i f s) = (pins s)(b := unat (b_refcnt (f (bufs s ! i))))"
    by (rule ext) (use bi self other in \<open>auto simp: pins_def idx split: option.split\<close>)
  show "held (upd_buf i f s) = (held s)(b := b_lock (f (bufs s ! i)))"
    by (rule ext) (use bi self other in \<open>auto simp: held_def idx split: option.split\<close>)
qed

lemma view_held_facts:
  assumes "cache_inv s" and "holds s b i"
  shows "view s b = (if b_valid (bufs s ! i) then b_data (bufs s ! i) else platter s b)"
    and "pins s b = unat (b_refcnt (bufs s ! i))" and "held s b = b_lock (bufs s ! i)"
    and "i < length (bufs s)" and "length (b_data (bufs s ! i)) = BSIZE"
    and "b_dev (bufs s ! i) = ROOTDEV" and "b_blockno (bufs s ! i) = b"
    and "held s b \<Longrightarrow> b_refcnt (bufs s ! i) \<noteq> 0"
  using assms bufidx_iff [OF assms(1), of b i]
  by (auto simp: view_def pins_def held_def holds_def cache_inv_def)

section \<open>The operations on views\<close>

definition held_buf :: "'a bio_state_scheme \<Rightarrow> u32 \<Rightarrow> nat \<Rightarrow> bool" where
  "held_buf s b i \<longleftrightarrow> holds s b i \<and> b_lock (bufs s ! i) \<and> b_valid (bufs s ! i)"

lemma held_buf_view: "cache_inv s \<Longrightarrow> held_buf s b i \<Longrightarrow> get_data i s = view s b \<and> held s b \<and> 0 < pins s b"
  using view_held_facts [of s b i] by (auto simp: held_buf_def unat_gt_0)

lemma upd_buf_upd: "i < length (bufs s) \<Longrightarrow> upd_buf i g (upd_buf i f s) = upd_buf i (\<lambda>b. g (f b)) s"
  by (simp add: upd_buf_def)

lemma upd_buf_id: "upd_buf i (\<lambda>b. b) s = s"
  by (simp add: upd_buf_def)

lemma held_buf_upd:
  assumes "cache_inv s" and "holds s b i" and "b_dev (f (bufs s ! i)) = b_dev (bufs s ! i)"
    "b_blockno (f (bufs s ! i)) = b_blockno (bufs s ! i)" and "c \<noteq> b"
  shows "held_buf (upd_buf i f s) c j = held_buf s c j"
proof -
  note i = view_held_facts [OF assms(1,2)]
  have hs: "holds (upd_buf i f s) c j = holds s c j"
    by (rule holds_upd_buf) (use i(4) assms(3,4) in auto)
  show ?thesis
  proof (cases "holds s c j")
    case True
    then have "j \<noteq> i" "j < length (bufs s)" using assms(5) i(7) by (auto simp: holds_def)
    then show ?thesis using hs by (simp add: held_buf_def nth_upd_buf)
  next
    case False
    then show ?thesis using hs by (simp add: held_buf_def)
  qed
qed

lemma set_data_law:
  assumes inv: "cache_inv s" and h: "held_buf s b i" and d: "length d = BSIZE"
  shows "cache_inv (set_data i d s)" "view (set_data i d s) = (view s)(b := d)"
    "pins (set_data i d s) = pins s" "held (set_data i d s) = held s" "nfree (set_data i d s) = nfree s"
    "platter (set_data i d s) = platter s" "wtrace (set_data i d s) = wtrace s"
    "held_buf (set_data i d s) c j = held_buf s c j"
    "lru (set_data i d s) = lru s"
proof -
  have hi: "holds s b i" "b_lock (bufs s ! i)" "b_valid (bufs s ! i)" using h by (auto simp: held_buf_def)
  note i = view_held_facts [OF inv hi(1)]
  let ?f = "\<lambda>x. x\<lparr>b_data := d\<rparr>"
  have l: "cache_inv (upd_buf i ?f s)" "\<And>c j. holds (upd_buf i ?f s) c j = holds s c j"
    "view (upd_buf i ?f s) = (view s)(b := d)"
    "pins (upd_buf i ?f s) = pins s" "held (upd_buf i ?f s) = held s"
    using upd_buf_law [OF inv hi(1), of ?f] i hi d by (auto simp: fun_eq_iff)
  then show "cache_inv (set_data i d s)" "view (set_data i d s) = (view s)(b := d)"
    "pins (set_data i d s) = pins s" "held (set_data i d s) = held s"
    by (simp_all add: set_data_def)
  show "nfree (set_data i d s) = nfree s"
    using nfree_upd [OF i(4), of ?f] by (simp add: set_data_def split: if_splits)
  show "held_buf (set_data i d s) c j = held_buf s c j"
    using l(2) [of c j] by (cases "j < length (bufs s)") (auto simp: held_buf_def set_data_def nth_upd_buf holds_def)
qed (simp_all add: set_data_def)

lemma bwrite_law:
  assumes inv: "cache_inv s" and h: "held_buf s b i"
  obtains s' where "bwrite i s = Some s'" "cache_inv s'" "view s' = view s" "pins s' = pins s"
    "held s' = held s" "nfree s' = nfree s" "platter s' = (platter s)(b := view s b)"
    "wtrace s' = wtrace s @ [(b, view s b)]" "\<And>c j. held_buf s' c j = held_buf s c j"
    "bufs s' = bufs s" "lru s' = lru s" "bio_state.more s' = bio_state.more s"
proof -
  have hi: "holds s b i" "b_lock (bufs s ! i)" "b_valid (bufs s ! i)" using h by (auto simp: held_buf_def)
  note i = view_held_facts [OF inv hi(1)]
  let ?s = "disk_write i s"
  have w: "bufs ?s = bufs s" "lru ?s = lru s" "platter ?s = (platter s)(b := view s b)"
    "wtrace ?s = wtrace s @ [(b, view s b)]"
    using i hi by (auto simp: disk_write_def Let_def)
  have hd: "holds ?s c j = holds s c j" for c j by (simp add: holds_def w)
  have idx: "bufidx ?s c = bufidx s c" for c by (simp add: bufidx_def w)
  have "b_data x = platter ?s (b_blockno x)"
    if x: "x \<in> set (bufs s)" "b_refcnt x = 0" "b_valid x" "b_dev x = ROOTDEV" for x
  proof -
    obtain k where k: "k < length (bufs s)" "x = bufs s ! k" using x(1) by (auto simp: in_set_conv_nth)
    have "b_blockno x \<noteq> b"
    proof
      assume "b_blockno x = b"
      then have "holds s b k" using k x by (simp add: holds_def)
      then have "k = i" using inv hi(1) unfolding cache_inv_def by blast
      then show False using i(3,8) hi k x by simp
    qed
    then show ?thesis using x inv by (auto simp: w cache_inv_def)
  qed
  moreover have "length (view s b) = BSIZE" using i hi by simp
  ultimately have "cache_inv ?s"
    using inv by (auto simp: cache_inv_def w hd)
  moreover have "view ?s = view s"
  proof
    fix c
    have "bufidx s b = Some i" using bufidx_iff [OF inv] hi(1) by simp
    then show "view ?s c = view s c"
      by (cases "c = b") (simp_all add: view_def idx w hi(3) split: option.split)
  qed
  moreover have "pins ?s = pins s" "held ?s = held s" "nfree ?s = nfree s"
    by (auto simp: pins_def held_def nfree_def idx w fun_eq_iff split: option.split)
  moreover have "held_buf ?s c j = held_buf s c j" for c j by (simp add: held_buf_def hd w)
  moreover have "bwrite i s = Some ?s" using hi(2) by (simp add: bwrite_def)
  moreover have "bio_state.more ?s = bio_state.more s" by (simp add: disk_write_def Let_def)
  ultimately show thesis using that [of ?s] w by simp
qed

lemma cache_fun_cong:
  assumes "bufs s' = bufs s" and "platter s' = platter s"
  shows "view s' = view s" "pins s' = pins s" "held s' = held s" "nfree s' = nfree s" "holds s' c j = holds s c j"
    "held_buf s' c j = held_buf s c j"
proof -
  have idx: "bufidx s' = bufidx s" using assms by (simp add: bufidx_def fun_eq_iff)
  show "view s' = view s" "pins s' = pins s" "held s' = held s"
    by (auto simp: view_def pins_def held_def fun_eq_iff assms idx split: option.split)
qed (use assms in \<open>simp_all add: nfree_def holds_def held_buf_def\<close>)

lemma brelse_law:
  assumes inv: "cache_inv s" and h: "held_buf s b i" and clean: "pins s b = 1 \<Longrightarrow> view s b = platter s b"
  obtains s' where "brelse i s = Some s'" "cache_inv s'" "view s' = view s" "pins s' = (pins s)(b := pins s b - 1)"
    "held s' = (held s)(b := False)" "nfree s' = nfree s + (if pins s b = 1 then 1 else 0)"
    "platter s' = platter s" "wtrace s' = wtrace s" "\<And>c j. c \<noteq> b \<Longrightarrow> held_buf s' c j = held_buf s c j"
    "bio_state.more s' = bio_state.more s"
proof -
  have hi: "holds s b i" "b_lock (bufs s ! i)" "b_valid (bufs s ! i)" using h by (auto simp: held_buf_def)
  note i = view_held_facts [OF inv hi(1)]
  let ?f = "\<lambda>x. x\<lparr>b_lock := False, b_refcnt := b_refcnt x - 1\<rparr>"
  let ?s1 = "upd_buf i ?f s"
  have nz: "b_refcnt (bufs s ! i) \<noteq> 0" using i hi by simp
  then have un: "unat (b_refcnt (bufs s ! i) - 1) = pins s b - 1" using i(2) by (simp add: unat_minus_one)
  have one: "b_refcnt (bufs s ! i) - 1 = 0 \<longleftrightarrow> pins s b = 1"
  proof -
    have "b_refcnt (bufs s ! i) - 1 = 0 \<longleftrightarrow> unat (b_refcnt (bufs s ! i) - 1) = 0" by (simp only: unsigned_eq_0_iff)
    then show ?thesis using un i(2) nz unat_gt_0 [of "b_refcnt (bufs s ! i)"] by auto
  qed
  have l: "cache_inv ?s1" "view ?s1 = view s" "pins ?s1 = (pins s)(b := pins s b - 1)"
    "held ?s1 = (held s)(b := False)"
    using upd_buf_law [OF inv hi(1), of ?f] i hi un one clean by (auto simp: fun_eq_iff)
  have hb: "held_buf ?s1 c j = held_buf s c j" if "c \<noteq> b" for c j
    by (rule held_buf_upd [OF inv hi(1) _ _ that]) simp_all
  have n: "nfree ?s1 = nfree s + (if pins s b = 1 then 1 else 0)"
    using nfree_upd [OF i(4), of ?f] nz one by simp
  let ?s2 = "if pins s b = 1 then ?s1\<lparr>lru := i # remove1 i (lru ?s1)\<rparr> else ?s1"
  have "bufs ?s2 = bufs ?s1" "platter ?s2 = platter ?s1" by simp_all
  note same = cache_fun_cong [OF this]
  have dl: "distinct (lru s)" "i \<in> set (lru s)" "set (lru s) = {..<length (bufs s)}"
    using inv i(4) by (auto simp: cache_inv_def)
  then have "distinct (i # remove1 i (lru s))" "set (i # remove1 i (lru s)) = {..<length (bufs s)}"
    by (auto simp: set_remove1_eq)
  then have "cache_inv ?s2" using l(1) same(5) unfolding cache_inv_def by auto
  moreover have "brelse i s = Some ?s2"
    using hi(2) one i(4) by (simp add: brelse_def Let_def nth_upd_buf)
  ultimately show thesis
    using that [of ?s2] l same n hb by simp
qed

text \<open>The recycled buffer: its old block is clean or unread, so no view changes.\<close>

lemma recycle_law:
  assumes inv: "cache_inv s" and new: "bufidx s b = None"
    and i: "i < length (bufs s)" "b_refcnt (bufs s ! i) = 0"
    and s': "s' = upd_buf i (\<lambda>x. x\<lparr>b_dev := ROOTDEV, b_blockno := b, b_refcnt := 1,
        b_lock := True, b_data := platter s b, b_valid := True\<rparr>) s"
  shows "cache_inv s'" "view s' = view s" "pins s' = (pins s)(b := 1)" "held s' = (held s)(b := True)"
    "held_buf s' b i" "\<And>c j. c \<noteq> b \<Longrightarrow> held_buf s' c j = held_buf s c j" "nfree s' + 1 = nfree s"
proof -
  have at_i: "bufs s' ! i = (bufs s ! i)\<lparr>b_dev := ROOTDEV, b_blockno := b, b_refcnt := 1,
        b_lock := True, b_data := platter s b, b_valid := True\<rparr>" and len: "length (bufs s') = length (bufs s)"
    using i by (auto simp: s' nth_upd_buf)
  have other: "bufs s' ! j = bufs s ! j" if "j < length (bufs s)" "j \<noteq> i" for j
    using that by (simp add: s' nth_upd_buf)
  have plat: "platter s' = platter s" by (simp add: s')
  have hs: "holds s' c j \<longleftrightarrow> (if j = i then c = b else holds s c j)" for c j
    using i at_i other len by (auto simp: holds_def)
  have nb: "\<not> holds s b j" for j using new bufidx_None [OF inv] by blast
  have uniq: "j = k" if "holds s' c j" "holds s' c k" for c j k
  proof -
    have "holds s c j \<Longrightarrow> holds s c k \<Longrightarrow> j = k" using inv unfolding cache_inv_def by blast
    then show ?thesis using that nb by (auto simp: hs split: if_splits)
  qed
  have lens: "length (b_data (bufs s' ! j)) = BSIZE" if "j < length (bufs s)" for j
    using that at_i other [of j] inv by (cases "j = i") (auto simp: cache_inv_def)
  have cl: "\<not> b_lock x \<and> (b_valid x \<longrightarrow> b_dev x = ROOTDEV \<longrightarrow> b_data x = platter s (b_blockno x))"
    if x: "x = bufs s' ! j" "j < length (bufs s)" "b_refcnt x = 0" for x j
  proof -
    have "j \<noteq> i" using x at_i by auto
    then have "x \<in> set (bufs s)" using x other by simp
    then show ?thesis using inv x(3) by (simp add: cache_inv_def)
  qed
  show inv': "cache_inv s'"
    unfolding cache_inv_def
  proof (intro conjI ballI)
    show "distinct (lru s')" "set (lru s') = {..<length (bufs s')}" using inv by (auto simp: cache_inv_def s')
    show "\<forall>i j b. holds s' b i \<longrightarrow> holds s' b j \<longrightarrow> i = j" using uniq by blast
    show "\<forall>b. length (platter s' b) = BSIZE" using inv by (simp add: cache_inv_def s')
  next
    fix x assume "x \<in> set (bufs s')"
    then obtain j where j: "j < length (bufs s)" "x = bufs s' ! j" by (auto simp: in_set_conv_nth len)
    show "length (b_data x) = BSIZE" using lens j by simp
    show "b_refcnt x = 0 \<longrightarrow> \<not> b_lock x \<and>
        (b_valid x \<longrightarrow> b_dev x = ROOTDEV \<longrightarrow> b_data x = platter s' (b_blockno x))"
      using cl [OF j(2,1)] by (simp add: plat)
  qed
  have idx: "bufidx s' c = (if c = b then Some i else if bufidx s c = Some i then None else bufidx s c)" for c
  proof (cases "c = b")
    case True
    then show ?thesis using bufidx_iff [OF inv', of b i] hs [of b i] by simp
  next
    case False
    show ?thesis
    proof (cases "bufidx s c")
      case None
      then have "\<not> holds s' c k" for k using bufidx_None [OF inv, of c] hs [of c k] False by simp
      then have "bufidx s' c = None" using bufidx_None [OF inv', of c] by blast
      with None False show ?thesis by simp
    next
      case (Some j)
      then have j: "holds s c j" using bufidx_iff [OF inv] by simp
      show ?thesis
      proof (cases "j = i")
        case True
        have "\<not> holds s' c k" for k
        proof
          assume "holds s' c k"
          then have "k \<noteq> i" "holds s c k" using hs [of c k] False by (auto split: if_splits)
          then show False using j True inv unfolding cache_inv_def by blast
        qed
        then have "bufidx s' c = None" using bufidx_None [OF inv', of c] by blast
        with Some True False show ?thesis by simp
      next
        case ji: False
        then have "holds s' c j" using hs [of c j] j by simp
        then have "bufidx s' c = Some j" using bufidx_iff [OF inv'] by simp
        with Some ji False show ?thesis by simp
      qed
    qed
  qed
  have old: "b_dev (bufs s ! i) = ROOTDEV \<Longrightarrow> b_valid (bufs s ! i) \<Longrightarrow> b_data (bufs s ! i) = platter s (b_blockno (bufs s ! i))"
    and unl: "\<not> b_lock (bufs s ! i)"
    using inv i by (auto simp: cache_inv_def)
  have evict: "view s c = platter s c \<and> pins s c = 0 \<and> \<not> held s c" if "bufidx s c = Some i" for c
    using that bufidx_iff [OF inv, of c i] old unl i(2) by (auto simp: view_def pins_def held_def holds_def)
  have keep: "bufs s' ! k = bufs s ! k" if "bufidx s c = Some k" "k \<noteq> i" for c k
    using that bufidx_iff [OF inv, of c k] other by (auto simp: holds_def)
  show "view s' = view s"
  proof
    fix c show "view s' c = view s c"
      using idx [of c] evict [of c] keep [of c] new at_i
      by (cases "bufidx s c") (auto simp: view_def s')
  qed
  show "pins s' = (pins s)(b := 1)"
  proof
    fix c show "pins s' c = ((pins s)(b := 1)) c"
      using idx [of c] evict [of c] keep [of c] new at_i by (cases "bufidx s c") (auto simp: pins_def)
  qed
  show "held s' = (held s)(b := True)"
  proof
    fix c show "held s' c = ((held s)(b := True)) c"
      using idx [of c] evict [of c] keep [of c] new at_i by (cases "bufidx s c") (auto simp: held_def)
  qed
  show "held_buf s' b i" using hs at_i by (simp add: held_buf_def)
  show "held_buf s' c j = held_buf s c j" if "c \<noteq> b" for c j
  proof (cases "j = i")
    case True
    then show ?thesis using that hs unl by (simp add: held_buf_def)
  next
    case False
    then have e: "holds s' c j = holds s c j" using hs [of c j] by simp
    show ?thesis
    proof (cases "holds s c j")
      case True
      then have "bufs s' ! j = bufs s ! j" using other [of j] False by (simp add: holds_def)
      then show ?thesis by (simp add: held_buf_def e)
    qed (simp add: held_buf_def e)
  qed
  show "nfree s' + 1 = nfree s"
    unfolding s' using nfree_upd [OF i(1)] i(2) by simp
qed

lemma nfree_pos: "0 < nfree s \<longleftrightarrow> (\<exists>i < length (bufs s). b_refcnt (bufs s ! i) = 0)"
  by (simp add: nfree_def filter_empty_conv) (metis in_set_conv_nth)

lemma bread_law:
  assumes inv: "cache_inv s" and nh: "\<not> held s b" and room: "0 < pins s b \<or> 0 < nfree s"
    and small: "pins s b < 2 ^ 32 - 1"
  obtains i s' where "bread ROOTDEV b s = Some (i, s')" "cache_inv s'" "view s' = view s"
    "pins s' = (pins s)(b := pins s b + 1)" "held s' = (held s)(b := True)" "held_buf s' b i"
    "\<And>c j. c \<noteq> b \<Longrightarrow> held_buf s' c j = held_buf s c j"
    "nfree s' + (if pins s b = 0 then 1 else 0) = nfree s"
    "platter s' = platter s" "wtrace s' = wtrace s" "bio_state.more s' = bio_state.more s"
proof (cases "bufidx s b")
  case (Some i)
  then have h: "holds s b i" using bufidx_iff [OF inv] by simp
  note i = view_held_facts [OF inv h]
  let ?f = "\<lambda>x. x\<lparr>b_refcnt := b_refcnt x + 1, b_lock := True, b_valid := True,
      b_data := if b_valid x then b_data x else platter s (b_blockno x)\<rparr>"
  let ?s = "upd_buf i ?f s"
  have un: "unat (b_refcnt (bufs s ! i) + 1) = pins s b + 1"
    using small i(2) by (simp add: unat_word_ariths)
  then have nz: "b_refcnt (bufs s ! i) + 1 \<noteq> 0" by auto
  have "bread ROOTDEV b s = Some (i, ?s)"
    using Some nh i(3) h i(4)
    by (simp add: bread_def bget_def bget_lookup [OF inv] acquire_buf_def nth_upd_buf upd_buf_upd
        disk_read_def) (cases "bufs s ! i", simp add: upd_buf_def)
  moreover have "length (platter s b) = BSIZE" using inv by (simp add: cache_inv_def)
  then have l: "cache_inv ?s" "\<And>c j. holds ?s c j = holds s c j" "view ?s = view s"
    "pins ?s = (pins s)(b := pins s b + 1)" "held ?s = (held s)(b := True)"
    using upd_buf_law [OF inv h, of ?f] i un nz by (auto simp: fun_eq_iff)
  moreover have "held_buf ?s c j = held_buf s c j" if "c \<noteq> b" for c j
    by (rule held_buf_upd [OF inv h _ _ that]) simp_all
  moreover have "held_buf ?s b i" using l(2) h i(4) by (simp add: held_buf_def nth_upd_buf)
  moreover have "nfree ?s + (if pins s b = 0 then 1 else 0) = nfree s"
    using nfree_upd [OF i(4), of ?f] nz i(2) by (simp add: unsigned_eq_0_iff)
  ultimately show thesis using that [of i ?s] by simp
next
  case None
  then have p0: "pins s b = 0" by (simp add: pins_def)
  let ?P = "\<lambda>i. b_refcnt (bufs s ! i) = 0"
  have "\<exists>i. find ?P (rev (lru s)) = Some i"
  proof -
    obtain k where "k < length (bufs s)" "?P k" using room p0 nfree_pos by auto
    then have "\<exists>k \<in> set (rev (lru s)). ?P k" using inv by (auto simp: cache_inv_def)
    then show ?thesis using find_None_iff [of ?P "rev (lru s)"] by (cases "find ?P (rev (lru s))") auto
  qed
  then obtain i where fi: "find ?P (rev (lru s)) = Some i" ..
  then have "i \<in> set (rev (lru s))" "?P i" by (auto dest: findD)
  then have i: "i < length (bufs s)" "?P i" using inv by (auto simp: cache_inv_def)
  have unl: "\<not> b_lock (bufs s ! i)" using inv i by (simp add: cache_inv_def)
  let ?s = "upd_buf i (\<lambda>x. x\<lparr>b_dev := ROOTDEV, b_blockno := b, b_refcnt := 1,
        b_lock := True, b_data := platter s b, b_valid := True\<rparr>) s"
  note l = recycle_law [OF inv None i refl]
  have "bread ROOTDEV b s = Some (i, ?s)"
    using None fi i unl
    by (simp add: bread_def bget_def bget_lookup [OF inv] acquire_buf_def nth_upd_buf upd_buf_upd
        disk_read_def)
  then show thesis using that [of i ?s] l p0 by simp
qed

lemma bpin_law:
  assumes inv: "cache_inv s" and h: "held_buf s b i" and small: "pins s b < 2 ^ 32 - 1"
  shows "cache_inv (bpin i s)" "view (bpin i s) = view s" "pins (bpin i s) = (pins s)(b := pins s b + 1)"
    "held (bpin i s) = held s" "nfree (bpin i s) = nfree s" "platter (bpin i s) = platter s"
    "wtrace (bpin i s) = wtrace s" "held_buf (bpin i s) c j = held_buf s c j"
proof -
  have hi: "holds s b i" "b_lock (bufs s ! i)" "b_valid (bufs s ! i)" using h by (auto simp: held_buf_def)
  note i = view_held_facts [OF inv hi(1)]
  let ?f = "\<lambda>x. x\<lparr>b_refcnt := b_refcnt x + 1\<rparr>"
  have un: "unat (b_refcnt (bufs s ! i) + 1) = pins s b + 1"
    using small i(2) by (simp add: unat_word_ariths)
  then have nz: "b_refcnt (bufs s ! i) + 1 \<noteq> 0" by auto
  have nz': "b_refcnt (bufs s ! i) \<noteq> 0" using i hi by simp
  have l: "cache_inv (upd_buf i ?f s)" "\<And>c j. holds (upd_buf i ?f s) c j = holds s c j"
    "view (upd_buf i ?f s) = view s" "pins (upd_buf i ?f s) = (pins s)(b := pins s b + 1)"
    "held (upd_buf i ?f s) = held s"
    using upd_buf_law [OF inv hi(1), of ?f] i un nz hi by (auto simp: fun_eq_iff)
  then show "cache_inv (bpin i s)" "view (bpin i s) = view s" "pins (bpin i s) = (pins s)(b := pins s b + 1)"
    "held (bpin i s) = held s" by (simp_all add: bpin_def)
  show "nfree (bpin i s) = nfree s" using nfree_upd [OF i(4), of ?f] nz nz' by (simp add: bpin_def)
  show "held_buf (bpin i s) c j = held_buf s c j"
    using l(2) [of c j] by (cases "j < length (bufs s)") (auto simp: held_buf_def bpin_def nth_upd_buf holds_def)
qed (simp_all add: bpin_def)

lemma bunpin_law:
  assumes inv: "cache_inv s" and h: "held_buf s b i" and two: "2 \<le> pins s b"
  shows "cache_inv (bunpin i s)" "view (bunpin i s) = view s" "pins (bunpin i s) = (pins s)(b := pins s b - 1)"
    "held (bunpin i s) = held s" "nfree (bunpin i s) = nfree s" "platter (bunpin i s) = platter s"
    "wtrace (bunpin i s) = wtrace s" "held_buf (bunpin i s) c j = held_buf s c j"
proof -
  have hi: "holds s b i" "b_lock (bufs s ! i)" "b_valid (bufs s ! i)" using h by (auto simp: held_buf_def)
  note i = view_held_facts [OF inv hi(1)]
  let ?f = "\<lambda>x. x\<lparr>b_refcnt := b_refcnt x - 1\<rparr>"
  have nz': "b_refcnt (bufs s ! i) \<noteq> 0" using i hi by simp
  then have un: "unat (b_refcnt (bufs s ! i) - 1) = pins s b - 1" using i(2) by (simp add: unat_minus_one)
  then have nz: "b_refcnt (bufs s ! i) - 1 \<noteq> 0" using two by auto
  have l: "cache_inv (upd_buf i ?f s)" "\<And>c j. holds (upd_buf i ?f s) c j = holds s c j"
    "view (upd_buf i ?f s) = view s" "pins (upd_buf i ?f s) = (pins s)(b := pins s b - 1)"
    "held (upd_buf i ?f s) = held s"
    using upd_buf_law [OF inv hi(1), of ?f] i un nz hi by (auto simp: fun_eq_iff)
  then show "cache_inv (bunpin i s)" "view (bunpin i s) = view s" "pins (bunpin i s) = (pins s)(b := pins s b - 1)"
    "held (bunpin i s) = held s" by (simp_all add: bunpin_def)
  show "nfree (bunpin i s) = nfree s" using nfree_upd [OF i(4), of ?f] nz nz' by (simp add: bunpin_def)
  show "held_buf (bunpin i s) c j = held_buf s c j"
    using l(2) [of c j] by (cases "j < length (bufs s)") (auto simp: held_buf_def bunpin_def nth_upd_buf holds_def)
qed (simp_all add: bunpin_def)

section \<open>The cache's contract\<close>

text \<open>
  What the log and the file system rely on: the state seen as current contents \<open>cur\<close>, disk
  contents \<open>dsk\<close>, reference counts, locks, the number of buffers left, and the disk writes.
\<close>

record cache_abs =
  cur :: "u32 \<Rightarrow> block"
  dsk :: "u32 \<Rightarrow> block"
  ref :: "u32 \<Rightarrow> nat"
  lck :: "u32 \<Rightarrow> bool"
  room :: nat
  tr :: "(u32 \<times> block) list"

definition a_get :: "u32 \<Rightarrow> cache_abs \<Rightarrow> cache_abs" where
  "a_get b a = a\<lparr>ref := (ref a)(b := ref a b + 1), lck := (lck a)(b := True),
     room := room a - (if ref a b = 0 then 1 else 0)\<rparr>"

definition a_put :: "u32 \<Rightarrow> block \<Rightarrow> cache_abs \<Rightarrow> cache_abs" where
  "a_put b d a = a\<lparr>cur := (cur a)(b := d)\<rparr>"

definition a_write :: "u32 \<Rightarrow> cache_abs \<Rightarrow> cache_abs" where
  "a_write b a = a\<lparr>dsk := (dsk a)(b := cur a b), tr := tr a @ [(b, cur a b)]\<rparr>"

definition a_rel :: "u32 \<Rightarrow> cache_abs \<Rightarrow> cache_abs" where
  "a_rel b a = a\<lparr>ref := (ref a)(b := ref a b - 1), lck := (lck a)(b := False),
     room := room a + (if ref a b = 1 then 1 else 0)\<rparr>"

definition a_pin :: "u32 \<Rightarrow> cache_abs \<Rightarrow> cache_abs" where
  "a_pin b a = a\<lparr>ref := (ref a)(b := ref a b + 1)\<rparr>"

definition a_unpin :: "u32 \<Rightarrow> cache_abs \<Rightarrow> cache_abs" where
  "a_unpin b a = a\<lparr>ref := (ref a)(b := ref a b - 1)\<rparr>"

definition max_ref :: nat where "max_ref = 2 ^ 32 - 1"

locale block_cache =
  fixes inv :: "'s \<Rightarrow> bool" and abs :: "'s \<Rightarrow> cache_abs" and own :: "'s \<Rightarrow> u32 \<Rightarrow> nat \<Rightarrow> bool"
    and rest :: "'s \<Rightarrow> 'r"
    and rd :: "u32 \<Rightarrow> 's \<Rightarrow> (nat \<times> 's) option" and wr rel :: "nat \<Rightarrow> 's \<Rightarrow> 's option"
    and put :: "nat \<Rightarrow> block \<Rightarrow> 's \<Rightarrow> 's" and cont :: "nat \<Rightarrow> 's \<Rightarrow> block" and pin unpin :: "nat \<Rightarrow> 's \<Rightarrow> 's"
  assumes rd_ok: "inv s \<Longrightarrow> \<not> lck (abs s) b \<Longrightarrow> 0 < ref (abs s) b \<or> 0 < room (abs s) \<Longrightarrow> ref (abs s) b < max_ref \<Longrightarrow>
      \<exists>i s'. rd b s = Some (i, s') \<and> inv s' \<and> abs s' = a_get b (abs s) \<and> own s' b i \<and>
        (\<forall>c j. c \<noteq> b \<longrightarrow> own s' c j = own s c j) \<and> rest s' = rest s"
    and cont_ok: "inv s \<Longrightarrow> own s b i \<Longrightarrow> cont i s = cur (abs s) b \<and> length (cont i s) = BSIZE \<and> 0 < ref (abs s) b"
    and put_ok: "inv s \<Longrightarrow> own s b i \<Longrightarrow> length d = BSIZE \<Longrightarrow> inv (put i d s) \<and> abs (put i d s) = a_put b d (abs s) \<and>
        (\<forall>c j. own (put i d s) c j = own s c j) \<and> rest (put i d s) = rest s"
    and wr_ok: "inv s \<Longrightarrow> own s b i \<Longrightarrow> \<exists>s'. wr i s = Some s' \<and> inv s' \<and> abs s' = a_write b (abs s) \<and>
        (\<forall>c j. own s' c j = own s c j) \<and> rest s' = rest s"
    and rel_ok: "inv s \<Longrightarrow> own s b i \<Longrightarrow> (ref (abs s) b = 1 \<longrightarrow> cur (abs s) b = dsk (abs s) b) \<Longrightarrow>
      \<exists>s'. rel i s = Some s' \<and> inv s' \<and> abs s' = a_rel b (abs s) \<and>
        (\<forall>c j. c \<noteq> b \<longrightarrow> own s' c j = own s c j) \<and> rest s' = rest s"
    and pin_ok: "inv s \<Longrightarrow> own s b i \<Longrightarrow> ref (abs s) b < max_ref \<Longrightarrow> inv (pin i s) \<and> abs (pin i s) = a_pin b (abs s) \<and>
        (\<forall>c j. own (pin i s) c j = own s c j) \<and> rest (pin i s) = rest s"
    and unpin_ok: "inv s \<Longrightarrow> own s b i \<Longrightarrow> 2 \<le> ref (abs s) b \<Longrightarrow> inv (unpin i s) \<and> abs (unpin i s) = a_unpin b (abs s) \<and>
        (\<forall>c j. own (unpin i s) c j = own s c j) \<and> rest (unpin i s) = rest s"
    and clean: "inv s \<Longrightarrow> ref (abs s) b = 0 \<Longrightarrow> cur (abs s) b = dsk (abs s) b"
begin

text \<open>Room to read two blocks, and nothing locked among them.\<close>

definition ready :: "'s \<Rightarrow> u32 \<Rightarrow> bool" where
  "ready s b \<longleftrightarrow> \<not> lck (abs s) b \<and> ref (abs s) b < max_ref - 1"

lemma ready_ref: "ready s b \<Longrightarrow> ref (abs s) b < max_ref"
  unfolding ready_def by linarith

text \<open>Read, change, write through, release.\<close>

definition update_block :: "u32 \<Rightarrow> (block \<Rightarrow> block) \<Rightarrow> 's \<Rightarrow> 's option" where
  "update_block b f s = do {
     (i, s1) \<leftarrow> rd b s;
     s2 \<leftarrow> wr i (put i (f (cont i s1)) s1);
     rel i s2 }"

lemma update_block_ok:
  assumes "inv s" "ready s b" "1 \<le> room (abs s)" "\<And>d. length d = BSIZE \<Longrightarrow> length (f d) = BSIZE"
  shows "\<exists>s'. update_block b f s = Some s' \<and> inv s' \<and> rest s' = rest s \<and>
    abs s' = (abs s)\<lparr>cur := (cur (abs s))(b := f (cur (abs s) b)), dsk := (dsk (abs s))(b := f (cur (abs s) b)),
      tr := tr (abs s) @ [(b, f (cur (abs s) b))], lck := (lck (abs s))(b := False)\<rparr>"
proof -
  obtain i s1 where s1: "rd b s = Some (i, s1)" "inv s1" "abs s1 = a_get b (abs s)" "own s1 b i" "rest s1 = rest s"
    using rd_ok [of s b] assms ready_ref by (auto simp: ready_def)
  have c: "cont i s1 = cur (abs s) b" "length (cont i s1) = BSIZE"
    using cont_ok [OF s1(2,4)] by (auto simp: s1(3) a_get_def)
  let ?s2 = "put i (f (cont i s1)) s1"
  have s2: "inv ?s2" "abs ?s2 = a_put b (f (cur (abs s) b)) (abs s1)" "own ?s2 b i" "rest ?s2 = rest s"
    using put_ok [OF s1(2,4) assms(4) [OF c(2)]] s1 c by auto
  obtain s3 where s3: "wr i ?s2 = Some s3" "inv s3" "abs s3 = a_write b (abs ?s2)" "own s3 b i" "rest s3 = rest s"
    using wr_ok [OF s2(1,3)] s2 by auto
  obtain s4 where "rel i s3 = Some s4" "inv s4" "abs s4 = a_rel b (abs s3)" "rest s4 = rest s"
    using rel_ok [OF s3(2,4)] s3 by (auto simp: a_write_def s2(2) a_put_def)
  then show ?thesis
    using s1 s3 s2 assms(3) by (auto simp: update_block_def a_get_def a_put_def a_write_def a_rel_def)
qed

text \<open>Two blocks at once: \<open>b\<close> copied over \<open>a\<close> (read first) and \<open>a\<close> copied over \<open>b\<close>, each
  written through; \<open>drop\<close> says whether the pin of \<open>b\<close> is given up.\<close>

lemma get_two:
  assumes "inv s" "ready s a" "ready s b" "a \<noteq> b" "2 \<le> room (abs s)"
  obtains i s1 j s2 where "rd a s = Some (i, s1)" "rd b s1 = Some (j, s2)" "inv s2" "own s2 a i" "own s2 b j"
    "abs s2 = a_get b (a_get a (abs s))" "rest s2 = rest s" "rest s1 = rest s"
proof -
  obtain i s1 where s1: "rd a s = Some (i, s1)" "inv s1" "abs s1 = a_get a (abs s)" "own s1 a i" "rest s1 = rest s"
    using rd_ok [of s a] assms ready_ref by (auto simp: ready_def)
  have "\<not> lck (abs s1) b" "ref (abs s1) b < max_ref" "0 < room (abs s1)"
    using assms ready_ref by (auto simp: s1(3) a_get_def ready_def)
  then obtain j s2 where s2: "rd b s1 = Some (j, s2)" "inv s2" "abs s2 = a_get b (abs s1)" "own s2 b j"
      "\<forall>c k. c \<noteq> b \<longrightarrow> own s2 c k = own s1 c k" "rest s2 = rest s1"
    using rd_ok [OF s1(2), of b] by blast
  then show thesis using that [OF s1(1) s2(1)] s1 assms(4) by simp
qed

lemma rel_two:
  assumes "inv s" "own s a i" "own s b j" "a \<noteq> b"
    and "ref (abs s) a = 1 \<Longrightarrow> cur (abs s) a = dsk (abs s) a" "ref (abs s) b = 1 \<Longrightarrow> cur (abs s) b = dsk (abs s) b"
  shows "\<exists>s1 s2. rel i s = Some s1 \<and> rel j s1 = Some s2 \<and> inv s2 \<and> rest s2 = rest s \<and>
    abs s2 = a_rel b (a_rel a (abs s))"
proof -
  obtain s1 where s1: "rel i s = Some s1" "inv s1" "abs s1 = a_rel a (abs s)" "own s1 b j" "rest s1 = rest s"
    using rel_ok [OF assms(1,2)] assms by auto
  moreover have "ref (abs s1) b = 1 \<longrightarrow> cur (abs s1) b = dsk (abs s1) b"
    using assms(4,6) by (simp add: s1(3) a_rel_def)
  then obtain s2 where "rel j s1 = Some s2" "inv s2" "abs s2 = a_rel b (abs s1)" "rest s2 = rest s1"
    using rel_ok [OF s1(2,4)] by blast
  ultimately show ?thesis by auto
qed

definition copy_first :: "u32 \<Rightarrow> u32 \<Rightarrow> 's \<Rightarrow> 's option" where
  "copy_first a b s = do {
     (i, s1) \<leftarrow> rd a s;
     (j, s2) \<leftarrow> rd b s1;
     s3 \<leftarrow> wr i (put i (cont j s2) s2);
     s4 \<leftarrow> rel j s3;
     rel i s4 }"

definition copy_second :: "bool \<Rightarrow> u32 \<Rightarrow> u32 \<Rightarrow> 's \<Rightarrow> 's option" where
  "copy_second keep a b s = do {
     (i, s1) \<leftarrow> rd a s;
     (j, s2) \<leftarrow> rd b s1;
     s3 \<leftarrow> wr j (put j (cont i s2) s2);
     s5 \<leftarrow> rel i (if keep then s3 else unpin j s3);
     rel j s5 }"

lemma copy_first_ok:
  assumes "inv s" "ready s a" "ready s b" "a \<noteq> b" "2 \<le> room (abs s)"
  shows "\<exists>s'. copy_first a b s = Some s' \<and> inv s' \<and> rest s' = rest s \<and>
    abs s' = (abs s)\<lparr>cur := (cur (abs s))(a := cur (abs s) b), dsk := (dsk (abs s))(a := cur (abs s) b),
      tr := tr (abs s) @ [(a, cur (abs s) b)]\<rparr>"
proof -
  obtain i s1 j s2 where g: "rd a s = Some (i, s1)" "rd b s1 = Some (j, s2)" "inv s2" "own s2 a i" "own s2 b j"
    "abs s2 = a_get b (a_get a (abs s))" "rest s2 = rest s"
    using get_two [OF assms] by metis
  have c: "cont j s2 = cur (abs s) b" "length (cont j s2) = BSIZE"
    using cont_ok [OF g(3,5)] by (auto simp: g(6) a_get_def)
  let ?s3 = "put i (cont j s2) s2"
  have s3: "inv ?s3" "abs ?s3 = a_put a (cur (abs s) b) (abs s2)" "own ?s3 a i" "own ?s3 b j" "rest ?s3 = rest s"
    using put_ok [OF g(3,4) c(2)] g c(1) by auto
  obtain s4 where s4: "wr i ?s3 = Some s4" "inv s4" "abs s4 = a_write a (abs ?s3)" "own s4 a i" "own s4 b j" "rest s4 = rest s"
    using wr_ok [OF s3(1,3)] s3 by auto
  have cb: "cur (abs s) b = dsk (abs s) b" if "ref (abs s) b = 0" using clean [OF assms(1) that] .
  obtain s5 s6 where s6: "rel j s4 = Some s5" "rel i s5 = Some s6" "inv s6" "rest s6 = rest s"
    "abs s6 = a_rel a (a_rel b (abs s4))"
    using rel_two [OF s4(2,5,4) assms(4) [symmetric]] cb s4 assms(4)
    by (auto simp: s3(2) g(6) a_get_def a_put_def a_write_def)
  have "abs s6 = (abs s)\<lparr>cur := (cur (abs s))(a := cur (abs s) b), dsk := (dsk (abs s))(a := cur (abs s) b),
      tr := tr (abs s) @ [(a, cur (abs s) b)]\<rparr>"
    using assms(2,3,4,5)
    by (intro cache_abs.equality) (auto simp: s6(5) s4(3) s3(2) g(6) a_get_def a_put_def a_write_def a_rel_def
        ready_def fun_eq_iff)
  then show ?thesis using g s4 s6 by (auto simp: copy_first_def)
qed

lemma copy_second_ok:
  assumes "inv s" "ready s a" "ready s b" "a \<noteq> b" "2 \<le> room (abs s)" and "keep \<or> 1 \<le> ref (abs s) b"
  shows "\<exists>s'. copy_second keep a b s = Some s' \<and> inv s' \<and> rest s' = rest s \<and>
    abs s' = (abs s)\<lparr>cur := (cur (abs s))(b := cur (abs s) a), dsk := (dsk (abs s))(b := cur (abs s) a),
      tr := tr (abs s) @ [(b, cur (abs s) a)],
      ref := (ref (abs s))(b := ref (abs s) b - (if keep then 0 else 1)),
      room := room (abs s) + (if keep \<or> ref (abs s) b \<noteq> 1 then 0 else 1)\<rparr>"
proof -
  obtain i s1 j s2 where g: "rd a s = Some (i, s1)" "rd b s1 = Some (j, s2)" "inv s2" "own s2 a i" "own s2 b j"
    "abs s2 = a_get b (a_get a (abs s))" "rest s2 = rest s"
    using get_two [OF assms(1-5)] by metis
  have c: "cont i s2 = cur (abs s) a" "length (cont i s2) = BSIZE"
    using cont_ok [OF g(3,4)] by (auto simp: g(6) a_get_def)
  let ?s3 = "put j (cont i s2) s2"
  have s3: "inv ?s3" "abs ?s3 = a_put b (cur (abs s) a) (abs s2)" "own ?s3 a i" "own ?s3 b j" "rest ?s3 = rest s"
    using put_ok [OF g(3,5) c(2)] g c(1) by auto
  obtain s4 where s4: "wr j ?s3 = Some s4" "inv s4" "abs s4 = a_write b (abs ?s3)" "own s4 a i" "own s4 b j" "rest s4 = rest s"
    using wr_ok [OF s3(1,4)] s3 by auto
  let ?s5 = "if keep then s4 else unpin j s4"
  have "2 \<le> ref (abs s4) b" if "\<not> keep"
    using that assms(6,4) by (simp add: s4(3) s3(2) g(6) a_get_def a_put_def a_write_def)
  then have s5: "inv ?s5" "abs ?s5 = (if keep then abs s4 else a_unpin b (abs s4))" "own ?s5 a i" "own ?s5 b j"
    "rest ?s5 = rest s"
    using unpin_ok [OF s4(2,5)] s4 by auto
  have ca: "cur (abs s) a = dsk (abs s) a" if "ref (abs s) a = 0" using clean [OF assms(1) that] .
  have pre: "ref (abs ?s5) a = 1 \<Longrightarrow> cur (abs ?s5) a = dsk (abs ?s5) a"
    "ref (abs ?s5) b = 1 \<Longrightarrow> cur (abs ?s5) b = dsk (abs ?s5) b"
    using ca assms(4)
    by (auto simp: s5(2) s4(3) s3(2) g(6) a_get_def a_put_def a_write_def a_unpin_def split: if_splits)
  obtain s6 s7 where s7: "rel i ?s5 = Some s6" "rel j s6 = Some s7" "inv s7" "rest s7 = rest s"
    "abs s7 = a_rel b (a_rel a (abs ?s5))"
    using rel_two [OF s5(1,3,4) assms(4) pre] s5(5) by auto
  have "abs s7 = (abs s)\<lparr>cur := (cur (abs s))(b := cur (abs s) a), dsk := (dsk (abs s))(b := cur (abs s) a),
      tr := tr (abs s) @ [(b, cur (abs s) a)],
      ref := (ref (abs s))(b := ref (abs s) b - (if keep then 0 else 1)),
      room := room (abs s) + (if keep \<or> ref (abs s) b \<noteq> 1 then 0 else 1)\<rparr>"
    using assms(2-6)
    by (intro cache_abs.equality) (auto simp: s7(5) s5(2) s4(3) s3(2) g(6) a_get_def a_put_def a_write_def a_rel_def
        a_unpin_def ready_def fun_eq_iff)
  then show ?thesis using g s4 s7 by (auto simp: copy_second_def)
qed

end

definition cache_abs :: "'a bio_state_scheme \<Rightarrow> cache_abs" where
  "cache_abs s = \<lparr>cur = view s, dsk = platter s, ref = pins s, lck = held s, room = nfree s, tr = wtrace s\<rparr>"

lemma unpinned_clean:
  assumes "cache_inv s" and "pins s b = 0"
  shows "view s b = platter s b"
proof (cases "bufidx s b")
  case None
  then show ?thesis by (simp add: view_def)
next
  case (Some i)
  then have h: "holds s b i" using bufidx_iff [OF assms(1)] by simp
  note i = view_held_facts [OF assms(1) h]
  then have "b_refcnt (bufs s ! i) = 0" using assms(2) by (simp add: unsigned_eq_0_iff)
  moreover have "bufs s ! i \<in> set (bufs s)" using i(4) by simp
  ultimately show ?thesis using i assms(1) unfolding cache_inv_def by auto
qed

interpretation bc: block_cache cache_inv cache_abs held_buf bio_state.more "bread ROOTDEV" bwrite brelse
  set_data "\<lambda>i s. get_data i s" bpin bunpin
proof
  fix s :: "'a bio_state_scheme" and b i d
  note a = cache_abs_def
  show "cache_inv s \<Longrightarrow> \<not> lck (cache_abs s) b \<Longrightarrow> 0 < ref (cache_abs s) b \<or> 0 < room (cache_abs s) \<Longrightarrow>
      ref (cache_abs s) b < max_ref \<Longrightarrow>
      \<exists>i s'. bread ROOTDEV b s = Some (i, s') \<and> cache_inv s' \<and> cache_abs s' = a_get b (cache_abs s) \<and> held_buf s' b i \<and>
        (\<forall>c j. c \<noteq> b \<longrightarrow> held_buf s' c j = held_buf s c j) \<and> bio_state.more s' = bio_state.more s"
    by (rule bread_law [of s b]) (auto simp: a a_get_def max_ref_def)
  show "cache_inv s \<Longrightarrow> held_buf s b i \<Longrightarrow>
      get_data i s = cur (cache_abs s) b \<and> length (get_data i s) = BSIZE \<and> 0 < ref (cache_abs s) b"
    using held_buf_view [of s b i] view_held_facts(5) [of s b i] by (simp add: a held_buf_def)
  show "cache_inv s \<Longrightarrow> held_buf s b i \<Longrightarrow> length d = BSIZE \<Longrightarrow>
      cache_inv (set_data i d s) \<and> cache_abs (set_data i d s) = a_put b d (cache_abs s) \<and>
      (\<forall>c j. held_buf (set_data i d s) c j = held_buf s c j) \<and> bio_state.more (set_data i d s) = bio_state.more s"
    using set_data_law [of s b i d] by (simp add: a a_put_def set_data_def)
  show "cache_inv s \<Longrightarrow> held_buf s b i \<Longrightarrow>
      \<exists>s'. bwrite i s = Some s' \<and> cache_inv s' \<and> cache_abs s' = a_write b (cache_abs s) \<and>
        (\<forall>c j. held_buf s' c j = held_buf s c j) \<and> bio_state.more s' = bio_state.more s"
    by (rule bwrite_law [of s b i]) (auto simp: a a_write_def)
  show "cache_inv s \<Longrightarrow> held_buf s b i \<Longrightarrow> (ref (cache_abs s) b = 1 \<longrightarrow> cur (cache_abs s) b = dsk (cache_abs s) b) \<Longrightarrow>
      \<exists>s'. brelse i s = Some s' \<and> cache_inv s' \<and> cache_abs s' = a_rel b (cache_abs s) \<and>
        (\<forall>c j. c \<noteq> b \<longrightarrow> held_buf s' c j = held_buf s c j) \<and> bio_state.more s' = bio_state.more s"
    by (rule brelse_law [of s b i]) (auto simp: a a_rel_def)
  show "cache_inv s \<Longrightarrow> held_buf s b i \<Longrightarrow> ref (cache_abs s) b < max_ref \<Longrightarrow>
      cache_inv (bpin i s) \<and> cache_abs (bpin i s) = a_pin b (cache_abs s) \<and>
      (\<forall>c j. held_buf (bpin i s) c j = held_buf s c j) \<and> bio_state.more (bpin i s) = bio_state.more s"
    using bpin_law [of s b i] by (simp add: a a_pin_def max_ref_def bpin_def)
  show "cache_inv s \<Longrightarrow> held_buf s b i \<Longrightarrow> 2 \<le> ref (cache_abs s) b \<Longrightarrow>
      cache_inv (bunpin i s) \<and> cache_abs (bunpin i s) = a_unpin b (cache_abs s) \<and>
      (\<forall>c j. held_buf (bunpin i s) c j = held_buf s c j) \<and> bio_state.more (bunpin i s) = bio_state.more s"
    using bunpin_law [of s b i] by (simp add: a a_unpin_def bunpin_def)
  show "cache_inv s \<Longrightarrow> ref (cache_abs s) b = 0 \<Longrightarrow> cur (cache_abs s) b = dsk (cache_abs s) b"
    using unpinned_clean [of s b] by (simp add: a)
qed

end
