(* ===== verification/Disk_Layout.thy ===== *)
theory Disk_Layout
  imports Bio
begin

text \<open>
  Integers inside a disk block and the on-disk structures of kernel/fs.h: 16- and 32-bit
  little-endian fields of a block, the super block, and the block-number macros.
\<close>

section \<open>Little-endian fields of a block\<close>

definition get16 :: "block \<Rightarrow> nat \<Rightarrow> u16" where
  "get16 d o1 = ucast (d ! o1) OR push_bit 8 (ucast (d ! (o1 + 1)))"

definition put16 :: "block \<Rightarrow> nat \<Rightarrow> u16 \<Rightarrow> block" where
  "put16 d o1 v = d[o1 := ucast v, o1 + 1 := ucast (drop_bit 8 v)]"

definition get32 :: "block \<Rightarrow> nat \<Rightarrow> u32" where
  "get32 d o1 = ucast (d ! o1) OR push_bit 8 (ucast (d ! (o1 + 1)))
     OR push_bit 16 (ucast (d ! (o1 + 2))) OR push_bit 24 (ucast (d ! (o1 + 3)))"

definition put32 :: "block \<Rightarrow> nat \<Rightarrow> u32 \<Rightarrow> block" where
  "put32 d o1 v = d[o1 := ucast v, o1 + 1 := ucast (drop_bit 8 v),
     o1 + 2 := ucast (drop_bit 16 v), o1 + 3 := ucast (drop_bit 24 v)]"

lemma length_put16 [simp]: "length (put16 d i v) = length d"
  by (simp add: put16_def)

lemma length_put32 [simp]: "length (put32 d i v) = length d"
  by (simp add: put32_def)

lemma word32_bytes:
  "(ucast (ucast v :: u8) OR push_bit 8 (ucast (ucast (drop_bit 8 v) :: u8))
     OR push_bit 16 (ucast (ucast (drop_bit 16 v) :: u8)) OR push_bit 24 (ucast (ucast (drop_bit 24 v) :: u8)) :: u32) = v"
proof (rule bit_eqI)
  fix n assume "possible_bit TYPE(u32) n"
  then have "n < 32" by simp
  then consider "n < 8" | m where "n = m + 8" "m < 8" | m where "n = m + 16" "m < 8" | m where "n = m + 24" "m < 8"
    by (cases "n < 8"; cases "n < 16"; cases "n < 24")
      (auto dest: meta_spec [of _ "n - 8"] meta_spec [of _ "n - 16"] meta_spec [of _ "n - 24"])
  then show "bit (ucast (ucast v :: u8) OR push_bit 8 (ucast (ucast (drop_bit 8 v) :: u8))
     OR push_bit 16 (ucast (ucast (drop_bit 16 v) :: u8)) OR push_bit 24 (ucast (ucast (drop_bit 24 v) :: u8)) :: u32) n
     = bit v n"
    by cases (simp_all add: bit_simps add.commute)
qed

lemma get32_put32 [simp]: "i + 3 < length d \<Longrightarrow> get32 (put32 d i v) i = v"
  unfolding get32_def put32_def by (simp add: word32_bytes)

lemma get32_put32_other [simp]:
  "i + 3 < j \<or> j + 3 < i \<Longrightarrow> get32 (put32 d i v) j = get32 d j"
  unfolding get32_def put32_def by auto

lemma get16_put16 [simp]: "i + 1 < length d \<Longrightarrow> get16 (put16 d i v) i = v"
  unfolding get16_def put16_def
  by (rule bit_eqI) (auto simp: bit_simps nth_list_update)

lemma get16_put16_other [simp]:
  "i + 1 < j \<or> j + 1 < i \<Longrightarrow> get16 (put16 d i v) j = get16 d j"
  unfolding get16_def put16_def by auto

lemma get16_put32_other [simp]:
  "i + 3 < j \<or> j + 1 < i \<Longrightarrow> get16 (put32 d i v) j = get16 d j"
  unfolding get16_def put32_def by auto

lemma get32_put16_other [simp]:
  "i + 1 < j \<or> j + 3 < i \<Longrightarrow> get32 (put16 d i v) j = get32 d j"
  unfolding get32_def put16_def by auto

section \<open>The super block and the layout macros\<close>

record superblock =
  magic :: u32
  sb_size :: u32
  nblocks :: u32
  ninodes :: u32
  nlog :: u32
  logstart :: u32
  inodestart :: u32
  bmapstart :: u32
  nswap :: u32
  swapstart :: u32

definition read_superblock :: "block \<Rightarrow> superblock" where
  "read_superblock d = \<lparr>magic = get32 d 0, sb_size = get32 d 4, nblocks = get32 d 8, ninodes = get32 d 12,
     nlog = get32 d 16, logstart = get32 d 20, inodestart = get32 d 24, bmapstart = get32 d 28,
     nswap = get32 d 32, swapstart = get32 d 36\<rparr>"

definition FSMAGIC :: u32 where "FSMAGIC = 0x10203040"
definition NDIRECT :: nat where "NDIRECT = 12"
definition NINDIRECT :: nat where "NINDIRECT = BSIZE div 4"
definition MAXFILE :: nat where "MAXFILE = NDIRECT + NINDIRECT"
definition BPB :: u32 where "BPB = of_nat (BSIZE * 8)"

text \<open>\<open>sizeof(struct dinode)\<close> is 64: four shorts, the size and thirteen addresses.\<close>

definition DINODE_SIZE :: nat where "DINODE_SIZE = 64"
definition IPB :: u32 where "IPB = of_nat (BSIZE div DINODE_SIZE)"

definition IBLOCK :: "u32 \<Rightarrow> superblock \<Rightarrow> u32" where
  "IBLOCK i sb = i div IPB + inodestart sb"

definition BBLOCK :: "u32 \<Rightarrow> superblock \<Rightarrow> u32" where
  "BBLOCK b sb = b div BPB + bmapstart sb"

definition DIRSIZ :: nat where "DIRSIZ = 14"

end
