(* ===== verification/Log.thy ===== *)
theory Log
  imports Disk_Layout
begin

text \<open>
  The redo log, kernel/log.c, over the buffer cache. The bodies between \<open>acquire\<close> and
  \<open>release\<close> of \<open>log.lock\<close> are one step. \<open>begin_op\<close> is \<open>None\<close> where the caller sleeps; reads of
  \<open>log.lh.block\<close> past its \<open>LOGSIZE\<close> elements are \<open>None\<close> too.
\<close>

section \<open>State and operations\<close>

definition MAXOPBLOCKS :: nat where "MAXOPBLOCKS = 10"
definition LOGSIZE :: nat where "LOGSIZE = MAXOPBLOCKS * 3"

record log_state = bio_state +
  log_start :: u32
  log_size :: int
  outstanding :: int
  committing :: bool
  log_dev :: u32
  lh_n :: int
  lh_block :: "u32 list"

text \<open>The header block: word 0 is the count, the words after it are the block numbers.\<close>

primrec read_blocks :: "block \<Rightarrow> nat \<Rightarrow> nat \<Rightarrow> u32 list \<Rightarrow> u32 list option" where
  "read_blocks d i 0 bs = Some bs"
| "read_blocks d i (Suc n) bs =
     (if i < length bs then read_blocks d (Suc i) n (bs[i := get32 d (4 * (i + 1))]) else None)"

definition read_head :: "'a log_state_scheme \<Rightarrow> 'a log_state_scheme option" where
  "read_head s = do {
     (buf, s1) \<leftarrow> bread (log_dev s) (log_start s) s;
     let n = sint (get32 (get_data buf s1) 0);
     bs \<leftarrow> read_blocks (get_data buf s1) 0 (nat n) (lh_block s1);
     brelse buf (s1\<lparr>lh_n := n, lh_block := bs\<rparr>) }"

primrec write_blocks :: "u32 list \<Rightarrow> nat \<Rightarrow> nat \<Rightarrow> block \<Rightarrow> block option" where
  "write_blocks bs i 0 d = Some d"
| "write_blocks bs i (Suc n) d =
     (if i < length bs then write_blocks bs (Suc i) n (put32 d (4 * (i + 1)) (bs ! i)) else None)"

definition write_head :: "'a log_state_scheme \<Rightarrow> 'a log_state_scheme option" where
  "write_head s = do {
     (buf, s1) \<leftarrow> bread (log_dev s) (log_start s) s;
     d \<leftarrow> write_blocks (lh_block s1) 0 (nat (lh_n s1)) (put32 (get_data buf s1) 0 (word_of_int (lh_n s1)));
     s2 \<leftarrow> bwrite buf (set_data buf d s1);
     brelse buf s2 }"

text \<open>One round of \<open>install_trans\<close> and of \<open>write_log\<close>, for the log slot \<open>tail\<close>.\<close>

definition install_one :: "bool \<Rightarrow> nat \<Rightarrow> 'a log_state_scheme \<Rightarrow> 'a log_state_scheme option" where
  "install_one recovering tail s =
     (if tail < length (lh_block s) then do {
        (lbuf, s1) \<leftarrow> bread (log_dev s) (log_start s + of_nat tail + 1) s;
        (dbuf, s2) \<leftarrow> bread (log_dev s1) (lh_block s1 ! tail) s1;
        s3 \<leftarrow> bwrite dbuf (set_data dbuf (get_data lbuf s2) s2);
        let s4 = (if recovering then s3 else bunpin dbuf s3);
        s5 \<leftarrow> brelse lbuf s4;
        brelse dbuf s5 }
      else None)"

definition write_one :: "nat \<Rightarrow> 'a log_state_scheme \<Rightarrow> 'a log_state_scheme option" where
  "write_one tail s =
     (if tail < length (lh_block s) then do {
        (to, s1) \<leftarrow> bread (log_dev s) (log_start s + of_nat tail + 1) s;
        (from, s2) \<leftarrow> bread (log_dev s1) (lh_block s1 ! tail) s1;
        s3 \<leftarrow> bwrite to (set_data to (get_data from s2) s2);
        s4 \<leftarrow> brelse from s3;
        brelse to s4 }
      else None)"

text \<open>\<open>for_tails f i n\<close>: the loop body \<open>f\<close> for the \<open>n\<close> slots from \<open>i\<close> on.\<close>

primrec for_tails :: "(nat \<Rightarrow> 's \<Rightarrow> 's option) \<Rightarrow> nat \<Rightarrow> nat \<Rightarrow> 's \<Rightarrow> 's option" where
  "for_tails f i 0 s = Some s"
| "for_tails f i (Suc n) s = do { s' \<leftarrow> f i s; for_tails f (Suc i) n s' }"

definition install_trans :: "bool \<Rightarrow> 'a log_state_scheme \<Rightarrow> 'a log_state_scheme option" where
  "install_trans recovering s = for_tails (install_one recovering) 0 (nat (lh_n s)) s"

definition write_log :: "'a log_state_scheme \<Rightarrow> 'a log_state_scheme option" where
  "write_log s = for_tails write_one 0 (nat (lh_n s)) s"

definition recover_from_log :: "'a log_state_scheme \<Rightarrow> 'a log_state_scheme option" where
  "recover_from_log s = do {
     s1 \<leftarrow> read_head s;
     s2 \<leftarrow> install_trans True s1;
     write_head (s2\<lparr>lh_n := 0\<rparr>) }"

definition initlog :: "u32 \<Rightarrow> superblock \<Rightarrow> 'a log_state_scheme \<Rightarrow> 'a log_state_scheme option" where
  "initlog dev sb s =
     recover_from_log (s\<lparr>log_start := logstart sb, log_size := sint (nlog sb), log_dev := dev\<rparr>)"

definition commit :: "'a log_state_scheme \<Rightarrow> 'a log_state_scheme option" where
  "commit s =
     (if lh_n s > 0 then do {
        s1 \<leftarrow> write_log s;
        s2 \<leftarrow> write_head s1;
        s3 \<leftarrow> install_trans False s2;
        write_head (s3\<lparr>lh_n := 0\<rparr>) }
      else Some s)"

definition begin_op :: "'a log_state_scheme \<Rightarrow> 'a log_state_scheme option" where
  "begin_op s =
     (if committing s then None
      else if lh_n s + (outstanding s + 1) * int MAXOPBLOCKS > int LOGSIZE then None
      else Some (s\<lparr>outstanding := outstanding s + 1\<rparr>))"

definition end_op :: "'a log_state_scheme \<Rightarrow> 'a log_state_scheme option" where
  "end_op s =
     (let s1 = s\<lparr>outstanding := outstanding s - 1\<rparr> in
      if committing s1 then None \<comment> \<open>panic log.committing\<close>
      else if outstanding s1 = 0 then do {
        s2 \<leftarrow> commit (s1\<lparr>committing := True\<rparr>);
        Some (s2\<lparr>committing := False\<rparr>) }
      else Some s1)"

definition log_slot :: "u32 \<Rightarrow> u32 list \<Rightarrow> nat \<Rightarrow> nat" where
  "log_slot b bs n = (case first_index (\<lambda>x. x = b) (take n bs) of None \<Rightarrow> n | Some i \<Rightarrow> i)"

definition log_write :: "nat \<Rightarrow> 'a log_state_scheme \<Rightarrow> 'a log_state_scheme option" where
  "log_write buf s =
     (if lh_n s \<ge> int LOGSIZE \<or> lh_n s \<ge> log_size s - 1 then None \<comment> \<open>panic too big a transaction\<close>
      else if outstanding s < 1 then None \<comment> \<open>panic log_write outside of trans\<close>
      else let n = nat (lh_n s);
               i = log_slot (b_blockno (bufs s ! buf)) (lh_block s) n;
               s1 = s\<lparr>lh_block := (lh_block s)[i := b_blockno (bufs s ! buf)]\<rparr>
           in Some (if i = n then bpin buf s1\<lparr>lh_n := lh_n s1 + 1\<rparr> else s1))"

end
