(* ===== verification/Fs.thy ===== *)
theory Fs
  imports Log
begin

text \<open>
  The file system, kernel/fs.c: block bitmap, inode table, file contents, directories and path
  names, over the log and the buffer cache. An inode pointer is an index into \<open>itable\<close>; null
  is \<open>None\<close> in the pointer results. The bodies under \<open>itable.lock\<close> are one step. \<open>readi\<close> and
  \<open>writei\<close> take \<open>either_copyout\<close> and \<open>either_copyin\<close> (kernel/proc.c) as arguments \<open>cp\<close>, because the
  other end of the copy is user memory, a kernel buffer, or a \<open>struct dirent\<close> on the stack.
\<close>

section \<open>State\<close>

definition NINODE :: nat where "NINODE = 50"
definition ROOTINO :: u32 where "ROOTINO = 1"
definition T_DIR :: u16 where "T_DIR = 1"
definition T_FILE :: u16 where "T_FILE = 2"
definition T_DEVICE :: u16 where "T_DEVICE = 3"

record inode =
  i_dev :: u32
  i_inum :: u32
  i_ref :: int
  i_lock :: bool
  i_valid :: bool
  i_type :: u16
  i_major :: u16
  i_minor :: u16
  i_nlink :: u16
  i_size :: u32
  i_addrs :: "u32 list"

record fs_state = log_state +
  sb :: superblock
  itable :: "inode list"

definition upd_inode :: "nat \<Rightarrow> (inode \<Rightarrow> inode) \<Rightarrow> 'a fs_state_scheme \<Rightarrow> 'a fs_state_scheme" where
  "upd_inode ip f s = s\<lparr>itable := (itable s)[ip := f (itable s ! ip)]\<rparr>"

definition empty_inode :: inode where
  "empty_inode = \<lparr>i_dev = 0, i_inum = 0, i_ref = 0, i_lock = False, i_valid = False, i_type = 0,
     i_major = 0, i_minor = 0, i_nlink = 0, i_size = 0, i_addrs = replicate (NDIRECT + 1) 0\<rparr>"

definition iinit :: "'a fs_state_scheme \<Rightarrow> 'a fs_state_scheme" where
  "iinit s = s\<lparr>itable := replicate NINODE empty_inode\<rparr>"

definition readsb :: "u32 \<Rightarrow> 'a fs_state_scheme \<Rightarrow> 'a fs_state_scheme option" where
  "readsb dev s = do {
     (bp, s1) \<leftarrow> bread dev 1 s;
     brelse bp (s1\<lparr>sb := read_superblock (get_data bp s1)\<rparr>) }"

definition fsinit :: "u32 \<Rightarrow> 'a fs_state_scheme \<Rightarrow> 'a fs_state_scheme option" where
  "fsinit dev s = do {
     s1 \<leftarrow> readsb dev s;
     if magic (sb s1) \<noteq> FSMAGIC then None else initlog dev (sb s1) s1 }"

section \<open>Blocks\<close>

definition bzero :: "u32 \<Rightarrow> u32 \<Rightarrow> 'a fs_state_scheme \<Rightarrow> 'a fs_state_scheme option" where
  "bzero dev bno s = do {
     (bp, s1) \<leftarrow> bread dev bno s;
     s2 \<leftarrow> log_write bp (set_data bp (replicate BSIZE 0) s1);
     brelse bp s2 }"

definition bit_mask :: "nat \<Rightarrow> u8" where
  "bit_mask bi = push_bit (bi mod 8) 1"

text \<open>The inner loop of \<open>balloc\<close>: the first clear bit below the file system's size.\<close>

primrec scan_bits :: "block \<Rightarrow> u32 \<Rightarrow> u32 \<Rightarrow> nat \<Rightarrow> nat \<Rightarrow> nat option" where
  "scan_bits d b sz bi 0 = None"
| "scan_bits d b sz bi (Suc n) =
     (if b + of_nat bi < sz
      then (if d ! (bi div 8) AND bit_mask bi = 0 then Some bi else scan_bits d b sz (Suc bi) n)
      else None)"

text \<open>The outer loop from bitmap block \<open>i\<close> on, \<open>n\<close> blocks left.\<close>

primrec balloc_loop :: "u32 \<Rightarrow> nat \<Rightarrow> nat \<Rightarrow> 'a fs_state_scheme \<Rightarrow> (u32 \<times> 'a fs_state_scheme) option" where
  "balloc_loop dev i 0 s = Some (0, s)"
| "balloc_loop dev i (Suc n) s =
     (let b = of_nat i * BPB in do {
        (bp, s1) \<leftarrow> bread dev (BBLOCK b (sb s)) s;
        case scan_bits (get_data bp s1) b (sb_size (sb s1)) 0 (BSIZE * 8) of
          Some bi \<Rightarrow> do {
            let d = get_data bp s1;
            s2 \<leftarrow> log_write bp (set_data bp (d[bi div 8 := d ! (bi div 8) OR bit_mask bi]) s1);
            s3 \<leftarrow> brelse bp s2;
            s4 \<leftarrow> bzero dev (b + of_nat bi) s3;
            Some (b + of_nat bi, s4) }
        | None \<Rightarrow> do { s2 \<leftarrow> brelse bp s1; balloc_loop dev (Suc i) n s2 } })"

definition balloc :: "u32 \<Rightarrow> 'a fs_state_scheme \<Rightarrow> (u32 \<times> 'a fs_state_scheme) option" where
  "balloc dev s = balloc_loop dev 0 ((unat (sb_size (sb s)) + 8191) div 8192) s"

definition bfree :: "u32 \<Rightarrow> u32 \<Rightarrow> 'a fs_state_scheme \<Rightarrow> 'a fs_state_scheme option" where
  "bfree dev b s = do {
     (bp, s1) \<leftarrow> bread dev (BBLOCK b (sb s)) s;
     let bi = unat (b mod BPB); d = get_data bp s1 in
     if d ! (bi div 8) AND bit_mask bi = 0 then None \<comment> \<open>panic freeing free block\<close>
     else do {
       s2 \<leftarrow> log_write bp (set_data bp (d[bi div 8 := d ! (bi div 8) AND NOT (bit_mask bi)]) s1);
       brelse bp s2 } }"

section \<open>Inodes\<close>

text \<open>\<open>struct dinode\<close> at its offset in the inode block.\<close>

definition dinode_off :: "u32 \<Rightarrow> nat" where
  "dinode_off inum = unat (inum mod IPB) * DINODE_SIZE"

definition get_addrs :: "block \<Rightarrow> nat \<Rightarrow> u32 list" where
  "get_addrs d o1 = map (\<lambda>k. get32 d (o1 + 12 + 4 * k)) [0..<NDIRECT + 1]"

primrec put_addrs :: "block \<Rightarrow> nat \<Rightarrow> u32 list \<Rightarrow> block" where
  "put_addrs d o1 [] = d"
| "put_addrs d o1 (a # as) = put_addrs (put32 d o1 a) (o1 + 4) as"

definition put_dinode :: "block \<Rightarrow> nat \<Rightarrow> inode \<Rightarrow> block" where
  "put_dinode d o1 ip = put_addrs (put32 (put16 (put16 (put16 (put16 d o1 (i_type ip)) (o1 + 2) (i_major ip))
      (o1 + 4) (i_minor ip)) (o1 + 6) (i_nlink ip)) (o1 + 8) (i_size ip)) (o1 + 12) (i_addrs ip)"

definition get_dinode :: "block \<Rightarrow> nat \<Rightarrow> inode \<Rightarrow> inode" where
  "get_dinode d o1 ip = ip\<lparr>i_type := get16 d o1, i_major := get16 d (o1 + 2), i_minor := get16 d (o1 + 4),
     i_nlink := get16 d (o1 + 6), i_size := get32 d (o1 + 8), i_addrs := get_addrs d o1\<rparr>"

definition zero_range :: "block \<Rightarrow> nat \<Rightarrow> nat \<Rightarrow> block" where
  "zero_range d o1 n = take o1 d @ replicate n 0 @ drop (o1 + n) d"

definition iget :: "u32 \<Rightarrow> u32 \<Rightarrow> 'a fs_state_scheme \<Rightarrow> (nat \<times> 'a fs_state_scheme) option" where
  "iget dev inum s =
     (case first_index (\<lambda>ip. i_ref ip > 0 \<and> i_dev ip = dev \<and> i_inum ip = inum) (itable s) of
        Some i \<Rightarrow> Some (i, upd_inode i (\<lambda>ip. ip\<lparr>i_ref := i_ref ip + 1\<rparr>) s)
      | None \<Rightarrow>
          (case first_index (\<lambda>ip. i_ref ip = 0) (itable s) of
             None \<Rightarrow> None \<comment> \<open>panic iget: no inodes\<close>
           | Some i \<Rightarrow> Some (i, upd_inode i (\<lambda>ip. ip\<lparr>i_dev := dev, i_inum := inum, i_ref := 1, i_valid := False\<rparr>) s)))"

definition idup :: "nat \<Rightarrow> 'a fs_state_scheme \<Rightarrow> nat \<times> 'a fs_state_scheme" where
  "idup ip s = (ip, upd_inode ip (\<lambda>i. i\<lparr>i_ref := i_ref i + 1\<rparr>) s)"

primrec ialloc_loop :: "u32 \<Rightarrow> u16 \<Rightarrow> u32 \<Rightarrow> nat \<Rightarrow> 'a fs_state_scheme
    \<Rightarrow> (nat option \<times> 'a fs_state_scheme) option" where
  "ialloc_loop dev type inum 0 s = Some (None, s)"
| "ialloc_loop dev type inum (Suc n) s = do {
     (bp, s1) \<leftarrow> bread dev (IBLOCK inum (sb s)) s;
     let o1 = dinode_off inum; d = get_data bp s1 in
     if get16 d o1 = 0 then do {
       s2 \<leftarrow> log_write bp (set_data bp (put16 (zero_range d o1 DINODE_SIZE) o1 type) s1);
       s3 \<leftarrow> brelse bp s2;
       (ip, s4) \<leftarrow> iget dev inum s3;
       Some (Some ip, s4) }
     else do { s2 \<leftarrow> brelse bp s1; ialloc_loop dev type (inum + 1) n s2 } }"

definition ialloc :: "u32 \<Rightarrow> u16 \<Rightarrow> 'a fs_state_scheme \<Rightarrow> (nat option \<times> 'a fs_state_scheme) option" where
  "ialloc dev type s = ialloc_loop dev type 1 (unat (ninodes (sb s)) - 1) s"

definition iupdate :: "nat \<Rightarrow> 'a fs_state_scheme \<Rightarrow> 'a fs_state_scheme option" where
  "iupdate ip s =
     (let i = itable s ! ip in do {
        (bp, s1) \<leftarrow> bread (i_dev i) (IBLOCK (i_inum i) (sb s)) s;
        s2 \<leftarrow> log_write bp (set_data bp (put_dinode (get_data bp s1) (dinode_off (i_inum i)) i) s1);
        brelse bp s2 })"

definition ilock :: "nat \<Rightarrow> 'a fs_state_scheme \<Rightarrow> 'a fs_state_scheme option" where
  "ilock ip s =
     (if i_ref (itable s ! ip) < 1 then None
      else if i_lock (itable s ! ip) then None \<comment> \<open>acquiresleep of a lock that is held\<close>
      else let s1 = upd_inode ip (\<lambda>i. i\<lparr>i_lock := True\<rparr>) s; i = itable s1 ! ip in
        if i_valid i then Some s1
        else do {
          (bp, s2) \<leftarrow> bread (i_dev i) (IBLOCK (i_inum i) (sb s1)) s1;
          let d = get_data bp s2;
          s3 \<leftarrow> brelse bp (upd_inode ip (get_dinode d (dinode_off (i_inum i))) s2);
          let s4 = upd_inode ip (\<lambda>i. i\<lparr>i_valid := True\<rparr>) s3;
          if i_type (itable s4 ! ip) = 0 then None else Some s4 })"

definition iunlock :: "nat \<Rightarrow> 'a fs_state_scheme \<Rightarrow> 'a fs_state_scheme option" where
  "iunlock ip s =
     (if \<not> i_lock (itable s ! ip) \<or> i_ref (itable s ! ip) < 1 then None
      else Some (upd_inode ip (\<lambda>i. i\<lparr>i_lock := False\<rparr>) s))"

section \<open>Inode content\<close>

definition bmap :: "nat \<Rightarrow> u32 \<Rightarrow> 'a fs_state_scheme \<Rightarrow> (u32 \<times> 'a fs_state_scheme) option" where
  "bmap ip bn s =
     (let i = itable s ! ip in
      if unat bn < NDIRECT then
        (if i_addrs i ! unat bn = 0 then do {
           (addr, s1) \<leftarrow> balloc (i_dev i) s;
           if addr = 0 then Some (0, s1)
           else Some (addr, upd_inode ip (\<lambda>i. i\<lparr>i_addrs := (i_addrs i)[unat bn := addr]\<rparr>) s1) }
         else Some (i_addrs i ! unat bn, s))
      else let bn' = unat bn - NDIRECT in
      if bn' < NINDIRECT then do {
        (ind, s1) \<leftarrow> (if i_addrs i ! NDIRECT = 0 then do {
             (addr, s1) \<leftarrow> balloc (i_dev i) s;
             Some (addr, if addr = 0 then s1
                         else upd_inode ip (\<lambda>i. i\<lparr>i_addrs := (i_addrs i)[NDIRECT := addr]\<rparr>) s1) }
           else Some (i_addrs i ! NDIRECT, s));
        if ind = 0 then Some (0, s1)
        else do {
          (bp, s2) \<leftarrow> bread (i_dev i) ind s1;
          let a = get32 (get_data bp s2) (4 * bn');
          (addr, s3) \<leftarrow> (if a = 0 then do {
               (addr, s3) \<leftarrow> balloc (i_dev i) s2;
               if addr \<noteq> 0 then do {
                 s4 \<leftarrow> log_write bp (set_data bp (put32 (get_data bp s3) (4 * bn') addr) s3);
                 Some (addr, s4) }
               else Some (0, s3) }
             else Some (a, s2));
          s4 \<leftarrow> brelse bp s3;
          Some (addr, s4) } }
      else None)"

primrec free_direct :: "nat \<Rightarrow> nat \<Rightarrow> nat \<Rightarrow> 'a fs_state_scheme \<Rightarrow> 'a fs_state_scheme option" where
  "free_direct ip k 0 s = Some s"
| "free_direct ip k (Suc n) s =
     (let i = itable s ! ip in
      if i_addrs i ! k \<noteq> 0 then do {
        s1 \<leftarrow> bfree (i_dev i) (i_addrs i ! k) s;
        free_direct ip (Suc k) n (upd_inode ip (\<lambda>i. i\<lparr>i_addrs := (i_addrs i)[k := 0]\<rparr>) s1) }
      else free_direct ip (Suc k) n s)"

primrec free_indirect :: "u32 \<Rightarrow> nat \<Rightarrow> nat \<Rightarrow> nat \<Rightarrow> 'a fs_state_scheme \<Rightarrow> 'a fs_state_scheme option" where
  "free_indirect dev bp j 0 s = Some s"
| "free_indirect dev bp j (Suc n) s =
     (let a = get32 (get_data bp s) (4 * j) in
      if a \<noteq> 0 then do { s1 \<leftarrow> bfree dev a s; free_indirect dev bp (Suc j) n s1 }
      else free_indirect dev bp (Suc j) n s)"

definition itrunc :: "nat \<Rightarrow> 'a fs_state_scheme \<Rightarrow> 'a fs_state_scheme option" where
  "itrunc ip s = do {
     s1 \<leftarrow> free_direct ip 0 NDIRECT s;
     let i = itable s1 ! ip;
     let ind = i_addrs i ! NDIRECT;
     s2 \<leftarrow> (if ind \<noteq> 0 then do {
              (bp, s2) \<leftarrow> bread (i_dev i) ind s1;
              s3 \<leftarrow> free_indirect (i_dev i) bp 0 NINDIRECT s2;
              s4 \<leftarrow> brelse bp s3;
              s5 \<leftarrow> bfree (i_dev i) ind s4;
              Some (upd_inode ip (\<lambda>i. i\<lparr>i_addrs := (i_addrs i)[NDIRECT := 0]\<rparr>) s5) }
            else Some s1);
     iupdate ip (upd_inode ip (\<lambda>i. i\<lparr>i_size := 0\<rparr>) s2) }"

definition iput :: "nat \<Rightarrow> 'a fs_state_scheme \<Rightarrow> 'a fs_state_scheme option" where
  "iput ip s = do {
     let i = itable s ! ip;
     s1 \<leftarrow> (if i_ref i = 1 \<and> i_valid i \<and> i_nlink i = 0 then
              (if i_lock i then None
               else do {
                 s1 \<leftarrow> itrunc ip (upd_inode ip (\<lambda>i. i\<lparr>i_lock := True\<rparr>) s);
                 s2 \<leftarrow> iupdate ip (upd_inode ip (\<lambda>i. i\<lparr>i_type := 0\<rparr>) s1);
                 Some (upd_inode ip (\<lambda>i. i\<lparr>i_valid := False, i_lock := False\<rparr>) s2) })
            else Some s);
     Some (upd_inode ip (\<lambda>i. i\<lparr>i_ref := i_ref i - 1\<rparr>) s1) }"

definition iunlockput :: "nat \<Rightarrow> 'a fs_state_scheme \<Rightarrow> 'a fs_state_scheme option" where
  "iunlockput ip s = do { s1 \<leftarrow> iunlock ip s; iput ip s1 }"

record stat =
  st_dev :: u32
  st_ino :: u32
  st_type :: u16
  st_nlink :: u16
  st_size :: u64

definition stati :: "nat \<Rightarrow> 'a fs_state_scheme \<Rightarrow> stat" where
  "stati ip s = (let i = itable s ! ip in
     \<lparr>st_dev = i_dev i, st_ino = i_inum i, st_type = i_type i, st_nlink = i_nlink i, st_size = ucast (i_size i)\<rparr>)"

section \<open>Reading and writing\<close>

text \<open>
  The copy loops: \<open>n\<close> bytes from file offset \<open>off\<close> remain and \<open>tot\<close> are done. Each round moves
  the bytes up to the end of the block; \<open>cp\<close> returns -1 where the other side is not mapped.
\<close>

definition chunk_in_block :: "u32 \<Rightarrow> u32 \<Rightarrow> u32" where
  "chunk_in_block off n = (let r = of_nat BSIZE - off mod of_nat BSIZE in if n < r then n else r)"

definition slice :: "nat \<Rightarrow> nat \<Rightarrow> 'b list \<Rightarrow> 'b list" where
  "slice i n xs = take n (drop i xs)"

definition splice :: "nat \<Rightarrow> 'b list \<Rightarrow> 'b list \<Rightarrow> 'b list" where
  "splice i ys xs = take i xs @ ys @ drop (i + length ys) xs"

type_synonym 'm copy_out = "bool \<Rightarrow> u64 \<Rightarrow> block \<Rightarrow> 'm \<Rightarrow> (int \<times> 'm) option"
type_synonym 'm copy_in = "bool \<Rightarrow> u64 \<Rightarrow> nat \<Rightarrow> 'm \<Rightarrow> (int \<times> block) option"

partial_function (option) readi_loop ::
  "'m copy_out \<Rightarrow> nat \<Rightarrow> bool \<Rightarrow> u64 \<Rightarrow> u32 \<Rightarrow> u32 \<Rightarrow> u32 \<Rightarrow> 'a fs_state_scheme \<Rightarrow> 'm
     \<Rightarrow> (u32 \<times> 'a fs_state_scheme \<times> 'm) option" where
  "readi_loop cp ip user_dst dst off n tot s m =
     (if n = 0 then Some (tot, s, m)
      else do {
        (addr, s1) \<leftarrow> bmap ip (off div of_nat BSIZE) s;
        if addr = 0 then Some (tot, s1, m)
        else do {
          (bp, s2) \<leftarrow> bread (i_dev (itable s1 ! ip)) addr s1;
          let k = chunk_in_block off n;
          (r, m1) \<leftarrow> cp user_dst dst (slice (unat (off mod of_nat BSIZE)) (unat k) (get_data bp s2)) m;
          s3 \<leftarrow> brelse bp s2;
          if r = -1 then Some (-1, s3, m1)
          else readi_loop cp ip user_dst (dst + ucast k) (off + k) (n - k) (tot + k) s3 m1 } })"

definition readi ::
  "'m copy_out \<Rightarrow> nat \<Rightarrow> bool \<Rightarrow> u64 \<Rightarrow> u32 \<Rightarrow> u32 \<Rightarrow> 'a fs_state_scheme \<Rightarrow> 'm
     \<Rightarrow> (u32 \<times> 'a fs_state_scheme \<times> 'm) option" where
  "readi cp ip user_dst dst off n s m =
     (let size = i_size (itable s ! ip) in
      if off > size \<or> off + n < off then Some (0, s, m)
      else readi_loop cp ip user_dst dst off (if off + n > size then size - off else n) 0 s m)"

partial_function (option) writei_loop ::
  "'m copy_in \<Rightarrow> nat \<Rightarrow> bool \<Rightarrow> u64 \<Rightarrow> u32 \<Rightarrow> u32 \<Rightarrow> u32 \<Rightarrow> 'a fs_state_scheme \<Rightarrow> 'm
     \<Rightarrow> (u32 \<times> u32 \<times> 'a fs_state_scheme) option" where
  "writei_loop cp ip user_src src off n tot s m =
     (if n = 0 then Some (tot, off, s)
      else do {
        (addr, s1) \<leftarrow> bmap ip (off div of_nat BSIZE) s;
        if addr = 0 then Some (tot, off, s1)
        else do {
          (bp, s2) \<leftarrow> bread (i_dev (itable s1 ! ip)) addr s1;
          let k = chunk_in_block off n;
          (r, bytes) \<leftarrow> cp user_src src (unat k) m;
          let s3 = set_data bp (splice (unat (off mod of_nat BSIZE)) bytes (get_data bp s2)) s2;
          if r = -1 then do { s4 \<leftarrow> brelse bp s3; Some (tot, off, s4) }
          else do {
            s4 \<leftarrow> log_write bp s3;
            s5 \<leftarrow> brelse bp s4;
            writei_loop cp ip user_src (src + ucast k) (off + k) (n - k) (tot + k) s5 m } } })"

definition writei ::
  "'m copy_in \<Rightarrow> nat \<Rightarrow> bool \<Rightarrow> u64 \<Rightarrow> u32 \<Rightarrow> u32 \<Rightarrow> 'a fs_state_scheme \<Rightarrow> 'm
     \<Rightarrow> (u32 \<times> 'a fs_state_scheme) option" where
  "writei cp ip user_src src off n s m =
     (if off > i_size (itable s ! ip) \<or> off + n < off then Some (-1, s)
      else if off + n > of_nat (MAXFILE * BSIZE) then Some (-1, s)
      else do {
        (tot, off', s1) \<leftarrow> writei_loop cp ip user_src src off n 0 s m;
        let s2 = (if off' > i_size (itable s1 ! ip) then upd_inode ip (\<lambda>i. i\<lparr>i_size := off'\<rparr>) s1 else s1);
        s3 \<leftarrow> iupdate ip s2;
        Some (tot, s3) })"

section \<open>Directories\<close>

text \<open>A C string in a buffer is the list of its bytes; past the list's end reads give 0.\<close>

definition char_at :: "u8 list \<Rightarrow> nat \<Rightarrow> u8" where
  "char_at xs i = (if i < length xs then xs ! i else 0)"

primrec namecmp_from :: "u8 list \<Rightarrow> u8 list \<Rightarrow> nat \<Rightarrow> nat \<Rightarrow> int" where
  "namecmp_from p q i 0 = 0"
| "namecmp_from p q i (Suc n) =
     (if char_at p i \<noteq> 0 \<and> char_at p i = char_at q i then namecmp_from p q (Suc i) n
      else int (unat (char_at p i)) - int (unat (char_at q i)))"

definition namecmp :: "u8 list \<Rightarrow> u8 list \<Rightarrow> int" where
  "namecmp s t = namecmp_from s t 0 DIRSIZ"

text \<open>\<open>struct dirent\<close>: two bytes of inode number and \<open>DIRSIZ\<close> bytes of name. The stack buffer
  that \<open>readi\<close> fills is the list itself, addressed from 0.\<close>

definition DIRENT_SIZE :: nat where "DIRENT_SIZE = 16"

definition copy_local_out :: "block copy_out" where
  "copy_local_out user dst bytes buf = Some (0, splice (unat dst) bytes buf)"

definition copy_local_in :: "block copy_in" where
  "copy_local_in user src n buf = Some (0, slice (unat src) n buf)"

definition de_inum :: "block \<Rightarrow> u16" where
  "de_inum de = get16 de 0"

definition de_name :: "block \<Rightarrow> u8 list" where
  "de_name de = slice 2 DIRSIZ de"

text \<open>\<open>None\<close> for a panic; otherwise the inode and the offset of the entry, if there is one.\<close>

partial_function (option) dirlookup_loop ::
  "nat \<Rightarrow> u8 list \<Rightarrow> u32 \<Rightarrow> block \<Rightarrow> 'a fs_state_scheme \<Rightarrow> ((nat \<times> u32) option \<times> 'a fs_state_scheme) option" where
  "dirlookup_loop dp name off de s =
     (if off < i_size (itable s ! dp) then do {
        (r, s1, de1) \<leftarrow> readi copy_local_out dp False 0 off (of_nat DIRENT_SIZE) s de;
        if r \<noteq> of_nat DIRENT_SIZE then None \<comment> \<open>panic dirlookup read\<close>
        else if de_inum de1 = 0 then dirlookup_loop dp name (off + of_nat DIRENT_SIZE) de1 s1
        else if namecmp name (de_name de1) = 0 then do {
          (ip, s2) \<leftarrow> iget (i_dev (itable s1 ! dp)) (ucast (de_inum de1)) s1;
          Some (Some (ip, off), s2) }
        else dirlookup_loop dp name (off + of_nat DIRENT_SIZE) de1 s1 }
      else Some (None, s))"

definition dirlookup ::
  "nat \<Rightarrow> u8 list \<Rightarrow> 'a fs_state_scheme \<Rightarrow> ((nat \<times> u32) option \<times> 'a fs_state_scheme) option" where
  "dirlookup dp name s =
     (if i_type (itable s ! dp) \<noteq> T_DIR then None \<comment> \<open>panic dirlookup not DIR\<close>
      else dirlookup_loop dp name 0 (replicate DIRENT_SIZE 0) s)"

partial_function (option) dirlink_loop ::
  "nat \<Rightarrow> u32 \<Rightarrow> block \<Rightarrow> 'a fs_state_scheme \<Rightarrow> (u32 \<times> 'a fs_state_scheme) option" where
  "dirlink_loop dp off de s =
     (if off < i_size (itable s ! dp) then do {
        (r, s1, de1) \<leftarrow> readi copy_local_out dp False 0 off (of_nat DIRENT_SIZE) s de;
        if r \<noteq> of_nat DIRENT_SIZE then None \<comment> \<open>panic dirlink read\<close>
        else if de_inum de1 = 0 then Some (off, s1)
        else dirlink_loop dp (off + of_nat DIRENT_SIZE) de1 s1 }
      else Some (off, s))"

text \<open>\<open>strncpy\<close> into the name field: the characters before the first NUL, then zeros.\<close>

definition name_field :: "u8 list \<Rightarrow> u8 list" where
  "name_field name = (let cs = take DIRSIZ (takeWhile (\<lambda>c. c \<noteq> 0) name) in cs @ replicate (DIRSIZ - length cs) 0)"

definition dirlink ::
  "nat \<Rightarrow> u8 list \<Rightarrow> u32 \<Rightarrow> 'a fs_state_scheme \<Rightarrow> (int \<times> 'a fs_state_scheme) option" where
  "dirlink dp name inum s = do {
     (found, s1) \<leftarrow> dirlookup dp name s;
     case found of
       Some (ip, _) \<Rightarrow> do { s2 \<leftarrow> iput ip s1; Some (-1, s2) }
     | None \<Rightarrow> do {
         (off, s2) \<leftarrow> dirlink_loop dp 0 (replicate DIRENT_SIZE 0) s1;
         let de = put16 (replicate 2 0 @ name_field name) 0 (ucast inum);
         (r, s3) \<leftarrow> writei copy_local_in dp False 0 off (of_nat DIRENT_SIZE) s2 de;
         if r \<noteq> of_nat DIRENT_SIZE then Some (-1, s3) else Some (0, s3) } }"

section \<open>Paths\<close>

abbreviation slash :: u8 where "slash \<equiv> 0x2f"

text \<open>A path is the list of its bytes before the NUL. The result is the rest of the path and the
  new content of the name buffer.\<close>

definition skipelem :: "u8 list \<Rightarrow> u8 list \<Rightarrow> (u8 list \<times> u8 list) option" where
  "skipelem path name =
     (let path1 = dropWhile (\<lambda>c. c = slash) path in
      if path1 = [] then None
      else let s = takeWhile (\<lambda>c. c \<noteq> slash) path1;
               path2 = dropWhile (\<lambda>c. c \<noteq> slash) path1;
               name1 = (if length s \<ge> DIRSIZ then splice 0 (take DIRSIZ s) name
                        else (splice 0 s name)[length s := 0])
           in Some (dropWhile (\<lambda>c. c = slash) path2, name1))"

lemma skipelem_shorter:
  assumes "skipelem path name = Some (rest, name')"
  shows "length rest < length path"
proof -
  let ?p = "dropWhile (\<lambda>c. c = slash) path"
  have p: "?p \<noteq> []" "rest = dropWhile (\<lambda>c. c = slash) (dropWhile (\<lambda>c. c \<noteq> slash) ?p)"
    using assms by (auto simp: skipelem_def Let_def split: if_splits)
  then obtain c cs where c: "?p = c # cs" by (cases ?p) auto
  then have "c \<noteq> slash" using hd_dropWhile [of "\<lambda>c. c = slash" path] by auto
  then have "length (dropWhile (\<lambda>c. c \<noteq> slash) ?p) \<le> length cs" using c by (simp add: length_dropWhile_le)
  then have "length rest < length ?p"
    using p(2) c length_dropWhile_le [of "\<lambda>c. c = slash" "dropWhile (\<lambda>c. c \<noteq> slash) ?p"] by simp
  also have "\<dots> \<le> length path" by (rule length_dropWhile_le)
  finally show ?thesis .
qed

partial_function (option) namex_loop ::
  "u8 list \<Rightarrow> bool \<Rightarrow> u8 list \<Rightarrow> nat \<Rightarrow> 'a fs_state_scheme
     \<Rightarrow> (nat option \<times> u8 list \<times> 'a fs_state_scheme) option" where
  "namex_loop path nameiparent name ip s =
     (case skipelem path name of
        None \<Rightarrow> if nameiparent then do { s1 \<leftarrow> iput ip s; Some (None, name, s1) } else Some (Some ip, name, s)
      | Some (path', name') \<Rightarrow> do {
          s1 \<leftarrow> ilock ip s;
          if i_type (itable s1 ! ip) \<noteq> T_DIR then do { s2 \<leftarrow> iunlockput ip s1; Some (None, name', s2) }
          else if nameiparent \<and> path' = [] then do { s2 \<leftarrow> iunlock ip s1; Some (Some ip, name', s2) }
          else do {
            (nxt, s2) \<leftarrow> dirlookup ip name' s1;
            s3 \<leftarrow> iunlockput ip s2;
            case nxt of
              None \<Rightarrow> Some (None, name', s3)
            | Some (ip', _) \<Rightarrow> namex_loop path' nameiparent name' ip' s3 } })"

definition namex ::
  "u8 list \<Rightarrow> bool \<Rightarrow> u8 list \<Rightarrow> nat \<Rightarrow> 'a fs_state_scheme
     \<Rightarrow> (nat option \<times> u8 list \<times> 'a fs_state_scheme) option" where
  "namex path nameiparent name cwd s = do {
     (ip, s1) \<leftarrow> (if path \<noteq> [] \<and> hd path = slash then iget ROOTDEV ROOTINO s else Some (idup cwd s));
     namex_loop path nameiparent name ip s1 }"

definition namei :: "u8 list \<Rightarrow> nat \<Rightarrow> 'a fs_state_scheme \<Rightarrow> (nat option \<times> 'a fs_state_scheme) option" where
  "namei path cwd s = do {
     (ip, _, s1) \<leftarrow> namex path False (replicate DIRSIZ 0) cwd s;
     Some (ip, s1) }"

definition nameiparent ::
  "u8 list \<Rightarrow> u8 list \<Rightarrow> nat \<Rightarrow> 'a fs_state_scheme \<Rightarrow> (nat option \<times> u8 list \<times> 'a fs_state_scheme) option" where
  "nameiparent path name cwd s = namex path True name cwd s"

end
