(* ===== verification/File.thy ===== *)
theory File
  imports Proc Fs
begin

text \<open>
  Open files and pipes, kernel/file.c and kernel/pipe.c, over the process table and the file
  system. A \<open>struct file *\<close> is an index into \<open>ftable\<close>; a \<open>struct pipe *\<close> is the address of the
  page that holds it, and \<open>pipes\<close> gives the structs in such pages. A call that goes to sleep in
  the middle of its loop returns \<open>Asleep i\<close>: the process is off the CPU, \<open>i\<close> bytes are moved,
  and the loop goes on from there when the process runs again.
\<close>

section \<open>State\<close>

definition NFILE :: nat where "NFILE = 100"
definition NDEV :: int where "NDEV = 10"
definition PIPESIZE :: nat where "PIPESIZE = 512"

datatype fdtype = FD_NONE | FD_PIPE | FD_INODE | FD_DEVICE

record kfile =
  f_type :: fdtype
  f_ref :: int
  f_readable :: bool
  f_writable :: bool
  f_pipe :: u64
  f_ip :: nat
  f_off :: u32
  f_major :: int

record pipe =
  pi_data :: "u8 list"
  pi_nread :: u32
  pi_nwrite :: u32
  pi_readopen :: bool
  pi_writeopen :: bool

record kernel_state = proc_state +
  fsys :: fs_state
  ftable :: "kfile list"
  pipes :: "u64 \<Rightarrow> pipe option"
  ticks :: u32
  psa_tracker :: "bool list"

datatype outcome = Done int | Asleep nat

definition upd_file :: "nat \<Rightarrow> (kfile \<Rightarrow> kfile) \<Rightarrow> 'a kernel_state_scheme \<Rightarrow> 'a kernel_state_scheme" where
  "upd_file i f s = s\<lparr>ftable := (ftable s)[i := f (ftable s ! i)]\<rparr>"

text \<open>A file-system operation on the file-system part of the state.\<close>

definition fs_run :: "(fs_state \<Rightarrow> fs_state option) \<Rightarrow> 'a kernel_state_scheme \<Rightarrow> 'a kernel_state_scheme option" where
  "fs_run f s = do { t \<leftarrow> f (fsys s); Some (s\<lparr>fsys := t\<rparr>) }"

definition fs_get :: "(fs_state \<Rightarrow> ('r \<times> fs_state) option) \<Rightarrow> 'a kernel_state_scheme \<Rightarrow> ('r \<times> 'a kernel_state_scheme) option" where
  "fs_get f s = do { (r, t) \<leftarrow> f (fsys s); Some (r, s\<lparr>fsys := t\<rparr>) }"

section \<open>The file table\<close>

definition filealloc :: "'a kernel_state_scheme \<Rightarrow> nat option \<times> 'a kernel_state_scheme" where
  "filealloc s =
     (case first_index (\<lambda>f. f_ref f = 0) (ftable s) of
        None \<Rightarrow> (None, s)
      | Some i \<Rightarrow> (Some i, upd_file i (\<lambda>f. f\<lparr>f_ref := 1\<rparr>) s))"

definition filedup :: "nat \<Rightarrow> 'a kernel_state_scheme \<Rightarrow> 'a kernel_state_scheme option" where
  "filedup f s =
     (if f_ref (ftable s ! f) < 1 then None else Some (upd_file f (\<lambda>f. f\<lparr>f_ref := f_ref f + 1\<rparr>) s))"

definition pipeclose :: "u64 \<Rightarrow> bool \<Rightarrow> 'a kernel_state_scheme \<Rightarrow> 'a kernel_state_scheme option" where
  "pipeclose pi writable s = do {
     q \<leftarrow> pipes s pi;
     let q' = (if writable then q\<lparr>pi_writeopen := False\<rparr> else q\<lparr>pi_readopen := False\<rparr>);
     let s1 = wakeup (if writable then On_pipe_read pi else On_pipe_write pi) (s\<lparr>pipes := (pipes s)(pi := Some q')\<rparr>);
     if \<not> pi_readopen q' \<and> \<not> pi_writeopen q' then kfree pi (s1\<lparr>pipes := (pipes s1)(pi := None)\<rparr>)
     else Some s1 }"

definition fileclose :: "nat \<Rightarrow> 'a kernel_state_scheme \<Rightarrow> 'a kernel_state_scheme option" where
  "fileclose f s =
     (let ff = ftable s ! f in
      if f_ref ff < 1 then None
      else if f_ref ff - 1 > 0 then Some (upd_file f (\<lambda>f. f\<lparr>f_ref := f_ref f - 1\<rparr>) s)
      else let s1 = upd_file f (\<lambda>f. f\<lparr>f_ref := 0, f_type := FD_NONE\<rparr>) s in
        case f_type ff of
          FD_PIPE \<Rightarrow> pipeclose (f_pipe ff) (f_writable ff) s1
        | FD_NONE \<Rightarrow> Some s1
        | _ \<Rightarrow> do { s2 \<leftarrow> fs_run begin_op s1; s3 \<leftarrow> fs_run (iput (f_ip ff)) s2; fs_run end_op s3 })"

section \<open>Pipes\<close>

definition new_pipe :: pipe where
  "new_pipe = \<lparr>pi_data = replicate PIPESIZE 5, pi_nread = 0, pi_nwrite = 0, pi_readopen = True, pi_writeopen = True\<rparr>"

definition close_opt :: "nat option \<Rightarrow> 'a kernel_state_scheme \<Rightarrow> 'a kernel_state_scheme option" where
  "close_opt f s = (case f of None \<Rightarrow> Some s | Some i \<Rightarrow> fileclose i s)"

definition pipealloc :: "'a kernel_state_scheme \<Rightarrow> ((nat \<times> nat) option \<times> 'a kernel_state_scheme) option" where
  "pipealloc s =
     (case filealloc s of (f0, s1) \<Rightarrow>
      case (if f0 = None then (None, s1) else filealloc s1) of (f1, s2) \<Rightarrow>
      case (if f1 = None then (0, s2) else kalloc s2) of (pi, s3) \<Rightarrow>
      case (f0, f1) of
        (Some i, Some j) \<Rightarrow>
          if pi = 0 then do { s4 \<leftarrow> fileclose i s3; s5 \<leftarrow> fileclose j s4; Some (None, s5) }
          else Some (Some (i, j),
            upd_file j (\<lambda>f. f\<lparr>f_type := FD_PIPE, f_readable := False, f_writable := True, f_pipe := pi\<rparr>)
              (upd_file i (\<lambda>f. f\<lparr>f_type := FD_PIPE, f_readable := True, f_writable := False, f_pipe := pi\<rparr>)
                (s3\<lparr>pipes := (pipes s3)(pi := Some new_pipe)\<rparr>)))
      | _ \<Rightarrow> do { s4 \<leftarrow> close_opt f0 s3; s5 \<leftarrow> close_opt f1 s4; Some (None, s5) })"

text \<open>One byte into the ring and one byte out of it.\<close>

definition pipe_put :: "u8 \<Rightarrow> pipe \<Rightarrow> pipe" where
  "pipe_put ch q = q\<lparr>pi_data := (pi_data q)[unat (pi_nwrite q) mod PIPESIZE := ch], pi_nwrite := pi_nwrite q + 1\<rparr>"

definition pipe_get :: "pipe \<Rightarrow> u8 \<times> pipe" where
  "pipe_get q = (pi_data q ! (unat (pi_nread q) mod PIPESIZE), q\<lparr>pi_nread := pi_nread q + 1\<rparr>)"

definition set_pipe :: "u64 \<Rightarrow> pipe \<Rightarrow> 'a kernel_state_scheme \<Rightarrow> 'a kernel_state_scheme" where
  "set_pipe pi q s = s\<lparr>pipes := (pipes s)(pi := Some q)\<rparr>"

text \<open>The loop of \<open>pipewrite\<close> with \<open>i\<close> bytes written and \<open>k\<close> to go, \<open>n = i + k\<close>.\<close>

primrec pipewrite_loop :: "u64 \<Rightarrow> u64 \<Rightarrow> nat \<Rightarrow> nat \<Rightarrow> 'a kernel_state_scheme \<Rightarrow> (outcome \<times> 'a kernel_state_scheme) option" where
  "pipewrite_loop pi addr i 0 s = Some (Done (int i), wakeup (On_pipe_read pi) s)"
| "pipewrite_loop pi addr i (Suc k) s = do {
     q \<leftarrow> pipes s pi;
     p \<leftarrow> myproc s;
     if \<not> pi_readopen q \<or> killed p s \<noteq> 0 then Some (Done (-1), s)
     else if pi_nwrite q = pi_nread q + of_nat PIPESIZE then do {
       s1 \<leftarrow> sleep (On_pipe_write pi) (wakeup (On_pipe_read pi) s);
       Some (Asleep i, s1) }
     else case copyin_bytes (p_pagetable (procs s ! p)) (addr + of_nat i) 1 s of (r, bs) \<Rightarrow>
       if r = -1 then Some (Done (int i), wakeup (On_pipe_read pi) s)
       else pipewrite_loop pi addr (Suc i) k (set_pipe pi (pipe_put (hd bs) q) s) }"

definition pipewrite :: "u64 \<Rightarrow> u64 \<Rightarrow> int \<Rightarrow> 'a kernel_state_scheme \<Rightarrow> (outcome \<times> 'a kernel_state_scheme) option" where
  "pipewrite pi addr n s = pipewrite_loop pi addr 0 (nat n) s"

primrec piperead_loop :: "u64 \<Rightarrow> u64 \<Rightarrow> nat \<Rightarrow> nat \<Rightarrow> 'a kernel_state_scheme \<Rightarrow> (outcome \<times> 'a kernel_state_scheme) option" where
  "piperead_loop pi addr i 0 s = Some (Done (int i), wakeup (On_pipe_write pi) s)"
| "piperead_loop pi addr i (Suc k) s = do {
     q \<leftarrow> pipes s pi;
     p \<leftarrow> myproc s;
     if pi_nread q = pi_nwrite q then Some (Done (int i), wakeup (On_pipe_write pi) s)
     else case pipe_get q of (ch, q') \<Rightarrow>
       case copyout_bytes (p_pagetable (procs s ! p)) (addr + of_nat i) [ch] (set_pipe pi q' s) of (r, s1) \<Rightarrow>
         if r = -1 then Some (Done (int i), wakeup (On_pipe_write pi) s1)
         else piperead_loop pi addr (Suc i) k s1 }"

definition piperead :: "u64 \<Rightarrow> u64 \<Rightarrow> int \<Rightarrow> 'a kernel_state_scheme \<Rightarrow> (outcome \<times> 'a kernel_state_scheme) option" where
  "piperead pi addr n s = do {
     q \<leftarrow> pipes s pi;
     p \<leftarrow> myproc s;
     if pi_nread q = pi_nwrite q \<and> pi_writeopen q then
       (if killed p s \<noteq> 0 then Some (Done (-1), s)
        else do { s1 \<leftarrow> sleep (On_pipe_read pi) s; Some (Asleep 0, s1) })
     else piperead_loop pi addr 0 (nat n) s }"

section \<open>Reading and writing files\<close>

definition le_bytes :: "nat \<Rightarrow> nat \<Rightarrow> u8 list" where
  "le_bytes n v = map (\<lambda>i. of_nat (v div 256 ^ i)) [0..<n]"

text \<open>\<open>struct stat\<close> in memory; the four bytes before \<open>size\<close> are padding.\<close>

definition stat_bytes :: "stat \<Rightarrow> u8 list" where
  "stat_bytes st = le_bytes 4 (unat (st_dev st)) @ le_bytes 4 (unat (st_ino st)) @ le_bytes 2 (unat (st_type st)) @
     le_bytes 2 (unat (st_nlink st)) @ replicate 4 0 @ le_bytes 8 (unat (st_size st))"

definition filestat :: "nat \<Rightarrow> u64 \<Rightarrow> 'a kernel_state_scheme \<Rightarrow> (int \<times> 'a kernel_state_scheme) option" where
  "filestat f addr s = do {
     p \<leftarrow> myproc s;
     let ff = ftable s ! f;
     if f_type ff = FD_INODE \<or> f_type ff = FD_DEVICE then do {
       s1 \<leftarrow> fs_run (ilock (f_ip ff)) s;
       let st = stati (f_ip ff) (fsys s1);
       s2 \<leftarrow> fs_run (iunlock (f_ip ff)) s1;
       case copyout_bytes (p_pagetable (procs s2 ! p)) addr (stat_bytes st) s2 of (r, s3) \<Rightarrow>
         Some (if r < 0 then -1 else 0, s3) }
     else Some (-1, s) }"

text \<open>
  \<open>dev\<close> is \<open>devsw\<close>: the read or write function of a device, where there is one.
\<close>

type_synonym 's dev_op = "int \<Rightarrow> (bool \<Rightarrow> u64 \<Rightarrow> int \<Rightarrow> 's \<Rightarrow> (outcome \<times> 's) option) option"

definition fileread ::
  "'a kernel_state_scheme dev_op \<Rightarrow> nat \<Rightarrow> u64 \<Rightarrow> int \<Rightarrow> 'a kernel_state_scheme \<Rightarrow> (outcome \<times> 'a kernel_state_scheme) option" where
  "fileread dev f addr n s =
     (let ff = ftable s ! f in
      if \<not> f_readable ff then Some (Done (-1), s)
      else case f_type ff of
        FD_PIPE \<Rightarrow> piperead (f_pipe ff) addr n s
      | FD_DEVICE \<Rightarrow>
          (if f_major ff < 0 \<or> f_major ff \<ge> NDEV then Some (Done (-1), s)
           else case dev (f_major ff) of None \<Rightarrow> Some (Done (-1), s) | Some op \<Rightarrow> op True addr n s)
      | FD_INODE \<Rightarrow> do {
          s1 \<leftarrow> fs_run (ilock (f_ip ff)) s;
          (r, fs, s2) \<leftarrow> readi either_copyout (f_ip ff) True addr (f_off ff) (word_of_int n) (fsys s1) s1;
          let s3 = s2\<lparr>fsys := fs\<rparr>;
          let s4 = (if sint r > 0 then upd_file f (\<lambda>f. f\<lparr>f_off := f_off f + r\<rparr>) s3 else s3);
          s5 \<leftarrow> fs_run (iunlock (f_ip ff)) s4;
          Some (Done (sint r), s5) }
      | FD_NONE \<Rightarrow> None)"

definition write_max :: int where
  "write_max = (int MAXOPBLOCKS - 1 - 1 - 2) div 2 * int BSIZE"

partial_function (option) filewrite_loop ::
  "nat \<Rightarrow> u64 \<Rightarrow> int \<Rightarrow> int \<Rightarrow> 'a kernel_state_scheme \<Rightarrow> (int \<times> 'a kernel_state_scheme) option" where
  "filewrite_loop f addr i n s =
     (if i < n then do {
        let n1 = (if n - i > write_max then write_max else n - i);
        let ip = f_ip (ftable s ! f);
        s1 \<leftarrow> fs_run begin_op s;
        s2 \<leftarrow> fs_run (ilock ip) s1;
        (r, fs) \<leftarrow> writei either_copyin ip True (addr + word_of_int i) (f_off (ftable s2 ! f)) (word_of_int n1) (fsys s2) s2;
        let s3 = s2\<lparr>fsys := fs\<rparr>;
        let s4 = (if sint r > 0 then upd_file f (\<lambda>f. f\<lparr>f_off := f_off f + r\<rparr>) s3 else s3);
        s5 \<leftarrow> fs_run (iunlock ip) s4;
        s6 \<leftarrow> fs_run end_op s5;
        if sint r \<noteq> n1 then Some (i, s6) else filewrite_loop f addr (i + sint r) n s6 }
      else Some (i, s))"

definition filewrite ::
  "'a kernel_state_scheme dev_op \<Rightarrow> nat \<Rightarrow> u64 \<Rightarrow> int \<Rightarrow> 'a kernel_state_scheme \<Rightarrow> (outcome \<times> 'a kernel_state_scheme) option" where
  "filewrite dev f addr n s =
     (let ff = ftable s ! f in
      if \<not> f_writable ff then Some (Done (-1), s)
      else case f_type ff of
        FD_PIPE \<Rightarrow> pipewrite (f_pipe ff) addr n s
      | FD_DEVICE \<Rightarrow>
          (if f_major ff < 0 \<or> f_major ff \<ge> NDEV then Some (Done (-1), s)
           else case dev (f_major ff) of None \<Rightarrow> Some (Done (-1), s) | Some op \<Rightarrow> op True addr n s)
      | FD_INODE \<Rightarrow> do {
          (i, s1) \<leftarrow> filewrite_loop f addr 0 n s;
          Some (Done (if i = n then n else -1), s1) }
      | FD_NONE \<Rightarrow> None)"

end
