(* ===== verification/Cow.thy ===== *)
theory Cow
  imports Vm
begin

text \<open>
  Copy-on-write fork of kernel/cow.c: \<open>uvmcopy_cow\<close> shares the pages of the parent read-only
  with the child, \<open>copy_on_write\<close> gives the faulting process a page of its own. The page table
  and the value of the \<open>stval\<close> register of the running process are arguments.
\<close>

partial_function (option) uvmcopy_cow_loop ::
  "u64 \<Rightarrow> u64 \<Rightarrow> u64 \<Rightarrow> u64 \<Rightarrow> 'a cow_state_scheme \<Rightarrow> (int \<times> 'a cow_state_scheme) option" where
  "uvmcopy_cow_loop old new i sz s =
     (if i < sz then do {
        (pte, _) \<leftarrow> walk old i False s;
        if pte = 0 then None \<comment> \<open>panic uvmcopy: pte should exist\<close>
        else let e = load64 (mem s) pte in
          if e AND PTE_V = 0 then uvmcopy_cow_loop old new (i + PGSIZE) sz s
          else do {
            (r, s1) \<leftarrow> mappages new i PGSIZE (PTE2PA e) (PTE_FLAGS e AND NOT PTE_W) s;
            if r \<noteq> 0 then do {
              s2 \<leftarrow> uvmunmap new 0 (i div PGSIZE) True s1; Some (-1, s2) }
            else let s2 = s1\<lparr>mem := store64 (mem s1) pte (load64 (mem s1) pte AND NOT PTE_W)\<rparr> in do {
              gs \<leftarrow> add_shmem (my_group s2) (PTE2PA e) (cow_groups s2);
              uvmcopy_cow_loop old new (i + PGSIZE) sz (s2\<lparr>cow_groups := gs\<rparr>) } } }
      else Some (0, s))"

definition uvmcopy_cow ::
  "u64 \<Rightarrow> u64 \<Rightarrow> u64 \<Rightarrow> 'a cow_state_scheme \<Rightarrow> (int \<times> 'a cow_state_scheme) option" where
  "uvmcopy_cow old new sz s = uvmcopy_cow_loop old new 0 sz s"

definition copy_on_write :: "u64 \<Rightarrow> u64 \<Rightarrow> 'a cow_state_scheme \<Rightarrow> 'a cow_state_scheme option" where
  "copy_on_write pagetable stval s =
     (let faulting_addr = stval AND NOT (PGSIZE - 1) in
      case kalloc s of (kernel_page, s1) \<Rightarrow>
        if kernel_page = 0 then None \<comment> \<open>panic\<close>
        else case copyin pagetable kernel_page faulting_addr PGSIZE s1 of (r, s2) \<Rightarrow>
          if r \<noteq> 0 then None \<comment> \<open>panic\<close>
          else do {
            s3 \<leftarrow> uvmunmap pagetable faulting_addr 1 False s2;
            (_, s4) \<leftarrow> uvmalloc pagetable faulting_addr (faulting_addr + PGSIZE) PTE_W s3;
            case copyout pagetable faulting_addr kernel_page PGSIZE s4 of (r, s5) \<Rightarrow>
              if r \<noteq> 0 then None \<comment> \<open>panic\<close>
              else kfree kernel_page s5 })"

end
