(* ===== verification/Process.thy ===== *)
theory Process
  imports File Cow
begin

text \<open>
  Creating and ending processes, the rest of kernel/proc.c: \<open>userinit\<close>, \<open>fork\<close> with its
  copy-on-write variant, \<open>exit\<close> and \<open>wait\<close>. They join the process table, user memory, the open
  files and the file system.
\<close>

section \<open>The page save area, reset by every exit\<close>

definition PSASIZE :: nat where "PSASIZE = 4000"
definition PSASTART :: nat where "PSASTART = 33"

definition init_psa_regions :: "'a kernel_state_scheme \<Rightarrow> 'a kernel_state_scheme" where
  "init_psa_regions s = s\<lparr>psa_tracker := replicate PSASIZE False\<rparr>"

section \<open>The first process\<close>

definition initcode :: "u8 list" where
  "initcode = [
     0x17, 0x05, 0x00, 0x00, 0x13, 0x05, 0x45, 0x02,
     0x97, 0x05, 0x00, 0x00, 0x93, 0x85, 0x35, 0x02,
     0x93, 0x08, 0x70, 0x00, 0x73, 0x00, 0x00, 0x00,
     0x93, 0x08, 0x20, 0x00, 0x73, 0x00, 0x00, 0x00,
     0xef, 0xf0, 0x9f, 0xff, 0x2f, 0x69, 0x6e, 0x69,
     0x74, 0x00, 0x00, 0x24, 0x00, 0x00, 0x00, 0x00,
     0x00, 0x00, 0x00, 0x00]"

text \<open>\<open>at\<close> is the address of the array \<open>initcode\<close> in the kernel image.\<close>

definition userinit :: "u64 \<Rightarrow> 'a kernel_state_scheme \<Rightarrow> 'a kernel_state_scheme option" where
  "userinit at s = do {
     (np, s1) \<leftarrow> allocproc s;
     i \<leftarrow> np;
     s2 \<leftarrow> uvmfirst (p_pagetable (procs s1 ! i)) at (of_nat (length initcode)) (s1\<lparr>initproc := Some i\<rparr>);
     let s3 = upd_proc i (\<lambda>p. p\<lparr>p_sz := PGSIZE\<rparr>) s2;
     let s4 = set_tf i tf_sp PGSIZE (set_tf i tf_epc 0 s3);
     let s5 = upd_proc i (\<lambda>p. p\<lparr>p_name := set_name (map (of_nat \<circ> of_char) ''initcode'') (p_name p)\<rparr>) s4;
     (cwd, s6) \<leftarrow> fs_get (namei [slash] 0) s5;
     Some (upd_proc i (\<lambda>p. p\<lparr>p_cwd := cwd, p_state := RUNNABLE\<rparr>) s6) }"

section \<open>fork\<close>

text \<open>The loop of \<open>fork\<close> that records the parent's mapped pages in the group.\<close>

partial_function (option) share_pages ::
  "u64 \<Rightarrow> int \<Rightarrow> u64 \<Rightarrow> u64 \<Rightarrow> 'a cow_state_scheme \<Rightarrow> 'a cow_state_scheme option" where
  "share_pages pagetable g va sz s =
     (if va < sz then do {
        (pte, _) \<leftarrow> walk pagetable va False s;
        if pte \<noteq> 0 \<and> load64 (mem s) pte AND PTE_V \<noteq> 0 then do {
          gs \<leftarrow> add_shmem g (PTE2PA (load64 (mem s) pte)) (cow_groups s);
          share_pages pagetable g (va + PGSIZE) sz (s\<lparr>cow_groups := gs\<rparr>) }
        else share_pages pagetable g (va + PGSIZE) sz s }
      else Some s)"

definition fork_cow :: "nat \<Rightarrow> nat \<Rightarrow> 'a proc_state_scheme \<Rightarrow> (int \<times> 'a proc_state_scheme) option" where
  "fork_cow i j s = do {
     let p = procs s ! i;
     let s1 = (if p_cow_group p = 0
               then upd_proc i (\<lambda>p. p\<lparr>p_cow_group := p_pid p, p_cow_enabled := 1\<rparr>)
                      (s\<lparr>cow_groups := cow_group_init (p_pid p) (cow_groups s)\<rparr>)
               else s);
     (r, s2) \<leftarrow> uvmcopy_cow (p_pagetable p) (p_pagetable (procs s1 ! j)) (p_sz p) s1;
     if r < 0 then Some (-1, s2)
     else do {
       let g = p_cow_group (procs s2 ! i);
       s3 \<leftarrow> share_pages (p_pagetable p) g 0 (p_sz p) (upd_proc j (\<lambda>q. q\<lparr>p_cow_enabled := 1\<rparr>) s2);
       gs \<leftarrow> incr_cow_group_count g (cow_groups s3);
       Some (0, upd_proc j (\<lambda>q. q\<lparr>p_cow_group := g\<rparr>) (s3\<lparr>cow_groups := gs\<rparr>)) } }"

primrec dup_files :: "nat option list \<Rightarrow> 'a kernel_state_scheme \<Rightarrow> 'a kernel_state_scheme option" where
  "dup_files [] s = Some s"
| "dup_files (f # fs) s = do {
     s1 \<leftarrow> (case f of None \<Rightarrow> Some s | Some i \<Rightarrow> filedup i s);
     dup_files fs s1 }"

definition fork :: "int \<Rightarrow> 'a kernel_state_scheme \<Rightarrow> (int \<times> 'a kernel_state_scheme) option" where
  "fork cow_enabled s = do {
     i \<leftarrow> myproc s;
     (np, s1) \<leftarrow> allocproc s;
     case np of None \<Rightarrow> Some (-1, s1)
     | Some j \<Rightarrow> do {
         let p = procs s1 ! i;
         (r, s2) \<leftarrow> (if cow_enabled = 1 then fork_cow i j s1
                     else uvmcopy (p_pagetable p) (p_pagetable (procs s1 ! j)) (p_sz p) s1);
         if r < 0 then do { s3 \<leftarrow> freeproc j s2; Some (-1, s3) }
         else do {
           let s3 = s2\<lparr>mem := memmove (mem s2) (p_trapframe (procs s2 ! j)) (p_trapframe p) 288\<rparr>;
           let s4 = set_tf j tf_a0 0 s3;
           s5 \<leftarrow> dup_files (p_ofile p) s4;
           c \<leftarrow> p_cwd p;
           (cwd, s6) \<leftarrow> fs_get (\<lambda>t. Some (idup c t)) s5;
           let s7 = upd_proc j (\<lambda>q. q\<lparr>p_sz := p_sz p,
              p_ofile := map2 (\<lambda>f g. if f = None then g else f) (p_ofile p) (p_ofile q), p_cwd := Some cwd,
              p_name := set_name (p_name p) (p_name q), p_ondemand := p_ondemand p,
              p_parent := Some i, p_state := RUNNABLE\<rparr>) s6;
           Some (p_pid (procs s7 ! j), s7) } } }"

section \<open>exit and wait\<close>

primrec close_files :: "nat \<Rightarrow> nat \<Rightarrow> nat \<Rightarrow> 'a kernel_state_scheme \<Rightarrow> 'a kernel_state_scheme option" where
  "close_files i fd 0 s = Some s"
| "close_files i fd (Suc n) s =
     (case p_ofile (procs s ! i) ! fd of
        None \<Rightarrow> close_files i (Suc fd) n s
      | Some f \<Rightarrow> do {
          s1 \<leftarrow> fileclose f s;
          close_files i (Suc fd) n (upd_proc i (\<lambda>p. p\<lparr>p_ofile := (p_ofile p)[fd := None]\<rparr>) s1) })"

definition exit_table :: "nat \<Rightarrow> int \<Rightarrow> 'a proc_state_scheme \<Rightarrow> 'a proc_state_scheme option" where
  "exit_table i status s = do {
     s1 \<leftarrow> reparent i s;
     let s2 = wakeup (case p_parent (procs s1 ! i) of None \<Rightarrow> No_chan | Some q \<Rightarrow> On_proc q) s1;
     sched (upd_proc i (\<lambda>p. p\<lparr>p_xstate := status, p_state := ZOMBIE\<rparr>) s2) }"

definition exit :: "int \<Rightarrow> 'a kernel_state_scheme \<Rightarrow> 'a kernel_state_scheme option" where
  "exit status s = do {
     let s0 = init_psa_regions s;
     i \<leftarrow> myproc s0;
     s1 \<leftarrow> (if p_cow_enabled (procs s0 ! i) \<noteq> 0 then do {
              gs \<leftarrow> decr_cow_group_count (p_cow_group (procs s0 ! i)) (cow_groups s0);
              Some (s0\<lparr>cow_groups := gs\<rparr>) }
            else Some s0);
     if initproc s1 = Some i then None \<comment> \<open>panic init exiting\<close>
     else do {
       s2 \<leftarrow> close_files i 0 NOFILE s1;
       c \<leftarrow> p_cwd (procs s2 ! i);
       s3 \<leftarrow> fs_run begin_op s2;
       s4 \<leftarrow> fs_run (iput c) s3;
       s5 \<leftarrow> fs_run end_op s4;
       exit_table i status (upd_proc i (\<lambda>p. p\<lparr>p_cwd := None\<rparr>) s5) } }"

text \<open>One scan of \<open>wait\<close>: it returns, or the caller goes to sleep on its own entry.\<close>

definition wait :: "u64 \<Rightarrow> 'a proc_state_scheme \<Rightarrow> (outcome \<times> 'a proc_state_scheme) option" where
  "wait addr s = do {
     i \<leftarrow> myproc s;
     case first_index (\<lambda>pp. p_parent pp = Some i \<and> p_state pp = ZOMBIE) (procs s) of
       Some k \<Rightarrow>
         let pp = procs s ! k;
             bytes = le_bytes 4 (unat (word_of_int (p_xstate pp) :: u32)) in
         (case (if addr \<noteq> 0 then copyout_bytes (p_pagetable (procs s ! i)) addr bytes s else (0, s)) of
            (r, s1) \<Rightarrow>
              if r < 0 then Some (Done (-1), s1)
              else do { s2 \<leftarrow> freeproc k s1; Some (Done (p_pid pp), s2) })
     | None \<Rightarrow>
         if (\<forall>pp \<in> set (procs s). p_parent pp \<noteq> Some i) \<or> killed i s \<noteq> 0 then Some (Done (-1), s)
         else do { s1 \<leftarrow> sleep (On_proc i) s; Some (Asleep 0, s1) } }"

end
