(* ===== verification/Vm_Frame.thy ===== *)
theory Vm_Frame
  imports Process
begin

text \<open>
  The memory operations of vm.c and kalloc.c change nothing but memory, the free list and, for the
  copy-on-write fork, the groups: the rest of the kernel state, the process table above all, is carried
  along unchanged. The partial functions are treated by their induction rule for runs that return.
\<close>

named_theorems frame_intros \<open>operations that keep the rest of the kernel state\<close>

lemma kalloc_more [simp]: "kmem_state.more (snd (kalloc s)) = kmem_state.more s"
  by (simp add: kalloc_def Let_def)

lemma kalloc_frame: "kalloc s = (p, s') \<Longrightarrow> kmem_state.more s' = kmem_state.more s"
  using kalloc_more [of s] by simp

lemma kfree_frame: "kfree pa s = Some s' \<Longrightarrow> kmem_state.more s' = kmem_state.more s"
  by (auto simp: kfree_def Let_def split: if_splits)

lemma walk_level_more [simp]: "kmem_state.more (snd (walk_level va pt alloc l s)) = kmem_state.more s"
proof (induction l arbitrary: pt s)
  case 0
  then show ?case by simp
next
  case (Suc l)
  obtain p s1 where k: "kalloc s = (p, s1)" by fastforce
  then show ?case using Suc kalloc_frame [OF k] by (cases alloc) (simp_all add: Let_def)
qed

lemma walk_frame: "walk pt va alloc s = Some (p, s') \<Longrightarrow> kmem_state.more s' = kmem_state.more s"
  using walk_level_more [of va pt alloc 2 s] by (auto simp: walk_def split: if_splits)

lemma mappages_loop_frame:
  assumes "mappages_loop pt a b pa perm s = Some r"
  shows "kmem_state.more (snd r) = kmem_state.more s"
proof (rule mappages_loop.raw_induct [where P = "\<lambda>pt a b pa perm s r. kmem_state.more (snd r) = kmem_state.more s",
      OF _ assms], goal_cases)
  case (1 f pt a b pa perm s r)
  from 1(2) obtain pte s1 where w: "walk pt a True s = Some (pte, s1)"
    by (auto simp: monad_simps)
  note m = walk_frame [OF w]
  show ?case
  proof (cases "pte = 0 \<or> load64 (mem s1) pte AND PTE_V \<noteq> 0 \<or> a = b")
    case True
    then show ?thesis using 1(2) w m by (auto simp: Let_def split: if_splits)
  next
    case False
    then show ?thesis using 1(2) w m 1(1) by (fastforce simp: Let_def split: if_splits)
  qed
qed

lemma mappages_frame: "mappages pt va sz pa perm s = Some (r, s') \<Longrightarrow> kmem_state.more s' = kmem_state.more s"
  using mappages_loop_frame [of pt _ _ pa perm s "(r, s')"] by (auto simp: mappages_def split: if_splits)

lemma uvmcreate_frame: "uvmcreate s = (p, s') \<Longrightarrow> kmem_state.more s' = kmem_state.more s"
  by (auto simp: uvmcreate_def dest: kalloc_frame split: prod.splits if_splits)

lemma free_unless_shared_frame: "free_unless_shared pa s = Some s' \<Longrightarrow> kmem_state.more s' = kmem_state.more s"
  by (auto simp: free_unless_shared_def monad_simps dest: kfree_frame split: if_splits)

lemma uvmunmap_loop_frame:
  assumes "uvmunmap_loop pt a b fr s = Some s'"
  shows "kmem_state.more s' = kmem_state.more s"
proof (rule uvmunmap_loop.raw_induct [where P = "\<lambda>pt a b fr s s'. kmem_state.more s' = kmem_state.more s",
      OF _ assms], goal_cases)
  case (1 f pt a b fr s s')
  show ?case
  proof (cases "a < b")
    case True
    then obtain pte t where w: "walk pt a False s = Some (pte, t)" "pte \<noteq> 0"
      using 1(2) by (auto simp: monad_simps split: if_splits)
    show ?thesis
    proof (cases "load64 (mem s) pte AND PTE_V = 0")
      case True
      then show ?thesis using 1 w \<open>a < b\<close> by (auto simp: Let_def split: if_splits)
    next
      case False
      then obtain s1 where s1: "(if fr then free_unless_shared (PTE2PA (load64 (mem s) pte)) s else Some s) = Some s1"
        "f pt (a + PGSIZE) b fr (s1\<lparr>mem := store64 (mem s1) pte 0\<rparr>) = Some s'"
        using 1(2) w \<open>a < b\<close> by (auto simp: Let_def monad_simps split: if_splits)
      then have "kmem_state.more s1 = kmem_state.more s"
        by (auto dest: free_unless_shared_frame split: if_splits)
      moreover have "kmem_state.more s' = kmem_state.more (s1\<lparr>mem := store64 (mem s1) pte 0\<rparr>)" by (rule 1(1) [OF s1(2)])
      ultimately show ?thesis by simp
    qed
  next
    case False
    then show ?thesis using 1(2) by simp
  qed
qed

lemma uvmunmap_frame: "uvmunmap pt va n fr s = Some s' \<Longrightarrow> kmem_state.more s' = kmem_state.more s"
  by (auto simp: uvmunmap_def dest: uvmunmap_loop_frame split: if_splits)

lemma uvmdealloc_frame: "uvmdealloc pt o1 n s = Some (r, s') \<Longrightarrow> kmem_state.more s' = kmem_state.more s"
  by (auto simp: uvmdealloc_def Let_def monad_simps dest: uvmunmap_frame split: if_splits)

lemma uvmalloc_loop_frame:
  assumes "uvmalloc_loop pt a o1 n perm s = Some r"
  shows "kmem_state.more (snd r) = kmem_state.more s"
proof (rule uvmalloc_loop.raw_induct [where P = "\<lambda>pt a o1 n perm s r. kmem_state.more (snd r) = kmem_state.more s",
      OF _ assms], goal_cases)
  case (1 f pt a o1 n perm s r)
  show ?case
  proof (cases "a < n")
    case True
    obtain p s1 where k: "kalloc s = (p, s1)" by fastforce
    note m1 = kalloc_frame [OF k]
    show ?thesis
    proof (cases "p = 0")
      case True
      then show ?thesis using 1(2) \<open>a < n\<close> k m1 by (auto simp: monad_simps dest: uvmdealloc_frame)
    next
      case False
      then obtain q s2 where q: "mappages pt a PGSIZE p (PTE_R OR PTE_U OR perm) (s1\<lparr>mem := memset (mem s1) p 0 4096\<rparr>) = Some (q, s2)"
        using 1(2) \<open>a < n\<close> k by (auto simp: monad_simps)
      have m2: "kmem_state.more s2 = kmem_state.more s" using mappages_frame [OF q] m1 by simp
      show ?thesis
      proof (cases "q = 0")
        case True
        then show ?thesis using 1(1,2) \<open>a < n\<close> k False q m2 by (auto simp: monad_simps)
      next
        case False
        then show ?thesis using 1(2) \<open>a < n\<close> k \<open>p \<noteq> 0\<close> q m2
          by (auto simp: monad_simps dest!: uvmdealloc_frame kfree_frame)
      qed
    qed
  next
    case False
    then show ?thesis using 1(2) by auto
  qed
qed

lemma uvmalloc_frame: "uvmalloc pt o1 n perm s = Some (r, s') \<Longrightarrow> kmem_state.more s' = kmem_state.more s"
  using uvmalloc_loop_frame [of pt _ _ n perm s "(r, s')"] by (auto simp: uvmalloc_def split: if_splits)

lemma freewalk_from_frame:
  assumes "freewalk_from pt i s = Some s'"
  shows "kmem_state.more s' = kmem_state.more s"
proof (rule freewalk_from.raw_induct [where P = "\<lambda>pt i s s'. kmem_state.more s' = kmem_state.more s", OF _ assms],
    goal_cases)
  case (1 f pt i s s')
  let ?e = "load64 (mem s) (pte_slot pt i)"
  show ?case
  proof (cases "i < 512 \<and> ?e AND PTE_V \<noteq> 0 \<and> ?e AND (PTE_R OR PTE_W OR PTE_X) = 0")
    case True
    then obtain s1 where s1: "f (PTE2PA ?e) 0 s = Some s1" "f pt (i + 1) (s1\<lparr>mem := store64 (mem s1) (pte_slot pt i) 0\<rparr>) = Some s'"
      using 1(2) by (auto simp: Let_def monad_simps)
    then show ?thesis using 1(1) [OF s1(1)] 1(1) [OF s1(2)] by simp
  next
    case False
    then show ?thesis using 1 by (auto simp: Let_def dest: kfree_frame split: if_splits)
  qed
qed

lemma uvmfree_frame: "uvmfree pt sz s = Some s' \<Longrightarrow> kmem_state.more s' = kmem_state.more s"
  by (auto simp: uvmfree_def freewalk_def monad_simps dest!: freewalk_from_frame dest: uvmunmap_frame split: if_splits)

lemma uvmcopy_loop_frame:
  assumes "uvmcopy_loop o1 n i sz s = Some r"
  shows "kmem_state.more (snd r) = kmem_state.more s"
proof (rule uvmcopy_loop.raw_induct [where P = "\<lambda>o1 n i sz s r. kmem_state.more (snd r) = kmem_state.more s",
      OF _ assms], goal_cases)
  case (1 f o1 n i sz s r)
  show ?case
  proof (cases "i < sz")
    case True
    then obtain pte t where w: "walk o1 i False s = Some (pte, t)" "pte \<noteq> 0"
      using 1(2) by (auto simp: monad_simps split: if_splits)
    let ?e = "load64 (mem s) pte"
    obtain p s1 where k: "kalloc s = (p, s1)" by fastforce
    note m1 = kalloc_frame [OF k]
    consider (skip) "?e AND PTE_V = 0" | (none) "?e AND PTE_V \<noteq> 0" "p = 0" | (copy) "?e AND PTE_V \<noteq> 0" "p \<noteq> 0" by blast
    then show ?thesis
    proof cases
      case skip
      then show ?thesis using 1 w True by (auto simp: Let_def)
    next
      case none
      then show ?thesis using 1(2) w True k m1 by (auto simp: Let_def monad_simps dest!: uvmunmap_frame)
    next
      case copy
      then obtain q s2 where q: "mappages n i PGSIZE p (PTE_FLAGS ?e) (s1\<lparr>mem := memmove (mem s1) p (PTE2PA ?e) 4096\<rparr>) = Some (q, s2)"
        using 1(2) w True k by (auto simp: Let_def monad_simps)
      have m2: "kmem_state.more s2 = kmem_state.more s" using mappages_frame [OF q] m1 by simp
      show ?thesis
      proof (cases "q = 0")
        case True
        then show ?thesis using 1(1,2) \<open>i < sz\<close> w k copy q m2 by (auto simp: Let_def monad_simps)
      next
        case False
        then show ?thesis using 1(2) \<open>i < sz\<close> w k copy q m2
          by (auto simp: Let_def monad_simps dest!: uvmunmap_frame kfree_frame)
      qed
    qed
  next
    case False
    then show ?thesis using 1(2) by auto
  qed
qed

lemma uvmcopy_frame: "uvmcopy o1 n sz s = Some (r, s') \<Longrightarrow> kmem_state.more s' = kmem_state.more s"
  using uvmcopy_loop_frame [of o1 n 0 sz s "(r, s')"] by (simp add: uvmcopy_def)

lemma uvmfirst_frame: "uvmfirst pt src sz s = Some s' \<Longrightarrow> kmem_state.more s' = kmem_state.more s"
  by (auto simp: uvmfirst_def monad_simps dest!: mappages_frame kalloc_frame split: if_splits prod.splits)

section \<open>The copy-on-write fork changes the groups\<close>

lemma cow_more: "kmem_state.more s' = kmem_state.more s \<Longrightarrow> cow_state.more s' = cow_state.more s"
  by (cases s; cases s') simp

lemma uvmcopy_cow_loop_frame:
  assumes "uvmcopy_cow_loop o1 n i sz s = Some r"
  shows "cow_state.more (snd r) = cow_state.more s"
proof (rule uvmcopy_cow_loop.raw_induct [where P = "\<lambda>o1 n i sz s r. cow_state.more (snd r) = cow_state.more s",
      OF _ assms], goal_cases)
  case (1 f o1 n i sz s r)
  show ?case
  proof (cases "i < sz")
    case True
    then obtain pte t where w: "walk o1 i False s = Some (pte, t)" "pte \<noteq> 0"
      using 1(2) by (auto simp: monad_simps split: if_splits)
    let ?e = "load64 (mem s) pte"
    show ?thesis
    proof (cases "?e AND PTE_V = 0")
      case skip: True
      then show ?thesis using 1 w True by (auto simp: Let_def)
    next
      case False
      then obtain q s1 where q: "mappages n i PGSIZE (PTE2PA ?e) (PTE_FLAGS ?e AND NOT PTE_W) s = Some (q, s1)"
        using 1(2) w True by (auto simp: Let_def monad_simps)
      have m1: "cow_state.more s1 = cow_state.more s" by (rule cow_more [OF mappages_frame [OF q]])
      show ?thesis
      proof (cases "q = 0")
        case True
        then obtain gs where "f o1 n (i + PGSIZE) sz
            (s1\<lparr>mem := store64 (mem s1) pte (load64 (mem s1) pte AND NOT PTE_W), cow_groups := gs\<rparr>) = Some r"
          using 1(2) \<open>i < sz\<close> w False q by (auto simp: Let_def monad_simps)
        from 1(1) [OF this] show ?thesis using m1 by simp
      next
        case err: False
        then show ?thesis using 1(2) \<open>i < sz\<close> w False q m1
          by (auto simp: Let_def monad_simps dest!: uvmunmap_frame cow_more)
      qed
    qed
  next
    case False
    then show ?thesis using 1(2) by auto
  qed
qed

lemma uvmcopy_cow_frame: "uvmcopy_cow o1 n sz s = Some (r, s') \<Longrightarrow> cow_state.more s' = cow_state.more s"
  using uvmcopy_cow_loop_frame [of o1 n 0 sz s "(r, s')"] by (simp add: uvmcopy_cow_def)

lemma share_pages_frame:
  assumes "share_pages pt g va sz s = Some s'"
  shows "cow_state.more s' = cow_state.more s"
proof (rule share_pages.raw_induct [where P = "\<lambda>pt g va sz s s'. cow_state.more s' = cow_state.more s", OF _ assms],
    goal_cases)
  case (1 f pt g va sz s s')
  then show ?case by (fastforce simp: monad_simps split: if_splits)
qed

end
