(* ===== verification/Kvm.thy ===== *)
theory Kvm
  imports Vm_Room Vm_Frame Proc
begin

unbundle bit_operations_syntax

text \<open>
  The page table of the kernel: \<open>kvmmake\<close> of kernel/vm.c. \<open>etext\<close> and \<open>tramp\<close> are the symbols of the linker script, the end
  of the kernel code and the page of trampoline.S. \<open>None\<close> is a panic of \<open>kvmmap\<close> or \<open>proc_mapstacks\<close>, or the write
  to address 0 when the first \<open>kalloc\<close> fails, which the code does not check.
\<close>

section \<open>Building the map\<close>

definition kvmmake :: "u64 \<Rightarrow> u64 \<Rightarrow> 'a kmem_state_scheme \<Rightarrow> (u64 \<times> 'a kmem_state_scheme) option" where
  "kvmmake etext tramp s = (case kalloc s of (kpgtbl, s1) \<Rightarrow>
     if kpgtbl = 0 then None
     else do {
       let s2 = s1\<lparr>mem := memset (mem s1) kpgtbl 0 4096\<rparr>;
       s3 \<leftarrow> kvmmap kpgtbl UART0 UART0 PGSIZE (PTE_R OR PTE_W) s2;
       s4 \<leftarrow> kvmmap kpgtbl VIRTIO0 VIRTIO0 PGSIZE (PTE_R OR PTE_W) s3;
       s5 \<leftarrow> kvmmap kpgtbl PLIC PLIC 0x400000 (PTE_R OR PTE_W) s4;
       s6 \<leftarrow> kvmmap kpgtbl KERNBASE KERNBASE (etext - KERNBASE) (PTE_R OR PTE_X) s5;
       s7 \<leftarrow> kvmmap kpgtbl etext etext (PHYSTOP - etext) (PTE_R OR PTE_W) s6;
       s8 \<leftarrow> kvmmap kpgtbl TRAMPOLINE tramp PGSIZE (PTE_R OR PTE_X) s7;
       s9 \<leftarrow> proc_mapstacks kpgtbl s8;
       Some (kpgtbl, s9) })"

section \<open>The map that is meant\<close>

text \<open>The frame and the permissions of a page, given the pages of the kernel stacks.\<close>

definition kernel_page :: "u64 \<Rightarrow> u64 \<Rightarrow> u64 list \<Rightarrow> u64 \<Rightarrow> (u64 \<times> u64) option" where
  "kernel_page etext tramp stacks a =
     (if a = UART0 \<or> a = VIRTIO0 \<or> PLIC \<le> a \<and> a < PLIC + 0x400000 then Some (a, PTE_R OR PTE_W)
      else if KERNBASE \<le> a \<and> a < etext then Some (a, PTE_R OR PTE_X)
      else if etext \<le> a \<and> a < PHYSTOP then Some (a, PTE_R OR PTE_W)
      else if a = TRAMPOLINE then Some (tramp, PTE_R OR PTE_X)
      else map_option (\<lambda>p. (p, PTE_R OR PTE_W)) (map_of (zip (map (\<lambda>i. KSTACK (of_nat i)) [0..<NPROC]) stacks) a))"

definition kernel_entry :: "u64 \<Rightarrow> u64 \<Rightarrow> u64 list \<Rightarrow> u64 \<Rightarrow> u64" where
  "kernel_entry etext tramp stacks va = (case kernel_page etext tramp stacks (PGROUNDDOWN va) of
     None \<Rightarrow> 0 | Some (pa, perm) \<Rightarrow> PA2PTE pa OR perm OR PTE_V)"

lemma unat_PX: "unat (PX l va) = unat va div 2 ^ (12 + 9 * l) mod 512"
proof -
  have "(0x1FF :: u64) = mask 9" by (simp add: mask_eq_exp_minus_1)
  then have "PX l va = take_bit 9 (drop_bit (12 + 9 * l) va)" by (simp add: PX_def take_bit_eq_mask)
  then have "unat (PX l va) = take_bit 9 (drop_bit (12 + 9 * l) (take_bit 64 (unat va)))"
    by (simp only: unsigned_take_bit_eq unsigned_drop_bit_eq) (simp add: take_bit_eq_mod drop_bit_eq_div)
  moreover have "take_bit 64 (unat va) = unat va" using unat_lt_u64 [of va] by (simp add: take_bit_nat_eq_self_iff)
  ultimately show ?thesis by (simp add: take_bit_eq_mod drop_bit_eq_div)
qed

text \<open>The areas of two megabytes that the kernel maps, and the paths of their tables.\<close>

definition areas :: "nat set" where
  "areas = {96, 97, 128, 131071} \<union> {1024..<1088}"

definition kernel_paths :: "u64 list set" where
  "kernel_paths = (\<lambda>d. [of_nat (d mod 512), of_nat (d div 512)]) ` areas \<union> {[0], [2], [255]}"

lemma areas_div: "d \<in> areas \<Longrightarrow> d div 512 \<in> {0, 2, 255}"
  by (auto simp: areas_def)

lemma paths_of_area:
  assumes "unat va div 2 ^ 21 \<in> areas"
  shows "ix 0 va \<in> kernel_paths" and "ix 1 va \<in> kernel_paths"
proof -
  let ?d = "unat va div 2 ^ 21"
  have 1: "PX 1 va = of_nat (?d mod 512)"
    by (simp add: word_unat_eq_iff unat_PX unat_of_nat_lt64)
  have "unat (PX 2 va) = ?d div 512 mod 512" by (simp add: unat_PX div_mult2_eq [symmetric])
  moreover have "?d div 512 < 512" using areas_div [OF assms] by auto
  ultimately have 2: "PX 2 va = of_nat (?d div 512)"
    by (simp add: word_unat_eq_iff unat_of_nat_lt64)
  show "ix 0 va \<in> kernel_paths" using assms 1 2 by (auto simp: ix_def kernel_paths_def)
  show "ix 1 va \<in> kernel_paths" using areas_div [OF assms] 2 by (auto simp: ix_def kernel_paths_def)
qed

lemma kernel_paths_ok: "finite kernel_paths" "\<forall>is \<in> kernel_paths. indices is" "card kernel_paths \<le> 71"
proof -
  have f: "finite areas" "card areas \<le> 68"
  proof -
    show "finite areas" by (simp add: areas_def)
    have "card areas \<le> card {96, 97, 128, 131071 :: nat} + card {1024..<1088 :: nat}" unfolding areas_def by (rule card_Un_le)
    then show "card areas \<le> 68" by simp
  qed
  then show "finite kernel_paths" by (simp add: kernel_paths_def)
  have "of_nat (d mod 512) < (512 :: u64)" "of_nat (d div 512) < (512 :: u64)" if "d \<in> areas" for d
    using areas_div [OF that] by (auto simp: word_less_nat_alt unat_of_nat_lt64)
  then show "\<forall>is \<in> kernel_paths. indices is" by (auto simp: kernel_paths_def indices_def)
  have "card kernel_paths \<le> card ((\<lambda>d. [of_nat (d mod 512), of_nat (d div 512)] :: u64 list) ` areas) + card {[0], [2], [255 :: u64]}"
    unfolding kernel_paths_def by (rule card_Un_le)
  also have "card ((\<lambda>d. [of_nat (d mod 512), of_nat (d div 512)] :: u64 list) ` areas) \<le> card areas" by (rule card_image_le [OF f(1)])
  also have "card areas + card {[0], [2], [255 :: u64]} \<le> 71" using f(2) by simp
  finally show "card kernel_paths \<le> 71" by simp
qed

section \<open>The steps\<close>

text \<open>A page taken from the free list.\<close>

lemma kalloc_keeps_table:
  assumes "pt_inv s root (p # ps)" and "kalloc s = (q, s')"
  shows "q = p \<and> mapped_pages root s (p # ps) Map.empty s' ps \<and> (\<forall>is. indices is \<longrightarrow> reach (mem s') root is = reach (mem s) root is)"
proof -
  have k: "kmem_inv s (p # ps)" using assms(1) by (simp add: pt_inv_def)
  note a = kalloc_Cons [OF k assms(2)]
  have p: "page_aligned p" "p \<notin> set ps" using k by (auto simp: kmem_inv_def ram_page_def)
  have frame: "mem s' b = mem s b" if "indices is" "reach (mem s) root is = Some t" "in_region t 4096 b" for "is" t b
  proof -
    have t: "page_aligned t" "t \<noteq> p" using pt_invD [OF assms(1) that(1,2)] by auto
    show ?thesis using pages_disjoint [OF t(1) p(1) t(2) that(3)] a(4) by (simp add: memset_apply)
  qed
  have r: "reach (mem s') root is = reach (mem s) root is" if "indices is" for "is"
    by (rule reach_cong [OF frame that])
  have l: "leaf (mem s') root va = leaf (mem s) root va" for va
    by (rule leaf_cong [OF frame])
  have "pt_inv s' root ps"
    using assms(1) a(2,3) r by (auto simp: pt_inv_def tree_def ram_page_def)
  moreover have "pt_frame root s (p # ps) s'"
    using a(3,4) kalloc_more [of s] assms(2) by (simp add: pt_frame_def memset_apply)
  moreover have "table_page (mem s') root u = table_page (mem s) root u" for u
    using r by (auto simp: table_page_def)
  ultimately show ?thesis using a(1) l r by (auto simp: mapped_pages_def intro!: exI [of _ "[p]"])
qed

text \<open>The root: a page of zeros.\<close>

lemma zeroed_root:
  assumes "kmem_inv s (p # ps)" and "kalloc s = (q, s1)"
  defines "s2 \<equiv> s1\<lparr>mem := memset (mem s1) p 0 4096\<rparr>"
  shows "q = p" "p \<noteq> 0" "pt_inv s2 p ps" "leaf (mem s2) p va = 0" "kend s2 = kend s"
proof -
  note a = kalloc_Cons [OF assms(1,2)]
  have p: "ram_page s p" "page_aligned p" "p \<notin> set ps" "p \<noteq> 0" using assms(1) by (auto simp: kmem_inv_def ram_page_def)
  show "q = p" "p \<noteq> 0" "kend s2 = kend s" using a(1,3) p(4) by (simp_all add: s2_def)
  have "follow (mem s2) p i = None" if "i < 512" for i
    using load_zeroed [of i p "mem s2"] that by (simp add: follow_def s2_def memset_apply)
  then have r: "reach (mem s2) p is = (if is = [] then Some p else None)" if "indices is" for "is"
    using that
  proof (induction "is")
    case (Cons i "is")
    then have "indices is" "i < 512" by (auto simp: indices_def)
    then show ?case using Cons by (simp add: reach_Cons)
  qed simp
  have "is_freelist (mem s2) (freelist s1) ps"
  proof (rule is_freelist_other_page [of "mem s1" _ _ p])
    show "is_freelist (mem s1) (freelist s1) ps" "\<forall>q \<in> set ps. page_aligned q"
      using a(2) by (auto simp: kmem_inv_def ram_page_def)
  qed (use p in \<open>auto simp: s2_def memset_apply\<close>)
  then have "kmem_inv s2 ps" using a(2) by (simp add: kmem_inv_def s2_def ram_page_def)
  then show "pt_inv s2 p ps"
    using p(1,3) a(3) r by (auto simp: pt_inv_def tree_def ram_page_def s2_def split: if_splits)
  show "leaf (mem s2) p va = 0" using r [OF indices_ix, of 0 va] by (simp add: leaf_def ix_def)
qed

lemma page_at:
  assumes "page_aligned va" and "unat va + 4096 * n \<le> 2 ^ 38" and "k < n"
  shows "unat (va + 4096 * of_nat k) = unat va + 4096 * k" and "page_aligned (va + 4096 * of_nat k)"
    and "va + 4096 * of_nat k < MAXVA"
proof -
  show u: "unat (va + 4096 * of_nat k) = unat va + 4096 * k"
    using assms(2,3) by (simp add: unat_word_ariths unat_of_nat_lt64)
  then show "page_aligned (va + 4096 * of_nat k)" using assms(1) by (simp add: page_aligned_unat)
  show "va + 4096 * of_nat k < MAXVA" using u assms(2,3) by (simp add: MAXVA_val word_less_nat_alt)
qed

lemma kvm_step:
  assumes m: "mapped_pages root s0 ps0 F s ps" and z: "\<And>va. leaf (mem s0) root va = 0" and has_room: "has_room s root kernel_paths ps c"
    and va: "page_aligned va" "0 < n" "unat va + 4096 * n \<le> 2 ^ 38"
    and fresh: "\<And>p. page_aligned p \<Longrightarrow> unat va \<le> unat p \<Longrightarrow> unat p < unat va + 4096 * n \<Longrightarrow> F p = None"
    and area: "\<And>k. k < n \<Longrightarrow> (unat va + 4096 * k) div 2 ^ 21 \<in> areas"
  obtains s' ps' where "kvmmap root va pa (4096 * of_nat n) perm s = Some s'"
    and "mapped_pages root s0 ps0 (F ++ page_entries va pa perm n) s' ps'"
    and "mapped_pages root s ps (page_entries va pa perm n) s' ps'" and "has_room s' root kernel_paths ps' c"
proof -
  have inv: "pt_inv s root ps" using m by (simp add: mapped_pages_def)
  have "leaf (mem s) root (va + 4096 * of_nat k) AND PTE_V = 0" if "k < n" for k
  proof -
    note pg = page_at [OF va(1,3) that]
    have "F (PGROUNDDOWN (va + 4096 * of_nat k)) = None"
      using fresh [OF pg(2)] pg(1) that PGROUNDDOWN_id [OF pg(2)] by simp
    then show ?thesis using m pg(3) z by (simp add: mapped_pages_def)
  qed
  moreover have "ix 0 (va + 4096 * of_nat k) \<in> kernel_paths \<and> ix 1 (va + 4096 * of_nat k) \<in> kernel_paths" if "k < n" for k
    using paths_of_area area [OF that] page_at(1) [OF va(1,3) that] by simp
  ultimately obtain s' ps' where "kvmmap root va pa (4096 * of_nat n) perm s = Some s'"
    "mapped_pages root s ps (page_entries va pa perm n) s' ps'" "has_room s' root kernel_paths ps' c"
    using kvmmap_room [OF inv va _ _ has_room, of pa perm] by blast
  then show thesis using that mapped_pages_trans [OF m] by blast
qed

text \<open>Several ranges, each given by its address, its frame, its number of pages and its permissions.\<close>

type_synonym range_spec = "u64 \<times> u64 \<times> nat \<times> u64"

primrec map_ranges :: "u64 \<Rightarrow> range_spec list \<Rightarrow> 'a kmem_state_scheme \<Rightarrow> 'a kmem_state_scheme option" where
  "map_ranges root [] s = Some s"
| "map_ranges root (r # rs) s = (case r of (va, pa, n, perm) \<Rightarrow>
     do { s1 \<leftarrow> kvmmap root va pa (4096 * of_nat n) perm s; map_ranges root rs s1 })"

definition range_ok :: "range_spec \<Rightarrow> bool" where
  "range_ok r = (case r of (va, pa, n, perm) \<Rightarrow> page_aligned va \<and> 0 < n \<and> unat va + 4096 * n \<le> 2 ^ 38 \<and>
     (\<forall>k < n. (unat va + 4096 * k) div 2 ^ 21 \<in> areas))"

definition apart :: "range_spec \<Rightarrow> range_spec \<Rightarrow> bool" where
  "apart r r' = (case (r, r') of ((va, pa, n, perm), (vb, pb, n', perm')) \<Rightarrow>
     unat va + 4096 * n \<le> unat vb \<or> unat vb + 4096 * n' \<le> unat va)"

primrec range_entries :: "range_spec list \<Rightarrow> u64 \<Rightarrow> u64 option" where
  "range_entries [] = Map.empty"
| "range_entries (r # rs) = (case r of (va, pa, n, perm) \<Rightarrow> page_entries va pa perm n ++ range_entries rs)"

lemma map_ranges_ok:
  assumes "mapped_pages root s0 ps0 F s ps" and "\<And>va. leaf (mem s0) root va = 0" and "has_room s root kernel_paths ps c"
    and "\<forall>r \<in> set rs. range_ok r" and "sorted_wrt apart rs"
    and "\<And>va pa n perm p. (va, pa, n, perm) \<in> set rs \<Longrightarrow> page_aligned p \<Longrightarrow> unat va \<le> unat p \<Longrightarrow> unat p < unat va + 4096 * n \<Longrightarrow> F p = None"
  shows "\<exists>s' ps'. map_ranges root rs s = Some s' \<and> mapped_pages root s0 ps0 (F ++ range_entries rs) s' ps' \<and> has_room s' root kernel_paths ps' c"
  using assms
proof (induction rs arbitrary: F s ps)
  case (Cons r rs)
  obtain va pa n perm where r: "r = (va, pa, n, perm)" by (cases r) auto
  have ok: "page_aligned va" "0 < n" "unat va + 4096 * n \<le> 2 ^ 38" "\<And>k. k < n \<Longrightarrow> (unat va + 4096 * k) div 2 ^ 21 \<in> areas"
    using Cons.prems(4) r by (auto simp: range_ok_def)
  have "F p = None" if "page_aligned p" "unat va \<le> unat p" "unat p < unat va + 4096 * n" for p
    using Cons.prems(6) [of va pa n perm p] that r by simp
  then obtain s1 ps1 where s1: "kvmmap root va pa (4096 * of_nat n) perm s = Some s1"
    "mapped_pages root s0 ps0 (F ++ page_entries va pa perm n) s1 ps1" "has_room s1 root kernel_paths ps1 c"
    using kvm_step [OF Cons.prems(1-3) ok(1-3) _ ok(4), of pa perm] by metis
  have "(F ++ page_entries va pa perm n) p = None"
    if r': "(vb, pb, n', perm') \<in> set rs" and p: "page_aligned p" "unat vb \<le> unat p" "unat p < unat vb + 4096 * n'" for vb pb n' perm' p
  proof -
    have "F p = None" using Cons.prems(6) [of vb pb n' perm' p] that by simp
    moreover have "apart r (vb, pb, n', perm')" using Cons.prems(5) r' by auto
    then have "page_entries va pa perm n p = None"
      using page_entries_at [OF ok(1) p(1) ok(3)] p by (auto simp: apart_def r)
    ultimately show ?thesis by (simp add: map_add_def)
  qed
  then obtain s' ps' where "map_ranges root rs s1 = Some s'"
    "mapped_pages root s0 ps0 ((F ++ page_entries va pa perm n) ++ range_entries rs) s' ps'" "has_room s' root kernel_paths ps' c"
    using Cons.IH [OF s1(2) Cons.prems(2) s1(3)] Cons.prems(4,5) by auto
  then show ?case using s1(1) by (auto simp: r map_add_assoc)
qed auto

section \<open>The stacks\<close>

lemma unat_KSTACK: "i < 64 \<Longrightarrow> unat (KSTACK (of_nat i)) = 2 ^ 38 - 4096 - 8192 * (i + 1)"
proof -
  assume i: "i < 64"
  have "KSTACK (of_nat i) = of_nat (2 ^ 38 - 4096 - 8192 * (i + 1))"
    using i by (simp add: KSTACK_def TRAMPOLINE_def MAXVA_val of_nat_diff algebra_simps)
  moreover have "unat (of_nat (2 ^ 38 - 4096 - 8192 * (i + 1)) :: u64) = 2 ^ 38 - 4096 - 8192 * (i + 1)"
    by (rule unat_of_nat_lt64) simp
  ultimately show ?thesis by (simp only:)
qed

lemma KSTACK_aligned: "i < 64 \<Longrightarrow> page_aligned (KSTACK (of_nat i))"
proof -
  assume i: "i < 64"
  have "(2 ^ 38 - 4096 - 8192 * (i + 1)) = 4096 * (2 ^ 26 - 1 - 2 * (i + 1))" using i by simp
  then show ?thesis unfolding page_aligned_unat unat_KSTACK [OF i] by simp
qed

lemma KSTACK_inj: "i < 64 \<Longrightarrow> j < 64 \<Longrightarrow> KSTACK (of_nat i) = KSTACK (of_nat j) \<longleftrightarrow> i = j"
  by (auto simp: word_unat_eq_iff unat_KSTACK)

primrec stack_map :: "nat \<Rightarrow> u64 list \<Rightarrow> u64 \<Rightarrow> u64 option" where
  "stack_map i [] = Map.empty"
| "stack_map i (p # ps) = [KSTACK (of_nat i) \<mapsto> PA2PTE p OR (PTE_R OR PTE_W) OR PTE_V] ++ stack_map (Suc i) ps"

lemma map_of_zip_other: "a \<notin> set ks \<Longrightarrow> map_of (zip ks vs) a = None"
  by (metis imageE map_of_eq_None_iff prod.collapse set_zip_leftD)

lemma stack_map_eq:
  "i + length stks \<le> 64 \<Longrightarrow> stack_map i stks a = map_option (\<lambda>p. PA2PTE p OR (PTE_R OR PTE_W) OR PTE_V)
     (map_of (zip (map (\<lambda>i. KSTACK (of_nat i)) [i..<i + length stks]) stks) a)"
proof (induction stks arbitrary: i)
  case (Cons p stks)
  let ?r = "zip (map (\<lambda>i. KSTACK (of_nat i)) [Suc i..<Suc i + length stks]) stks"
  have IH: "stack_map (Suc i) stks a = map_option (\<lambda>p. PA2PTE p OR (PTE_R OR PTE_W) OR PTE_V) (map_of ?r a)"
    using Cons.IH [of "Suc i"] Cons.prems by simp
  have "map_of ?r (KSTACK (of_nat i)) = None"
  proof -
    have "KSTACK (of_nat i) \<noteq> KSTACK (of_nat j)" if "Suc i \<le> j" "j < Suc i + length stks" for j
      using KSTACK_inj [of i j] that Cons.prems by simp
    then have "KSTACK (of_nat i) \<notin> set (map (\<lambda>i. KSTACK (of_nat i)) [Suc i..<Suc i + length stks])"
      unfolding set_map image_iff set_upt by (metis atLeastLessThan_iff)
    then show ?thesis by (rule map_of_zip_other)
  qed
  moreover have "[i..<i + length (p # stks)] = i # [Suc i..<Suc i + length stks]"
  proof -
    have "i + length (p # stks) = Suc i + length stks" by simp
    then show ?thesis using upt_conv_Cons [of i "i + length (p # stks)"] by (simp only:)
  qed
  ultimately show ?case using IH by (auto simp: map_add_def split: option.split)
qed simp

lemma not_table_kept:
  assumes "mapped_pages root s ps f s' ps'" and "\<not> table_page (mem s) root p" and "p \<notin> set ps"
  shows "\<not> table_page (mem s') root p \<and> p \<notin> set ps'"
  using assms by (auto simp: mapped_pages_def)

lemma page_entries_1: "page_entries va pa perm 1 = [va \<mapsto> PA2PTE pa OR perm OR PTE_V]"
  by (simp only: One_nat_def page_entries.simps map_add_empty)

lemma stack_area: "i < 64 \<Longrightarrow> unat (KSTACK (of_nat i)) div 2 ^ 21 \<in> areas"
proof -
  assume "i < 64"
  then have "unat (KSTACK (of_nat i)) div 2 ^ 21 = 131071" by (simp add: unat_KSTACK)
  then show ?thesis by (simp add: areas_def)
qed

lemma mapstacks_ok:
  assumes "mapped_pages root s0 ps0 F s ps" and "\<And>va. leaf (mem s0) root va = 0" and "has_room s root kernel_paths ps (n + c)"
    and "i + n \<le> 64" and "\<And>j. i \<le> j \<Longrightarrow> j < i + n \<Longrightarrow> F (KSTACK (of_nat j)) = None"
  shows "\<exists>stks s' ps'. proc_mapstacks_loop root i n s = Some s' \<and> mapped_pages root s0 ps0 (F ++ stack_map i stks) s' ps' \<and>
    length stks = n \<and> distinct stks \<and> set stks \<subseteq> set ps \<and> (\<forall>p \<in> set stks. \<not> table_page (mem s') root p \<and> p \<notin> set ps') \<and>
    (\<forall>p. \<not> table_page (mem s) root p \<longrightarrow> p \<notin> set ps \<longrightarrow> \<not> table_page (mem s') root p \<and> p \<notin> set ps')"
  using assms
proof (induction n arbitrary: i F s ps)
  case 0
  then show ?case by (intro exI [of _ "[]"] exI [of _ s] exI [of _ ps]) simp
next
  case (Suc n)
  have i: "i < 64" using Suc.prems(4) by simp
  obtain p ps1 where ps: "ps = p # ps1" using Suc.prems(3) by (cases ps) (auto simp: has_room_def)
  have inv: "pt_inv s root (p # ps1)" using Suc.prems(1) ps by (simp add: mapped_pages_def)
  obtain q s1 where k: "kalloc s = (q, s1)" by fastforce
  note a = kalloc_keeps_table [OF inv k]
  have room1: "has_room s1 root kernel_paths ps1 (n + c)"
    using Suc.prems(3) a by (auto simp: has_room_def ps missing_def cong: conj_cong)
  have m1: "mapped_pages root s0 ps0 F s1 ps1"
    using mapped_pages_trans [OF Suc.prems(1) [unfolded ps] conjunct1 [OF conjunct2 [OF a]]] by simp
  have p: "p \<noteq> 0" "p \<notin> set ps1" "\<not> table_page (mem s) root p" "distinct ps1"
    using inv by (auto simp: pt_inv_def kmem_inv_def ram_page_def table_page_def)
  let ?K = "KSTACK (of_nat i)"
  have fresh: "F r = None" if "unat ?K \<le> unat r" "unat r < unat ?K + 4096 * 1" "page_aligned r" for r
  proof -
    have "unat r = unat ?K"
      using that KSTACK_aligned [OF i] unfolding page_aligned_unat mod_eq_0_iff_dvd dvd_def by auto
    then have "r = ?K" by (simp only: word_unat_eq_iff)
    then show ?thesis using Suc.prems(5) [of i] by simp
  qed
  have "unat ?K + 4096 * 1 \<le> 2 ^ 38" by (simp add: unat_KSTACK [OF i])
  moreover have "(unat ?K + 4096 * k) div 2 ^ 21 \<in> areas" if "k < 1" for k using stack_area [OF i] that by simp
  ultimately obtain s2 ps2 where s2: "kvmmap root ?K p (4096 * of_nat 1) (PTE_R OR PTE_W) s1 = Some s2"
    "mapped_pages root s0 ps0 (F ++ page_entries ?K p (PTE_R OR PTE_W) 1) s2 ps2"
    "mapped_pages root s1 ps1 (page_entries ?K p (PTE_R OR PTE_W) 1) s2 ps2" "has_room s2 root kernel_paths ps2 (n + c)"
    using kvm_step [OF m1 Suc.prems(2) room1 KSTACK_aligned [OF i] zero_less_one] fresh by metis
  have sub: "set ps2 \<subseteq> set ps1" using s2(3) by (auto simp: mapped_pages_def)
  have le: "Suc i + n \<le> 64" using Suc.prems(4) by simp
  have "(F ++ page_entries ?K p (PTE_R OR PTE_W) 1) (KSTACK (of_nat j)) = None" if "Suc i \<le> j" "j < Suc i + n" for j
    using Suc.prems(4) Suc.prems(5) [of j] that KSTACK_inj [of j i] unfolding page_entries_1 by (simp add: map_add_def)
  then obtain stks s' ps' where r: "proc_mapstacks_loop root (Suc i) n s2 = Some s'"
    "mapped_pages root s0 ps0 ((F ++ page_entries ?K p (PTE_R OR PTE_W) 1) ++ stack_map (Suc i) stks) s' ps'"
    "length stks = n" "distinct stks" "set stks \<subseteq> set ps2" "\<forall>p \<in> set stks. \<not> table_page (mem s') root p \<and> p \<notin> set ps'"
    "\<forall>p. \<not> table_page (mem s2) root p \<longrightarrow> p \<notin> set ps2 \<longrightarrow> \<not> table_page (mem s') root p \<and> p \<notin> set ps'"
    using Suc.IH [OF s2(2) Suc.prems(2) s2(4) le] by blast
  have keep: "\<not> table_page (mem s') root u \<and> u \<notin> set ps'" if "\<not> table_page (mem s) root u" "u \<notin> set ps1" for u
  proof -
    have "\<not> table_page (mem s1) root u" using a that(1) by (auto simp: table_page_def)
    then show ?thesis using not_table_kept [OF s2(3) _ that(2)] r(7) by blast
  qed
  have "proc_mapstacks_loop root i (Suc n) s = Some s'" using k a p(1) s2(1) r(1) by simp
  moreover have "mapped_pages root s0 ps0 (F ++ stack_map i (p # stks)) s' ps'"
    using r(2) unfolding page_entries_1 by (simp only: stack_map.simps map_add_assoc)
  moreover have "length (p # stks) = Suc n" "distinct (p # stks)" "set (p # stks) \<subseteq> set ps"
    using r(3-5) sub p(2) ps by auto
  moreover have "\<forall>u \<in> set (p # stks). \<not> table_page (mem s') root u \<and> u \<notin> set ps'"
    using keep [OF p(3,2)] r(6) by auto
  ultimately show ?case using keep ps by (intro exI [of _ "p # stks"] exI [of _ s'] exI [of _ ps']) auto
qed

section \<open>The kernel's map\<close>

definition kernel_ranges :: "u64 \<Rightarrow> u64 \<Rightarrow> range_spec list" where
  "kernel_ranges etext tramp =
     [(UART0, UART0, 1, PTE_R OR PTE_W), (VIRTIO0, VIRTIO0, 1, PTE_R OR PTE_W), (PLIC, PLIC, 1024, PTE_R OR PTE_W),
      (KERNBASE, KERNBASE, (unat etext - 2 ^ 31) div 4096, PTE_R OR PTE_X), (etext, etext, (2 ^ 31 + 2 ^ 27 - unat etext) div 4096, PTE_R OR PTE_W),
      (TRAMPOLINE, tramp, 1, PTE_R OR PTE_X)]"

lemma layout_unat: "unat UART0 = 0x10000000" "unat VIRTIO0 = 0x10001000" "unat PLIC = 0xc000000" "unat KERNBASE = 2 ^ 31"
    "unat PHYSTOP = 2 ^ 31 + 2 ^ 27" "unat TRAMPOLINE = 2 ^ 38 - 4096"
  by (simp_all add: UART0_def VIRTIO0_def PLIC_def KERNBASE_def PHYSTOP_val TRAMPOLINE_def MAXVA_val)

lemma area_ram: "2 ^ 31 \<le> x \<Longrightarrow> x < 2 ^ 31 + 2 ^ 27 \<Longrightarrow> x div 2 ^ 21 \<in> areas"
proof -
  assume "2 ^ 31 \<le> x" "x < 2 ^ 31 + 2 ^ 27"
  then have "1024 \<le> x div 2 ^ 21" "x div 2 ^ 21 < 1088" by (simp_all add: div_le_mono less_mult_imp_div_less)
  then show ?thesis by (simp add: areas_def)
qed

lemma etext_pages:
  assumes "page_aligned etext" and "KERNBASE < etext" and "etext < PHYSTOP"
  shows "etext - KERNBASE = 4096 * of_nat ((unat etext - 2 ^ 31) div 4096)"
    and "PHYSTOP - etext = 4096 * of_nat ((2 ^ 31 + 2 ^ 27 - unat etext) div 4096)"
    and "2 ^ 31 + 4096 * ((unat etext - 2 ^ 31) div 4096) = unat etext" and "0 < (unat etext - 2 ^ 31) div 4096"
    and "unat etext + 4096 * ((2 ^ 31 + 2 ^ 27 - unat etext) div 4096) = 2 ^ 31 + 2 ^ 27" and "0 < (2 ^ 31 + 2 ^ 27 - unat etext) div 4096"
proof -
  obtain e where e: "unat etext = 4096 * e"
    using assms(1) unfolding page_aligned_unat mod_eq_0_iff_dvd dvd_def by auto
  have b: "2 ^ 31 < unat etext" "unat etext < 2 ^ 31 + 2 ^ 27"
    using assms(2,3) by (simp_all add: word_less_nat_alt layout_unat)
  have d: "(unat etext - 2 ^ 31) div 4096 = e - 524288" "(2 ^ 31 + 2 ^ 27 - unat etext) div 4096 = 557056 - e"
    using b e by simp_all
  show "2 ^ 31 + 4096 * ((unat etext - 2 ^ 31) div 4096) = unat etext" "0 < (unat etext - 2 ^ 31) div 4096"
    "unat etext + 4096 * ((2 ^ 31 + 2 ^ 27 - unat etext) div 4096) = 2 ^ 31 + 2 ^ 27" "0 < (2 ^ 31 + 2 ^ 27 - unat etext) div 4096"
    using b e by (simp_all add: d)
  have w: "etext = 4096 * of_nat e" using e unat_lt_u64 [of etext] unat_pages [of e] by (simp add: word_unat_eq_iff)
  show "etext - KERNBASE = 4096 * of_nat ((unat etext - 2 ^ 31) div 4096)"
    using b e unfolding d by (simp add: w KERNBASE_def of_nat_diff)
  show "PHYSTOP - etext = 4096 * of_nat ((2 ^ 31 + 2 ^ 27 - unat etext) div 4096)"
    using b e unfolding d by (simp add: w PHYSTOP_val of_nat_diff)
qed

lemma kvmmake_ranges:
  assumes "page_aligned etext" and "KERNBASE < etext" and "etext < PHYSTOP"
  shows "kvmmake etext tramp s = (case kalloc s of (root, s1) \<Rightarrow> if root = 0 then None else do {
     s2 \<leftarrow> map_ranges root (kernel_ranges etext tramp) (s1\<lparr>mem := memset (mem s1) root 0 4096\<rparr>);
     s3 \<leftarrow> proc_mapstacks root s2; Some (root, s3) })"
  unfolding kvmmake_def kernel_ranges_def etext_pages(1,2) [OF assms]
  by (simp add: Let_def Option.bind_assoc split: prod.split)

lemma kernel_ranges_ok:
  assumes "page_aligned etext" and "KERNBASE < etext" and "etext < PHYSTOP"
  shows "\<forall>r \<in> set (kernel_ranges etext tramp). range_ok r" and "sorted_wrt apart (kernel_ranges etext tramp)"
proof -
  note e = etext_pages(3-6) [OF assms]
  have b: "2 ^ 31 < unat etext" "unat etext < 2 ^ 31 + 2 ^ 27"
    using assms(2,3) by (simp_all add: word_less_nat_alt layout_unat)
  let ?n = "(unat etext - 2 ^ 31) div 4096" and ?m = "(2 ^ 31 + 2 ^ 27 - unat etext) div 4096"
  have "range_ok (UART0, UART0, 1, PTE_R OR PTE_W)" "range_ok (VIRTIO0, VIRTIO0, 1, PTE_R OR PTE_W)"
    "range_ok (TRAMPOLINE, tramp, 1, PTE_R OR PTE_X)"
    by (simp_all add: range_ok_def page_aligned_unat layout_unat areas_def)
  moreover have "range_ok (PLIC, PLIC, 1024, PTE_R OR PTE_W)"
  proof -
    have "(0xc000000 + 4096 * k) div 2 ^ 21 = 96 \<or> (0xc000000 + 4096 * k) div 2 ^ 21 = 97" if "k < 1024" for k :: nat
      using that by (cases "k < 512") auto
    then show ?thesis by (auto simp: range_ok_def page_aligned_unat layout_unat areas_def)
  qed
  moreover have "range_ok (KERNBASE, KERNBASE, ?n, PTE_R OR PTE_X)"
    using area_ram e b by (auto simp: range_ok_def page_aligned_unat layout_unat)
  moreover have "range_ok (etext, etext, ?m, PTE_R OR PTE_W)"
    using area_ram e b assms(1) by (auto simp: range_ok_def)
  ultimately show "\<forall>r \<in> set (kernel_ranges etext tramp). range_ok r" by (simp add: kernel_ranges_def)
  show "sorted_wrt apart (kernel_ranges etext tramp)"
    using e b by (simp add: kernel_ranges_def apart_def layout_unat)
qed

abbreviation entry_of :: "(u64 \<times> u64) option \<Rightarrow> u64 option" where
  "entry_of \<equiv> map_option (\<lambda>(pa, perm). PA2PTE pa OR perm OR PTE_V)"

lemma range_entries_kernel:
  assumes "page_aligned etext" and "KERNBASE < etext" and "etext < PHYSTOP" and "page_aligned p"
  shows "range_entries (kernel_ranges etext tramp) p = entry_of (kernel_page etext tramp [] p)"
proof -
  note e = etext_pages(3-6) [OF assms(1-3)]
  have b: "2 ^ 31 < unat etext" "unat etext < 2 ^ 31 + 2 ^ 27"
    using assms(2,3) by (simp_all add: word_less_nat_alt layout_unat)
  obtain k where k: "unat p = 4096 * k"
    using assms(4) unfolding page_aligned_unat mod_eq_0_iff_dvd dvd_def by auto
  have pl: "unat (PLIC + 0x400000) = 0xc400000" by (simp add: PLIC_def)
  note at = page_entries_at [OF _ assms(4)]
  have 1: "page_entries UART0 UART0 perm 1 p = (if p = UART0 then Some (PA2PTE p OR perm OR PTE_V) else None)"
    and 2: "page_entries VIRTIO0 VIRTIO0 perm 1 p = (if p = VIRTIO0 then Some (PA2PTE p OR perm OR PTE_V) else None)"
    and 3: "page_entries TRAMPOLINE tramp perm 1 p = (if p = TRAMPOLINE then Some (PA2PTE tramp OR perm OR PTE_V) else None)" for perm
    unfolding page_entries_1 by auto
  have 4: "page_entries PLIC PLIC perm 1024 p = (if PLIC \<le> p \<and> p < PLIC + 0x400000 then Some (PA2PTE p OR perm OR PTE_V) else None)" for perm
    by (subst at) (simp_all add: page_aligned_unat layout_unat word_le_nat_alt word_less_nat_alt pl)
  have 5: "page_entries KERNBASE KERNBASE perm ((unat etext - 2 ^ 31) div 4096) p =
      (if KERNBASE \<le> p \<and> p < etext then Some (PA2PTE p OR perm OR PTE_V) else None)" for perm
    by (subst at) (use e b in \<open>simp_all add: page_aligned_unat layout_unat word_le_nat_alt word_less_nat_alt\<close>)
  have 6: "page_entries etext etext perm ((2 ^ 31 + 2 ^ 27 - unat etext) div 4096) p =
      (if etext \<le> p \<and> p < PHYSTOP then Some (PA2PTE p OR perm OR PTE_V) else None)" for perm
    by (subst at) (use e b assms(1) in \<open>simp_all add: layout_unat word_le_nat_alt word_less_nat_alt\<close>)
  show ?thesis
    using b k unfolding kernel_ranges_def range_entries.simps prod.case map_add_empty map_add_def 1 2 3 4 5 6 kernel_page_def
    by (auto simp: word_le_nat_alt word_less_nat_alt word_unat_eq_iff layout_unat pl)
qed

lemma kernel_page_high:
  assumes "2 ^ 37 \<le> unat a" and "unat a < 2 ^ 38 - 4096" and "etext < PHYSTOP"
  shows "kernel_page etext tramp stks a =
    map_option (\<lambda>p. (p, PTE_R OR PTE_W)) (map_of (zip (map (\<lambda>i. KSTACK (of_nat i)) [0..<NPROC]) stks) a)"
proof -
  have "unat etext < 2 ^ 31 + 2 ^ 27" using assms(3) by (simp add: word_less_nat_alt layout_unat)
  moreover have "unat (PLIC + 0x400000) = 0xc400000" by (simp add: PLIC_def)
  ultimately have "a \<noteq> UART0" "a \<noteq> VIRTIO0" "\<not> a < PLIC + 0x400000" "\<not> a < etext" "\<not> a < PHYSTOP" "a \<noteq> TRAMPOLINE"
    using assms(1,2) by (auto simp: word_less_nat_alt layout_unat dest: arg_cong [of _ _ unat])
  then show ?thesis by (simp add: kernel_page_def)
qed

lemma kernel_entry_map:
  assumes "page_aligned etext" and "KERNBASE < etext" and "etext < PHYSTOP" and "length stks = NPROC"
  shows "kernel_entry etext tramp stks va =
    (case (range_entries (kernel_ranges etext tramp) ++ stack_map 0 stks) (PGROUNDDOWN va) of None \<Rightarrow> 0 | Some e \<Rightarrow> e)"
proof -
  let ?p = "PGROUNDDOWN va"
  let ?st = "map_of (zip (map (\<lambda>i. KSTACK (of_nat i)) [0..<NPROC]) stks) ?p"
  have st: "stack_map 0 stks ?p = map_option (\<lambda>p. PA2PTE p OR (PTE_R OR PTE_W) OR PTE_V) ?st"
    using stack_map_eq [of 0 stks ?p] assms(4) by (simp add: NPROC_def)
  show ?thesis
  proof (cases ?st)
    case None
    then show ?thesis using st range_entries_kernel [OF assms(1-3) PGROUNDDOWN_aligned, of tramp va]
      by (auto simp: kernel_entry_def kernel_page_def map_add_def)
  next
    case (Some q)
    then obtain i where i: "i < 64" "?p = KSTACK (of_nat i)"
      by (auto dest!: map_of_SomeD set_zip_leftD simp: NPROC_def)
    have "kernel_page etext tramp stks ?p = Some (q, PTE_R OR PTE_W)"
      by (subst kernel_page_high) (use i(1) assms(3) Some in \<open>simp_all add: i(2) unat_KSTACK\<close>)
    then show ?thesis using st Some by (simp add: kernel_entry_def map_add_def)
  qed
qed

text \<open>The guard page of a stack.\<close>

lemma guard_page:
  assumes "i < 64" and "etext < PHYSTOP"
  shows "KSTACK (of_nat i) - PGSIZE < MAXVA \<and> kernel_entry etext tramp stks (KSTACK (of_nat i) - PGSIZE) = 0"
proof -
  let ?g = "KSTACK (of_nat i) - PGSIZE"
  have "PGSIZE \<le> KSTACK (of_nat i)" using assms(1) by (simp add: word_le_nat_alt unat_KSTACK)
  then have u: "unat ?g = 2 ^ 38 - 8192 * (i + 2)"
    using assms(1) by (simp add: unat_sub unat_KSTACK)
  have "2 ^ 38 - 8192 * (i + 2) = 4096 * (2 ^ 26 - 2 * (i + 2))" using assms(1) by simp
  then have al: "page_aligned ?g" unfolding page_aligned_unat u by simp
  have "?g \<noteq> KSTACK (of_nat j)" if "j < 64" for j
  proof
    assume "?g = KSTACK (of_nat j)"
    then have "2 ^ 38 - 8192 * (i + 2) = (2 ^ 38 - 4096 - 8192 * (j + 1) :: nat)" using u unat_KSTACK [OF that] by simp
    then have "8192 * j + (8192 + 4096) = 8192 * (i + 2)" using that assms(1) by simp
    then have "(8192 * j + (8192 + 4096)) mod 8192 = 8192 * (i + 2) mod (8192 :: nat)" by (rule arg_cong)
    then show False by (simp add: mod_add_eq [symmetric])
  qed
  then have "?g \<notin> set (map (\<lambda>i. KSTACK (of_nat i)) [0..<NPROC])"
    unfolding set_map image_iff set_upt NPROC_def by (metis atLeastLessThan_iff)
  then have "map_of (zip (map (\<lambda>i. KSTACK (of_nat i)) [0..<NPROC]) stks) ?g = None" by (rule map_of_zip_other)
  then have "kernel_page etext tramp stks ?g = None"
    by (subst kernel_page_high) (use u assms in simp_all)
  then show ?thesis using u assms(1) al by (simp add: kernel_entry_def PGROUNDDOWN_id word_less_nat_alt MAXVA_val)
qed

text \<open>
  C15: with 136 free pages \<open>kvmmake\<close> does not panic, and the table it returns maps exactly the devices, the kernel code (not
  writable), the rest of RAM (not executable), the trampoline and one page of stack for each process: the stacks
  are different pages that no table and no free page is, and the page below each of them is not mapped, so that a stack
  that overflows faults.
\<close>

theorem kernel_map:
  assumes "kmem_inv s ps" and "136 \<le> length ps" and "page_aligned etext" and "KERNBASE < etext" and "etext < PHYSTOP"
  shows "\<exists>root stks s' ps'. kvmmake etext tramp s = Some (root, s') \<and> pt_inv s' root ps' \<and>
    (\<forall>va < MAXVA. leaf (mem s') root va = kernel_entry etext tramp stks va) \<and>
    length stks = NPROC \<and> distinct stks \<and> (\<forall>p \<in> set stks. ram_page s p \<and> p \<notin> set ps' \<and> \<not> table_page (mem s') root p) \<and>
    (\<forall>i < NPROC. leaf (mem s') root (KSTACK (of_nat i) - PGSIZE) = 0)"
proof -
  obtain p ps1 where ps: "ps = p # ps1" using assms(2) by (cases ps) auto
  obtain q s1 where k: "kalloc s = (q, s1)" by fastforce
  let ?s2 = "s1\<lparr>mem := memset (mem s1) p 0 4096\<rparr>" and ?rs = "kernel_ranges etext tramp"
  note z = zeroed_root [OF assms(1) [unfolded ps] k]
  have "card (missing (mem ?s2) p kernel_paths) \<le> card kernel_paths"
    by (rule card_mono) (auto simp: kernel_paths_ok missing_def)
  then have room: "has_room ?s2 p kernel_paths ps1 (NPROC + 0)"
    using kernel_paths_ok assms(2) ps by (simp add: has_room_def NPROC_def)
  have "mapped_pages p ?s2 ps1 Map.empty ?s2 ps1" using z(3) by (simp add: mapped_pages_def pt_frame_refl)
  then obtain s3 ps3 where s3: "map_ranges p ?rs ?s2 = Some s3" "mapped_pages p ?s2 ps1 (range_entries ?rs) s3 ps3"
    "has_room s3 p kernel_paths ps3 (NPROC + 0)"
    using map_ranges_ok [OF _ z(4) room kernel_ranges_ok [OF assms(3-5)]] by fastforce
  have "range_entries ?rs (KSTACK (of_nat j)) = None" if "j < 64" for j
    unfolding range_entries_kernel [OF assms(3-5) KSTACK_aligned [OF that]]
    by (subst kernel_page_high) (use that assms(5) in \<open>simp_all add: unat_KSTACK\<close>)
  then obtain stks s' ps' where f: "proc_mapstacks_loop p 0 NPROC s3 = Some s'"
    "mapped_pages p ?s2 ps1 (range_entries ?rs ++ stack_map 0 stks) s' ps'" "length stks = NPROC" "distinct stks"
    "set stks \<subseteq> set ps3" "\<forall>p' \<in> set stks. \<not> table_page (mem s') p p' \<and> p' \<notin> set ps'"
    using mapstacks_ok [OF s3(2) z(4) s3(3), of 0] by (auto simp: NPROC_def)
  have "kvmmake etext tramp s = Some (p, s')"
    using k z(1,2) s3(1) f(1) by (simp add: kvmmake_ranges [OF assms(3-5)] proc_mapstacks_def)
  moreover have l: "\<forall>va < MAXVA. leaf (mem s') p va = kernel_entry etext tramp stks va"
  proof (intro allI impI)
    fix va :: u64 assume "va < MAXVA"
    then have "leaf (mem s') p va = (case (range_entries ?rs ++ stack_map 0 stks) (PGROUNDDOWN va) of
        None \<Rightarrow> leaf (mem ?s2) p va | Some e \<Rightarrow> e)"
      using f(2) unfolding mapped_pages_def by blast
    then show "leaf (mem s') p va = kernel_entry etext tramp stks va"
      unfolding z(4) kernel_entry_map [OF assms(3-5) f(3)] .
  qed
  moreover have "set ps3 \<subseteq> set ps" using s3(2) ps by (auto simp: mapped_pages_def)
  then have "\<forall>p' \<in> set stks. ram_page s p'" using f(5) assms(1) by (auto simp: kmem_inv_def)
  moreover have "leaf (mem s') p (KSTACK (of_nat i) - PGSIZE) = 0" if "i < NPROC" for i
    using l guard_page [OF _ assms(5)] that by (simp add: NPROC_def)
  moreover have "pt_inv s' p ps'" using f(2) by (simp add: mapped_pages_def)
  ultimately show ?thesis using f(3,4,6) by blast
qed

text \<open>On the machine that \<open>kinit\<close> leaves: all of RAM behind the kernel image is free.\<close>

theorem kernel_map_witness:
  "\<exists>s1 root s'. kinit boot_state = Some s1 \<and> kvmmake 0x80008000 0x80007000 s1 = Some (root, s') \<and>
     leaf (mem s') root 0x80000000 = 0x2000000B \<and> leaf (mem s') root TRAMPOLINE = 0x20001C0B"
proof -
  have up: "PGROUNDUP 0x80021d50 = 0x80022000" by (simp add: PGROUNDUP_def)
  obtain s1 ps where s1: "kinit boot_state = Some s1" "kmem_inv s1 ps"
    "set ps = {q. page_aligned q \<and> 0x80022000 \<le> q \<and> q < PHYSTOP}"
    using freerange_loop_ram [of boot_state "[]" "0x80022000"]
    by (auto simp: kinit_def freerange_def boot_state_def up kmem_inv_Nil page_aligned_def PHYSTOP_val)
  have u: "unat (0x80022000 + 4096 * of_nat k :: u64) = 0x80022000 + 4096 * k" if "k < 136" for k :: nat
    using that by (simp add: unat_word_ariths unat_of_nat_lt64)
  let ?pg = "\<lambda>k. 0x80022000 + 4096 * of_nat k :: u64"
  have "?pg k \<in> set ps" if "k < 136" for k
    unfolding s1(3) using that by (simp add: u page_aligned_unat word_le_nat_alt word_less_nat_alt layout_unat)
  then have "?pg ` {..<136} \<subseteq> set ps" by auto
  moreover have "inj_on ?pg {..<136}"
  proof (rule inj_onI)
    fix j k :: nat assume jk: "j \<in> {..<136}" "k \<in> {..<136}" "?pg j = ?pg k"
    have "0x80022000 + 4096 * j = 0x80022000 + 4096 * k" using u [of j] u [of k] jk by (metis lessThan_iff)
    then show "j = k" by simp
  qed
  ultimately have "136 \<le> card (set ps)" by (metis card_image card_lessThan card_mono List.finite_set)
  then have len: "136 \<le> length ps" using card_length le_trans by blast
  obtain root stks s' where k: "kvmmake 0x80008000 0x80007000 s1 = Some (root, s')"
    "\<forall>va < MAXVA. leaf (mem s') root va = kernel_entry 0x80008000 0x80007000 stks va"
    using kernel_map [OF s1(2) len, of "0x80008000" "0x80007000"]
    by (auto simp: page_aligned_def KERNBASE_def PHYSTOP_val)
  have "kernel_entry 0x80008000 0x80007000 stks 0x80000000 = 0x2000000B" "kernel_entry 0x80008000 0x80007000 stks TRAMPOLINE = 0x20001C0B"
    by (simp_all add: kernel_entry_def kernel_page_def PGROUNDDOWN_def UART0_def VIRTIO0_def PLIC_def KERNBASE_def PHYSTOP_val TRAMPOLINE_def MAXVA_val PA2PTE_def)
  then show ?thesis using s1(1) k by (auto simp: MAXVA_val TRAMPOLINE_def)
qed

end
