(* ===== verification/Log_Crash.thy ===== *)
theory Log_Crash
  imports Log
begin

text \<open>
  The commit protocol of kernel/log.c is atomic: whatever prefix of its disk writes has reached
  the disk when the machine stops, recovery on the next boot leaves every block outside the log
  with its old content, or every block with its new content.
\<close>

section \<open>Writes as maps\<close>

primrec apply_writes :: "(u32 \<times> block) list \<Rightarrow> (u32 \<Rightarrow> block) \<Rightarrow> u32 \<Rightarrow> block" where
  "apply_writes [] d = d"
| "apply_writes (w # ws) d = apply_writes ws (d(fst w := snd w))"

lemma apply_writes_append [simp]: "apply_writes (ws @ vs) d = apply_writes vs (apply_writes ws d)"
  by (induction ws arbitrary: d) auto

lemma apply_writes_other: "b \<notin> fst ` set ws \<Longrightarrow> apply_writes ws d b = d b"
  by (induction ws arbitrary: d) auto

lemma apply_writes_map:
  "distinct (map f ts) \<Longrightarrow> t \<in> set ts \<Longrightarrow> apply_writes (map (\<lambda>t. (f t, g t)) ts) d (f t) = g t"
proof (induction ts arbitrary: d)
  case Nil
  then show ?case by simp
next
  case (Cons a ts)
  then show ?case by (cases "t = a") (auto simp: apply_writes_other image_image)
qed

text \<open>\<open>g\<close> may look at the same function \<open>h\<close> of the index again.\<close>

lemma apply_writes_const:
  assumes "\<And>t. t \<in> set ts \<Longrightarrow> f t = b \<Longrightarrow> g t = x" and "b \<in> f ` set ts"
  shows "apply_writes (map (\<lambda>t. (f t, g t)) ts) d b = x"
  using assms
proof (induction ts arbitrary: d)
  case Nil
  then show ?case by simp
next
  case (Cons a ts)
  show ?case
  proof (cases "b \<in> f ` set ts")
    case True
    then show ?thesis using Cons by simp
  next
    case False
    then have "f a = b" using Cons.prems(2) by auto
    moreover have "b \<notin> fst ` set (map (\<lambda>t. (f t, g t)) ts)" using False by (auto simp: image_comp)
    ultimately show ?thesis using Cons.prems(1) [of a] by (simp add: apply_writes_other)
  qed
qed

section \<open>The log fields are outside the cache\<close>

lemma log_fields_more:
  assumes "bio_state.more s' = bio_state.more s"
  shows "log_start s' = log_start s" "log_size s' = log_size s" "outstanding s' = outstanding s"
    "committing s' = committing s" "log_dev s' = log_dev s" "lh_n s' = lh_n s" "lh_block s' = lh_block s"
  using assms by (cases s; cases s'; simp)+

lemma bread_more: "bread dev b s = Some (i, s') \<Longrightarrow> bio_state.more s' = bio_state.more s"
  by (auto simp: bread_def bget_def acquire_buf_def disk_read_def monad_simps
      split: option.splits if_splits)

lemma write_one_copy:
  assumes "log_dev s = ROOTDEV" and "tail < length (lh_block s)"
  shows "write_one tail s = bc.copy_first (log_start s + of_nat tail + 1) (lh_block s ! tail) s"
proof (cases "bread ROOTDEV (log_start s + of_nat tail + 1) s")
  case None
  then show ?thesis using assms by (simp add: write_one_def bc.copy_first_def)
next
  case (Some r)
  obtain i s1 where r: "r = (i, s1)" by (cases r)
  then have "bio_state.more s1 = bio_state.more s" using Some bread_more by blast
  note log_fields_more [OF this]
  with Some assms r show ?thesis by (simp add: write_one_def bc.copy_first_def)
qed

lemma install_one_copy:
  assumes "log_dev s = ROOTDEV" and "tail < length (lh_block s)"
  shows "install_one r tail s = bc.copy_second r (log_start s + of_nat tail + 1) (lh_block s ! tail) s"
proof (cases "bread ROOTDEV (log_start s + of_nat tail + 1) s")
  case None
  then show ?thesis using assms by (simp add: install_one_def bc.copy_second_def)
next
  case (Some q)
  obtain i s1 where q: "q = (i, s1)" by (cases q)
  then have "bio_state.more s1 = bio_state.more s" using Some bread_more by blast
  note log_fields_more [OF this]
  with Some assms q show ?thesis by (simp add: install_one_def bc.copy_second_def Let_def)
qed

section \<open>Geometry\<close>

definition slot :: "u32 \<Rightarrow> nat \<Rightarrow> u32" where
  "slot start t = start + of_nat t + 1"

definition log_area :: "u32 \<Rightarrow> u32 \<Rightarrow> bool" where
  "log_area start b \<longleftrightarrow> b = start \<or> (\<exists>t < LOGSIZE. b = slot start t)"

text \<open>The log between calls: no buffer is locked and two can be recycled.\<close>

definition log_ok :: "'a log_state_scheme \<Rightarrow> bool" where
  "log_ok s \<longleftrightarrow> cache_inv s \<and> log_dev s = ROOTDEV \<and> (\<forall>b. bc.ready s b) \<and> 2 \<le> nfree s \<and>
     length (lh_block s) = LOGSIZE \<and> unat (log_start s) + LOGSIZE + 1 < 2 ^ 32"

definition trans_ok :: "u32 \<Rightarrow> u32 list \<Rightarrow> nat \<Rightarrow> bool" where
  "trans_ok start bs n \<longleftrightarrow> n \<le> LOGSIZE \<and> n \<le> length bs \<and> distinct (take n bs) \<and> (\<forall>t < n. \<not> log_area start (bs ! t))"

lemma LOGSIZE_val: "LOGSIZE = 30"
  by (simp add: LOGSIZE_def MAXOPBLOCKS_def)

lemma unat_slot: "unat start + LOGSIZE + 1 < 2 ^ 32 \<Longrightarrow> t < LOGSIZE \<Longrightarrow> unat (slot start t) = unat start + t + 1"
  by (simp add: slot_def LOGSIZE_val unat_word_ariths unat_of_nat take_bit_nat_eq_self)

lemma slot_inj:
  "unat start + LOGSIZE + 1 < 2 ^ 32 \<Longrightarrow> t < LOGSIZE \<Longrightarrow> u < LOGSIZE \<Longrightarrow> slot start t = slot start u \<longleftrightarrow> t = u"
  using unat_slot [of start t] unat_slot [of start u] by (auto simp: word_unat_eq_iff)

lemma slot_start: "unat start + LOGSIZE + 1 < 2 ^ 32 \<Longrightarrow> t < LOGSIZE \<Longrightarrow> slot start t \<noteq> start"
  using unat_slot [of start t] by auto

lemma home_not_slot: "trans_ok start bs n \<Longrightarrow> t < n \<Longrightarrow> u < LOGSIZE \<Longrightarrow> bs ! t \<noteq> slot start u"
  by (auto simp: trans_ok_def log_area_def)

lemma home_not_start: "trans_ok start bs n \<Longrightarrow> t < n \<Longrightarrow> bs ! t \<noteq> start"
  by (auto simp: trans_ok_def log_area_def)

lemma trans_distinct: "trans_ok start bs n \<Longrightarrow> t < n \<Longrightarrow> u < n \<Longrightarrow> bs ! t = bs ! u \<longleftrightarrow> t = u"
  using nth_eq_iff_index_eq [of "take n bs" t u] by (simp add: trans_ok_def)

section \<open>The header block\<close>

lemma write_blocks_ok:
  assumes "i + n \<le> length bs" and "4 * (i + n + 1) \<le> length d"
  shows "\<exists>d'. write_blocks bs i n d = Some d' \<and> length d' = length d \<and>
    (\<forall>k. i \<le> k \<longrightarrow> k < i + n \<longrightarrow> get32 d' (4 * (k + 1)) = bs ! k) \<and>
    (\<forall>k. k < i \<longrightarrow> get32 d' (4 * (k + 1)) = get32 d (4 * (k + 1))) \<and> get32 d' 0 = get32 d 0"
  using assms
proof (induction n arbitrary: i d)
  case 0
  then show ?case by simp
next
  case (Suc n)
  let ?d = "put32 d (4 * (i + 1)) (bs ! i)"
  obtain d' where d': "write_blocks bs (Suc i) n ?d = Some d'" "length d' = length d"
    "\<forall>k. Suc i \<le> k \<longrightarrow> k < Suc i + n \<longrightarrow> get32 d' (4 * (k + 1)) = bs ! k"
    "\<forall>k. k < Suc i \<longrightarrow> get32 d' (4 * (k + 1)) = get32 ?d (4 * (k + 1))" "get32 d' 0 = get32 ?d 0"
    using Suc.IH [of "Suc i" ?d] Suc.prems by auto
  have "get32 d' (4 * (k + 1)) = bs ! k" if "i \<le> k" "k < i + Suc n" for k
    using d'(3,4) that Suc.prems(2) by (cases "k = i") auto
  moreover have "get32 d' (4 * (k + 1)) = get32 d (4 * (k + 1))" if "k < i" for k
    using d'(4) that by simp
  ultimately show ?case using d' Suc.prems(1) by simp
qed

lemma read_blocks_ok:
  assumes "i + n \<le> length bs"
  shows "\<exists>bs'. read_blocks d i n bs = Some bs' \<and> length bs' = length bs \<and>
    (\<forall>k < length bs. bs' ! k = (if i \<le> k \<and> k < i + n then get32 d (4 * (k + 1)) else bs ! k))"
  using assms
proof (induction n arbitrary: i bs)
  case 0
  then show ?case by auto
next
  case (Suc n)
  then obtain bs' where "read_blocks d (Suc i) n (bs[i := get32 d (4 * (i + 1))]) = Some bs'" "length bs' = length bs"
    "\<forall>k < length bs. bs' ! k = (if Suc i \<le> k \<and> k < Suc i + n then get32 d (4 * (k + 1))
        else bs[i := get32 d (4 * (i + 1))] ! k)"
    using Suc.IH [of "Suc i" "bs[i := get32 d (4 * (i + 1))]"] by auto
  moreover from this(3) have "bs' ! k = (if i \<le> k \<and> k < i + Suc n then get32 d (4 * (k + 1)) else bs ! k)"
    if "k < length bs" for k
    using that Suc.prems by (cases "k = i") (auto simp: nth_list_update)
  ultimately show ?case using Suc.prems by simp
qed

text \<open>A header block that says \<open>n\<close> and lists \<open>bs\<close>.\<close>

definition header :: "block \<Rightarrow> nat \<Rightarrow> u32 list \<Rightarrow> bool" where
  "header d n bs \<longleftrightarrow> length d = BSIZE \<and> get32 d 0 = of_nat n \<and> (\<forall>k < n. get32 d (4 * (k + 1)) = bs ! k)"

section \<open>The loops\<close>

lemma log_ok_ready:
  assumes "log_ok s" and "cache_inv s'" and "bio_state.more s' = bio_state.more s"
    and "lck (cache_abs s') = lck (cache_abs s)" "\<And>b. ref (cache_abs s') b \<le> ref (cache_abs s) b"
    and "room (cache_abs s) \<le> room (cache_abs s')"
  shows "log_ok s'"
proof -
  have "bc.ready s' b" for b
    using assms(1,4) assms(5) [of b] by (auto simp: log_ok_def bc.ready_def intro: le_less_trans)
  moreover have "2 \<le> nfree s'" using assms(1,6) by (simp add: log_ok_def cache_abs_def)
  ultimately show ?thesis using assms(1,2) log_fields_more [OF assms(3)] by (simp add: log_ok_def)
qed

definition log_writes :: "'a log_state_scheme \<Rightarrow> nat \<Rightarrow> nat \<Rightarrow> (u32 \<times> block) list" where
  "log_writes s i n = map (\<lambda>t. (slot (log_start s) t, view s (lh_block s ! t))) [i..<i + n]"

definition home_writes :: "'a log_state_scheme \<Rightarrow> nat \<Rightarrow> nat \<Rightarrow> (u32 \<times> block) list" where
  "home_writes s i n = map (\<lambda>t. (lh_block s ! t, view s (slot (log_start s) t))) [i..<i + n]"

lemma upt_Cons: "[i..<Suc (i + n)] = i # [Suc i..<Suc (i + n)]"
  by (simp add: upt_rec)

lemma write_loop:
  assumes "log_ok s" "trans_ok (log_start s) (lh_block s) N" "i + n \<le> N"
  shows "\<exists>s'. for_tails write_one i n s = Some s' \<and> cache_inv s' \<and> bio_state.more s' = bio_state.more s \<and>
    cache_abs s' = (cache_abs s)\<lparr>cur := apply_writes (log_writes s i n) (view s),
      dsk := apply_writes (log_writes s i n) (platter s), tr := wtrace s @ log_writes s i n\<rparr>"
  using assms
proof (induction n arbitrary: i s)
  case 0
  then show ?case by (simp add: log_writes_def cache_abs_def log_ok_def)
next
  case (Suc n)
  let ?a = "slot (log_start s) i" and ?b = "lh_block s ! i"
  have i: "i < length (lh_block s)" "i < LOGSIZE" using Suc.prems by (auto simp: trans_ok_def)
  have ok: "cache_inv s" "bc.ready s ?a" "bc.ready s ?b" "2 \<le> room (cache_abs s)"
    using Suc.prems(1) by (auto simp: log_ok_def cache_abs_def)
  have ne: "?a \<noteq> ?b" using home_not_slot [OF Suc.prems(2), of i i] Suc.prems(3) i by auto
  obtain s1 where s1: "write_one i s = Some s1" "cache_inv s1" "bio_state.more s1 = bio_state.more s"
    "cache_abs s1 = (cache_abs s)\<lparr>cur := (view s)(?a := view s ?b), dsk := (platter s)(?a := view s ?b),
      tr := wtrace s @ [(?a, view s ?b)]\<rparr>"
    using bc.copy_first_ok [OF ok(1-3) ne ok(4)] write_one_copy [of s i] Suc.prems(1) i(1)
    by (auto simp: log_ok_def slot_def cache_abs_def)
  note m = log_fields_more [OF s1(3)]
  have v1: "view s1 = (view s)(?a := view s ?b)" "platter s1 = (platter s)(?a := view s ?b)"
    "wtrace s1 = wtrace s @ [(?a, view s ?b)]"
    using s1(4) by (simp_all add: cache_abs_def)
  have "log_ok s1" by (rule log_ok_ready [OF Suc.prems(1) s1(2,3)]) (simp_all add: s1(4))
  then obtain s' where s': "for_tails write_one (Suc i) n s1 = Some s'" "cache_inv s'"
    "bio_state.more s' = bio_state.more s1"
    "cache_abs s' = (cache_abs s1)\<lparr>cur := apply_writes (log_writes s1 (Suc i) n) (view s1),
      dsk := apply_writes (log_writes s1 (Suc i) n) (platter s1), tr := wtrace s1 @ log_writes s1 (Suc i) n\<rparr>"
    using Suc.IH [of s1 "Suc i"] Suc.prems m by auto
  have "view s1 (lh_block s ! t) = view s (lh_block s ! t)" if "t \<in> set [Suc i..<Suc i + n]" for t
    using home_not_slot [OF Suc.prems(2), of t i] that Suc.prems(3) i by (auto simp: v1)
  then have w: "log_writes s i (Suc n) = (?a, view s ?b) # log_writes s1 (Suc i) n"
    by (simp add: log_writes_def upt_Cons m del: upt.simps)
  show ?case using s1(1,3) s' by (simp add: w v1 s1(4))
qed

lemma install_loop:
  assumes "log_ok s" "trans_ok (log_start s) (lh_block s) N" "i + n \<le> N"
    and "keep \<or> (\<forall>t. i \<le> t \<longrightarrow> t < i + n \<longrightarrow> 1 \<le> pins s (lh_block s ! t))"
  shows "\<exists>s'. for_tails (install_one keep) i n s = Some s' \<and> log_ok s' \<and> bio_state.more s' = bio_state.more s \<and>
    view s' = apply_writes (home_writes s i n) (view s) \<and>
    platter s' = apply_writes (home_writes s i n) (platter s) \<and> wtrace s' = wtrace s @ home_writes s i n"
  using assms
proof (induction n arbitrary: i s)
  case 0
  then show ?case by (simp add: home_writes_def)
next
  case (Suc n)
  let ?a = "slot (log_start s) i" and ?b = "lh_block s ! i"
  have i: "i < length (lh_block s)" "i < LOGSIZE" using Suc.prems by (auto simp: trans_ok_def)
  have ok: "cache_inv s" "bc.ready s ?a" "bc.ready s ?b" "2 \<le> room (cache_abs s)"
    using Suc.prems(1) by (auto simp: log_ok_def cache_abs_def)
  have ne: "?a \<noteq> ?b" using home_not_slot [OF Suc.prems(2), of i i] Suc.prems(3) i by auto
  have k: "keep \<or> 1 \<le> ref (cache_abs s) ?b" using Suc.prems(4) by (auto simp: cache_abs_def)
  obtain s1 where s1: "install_one keep i s = Some s1" "cache_inv s1" "bio_state.more s1 = bio_state.more s"
    "cache_abs s1 = (cache_abs s)\<lparr>cur := (view s)(?b := view s ?a), dsk := (platter s)(?b := view s ?a),
      tr := wtrace s @ [(?b, view s ?a)], ref := (pins s)(?b := pins s ?b - (if keep then 0 else 1)),
      room := nfree s + (if keep \<or> pins s ?b \<noteq> 1 then 0 else 1)\<rparr>"
    using bc.copy_second_ok [OF ok(1-3) ne ok(4) k] install_one_copy [of s i keep] Suc.prems(1) i(1)
    by (auto simp: log_ok_def slot_def cache_abs_def)
  note m = log_fields_more [OF s1(3)]
  have v1: "view s1 = (view s)(?b := view s ?a)" "platter s1 = (platter s)(?b := view s ?a)"
    "wtrace s1 = wtrace s @ [(?b, view s ?a)]" "pins s1 = (pins s)(?b := pins s ?b - (if keep then 0 else 1))"
    using s1(4) by (simp_all add: cache_abs_def)
  have "log_ok s1" by (rule log_ok_ready [OF Suc.prems(1) s1(2,3)]) (auto simp: s1(4) cache_abs_def [of s])
  moreover have "keep \<or> (\<forall>t. Suc i \<le> t \<longrightarrow> t < Suc i + n \<longrightarrow> 1 \<le> pins s1 (lh_block s1 ! t))"
  proof -
    have "lh_block s ! t \<noteq> ?b" if "Suc i \<le> t" "t < Suc i + n" for t
      using trans_distinct [OF Suc.prems(2), of t i] that Suc.prems(3) by simp
    then show ?thesis using Suc.prems(4) by (auto simp: m v1)
  qed
  ultimately obtain s' where s': "for_tails (install_one keep) (Suc i) n s1 = Some s'" "log_ok s'"
    "bio_state.more s' = bio_state.more s1"
    "view s' = apply_writes (home_writes s1 (Suc i) n) (view s1)"
    "platter s' = apply_writes (home_writes s1 (Suc i) n) (platter s1)" "wtrace s' = wtrace s1 @ home_writes s1 (Suc i) n"
    using Suc.IH [of s1 "Suc i"] Suc.prems m by auto
  have "view s1 (slot (log_start s) t) = view s (slot (log_start s) t)" if "t \<in> set [Suc i..<Suc i + n]" for t
  proof -
    have "t < LOGSIZE" using that Suc.prems(2,3) by (auto simp: trans_ok_def)
    then have "?b \<noteq> slot (log_start s) t" using home_not_slot [OF Suc.prems(2), of i t] Suc.prems(3) by simp
    then show ?thesis by (simp add: v1)
  qed
  then have w: "home_writes s i (Suc n) = (?b, view s ?a) # home_writes s1 (Suc i) n"
    by (simp add: home_writes_def upt_Cons m del: upt.simps)
  show ?case using s1(1,3) s' by (simp add: w v1)
qed

section \<open>Reading and writing the header\<close>

lemma write_head_ok:
  assumes "log_ok s" "lh_n s = int n" "n \<le> LOGSIZE"
  shows "\<exists>s' d. write_head s = Some s' \<and> log_ok s' \<and> bio_state.more s' = bio_state.more s \<and>
    header d n (lh_block s) \<and> view s' = (view s)(log_start s := d) \<and> platter s' = (platter s)(log_start s := d) \<and>
    wtrace s' = wtrace s @ [(log_start s, d)] \<and> pins s' = pins s"
proof -
  define f where "f d = the (write_blocks (lh_block s) 0 n (put32 d 0 (of_nat n)))" for d
  have f: "write_blocks (lh_block s) 0 n (put32 d 0 (of_nat n)) = Some (f d) \<and> header (f d) n (lh_block s)"
    if "length d = BSIZE" for d
    using write_blocks_ok [of 0 n "lh_block s" "put32 d 0 (of_nat n)"] that assms
    by (auto simp: f_def header_def log_ok_def LOGSIZE_val BSIZE_def)
  have ok: "cache_inv s" "bc.ready s (log_start s)" "1 \<le> room (cache_abs s)" "log_dev s = ROOTDEV"
    using assms(1) by (auto simp: log_ok_def cache_abs_def)
  obtain s' where s': "bc.update_block (log_start s) f s = Some s'" "cache_inv s'" "bio_state.more s' = bio_state.more s"
    "cache_abs s' = (cache_abs s)\<lparr>cur := (view s)(log_start s := f (view s (log_start s))),
      dsk := (platter s)(log_start s := f (view s (log_start s))),
      tr := wtrace s @ [(log_start s, f (view s (log_start s)))], lck := (held s)(log_start s := False)\<rparr>"
    using bc.update_block_ok [OF ok(1-3), of f] f by (auto simp: cache_abs_def header_def)
  have "write_head s = bc.update_block (log_start s) f s"
  proof -
    obtain i s1 where s1: "bread ROOTDEV (log_start s) s = Some (i, s1)" "cache_inv s1" "held_buf s1 (log_start s) i"
      "bio_state.more s1 = bio_state.more s"
      using bc.rd_ok [of s "log_start s"] ok bc.ready_ref by (auto simp: bc.ready_def)
    note m = log_fields_more [OF s1(4)]
    have "length (get_data i s1) = BSIZE" using bc.cont_ok [OF s1(2,3)] by blast
    then show ?thesis
      using s1(1) m f assms(2) ok(4) by (simp add: write_head_def bc.update_block_def)
  qed
  moreover have nl: "(held s)(log_start s := False) = held s"
    using assms(1) by (auto simp: log_ok_def bc.ready_def cache_abs_def fun_eq_iff)
  have "log_ok s'" by (rule log_ok_ready [OF assms(1) s'(2,3)]) (simp_all add: s'(4) nl cache_abs_def [of s])
  moreover have "header (f (view s (log_start s))) n (lh_block s)"
  proof -
    have "length (view s (log_start s)) = BSIZE"
      using ok(1) bufidx_iff [OF ok(1)] view_held_facts(5) [OF ok(1)]
      by (auto simp: view_def cache_inv_def split: option.split)
    then show ?thesis using f by blast
  qed
  moreover have "view s' = (view s)(log_start s := f (view s (log_start s)))"
    "platter s' = (platter s)(log_start s := f (view s (log_start s)))"
    "wtrace s' = wtrace s @ [(log_start s, f (view s (log_start s)))]" "pins s' = pins s"
    using s'(4) by (simp_all add: cache_abs_def)
  ultimately show ?thesis using s'(1,3) by auto
qed

lemma read_head_ok:
  assumes "log_ok s" and "get32 (view s (log_start s)) 0 = of_nat n" and "n \<le> LOGSIZE"
  shows "\<exists>s' bs. read_head s = Some s' \<and> log_ok s' \<and> lh_n s' = int n \<and> log_start s' = log_start s \<and> lh_block s' = bs \<and>
    (\<forall>k < n. bs ! k = get32 (view s (log_start s)) (4 * (k + 1))) \<and>
    view s' = view s \<and> platter s' = platter s \<and> wtrace s' = wtrace s"
proof -
  let ?h = "log_start s"
  have ok: "cache_inv s" "bc.ready s ?h" "0 < room (cache_abs s)" "log_dev s = ROOTDEV"
    using assms(1) by (auto simp: log_ok_def cache_abs_def)
  obtain i s1 where s1: "bread ROOTDEV ?h s = Some (i, s1)" "cache_inv s1" "held_buf s1 ?h i"
    "bio_state.more s1 = bio_state.more s" "cache_abs s1 = a_get ?h (cache_abs s)"
    using bc.rd_ok [of s ?h] ok bc.ready_ref by (auto simp: bc.ready_def)
  note m = log_fields_more [OF s1(4)]
  have c: "get_data i s1 = view s ?h" using bc.cont_ok [OF s1(2,3)]
    unfolding s1(5) by (simp add: a_get_def cache_abs_def [of s])
  have n: "sint (of_nat n :: u32) = int n"
    using assms(3) by (simp add: LOGSIZE_val signed_of_nat signed_take_bit_int_eq_self_iff)
  obtain bs where bs: "read_blocks (view s ?h) 0 n (lh_block s1) = Some bs" "length bs = LOGSIZE"
    "\<forall>k < n. bs ! k = get32 (view s ?h) (4 * (k + 1))"
    using read_blocks_ok [of 0 n "lh_block s1" "view s ?h"] assms(1,3) m by (auto simp: log_ok_def)
  let ?s2 = "s1\<lparr>lh_n := int n, lh_block := bs\<rparr>"
  have same: "bufs ?s2 = bufs s1" "platter ?s2 = platter s1" "lru ?s2 = lru s1" "wtrace ?s2 = wtrace s1" by simp_all
  note cong = cache_fun_cong [OF same(1,2)]
  have inv2: "cache_inv ?s2" using s1(2) by (simp add: cache_inv_def cong(5))
  have a2: "cache_abs ?s2 = cache_abs s1" by (simp add: cache_abs_def cong)
  have own2: "held_buf ?s2 ?h i" using s1(3) by (simp add: cong(6))
  have "ref (cache_abs s) ?h = 0 \<Longrightarrow> view s ?h = platter s ?h"
    using bc.clean [OF ok(1), of ?h] by (simp add: cache_abs_def)
  then obtain s3 where s3: "brelse i ?s2 = Some s3" "cache_inv s3" "cache_abs s3 = a_rel ?h (cache_abs s1)"
    "bio_state.more s3 = bio_state.more ?s2"
    using bc.rel_ok [OF inv2 own2] unfolding a2 s1(5) by (auto simp: a_get_def cache_abs_def [of s])
  note m3 = log_fields_more [OF s3(4)]
  have "cache_abs s3 = cache_abs s"
    using ok(2,3) unfolding s3(3) s1(5)
    by (intro cache_abs.equality) (auto simp: a_get_def a_rel_def bc.ready_def fun_eq_iff)
  then have v: "view s3 = view s" "platter s3 = platter s" "wtrace s3 = wtrace s" "nfree s3 = nfree s"
    "bc.ready s3 = bc.ready s"
    by (simp_all add: cache_abs_def bc.ready_def fun_eq_iff)
  have "log_ok s3" using assms(1) s3(2) v m m3 bs(2) by (simp add: log_ok_def)
  moreover have "read_head s = Some s3"
    using s1(1) c assms(2) n bs(1) s3(1) ok(4) by (simp add: read_head_def Let_def)
  ultimately show ?thesis using v m3 m bs(3) by simp
qed


section \<open>Recovery\<close>

lemma trans_ok_cong:
  assumes "trans_ok start bs n" and "\<forall>k < n. cs ! k = bs ! k" and "n \<le> length cs"
  shows "trans_ok start cs n"
proof -
  have "take n cs = take n bs"
    using assms by (intro nth_equalityI) (auto simp: trans_ok_def)
  then show ?thesis using assms by (auto simp: trans_ok_def)
qed

lemma home_writes_lookup:
  assumes "trans_ok (log_start s) (lh_block s) n" and "\<forall>t < n. lh_block s ! t = bs ! t" and that: "n \<le> length bs"
  shows "apply_writes (home_writes s 0 n) d b =
    (case first_index (\<lambda>x. x = b) (take n bs) of None \<Rightarrow> d b | Some t \<Rightarrow> view s (slot (log_start s) t))"
proof (cases "first_index (\<lambda>x. x = b) (take n bs)")
  case None
  then have "b \<notin> set (take n bs)" by (auto simp: first_index_None)
  moreover have "bs ! t \<in> set (take n bs)" if "t < n" for t
    using that \<open>n \<le> length bs\<close> nth_mem [of t "take n bs"] by simp
  ultimately have "\<forall>t < n. bs ! t \<noteq> b" by blast
  then have "\<forall>t < n. lh_block s ! t \<noteq> b" using assms(2) by simp
  then have "b \<notin> fst ` set (home_writes s 0 n)" by (auto simp: home_writes_def)
  with None show ?thesis by (simp add: apply_writes_other)
next
  case (Some t)
  then have t: "t < n" "bs ! t = b" using that by (auto simp: first_index_Some)
  have "apply_writes (home_writes s 0 n) d b = view s (slot (log_start s) t)"
    unfolding home_writes_def
  proof (rule apply_writes_const)
    show "b \<in> (!) (lh_block s) ` set [0..<0 + n]" using t assms(2) by (intro image_eqI [of _ _ t]) auto
    fix u assume "u \<in> set [0..<0 + n]" "lh_block s ! u = b"
    then have "u = t" using trans_distinct [OF assms(1), of u t] t assms(2) by auto
    then show "view s (slot (log_start s) u) = view s (slot (log_start s) t)" by simp
  qed
  with Some show ?thesis by simp
qed

lemma recover_ok:
  assumes ok: "log_ok s" and hd: "get32 (view s (log_start s)) 0 = of_nat n" and n: "n \<le> LOGSIZE"
    and bs: "\<forall>k < n. get32 (view s (log_start s)) (4 * (k + 1)) = bs ! k" "trans_ok (log_start s) bs n"
  shows "\<exists>s'. recover_from_log s = Some s' \<and>
    (\<forall>b. b \<noteq> log_start s \<longrightarrow> platter s' b =
      (case first_index (\<lambda>x. x = b) (take n bs) of None \<Rightarrow> platter s b | Some t \<Rightarrow> view s (slot (log_start s) t)))"
proof -
  obtain s1 cs where s1: "read_head s = Some s1" "log_ok s1" "lh_n s1 = int n" "log_start s1 = log_start s" "lh_block s1 = cs"
    "\<forall>k < n. cs ! k = get32 (view s (log_start s)) (4 * (k + 1))"
    "view s1 = view s" "platter s1 = platter s"
    using read_head_ok [OF ok hd n] by blast
  have cs: "\<forall>k < n. cs ! k = bs ! k" using s1(6) bs(1) by simp
  have "n \<le> length cs" using s1(2,5) n by (simp add: log_ok_def)
  then have tr1: "trans_ok (log_start s1) (lh_block s1) n"
    using trans_ok_cong [OF bs(2) cs] s1(4,5) by simp
  obtain s2 where s2: "for_tails (install_one True) 0 n s1 = Some s2" "log_ok s2" "bio_state.more s2 = bio_state.more s1"
    "platter s2 = apply_writes (home_writes s1 0 n) (platter s1)"
    using install_loop [OF s1(2) tr1, of 0 n True] by auto
  have lf: "log_ok (s2\<lparr>lh_n := 0\<rparr>)"
  proof -
    have same: "bufs (s2\<lparr>lh_n := 0\<rparr>) = bufs s2" "platter (s2\<lparr>lh_n := 0\<rparr>) = platter s2" by simp_all
    note cong = cache_fun_cong [OF same]
    then have "cache_abs (s2\<lparr>lh_n := 0\<rparr>) = cache_abs s2" by (simp add: cache_abs_def)
    moreover have "cache_inv (s2\<lparr>lh_n := 0\<rparr>)" using s2(2) cong(5) by (simp add: log_ok_def cache_inv_def)
    ultimately show ?thesis using s2(2) cong(4) by (simp add: log_ok_def bc.ready_def)
  qed
  obtain s3 d where s3: "write_head (s2\<lparr>lh_n := 0\<rparr>) = Some s3" "platter s3 = (platter s2)(log_start s2 := d)"
    using write_head_ok [OF lf, of 0] by auto
  have "log_start s2 = log_start s" using log_fields_more [OF s2(3)] s1(4) by simp
  moreover have "recover_from_log s = Some s3"
    using s1(1,3) s2(1) s3(1) by (simp add: recover_from_log_def install_trans_def)
  moreover have "apply_writes (home_writes s1 0 n) (platter s1) b =
      (case first_index (\<lambda>x. x = b) (take n bs) of None \<Rightarrow> platter s b | Some t \<Rightarrow> view s (slot (log_start s) t))" for b
    using home_writes_lookup [OF tr1, of bs] cs s1(5,7,4,8) bs(2) by (simp add: trans_ok_def split: option.split)
  ultimately show ?thesis using s3(2) s2(4) by simp
qed


section \<open>commit\<close>

text \<open>A transaction of \<open>n\<close> blocks that \<open>commit\<close> is about to write: the blocks are pinned in the
  cache and the header on the disk says that the log is empty.\<close>

definition pending :: "'a log_state_scheme \<Rightarrow> nat \<Rightarrow> bool" where
  "pending s n \<longleftrightarrow> log_ok s \<and> lh_n s = int n \<and> 0 < n \<and> trans_ok (log_start s) (lh_block s) n \<and>
     (\<forall>t < n. 1 \<le> pins s (lh_block s ! t)) \<and> get32 (platter s (log_start s)) 0 = 0"

lemma commit_ok:
  assumes "pending s n"
  shows "\<exists>s' d1 d2. commit s = Some s' \<and> log_ok s' \<and> lh_n s' = 0 \<and> header d1 n (lh_block s) \<and> header d2 0 [] \<and>
    wtrace s' = wtrace s @ log_writes s 0 n @ [(log_start s, d1)] @
      map (\<lambda>t. (lh_block s ! t, view s (lh_block s ! t))) [0..<n] @ [(log_start s, d2)]"
proof -
  have ok: "log_ok s" "lh_n s = int n" "0 < n" "trans_ok (log_start s) (lh_block s) n"
    "\<forall>t < n. 1 \<le> pins s (lh_block s ! t)" using assms by (auto simp: pending_def)
  have N: "n \<le> LOGSIZE" "unat (log_start s) + LOGSIZE + 1 < 2 ^ 32"
    using ok by (auto simp: trans_ok_def log_ok_def)
  obtain s1 where s1: "for_tails write_one 0 n s = Some s1" "cache_inv s1" "bio_state.more s1 = bio_state.more s"
    "cache_abs s1 = (cache_abs s)\<lparr>cur := apply_writes (log_writes s 0 n) (view s),
      dsk := apply_writes (log_writes s 0 n) (platter s), tr := wtrace s @ log_writes s 0 n\<rparr>"
    using write_loop [OF ok(1,4), of 0 n] by auto
  note m1 = log_fields_more [OF s1(3)]
  have ok1: "log_ok s1" by (rule log_ok_ready [OF ok(1) s1(2,3)]) (simp_all add: s1(4))
  have v1: "view s1 = apply_writes (log_writes s 0 n) (view s)" "pins s1 = pins s"
    "wtrace s1 = wtrace s @ log_writes s 0 n"
    using s1(4) by (simp_all add: cache_abs_def)
  obtain s2 d1 where s2: "write_head s1 = Some s2" "log_ok s2" "bio_state.more s2 = bio_state.more s1"
    "header d1 n (lh_block s1)" "view s2 = (view s1)(log_start s1 := d1)"
    "wtrace s2 = wtrace s1 @ [(log_start s1, d1)]" "pins s2 = pins s1"
    using write_head_ok [OF ok1, of n] m1 ok(2) N by metis
  note m2 = log_fields_more [OF s2(3)]
  obtain s3 where s3: "for_tails (install_one False) 0 n s2 = Some s3" "log_ok s3" "bio_state.more s3 = bio_state.more s2"
    "wtrace s3 = wtrace s2 @ home_writes s2 0 n"
    using install_loop [OF s2(2), of n 0 n False] ok(4,5) m1 m2 s2(7) v1(2) by auto
  note m3 = log_fields_more [OF s3(3)]
  let ?s4 = "s3\<lparr>lh_n := 0\<rparr>"
  have lf: "log_ok ?s4"
  proof -
    have same: "bufs ?s4 = bufs s3" "platter ?s4 = platter s3" by simp_all
    note cong = cache_fun_cong [OF same]
    then have "cache_abs ?s4 = cache_abs s3" by (simp add: cache_abs_def)
    moreover have "cache_inv ?s4" using s3(2) cong(5) by (simp add: log_ok_def cache_inv_def)
    ultimately show ?thesis using s3(2) cong(4) by (simp add: log_ok_def bc.ready_def)
  qed
  obtain s5 d2 where s5: "write_head ?s4 = Some s5" "log_ok s5" "bio_state.more s5 = bio_state.more ?s4"
    "header d2 0 (lh_block ?s4)" "wtrace s5 = wtrace ?s4 @ [(log_start ?s4, d2)]"
    using write_head_ok [OF lf, of 0] by auto
  note m5 = log_fields_more [OF s5(3)]
  have "view s2 (slot (log_start s) t) = view s (lh_block s ! t)" if t: "t < n" for t
  proof -
    have "slot (log_start s) t \<noteq> log_start s" using slot_start N t by simp
    moreover have "distinct (map (slot (log_start s)) [0..<n])"
      using N slot_inj by (auto simp: distinct_map inj_on_def)
    then have "apply_writes (map (\<lambda>t. (slot (log_start s) t, view s (lh_block s ! t))) [0..<n]) (view s)
        (slot (log_start s) t) = view s (lh_block s ! t)"
      using t by (intro apply_writes_map) auto
    ultimately show ?thesis by (simp add: s2(5) v1 m1 log_writes_def)
  qed
  then have "home_writes s2 0 n = map (\<lambda>t. (lh_block s ! t, view s (lh_block s ! t))) [0..<n]"
    by (simp add: home_writes_def m1 m2)
  then have "wtrace s5 = wtrace s @ log_writes s 0 n @ [(log_start s, d1)] @
      map (\<lambda>t. (lh_block s ! t, view s (lh_block s ! t))) [0..<n] @ [(log_start s, d2)]"
    using s5(5) s3(4) s2(6) v1(3) by (simp add: m1 m2 m3)
  moreover have "commit s = Some s5"
    using ok(2,3) s1(1) s2(1) s3(1) s5(1) m1 m2 by (simp add: commit_def write_log_def install_trans_def)
  moreover have "header d2 0 []" using s5(4) by (simp add: header_def)
  ultimately show ?thesis using s5(2) s2(4) m5 m1 by auto
qed


section \<open>Crashes\<close>

text \<open>A machine that boots with disk \<open>d\<close>: an empty cache and a zeroed \<open>log\<close>.\<close>

definition reboot :: "(u32 \<Rightarrow> block) \<Rightarrow> log_state" where
  "reboot d = binit \<lparr>platter = d, wtrace = [], bufs = [], lru = [], log_start = 0, log_size = 0,
     outstanding = 0, committing = False, log_dev = 0, lh_n = 0, lh_block = replicate LOGSIZE 0\<rparr>"

text \<open>The disk once \<open>initlog\<close> has run on it.\<close>

definition recovered :: "(u32 \<Rightarrow> block) \<Rightarrow> superblock \<Rightarrow> (u32 \<Rightarrow> block) option" where
  "recovered d sb = map_option platter (initlog ROOTDEV sb (reboot d))"

text \<open>The disk when the machine stops after \<open>k\<close> of the writes between \<open>s\<close> and \<open>s'\<close>.\<close>

definition crash_disk :: "'a disk_state_scheme \<Rightarrow> 'a disk_state_scheme \<Rightarrow> nat \<Rightarrow> u32 \<Rightarrow> block" where
  "crash_disk s s' k = apply_writes (take k (drop (length (wtrace s)) (wtrace s'))) (platter s)"

lemma cache_inv_reboot:
  assumes "\<forall>b. length (d b) = BSIZE"
  shows "cache_inv (reboot d)" "view (reboot d) = d" "platter (reboot d) = d" "pins (reboot d) b = 0"
    "\<not> held (reboot d) b" "nfree (reboot d) = NBUF"
proof -
  have nb: "\<not> holds (reboot d) c i" for c i
    by (auto simp: holds_def reboot_def binit_def empty_buf_def ROOTDEV_def)
  show inv: "cache_inv (reboot d)"
    unfolding cache_inv_def using nb assms
    by (auto simp: reboot_def binit_def empty_buf_def NBUF_def)
  have "bufidx (reboot d) c = None" for c using bufidx_None [OF inv] nb by blast
  then show "view (reboot d) = d" "platter (reboot d) = d" "pins (reboot d) b = 0" "\<not> held (reboot d) b"
    by (auto simp: view_def pins_def held_def fun_eq_iff reboot_def binit_def)
  show "nfree (reboot d) = NBUF" by (simp add: nfree_def reboot_def binit_def empty_buf_def)
qed

lemma recovered_ok:
  assumes "\<forall>b. length (d b) = BSIZE" and "get32 (d start) 0 = of_nat n" and "n \<le> LOGSIZE"
    and "\<forall>k < n. get32 (d start) (4 * (k + 1)) = bs ! k" "trans_ok start bs n"
    and "logstart sb = start" "unat start + LOGSIZE + 1 < 2 ^ 32"
  shows "\<exists>d'. recovered d sb = Some d' \<and> (\<forall>b. b \<noteq> start \<longrightarrow> d' b =
      (case first_index (\<lambda>x. x = b) (take n bs) of None \<Rightarrow> d b | Some t \<Rightarrow> d (slot start t)))"
proof -
  let ?s = "reboot d\<lparr>log_start := logstart sb, log_size := sint (nlog sb), log_dev := ROOTDEV\<rparr>"
  note b = cache_inv_reboot [OF assms(1)]
  have same: "bufs ?s = bufs (reboot d)" "platter ?s = platter (reboot d)" by simp_all
  note cong = cache_fun_cong [OF same]
  have "cache_inv ?s" using b(1) cong(5) by (simp add: cache_inv_def)
  moreover have "bc.ready ?s c" for c
    using b(4,5) cong by (simp add: bc.ready_def cache_abs_def max_ref_def)
  moreover have "length (lh_block ?s) = LOGSIZE" by (simp add: reboot_def binit_def)
  ultimately have ok: "log_ok ?s" using b(6) cong(4) assms(6,7) by (simp add: log_ok_def NBUF_def)
  have vd: "view ?s = d" "platter ?s = d" "log_start ?s = start" using b(2,3) cong assms(6) by simp_all
  obtain s' where "recover_from_log ?s = Some s'" "\<forall>b. b \<noteq> start \<longrightarrow> platter s' b =
      (case first_index (\<lambda>x. x = b) (take n bs) of None \<Rightarrow> d b | Some t \<Rightarrow> d (slot start t))"
    using recover_ok [OF ok, of n bs, unfolded vd] assms(2-5) by blast
  then show ?thesis by (auto simp: recovered_def initlog_def)
qed

lemma length_view: "cache_inv s \<Longrightarrow> length (view s b) = BSIZE"
  using bufidx_iff [of s b] view_held_facts(5) [of s b]
  by (auto simp: view_def cache_inv_def split: option.split)

lemma length_apply_writes:
  "(\<forall>b. length (d b) = BSIZE) \<Longrightarrow> (\<forall>w \<in> set ws. length (snd w) = BSIZE) \<Longrightarrow> length (apply_writes ws d b) = BSIZE"
  by (induction ws arbitrary: d) auto

lemma pending_facts:
  assumes "pending s n"
  shows "log_ok s" "trans_ok (log_start s) (lh_block s) n" "get32 (platter s (log_start s)) 0 = 0" "cache_inv s"
    "n \<le> LOGSIZE" "unat (log_start s) + LOGSIZE + 1 < 2 ^ 32" "n \<le> length (lh_block s)"
  using assms by (auto simp: pending_def log_ok_def trans_ok_def)

lemma log_not_home: "pending s n \<Longrightarrow> log_area (log_start s) b \<Longrightarrow> b \<notin> set (take n (lh_block s))"
  using pending_facts(2) [of s n] by (auto simp: trans_ok_def in_set_conv_nth)

lemma slot_in_area: "pending s n \<Longrightarrow> t < n \<Longrightarrow> log_area (log_start s) (slot (log_start s) t)"
proof -
  assume "pending s n" and "t < n"
  then have "t < LOGSIZE" using pending_facts(5) [of s n] by simp
  then show ?thesis unfolding log_area_def by blast
qed

text \<open>What the copies to the log change, and what the copies to the home blocks change.\<close>

lemma log_writes_other:
  assumes "pending s n" and "\<not> log_area (log_start s) b \<or> b = log_start s"
  shows "apply_writes (take k (log_writes s 0 n)) d b = d b"
proof (rule apply_writes_other)
  note f = pending_facts [OF assms(1)]
  have "b \<noteq> slot (log_start s) t" if t: "t < n" for t
  proof
    assume "b = slot (log_start s) t"
    moreover have "t < LOGSIZE" using t f(5) by simp
    ultimately show False using assms(2) slot_start [OF f(6)] by (auto simp: log_area_def)
  qed
  moreover have "\<exists>t < n. b = slot (log_start s) t" if "b \<in> fst ` set (take k (log_writes s 0 n))"
    using that by (auto simp: log_writes_def dest!: in_set_takeD) (blast intro: refl)
  ultimately show "b \<notin> fst ` set (take k (log_writes s 0 n))" by blast
qed

lemma log_writes_slot:
  assumes "pending s n" and "t < n"
  shows "apply_writes (log_writes s 0 n) d (slot (log_start s) t) = view s (lh_block s ! t)"
  unfolding log_writes_def using pending_facts [OF assms(1)] assms(2) slot_inj
  by (intro apply_writes_map) (auto simp: distinct_map inj_on_def)

definition to_home :: "'a log_state_scheme \<Rightarrow> nat \<Rightarrow> (u32 \<times> block) list" where
  "to_home s n = map (\<lambda>t. (lh_block s ! t, view s (lh_block s ! t))) [0..<n]"

lemma to_home_other:
  assumes "pending s n" and "b \<notin> set (take n (lh_block s))"
  shows "apply_writes (take k (to_home s n)) d b = d b"
proof (rule apply_writes_other, rule notI)
  assume "b \<in> fst ` set (take k (to_home s n))"
  then obtain t where "t < n" "b = lh_block s ! t" by (auto simp: to_home_def dest!: in_set_takeD)
  then have "b \<in> set (take n (lh_block s))"
    using pending_facts(7) [OF assms(1)] nth_mem [of t "take n (lh_block s)"] by simp
  with assms(2) show False by blast
qed

lemma to_home_at:
  assumes "pending s n" and "b \<in> set (take n (lh_block s))"
  shows "apply_writes (to_home s n) d b = view s b"
  unfolding to_home_def
proof (rule apply_writes_const)
  show "b \<in> (!) (lh_block s) ` set [0..<n]"
    using assms(2) pending_facts(7) [OF assms(1)] by (auto simp: in_set_conv_nth)
qed simp

text \<open>The disk \<open>D\<close> recovers, outside the log, to the state after the transaction or to the one before it.\<close>

definition recovers :: "'a log_state_scheme \<Rightarrow> nat \<Rightarrow> superblock \<Rightarrow> (u32 \<Rightarrow> block) \<Rightarrow> bool \<Rightarrow> bool" where
  "recovers s n sb D after \<longleftrightarrow> (\<exists>d. recovered D sb = Some d \<and> (\<forall>b. \<not> log_area (log_start s) b \<longrightarrow>
     d b = (if after \<and> b \<in> set (take n (lh_block s)) then view s b else platter s b)))"

lemma recovers_empty:
  assumes "pending s n" and "logstart sb = log_start s" and "\<forall>b. length (D b) = BSIZE" and "get32 (D (log_start s)) 0 = 0"
    and "\<And>b. \<not> log_area (log_start s) b \<Longrightarrow> D b = (if after \<and> b \<in> set (take n (lh_block s)) then view s b else platter s b)"
  shows "recovers s n sb D after"
proof -
  have t: "trans_ok (log_start s) [] 0" by (simp add: trans_ok_def)
  have g: "get32 (D (log_start s)) 0 = of_nat 0" using assms(4) by simp
  have "\<exists>d. recovered D sb = Some d \<and> (\<forall>b. b \<noteq> log_start s \<longrightarrow> d b =
      (case first_index (\<lambda>x. x = b) (take 0 []) of None \<Rightarrow> D b | Some t \<Rightarrow> D (slot (log_start s) t)))"
    by (rule recovered_ok [OF assms(3) g _ _ t assms(2) pending_facts(6) [OF assms(1)]]) simp_all
  then obtain d where "recovered D sb = Some d" "\<forall>b. b \<noteq> log_start s \<longrightarrow> d b = D b" by auto
  moreover have "b \<noteq> log_start s" if "\<not> log_area (log_start s) b" for b using that by (auto simp: log_area_def)
  ultimately show ?thesis unfolding recovers_def using assms(5) by (intro exI [of _ d]) simp
qed

lemma recovers_installing:
  assumes p: "pending s n" and sb: "logstart sb = log_start s" and len: "\<forall>b. length (D b) = BSIZE" and h: "header d1 n (lh_block s)"
    and D: "D = apply_writes (take j (to_home s n)) ((apply_writes (log_writes s 0 n) (platter s))(log_start s := d1))"
  shows "recovers s n sb D True"
proof -
  let ?st = "log_start s" and ?bs = "lh_block s"
  note f = pending_facts [OF p]
  have out: "D b = ((apply_writes (log_writes s 0 n) (platter s))(?st := d1)) b" if "b \<notin> set (take n ?bs)" for b
    unfolding D by (rule to_home_other [OF p that])
  have "D ?st = d1" using out [OF log_not_home [OF p]] by (simp add: log_area_def)
  moreover have slots: "D (slot ?st t) = view s (?bs ! t)" if "t < n" for t
    using out [OF log_not_home [OF p slot_in_area [OF p that]]] log_writes_slot [OF p that] slot_start f(5,6) that by simp
  ultimately obtain d where d: "recovered D sb = Some d" "\<forall>b. b \<noteq> ?st \<longrightarrow> d b =
      (case first_index (\<lambda>x. x = b) (take n ?bs) of None \<Rightarrow> D b | Some t \<Rightarrow> D (slot ?st t))"
    using recovered_ok [OF len, of ?st n ?bs sb] h f(2,5,6) sb by (auto simp: header_def)
  have "d b = (if b \<in> set (take n ?bs) then view s b else platter s b)" if b: "\<not> log_area ?st b" for b
  proof -
    have bs: "b \<noteq> ?st" using b by (auto simp: log_area_def)
    show ?thesis
    proof (cases "first_index (\<lambda>x. x = b) (take n ?bs)")
      case None
      then have nb: "b \<notin> set (take n ?bs)" by (auto simp: first_index_None)
      then have "d b = apply_writes (take n (log_writes s 0 n)) (platter s) b"
        using d(2) None out [OF nb] bs by (simp add: log_writes_def)
      then show ?thesis using log_writes_other [OF p] b nb by simp
    next
      case (Some t)
      then have t: "t < n" "?bs ! t = b" using f(7) by (auto simp: first_index_Some)
      then have "b \<in> set (take n ?bs)" using f(7) by (auto simp: in_set_conv_nth)
      then show ?thesis using d(2) Some slots t bs by simp
    qed
  qed
  with d(1) show ?thesis by (auto simp: recovers_def)
qed

lemma recovers_late:
  assumes p: "pending s n" and sb: "logstart sb = log_start s" and len: "\<forall>b. length (D b) = BSIZE" and h: "header d2 0 []"
    and D: "D = (apply_writes (to_home s n) ((apply_writes (log_writes s 0 n) (platter s))(log_start s := d1)))(log_start s := d2)"
  shows "recovers s n sb D True"
proof (rule recovers_empty [OF p sb len])
  show "get32 (D (log_start s)) 0 = 0" using h by (simp add: D header_def)
next
  fix b assume b: "\<not> log_area (log_start s) b"
  have bs: "b \<noteq> log_start s" using b by (auto simp: log_area_def)
  have lw: "length (log_writes s 0 n) = n" "length (to_home s n) = n" by (simp_all add: log_writes_def to_home_def)
  show "D b = (if True \<and> b \<in> set (take n (lh_block s)) then view s b else platter s b)"
    using to_home_at [OF p, of b] to_home_other [OF p, of b n] log_writes_other [OF p, of b n "platter s"] b bs lw by (simp add: D)
qed

lemma commit_recovers:
  assumes p: "pending s n" and sb: "logstart sb = log_start s"
  shows "\<exists>s'. commit s = Some s' \<and> (\<forall>k. recovers s n sb (crash_disk s s' k) (n < k))"
proof -
  let ?st = "log_start s" and ?W = "log_writes s 0 n" and ?H = "to_home s n"
  note f = pending_facts [OF p]
  obtain s' d1 d2 where s': "commit s = Some s'" "header d1 n (lh_block s)" "header d2 0 []"
    "wtrace s' = wtrace s @ ?W @ [(?st, d1)] @ ?H @ [(?st, d2)]"
    using commit_ok [OF p] unfolding to_home_def by blast
  let ?T = "?W @ [(?st, d1)] @ ?H @ [(?st, d2)]"
  have cd: "crash_disk s s' k = apply_writes (take k ?T) (platter s)" for k by (simp add: crash_disk_def s'(4))
  have lenT: "\<forall>w \<in> set (take k ?T). length (snd w) = BSIZE" for k
    using s'(2,3) length_view [OF f(4)] by (auto simp: header_def log_writes_def to_home_def dest!: in_set_takeD)
  have len: "\<forall>b. length (crash_disk s s' k b) = BSIZE" for k
    unfolding cd using length_apply_writes [OF _ lenT] f(4) by (auto simp: cache_inv_def)
  have lw: "length ?W = n" "length ?H = n" by (simp_all add: log_writes_def to_home_def)
  have "recovers s n sb (crash_disk s s' k) (n < k)" for k
  proof (cases "k \<le> n")
    case True
    then have c: "crash_disk s s' k = apply_writes (take k ?W) (platter s)" by (simp add: cd lw)
    show ?thesis
      by (rule recovers_empty [OF p sb len]) (use True f(3) log_writes_other [OF p] in \<open>simp_all add: c\<close>)
  next
    case False
    define j where "j = k - n - 1"
    have c: "crash_disk s s' k = apply_writes (take j (?H @ [(?st, d2)])) ((apply_writes ?W (platter s))(?st := d1))"
      using False by (simp add: cd lw j_def take_Cons')
    have "recovers s n sb (crash_disk s s' k) True"
    proof (cases "j \<le> n")
      case True
      then show ?thesis by (intro recovers_installing [OF p sb len s'(2), of _ j]) (simp add: c lw)
    next
      case jn: False
      then show ?thesis by (intro recovers_late [where ?d1.0 = d1, OF p sb len s'(3)]) (simp add: c lw fun_upd_def)
    qed
    then show ?thesis using False by simp
  qed
  with s'(1) show ?thesis by blast
qed

text \<open>
  C4: whatever prefix of the disk writes of \<open>commit\<close> survives, recovery succeeds and leaves every
  block outside the log with its old content if the header was not yet written, and otherwise
  with its new content in all logged blocks and the old content elsewhere.
\<close>

theorem commit_crash_atomic:
  assumes pend: "pending s n" and sb: "logstart sb = log_start s"
  shows "\<exists>s'. commit s = Some s' \<and> (\<forall>k. \<exists>d. recovered (crash_disk s s' k) sb = Some d \<and>
    (\<forall>b. \<not> log_area (log_start s) b \<longrightarrow>
      d b = (if n < k \<and> b \<in> set (take n (lh_block s)) then view s b else platter s b)))"
  using commit_recovers [OF pend sb] by (simp add: recovers_def)


text \<open>A pending transaction of the single block 100, with the log at block 2.\<close>

definition pending_buf :: buf where
  "pending_buf = \<lparr>b_valid = True, b_dev = ROOTDEV, b_blockno = 100, b_lock = False, b_refcnt = 1,
     b_data = replicate BSIZE 7\<rparr>"

definition pending_state :: log_state where
  "pending_state = \<lparr>platter = \<lambda>_. replicate BSIZE 0, wtrace = [], bufs = pending_buf # replicate 29 empty_buf,
     lru = [0..<30], log_start = 2, log_size = 30, outstanding = 0, committing = True, log_dev = ROOTDEV,
     lh_n = 1, lh_block = 100 # replicate 29 0\<rparr>"

definition demo_sb :: superblock where
  "demo_sb = \<lparr>magic = FSMAGIC, sb_size = 6000, nblocks = 1954, ninodes = 200, nlog = 30, logstart = 2,
     inodestart = 4032, bmapstart = 4045, nswap = 4000, swapstart = 32\<rparr>"

lemma pending_state_holds: "holds pending_state b i \<longleftrightarrow> i = 0 \<and> b = 100"
  by (cases i) (auto simp: holds_def pending_state_def pending_buf_def empty_buf_def ROOTDEV_def)

lemma pending_state_inv: "cache_inv pending_state"
proof -
  have "\<forall>x \<in> set (bufs pending_state). (b_refcnt x = 0 \<longrightarrow> \<not> b_lock x \<and>
        (b_valid x \<longrightarrow> b_dev x = ROOTDEV \<longrightarrow> b_data x = platter pending_state (b_blockno x))) \<and> length (b_data x) = BSIZE"
    by (auto simp: pending_state_def pending_buf_def empty_buf_def)
  moreover have "distinct (lru pending_state)" "set (lru pending_state) = {..<length (bufs pending_state)}"
    "\<forall>b. length (platter pending_state b) = BSIZE"
    by (auto simp: pending_state_def)
  ultimately show ?thesis by (auto simp: cache_inv_def pending_state_holds)
qed

lemma pending_state_bufidx: "bufidx pending_state b = (if b = 100 then Some 0 else None)"
  using bufidx_iff [OF pending_state_inv, of b 0] bufidx_None [OF pending_state_inv, of b]
  by (auto simp: pending_state_holds)

lemma pending_state_pending: "pending pending_state 1"
proof -
  have v: "pins pending_state b = (if b = 100 then 1 else 0)" "\<not> held pending_state b" for b
    by (auto simp: pins_def held_def pending_state_bufidx, auto simp: pending_state_def pending_buf_def)
  have "nfree pending_state = 29" by (simp add: nfree_def pending_state_def pending_buf_def empty_buf_def)
  then have "log_ok pending_state"
    using v pending_state_inv
    by (auto simp: log_ok_def bc.ready_def cache_abs_def max_ref_def pending_state_def LOGSIZE_val)
  moreover have "\<not> log_area 2 100"
  proof -
    have "slot 2 t \<noteq> 100" if "t < 30" for t
    proof -
      have "unat (slot 2 t) = t + 3" using that unat_slot [of 2 t] by (simp add: LOGSIZE_val)
      then show ?thesis using that by auto
    qed
    then show ?thesis by (auto simp: log_area_def LOGSIZE_val)
  qed
  moreover have "get32 (replicate BSIZE 0) 0 = 0" by (simp add: get32_def BSIZE_def)
  ultimately show ?thesis using v
    by (auto simp: pending_def trans_ok_def LOGSIZE_val pending_state_def)
qed

theorem commit_crash_atomic_witness:
  "\<exists>s' d0 d. commit pending_state = Some s' \<and>
     recovered (crash_disk pending_state s' 1) demo_sb = Some d0 \<and> d0 100 = replicate BSIZE 0 \<and>
     recovered (crash_disk pending_state s' 2) demo_sb = Some d \<and> d 100 = replicate BSIZE 7"
proof -
  have sb: "logstart demo_sb = log_start pending_state" by (simp add: demo_sb_def pending_state_def)
  have st: "log_start pending_state = 2" "take 1 (lh_block pending_state) = [100]" "platter pending_state 100 = replicate BSIZE 0"
    by (simp_all add: pending_state_def)
  have v: "view pending_state 100 = replicate BSIZE 7"
    by (simp add: view_def pending_state_bufidx) (simp add: pending_state_def pending_buf_def)
  have "\<not> log_area 2 100" using pending_state_pending by (simp add: pending_def trans_ok_def pending_state_def)
  moreover obtain s' where s': "commit pending_state = Some s'" "\<forall>k. \<exists>d. recovered (crash_disk pending_state s' k) demo_sb = Some d \<and>
      (\<forall>b. \<not> log_area 2 b \<longrightarrow> d b = (if 1 < k \<and> b \<in> set [100] then view pending_state b else platter pending_state b))"
    using commit_crash_atomic [OF pending_state_pending sb] unfolding st by blast
  moreover obtain d0 where "recovered (crash_disk pending_state s' 1) demo_sb = Some d0"
      "\<forall>b. \<not> log_area 2 b \<longrightarrow> d0 b = platter pending_state b"
    using s'(2) [rule_format, of 1] by auto
  moreover obtain d where "recovered (crash_disk pending_state s' 2) demo_sb = Some d"
      "\<forall>b. \<not> log_area 2 b \<longrightarrow> d b = (if b \<in> set [100] then view pending_state b else platter pending_state b)"
    using s'(2) [rule_format, of 2] by auto
  ultimately show ?thesis using st(3) v by auto
qed

end
