(* ===== verification/Log_Space.thy ===== *)
theory Log_Space
  imports Log_Crash
begin

text \<open>
  Log space, kernel/log.c: system calls as interleaved steps. \<open>begin_op\<close> admits a call only if
  the log has room for \<open>MAXOPBLOCKS\<close> more blocks for every outstanding call, so calls that log at
  most that many blocks never run into the panic of \<open>log_write\<close>, provided the log on the disk
  has \<open>LOGSIZE\<close> blocks behind its header. mkfs writes \<open>nlog = LOGSIZE\<close>, header included,
  and with that size the panic is reachable.
\<close>

section \<open>The log fields through the cache operations\<close>

lemma bwrite_more: "bwrite i s = Some s' \<Longrightarrow> bio_state.more s' = bio_state.more s"
  by (auto simp: bwrite_def disk_write_def Let_def)

lemma brelse_more: "brelse i s = Some s' \<Longrightarrow> bio_state.more s' = bio_state.more s"
  by (auto simp: brelse_def Let_def)

lemma set_data_more [simp]: "bio_state.more (set_data i d s) = bio_state.more s"
  by (simp add: set_data_def)

lemma bpin_more [simp]: "bio_state.more (bpin i s) = bio_state.more s"
  by (simp add: bpin_def)

lemma bunpin_more [simp]: "bio_state.more (bunpin i s) = bio_state.more s"
  by (simp add: bunpin_def)

lemma bpin_fields [simp]:
  "outstanding (bpin i s) = outstanding s" "log_size (bpin i s) = log_size s" "lh_n (bpin i s) = lh_n s"
  "committing (bpin i s) = committing s" "lh_block (bpin i s) = lh_block s"
  by (simp_all add: bpin_def upd_buf_def)

lemmas cache_more = bread_more bwrite_more brelse_more

lemma write_head_more: "write_head s = Some s' \<Longrightarrow> bio_state.more s' = bio_state.more s"
  by (auto simp: write_head_def monad_simps dest!: cache_more split: prod.splits)

lemma write_one_more: "write_one t s = Some s' \<Longrightarrow> bio_state.more s' = bio_state.more s"
  by (auto simp: write_one_def monad_simps dest!: cache_more split: prod.splits if_splits)

lemma install_one_more: "install_one r t s = Some s' \<Longrightarrow> bio_state.more s' = bio_state.more s"
  by (auto simp: install_one_def Let_def monad_simps dest!: cache_more split: prod.splits if_splits)

lemma for_tails_more:
  "(\<And>t s s'. f t s = Some s' \<Longrightarrow> bio_state.more s' = bio_state.more s) \<Longrightarrow>
   for_tails f i n s = Some s' \<Longrightarrow> bio_state.more s' = bio_state.more s"
  by (induction n arbitrary: i s) (auto simp: monad_simps)

lemma commit_fields:
  assumes "commit s = Some s'" and "0 \<le> lh_n s"
  shows "lh_n s' = 0" "outstanding s' = outstanding s" "log_size s' = log_size s" "committing s' = committing s"
    "length (lh_block s') = length (lh_block s)"
proof -
  have "lh_n s' = 0 \<and> outstanding s' = outstanding s \<and> log_size s' = log_size s \<and> committing s' = committing s \<and>
    lh_block s' = lh_block s"
  proof (cases "0 < lh_n s")
    case False
    with assms show ?thesis by (simp add: commit_def)
  next
    case True
    then obtain s1 s2 s3 where *: "write_log s = Some s1" "write_head s1 = Some s2" "install_trans False s2 = Some s3"
      "write_head (s3\<lparr>lh_n := 0\<rparr>) = Some s'"
      using assms(1) by (auto simp: commit_def monad_simps)
    have "bio_state.more s3 = bio_state.more s"
      using for_tails_more [OF write_one_more *(1) [unfolded write_log_def]] write_head_more [OF *(2)]
        for_tails_more [OF install_one_more *(3) [unfolded install_trans_def]] by simp
    from log_fields_more [OF this] log_fields_more [OF write_head_more [OF *(4)]]
    show ?thesis by simp
  qed
  then show "lh_n s' = 0" "outstanding s' = outstanding s" "log_size s' = log_size s" "committing s' = committing s"
    "length (lh_block s') = length (lh_block s)" by simp_all
qed

section \<open>Interleaved system calls\<close>

text \<open>The second component holds, for every outstanding call, how many blocks it has logged.\<close>

inductive log_step :: "'a log_state_scheme \<times> nat list \<Rightarrow> 'a log_state_scheme \<times> nat list \<Rightarrow> bool" where
  start: "begin_op s = Some s' \<Longrightarrow> log_step (s, ws) (s', 0 # ws)"
| logw: "i < length ws \<Longrightarrow> ws ! i < MAXOPBLOCKS \<Longrightarrow> log_write buf s = Some s' \<Longrightarrow>
    log_step (s, ws) (s', ws[i := ws ! i + 1])"
| finish: "i < length ws \<Longrightarrow> end_op s = Some s' \<Longrightarrow> log_step (s, ws) (s', take i ws @ drop (Suc i) ws)"

inductive_cases log_stepE: "log_step (s, ws) t"

inductive log_reach :: "'a log_state_scheme \<Rightarrow> 'a log_state_scheme \<times> nat list \<Rightarrow> bool" for s0 where
  init: "log_reach s0 (s0, [])"
| step: "log_reach s0 t \<Longrightarrow> log_step t t' \<Longrightarrow> log_reach s0 t'"

definition spare :: "nat list \<Rightarrow> nat" where
  "spare ws = sum_list (map (\<lambda>w. MAXOPBLOCKS - w) ws)"

definition space_inv :: "'a log_state_scheme \<Rightarrow> 'a log_state_scheme \<times> nat list \<Rightarrow> bool" where
  "space_inv s0 t = (case t of (s, ws) \<Rightarrow> outstanding s = int (length ws) \<and> 0 \<le> lh_n s \<and>
     lh_n s + int (spare ws) \<le> int LOGSIZE \<and> log_size s = log_size s0)"

lemma spare_Cons [simp]: "spare (w # ws) = (MAXOPBLOCKS - w) + spare ws" "spare [] = 0"
  by (simp_all add: spare_def)

lemma spare_append [simp]: "spare (ws @ vs) = spare ws + spare vs"
  by (simp add: spare_def)

lemma spare_split: "i < length ws \<Longrightarrow> spare ws = spare (take i ws) + (MAXOPBLOCKS - ws ! i) + spare (drop (Suc i) ws)"
  by (subst id_take_nth_drop [of i ws]) simp_all

lemma spare_le: "spare ws \<le> length ws * MAXOPBLOCKS"
  by (induction ws) auto

lemma log_write_fields:
  assumes "log_write buf s = Some s'"
  shows "outstanding s' = outstanding s" "log_size s' = log_size s" "lh_n s' = lh_n s \<or> lh_n s' = lh_n s + 1"
    "committing s' = committing s"
  using assms by (auto simp: log_write_def Let_def split: if_splits)

lemma log_step_inv: "log_step t t' \<Longrightarrow> space_inv s0 t \<Longrightarrow> space_inv s0 t'"
proof (induction rule: log_step.induct)
  case (start s s' ws)
  have "spare ws \<le> length ws * MAXOPBLOCKS" by (rule spare_le)
  then have "int (spare ws) \<le> int (length ws) * int MAXOPBLOCKS" by (metis of_nat_le_iff of_nat_mult)
  with start show ?case
    by (auto simp: space_inv_def begin_op_def algebra_simps split: if_splits)
next
  case (logw i ws buf s s')
  have "spare (ws[i := ws ! i + 1]) + 1 = spare ws"
    using spare_split [OF logw(1)] logw(1,2) by (simp add: upd_conv_take_nth_drop)
  with logw log_write_fields [OF logw(3)] show ?case by (auto simp: space_inv_def)
next
  case (finish i ws s s')
  have inv: "outstanding s = int (length ws)" "0 \<le> lh_n s" "lh_n s + int (spare ws) \<le> int LOGSIZE"
    "log_size s = log_size s0" using finish(3) by (auto simp: space_inv_def)
  have len: "length (take i ws @ drop (Suc i) ws) = length ws - 1" using finish(1) by simp
  have sp: "spare (take i ws @ drop (Suc i) ws) \<le> spare ws" using spare_split [OF finish(1)] by simp
  show ?case
  proof (cases "length ws = 1")
    case True
    then have ws: "take i ws @ drop (Suc i) ws = []" using finish(1) by simp
    obtain s2 where s2: "commit (s\<lparr>outstanding := outstanding s - 1, committing := True\<rparr>) = Some s2"
      "s' = s2\<lparr>committing := False\<rparr>"
      using finish(2) inv(1) True by (auto simp: end_op_def Let_def monad_simps split: if_splits)
    from commit_fields [OF s2(1)] inv True have "lh_n s2 = 0" "outstanding s2 = 0" "log_size s2 = log_size s0"
      by simp_all
    then show ?thesis unfolding ws by (simp add: space_inv_def s2(2))
  next
    case False
    then have "s' = s\<lparr>outstanding := outstanding s - 1\<rparr>"
      using finish(2) inv(1) by (auto simp: end_op_def Let_def split: if_splits)
    then show ?thesis using inv len sp finish(1) by (auto simp: space_inv_def of_nat_diff)
  qed
qed

lemma log_reach_inv:
  assumes "log_reach s0 t" and "outstanding s0 = 0" "lh_n s0 = 0"
  shows "space_inv s0 t"
  using assms(1)
proof (induction rule: log_reach.induct)
  case init
  then show ?case using assms(2,3) by (simp add: space_inv_def)
next
  case (step t t')
  then show ?case using log_step_inv by blast
qed

text \<open>
  C7: with \<open>LOGSIZE\<close> data blocks behind the header, a call that has logged fewer than
  \<open>MAXOPBLOCKS\<close> blocks never runs into the panics of \<open>log_write\<close>, however calls are interleaved.
\<close>

theorem log_never_full:
  assumes "outstanding s0 = 0" "lh_n s0 = 0" "int LOGSIZE < log_size s0"
    and "log_reach s0 (s, ws)" and "i < length ws" "ws ! i < MAXOPBLOCKS"
  shows "log_write buf s \<noteq> None"
proof -
  have inv: "outstanding s = int (length ws)" "lh_n s + int (spare ws) \<le> int LOGSIZE" "log_size s = log_size s0"
    using log_reach_inv [OF assms(4,1,2)] by (auto simp: space_inv_def)
  have "0 < spare ws" using spare_split [OF assms(5)] assms(6) by simp
  moreover have "0 < length ws" using assms(5) by (cases ws) auto
  ultimately show ?thesis using inv assms(3) by (simp add: log_write_def Let_def)
qed


text \<open>Three calls that log ten blocks each, on the \<open>nlog = 30\<close> of mkfs.\<close>

definition full_start :: log_state where
  "full_start = \<lparr>platter = \<lambda>_. replicate BSIZE 0, wtrace = [],
     bufs = map (\<lambda>i. empty_buf\<lparr>b_dev := ROOTDEV, b_blockno := 100 + of_nat i\<rparr>) [0..<30], lru = [0..<30],
     log_start = 2, log_size = 30, outstanding = 0, committing = False, log_dev = ROOTDEV,
     lh_n = 0, lh_block = replicate 30 0\<rparr>"

definition filled :: "nat \<Rightarrow> log_state \<Rightarrow> bool" where
  "filled k s \<longleftrightarrow> lh_n s = int k \<and> log_size s = 30 \<and> outstanding s = 3 \<and> length (lh_block s) = 30 \<and>
     take k (lh_block s) = map (\<lambda>j. 100 + of_nat j) [0..<k] \<and>
     map b_blockno (bufs s) = map (\<lambda>i. 100 + of_nat i) [0..<30]"

lemma log_slot_new: "(\<forall>j < n. bs ! j \<noteq> b) \<Longrightarrow> n \<le> length bs \<Longrightarrow> log_slot b bs n = n"
  by (auto simp: log_slot_def first_index_Some split: option.splits)

lemma filled_Suc:
  assumes "filled k s" and "k < 29"
  shows "\<exists>s'. log_write k s = Some s' \<and> filled (Suc k) s'"
proof -
  have f: "lh_n s = int k" "log_size s = 30" "outstanding s = 3" "length (lh_block s) = 30"
    "take k (lh_block s) = map (\<lambda>j. 100 + of_nat j) [0..<k]"
    "map b_blockno (bufs s) = map (\<lambda>i. 100 + of_nat i) [0..<30]"
    using assms(1) by (auto simp: filled_def)
  have len: "length (bufs s) = 30" using f(6) by (metis length_map length_upt diff_zero)
  have blk: "b_blockno (bufs s ! i) = 100 + of_nat i" if "i < 30" for i
    using f(6) that len by (metis (no_types, lifting) add_0 diff_zero length_map length_upt nth_map nth_upt)
  have "lh_block s ! j = 100 + of_nat j" if "j < k" for j
    using f(5) that assms(2) f(4) by (metis (no_types, lifting) add_0 diff_zero length_upt nth_map nth_take nth_upt)
  moreover have "100 + of_nat j \<noteq> (100 + of_nat k :: u32)" if "j < k" for j
  proof
    assume "100 + of_nat j = (100 + of_nat k :: u32)"
    then have "unat (of_nat j :: u32) = unat (of_nat k :: u32)" by simp
    then show False using that assms(2) by (simp add: unat_of_nat take_bit_nat_eq_self)
  qed
  ultimately have sl: "log_slot (100 + of_nat k) (lh_block s) k = k"
    using f(4) assms(2) by (intro log_slot_new) auto
  let ?s' = "bpin k (s\<lparr>lh_block := (lh_block s)[k := 100 + of_nat k]\<rparr>)\<lparr>lh_n := int k + 1\<rparr>"
  have "log_write k s = Some ?s'"
    using f assms(2) blk [of k] sl by (simp add: log_write_def Let_def LOGSIZE_val)
  moreover have "map b_blockno (bufs ?s') = map b_blockno (bufs s)"
    using len assms(2) by (auto simp: bpin_def upd_buf_def map_update intro!: nth_equalityI simp: nth_list_update)
  moreover have "take (Suc k) ((lh_block s)[k := 100 + of_nat k]) = map (\<lambda>j. 100 + of_nat j) [0..<Suc k]"
    using f(4,5) assms(2) by (simp add: take_Suc_conv_app_nth)
  ultimately show ?thesis using f by (simp add: filled_def)
qed

definition wrote :: "nat \<Rightarrow> nat list" where
  "wrote k = [min k 10, min (k - 10) 10, k - 20]"

lemma wrote_Suc:
  assumes "k < 29"
  shows "\<exists>i. i < length (wrote k) \<and> wrote k ! i < MAXOPBLOCKS \<and> (wrote k)[i := wrote k ! i + 1] = wrote (Suc k)"
proof -
  consider "k < 10" | "10 \<le> k" "k < 20" | "20 \<le> k" by linarith
  then show ?thesis
  proof cases
    case 1
    then show ?thesis by (intro exI [of _ 0]) (simp add: wrote_def MAXOPBLOCKS_def)
  next
    case 2
    then have "k - 10 < 10" "Suc (k - 10) = Suc k - 10" "min (k - 10) 10 = k - 10" "min (Suc k - 10) 10 = Suc k - 10" by auto
    then show ?thesis using 2 by (intro exI [of _ 1]) (simp add: wrote_def MAXOPBLOCKS_def)
  next
    case 3
    then have "k - 20 < 10" "Suc (k - 20) = Suc k - 20" using assms by auto
    then show ?thesis using 3 by (intro exI [of _ 2]) (simp add: wrote_def MAXOPBLOCKS_def)
  qed
qed

lemma filled_reachable: "k \<le> 29 \<Longrightarrow> \<exists>s. log_reach full_start (s, wrote k) \<and> filled k s"
proof (induction k)
  case 0
  let ?s = "\<lambda>n. full_start\<lparr>outstanding := n\<rparr>"
  have b: "begin_op (?s n) = Some (?s (n + 1))" if "n \<le> 2" for n
    using that by (simp add: begin_op_def full_start_def LOGSIZE_val MAXOPBLOCKS_def)
  have "log_reach full_start (?s 0, [])"
    using log_reach.init [of full_start] by (simp add: full_start_def)
  then have "log_reach full_start (?s 1, [0])"
    by (rule log_reach.step) (use log_step.start [OF b [of 0]] in simp)
  then have "log_reach full_start (?s 2, [0, 0])"
    by (rule log_reach.step) (use log_step.start [OF b [of 1]] in simp)
  then have "log_reach full_start (?s 3, [0, 0, 0])"
    by (rule log_reach.step) (use log_step.start [OF b [of 2]] in simp)
  moreover have "filled 0 (?s 3)" by (simp add: filled_def full_start_def)
  ultimately show ?case by (auto simp: wrote_def)
next
  case (Suc k)
  then obtain s where s: "log_reach full_start (s, wrote k)" "filled k s" by auto
  obtain s' where s': "log_write k s = Some s'" "filled (Suc k) s'" using filled_Suc [OF s(2)] Suc.prems by auto
  obtain i where i: "i < length (wrote k)" "wrote k ! i < MAXOPBLOCKS" "(wrote k)[i := wrote k ! i + 1] = wrote (Suc k)"
    using wrote_Suc [of k] Suc.prems by auto
  have "log_reach full_start (s', wrote (Suc k))"
    using log_reach.step [OF s(1) log_step.logw [OF i(1,2) s'(1)]] i(3) by simp
  with s'(2) show ?case by blast
qed

text \<open>
  C8: with the log size mkfs writes (30 blocks, header included) the panic is reachable:
  three admitted calls log 10, 10 and 9 blocks, and the tenth block of the third call panics.
\<close>

theorem log_full_panic:
  "\<exists>s ws i. log_size full_start = int LOGSIZE \<and> log_reach full_start (s, ws) \<and> i < length ws \<and>
     ws ! i < MAXOPBLOCKS \<and> (\<forall>buf. log_write buf s = None)"
proof -
  obtain s where s: "log_reach full_start (s, wrote 29)" "filled 29 s" using filled_reachable [of 29] by auto
  have "log_write buf s = None" for buf using s(2) by (simp add: log_write_def filled_def)
  moreover have "2 < length (wrote 29)" "wrote 29 ! 2 < MAXOPBLOCKS" by (simp_all add: wrote_def MAXOPBLOCKS_def)
  moreover have "log_size full_start = int LOGSIZE" by (simp add: full_start_def LOGSIZE_val)
  ultimately show ?thesis using s(1) by blast
qed

text \<open>The same calls on a log with one more block.\<close>

theorem log_never_full_witness:
  "log_write 0 (full_start\<lparr>log_size := 31, outstanding := 1\<rparr>) \<noteq> None"
proof (rule log_never_full [where i = 0 and ws = "[0]"])
  let ?s = "full_start\<lparr>log_size := 31\<rparr>"
  have "begin_op ?s = Some (full_start\<lparr>log_size := 31, outstanding := 1\<rparr>)"
    by (simp add: begin_op_def full_start_def LOGSIZE_val MAXOPBLOCKS_def)
  then show "log_reach ?s (full_start\<lparr>log_size := 31, outstanding := 1\<rparr>, [0])"
    using log_reach.step [OF log_reach.init log_step.start] by blast
qed (simp_all add: full_start_def LOGSIZE_val MAXOPBLOCKS_def)

end
