(* ===== verification/Fs_Alloc.thy ===== *)
theory Fs_Alloc
  imports Fs Log_Space
begin

text \<open>
  Block updates inside a transaction and the block allocator of kernel/fs.c. \<open>tx_ok s k\<close> says
  that \<open>k\<close> more blocks can be logged and buffered; one read-modify-\<open>log_write\<close>-release round
  changes exactly one block of the view and uses at most one unit of \<open>k\<close>. On top of it: \<open>balloc\<close>
  takes the lowest free block, marks and clears it, and \<open>bfree\<close> gives it back.
\<close>

section \<open>A block update in a transaction\<close>

definition logged :: "'a log_state_scheme \<Rightarrow> u32 set" where
  "logged s = set (take (nat (lh_n s)) (lh_block s))"

definition tx_ok :: "'a log_state_scheme \<Rightarrow> nat \<Rightarrow> bool" where
  "tx_ok s k \<longleftrightarrow> cache_inv s \<and> 1 \<le> outstanding s \<and> 0 \<le> lh_n s \<and> lh_n s + int k \<le> int LOGSIZE \<and>
     lh_n s + int k \<le> log_size s - 1 \<and> length (lh_block s) = LOGSIZE \<and>
     (\<forall>b. \<not> held s b \<and> pins s b + k + 2 \<le> max_ref) \<and> k < nfree s \<and> (\<forall>b \<in> logged s. 1 \<le> pins s b)"

lemma tx_ok_mono: "tx_ok s k \<Longrightarrow> j \<le> k \<Longrightarrow> tx_ok s j"
proof -
  assume tx: "tx_ok s k" and j: "j \<le> k"
  have "pins s b + j + 2 \<le> max_ref" for b
    using tx j unfolding tx_ok_def by (meson add_le_mono order_refl order_trans)
  with tx j show ?thesis by (auto simp: tx_ok_def)
qed

definition mod_block :: "u32 \<Rightarrow> (block \<Rightarrow> block) \<Rightarrow> 'a log_state_scheme \<Rightarrow> 'a log_state_scheme option" where
  "mod_block b f s = do {
     (bp, s1) \<leftarrow> bread ROOTDEV b s;
     s2 \<leftarrow> log_write bp (set_data bp (f (get_data bp s1)) s1);
     brelse bp s2 }"

lemma log_slot_cases:
  assumes "n \<le> length bs"
  shows "if b \<in> set (take n bs) then log_slot b bs n < n \<and> bs ! log_slot b bs n = b else log_slot b bs n = n"
proof (cases "first_index (\<lambda>x. x = b) (take n bs)")
  case None
  then have "b \<notin> set (take n bs)" by (auto simp: first_index_None)
  with None show ?thesis by (simp add: log_slot_def)
next
  case (Some t)
  then have t: "t < n" "bs ! t = b" using assms by (auto simp: first_index_Some)
  then have "b \<in> set (take n bs)" using nth_in_take assms by metis
  with Some t show ?thesis by (simp add: log_slot_def)
qed

text \<open>\<open>log_write\<close> on a block that is held: absorbed, or pinned and appended to the header.\<close>

lemma log_write_law:
  assumes inv: "cache_inv s" and h: "held_buf s b i" and out: "1 \<le> outstanding s" "0 \<le> lh_n s"
      "lh_n s < int LOGSIZE" "lh_n s < log_size s - 1" "length (lh_block s) = LOGSIZE" and small: "pins s b < max_ref"
  shows "\<exists>s'. log_write i s = Some s' \<and> cache_inv s' \<and> held_buf s' b i \<and> logged s' = insert b (logged s) \<and>
     cache_abs s' = (if b \<in> logged s then cache_abs s else a_pin b (cache_abs s)) \<and>
     lh_n s' = (if b \<in> logged s then lh_n s else lh_n s + 1) \<and> length (lh_block s') = LOGSIZE \<and>
     log_state.more s' = log_state.more s \<and> outstanding s' = outstanding s \<and> log_size s' = log_size s"
proof -
  let ?n = "nat (lh_n s)"
  have hi: "holds s b i" "b_lock (bufs s ! i)" using h by (auto simp: held_buf_def)
  note bi = view_held_facts [OF inv hi(1)]
  have n: "?n < LOGSIZE" "?n < length (lh_block s)" using out by auto
  have sl: "if b \<in> logged s then log_slot b (lh_block s) ?n < ?n \<and> lh_block s ! log_slot b (lh_block s) ?n = b
      else log_slot b (lh_block s) ?n = ?n"
    using log_slot_cases [of ?n "lh_block s" b] n unfolding logged_def by simp
  show ?thesis
  proof (cases "b \<in> logged s")
    case True
    then have e: "(lh_block s)[log_slot b (lh_block s) ?n := b] = lh_block s"
      using sl by (metis list_update_id)
    have "log_write i s = Some (s\<lparr>lh_block := lh_block s\<rparr>)"
      using out True sl bi(7) e by (simp add: log_write_def Let_def)
    moreover have "s\<lparr>lh_block := lh_block s\<rparr> = s" by simp
    ultimately show ?thesis using True inv h out by (auto simp: insert_absorb)
  next
    case False
    let ?s1 = "s\<lparr>lh_block := (lh_block s)[?n := b]\<rparr>"
    let ?s' = "bpin i ?s1\<lparr>lh_n := lh_n s + 1\<rparr>"
    have w: "log_write i s = Some ?s'"
      using out False sl bi(7) by (simp add: log_write_def Let_def)
    have same: "bufs ?s1 = bufs s" "platter ?s1 = platter s" by simp_all
    note c1 = cache_fun_cong [OF same]
    have inv1: "cache_inv ?s1" using inv c1(5) by (simp add: cache_inv_def)
    have a1: "cache_abs ?s1 = cache_abs s" using c1 by (simp add: cache_abs_def)
    have h1: "held_buf ?s1 b i" using h c1(6) by simp
    have p: "cache_inv (bpin i ?s1)" "cache_abs (bpin i ?s1) = a_pin b (cache_abs s)" "held_buf (bpin i ?s1) b i"
      using bc.pin_ok [OF inv1 h1] small h1 unfolding a1 by (auto simp: cache_abs_def)
    have same2: "bufs ?s' = bufs (bpin i ?s1)" "platter ?s' = platter (bpin i ?s1)" by simp_all
    note c2 = cache_fun_cong [OF same2]
    have inv2: "cache_inv ?s'" using p(1) c2(5) by (simp add: cache_inv_def)
    have a2: "cache_abs ?s' = a_pin b (cache_abs s)" using p(2) c2 by (simp add: cache_abs_def)
    have "take (nat (lh_n s + 1)) ((lh_block s)[?n := b]) = take ?n (lh_block s) @ [b]"
    proof -
      have "nat (lh_n s + 1) = Suc ?n" using out by simp
      then show ?thesis using n by (simp add: take_Suc_conv_app_nth)
    qed
    then have "logged ?s' = insert b (logged s)" by (simp add: logged_def)
    then show ?thesis
      using w inv2 a2 p(3) c2(6) False out by (auto simp: bpin_def upd_buf_def)
  qed
qed

lemma mod_block_ok:
  assumes tx: "tx_ok s (Suc k)" and f: "\<And>d. length d = BSIZE \<Longrightarrow> length (f d) = BSIZE"
  shows "\<exists>s'. mod_block b f s = Some s' \<and> tx_ok s' k \<and> view s' = (view s)(b := f (view s b)) \<and>
     platter s' = platter s \<and> wtrace s' = wtrace s \<and> log_state.more s' = log_state.more s"
proof -
  have inv: "cache_inv s" and nh: "\<And>c. \<not> held s c" and sm: "\<And>c. pins s c + Suc k + 2 \<le> max_ref"
    and nf: "Suc k < nfree s" and lg: "\<And>c. c \<in> logged s \<Longrightarrow> 1 \<le> pins s c"
    using tx by (auto simp: tx_ok_def)
  have "pins s b < max_ref" using sm [of b] by simp
  then obtain i s1 where s1: "bread ROOTDEV b s = Some (i, s1)" "cache_inv s1" "cache_abs s1 = a_get b (cache_abs s)"
    "held_buf s1 b i" "bio_state.more s1 = bio_state.more s"
    using bc.rd_ok [of s b] inv nh [of b] nf by (auto simp: cache_abs_def)
  note m1 = log_fields_more [OF s1(5)]
  have c: "get_data i s1 = view s b" "length (get_data i s1) = BSIZE"
    using bc.cont_ok [OF s1(2,4)] unfolding s1(3) by (auto simp: a_get_def cache_abs_def)
  let ?s2 = "set_data i (f (view s b)) s1"
  have len: "length (f (view s b)) = BSIZE" using f c by simp
  have s2: "cache_inv ?s2" "cache_abs ?s2 = a_put b (f (view s b)) (cache_abs s1)" "held_buf ?s2 b i"
    "bio_state.more ?s2 = bio_state.more s1"
    using bc.put_ok [OF s1(2,4) len] s1(4) by auto
  note m2 = log_fields_more [OF s2(4)]
  have lg2: "logged ?s2 = logged s" by (simp add: logged_def m1 m2)
  have ref2: "pins ?s2 c = (if c = b then pins s b + 1 else pins s c)" for c
    using arg_cong [OF s2(2), of ref] unfolding s1(3) by (simp add: cache_abs_def a_put_def a_get_def)
  obtain s3 where s3: "log_write i ?s2 = Some s3" "cache_inv s3" "held_buf s3 b i" "logged s3 = insert b (logged s)"
    "cache_abs s3 = (if b \<in> logged s then cache_abs ?s2 else a_pin b (cache_abs ?s2))"
    "lh_n s3 = (if b \<in> logged s then lh_n s else lh_n s + 1)" "length (lh_block s3) = LOGSIZE"
    "log_state.more s3 = log_state.more ?s2" "outstanding s3 = outstanding s" "log_size s3 = log_size s"
    using log_write_law [OF s2(1,3)] tx ref2 [of b] sm [of b] m1 m2 by (auto simp: tx_ok_def lg2)
  have "ref (cache_abs s3) b \<noteq> 1"
    using s3(5) ref2 [of b] lg [of b] by (auto simp: cache_abs_def a_pin_def)
  then obtain s4 where s4: "brelse i s3 = Some s4" "cache_inv s4" "cache_abs s4 = a_rel b (cache_abs s3)"
    "bio_state.more s4 = bio_state.more s3"
    using bc.rel_ok [OF s3(2,3)] by auto
  note m4 = log_fields_more [OF s4(4)]
  have mb: "mod_block b f s = Some s4" using s1(1) s3(1) s4(1) c by (simp add: mod_block_def)
  have fin: "view s4 = (view s)(b := f (view s b))" "platter s4 = platter s" "wtrace s4 = wtrace s"
    "pins s4 = (pins s)(b := if b \<in> logged s then pins s b else pins s b + 1)"
    "held s4 = (held s)(b := False)"
    "nfree s4 = nfree s - (if pins s b = 0 then 1 else 0)"
    using s4(3) s3(5) lg [of b] nf unfolding s2(2) s1(3)
    by (auto simp: cache_abs_def a_rel_def a_pin_def a_put_def a_get_def split: if_splits)
  have more: "log_state.more s4 = log_state.more s"
  proof -
    have "log_state.more t' = log_state.more t" if "bio_state.more t' = bio_state.more t" for t t' :: "'a log_state_scheme"
      using that by (cases t; cases t') simp
    then show ?thesis using s4(4) s3(8) s2(4) s1(5) by metis
  qed
  have "logged s4 = insert b (logged s)" using s3(4) m4 by (simp add: logged_def)
  moreover have "pins s4 c + k + 2 \<le> max_ref" for c using sm [of c] by (auto simp: fin(4))
  moreover have "\<forall>c \<in> insert b (logged s). 1 \<le> pins s4 c" using lg by (auto simp: fin(4))
  ultimately have "tx_ok s4 k"
    using tx s4(2) s3(6,7,9,10) m4 nf nh by (auto simp: tx_ok_def fin)
  then show ?thesis using mb fin more by blast
qed

section \<open>The fields of the file system\<close>

lemma fs_fields_more:
  assumes "log_state.more s' = log_state.more s"
  shows "sb s' = sb s" "itable s' = itable s"
  using assms by (cases s; cases s'; simp)+

lemma log_more_bio: "bio_state.more s' = bio_state.more s \<Longrightarrow> log_state.more s' = log_state.more s"
  by (cases s; cases s'; simp)

text \<open>Reading a block without changing it.\<close>

lemma peek_block:
  assumes tx: "tx_ok s k"
  shows "\<exists>i s1 s2. bread ROOTDEV b s = Some (i, s1) \<and> get_data i s1 = view s b \<and> brelse i s1 = Some s2 \<and>
     tx_ok s2 k \<and> view s2 = view s \<and> platter s2 = platter s \<and> wtrace s2 = wtrace s \<and>
     log_state.more s1 = log_state.more s \<and> log_state.more s2 = log_state.more s"
proof -
  have inv: "cache_inv s" and nh: "\<And>c. \<not> held s c" and sm: "\<And>c. pins s c + k + 2 \<le> max_ref" and nf: "k < nfree s"
    using tx by (auto simp: tx_ok_def)
  have "pins s b < max_ref" using sm [of b] by simp
  then obtain i s1 where s1: "bread ROOTDEV b s = Some (i, s1)" "cache_inv s1" "cache_abs s1 = a_get b (cache_abs s)"
    "held_buf s1 b i" "bio_state.more s1 = bio_state.more s"
    using bc.rd_ok [of s b] inv nh [of b] nf by (auto simp: cache_abs_def)
  have c: "get_data i s1 = view s b"
    using bc.cont_ok [OF s1(2,4)] unfolding s1(3) by (auto simp: a_get_def cache_abs_def)
  have "ref (cache_abs s1) b = 1 \<longrightarrow> cur (cache_abs s1) b = dsk (cache_abs s1) b"
    using bc.clean [OF inv, of b] unfolding s1(3) by (auto simp: a_get_def)
  then obtain s2 where s2: "brelse i s1 = Some s2" "cache_inv s2" "cache_abs s2 = a_rel b (cache_abs s1)"
    "bio_state.more s2 = bio_state.more s1"
    using bc.rel_ok [OF s1(2,4)] by auto
  have "cache_abs s2 = cache_abs s"
    using nh [of b] nf unfolding s2(3) s1(3)
    by (intro cache_abs.equality) (auto simp: a_get_def a_rel_def cache_abs_def fun_eq_iff)
  then have v: "view s2 = view s" "platter s2 = platter s" "wtrace s2 = wtrace s" "pins s2 = pins s"
    "held s2 = held s" "nfree s2 = nfree s"
    by (simp_all add: cache_abs_def)
  have m: "bio_state.more s2 = bio_state.more s" using s2(4) s1(5) by simp
  note mf = log_fields_more [OF m]
  have "logged s2 = logged s" by (simp add: logged_def mf)
  then have "tx_ok s2 k" using tx s2(2) v mf by (simp add: tx_ok_def)
  then show ?thesis using s1 s2 c v m log_more_bio by blast
qed

section \<open>balloc and bfree\<close>

text \<open>\<open>used s b\<close>: the bit of block \<open>b\<close> in the bitmap.\<close>

definition bit_set :: "block \<Rightarrow> nat \<Rightarrow> bool" where
  "bit_set d bi \<longleftrightarrow> d ! (bi div 8) AND bit_mask bi \<noteq> 0"

definition used :: "'a fs_state_scheme \<Rightarrow> u32 \<Rightarrow> bool" where
  "used s b \<longleftrightarrow> bit_set (view s (BBLOCK b (sb s))) (unat (b mod BPB))"

definition mark :: "nat \<Rightarrow> block \<Rightarrow> block" where
  "mark bi d = d[bi div 8 := d ! (bi div 8) OR bit_mask bi]"

definition unmark :: "nat \<Rightarrow> block \<Rightarrow> block" where
  "unmark bi d = d[bi div 8 := d ! (bi div 8) AND NOT (bit_mask bi)]"

lemma bit_set_bit: "bit_set d bi \<longleftrightarrow> bit (d ! (bi div 8)) (bi mod 8)"
proof -
  have "x AND push_bit n 1 \<noteq> 0 \<longleftrightarrow> bit x n" if "n < 8" for x :: u8 and n
  proof
    assume "bit x n"
    then have "bit (x AND push_bit n 1) n" using that by (simp add: bit_simps)
    then show "x AND push_bit n 1 \<noteq> 0" by (metis bit_0_eq bot_apply bot_bool_def)
  next
    assume "x AND push_bit n 1 \<noteq> 0"
    then obtain k where "bit (x AND push_bit n 1) k" by (metis bit_eqI bit_0_eq bot_apply bot_bool_def)
    then have "bit x k" "k = n" by (auto simp: bit_simps)
    then show "bit x n" by simp
  qed
  then show ?thesis by (simp add: bit_set_def bit_mask_def)
qed

lemma add_less_size:
  assumes "unat (b :: u32) + j < 2 ^ 32"
  shows "b + of_nat j < sz \<longleftrightarrow> unat b + j < unat sz"
proof -
  have "unat (b + of_nat j) = unat b + j"
    using assms by (simp add: unat_word_ariths unat_of_nat take_bit_nat_eq_self)
  then show ?thesis by (simp add: word_less_nat_alt)
qed

lemma scan_bits_spec:
  assumes "unat b + bi + n \<le> 2 ^ 32"
  shows "case scan_bits d b sz bi n of
      None \<Rightarrow> \<forall>j. bi \<le> j \<longrightarrow> j < bi + n \<longrightarrow> unat b + j < unat sz \<longrightarrow> bit_set d j
    | Some k \<Rightarrow> bi \<le> k \<and> k < bi + n \<and> unat b + k < unat sz \<and> \<not> bit_set d k \<and> (\<forall>j. bi \<le> j \<longrightarrow> j < k \<longrightarrow> bit_set d j)"
  using assms
proof (induction n arbitrary: bi)
  case 0
  then show ?case by simp
next
  case (Suc n)
  have lt: "b + of_nat bi < sz \<longleftrightarrow> unat b + bi < unat sz"
    using Suc.prems by (intro add_less_size) simp
  show ?case
  proof (cases "unat b + bi < unat sz \<and> bit_set d bi")
    case True
    then have "scan_bits d b sz bi (Suc n) = scan_bits d b sz (Suc bi) n"
      using lt by (simp add: bit_set_def)
    moreover have "bit_set d j" if "bi \<le> j" "j < Suc bi" for j
      using True that by (simp add: less_Suc_eq_le)
    ultimately show ?thesis
      using Suc.IH [of "Suc bi"] Suc.prems True by (fastforce simp: not_less_eq_eq split: option.splits)
  next
    case False
    then show ?thesis using lt by (auto simp: bit_set_def)
  qed
qed

lemma BPB_val: "BPB = 8192"
  by (simp add: BPB_def BSIZE_def)

lemma bitmap_position:
  assumes "i * 8192 + bi < 2 ^ 32" and "bi < 8192"
  shows "BBLOCK (of_nat i * BPB + of_nat bi) sbk = BBLOCK (of_nat i * BPB) sbk"
    and "unat ((of_nat i * BPB + of_nat bi) mod BPB) = bi"
    and "unat (of_nat i * BPB + of_nat bi) = i * 8192 + bi" "unat (of_nat i * BPB) = i * 8192"
proof -
  have uB: "unat BPB = 8192" by (simp add: BPB_val)
  have "unat (of_nat (i * 8192 + bi) :: u32) = i * 8192 + bi"
    using assms(1) by (simp add: unat_of_nat take_bit_nat_eq_self del: of_nat_add of_nat_mult)
  moreover have "of_nat (i * 8192 + bi) = (of_nat i * BPB + of_nat bi :: u32)" by (simp add: BPB_val)
  ultimately show u: "unat (of_nat i * BPB + of_nat bi) = i * 8192 + bi" by simp
  have "unat (of_nat (i * 8192) :: u32) = i * 8192"
    using assms(1) by (simp add: unat_of_nat take_bit_nat_eq_self del: of_nat_mult)
  moreover have "of_nat (i * 8192) = (of_nat i * BPB :: u32)" by (simp add: BPB_val)
  ultimately show u0: "unat (of_nat i * BPB) = i * 8192" by simp
  show "unat ((of_nat i * BPB + of_nat bi) mod BPB) = bi"
    using assms(2) by (simp add: unat_mod_distrib u uB)
  have "unat ((of_nat i * BPB + of_nat bi) div BPB) = i" "unat ((of_nat i * BPB) div BPB) = i"
    using assms(2) by (simp_all add: unat_div_distrib u u0 uB)
  then have "(of_nat i * BPB + of_nat bi) div BPB = (of_nat i * BPB) div BPB"
    by (simp add: word_unat_eq_iff)
  then show "BBLOCK (of_nat i * BPB + of_nat bi) sbk = BBLOCK (of_nat i * BPB) sbk" by (simp add: BBLOCK_def)
qed

definition free_block :: "'a fs_state_scheme \<Rightarrow> u32 \<Rightarrow> bool" where
  "free_block s b \<longleftrightarrow> b < sb_size (sb s) \<and> \<not> used s b"

lemma bzero_mod: "bzero ROOTDEV b = mod_block b (\<lambda>_. replicate BSIZE 0)"
  by (rule ext) (simp add: bzero_def mod_block_def)

lemma length_mark [simp]: "length (mark bi d) = length d" "length (unmark bi d) = length d"
  by (simp_all add: mark_def unmark_def)

lemma balloc_loop_ok:
  assumes "tx_ok s (Suc (Suc k))" and "(i + n) * 8192 < unat (sb_size (sb s)) + 8192" "unat (sb_size (sb s)) \<le> (i + n) * 8192"
    and "\<forall>b. unat b < i * 8192 \<longrightarrow> b < sb_size (sb s) \<longrightarrow> used s b"
  shows "\<exists>b s'. balloc_loop ROOTDEV i n s = Some (b, s') \<and> log_state.more s' = log_state.more s \<and>
     (if \<exists>c. free_block s c
      then free_block s b \<and> (\<forall>c < b. used s c) \<and> tx_ok s' k \<and>
        view s' = (view s)(BBLOCK b (sb s) := mark (unat (b mod BPB)) (view s (BBLOCK b (sb s))), b := replicate BSIZE 0)
      else b = 0 \<and> tx_ok s' (Suc (Suc k)) \<and> view s' = view s)"
  using assms
proof (induction n arbitrary: i s)
  case 0
  then have "\<not> free_block s c" for c by (auto simp: free_block_def word_less_nat_alt)
  with 0 show ?case by (auto intro!: exI [of _ s])
next
  case (Suc n)
  let ?b = "of_nat i * BPB :: u32" and ?sz = "sb_size (sb s)"
  let ?B = "BBLOCK ?b (sb s)" and ?d = "view s (BBLOCK (of_nat i * BPB) (sb s))"
  have "i * 8192 < unat ?sz" using Suc.prems(2) by simp
  moreover have "unat ?sz < 2 ^ 32" by (rule unat_lt_u32)
  ultimately have "i < 524288" by simp
  then have i: "i * 8192 + 8192 \<le> 2 ^ 32" by simp
  have pos: "unat ?b = i * 8192" using i bitmap_position(4) [of i 0] by simp
  obtain bp s1 s2 where p: "bread ROOTDEV ?B s = Some (bp, s1)" "get_data bp s1 = ?d" "brelse bp s1 = Some s2"
    "tx_ok s2 (Suc (Suc k))" "view s2 = view s" "log_state.more s1 = log_state.more s" "log_state.more s2 = log_state.more s"
    using peek_block [OF Suc.prems(1), of ?B] by blast
  note f1 = fs_fields_more [OF p(6)] and f2 = fs_fields_more [OF p(7)]
  have at: "used s (?b + of_nat bi) \<longleftrightarrow> bit_set ?d bi" if "bi < 8192" for bi
    using bitmap_position(1) [of i bi "sb s"] bitmap_position(2,3) [of i bi] that i by (simp add: used_def)
  have split: "\<exists>bi < 8192. c = ?b + of_nat bi" if "\<not> unat c < i * 8192" "unat c < Suc i * 8192" for c
  proof (intro exI conjI)
    show "unat c - i * 8192 < 8192" using that by simp
    have "unat (?b + of_nat (unat c - i * 8192)) = unat c"
      using bitmap_position(3) [of i "unat c - i * 8192"] that i by simp
    then show "c = ?b + of_nat (unat c - i * 8192)" by (simp add: word_unat_eq_iff)
  qed
  note scan = scan_bits_spec [of ?b 0 8192 ?sz ?d, unfolded pos]
  show ?case
  proof (cases "scan_bits ?d ?b ?sz 0 (BSIZE * 8)")
    case None
    then have none: "\<forall>j < 8192. i * 8192 + j < unat ?sz \<longrightarrow> bit_set ?d j"
      using scan i by (simp add: BSIZE_def)
    have "\<forall>b. unat b < Suc i * 8192 \<longrightarrow> b < sb_size (sb s2) \<longrightarrow> used s2 b"
    proof (intro allI impI)
      fix c assume c: "unat c < Suc i * 8192" "c < sb_size (sb s2)"
      have "used s c"
      proof (cases "unat c < i * 8192")
        case True
        then show ?thesis using Suc.prems(4) c f2 by simp
      next
        case False
        then obtain bi where bi: "bi < 8192" "c = ?b + of_nat bi" using split c by blast
        then have "unat c = i * 8192 + bi" using bitmap_position(3) [of i bi] i by simp
        then show ?thesis using none at bi c(2) f2 by (simp add: word_less_nat_alt)
      qed
      then show "used s2 c" by (simp add: used_def p(5) f2)
    qed
    then obtain b s' where b: "balloc_loop ROOTDEV (Suc i) n s2 = Some (b, s')" "log_state.more s' = log_state.more s2"
      "if \<exists>c. free_block s2 c
      then free_block s2 b \<and> (\<forall>c < b. used s2 c) \<and> tx_ok s' k \<and>
        view s' = (view s2)(BBLOCK b (sb s2) := mark (unat (b mod BPB)) (view s2 (BBLOCK b (sb s2))), b := replicate BSIZE 0)
      else b = 0 \<and> tx_ok s' (Suc (Suc k)) \<and> view s' = view s2"
      using Suc.IH [OF p(4), of "Suc i"] Suc.prems f2 by auto
    have "balloc_loop ROOTDEV i (Suc n) s = Some (b, s')"
      using p None b(1) f1 by (simp add: Let_def)
    moreover have same: "free_block s2 c = free_block s c" "used s2 c = used s c" for c
      by (simp_all add: free_block_def used_def f2 p(5))
    note b(3) [unfolded same p(5) f2]
    ultimately show ?thesis using b(2) p(7) by auto
  next
    case (Some bi)
    then have sc: "bi < 8192" "i * 8192 + bi < unat ?sz" "\<not> bit_set ?d bi" "\<forall>j < bi. bit_set ?d j"
      using scan i by (auto simp: BSIZE_def)
    let ?c = "?b + of_nat bi"
    have uc: "unat ?c = i * 8192 + bi" "unat (?c mod BPB) = bi" "BBLOCK ?c (sb s) = ?B"
      using bitmap_position(1) [of i bi "sb s"] bitmap_position(2,3) [of i bi] sc i by auto
    have fr: "free_block s ?c" using sc at uc(1) by (simp add: free_block_def word_less_nat_alt)
    have low: "\<forall>c < ?c. used s c"
    proof (intro allI impI)
      fix c assume c: "c < ?c"
      show "used s c"
      proof (cases "unat c < i * 8192")
        case True
        then show ?thesis using Suc.prems(4) c sc uc by (simp add: word_less_nat_alt)
      next
        case False
        then obtain bj where bj: "bj < 8192" "c = ?b + of_nat bj"
          using split [of c] c uc sc(1) by (auto simp: word_less_nat_alt)
        then have "unat c = i * 8192 + bj" using bitmap_position(3) [of i bj] i by simp
        then show ?thesis using c uc sc(4) at bj by (simp add: word_less_nat_alt)
      qed
    qed
    obtain s3 where s3: "mod_block ?B (mark bi) s = Some s3" "tx_ok s3 (Suc k)"
      "view s3 = (view s)(?B := mark bi ?d)" "log_state.more s3 = log_state.more s"
      using mod_block_ok [OF Suc.prems(1), of "mark bi" ?B] by auto
    obtain s4 where s4: "mod_block ?c (\<lambda>_. replicate BSIZE 0) s3 = Some s4" "tx_ok s4 k"
      "view s4 = (view s3)(?c := replicate BSIZE 0)" "log_state.more s4 = log_state.more s3"
      using mod_block_ok [OF s3(2), of "\<lambda>_. replicate BSIZE 0" ?c] by auto
    obtain s2' where "log_write bp (set_data bp (mark bi ?d) s1) = Some s2'" "brelse bp s2' = Some s3"
      using s3(1) p(1,2) by (auto simp: mod_block_def monad_simps)
    then have "balloc_loop ROOTDEV i (Suc n) s = Some (?c, s4)"
      using p Some s4(1) f1 by (simp add: Let_def mark_def bzero_mod)
    then show ?thesis using fr low s4 s3 uc by auto
  qed
qed

text \<open>
  C11: inside a transaction with room for two blocks, \<open>balloc\<close> returns the lowest free block,
  sets its bit in the bitmap, zeroes it and changes nothing else; with no free block it
  returns 0 and changes no block.
\<close>

theorem balloc_lowest_free:
  assumes "tx_ok s (Suc (Suc k))"
  shows "\<exists>b s'. balloc ROOTDEV s = Some (b, s') \<and> sb s' = sb s \<and> itable s' = itable s \<and>
     (if \<exists>c. free_block s c
      then free_block s b \<and> (\<forall>c < b. used s c) \<and> tx_ok s' k \<and>
        view s' = (view s)(BBLOCK b (sb s) := mark (unat (b mod BPB)) (view s (BBLOCK b (sb s))), b := replicate BSIZE 0)
      else b = 0 \<and> tx_ok s' (Suc (Suc k)) \<and> view s' = view s)"
proof -
  let ?n = "(unat (sb_size (sb s)) + 8191) div 8192"
  have "(0 + ?n) * 8192 < unat (sb_size (sb s)) + 8192" "unat (sb_size (sb s)) \<le> (0 + ?n) * 8192" by auto
  from balloc_loop_ok [OF assms this] show ?thesis
    unfolding balloc_def by (metis fs_fields_more less_nat_zero_code mult_zero_left)
qed

text \<open>\<open>bfree\<close> of a used block clears its bit; of a free block it panics.\<close>

lemma bfree_ok:
  assumes tx: "tx_ok s (Suc k)"
  shows "if used s b
     then \<exists>s'. bfree ROOTDEV b s = Some s' \<and> tx_ok s' k \<and> log_state.more s' = log_state.more s \<and>
       view s' = (view s)(BBLOCK b (sb s) := unmark (unat (b mod BPB)) (view s (BBLOCK b (sb s))))
     else bfree ROOTDEV b s = None"
proof -
  let ?B = "BBLOCK b (sb s)" and ?bi = "unat (b mod BPB)"
  obtain s' where s': "mod_block ?B (unmark ?bi) s = Some s'" "tx_ok s' k"
    "view s' = (view s)(?B := unmark ?bi (view s ?B))" "log_state.more s' = log_state.more s"
    using mod_block_ok [OF tx, of "unmark ?bi" ?B] by auto
  obtain bp s1 where p: "bread ROOTDEV ?B s = Some (bp, s1)" "get_data bp s1 = view s ?B"
    using peek_block [OF tx, of ?B] by blast
  have "bfree ROOTDEV b s = (if used s b then mod_block ?B (unmark ?bi) s else None)"
    using p by (simp add: bfree_def mod_block_def unmark_def used_def bit_set_def Let_def)
  then show ?thesis using s' by auto
qed

lemma unmark_mark:
  assumes "\<not> bit_set d bi"
  shows "unmark bi (mark bi d) = d"
proof (cases "bi div 8 < length d")
  case True
  have "(x OR push_bit k 1) AND NOT (push_bit k 1) = x" if "x AND push_bit k 1 = 0" for x :: u8 and k
  proof (rule bit_eqI)
    fix j assume "possible_bit TYPE(8 word) j"
    then have "j < 8" by simp
    have "bit (x AND push_bit k 1) j = False" using that by simp
    then show "bit ((x OR push_bit k 1) AND NOT (push_bit k 1)) j = bit x j" using \<open>j < 8\<close> by (auto simp: bit_simps)
  qed
  then show ?thesis using assms True by (simp add: unmark_def mark_def bit_set_def bit_mask_def)
next
  case False
  then show ?thesis by (simp add: unmark_def mark_def list_update_beyond)
qed

lemma mark_sets: "bi div 8 < length d \<Longrightarrow> bit_set (mark bi d) bi"
  by (auto simp: mark_def bit_set_bit bit_mask_def bit_simps)

lemma bitmap_index: "unat (b mod BPB) div 8 < BSIZE"
proof -
  have "unat (b mod BPB) < 8192" by (simp add: unat_mod_distrib BPB_val)
  then show ?thesis by (simp add: BSIZE_def)
qed

lemma view_length: "tx_ok s k \<Longrightarrow> length (view s b) = BSIZE"
  using bufidx_iff [of s b] by (auto simp: tx_ok_def cache_inv_def view_def holds_def split: option.splits)

text \<open>
  Freeing the block that \<open>balloc\<close> just returned gives back the bitmap as it was; the
  block itself stays cleared. So an allocation that is undone leaks nothing.
\<close>

theorem balloc_bfree:
  assumes tx: "tx_ok s (Suc (Suc (Suc k)))" and fr: "free_block s c"
    and apart: "\<forall>b. free_block s b \<longrightarrow> b \<noteq> BBLOCK b (sb s)"
  shows "\<exists>b s1 s2. balloc ROOTDEV s = Some (b, s1) \<and> bfree ROOTDEV b s1 = Some s2 \<and>
     view s2 = (view s)(b := replicate BSIZE 0) \<and> tx_ok s2 k"
proof -
  let ?n = "(unat (sb_size (sb s)) + 8191) div 8192"
  have "(0 + ?n) * 8192 < unat (sb_size (sb s)) + 8192" "unat (sb_size (sb s)) \<le> (0 + ?n) * 8192" by auto
  moreover have ex: "\<exists>c. free_block s c" using fr by blast
  ultimately obtain b s1 where b: "balloc ROOTDEV s = Some (b, s1)"
    "log_state.more s1 = log_state.more s" "free_block s b" "tx_ok s1 (Suc k)"
    "view s1 = (view s)(BBLOCK b (sb s) := mark (unat (b mod BPB)) (view s (BBLOCK b (sb s))), b := replicate BSIZE 0)"
    using balloc_loop_ok [OF tx, of 0 ?n, unfolded if_P [OF ex]] by (auto simp: balloc_def)
  note f1 = fs_fields_more [OF b(2)]
  have ne: "b \<noteq> BBLOCK b (sb s)" using apart b(3) by blast
  have "unat (b mod BPB) div 8 < length (view s (BBLOCK b (sb s)))"
    using bitmap_index view_length [OF tx] by simp
  then have "used s1 b" using ne b(5) f1 mark_sets by (simp add: used_def)
  then obtain s2 where s2: "bfree ROOTDEV b s1 = Some s2" "tx_ok s2 k"
    "view s2 = (view s1)(BBLOCK b (sb s) := unmark (unat (b mod BPB)) (view s1 (BBLOCK b (sb s))))"
    using bfree_ok [OF b(4), of b] f1 by auto
  have "\<not> bit_set (view s (BBLOCK b (sb s))) (unat (b mod BPB))"
    using b(3) by (simp add: free_block_def used_def)
  then have "view s2 = (view s)(b := replicate BSIZE 0)"
    using s2(3) b(5) ne unmark_mark by (auto simp: fun_eq_iff)
  with b(1) s2(1,2) show ?thesis by blast
qed

section \<open>A concrete file system\<close>

text \<open>
  A disk with the layout of mkfs: the 4046 blocks of boot, superblock, log, swap, inodes and bitmap
  are in use, the rest is free; the cache is empty and the transaction has logged nothing.
\<close>

definition demo_disk :: "u32 \<Rightarrow> block" where
  "demo_disk b = (if b = 4045 then replicate 505 0xff @ 0x3f # replicate (BSIZE - 506) 0 else replicate BSIZE 0)"

definition demo_fs :: fs_state where
  "demo_fs = binit \<lparr>platter = demo_disk, wtrace = [], bufs = [], lru = [], log_start = 2, log_size = 30,
     outstanding = 1, committing = False, log_dev = ROOTDEV, lh_n = 0, lh_block = replicate LOGSIZE 0,
     sb = demo_sb, itable = replicate NINODE empty_inode\<rparr>"

lemma demo_fs_holds: "\<not> holds demo_fs b i"
  by (auto simp: holds_def demo_fs_def binit_def empty_buf_def ROOTDEV_def)

lemma demo_fs_inv: "cache_inv demo_fs"
proof -
  have "\<forall>x \<in> set (bufs demo_fs). \<not> b_lock x \<and> \<not> b_valid x \<and> length (b_data x) = BSIZE"
    by (auto simp: demo_fs_def binit_def empty_buf_def NBUF_def)
  moreover have "distinct (lru demo_fs)" "set (lru demo_fs) = {..<length (bufs demo_fs)}"
    "\<forall>b. length (platter demo_fs b) = BSIZE"
    by (auto simp: demo_fs_def binit_def demo_disk_def BSIZE_def)
  ultimately show ?thesis by (auto simp: cache_inv_def demo_fs_holds)
qed

lemma demo_fs_cache: "view demo_fs = demo_disk" "pins demo_fs b = 0" "\<not> held demo_fs b" "nfree demo_fs = 30"
proof -
  have "bufidx demo_fs b = None" for b
    using bufidx_None [OF demo_fs_inv, of b] by (simp add: demo_fs_holds)
  then show "view demo_fs = demo_disk" "pins demo_fs b = 0" "\<not> held demo_fs b"
    by (auto simp: view_def pins_def held_def fun_eq_iff) (simp add: demo_fs_def binit_def)
  show "nfree demo_fs = 30" by (simp add: nfree_def demo_fs_def binit_def empty_buf_def NBUF_def)
qed

lemma demo_fs_ok: "k < 30 \<Longrightarrow> tx_ok demo_fs k"
  using demo_fs_cache demo_fs_inv
  by (auto simp: tx_ok_def logged_def max_ref_def LOGSIZE_val) (simp_all add: demo_fs_def binit_def LOGSIZE_val)

lemma demo_fs_BBLOCK: "b < 8192 \<Longrightarrow> BBLOCK b (sb demo_fs) = 4045"
proof -
  assume "b < 8192"
  then have "unat (b div BPB) = 0" by (simp add: unat_div_distrib BPB_val word_less_nat_alt)
  then have "b div BPB = 0" by (simp add: unat_eq_0)
  then show ?thesis by (simp add: BBLOCK_def demo_fs_def binit_def demo_sb_def)
qed

lemma demo_fs_used: "b < 8192 \<Longrightarrow> used demo_fs b \<longleftrightarrow> b < 4046"
proof -
  assume b: "b < 8192"
  define n where "n = unat b"
  have n: "n < 8192" using b by (simp add: n_def word_less_nat_alt)
  have m: "unat (b mod BPB) = n" using n by (simp add: unat_mod_distrib BPB_val n_def)
  have d: "demo_disk 4045 ! (n div 8) = (if n div 8 < 505 then mask 8 else if n div 8 = 505 then mask 6 else 0)"
    using n by (simp add: demo_disk_def nth_append nth_Cons' BSIZE_def mask_eq_exp_minus_1)
  have "bit (demo_disk 4045 ! (n div 8)) (n mod 8) \<longleftrightarrow> n div 8 < 505 \<or> n div 8 = 505 \<and> n mod 8 < 6"
    unfolding d by (simp add: bit_mask_iff)
  also have "\<dots> \<longleftrightarrow> n < 4046" by presburger
  finally have "used demo_fs b \<longleftrightarrow> n < 4046"
    by (simp add: used_def bit_set_bit demo_fs_cache demo_fs_BBLOCK [OF b] m)
  then show ?thesis by (simp add: word_less_nat_alt n_def)
qed

lemma demo_fs_free: "free_block demo_fs b \<longleftrightarrow> 4046 \<le> b \<and> b < 6000"
proof -
  have "used demo_fs b \<longleftrightarrow> b < 4046" if "b < 6000"
    using demo_fs_used [of b] that by (simp add: word_less_nat_alt)
  then show ?thesis by (auto simp: free_block_def demo_fs_def demo_sb_def binit_def)
qed

theorem balloc_lowest_free_witness:
  "\<exists>s'. balloc ROOTDEV demo_fs = Some (4046, s') \<and> view s' 4046 = replicate BSIZE 0"
proof -
  have "tx_ok demo_fs (Suc (Suc 0))" by (rule demo_fs_ok) simp
  moreover have fr: "free_block demo_fs 4046" using demo_fs_free [of 4046] by simp
  then have ex: "\<exists>c. free_block demo_fs c" by (rule exI)
  ultimately obtain b s' where b: "balloc ROOTDEV demo_fs = Some (b, s')" "free_block demo_fs b"
    "\<forall>c < b. used demo_fs c" "view s' b = replicate BSIZE 0"
    using balloc_lowest_free [of demo_fs 0, unfolded if_P [OF ex]] by fastforce
  have "\<not> 4046 < b" using b(3) fr unfolding free_block_def by blast
  moreover have "4046 \<le> b" using b(2) demo_fs_free by blast
  ultimately have "b = 4046" by (simp add: order_antisym)
  with b show ?thesis by blast
qed

theorem balloc_bfree_witness:
  "\<exists>b s1 s2. balloc ROOTDEV demo_fs = Some (b, s1) \<and> bfree ROOTDEV b s1 = Some s2 \<and> view s2 = demo_disk(b := replicate BSIZE 0)"
proof -
  have "tx_ok demo_fs (Suc (Suc (Suc 0)))" by (rule demo_fs_ok) simp
  moreover have "free_block demo_fs 4046" using demo_fs_free [of 4046] by simp
  moreover have "\<forall>b. free_block demo_fs b \<longrightarrow> b \<noteq> BBLOCK b (sb demo_fs)"
  proof (intro allI impI)
    fix b assume "free_block demo_fs b"
    then have "4046 \<le> b" "b < 8192" using demo_fs_free [of b] by (auto simp: word_less_nat_alt)
    then show "b \<noteq> BBLOCK b (sb demo_fs)" using demo_fs_BBLOCK [of b] by (auto simp: word_le_nat_alt)
  qed
  ultimately show ?thesis using balloc_bfree [of demo_fs 0 4046] demo_fs_cache(1) by metis
qed

end
