(* ===== verification/Exec.thy ===== *)
theory Exec
  imports Process
begin

text \<open>
  Loading programs: kernel/exec.c and the ELF structures of kernel/elf.h. The path and the
  argument strings are byte lists without their NUL; \<open>argv\<close> is the list of the strings before
  its null pointer. \<open>readi\<close> into a local struct goes through \<open>copy_local_out\<close> on its bytes.
\<close>

section \<open>ELF\<close>

definition ELF_MAGIC :: u32 where "ELF_MAGIC = 0x464C457F"
definition ELF_PROG_LOAD :: u32 where "ELF_PROG_LOAD = 1"
definition ELFHDR_SIZE :: nat where "ELFHDR_SIZE = 64"
definition PROGHDR_SIZE :: nat where "PROGHDR_SIZE = 56"
definition MAXARG :: nat where "MAXARG = 32"

definition get64 :: "block \<Rightarrow> nat \<Rightarrow> u64" where
  "get64 d i = ucast (get32 d i) OR push_bit 32 (ucast (get32 d (i + 4)))"

record elfhdr =
  e_magic :: u32
  e_entry :: u64
  e_phoff :: u64
  e_phnum :: u16

definition read_elfhdr :: "block \<Rightarrow> elfhdr" where
  "read_elfhdr d = \<lparr>e_magic = get32 d 0, e_entry = get64 d 24, e_phoff = get64 d 32, e_phnum = get16 d 56\<rparr>"

record proghdr =
  ph_type :: u32
  ph_flags :: u32
  ph_off :: u64
  ph_vaddr :: u64
  ph_filesz :: u64
  ph_memsz :: u64

definition read_proghdr :: "block \<Rightarrow> proghdr" where
  "read_proghdr d = \<lparr>ph_type = get32 d 0, ph_flags = get32 d 4, ph_off = get64 d 8, ph_vaddr = get64 d 16,
     ph_filesz = get64 d 32, ph_memsz = get64 d 40\<rparr>"

definition flags2perm :: "u32 \<Rightarrow> u64" where
  "flags2perm flags =
     (let perm = (if flags AND 1 \<noteq> 0 then PTE_X else 0) in
      if flags AND 2 \<noteq> 0 then perm OR PTE_W else perm)"

text \<open>A read of \<open>n\<close> bytes at \<open>off\<close> into a local struct that holds \<open>buf\<close>.\<close>

definition read_local :: "nat \<Rightarrow> u32 \<Rightarrow> nat \<Rightarrow> block \<Rightarrow> 'a kernel_state_scheme
    \<Rightarrow> ((u32 \<times> block) \<times> 'a kernel_state_scheme) option" where
  "read_local ip off n buf s = do {
     (r, fs, buf') \<leftarrow> readi copy_local_out ip False 0 off (of_nat n) (fsys s) buf;
     Some ((r, buf'), s\<lparr>fsys := fs\<rparr>) }"

section \<open>Loading\<close>

text \<open>\<open>loadseg\<close>: \<open>i\<close> bytes of the segment are loaded; \<open>va\<close> and the file offset are those of its start.\<close>

partial_function (option) loadseg_loop ::
  "u64 \<Rightarrow> u64 \<Rightarrow> nat \<Rightarrow> u32 \<Rightarrow> u32 \<Rightarrow> u32 \<Rightarrow> 'a kernel_state_scheme \<Rightarrow> (int \<times> 'a kernel_state_scheme) option" where
  "loadseg_loop pagetable va ip off sz i s =
     (if i < sz then
        let pa = walkaddr pagetable (va + ucast i) s;
            n = (if sz - i < 4096 then sz - i else 4096) in
        if pa = 0 then None \<comment> \<open>panic loadseg: address should exist\<close>
        else do {
          (r, fs, s1) \<leftarrow> readi either_copyout ip False pa (off + i) n (fsys s) s;
          let s2 = s1\<lparr>fsys := fs\<rparr>;
          if r \<noteq> n then Some (-1, s2) else loadseg_loop pagetable va ip off sz (i + 4096) s2 }
      else Some (0, s))"

definition loadseg :: "u64 \<Rightarrow> u64 \<Rightarrow> nat \<Rightarrow> u32 \<Rightarrow> u32 \<Rightarrow> 'a kernel_state_scheme \<Rightarrow> (int \<times> 'a kernel_state_scheme) option" where
  "loadseg pagetable va ip off sz s = loadseg_loop pagetable va ip off sz 0 s"

text \<open>
  \<open>memcmp(path, lit, strlen(lit)) == 0\<close> for a literal; \<open>char_at\<close> reads the terminating NUL.
  The last comparison of \<open>exec\<close> has its parenthesis inside \<open>strlen(..)==0\<close>, so it compares no
  bytes and is 0.
\<close>

definition starts_with :: "u8 list \<Rightarrow> string \<Rightarrow> bool" where
  "starts_with path lit \<longleftrightarrow> (\<forall>i < length lit. char_at path i = of_char (lit ! i))"

definition on_demand_path :: "u8 list \<Rightarrow> bool" where
  "on_demand_path path \<longleftrightarrow> \<not> (starts_with path ''/init'' \<or> starts_with path ''sh'' \<or>
     starts_with path ''test8-cow1'' \<or> starts_with path ''test9-cow2'')"

text \<open>
  The segment loop: \<open>Inl sz\<close> is a jump to \<open>bad\<close> with the size so far, \<open>Inr sz\<close> the end of the
  loop. \<open>off\<close> is an \<open>int\<close> in the code; it is passed on as a 32-bit value.
\<close>

primrec load_segments ::
  "u64 \<Rightarrow> nat \<Rightarrow> bool \<Rightarrow> u32 \<Rightarrow> nat \<Rightarrow> u64 \<Rightarrow> block \<Rightarrow> 'a kernel_state_scheme
     \<Rightarrow> ((u64 + u64) \<times> 'a kernel_state_scheme) option" where
  "load_segments pagetable ip ondemand off 0 sz buf s = Some (Inr sz, s)"
| "load_segments pagetable ip ondemand off (Suc n) sz buf s = do {
     ((r, buf'), s1) \<leftarrow> read_local ip off PROGHDR_SIZE buf s;
     let ph = read_proghdr buf';
     let next_sz = load_segments pagetable ip ondemand (off + of_nat PROGHDR_SIZE) n;
     if r \<noteq> of_nat PROGHDR_SIZE then Some (Inl sz, s1)
     else if ph_type ph \<noteq> ELF_PROG_LOAD then next_sz sz buf' s1
     else if ph_memsz ph < ph_filesz ph then Some (Inl sz, s1)
     else if ph_vaddr ph + ph_memsz ph < ph_vaddr ph then Some (Inl sz, s1)
     else if ph_vaddr ph mod PGSIZE \<noteq> 0 then Some (Inl sz, s1)
     else if \<not> ondemand then do {
       (sz1, s2) \<leftarrow> uvmalloc pagetable sz (ph_vaddr ph + ph_memsz ph) (flags2perm (ph_flags ph)) s1;
       if sz1 = 0 then Some (Inl sz, s2)
       else do {
         (l, s3) \<leftarrow> loadseg pagetable (ph_vaddr ph) ip (ucast (ph_off ph)) (ucast (ph_filesz ph)) s2;
         if l < 0 then Some (Inl sz1, s3) else next_sz sz1 buf' s3 } }
     else next_sz (if sz < ph_vaddr ph + ph_memsz ph then ph_vaddr ph + ph_memsz ph else sz) buf' s1 }"

text \<open>The strings, pushed from the top of the stack; the result is the stack pointer and the
  addresses in \<open>ustack\<close>, or \<open>None\<close> for a jump to \<open>bad\<close>.\<close>

definition align16 :: "u64 \<Rightarrow> u64" where
  "align16 sp = sp - sp mod 16"

primrec push_args ::
  "u64 \<Rightarrow> u64 \<Rightarrow> u64 \<Rightarrow> nat \<Rightarrow> u8 list list \<Rightarrow> 'a kmem_state_scheme \<Rightarrow> (u64 \<times> u64 list) option \<times> 'a kmem_state_scheme" where
  "push_args pagetable stackbase sp argc [] s = (Some (sp, []), s)"
| "push_args pagetable stackbase sp argc (a # as) s =
     (if argc \<ge> MAXARG then (None, s)
      else let sp1 = align16 (sp - of_nat (length a + 1)) in
        if sp1 < stackbase then (None, s)
        else case copyout_bytes pagetable sp1 (a @ [0]) s of (r, s1) \<Rightarrow>
          if r < 0 then (None, s1)
          else case push_args pagetable stackbase sp1 (Suc argc) as s1 of (res, s2) \<Rightarrow>
            (map_option (\<lambda>(sp', us). (sp', sp1 # us)) res, s2))"

definition name_of_path :: "u8 list \<Rightarrow> u8 list" where
  "name_of_path path = rev (takeWhile (\<lambda>c. c \<noteq> slash) (rev path))"

definition no_heap :: "heap_tracker \<Rightarrow> heap_tracker" where
  "no_heap h = h\<lparr>ht_addr := 0xFFFFFFFFFFFFFFFF, ht_startblock := -1, ht_last_load := 0xFFFFFFFFFFFFFFFF, ht_loaded := False\<rparr>"

text \<open>The two exits of \<open>exec\<close> at \<open>bad\<close>: with the inode still locked, or after it is released.\<close>

definition exec_bad :: "u64 \<Rightarrow> u64 \<Rightarrow> nat option \<Rightarrow> 'a kernel_state_scheme \<Rightarrow> (int \<times> 'a kernel_state_scheme) option" where
  "exec_bad pagetable sz ip s = do {
     s1 \<leftarrow> (if pagetable \<noteq> 0 then proc_freepagetable pagetable sz s else Some s);
     s2 \<leftarrow> (case ip of None \<Rightarrow> Some s1
            | Some k \<Rightarrow> do { t \<leftarrow> fs_run (iunlockput k) s1; fs_run end_op t });
     Some (-1, s2) }"

text \<open>From the allocation of the stack on; \<open>i\<close> is the running process.\<close>

definition exec_stack ::
  "nat \<Rightarrow> u64 \<Rightarrow> u64 \<Rightarrow> u64 \<Rightarrow> u8 list \<Rightarrow> u8 list list \<Rightarrow> 'a kernel_state_scheme \<Rightarrow> (int \<times> 'a kernel_state_scheme) option" where
  "exec_stack i pagetable sz0 entry path argv s = do {
     let oldsz = p_sz (procs s ! i);
     let sz = PGROUNDUP sz0;
     (sz1, s1) \<leftarrow> uvmalloc pagetable sz (sz + 2 * PGSIZE) PTE_W s;
     if sz1 = 0 then exec_bad pagetable sz None s1
     else do {
       s2 \<leftarrow> uvmclear pagetable (sz1 - 2 * PGSIZE) s1;
       let stackbase = sz1 - PGSIZE;
       case push_args pagetable stackbase sz1 0 argv s2 of
         (None, s3) \<Rightarrow> exec_bad pagetable sz1 None s3
       | (Some (sp, us), s3) \<Rightarrow>
           let sp1 = align16 (sp - of_nat (length argv + 1) * 8) in
           if sp1 < stackbase then exec_bad pagetable sz1 None s3
           else case copyout_bytes pagetable sp1 (concat (map (\<lambda>u. le_bytes 8 (unat u)) (us @ [0]))) s3 of (r, s4) \<Rightarrow>
             if r < 0 then exec_bad pagetable sz1 None s4
             else do {
               let s5 = set_tf i tf_a1 sp1 s4;
               let oldpagetable = p_pagetable (procs s5 ! i);
               let s6 = upd_proc i (\<lambda>p. p\<lparr>p_name := set_name (name_of_path path) (p_name p),
                          p_pagetable := pagetable, p_sz := sz1\<rparr>) s5;
               let s7 = set_tf i tf_sp sp1 (set_tf i tf_epc entry s6);
               s8 \<leftarrow> proc_freepagetable oldpagetable oldsz s7;
               Some (int (length argv), upd_proc i (\<lambda>p. p\<lparr>p_heap := map no_heap (p_heap p), p_resident := 0\<rparr>) s8) } } }"

definition exec :: "u8 list \<Rightarrow> u8 list list \<Rightarrow> 'a kernel_state_scheme \<Rightarrow> (int \<times> 'a kernel_state_scheme) option" where
  "exec path argv s = do {
     i \<leftarrow> myproc s;
     let s0 = upd_proc i (\<lambda>p. p\<lparr>p_ondemand := on_demand_path path\<rparr>) s;
     c \<leftarrow> p_cwd (procs s0 ! i);
     s1 \<leftarrow> fs_run begin_op s0;
     (ipo, s2) \<leftarrow> fs_get (namei path c) s1;
     case ipo of
       None \<Rightarrow> do { s3 \<leftarrow> fs_run end_op s2; Some (-1, s3) }
     | Some ip \<Rightarrow> do {
         s3 \<leftarrow> fs_run (ilock ip) s2;
         ((r, buf), s4) \<leftarrow> read_local ip 0 ELFHDR_SIZE (replicate ELFHDR_SIZE 0) s3;
         let elf = read_elfhdr buf;
         if r \<noteq> of_nat ELFHDR_SIZE \<or> e_magic elf \<noteq> ELF_MAGIC then exec_bad 0 0 (Some ip) s4
         else do {
           (pagetable, s5) \<leftarrow> proc_pagetable i s4;
           if pagetable = 0 then exec_bad 0 0 (Some ip) s5
           else do {
             (res, s6) \<leftarrow> load_segments pagetable ip (p_ondemand (procs s5 ! i)) (ucast (e_phoff elf))
                           (unat (e_phnum elf)) 0 (replicate PROGHDR_SIZE 0) s5;
             case res of
               Inl sz \<Rightarrow> exec_bad pagetable sz (Some ip) s6
             | Inr sz \<Rightarrow> do {
                 s7 \<leftarrow> fs_run (iunlockput ip) s6;
                 s8 \<leftarrow> fs_run end_op s7;
                 exec_stack i pagetable sz (e_entry elf) path argv s8 } } } } }"

end
