(* ===== verification/Swap.thy ===== *)
theory Swap
  imports Exec
begin

text \<open>
  On-demand loading and heap swapping, kernel/pfault.c. The save area is the range of disk
  blocks from \<open>PSASTART\<close>; \<open>psa_tracker\<close> says which of them are taken. The tracker's field
  \<open>loaded\<close> is true for a page that is on disk. The registers \<open>stval\<close> and \<open>scause\<close> are arguments
  of the handler. A null \<open>kalloc\<close> result that the code writes through is \<open>None\<close>.
\<close>

section \<open>Time\<close>

definition read_current_timestamp :: "'a kernel_state_scheme \<Rightarrow> u64 \<times> 'a kernel_state_scheme" where
  "read_current_timestamp s = (ucast (ticks s), wakeup On_ticks s)"

section \<open>Eviction\<close>

definition free_psa :: "bool list \<Rightarrow> nat" where
  "free_psa t = (case first_index Not (take (PSASIZE - PSASTART) t) of None \<Rightarrow> 0 | Some i \<Rightarrow> i)"

text \<open>The loop over the tracker: the first entry in memory with the least load time.\<close>

primrec find_victim :: "heap_tracker list \<Rightarrow> nat \<Rightarrow> nat \<Rightarrow> nat option \<Rightarrow> nat option" where
  "find_victim h i 0 v = v"
| "find_victim h i (Suc n) v =
     find_victim h (Suc i) n
       (if \<not> ht_loaded (h ! i) \<and> (case v of None \<Rightarrow> True | Some j \<Rightarrow> ht_last_load (h ! i) < ht_last_load (h ! j))
        then Some i else v)"

definition set_psa :: "nat \<Rightarrow> bool \<Rightarrow> bool list \<Rightarrow> bool list" where
  "set_psa b v t = t[b := v, b + 1 := v, b + 2 := v, b + 3 := v]"

primrec write_psa :: "nat \<Rightarrow> u64 \<Rightarrow> nat \<Rightarrow> nat \<Rightarrow> 'a kernel_state_scheme \<Rightarrow> 'a kernel_state_scheme option" where
  "write_psa blockno page i 0 s = Some s"
| "write_psa blockno page i (Suc n) s = do {
     (b, s1) \<leftarrow> fs_get (bread 1 (of_nat (PSASTART + blockno + i))) s;
     s2 \<leftarrow> fs_run (\<lambda>t. bwrite b (set_data b (read_bytes (mem s1) (page + of_nat (1024 * i)) 1024) t)) s1;
     s3 \<leftarrow> fs_run (brelse b) s2;
     write_psa blockno page (Suc i) n s3 }"

definition evict_page_to_disk :: "nat \<Rightarrow> 'a kernel_state_scheme \<Rightarrow> 'a kernel_state_scheme option" where
  "evict_page_to_disk p s = do {
     let blockno = free_psa (psa_tracker s);
     v \<leftarrow> find_victim (p_heap (procs s ! p)) 0 MAXHEAP None;
     let s1 = s\<lparr>psa_tracker := set_psa blockno True (psa_tracker s)\<rparr>;
     let victim = ht_addr (p_heap (procs s ! p) ! v);
     let s2 = upd_proc p (\<lambda>q. q\<lparr>p_heap := (p_heap q)[v := (p_heap q ! v)\<lparr>ht_loaded := True, ht_startblock := int blockno\<rparr>]\<rparr>) s1;
     let (page, s3) = kalloc s2;
     if page = 0 then None
     else do {
       let pt = p_pagetable (procs s3 ! p);
       let s4 = snd (copyin pt page victim PGSIZE s3);
       s5 \<leftarrow> write_psa blockno page 0 4 s4;
       uvmunmap pt victim 1 False s5 } }"

section \<open>Retrieval\<close>

text \<open>The tracker after the loop of \<open>retrieve_page_from_disk\<close>, and the start block found last.\<close>

primrec find_saved :: "u64 \<Rightarrow> heap_tracker list \<Rightarrow> nat \<Rightarrow> nat \<Rightarrow> int \<Rightarrow> int \<times> heap_tracker list" where
  "find_saved uvaddr h i 0 b = (b, h)"
| "find_saved uvaddr h i (Suc n) b =
     (if ht_addr (h ! i) = uvaddr \<and> ht_loaded (h ! i)
      then find_saved uvaddr (h[i := (h ! i)\<lparr>ht_loaded := False\<rparr>]) (Suc i) n (ht_startblock (h ! i))
      else find_saved uvaddr h (Suc i) n b)"

primrec read_psa :: "int \<Rightarrow> u64 \<Rightarrow> nat \<Rightarrow> nat \<Rightarrow> 'a kernel_state_scheme \<Rightarrow> 'a kernel_state_scheme option" where
  "read_psa blockno page i 0 s = Some s"
| "read_psa blockno page i (Suc n) s = do {
     (b, s1) \<leftarrow> fs_get (bread 1 (word_of_int (int PSASTART + blockno + int i))) s;
     let s2 = s1\<lparr>mem := write_bytes (mem s1) (page + of_nat (1024 * i)) (get_data b (fsys s1))\<rparr>;
     s3 \<leftarrow> fs_run (brelse b) s2;
     read_psa blockno page (Suc i) n s3 }"

definition retrieve_page_from_disk :: "nat \<Rightarrow> u64 \<Rightarrow> 'a kernel_state_scheme \<Rightarrow> 'a kernel_state_scheme option" where
  "retrieve_page_from_disk p uvaddr s =
     (case find_saved uvaddr (p_heap (procs s ! p)) 0 MAXHEAP (-1) of (blockno, h) \<Rightarrow>
      let s1 = upd_proc p (\<lambda>q. q\<lparr>p_heap := h\<rparr>) s in
      if blockno = -1 then Some s1
      else case kalloc s1 of (page, s2) \<Rightarrow>
        if page = 0 then None
        else do {
          s3 \<leftarrow> read_psa blockno page 0 4 s2;
          let pt = p_pagetable (procs s3 ! p);
          (_, s4) \<leftarrow> uvmalloc pt uvaddr (uvaddr + PGSIZE) PTE_W s3;
          let s5 = snd (copyout pt uvaddr page PGSIZE s4);
          Some (s5\<lparr>psa_tracker := set_psa (nat blockno) False (psa_tracker s5)\<rparr>) })"

section \<open>The handler\<close>

text \<open>The loop over the program headers: the page is read from the first segment that covers it.\<close>

primrec fault_segments ::
  "u64 \<Rightarrow> u64 \<Rightarrow> nat \<Rightarrow> u32 \<Rightarrow> nat \<Rightarrow> block \<Rightarrow> 'a kernel_state_scheme \<Rightarrow> 'a kernel_state_scheme option" where
  "fault_segments pagetable va ip off 0 buf s = Some s"
| "fault_segments pagetable va ip off (Suc n) buf s = do {
     ((r, buf'), s1) \<leftarrow> read_local ip off PROGHDR_SIZE buf s;
     let ph = read_proghdr buf';
     if ph_type ph \<noteq> ELF_PROG_LOAD \<or> \<not> (ph_vaddr ph \<le> va \<and> va < ph_vaddr ph + ph_memsz ph)
     then fault_segments pagetable va ip (off + of_nat PROGHDR_SIZE) n buf' s1
     else do {
       (sz1, s2) \<leftarrow> uvmalloc pagetable va (va + PGSIZE) (flags2perm (ph_flags ph)) s1;
       if sz1 = 0 then None \<comment> \<open>panic\<close>
       else do {
         (l, s3) \<leftarrow> loadseg pagetable va ip (ucast (ph_off ph + (va - ph_vaddr ph))) 4096 s2;
         if l < 0 then None else Some s3 } } }"

definition load_from_file :: "nat \<Rightarrow> u64 \<Rightarrow> 'a kernel_state_scheme \<Rightarrow> 'a kernel_state_scheme option" where
  "load_from_file p va s = do {
     c \<leftarrow> p_cwd (procs s ! p);
     s1 \<leftarrow> fs_run begin_op s;
     (ipo, s2) \<leftarrow> fs_get (namei (takeWhile (\<lambda>ch. ch \<noteq> 0) (p_name (procs s ! p))) c) s1;
     ip \<leftarrow> ipo;
     s3 \<leftarrow> fs_run (ilock ip) s2;
     ((_, buf), s4) \<leftarrow> read_local ip 0 ELFHDR_SIZE (replicate ELFHDR_SIZE 0) s3;
     let elf = read_elfhdr buf;
     if e_magic elf \<noteq> ELF_MAGIC then None \<comment> \<open>panic\<close>
     else do {
       s5 \<leftarrow> fault_segments (p_pagetable (procs s4 ! p)) va ip (ucast (e_phoff elf)) (unat (e_phnum elf))
               (replicate PROGHDR_SIZE 0) s4;
       s6 \<leftarrow> fs_run (iunlockput ip) s5;
       fs_run end_op s6 } }"

definition stamp_loads :: "u64 \<Rightarrow> u64 \<Rightarrow> heap_tracker list \<Rightarrow> heap_tracker list" where
  "stamp_loads va t h = map (\<lambda>e. if ht_addr e = va then e\<lparr>ht_last_load := t\<rparr> else e) h"

definition heap_fault :: "nat \<Rightarrow> nat \<Rightarrow> u64 \<Rightarrow> 'a kernel_state_scheme \<Rightarrow> 'a kernel_state_scheme option" where
  "heap_fault p page_index va s = do {
     s1 \<leftarrow> (if p_resident (procs s ! p) = MAXRESHEAP then do {
              t \<leftarrow> evict_page_to_disk p s;
              Some (upd_proc p (\<lambda>q. q\<lparr>p_resident := p_resident q - 1\<rparr>) t) }
            else Some s);
     s2 \<leftarrow> (if ht_loaded (p_heap (procs s1 ! p) ! page_index) then retrieve_page_from_disk p va s1
            else do {
              let sz = p_sz (procs s1 ! p);
              (sz', t) \<leftarrow> uvmalloc (p_pagetable (procs s1 ! p)) sz (sz + PGSIZE) PTE_W s1;
              Some (upd_proc p (\<lambda>q. q\<lparr>p_sz := sz'\<rparr>) t) });
     let (now, s3) = read_current_timestamp s2;
     Some (upd_proc p (\<lambda>q. q\<lparr>p_heap := stamp_loads va now (p_heap q), p_resident := p_resident q + 1\<rparr>) s3) }"

definition page_fault_handler :: "u64 \<Rightarrow> u64 \<Rightarrow> 'a kernel_state_scheme \<Rightarrow> 'a kernel_state_scheme option" where
  "page_fault_handler stval scause s = do {
     p \<leftarrow> myproc s;
     let q = procs s ! p;
     let va = stval AND NOT (PGSIZE - 1);
     case first_index (\<lambda>e. ht_addr e = va) (take MAXHEAP (p_heap q)) of
       Some i \<Rightarrow> heap_fault p i va s
     | None \<Rightarrow>
         if p_cow_enabled q = 1 \<and> scause = 15 then do {
           (pte, _) \<leftarrow> walk (p_pagetable q) va False s;
           if pte = 0 then None
           else if load64 (mem s) pte AND PTE_V \<noteq> 0 \<and> load64 (mem s) pte AND PTE_W = 0
           then copy_on_write (p_pagetable q) stval s
           else load_from_file p va s }
         else load_from_file p va s }"

end
