(* ===== verification/Syscall.thy ===== *)
theory Syscall
  imports Swap
begin

text \<open>
  System calls: argument fetching of kernel/syscall.c, the file-system calls of
  kernel/sysfile.c. A path or name is the list of
  its bytes before the NUL. Results are the \<open>int\<close> the C function returns; calls that may go to
  sleep return an \<open>outcome\<close>.
\<close>

section \<open>Arguments\<close>

definition MAXPATH :: nat where "MAXPATH = 128"

definition fetchaddr :: "u64 \<Rightarrow> 'a proc_state_scheme \<Rightarrow> u64 option option" where
  "fetchaddr addr s = do {
     i \<leftarrow> myproc s;
     let p = procs s ! i;
     Some (if addr \<ge> p_sz p \<or> addr + 8 > p_sz p then None
           else case copyin_bytes (p_pagetable p) addr 8 s of (r, bs) \<Rightarrow>
             if r \<noteq> 0 then None else Some (get64 bs 0)) }"

definition fetchstr :: "u64 \<Rightarrow> nat \<Rightarrow> 'a proc_state_scheme \<Rightarrow> u8 list option option" where
  "fetchstr addr maxlen s = do {
     i \<leftarrow> myproc s;
     Some (copyinstr_bytes (p_pagetable (procs s ! i)) addr maxlen s) }"

definition argraw :: "nat \<Rightarrow> 'a proc_state_scheme \<Rightarrow> u64 option" where
  "argraw n s = do {
     i \<leftarrow> myproc s;
     if n < 6 then Some (get_tf i (tf_a0 + 8 * of_nat n) s) else None }"

definition argint :: "nat \<Rightarrow> 'a proc_state_scheme \<Rightarrow> int option" where
  "argint n s = do { v \<leftarrow> argraw n s; Some (sint (ucast v :: u32)) }"

definition argaddr :: "nat \<Rightarrow> 'a proc_state_scheme \<Rightarrow> u64 option" where
  "argaddr n s = argraw n s"

definition argstr :: "nat \<Rightarrow> nat \<Rightarrow> 'a proc_state_scheme \<Rightarrow> u8 list option option" where
  "argstr n maxlen s = do { addr \<leftarrow> argaddr n s; fetchstr addr maxlen s }"

text \<open>The descriptor and the file, or \<open>None\<close> for the result -1.\<close>

definition argfd :: "nat \<Rightarrow> 'a proc_state_scheme \<Rightarrow> (nat \<times> nat) option option" where
  "argfd n s = do {
     fd \<leftarrow> argint n s;
     i \<leftarrow> myproc s;
     Some (if fd < 0 \<or> fd \<ge> int NOFILE then None
           else map_option (Pair (nat fd)) (p_ofile (procs s ! i) ! nat fd)) }"

definition fdalloc :: "nat \<Rightarrow> 'a proc_state_scheme \<Rightarrow> (int \<times> 'a proc_state_scheme) option" where
  "fdalloc f s = do {
     i \<leftarrow> myproc s;
     case first_index (\<lambda>x. x = None) (p_ofile (procs s ! i)) of
       None \<Rightarrow> Some (-1, s)
     | Some fd \<Rightarrow> Some (int fd, upd_proc i (\<lambda>p. p\<lparr>p_ofile := (p_ofile p)[fd := Some f]\<rparr>) s) }"

section \<open>File descriptors\<close>

definition sys_dup :: "'a kernel_state_scheme \<Rightarrow> (int \<times> 'a kernel_state_scheme) option" where
  "sys_dup s = do {
     a \<leftarrow> argfd 0 s;
     case a of None \<Rightarrow> Some (-1, s)
     | Some (_, f) \<Rightarrow> do {
         (fd, s1) \<leftarrow> fdalloc f s;
         if fd < 0 then Some (-1, s1) else do { s2 \<leftarrow> filedup f s1; Some (fd, s2) } } }"

definition sys_read :: "'a kernel_state_scheme dev_op \<Rightarrow> 'a kernel_state_scheme \<Rightarrow> (outcome \<times> 'a kernel_state_scheme) option" where
  "sys_read dev s = do {
     p \<leftarrow> argaddr 1 s;
     n \<leftarrow> argint 2 s;
     a \<leftarrow> argfd 0 s;
     case a of None \<Rightarrow> Some (Done (-1), s) | Some (_, f) \<Rightarrow> fileread dev f p n s }"

definition sys_write :: "'a kernel_state_scheme dev_op \<Rightarrow> 'a kernel_state_scheme \<Rightarrow> (outcome \<times> 'a kernel_state_scheme) option" where
  "sys_write dev s = do {
     p \<leftarrow> argaddr 1 s;
     n \<leftarrow> argint 2 s;
     a \<leftarrow> argfd 0 s;
     case a of None \<Rightarrow> Some (Done (-1), s) | Some (_, f) \<Rightarrow> filewrite dev f p n s }"

definition sys_close :: "'a kernel_state_scheme \<Rightarrow> (int \<times> 'a kernel_state_scheme) option" where
  "sys_close s = do {
     a \<leftarrow> argfd 0 s;
     case a of None \<Rightarrow> Some (-1, s)
     | Some (fd, f) \<Rightarrow> do {
         i \<leftarrow> myproc s;
         s1 \<leftarrow> fileclose f (upd_proc i (\<lambda>p. p\<lparr>p_ofile := (p_ofile p)[fd := None]\<rparr>) s);
         Some (0, s1) } }"

definition sys_fstat :: "'a kernel_state_scheme \<Rightarrow> (int \<times> 'a kernel_state_scheme) option" where
  "sys_fstat s = do {
     st \<leftarrow> argaddr 1 s;
     a \<leftarrow> argfd 0 s;
     case a of None \<Rightarrow> Some (-1, s) | Some (_, f) \<Rightarrow> filestat f st s }"

section \<open>Names\<close>

text \<open>\<open>namei\<close> and \<open>nameiparent\<close> from the working directory of the running process.\<close>

definition lookup :: "u8 list \<Rightarrow> 'a kernel_state_scheme \<Rightarrow> (nat option \<times> 'a kernel_state_scheme) option" where
  "lookup path s = do { i \<leftarrow> myproc s; c \<leftarrow> p_cwd (procs s ! i); fs_get (namei path c) s }"

definition lookup_parent ::
  "u8 list \<Rightarrow> 'a kernel_state_scheme \<Rightarrow> ((nat option \<times> u8 list) \<times> 'a kernel_state_scheme) option" where
  "lookup_parent path s = do {
     i \<leftarrow> myproc s;
     c \<leftarrow> p_cwd (procs s ! i);
     fs_get (\<lambda>t. map_option (\<lambda>(ip, name, t'). ((ip, name), t')) (nameiparent path (replicate DIRSIZ 0) c t)) s }"

definition link_undo :: "nat \<Rightarrow> fs_state \<Rightarrow> fs_state option" where
  "link_undo ip t = do {
     t1 \<leftarrow> ilock ip t;
     t2 \<leftarrow> iupdate ip (upd_inode ip (\<lambda>i. i\<lparr>i_nlink := i_nlink i - 1\<rparr>) t1);
     t3 \<leftarrow> iunlockput ip t2;
     end_op t3 }"

definition sys_link :: "'a kernel_state_scheme \<Rightarrow> (int \<times> 'a kernel_state_scheme) option" where
  "sys_link s = do {
     a \<leftarrow> argstr 0 MAXPATH s;
     b \<leftarrow> argstr 1 MAXPATH s;
     case (a, b) of
       (Some old, Some new) \<Rightarrow> do {
         s1 \<leftarrow> fs_run begin_op s;
         (ipo, s2) \<leftarrow> lookup old s1;
         case ipo of None \<Rightarrow> do { s3 \<leftarrow> fs_run end_op s2; Some (-1, s3) }
         | Some ip \<Rightarrow> do {
             s3 \<leftarrow> fs_run (ilock ip) s2;
             if i_type (itable (fsys s3) ! ip) = T_DIR then do {
               s4 \<leftarrow> fs_run (iunlockput ip) s3; s5 \<leftarrow> fs_run end_op s4; Some (-1, s5) }
             else do {
               s4 \<leftarrow> fs_run (\<lambda>t. iupdate ip (upd_inode ip (\<lambda>i. i\<lparr>i_nlink := i_nlink i + 1\<rparr>) t)) s3;
               s5 \<leftarrow> fs_run (iunlock ip) s4;
               ((dpo, name), s6) \<leftarrow> lookup_parent new s5;
               case dpo of None \<Rightarrow> do { s7 \<leftarrow> fs_run (link_undo ip) s6; Some (-1, s7) }
               | Some dp \<Rightarrow> do {
                   s7 \<leftarrow> fs_run (ilock dp) s6;
                   let t = fsys s7;
                   (r, s8) \<leftarrow> (if i_dev (itable t ! dp) \<noteq> i_dev (itable t ! ip) then Some (-1, s7)
                               else fs_get (dirlink dp name (i_inum (itable t ! ip))) s7);
                   s9 \<leftarrow> fs_run (iunlockput dp) s8;
                   if r < 0 then do { s10 \<leftarrow> fs_run (link_undo ip) s9; Some (-1, s10) }
                   else do {
                     s10 \<leftarrow> fs_run (iput ip) s9;
                     s11 \<leftarrow> fs_run end_op s10;
                     Some (0, s11) } } } } }
     | _ \<Rightarrow> Some (-1, s) }"

text \<open>\<open>isdirempty\<close> from the offset \<open>off\<close> on.\<close>

partial_function (option) isdirempty_loop ::
  "nat \<Rightarrow> u32 \<Rightarrow> block \<Rightarrow> 'a fs_state_scheme \<Rightarrow> (bool \<times> 'a fs_state_scheme) option" where
  "isdirempty_loop dp off de t =
     (if off < i_size (itable t ! dp) then do {
        (r, t1, de1) \<leftarrow> readi copy_local_out dp False 0 off (of_nat DIRENT_SIZE) t de;
        if r \<noteq> of_nat DIRENT_SIZE then None
        else if de_inum de1 \<noteq> 0 then Some (False, t1)
        else isdirempty_loop dp (off + of_nat DIRENT_SIZE) de1 t1 }
      else Some (True, t))"

definition isdirempty :: "nat \<Rightarrow> 'a fs_state_scheme \<Rightarrow> (bool \<times> 'a fs_state_scheme) option" where
  "isdirempty dp t = isdirempty_loop dp (of_nat (2 * DIRENT_SIZE)) (replicate DIRENT_SIZE 0) t"

definition dot :: "u8 list" where "dot = [0x2e]"
definition dotdot :: "u8 list" where "dotdot = [0x2e, 0x2e]"

text \<open>The body of \<open>sys_unlink\<close> with \<open>dp\<close> locked: \<open>False\<close> is a jump to \<open>bad\<close>.\<close>

definition unlink_locked :: "nat \<Rightarrow> u8 list \<Rightarrow> 'a fs_state_scheme \<Rightarrow> (bool \<times> 'a fs_state_scheme) option" where
  "unlink_locked dp name t =
     (if namecmp name dot = 0 \<or> namecmp name dotdot = 0 then Some (False, t)
      else do {
        (found, t1) \<leftarrow> dirlookup dp name t;
        case found of None \<Rightarrow> Some (False, t1)
        | Some (ip, off) \<Rightarrow> do {
            t2 \<leftarrow> ilock ip t1;
            if sint (i_nlink (itable t2 ! ip)) < 1 then None \<comment> \<open>panic unlink: nlink < 1\<close>
            else do {
              (keep, t3) \<leftarrow> (if i_type (itable t2 ! ip) = T_DIR
                 then do { (e, t3) \<leftarrow> isdirempty ip t2; Some (\<not> e, t3) } else Some (False, t2));
              if keep then do { t4 \<leftarrow> iunlockput ip t3; Some (False, t4) }
              else do {
                (r, t4) \<leftarrow> writei copy_local_in dp False 0 off (of_nat DIRENT_SIZE) t3 (replicate DIRENT_SIZE 0);
                if r \<noteq> of_nat DIRENT_SIZE then None \<comment> \<open>panic unlink: writei\<close>
                else do {
                  t5 \<leftarrow> (if i_type (itable t4 ! ip) = T_DIR
                        then iupdate dp (upd_inode dp (\<lambda>i. i\<lparr>i_nlink := i_nlink i - 1\<rparr>) t4) else Some t4);
                  t6 \<leftarrow> iunlockput dp t5;
                  t7 \<leftarrow> iupdate ip (upd_inode ip (\<lambda>i. i\<lparr>i_nlink := i_nlink i - 1\<rparr>) t6);
                  t8 \<leftarrow> iunlockput ip t7;
                  Some (True, t8) } } } } })"

definition sys_unlink :: "'a kernel_state_scheme \<Rightarrow> (int \<times> 'a kernel_state_scheme) option" where
  "sys_unlink s = do {
     a \<leftarrow> argstr 0 MAXPATH s;
     case a of None \<Rightarrow> Some (-1, s)
     | Some path \<Rightarrow> do {
         s1 \<leftarrow> fs_run begin_op s;
         ((dpo, name), s2) \<leftarrow> lookup_parent path s1;
         case dpo of None \<Rightarrow> do { s3 \<leftarrow> fs_run end_op s2; Some (-1, s3) }
         | Some dp \<Rightarrow> do {
             s3 \<leftarrow> fs_run (ilock dp) s2;
             (ok, s4) \<leftarrow> fs_get (unlink_locked dp name) s3;
             if ok then do { s5 \<leftarrow> fs_run end_op s4; Some (0, s5) }
             else do { s5 \<leftarrow> fs_run (iunlockput dp) s4; s6 \<leftarrow> fs_run end_op s5; Some (-1, s6) } } } }"

section \<open>Creation\<close>

definition create_entries :: "u16 \<Rightarrow> nat \<Rightarrow> nat \<Rightarrow> u8 list \<Rightarrow> 'a fs_state_scheme \<Rightarrow> (bool \<times> 'a fs_state_scheme) option" where
  "create_entries type dp ip name t = do {
     let inum = i_inum (itable t ! ip);
     (ok, t1) \<leftarrow> (if type = T_DIR then do {
         (r, t1) \<leftarrow> dirlink ip dot inum t;
         if r < 0 then Some (False, t1)
         else do { (r', t2) \<leftarrow> dirlink ip dotdot (i_inum (itable t1 ! dp)) t1; Some (0 \<le> r', t2) } }
       else Some (True, t));
     if \<not> ok then Some (False, t1)
     else do {
       (r, t2) \<leftarrow> dirlink dp name inum t1;
       Some (0 \<le> r, t2) } }"

text \<open>\<open>create\<close> after \<open>nameiparent\<close>: the inode, locked, or \<open>None\<close> for a null result.\<close>

definition create_in ::
  "nat \<Rightarrow> u8 list \<Rightarrow> u16 \<Rightarrow> u16 \<Rightarrow> u16 \<Rightarrow> 'a fs_state_scheme \<Rightarrow> (nat option \<times> 'a fs_state_scheme) option" where
  "create_in dp name type major minor t = do {
     t1 \<leftarrow> ilock dp t;
     (found, t2) \<leftarrow> dirlookup dp name t1;
     case found of
       Some (ip, _) \<Rightarrow> do {
         t3 \<leftarrow> iunlockput dp t2;
         t4 \<leftarrow> ilock ip t3;
         if type = T_FILE \<and> (i_type (itable t4 ! ip) = T_FILE \<or> i_type (itable t4 ! ip) = T_DEVICE)
         then Some (Some ip, t4)
         else do { t5 \<leftarrow> iunlockput ip t4; Some (None, t5) } }
     | None \<Rightarrow> do {
         (ipo, t3) \<leftarrow> ialloc (i_dev (itable t2 ! dp)) type t2;
         case ipo of None \<Rightarrow> do { t4 \<leftarrow> iunlockput dp t3; Some (None, t4) }
         | Some ip \<Rightarrow> do {
             t4 \<leftarrow> ilock ip t3;
             t5 \<leftarrow> iupdate ip (upd_inode ip (\<lambda>i. i\<lparr>i_major := major, i_minor := minor, i_nlink := 1\<rparr>) t4);
             (ok, t6) \<leftarrow> create_entries type dp ip name t5;
             if ok then do {
               t7 \<leftarrow> (if type = T_DIR then iupdate dp (upd_inode dp (\<lambda>i. i\<lparr>i_nlink := i_nlink i + 1\<rparr>) t6) else Some t6);
               t8 \<leftarrow> iunlockput dp t7;
               Some (Some ip, t8) }
             else do {
               t7 \<leftarrow> iupdate ip (upd_inode ip (\<lambda>i. i\<lparr>i_nlink := 0\<rparr>) t6);
               t8 \<leftarrow> iunlockput ip t7;
               t9 \<leftarrow> iunlockput dp t8;
               Some (None, t9) } } } }"

definition create ::
  "u8 list \<Rightarrow> u16 \<Rightarrow> u16 \<Rightarrow> u16 \<Rightarrow> 'a kernel_state_scheme \<Rightarrow> (nat option \<times> 'a kernel_state_scheme) option" where
  "create path type major minor s = do {
     ((dpo, name), s1) \<leftarrow> lookup_parent path s;
     case dpo of None \<Rightarrow> Some (None, s1)
     | Some dp \<Rightarrow> fs_get (create_in dp name type major minor) s1 }"

definition O_WRONLY :: int where "O_WRONLY = 1"
definition O_RDWR :: int where "O_RDWR = 2"
definition O_CREATE :: int where "O_CREATE = 0x200"
definition O_TRUNC :: int where "O_TRUNC = 0x400"

definition open_fail :: "nat \<Rightarrow> 'a kernel_state_scheme \<Rightarrow> (int \<times> 'a kernel_state_scheme) option" where
  "open_fail ip s = do { s1 \<leftarrow> fs_run (iunlockput ip) s; s2 \<leftarrow> fs_run end_op s1; Some (-1, s2) }"

text \<open>\<open>sys_open\<close> once the inode is found and locked.\<close>

definition open_inode :: "nat \<Rightarrow> int \<Rightarrow> 'a kernel_state_scheme \<Rightarrow> (int \<times> 'a kernel_state_scheme) option" where
  "open_inode ip omode s =
     (let i = itable (fsys s) ! ip in
      if i_type i = T_DEVICE \<and> (sint (i_major i) < 0 \<or> sint (i_major i) \<ge> NDEV) then open_fail ip s
      else case filealloc s of
        (None, s1) \<Rightarrow> open_fail ip s1
      | (Some f, s1) \<Rightarrow> do {
          (fd, s2) \<leftarrow> fdalloc f s1;
          if fd < 0 then do { s3 \<leftarrow> fileclose f s2; open_fail ip s3 }
          else do {
            let s3 = upd_file f (\<lambda>x. (if i_type i = T_DEVICE then x\<lparr>f_type := FD_DEVICE, f_major := sint (i_major i)\<rparr>
                                      else x\<lparr>f_type := FD_INODE, f_off := 0\<rparr>)
                 \<lparr>f_ip := ip, f_readable := omode AND O_WRONLY = 0,
                  f_writable := omode AND O_WRONLY \<noteq> 0 \<or> omode AND O_RDWR \<noteq> 0\<rparr>) s2;
            s4 \<leftarrow> (if omode AND O_TRUNC \<noteq> 0 \<and> i_type i = T_FILE then fs_run (itrunc ip) s3 else Some s3);
            s5 \<leftarrow> fs_run (iunlock ip) s4;
            s6 \<leftarrow> fs_run end_op s5;
            Some (fd, s6) } })"

definition sys_open :: "'a kernel_state_scheme \<Rightarrow> (int \<times> 'a kernel_state_scheme) option" where
  "sys_open s = do {
     omode \<leftarrow> argint 1 s;
     a \<leftarrow> argstr 0 MAXPATH s;
     case a of None \<Rightarrow> Some (-1, s)
     | Some path \<Rightarrow> do {
         s1 \<leftarrow> fs_run begin_op s;
         if omode AND O_CREATE \<noteq> 0 then do {
           (ipo, s2) \<leftarrow> create path T_FILE 0 0 s1;
           case ipo of None \<Rightarrow> do { s3 \<leftarrow> fs_run end_op s2; Some (-1, s3) }
           | Some ip \<Rightarrow> open_inode ip omode s2 }
         else do {
           (ipo, s2) \<leftarrow> lookup path s1;
           case ipo of None \<Rightarrow> do { s3 \<leftarrow> fs_run end_op s2; Some (-1, s3) }
           | Some ip \<Rightarrow> do {
               s3 \<leftarrow> fs_run (ilock ip) s2;
               if i_type (itable (fsys s3) ! ip) = T_DIR \<and> omode \<noteq> 0 then open_fail ip s3
               else open_inode ip omode s3 } } } }"

definition make_node :: "u16 \<Rightarrow> u16 \<Rightarrow> u16 \<Rightarrow> 'a kernel_state_scheme \<Rightarrow> (int \<times> 'a kernel_state_scheme) option" where
  "make_node type major minor s1 = do {
     a \<leftarrow> argstr 0 MAXPATH s1;
     (ipo, s2) \<leftarrow> (case a of None \<Rightarrow> Some (None, s1) | Some path \<Rightarrow> create path type major minor s1);
     case ipo of None \<Rightarrow> do { s3 \<leftarrow> fs_run end_op s2; Some (-1, s3) }
     | Some ip \<Rightarrow> do { s3 \<leftarrow> fs_run (iunlockput ip) s2; s4 \<leftarrow> fs_run end_op s3; Some (0, s4) } }"

definition sys_mkdir :: "'a kernel_state_scheme \<Rightarrow> (int \<times> 'a kernel_state_scheme) option" where
  "sys_mkdir s = do { s1 \<leftarrow> fs_run begin_op s; make_node T_DIR 0 0 s1 }"

definition sys_mknod :: "'a kernel_state_scheme \<Rightarrow> (int \<times> 'a kernel_state_scheme) option" where
  "sys_mknod s = do {
     s1 \<leftarrow> fs_run begin_op s;
     major \<leftarrow> argint 1 s1;
     minor \<leftarrow> argint 2 s1;
     make_node T_DEVICE (word_of_int major) (word_of_int minor) s1 }"

definition sys_chdir :: "'a kernel_state_scheme \<Rightarrow> (int \<times> 'a kernel_state_scheme) option" where
  "sys_chdir s = do {
     i \<leftarrow> myproc s;
     s1 \<leftarrow> fs_run begin_op s;
     a \<leftarrow> argstr 0 MAXPATH s1;
     (ipo, s2) \<leftarrow> (case a of None \<Rightarrow> Some (None, s1) | Some path \<Rightarrow> lookup path s1);
     case ipo of None \<Rightarrow> do { s3 \<leftarrow> fs_run end_op s2; Some (-1, s3) }
     | Some ip \<Rightarrow> do {
         s3 \<leftarrow> fs_run (ilock ip) s2;
         if i_type (itable (fsys s3) ! ip) \<noteq> T_DIR then open_fail ip s3
         else do {
           s4 \<leftarrow> fs_run (iunlock ip) s3;
           c \<leftarrow> p_cwd (procs s4 ! i);
           s5 \<leftarrow> fs_run (iput c) s4;
           s6 \<leftarrow> fs_run end_op s5;
           Some (0, upd_proc i (\<lambda>p. p\<lparr>p_cwd := Some ip\<rparr>) s6) } } }"

section \<open>exec and pipe\<close>

text \<open>The argument loop of \<open>sys_exec\<close>: the pages taken so far and the strings, \<open>None\<close> for \<open>bad\<close>.\<close>

primrec exec_args ::
  "u64 \<Rightarrow> nat \<Rightarrow> nat \<Rightarrow> u64 list \<Rightarrow> 'a kernel_state_scheme
     \<Rightarrow> (u64 list \<times> u8 list list option \<times> 'a kernel_state_scheme) option" where
  "exec_args uargv i 0 ps s = Some (ps, None, s)"
| "exec_args uargv i (Suc n) ps s = do {
     a \<leftarrow> fetchaddr (uargv + 8 * of_nat i) s;
     case a of None \<Rightarrow> Some (ps, None, s)
     | Some uarg \<Rightarrow>
         if uarg = 0 then Some (ps, Some [], s)
         else (case kalloc s of (pg, s1) \<Rightarrow>
           if pg = 0 then Some (ps, None, s1)
           else do {
             str \<leftarrow> fetchstr uarg 4096 s1;
             case str of None \<Rightarrow> Some (ps @ [pg], None, s1)
             | Some bs \<Rightarrow> do {
                 (ps', r, s2) \<leftarrow> exec_args uargv (Suc i) n (ps @ [pg]) (s1\<lparr>mem := write_bytes (mem s1) pg (bs @ [0])\<rparr>);
                 Some (ps', map_option ((#) bs) r, s2) } }) }"

primrec free_pages :: "u64 list \<Rightarrow> 'a kmem_state_scheme \<Rightarrow> 'a kmem_state_scheme option" where
  "free_pages [] s = Some s"
| "free_pages (p # ps) s = do { s1 \<leftarrow> kfree p s; free_pages ps s1 }"

definition sys_exec :: "'a kernel_state_scheme \<Rightarrow> (int \<times> 'a kernel_state_scheme) option" where
  "sys_exec s = do {
     uargv \<leftarrow> argaddr 1 s;
     a \<leftarrow> argstr 0 MAXPATH s;
     case a of None \<Rightarrow> Some (-1, s)
     | Some path \<Rightarrow> do {
         (pages, argv, s1) \<leftarrow> exec_args uargv 0 MAXARG [] s;
         (ret, s2) \<leftarrow> (case argv of None \<Rightarrow> Some (-1, s1) | Some args \<Rightarrow> exec path args s1);
         s3 \<leftarrow> free_pages pages s2;
         Some (ret, s3) } }"

definition sys_pipe :: "'a kernel_state_scheme \<Rightarrow> (int \<times> 'a kernel_state_scheme) option" where
  "sys_pipe s = do {
     fdarray \<leftarrow> argaddr 0 s;
     i \<leftarrow> myproc s;
     (fs, s1) \<leftarrow> pipealloc s;
     case fs of None \<Rightarrow> Some (-1, s1)
     | Some (rf, wfile) \<Rightarrow> do {
         (fd0, s2) \<leftarrow> fdalloc rf s1;
         (fd1, s3) \<leftarrow> (if fd0 < 0 then Some (-1, s2) else fdalloc wfile s2);
         let undo = (\<lambda>fds t. do {
            let t1 = upd_proc i (\<lambda>p. p\<lparr>p_ofile := foldl (\<lambda>xs fd. xs[nat fd := None]) (p_ofile p) fds\<rparr>) t;
            t2 \<leftarrow> fileclose rf t1;
            t3 \<leftarrow> fileclose wfile t2;
            Some (-1, t3) });
         if fd1 < 0 then undo (if fd0 \<ge> 0 then [fd0] else []) s3
         else case copyout_bytes (p_pagetable (procs s3 ! i)) fdarray (le_bytes 4 (nat fd0)) s3 of (r, s4) \<Rightarrow>
           if r < 0 then undo [fd0, fd1] s4
           else case copyout_bytes (p_pagetable (procs s4 ! i)) (fdarray + 4) (le_bytes 4 (nat fd1)) s4 of (r', s5) \<Rightarrow>
             if r' < 0 then undo [fd0, fd1] s5 else Some (0, s5) } }"

end
