(* ===== verification/Demo_Kernel.thy ===== *)
theory Demo_Kernel
  imports Process Vm_Props Fs_Alloc
begin

text \<open>
  A small kernel state on which the properties of processes, pipes and files are evaluated: one
  running process with one mapped page, the file system of mkfs, and an empty pipe.
\<close>

definition demo_proc :: proc where
  "demo_proc = \<lparr>p_state = RUNNING, p_chan = No_chan, p_killed = 0, p_xstate = 0, p_pid = 1, p_parent = None,
     p_kstack = 0, p_sz = PGSIZE, p_pagetable = demo_root, p_trapframe = 0x80005000,
     p_context = \<lparr>ctx_ra = 0, ctx_sp = 0, ctx_s = []\<rparr>, p_ofile = replicate NOFILE None, p_cwd = None,
     p_name = replicate 16 0, p_ondemand = False, p_heap = [], p_resident = 0, p_cow_group = 0, p_cow_enabled = 0\<rparr>"

definition demo_kernel :: kernel_state where
  "demo_kernel = \<lparr>mem = mem demo_vm, freelist = 0, kend = 0x80000000, cow_groups = [], my_group = 0,
     procs = [demo_proc], cpus = [\<lparr>c_proc = Some 0, c_noff = 0, c_intena = True\<rparr>], hart = 0, initproc = None,
     nextpid = 2, trampoline = 0, forkret = 0, fsys = demo_fs, ftable = [], pipes = [0x80006000 \<mapsto> new_pipe],
     ticks = 0, psa_tracker = []\<rparr>"

lemma demo_kernel_walkaddr:
  "walkaddr demo_root va demo_kernel = (if va < MAXVA \<and> PGROUNDDOWN va = 0 then demo_user else 0)"
  using walkaddr_mem [of demo_kernel demo_vm] by (simp add: demo_kernel_def demo_walkaddr)

end
