(* ===== verification/User_Io.thy ===== *)
theory User_Io
  imports Demo_Kernel
begin

text \<open>
  Single bytes to and from user memory, as the loops of \<open>piperead\<close>, \<open>pipewrite\<close>, \<open>consoleread\<close> and
  \<open>consolewrite\<close> move them: with \<open>copyout\<close> and \<open>copyin\<close>, or directly for a kernel address. A whole buffer is
  described by \<open>put_user\<close> on the view of memory that the process has.
\<close>

section \<open>One byte of user memory\<close>

lemma PGROUNDDOWN_twice: "PGROUNDDOWN (PGROUNDDOWN va) = PGROUNDDOWN va"
  by (simp add: PGROUNDDOWN_id)

lemma copyin_byte:
  "copyin_bytes root va (Suc 0) s = (case user_byte s root va of None \<Rightarrow> (-1, []) | Some c \<Rightarrow> (0, [c]))"
proof -
  have "page_chunk va 1 = 1" using page_chunk_pos [of 1 va] by (simp add: page_chunk_def)
  then show ?thesis
    by (subst copyin_bytes.simps, subst copyin_bytes.simps) (simp add: user_byte_walkaddr Let_def read_bytes_def)
qed

lemma copyout_byte:
  "copyout_bytes root va [c] s = (case uaddr s root va of None \<Rightarrow> (-1, s) | Some a \<Rightarrow> (0, s\<lparr>mem := (mem s)(a := c)\<rparr>))"
proof -
  have "page_chunk va 1 = 1" using page_chunk_pos [of 1 va] by (simp add: page_chunk_def)
  then show ?thesis
    by (subst copyout_bytes.simps, subst copyout_bytes.simps) (simp add: uaddr_def Let_def)
qed

text \<open>Two user addresses are never the same byte of memory.\<close>

lemma uaddr_inj:
  assumes inv: "uvm_inv s root ps" and a: "uaddr s root va = Some a" "uaddr s root vb = Some a"
  shows "va = vb"
proof -
  let ?p = "walkaddr root (PGROUNDDOWN va) s" and ?q = "walkaddr root (PGROUNDDOWN vb) s"
  have p: "?p \<noteq> 0" "a = ?p + (va - PGROUNDDOWN va)" and q: "?q \<noteq> 0" "a = ?q + (vb - PGROUNDDOWN vb)"
    using a by (auto simp: uaddr_def Let_def split: if_splits)
  have "PGROUNDDOWN a = ?p" unfolding p(2) by (rule offset_in_frame [OF uvm_inv_frame(1) [OF inv refl p(1)]])
  moreover have "PGROUNDDOWN a = ?q" unfolding q(2) by (rule offset_in_frame [OF uvm_inv_frame(1) [OF inv refl q(1)]])
  ultimately have pq: "?p = ?q" by simp
  have "same_page (PGROUNDDOWN va) (PGROUNDDOWN vb)"
    using conjunct2 [OF conjunct2 [OF inv [unfolded uvm_inv_def]], rule_format, OF p(1) pq] .
  then have "PGROUNDDOWN va = PGROUNDDOWN vb" by (simp only: PGROUNDDOWN_twice)
  moreover have "va - PGROUNDDOWN va = vb - PGROUNDDOWN vb" using p(2) q(2) pq by (metis add_left_cancel)
  ultimately show ?thesis by (metis diff_add_cancel)
qed

lemma uaddr_frame:
  assumes inv: "uvm_inv s root ps" and a: "uaddr s root va = Some a"
  shows "user_frame s root (PGROUNDDOWN a)"
proof -
  let ?p = "walkaddr root (PGROUNDDOWN va) s"
  have p: "?p \<noteq> 0" "a = ?p + (va - PGROUNDDOWN va)" using a by (auto simp: uaddr_def Let_def split: if_splits)
  have "PGROUNDDOWN a = ?p" unfolding p(2) by (rule offset_in_frame [OF uvm_inv_frame(1) [OF inv refl p(1)]])
  then show ?thesis using user_frameI [OF refl p(1)] by simp
qed

section \<open>Buffers\<close>

primrec put_user :: "(u64 \<Rightarrow> u8 option) \<Rightarrow> u64 \<Rightarrow> u8 list \<Rightarrow> u64 \<Rightarrow> u8 option" where
  "put_user f va [] = f"
| "put_user f va (b # bs) = put_user (f(va := Some b)) (va + 1) bs"

lemma put_user_nth:
  assumes "length bs < 2 ^ 64"
  shows "put_user f va bs v = (if in_region va (length bs) v then Some (bs ! unat (v - va)) else f v)"
  using assms
proof (induction bs arbitrary: f va)
  case (Cons x xs)
  have len: "length xs < 2 ^ 64" using Cons.prems by simp
  show ?case
  proof (cases "v = va")
    case True
    then show ?thesis using Cons.IH [OF len] in_region_head_tail [OF len] by simp
  next
    case False
    then have pos: "0 < unat (v - va)" by (simp add: unat_gt_0)
    then have u: "unat (v - (va + 1)) = unat (v - va) - 1"
      by (metis (no_types, lifting) diff_diff_eq unat_gt_0 unat_minus_one)
    then have "in_region (va + 1) (length xs) v \<longleftrightarrow> in_region va (Suc (length xs)) v"
      using pos by (auto simp: in_region_def)
    then show ?thesis using Cons.IH [OF len] False u pos by (simp add: nth_Cons')
  qed
qed simp

lemma put_user_at:
  assumes "length bs < 2 ^ 64" and "j < length bs"
  shows "put_user f va bs (va + of_nat j) = Some (bs ! j)"
proof -
  have "unat (of_nat j :: u64) = j" using assms by (intro unat_of_nat_lt64) simp
  then show ?thesis using assms by (simp add: put_user_nth in_region_def)
qed

text \<open>
  \<open>user_wrote root ps s s' va bs\<close>: the process with the page table \<open>root\<close> sees the bytes \<open>bs\<close> from \<open>va\<close> on and everything
  else as before, its address space is the same, and no byte outside its frames has changed.
\<close>

definition user_wrote ::
  "u64 \<Rightarrow> u64 list \<Rightarrow> 'a kmem_state_scheme \<Rightarrow> 'a kmem_state_scheme \<Rightarrow> u64 \<Rightarrow> u8 list \<Rightarrow> bool" where
  "user_wrote root ps s s' va bs \<longleftrightarrow>
     uvm_inv s' root ps \<and> (\<forall>v. walkaddr root v s' = walkaddr root v s) \<and>
     (\<forall>v. user_byte s' root v = put_user (user_byte s root) va bs v) \<and>
     (\<forall>b. \<not> user_frame s root (PGROUNDDOWN b) \<longrightarrow> mem s' b = mem s b)"

lemma user_wrote_nil: "uvm_inv s root ps \<Longrightarrow> user_wrote root ps s s va []"
  by (simp add: user_wrote_def)

lemma user_wrote_trans:
  assumes "user_wrote root ps s t va [b]" and "user_wrote root ps t s' (va + 1) bs"
  shows "user_wrote root ps s s' va (b # bs)"
proof -
  have "user_byte t root = (user_byte s root)(va := Some b)" using assms(1) by (auto simp: user_wrote_def)
  moreover have "user_frame t root p = user_frame s root p" for p using assms(1) by (simp add: user_wrote_def user_frame_def)
  ultimately show ?thesis using assms by (simp add: user_wrote_def)
qed

text \<open>Only the fields of \<open>kmem_state\<close> matter.\<close>

lemma uvm_inv_kmem:
  assumes "mem s' = mem s" "freelist s' = freelist s" "kend s' = kend s"
  shows "uvm_inv s' root ps = uvm_inv s root ps" "walkaddr root va s' = walkaddr root va s"
    "uaddr s' root va = uaddr s root va" "user_byte s' root va = user_byte s root va"
    "user_frame s' root p = user_frame s root p"
proof -
  show w: "walkaddr root va s' = walkaddr root va s" for va by (rule walkaddr_mem [OF assms(1)])
  show u: "uaddr s' root va = uaddr s root va" for va by (simp add: uaddr_def w)
  show "user_byte s' root va = user_byte s root va" by (simp add: user_byte_def u assms(1))
  show f: "user_frame s' root p = user_frame s root p" for p by (simp add: user_frame_def w)
  have r: "ram_page s' p = ram_page s p" for p using assms by (simp add: ram_page_def)
  have "kmem_inv s' ps = kmem_inv s ps" using assms by (simp add: kmem_inv_def r)
  then show "uvm_inv s' root ps = uvm_inv s root ps" using assms by (simp add: uvm_inv_def pt_inv_def f w r)
qed

lemma user_wrote_kmem:
  assumes "mem t = mem s" "freelist t = freelist s" "kend t = kend s"
    and "mem t' = mem s'" "freelist t' = freelist s'" "kend t' = kend s'"
  shows "user_wrote root ps t t' va bs = user_wrote root ps s s' va bs"
proof -
  have "user_byte t root = user_byte s root" using uvm_inv_kmem(4) [OF assms(1-3)] by blast
  then show ?thesis
    using assms by (simp add: user_wrote_def uvm_inv_kmem [OF assms(1-3)] uvm_inv_kmem [OF assms(4-6)])
qed

lemma user_store:
  assumes inv: "uvm_inv s root ps" and a: "uaddr s root va = Some a"
  shows "user_wrote root ps s (s\<lparr>mem := (mem s)(a := c)\<rparr>) va [c]"
proof -
  note f = uaddr_frame [OF inv a]
  define m where "m = (mem s)(a := c)"
  have "m b = mem s b" if "kernel_state_byte s root ps b" for b
    using that f inv by (auto simp: kernel_state_byte_def uvm_inv_def m_def)
  note w = uvm_inv_write [OF inv refl this, folded m_def]
  have "user_byte (s\<lparr>mem := m\<rparr>) root v = (if v = va then Some c else user_byte s root v)" for v
  proof (cases "v = va")
    case True
    moreover have "m a = c" by (simp add: m_def)
    ultimately show ?thesis using a by (simp add: user_byte_def w(3))
  next
    case False
    then have "uaddr s root v \<noteq> Some a" using uaddr_inj [OF inv a, of v] by blast
    then have "map_option m (uaddr s root v) = map_option (mem s) (uaddr s root v)" by (cases "uaddr s root v") (auto simp: m_def)
    then show ?thesis using False by (simp add: user_byte_def w(3))
  qed
  moreover have "m b = mem s b" if "\<not> user_frame s root (PGROUNDDOWN b)" for b using that f by (auto simp: m_def)
  ultimately show ?thesis using w(1,2) unfolding m_def [symmetric] user_wrote_def by (intro conjI allI impI) simp_all
qed

section \<open>User and kernel addresses\<close>

text \<open>The byte at an address as \<open>either_copyin\<close> fetches it, and whether \<open>either_copyout\<close> can store one.\<close>

definition src_byte :: "bool \<Rightarrow> nat \<Rightarrow> u64 \<Rightarrow> 'a proc_state_scheme \<Rightarrow> u8 option" where
  "src_byte user p a s = (if user then user_byte s (p_pagetable (procs s ! p)) a else Some (mem s a))"

definition dst_ok :: "bool \<Rightarrow> nat \<Rightarrow> u64 \<Rightarrow> 'a proc_state_scheme \<Rightarrow> bool" where
  "dst_ok user p a s \<longleftrightarrow> user \<longrightarrow> uaddr s (p_pagetable (procs s ! p)) a \<noteq> None"

definition delivered ::
  "bool \<Rightarrow> u64 \<Rightarrow> u64 list \<Rightarrow> 'a kmem_state_scheme \<Rightarrow> 'a kmem_state_scheme \<Rightarrow> u64 \<Rightarrow> u8 list \<Rightarrow> bool" where
  "delivered user root ps s s' dst bs \<longleftrightarrow>
     (if user then user_wrote root ps s s' dst bs else mem s' = write_bytes (mem s) dst bs)"

lemma either_copyin_byte:
  assumes "myproc s = Some p"
  shows "either_copyin user a 1 s = Some (case src_byte user p a s of None \<Rightarrow> (-1, []) | Some c \<Rightarrow> (0, [c]))"
  using assms by (simp add: either_copyin_def src_byte_def copyin_byte read_bytes_def)

lemma either_copyout_byte:
  assumes "myproc s = Some p" and "root = p_pagetable (procs s ! p)" and "user \<Longrightarrow> uvm_inv s root ps"
  shows "\<not> dst_ok user p a s \<Longrightarrow> either_copyout user a [c] s = Some (-1, s)"
    and "dst_ok user p a s \<Longrightarrow> \<exists>m. either_copyout user a [c] s = Some (0, s\<lparr>mem := m\<rparr>) \<and>
      delivered user root ps s (s\<lparr>mem := m\<rparr>) a [c] \<and> (\<forall>b. dst_ok user p b (s\<lparr>mem := m\<rparr>) = dst_ok user p b s)"
proof -
  show "either_copyout user a [c] s = Some (-1, s)" if "\<not> dst_ok user p a s"
    using that assms by (auto simp: either_copyout_def dst_ok_def copyout_byte)
  show "\<exists>m. either_copyout user a [c] s = Some (0, s\<lparr>mem := m\<rparr>) \<and>
      delivered user root ps s (s\<lparr>mem := m\<rparr>) a [c] \<and> (\<forall>b. dst_ok user p b (s\<lparr>mem := m\<rparr>) = dst_ok user p b s)"
    if ok: "dst_ok user p a s"
  proof (cases user)
    case False
    then show ?thesis using assms(1)
      by (intro exI [of _ "write_bytes (mem s) a [c]"]) (simp add: either_copyout_def delivered_def dst_ok_def)
  next
    case True
    then obtain x where x: "uaddr s root a = Some x" using ok assms(2) by (auto simp: dst_ok_def)
    note w = user_store [OF assms(3) [OF True] x, of c]
    then have "uaddr (s\<lparr>mem := (mem s)(x := c)\<rparr>) root b = uaddr s root b" for b by (simp add: user_wrote_def uaddr_def)
    then show ?thesis using True assms(1,2) x w
      by (intro exI [of _ "(mem s)(x := c)"]) (simp add: either_copyout_def copyout_byte delivered_def dst_ok_def)
  qed
qed

lemma delivered_cons:
  assumes "delivered user root ps s t dst [b]" and "delivered user root ps t s' (dst + 1) bs"
  shows "delivered user root ps s s' dst (b # bs)"
  using assms user_wrote_trans by (auto simp: delivered_def split: if_splits)

end
