(* ===== verification/Ring.thy ===== *)
theory Ring
  imports Xv6_Prelude
begin

text \<open>
  Ring buffers addressed by free-running counters: an array of \<open>N\<close> cells, a read counter \<open>r\<close> and a
  write counter \<open>w\<close> that wrap around at the width of their type, cell \<open>i mod N\<close> for counter \<open>i\<close>. Pipes,
  the console input and the UART output queue use them. The locale \<open>ring\<close> is the interface their clients
  rely on: a bounded first-in first-out queue.
\<close>

section \<open>The content of an array between two counters\<close>

definition ring_ok :: "'e list \<Rightarrow> 'w::len word \<Rightarrow> 'w word \<Rightarrow> bool" where
  "ring_ok data r w \<longleftrightarrow> 0 < length data \<and> length data dvd 2 ^ LENGTH('w) \<and> length data < 2 ^ LENGTH('w) \<and>
     unat (w - r) \<le> length data"

definition ring_content :: "'e list \<Rightarrow> 'w::len word \<Rightarrow> 'w word \<Rightarrow> 'e list" where
  "ring_content data r w = map (\<lambda>k. data ! ((unat r + k) mod length data)) [0..<unat (w - r)]"

lemma length_ring_content [simp]: "length (ring_content data r w) = unat (w - r)"
  by (simp add: ring_content_def)

lemma unat_add_mod:
  fixes r :: "'w::len word"
  assumes "N dvd 2 ^ LENGTH('w)"
  shows "unat (r + of_nat k) mod N = (unat r + k) mod N"
  using assms by (simp add: unat_word_ariths unat_of_nat take_bit_eq_mod mod_mod_cancel mod_add_right_eq)

lemma ring_cells_differ:
  assumes "k < (m :: nat)" and "m < N"
  shows "(a + k) mod N \<noteq> (a + m) mod N"
proof
  assume "(a + k) mod N = (a + m) mod N"
  then have "N dvd (a + m) - (a + k)" using assms(1) mod_eq_dvd_iff_nat [of "a + k" "a + m" N] by simp
  then show False using assms by (auto dest: dvd_imp_le)
qed

lemma ring_put:
  fixes r w :: "'w::len word"
  assumes ok: "ring_ok data r w" and room: "unat (w - r) < length data"
  shows "ring_ok (data[unat w mod length data := x]) r (w + 1)"
    and "ring_content (data[unat w mod length data := x]) r (w + 1) = ring_content data r w @ [x]"
proof -
  define data' where "data' = data[unat w mod length data := x]"
  let ?m = "unat (w - r)" and ?N = "length data"
  have N: "0 < ?N" "?N dvd 2 ^ LENGTH('w)" "?N < 2 ^ LENGTH('w)" using ok by (auto simp: ring_ok_def)
  have "unat (d + 1) = Suc (unat d)" if "unat d < ?N" for d :: "'w word"
    using that N(3) by (simp add: unat_word_ariths)
  from this [OF room] have m: "unat (w + 1 - r) = Suc ?m" by (simp add: algebra_simps)
  show "ring_ok (data[unat w mod length data := x]) r (w + 1)" using N room by (simp add: ring_ok_def m)
  have w: "unat w mod ?N = (unat r + ?m) mod ?N"
    using unat_add_mod [OF N(2), of r ?m] by simp
  have "data' ! ((unat r + k) mod ?N) = data ! ((unat r + k) mod ?N)" if "k < ?m" for k
    using ring_cells_differ [OF that room, of "unat r"] by (simp add: data'_def w)
  moreover have "data' ! ((unat r + ?m) mod ?N) = x" using N by (simp add: data'_def w)
  ultimately have "ring_content data' r (w + 1) = ring_content data r w @ [x]"
    by (simp add: ring_content_def m data'_def)
  then show "ring_content (data[unat w mod length data := x]) r (w + 1) = ring_content data r w @ [x]"
    by (simp add: data'_def)
qed

lemma ring_get:
  fixes r w :: "'w::len word"
  assumes ok: "ring_ok data r w" and some: "r \<noteq> w"
  shows "ring_ok data (r + 1) w"
    and "ring_content data r w = data ! (unat r mod length data) # ring_content data (r + 1) w"
proof -
  let ?m = "unat (w - r)" and ?N = "length data"
  have N: "0 < ?N" "?N dvd 2 ^ LENGTH('w)" using ok by (auto simp: ring_ok_def)
  have pos: "0 < ?m" using some by (simp add: unat_gt_0)
  have "unat (d - 1) = unat d - 1" if "0 < unat d" for d :: "'w word"
    using that by (intro unat_minus_one) (simp add: unat_gt_0)
  from this [OF pos] have m: "unat (w - (r + 1)) = ?m - 1" by (simp add: algebra_simps)
  show "ring_ok data (r + 1) w" using ok by (simp add: ring_ok_def m le_diff_conv)
  have "(unat (r + 1) + k) mod ?N = (unat r + Suc k) mod ?N" for k
    using unat_add_mod [OF N(2), of r 1] by (metis add_Suc_right mod_add_left_eq add_Suc of_nat_1 Suc_eq_plus1)
  moreover have "[0..<?m] = 0 # map Suc [0..<?m - 1]"
    using pos by (metis Suc_diff_1 map_Suc_upt upt_conv_Cons)
  ultimately show "ring_content data r w = data ! (unat r mod ?N) # ring_content data (r + 1) w"
    by (simp add: ring_content_def m)
qed

lemma ring_empty: "ring_content data r w = [] \<longleftrightarrow> r = w"
  by (metis length_0_conv length_ring_content right_minus_eq unat_eq_0)

lemma ring_full:
  assumes "ring_ok data r (w :: 'w::len word)"
  shows "w = r + of_nat (length data) \<longleftrightarrow> unat (w - r) = length data"
proof -
  have "unat (of_nat (length data) :: 'w word) = length data"
    using assms by (simp add: ring_ok_def unat_of_nat take_bit_nat_eq_self)
  moreover have "w = r + of_nat (length data) \<longleftrightarrow> w - r = of_nat (length data)" by (auto simp: algebra_simps)
  ultimately show ?thesis by (metis word_unat_eq_iff)
qed

section \<open>A bounded queue\<close>

locale ring =
  fixes cap :: nat and inv :: "'q \<Rightarrow> bool" and cont :: "'q \<Rightarrow> 'e list" and put :: "'e \<Rightarrow> 'q \<Rightarrow> 'q" and get :: "'q \<Rightarrow> 'e \<times> 'q"
  assumes put_ok: "inv q \<Longrightarrow> length (cont q) < cap \<Longrightarrow> inv (put x q) \<and> cont (put x q) = cont q @ [x]"
    and get_ok: "inv q \<Longrightarrow> cont q = x # xs \<Longrightarrow> fst (get q) = x \<and> inv (snd (get q)) \<and> cont (snd (get q)) = xs"
    and cap_ok: "inv q \<Longrightarrow> length (cont q) \<le> cap"
begin

text \<open>
  Everything a writer and a reader can do, in any order: \<open>run q ws rs q'\<close> goes from \<open>q\<close> to \<open>q'\<close>
  while the elements \<open>ws\<close> go in, in this order, and \<open>rs\<close> come out.
\<close>

inductive run :: "'q \<Rightarrow> 'e list \<Rightarrow> 'e list \<Rightarrow> 'q \<Rightarrow> bool" for q where
  run_stop: "run q [] [] q"
| run_write: "run q ws rs q' \<Longrightarrow> length (cont q') < cap \<Longrightarrow> run q (ws @ [x]) rs (put x q')"
| run_read: "run q ws rs q' \<Longrightarrow> cont q' \<noteq> [] \<Longrightarrow> run q ws (rs @ [fst (get q')]) (snd (get q'))"

lemma run_fifo: "run q ws rs q' \<Longrightarrow> inv q \<Longrightarrow> inv q' \<and> cont q @ ws = rs @ cont q'"
proof (induction rule: run.induct)
  case run_stop
  then show ?case by simp
next
  case (run_write ws rs q' x)
  then show ?case using put_ok [of q' x] by simp
next
  case (run_read ws rs q')
  then obtain x xs where "cont q' = x # xs" by (cases "cont q'") auto
  with run_read show ?case using get_ok [of q' x xs] by simp
qed

lemma run_trans: "run q' ws' rs' q'' \<Longrightarrow> run q ws rs q' \<Longrightarrow> run q (ws @ ws') (rs @ rs') q''"
proof (induction rule: run.induct)
  case run_stop
  then show ?case by simp
next
  case (run_write ws' rs' t x)
  then show ?case using run.run_write [of q "ws @ ws'" "rs @ rs'" t x] by simp
next
  case (run_read ws' rs' t)
  then show ?case using run.run_read [of q "ws @ ws'" "rs @ rs'" t] by simp
qed

lemma put_run: "length (cont q) < cap \<Longrightarrow> run q [x] [] (put x q)"
  using run_write [OF run_stop, of q x] by simp

lemma get_run: "inv q \<Longrightarrow> cont q = x # xs \<Longrightarrow> run q [] [x] (snd (get q))"
  using run_read [OF run_stop, of q] get_ok [of q x xs] by simp

lemma run_bounded: "run q ws rs q' \<Longrightarrow> inv q \<Longrightarrow> length (cont q) + length ws \<le> length rs + cap"
  using run_fifo [of q ws rs q'] cap_ok [of q'] by (metis add_left_mono length_append)

end

end
