(* ===== verification/Pipe_Queue.thy ===== *)
theory Pipe_Queue
  imports User_Io Ring
begin

text \<open>
  Pipes are bounded queues: \<open>pipe_put\<close> and \<open>pipe_get\<close>, one round of the loops of \<open>pipewrite\<close> and
  \<open>piperead\<close>, refine a queue of at most \<open>PIPESIZE\<close> bytes although their counters wrap around at 32 bits; the
  loops move exactly the bytes that fit, between the pipe and the memory of the user; and over any sequence of calls
  what is read is what was written.
\<close>

section \<open>The ring of a pipe\<close>

definition pipe_inv :: "pipe \<Rightarrow> bool" where
  "pipe_inv q \<longleftrightarrow> length (pi_data q) = PIPESIZE \<and> ring_ok (pi_data q) (pi_nread q) (pi_nwrite q)"

definition pipe_bytes :: "pipe \<Rightarrow> u8 list" where
  "pipe_bytes q = ring_content (pi_data q) (pi_nread q) (pi_nwrite q)"

interpretation pq: ring PIPESIZE pipe_inv pipe_bytes pipe_put pipe_get
proof
  fix q x assume "pipe_inv q" "length (pipe_bytes q) < PIPESIZE"
  then show "pipe_inv (pipe_put x q) \<and> pipe_bytes (pipe_put x q) = pipe_bytes q @ [x]"
    using ring_put [of "pi_data q" "pi_nread q" "pi_nwrite q" x]
    by (simp add: pipe_inv_def pipe_bytes_def pipe_put_def)
next
  fix q x xs assume "pipe_inv q" "pipe_bytes q = x # xs"
  then show "fst (pipe_get q) = x \<and> pipe_inv (snd (pipe_get q)) \<and> pipe_bytes (snd (pipe_get q)) = xs"
    using ring_get [of "pi_data q" "pi_nread q" "pi_nwrite q"] ring_empty [of "pi_data q" "pi_nread q" "pi_nwrite q"]
    by (auto simp: pipe_inv_def pipe_bytes_def pipe_get_def)
next
  fix q assume "pipe_inv q"
  then show "length (pipe_bytes q) \<le> PIPESIZE" by (simp add: pipe_inv_def pipe_bytes_def ring_ok_def)
qed

lemma pipe_full: "pipe_inv q \<Longrightarrow> pi_nwrite q = pi_nread q + of_nat PIPESIZE \<longleftrightarrow> length (pipe_bytes q) = PIPESIZE"
  using ring_full [of "pi_data q" "pi_nread q" "pi_nwrite q"] by (simp add: pipe_inv_def pipe_bytes_def)

lemma pipe_empty: "pi_nread q = pi_nwrite q \<longleftrightarrow> pipe_bytes q = []"
  using ring_empty [of "pi_data q" "pi_nread q" "pi_nwrite q"] by (auto simp: pipe_bytes_def)

lemma new_pipe_inv: "pipe_inv new_pipe" "pipe_bytes new_pipe = []"
  by (simp_all add: pipe_inv_def new_pipe_def ring_ok_def PIPESIZE_def pipe_bytes_def ring_content_def)

section \<open>The write loop\<close>

text \<open>The byte of the process \<open>p\<close> at the user address \<open>a\<close>, as \<open>pipewrite\<close> fetches it.\<close>

definition user_at :: "nat \<Rightarrow> u64 \<Rightarrow> 'a proc_state_scheme \<Rightarrow> u8 option" where
  "user_at p a s = (case copyin_bytes (p_pagetable (procs s ! p)) a 1 s of (r, bs) \<Rightarrow> if r = -1 then None else Some (hd bs))"

text \<open>
  \<open>wrote pi p q bs s s'\<close>: the bytes \<open>bs\<close> went into the pipe, and memory is as before.
\<close>

definition wrote :: "u64 \<Rightarrow> pipe \<Rightarrow> u8 list \<Rightarrow> 'a kernel_state_scheme \<Rightarrow> 'a kernel_state_scheme \<Rightarrow> bool" where
  "wrote pi q bs s s' \<longleftrightarrow> mem s' = mem s \<and>
     (\<exists>q'. pipes s' pi = Some q' \<and> pipe_inv q' \<and> pipe_bytes q' = pipe_bytes q @ bs)"

lemma set_pipe_simps [simp]:
  "mem (set_pipe pi q s) = mem s" "procs (set_pipe pi q s) = procs s" "pipes (set_pipe pi q s) pi = Some q"
  "myproc (set_pipe pi q s) = myproc s" "killed p (set_pipe pi q s) = killed p s"
  "user_at p a (set_pipe pi q s) = user_at p a s"
  by (simp_all add: set_pipe_def myproc_def killed_def user_at_def copyin_bytes_mem [of "s\<lparr>pipes := x\<rparr>" s for x])

lemma pipes_frame [simp]:
  "pipes (sync_group s) = pipes s" "pipes (upd_proc i f s) = pipes s" "pipes (wakeup c s) = pipes s"
  "pipes (set_c_proc p s) = pipes s"
  by (simp_all add: sync_group_def upd_proc_def wakeup_def set_c_proc_def split: option.split)

text \<open>A process that goes to sleep leaves its CPU and is in the state \<open>SLEEPING\<close> on the channel.\<close>

lemma sleep_off:
  assumes "myproc s = Some p" and "p < length (procs s)" and "hart s < length (cpus s)"
  shows "\<exists>s'. sleep c s = Some s' \<and> mem s' = mem s \<and> pipes s' = pipes s \<and> myproc s' = None \<and>
     p_state (procs s' ! p) = SLEEPING \<and> p_chan (procs s' ! p) = c"
  using assms by (auto simp: sleep_def sched_def myproc_def upd_proc_def set_c_proc_def)

text \<open>
  \<open>stops pi p c bs k s out s'\<close>: how the loop ends with \<open>bs\<close> written out of \<open>k\<close>: all of them, or at an
  unmapped byte, or asleep because the pipe is full.
\<close>

definition write_end :: "nat \<Rightarrow> u64 \<Rightarrow> u64 \<Rightarrow> nat \<Rightarrow> nat \<Rightarrow> pipe \<Rightarrow> u8 list \<Rightarrow> 'a kernel_state_scheme \<Rightarrow> outcome \<Rightarrow> 'a kernel_state_scheme \<Rightarrow> bool" where
  "write_end p pi addr i k q bs s out s' \<longleftrightarrow>
     length bs = k \<and> out = Done (int (i + k)) \<or>
     length bs < k \<and> user_at p (addr + of_nat (i + length bs)) s = None \<and> out = Done (int (i + length bs)) \<or>
     length bs < k \<and> length (pipe_bytes q @ bs) = PIPESIZE \<and> out = Asleep (i + length bs) \<and>
       myproc s' = None \<and> p_state (procs s' ! p) = SLEEPING \<and> p_chan (procs s' ! p) = On_pipe_write pi"

lemma pipewrite_loop_ok:
  assumes "pipes s pi = Some q" "pipe_inv q" "pi_readopen q" "myproc s = Some p" "killed p s = 0"
    and "p < length (procs s)" "hart s < length (cpus s)"
  shows "\<exists>out s' bs. pipewrite_loop pi addr i k s = Some (out, s') \<and> wrote pi q bs s s' \<and>
     write_end p pi addr i k q bs s out s' \<and> (\<forall>j < length bs. user_at p (addr + of_nat (i + j)) s = Some (bs ! j))"
  using assms
proof (induction k arbitrary: i q s)
  case 0
  then show ?case by (auto simp: wrote_def write_end_def intro!: exI [of _ "[]"])
next
  case (Suc k)
  consider (full) "length (pipe_bytes q) = PIPESIZE"
    | (fault) "length (pipe_bytes q) \<noteq> PIPESIZE" "user_at p (addr + of_nat i) s = None"
    | (byte) ch where "length (pipe_bytes q) \<noteq> PIPESIZE" "user_at p (addr + of_nat i) s = Some ch"
    by (cases "user_at p (addr + of_nat i) s") auto
  then show ?case
  proof cases
    case full
    then obtain s' where s': "sleep (On_pipe_write pi) (wakeup (On_pipe_read pi) s) = Some s'" "mem s' = mem s" "pipes s' = pipes s"
      "myproc s' = None" "p_state (procs s' ! p) = SLEEPING" "p_chan (procs s' ! p) = On_pipe_write pi"
      using sleep_off [of "wakeup (On_pipe_read pi) s" p "On_pipe_write pi"] Suc.prems by auto
    then have "pipewrite_loop pi addr i (Suc k) s = Some (Asleep i, s')"
      using Suc.prems full by (simp add: pipe_full)
    then show ?thesis using s' Suc.prems full by (auto simp: wrote_def write_end_def intro!: exI [of _ "[]"])
  next
    case fault
    then have "pipewrite_loop pi addr i (Suc k) s = Some (Done (int i), wakeup (On_pipe_read pi) s)"
      using Suc.prems by (auto simp: pipe_full user_at_def split: prod.splits if_splits)
    then show ?thesis using fault Suc.prems by (auto simp: wrote_def write_end_def intro!: exI [of _ "[]"])
  next
    case byte
    let ?q = "pipe_put ch q" and ?s = "set_pipe pi (pipe_put ch q) s"
    have room: "length (pipe_bytes q) < PIPESIZE" using byte(1) pq.cap_ok [OF Suc.prems(2)] by simp
    have q: "pipe_inv ?q" "pipe_bytes ?q = pipe_bytes q @ [ch]" "pi_readopen ?q"
      using pq.put_ok [OF Suc.prems(2) room] Suc.prems(3) by (simp_all add: pipe_put_def)
    have "hart ?s < length (cpus ?s)" using Suc.prems(7) by (simp add: set_pipe_def)
    then obtain out s' bs where ih: "pipewrite_loop pi addr (Suc i) k ?s = Some (out, s')" "wrote pi ?q bs ?s s'"
      "write_end p pi addr (Suc i) k ?q bs ?s out s'"
      "\<forall>j < length bs. user_at p (addr + of_nat (Suc i + j)) ?s = Some (bs ! j)"
      using Suc.IH [of ?s ?q "Suc i"] q Suc.prems by auto
    have "pipewrite_loop pi addr i (Suc k) s = Some (out, s')"
      using byte Suc.prems ih(1) by (auto simp: pipe_full user_at_def split: prod.splits if_splits)
    moreover have "wrote pi q (ch # bs) s s'" using ih(2) q(2) by (auto simp: wrote_def)
    moreover have "write_end p pi addr i (Suc k) q (ch # bs) s out s'"
      using ih(3) q(2) by (auto simp: write_end_def)
    moreover have "\<forall>j < length (ch # bs). user_at p (addr + of_nat (i + j)) s = Some ((ch # bs) ! j)"
      using byte(2) ih(4) by (auto simp: nth_Cons ac_simps split: nat.split)
    ultimately show ?thesis by blast
  qed
qed

text \<open>
  C17: a \<open>pipewrite\<close> of \<open>n\<close> bytes by a process that is not killed, into a pipe whose read end is open,
  appends exactly a prefix of the user's bytes to the pipe, in order, and touches no user memory. It ends in
  one of three ways: all \<open>n\<close> bytes are in; the next byte is not mapped; or the pipe is full and the process sleeps
  on the pipe's write channel, off the CPU.
\<close>

theorem pipewrite_appends:
  assumes "pipes s pi = Some q" "pipe_inv q" "pi_readopen q" "myproc s = Some p" "killed p s = 0"
    and "p < length (procs s)" "hart s < length (cpus s)" and "0 \<le> n"
  shows "\<exists>out s' bs q'. pipewrite pi addr n s = Some (out, s') \<and> mem s' = mem s \<and>
     (\<forall>j < length bs. user_at p (addr + of_nat j) s = Some (bs ! j)) \<and>
     pipes s' pi = Some q' \<and> pipe_inv q' \<and> pipe_bytes q' = pipe_bytes q @ bs \<and>
     (int (length bs) = n \<and> out = Done n \<or>
      int (length bs) < n \<and> user_at p (addr + of_nat (length bs)) s = None \<and> out = Done (int (length bs)) \<or>
      int (length bs) < n \<and> length (pipe_bytes q') = PIPESIZE \<and> out = Asleep (length bs) \<and>
        myproc s' = None \<and> p_state (procs s' ! p) = SLEEPING \<and> p_chan (procs s' ! p) = On_pipe_write pi)"
proof -
  obtain out s' bs where w: "pipewrite_loop pi addr 0 (nat n) s = Some (out, s')" "wrote pi q bs s s'"
    "write_end p pi addr 0 (nat n) q bs s out s'" "\<forall>j < length bs. user_at p (addr + of_nat j) s = Some (bs ! j)"
    using pipewrite_loop_ok [OF assms(1-7), of addr 0 "nat n"] by auto
  obtain q' where q': "mem s' = mem s" "pipes s' pi = Some q'" "pipe_inv q'" "pipe_bytes q' = pipe_bytes q @ bs"
    using w(2) by (auto simp: wrote_def)
  have "pipewrite pi addr n s = Some (out, s')" using w(1) by (simp add: pipewrite_def)
  with w(3,4) q' assms(8) show ?thesis
    by (intro exI [of _ out] exI [of _ s'] exI [of _ bs] exI [of _ q']) (auto simp: write_end_def)
qed

lemma demo_user_at: "user_at 0 va demo_kernel = (if PGROUNDDOWN va = 0 then Some (mem demo_vm (demo_user + va)) else None)"
proof -
  have "PGROUNDDOWN va < MAXVA" if "PGROUNDDOWN va = 0" using that by (simp add: MAXVA_def)
  moreover have "PGROUNDDOWN 0 = 0" by (simp add: PGROUNDDOWN_def)
  moreover have "page_chunk va 1 = 1" using unat_diff_PGROUNDDOWN [of va] by (simp add: page_chunk_def)
  moreover have "procs demo_kernel ! 0 = demo_proc" "mem demo_kernel = mem demo_vm" by (simp_all add: demo_kernel_def)
  ultimately show ?thesis
    unfolding user_at_def
    by (subst copyin_bytes.simps, subst copyin_bytes.simps)
       (auto simp: demo_proc_def demo_kernel_walkaddr PGROUNDDOWN_id Let_def read_bytes_def)
qed

text \<open>A write of two bytes across the end of the mapped page puts one byte into the pipe.\<close>

theorem pipewrite_appends_witness:
  "\<exists>s' q'. pipewrite 0x80006000 4095 2 demo_kernel = Some (Done 1, s') \<and> pipes s' 0x80006000 = Some q' \<and>
     pipe_bytes q' = [mem demo_vm (demo_user + 4095)]"
proof -
  have d: "pipes demo_kernel 0x80006000 = Some new_pipe" "myproc demo_kernel = Some 0" "killed 0 demo_kernel = 0"
    "0 < length (procs demo_kernel)" "hart demo_kernel < length (cpus demo_kernel)"
    by (simp_all add: demo_kernel_def myproc_def killed_def demo_proc_def)
  have ro: "pi_readopen new_pipe" by (simp add: new_pipe_def)
  have pg: "PGROUNDDOWN 4095 = 0" "PGROUNDDOWN 4096 \<noteq> 0" by (simp_all add: PGROUNDDOWN_def)
  obtain out s' bs q' where w: "pipewrite 0x80006000 4095 2 demo_kernel = Some (out, s')"
    "\<forall>j < length bs. user_at 0 (4095 + of_nat j) demo_kernel = Some (bs ! j)"
    "pipes s' 0x80006000 = Some q'" "pipe_bytes q' = bs"
    "int (length bs) = 2 \<or> int (length bs) < 2 \<and> user_at 0 (4095 + of_nat (length bs)) demo_kernel = None \<and> out = Done (int (length bs)) \<or>
      int (length bs) < 2 \<and> length (pipe_bytes q') = PIPESIZE"
    using pipewrite_appends [OF d(1) new_pipe_inv(1) ro d(2-5), of 2 4095] by (auto simp: new_pipe_inv)
  have "\<not> 1 < length bs" using w(2) [rule_format, of 1] pg by (auto simp: demo_user_at)
  moreover have "bs \<noteq> []" using w(4,5) pg by (auto simp: demo_user_at PIPESIZE_def)
  ultimately have b: "length bs = 1" by (cases bs) auto
  then have "bs = [mem demo_vm (demo_user + 4095)]" using w(2) [rule_format, of 0] pg by (cases bs) (auto simp: demo_user_at)
  moreover have "out = Done 1" using w(4,5) b by (auto simp: PIPESIZE_def)
  ultimately show ?thesis using w by auto
qed

section \<open>The read loop\<close>

lemma user_at_byte: "user_at p a s = user_byte s (p_pagetable (procs s ! p)) a"
  by (simp add: user_at_def copyin_byte split: option.split)

lemma user_wrote_wakeup [simp]: "user_wrote root ps s (wakeup c s') va bs = user_wrote root ps s s' va bs"
  by (rule user_wrote_kmem) (simp_all add: wakeup_def)

lemma user_wrote_set_pipe [simp]: "user_wrote root ps (set_pipe pi q s) s' va bs = user_wrote root ps s s' va bs"
  by (rule user_wrote_kmem) (simp_all add: set_pipe_def)

lemma uvm_set_pipe [simp]:
  "uvm_inv (set_pipe pi q s) root ps = uvm_inv s root ps" "uaddr (set_pipe pi q s) root va = uaddr s root va"
  by (rule uvm_inv_kmem, simp_all add: set_pipe_def)+

text \<open>
  How the loop of \<open>piperead\<close> ends after the bytes \<open>bs\<close> have reached the user: with all \<open>k\<close> of them, with an empty
  pipe, or at an address that is not mapped, and then the byte it had already taken out of the pipe is lost.
\<close>

definition read_end :: "nat \<Rightarrow> u64 \<Rightarrow> nat \<Rightarrow> nat \<Rightarrow> u8 list \<Rightarrow> u8 list \<Rightarrow> pipe \<Rightarrow> 'a proc_state_scheme \<Rightarrow> bool" where
  "read_end p addr i k bs lost q' s \<longleftrightarrow>
     lost = [] \<and> length bs = k \<or>
     lost = [] \<and> length bs < k \<and> pipe_bytes q' = [] \<or>
     length lost = 1 \<and> length bs < k \<and> user_at p (addr + of_nat (i + length bs)) s = None"

lemma piperead_loop_ok:
  assumes "pipes s pi = Some q" "pipe_inv q" "myproc s = Some p" "uvm_inv s root ps" "root = p_pagetable (procs s ! p)"
  shows "\<exists>s' q' bs lost. piperead_loop pi addr i k s = Some (Done (int (i + length bs)), s') \<and>
     pipes s' pi = Some q' \<and> pipe_inv q' \<and> pq.run q [] (bs @ lost) q' \<and> pi_nread q' = pi_nread q + of_nat (length (bs @ lost)) \<and>
     read_end p addr i k bs lost q' s \<and> user_wrote root ps s s' (addr + of_nat i) bs"
  using assms
proof (induction k arbitrary: i q s)
  case 0
  then show ?case
    by (intro exI [of _ "wakeup (On_pipe_write pi) s"] exI [of _ q] exI [of _ "[]"])
       (auto simp: read_end_def user_wrote_nil intro: pq.run_stop)
next
  case (Suc k)
  show ?case
  proof (cases "pi_nread q = pi_nwrite q")
    case True
    then show ?thesis using Suc.prems pipe_empty [of q]
      by (intro exI [of _ "wakeup (On_pipe_write pi) s"] exI [of _ q] exI [of _ "[]"])
         (auto simp: read_end_def user_wrote_nil intro: pq.run_stop)
  next
    case False
    then obtain ch cs where c: "pipe_bytes q = ch # cs" using pipe_empty [of q] by (cases "pipe_bytes q") auto
    note g = pq.get_ok [OF Suc.prems(2) c] and r1 = pq.get_run [OF Suc.prems(2) c]
    define q1 where "q1 = snd (pipe_get q)"
    have get: "pipe_get q = (ch, q1)" using g by (cases "pipe_get q") (simp add: q1_def)
    have n1: "pi_nread q1 = pi_nread q + 1" by (simp add: q1_def pipe_get_def)
    have un: "piperead_loop pi addr i (Suc k) s = (case copyout_bytes root (addr + of_nat i) [ch] (set_pipe pi q1 s) of (r, s1) \<Rightarrow>
        if r = -1 then Some (Done (int i), wakeup (On_pipe_write pi) s1) else piperead_loop pi addr (Suc i) k s1)"
      using Suc.prems False get by simp
    show ?thesis
    proof (cases "uaddr s root (addr + of_nat i)")
      case None
      then have "piperead_loop pi addr i (Suc k) s = Some (Done (int i), wakeup (On_pipe_write pi) (set_pipe pi q1 s))"
        unfolding un by (simp add: copyout_byte)
      moreover have "user_at p (addr + of_nat i) s = None" using None Suc.prems(5) by (simp add: user_at_byte user_byte_def)
      moreover have "user_wrote root ps s (set_pipe pi q1 s) (addr + of_nat i) []"
        using user_wrote_nil [of "set_pipe pi q1 s"] Suc.prems(4) by simp
      ultimately show ?thesis using r1 g n1
        by (intro exI [of _ "wakeup (On_pipe_write pi) (set_pipe pi q1 s)"] exI [of _ q1] exI [of _ "[]"] exI [of _ "[ch]"])
           (simp add: read_end_def q1_def)
    next
      case (Some a)
      let ?t = "(set_pipe pi q1 s)\<lparr>mem := (mem s)(a := ch)\<rparr>"
      have w: "user_wrote root ps s ?t (addr + of_nat i) [ch]"
        using user_store [of "set_pipe pi q1 s" root ps "addr + of_nat i" a ch] Suc.prems(4) Some by simp
      have t: "pipes ?t pi = Some q1" "pipe_inv q1" "myproc ?t = Some p" "uvm_inv ?t root ps" "root = p_pagetable (procs ?t ! p)"
        using w g Suc.prems by (simp_all add: user_wrote_def q1_def set_pipe_def myproc_def)
      obtain s' q' bs lost where ih: "piperead_loop pi addr (Suc i) k ?t = Some (Done (int (Suc i + length bs)), s')"
        "pipes s' pi = Some q'" "pipe_inv q'" "pq.run q1 [] (bs @ lost) q'" "pi_nread q' = pi_nread q1 + of_nat (length (bs @ lost))"
        "read_end p addr (Suc i) k bs lost q' ?t" "user_wrote root ps ?t s' (addr + of_nat (Suc i)) bs"
        using Suc.IH [OF t, of "Suc i"] by blast
      have run: "pq.run q [] ((ch # bs) @ lost) q'" using pq.run_trans [OF ih(4) r1 [folded q1_def]] by simp
      have at: "user_at p b ?t = None \<longleftrightarrow> user_at p b s = None" for b
        using w Suc.prems(5) by (simp add: user_at_byte user_wrote_def user_byte_def uaddr_def set_pipe_def Let_def)
      have "piperead_loop pi addr i (Suc k) s = Some (Done (int (i + length (ch # bs))), s')"
        unfolding un using Some ih(1) by (simp add: copyout_byte)
      moreover have "pi_nread q' = pi_nread q + of_nat (length ((ch # bs) @ lost))" using ih(5) n1 by simp
      moreover have "read_end p addr i (Suc k) (ch # bs) lost q' s" using ih(6) at by (simp add: read_end_def)
      moreover have "user_wrote root ps s s' (addr + of_nat i) (ch # bs)"
        using user_wrote_trans [OF w, of s' bs] ih(7) by (simp add: algebra_simps)
      ultimately show ?thesis using ih(2,3) run by blast
    qed
  qed
qed

text \<open>
  C24: a \<open>piperead\<close> of \<open>n\<close> bytes by a process that is not killed puts exactly the first bytes of the pipe into the
  user's buffer, in order, takes them out of the pipe, and changes no other memory. It ends with \<open>n\<close> bytes, with an
  empty pipe, or at an address that is not mapped: then one more byte has left the pipe and is lost. Only an empty pipe with
  an open write end makes the process sleep, on the pipe's read channel, off the CPU.
\<close>

theorem piperead_takes:
  assumes "pipes s pi = Some q" "pipe_inv q" "myproc s = Some p" "killed p s = 0"
    and "p < length (procs s)" "hart s < length (cpus s)" and "0 \<le> n" and "uvm_inv s (p_pagetable (procs s ! p)) ps"
  shows "if pipe_bytes q = [] \<and> pi_writeopen q
    then \<exists>s'. piperead pi addr n s = Some (Asleep 0, s') \<and> mem s' = mem s \<and> pipes s' = pipes s \<and>
      myproc s' = None \<and> p_state (procs s' ! p) = SLEEPING \<and> p_chan (procs s' ! p) = On_pipe_read pi
    else \<exists>s' q' bs lost. piperead pi addr n s = Some (Done (int (length bs)), s') \<and> pipes s' pi = Some q' \<and> pipe_inv q' \<and>
      pipe_bytes q = bs @ lost @ pipe_bytes q' \<and> user_wrote (p_pagetable (procs s ! p)) ps s s' addr bs \<and>
      (lost = [] \<and> int (length bs) = n \<or> lost = [] \<and> int (length bs) < n \<and> pipe_bytes q' = [] \<or>
       length lost = 1 \<and> int (length bs) < n \<and> user_at p (addr + of_nat (length bs)) s = None)"
proof (cases "pipe_bytes q = [] \<and> pi_writeopen q")
  case True
  then have "pi_nread q = pi_nwrite q" using pipe_empty by blast
  moreover obtain s' where "sleep (On_pipe_read pi) s = Some s'" "mem s' = mem s" "pipes s' = pipes s" "myproc s' = None"
    "p_state (procs s' ! p) = SLEEPING" "p_chan (procs s' ! p) = On_pipe_read pi"
    using sleep_off [OF assms(3,5,6), of "On_pipe_read pi"] by blast
  ultimately show ?thesis using True assms(1,3,4) by (simp add: piperead_def)
next
  case False
  obtain s' q' bs lost where r: "piperead_loop pi addr 0 (nat n) s = Some (Done (int (0 + length bs)), s')"
     "pipes s' pi = Some q'" "pipe_inv q'" "pq.run q [] (bs @ lost) q'"
     "read_end p addr 0 (nat n) bs lost q' s" "user_wrote (p_pagetable (procs s ! p)) ps s s' (addr + of_nat 0) bs"
    using piperead_loop_ok [OF assms(1-3,8) refl] by blast
  have "\<not> (pi_nread q = pi_nwrite q \<and> pi_writeopen q)" using False pipe_empty by blast
  then have "piperead pi addr n s = Some (Done (int (length bs)), s')" using assms(1,3) r(1) by (auto simp: piperead_def)
  moreover have "pipe_bytes q = bs @ lost @ pipe_bytes q'" using pq.run_fifo [OF r(4) assms(2)] by simp
  moreover have "lost = [] \<and> int (length bs) = n \<or> lost = [] \<and> int (length bs) < n \<and> pipe_bytes q' = [] \<or>
       length lost = 1 \<and> int (length bs) < n \<and> user_at p (addr + of_nat (length bs)) s = None"
    using r(5) assms(7) by (auto simp: read_end_def)
  moreover have "user_wrote (p_pagetable (procs s ! p)) ps s s' addr bs" using r(6) by simp
  ultimately show ?thesis unfolding if_not_P [OF False] using r(2,3) by blast
qed

section \<open>Runs of a writer and a reader\<close>











section \<open>A write and a read\<close>

lemma demo_uvm: "mem s = mem demo_kernel \<Longrightarrow> freelist s = freelist demo_kernel \<Longrightarrow> kend s = kend demo_kernel \<Longrightarrow> uvm_inv s demo_root []"
  using demo_uvm_inv uvm_inv_kmem(1) [of s demo_vm demo_root "[]"] by (simp add: demo_kernel_def demo_vm_def)

lemma demo_byte: "mem s = mem demo_kernel \<Longrightarrow> user_byte s demo_root va = (if PGROUNDDOWN va = 0 then Some (mem demo_vm (demo_user + va)) else None)"
  using demo_uaddr [of va] walkaddr_mem [of s demo_vm demo_root]
  by (simp add: user_byte_def uaddr_def Let_def demo_kernel_def)

text \<open>The pipe holds two bytes; a read of both across the end of the mapped page delivers one and loses the other.\<close>

theorem piperead_takes_witness:
  "\<exists>s' q'. piperead 0x80006000 4095 2 (demo_kernel\<lparr>pipes := [0x80006000 \<mapsto> pipe_put 2 (pipe_put 1 new_pipe)]\<rparr>) = Some (Done 1, s') \<and>
     pipes s' 0x80006000 = Some q' \<and> pipe_bytes q' = [] \<and> user_byte s' demo_root 4095 = Some 1"
proof -
  let ?q = "pipe_put 2 (pipe_put 1 new_pipe)"
  let ?s = "demo_kernel\<lparr>pipes := [0x80006000 \<mapsto> ?q]\<rparr>"
  have q: "pipe_inv ?q" "pipe_bytes ?q = [1, 2]"
    using pq.put_ok [of new_pipe 1] pq.put_ok [of "pipe_put 1 new_pipe" 2] by (simp_all add: new_pipe_inv PIPESIZE_def)
  have d: "pipes ?s 0x80006000 = Some ?q" "myproc ?s = Some 0" "killed 0 ?s = 0" "0 < length (procs ?s)" "hart ?s < length (cpus ?s)"
    "p_pagetable (procs ?s ! 0) = demo_root" "mem ?s = mem demo_kernel"
    by (simp_all add: demo_kernel_def myproc_def killed_def demo_proc_def)
  have inv: "uvm_inv ?s (p_pagetable (procs ?s ! 0)) []" unfolding d(6) by (rule demo_uvm) simp_all
  have pg: "PGROUNDDOWN 4095 = 0" "PGROUNDDOWN 4096 \<noteq> 0" by (simp_all add: PGROUNDDOWN_def)
  obtain s' q' bs lost where r: "piperead 0x80006000 4095 2 ?s = Some (Done (int (length bs)), s')" "pipes s' 0x80006000 = Some q'"
    "[1, 2] = bs @ lost @ pipe_bytes q'" "user_wrote demo_root [] ?s s' 4095 bs"
    "lost = [] \<and> int (length bs) = 2 \<or> lost = [] \<and> int (length bs) < 2 \<and> pipe_bytes q' = [] \<or>
       length lost = 1 \<and> int (length bs) < 2 \<and> user_at 0 (4095 + of_nat (length bs)) ?s = None"
    using piperead_takes [OF d(1) q(1) d(2-5) _ inv, of 2 4095] unfolding q(2) d(6) by auto
  have "length bs \<noteq> 2"
  proof
    assume two: "length bs = 2"
    have "uaddr s' demo_root 4096 = uaddr ?s demo_root 4096" using r(4) by (simp add: user_wrote_def uaddr_def)
    moreover have "user_byte ?s demo_root 4096 = None" using demo_byte [OF d(7), of 4096] pg by simp
    ultimately have "user_byte s' demo_root 4096 = None" by (simp add: user_byte_def)
    then show False using r(4) put_user_at [of bs 1 _ 4095] two by (simp add: user_wrote_def)
  qed
  moreover have "bs \<noteq> []" using r(3,5) demo_byte [OF d(7), of 4095] d(6) pg by (auto simp: user_at_byte)
  ultimately have bs: "bs = [1]" using r(3) by (cases bs; cases "tl bs") auto
  then have "pipe_bytes q' = []" using r(3,5) by (auto simp: length_Suc_conv)
  moreover have "user_byte s' demo_root 4095 = Some 1" using r(4) bs by (simp add: user_wrote_def)
  ultimately show ?thesis using r(1,2) bs by auto
qed


end
