(* ===== verification/Proc_Table.thy ===== *)
theory Proc_Table
  imports Demo_Kernel Vm_Frame
begin

text \<open>
  The process table as an abstract state machine. \<open>ptab_of\<close> keeps of the kernel state what the
  scheduler and the parent-child protocol look at: state, channel, pid and parent of every entry, the process
  on every CPU, the next pid and the first process. Every operation of kernel/proc.c refines an
  operation on this table, and the table invariant is proved there: a process is on at most one CPU, pids are unique,
  parents are alive, and a process asleep in \<open>wait\<close> has no exited child that nobody told it about.
\<close>

section \<open>The abstract table\<close>

record entry =
  e_state :: procstate
  e_chan :: wait_chan
  e_pid :: int
  e_parent :: "nat option"

record ptab =
  ent :: "entry list"
  onc :: "nat option list"
  npid :: int
  ini :: "nat option"

definition entry_of :: "proc \<Rightarrow> entry" where
  "entry_of p = \<lparr>e_state = p_state p, e_chan = p_chan p, e_pid = p_pid p, e_parent = p_parent p\<rparr>"

definition ptab_of :: "'a proc_state_scheme \<Rightarrow> ptab" where
  "ptab_of s = \<lparr>ent = map entry_of (procs s), onc = map c_proc (cpus s), npid = nextpid s, ini = initproc s\<rparr>"

lemma entry_of_simps [simp]:
  "e_state (entry_of p) = p_state p" "e_chan (entry_of p) = p_chan p" "e_pid (entry_of p) = p_pid p"
  "e_parent (entry_of p) = p_parent p"
  by (simp_all add: entry_of_def)

lemma ptab_of_more: "cow_state.more s' = cow_state.more s \<Longrightarrow> ptab_of s' = ptab_of s"
  by (cases s; cases s') (simp add: ptab_of_def)

lemma ptab_of_kmem: "kmem_state.more s' = kmem_state.more s \<Longrightarrow> ptab_of s' = ptab_of s"
  by (rule ptab_of_more [OF cow_more])

lemma ptab_of_upd [simp]:
  "ptab_of (upd_proc i f s) = (ptab_of s)\<lparr>ent := (map entry_of (procs s))[i := entry_of (f (procs s ! i))]\<rparr>"
  by (simp add: ptab_of_def upd_proc_def sync_group_def map_update split: option.split)

lemma ptab_of_ent: "ent (ptab_of s) = map entry_of (procs s)" "onc (ptab_of s) = map c_proc (cpus s)"
  "npid (ptab_of s) = nextpid s" "ini (ptab_of s) = initproc s"
  by (simp_all add: ptab_of_def)

text \<open>An update of a table entry that leaves these fields alone does not show.\<close>

lemma ptab_of_upd_same:
  assumes "\<And>p. entry_of (f p) = entry_of p"
  shows "ptab_of (upd_proc i f s) = ptab_of s"
proof -
  have "(map entry_of (procs s))[i := entry_of (procs s ! i)] = map entry_of (procs s)"
    using list_update_id [of "map entry_of (procs s)" i]
    by (cases "i < length (procs s)") (simp_all add: list_update_beyond)
  then show ?thesis by (simp add: assms) (simp add: ptab_of_def)
qed

section \<open>The invariant\<close>

definition alive :: "entry \<Rightarrow> bool" where
  "alive e \<longleftrightarrow> e_state e \<noteq> UNUSED \<and> e_state e \<noteq> ZOMBIE"

definition cpu_ok :: "ptab \<Rightarrow> bool" where
  "cpu_ok t \<longleftrightarrow>
     (\<forall>h < length (onc t). \<forall>i. onc t ! h = Some i \<longrightarrow> i < length (ent t) \<and> e_state (ent t ! i) = RUNNING) \<and>
     (\<forall>h < length (onc t). \<forall>k < length (onc t). onc t ! h \<noteq> None \<longrightarrow> onc t ! h = onc t ! k \<longrightarrow> h = k) \<and>
     (\<forall>i < length (ent t). e_state (ent t ! i) = RUNNING \<longrightarrow> Some i \<in> set (onc t))"

definition pid_ok :: "ptab \<Rightarrow> bool" where
  "pid_ok t \<longleftrightarrow> npid t < 2 ^ 31 \<and>
     (\<forall>i < length (ent t). e_state (ent t ! i) \<noteq> UNUSED \<longrightarrow> e_pid (ent t ! i) < npid t) \<and>
     (\<forall>i < length (ent t). \<forall>j < length (ent t). e_state (ent t ! i) \<noteq> UNUSED \<longrightarrow> e_state (ent t ! j) \<noteq> UNUSED \<longrightarrow>
        e_pid (ent t ! i) = e_pid (ent t ! j) \<longrightarrow> i = j)"

definition family_ok :: "ptab \<Rightarrow> bool" where
  "family_ok t \<longleftrightarrow>
     (\<forall>i < length (ent t). \<forall>p. e_parent (ent t ! i) = Some p \<longrightarrow>
        e_state (ent t ! i) \<noteq> UNUSED \<and> p < length (ent t) \<and> p \<noteq> i \<and> alive (ent t ! p)) \<and>
     (\<forall>p. ini t = Some p \<longrightarrow> p < length (ent t) \<and> alive (ent t ! p) \<and> e_parent (ent t ! p) = None)"

definition wait_ok :: "ptab \<Rightarrow> bool" where
  "wait_ok t \<longleftrightarrow> (\<forall>p < length (ent t). \<forall>i < length (ent t). e_state (ent t ! p) = SLEEPING \<longrightarrow>
     e_chan (ent t ! p) = On_proc p \<longrightarrow> e_parent (ent t ! i) = Some p \<longrightarrow> e_state (ent t ! i) \<noteq> ZOMBIE)"

definition ptab_inv :: "ptab \<Rightarrow> bool" where
  "ptab_inv t \<longleftrightarrow> cpu_ok t \<and> pid_ok t \<and> family_ok t \<and> wait_ok t"

lemma cpu_ok_cong:
  assumes "cpu_ok t" and "onc t' = onc t" and "length (ent t') = length (ent t)"
    and "\<And>i. i < length (ent t) \<Longrightarrow> e_state (ent t' ! i) = RUNNING \<longleftrightarrow> e_state (ent t ! i) = RUNNING"
  shows "cpu_ok t'"
  using assms(1) unfolding cpu_ok_def assms(2,3) using assms(4) by blast

lemma pid_ok_cong:
  assumes "pid_ok t" and "npid t' = npid t" and "length (ent t') = length (ent t)"
    and "\<And>i. i < length (ent t) \<Longrightarrow> e_state (ent t' ! i) \<noteq> UNUSED \<Longrightarrow> e_state (ent t ! i) \<noteq> UNUSED \<and> e_pid (ent t' ! i) = e_pid (ent t ! i)"
  shows "pid_ok t'"
  unfolding pid_ok_def assms(2,3)
proof (intro conjI allI impI)
  show "npid t < 2 ^ 31" using assms(1) by (simp add: pid_ok_def)
next
  fix i assume "i < length (ent t)" "e_state (ent t' ! i) \<noteq> UNUSED"
  then show "e_pid (ent t' ! i) < npid t" using assms(1) assms(4) [of i] by (auto simp: pid_ok_def)
next
  fix i j assume "i < length (ent t)" "j < length (ent t)" "e_state (ent t' ! i) \<noteq> UNUSED" "e_state (ent t' ! j) \<noteq> UNUSED"
    "e_pid (ent t' ! i) = e_pid (ent t' ! j)"
  then show "i = j" using assms(1) assms(4) [of i] assms(4) [of j] unfolding pid_ok_def by metis
qed

lemma family_okD:
  assumes "family_ok t" and "i < length (ent t)" and "e_parent (ent t ! i) = Some p"
  shows "e_state (ent t ! i) \<noteq> UNUSED" "p < length (ent t)" "p \<noteq> i" "alive (ent t ! p)"
  using assms unfolding family_ok_def by blast+

lemma family_ok_ini:
  assumes "family_ok t" and "ini t = Some p"
  shows "p < length (ent t)" "alive (ent t ! p)" "e_parent (ent t ! p) = None"
  using assms unfolding family_ok_def by blast+

lemma family_ok_cong:
  assumes "family_ok t" and "ini t' = ini t" and "length (ent t') = length (ent t)"
    and "\<And>i. i < length (ent t) \<Longrightarrow> e_parent (ent t' ! i) = e_parent (ent t ! i)"
    and "\<And>i. i < length (ent t) \<Longrightarrow> e_state (ent t' ! i) = UNUSED \<longleftrightarrow> e_state (ent t ! i) = UNUSED"
    and "\<And>i. i < length (ent t) \<Longrightarrow> alive (ent t' ! i) = alive (ent t ! i)"
  shows "family_ok t'"
  unfolding family_ok_def assms(2,3)
proof (intro conjI allI impI)
  fix i p assume i: "i < length (ent t)" "e_parent (ent t' ! i) = Some p"
  then have p: "e_parent (ent t ! i) = Some p" using assms(4) by simp
  note d = family_okD [OF assms(1) i(1) p]
  show "e_state (ent t' ! i) \<noteq> UNUSED" "p < length (ent t)" "p \<noteq> i" "alive (ent t' ! p)"
    using d assms(5) [OF i(1)] assms(6) [OF d(2)] by simp_all
next
  fix p assume p: "ini t = Some p"
  note d = family_ok_ini [OF assms(1) p]
  show "p < length (ent t)" "alive (ent t' ! p)" "e_parent (ent t' ! p) = None"
    using d assms(4) [OF d(1)] assms(6) [OF d(1)] by simp_all
qed

lemma wait_ok_cong:
  assumes "wait_ok t" and "length (ent t') = length (ent t)"
    and "\<And>i. i < length (ent t) \<Longrightarrow> e_parent (ent t' ! i) = e_parent (ent t ! i)"
    and "\<And>i. i < length (ent t) \<Longrightarrow> e_state (ent t' ! i) = ZOMBIE \<Longrightarrow> e_state (ent t ! i) = ZOMBIE"
    and "\<And>i. i < length (ent t) \<Longrightarrow> e_state (ent t' ! i) = SLEEPING \<Longrightarrow> e_chan (ent t' ! i) = On_proc i \<Longrightarrow>
           e_state (ent t ! i) = SLEEPING \<and> e_chan (ent t ! i) = On_proc i"
  shows "wait_ok t'"
  unfolding wait_ok_def assms(2)
proof (intro allI impI)
  fix p i assume p: "p < length (ent t)" "i < length (ent t)" "e_state (ent t' ! p) = SLEEPING"
    "e_chan (ent t' ! p) = On_proc p" "e_parent (ent t' ! i) = Some p"
  then have "e_state (ent t ! i) \<noteq> ZOMBIE"
    using assms(1) assms(5) [OF p(1,3,4)] assms(3) [OF p(2)] unfolding wait_ok_def by simp
  then show "e_state (ent t' ! i) \<noteq> ZOMBIE" using assms(4) [OF p(2)] by blast
qed

section \<open>Abstract operations\<close>

text \<open>\<open>wakeup\<close> by the process \<open>me\<close>, which it skips.\<close>

definition wake1 :: "nat option \<Rightarrow> wait_chan \<Rightarrow> nat \<Rightarrow> entry \<Rightarrow> entry" where
  "wake1 me c i e = (if Some i \<noteq> me \<and> e_state e = SLEEPING \<and> e_chan e = c then e\<lparr>e_state := RUNNABLE\<rparr> else e)"

definition a_wakeup :: "nat option \<Rightarrow> wait_chan \<Rightarrow> ptab \<Rightarrow> ptab" where
  "a_wakeup me c t = t\<lparr>ent := map (\<lambda>i. wake1 me c i (ent t ! i)) [0..<length (ent t)]\<rparr>"

lemma wake1_simps [simp]:
  "e_chan (wake1 me c i e) = e_chan e" "e_pid (wake1 me c i e) = e_pid e" "e_parent (wake1 me c i e) = e_parent e"
  "e_state (wake1 me c i e) = ZOMBIE \<longleftrightarrow> e_state e = ZOMBIE" "e_state (wake1 me c i e) = UNUSED \<longleftrightarrow> e_state e = UNUSED"
  "e_state (wake1 me c i e) = RUNNING \<longleftrightarrow> e_state e = RUNNING" "alive (wake1 me c i e) = alive e"
  by (auto simp: wake1_def alive_def)

lemma wake1_sleeping: "e_state (wake1 me c i e) = SLEEPING \<Longrightarrow> e_state e = SLEEPING \<and> (Some i = me \<or> e_chan e \<noteq> c)"
  by (auto simp: wake1_def split: if_splits)

lemma a_wakeup_simps [simp]:
  "length (ent (a_wakeup me c t)) = length (ent t)" "onc (a_wakeup me c t) = onc t" "npid (a_wakeup me c t) = npid t"
  "ini (a_wakeup me c t) = ini t" "i < length (ent t) \<Longrightarrow> ent (a_wakeup me c t) ! i = wake1 me c i (ent t ! i)"
  by (simp_all add: a_wakeup_def)

lemma a_wakeup_keeps:
  shows "cpu_ok t \<Longrightarrow> cpu_ok (a_wakeup me c t)" and "pid_ok t \<Longrightarrow> pid_ok (a_wakeup me c t)"
    and "family_ok t \<Longrightarrow> family_ok (a_wakeup me c t)" and "wait_ok t \<Longrightarrow> wait_ok (a_wakeup me c t)"
proof -
  assume "cpu_ok t"
  then show "cpu_ok (a_wakeup me c t)" by (rule cpu_ok_cong) simp_all
next
  assume "pid_ok t"
  then show "pid_ok (a_wakeup me c t)" by (rule pid_ok_cong) simp_all
next
  assume "family_ok t"
  then show "family_ok (a_wakeup me c t)" by (rule family_ok_cong) simp_all
next
  assume "wait_ok t"
  then show "wait_ok (a_wakeup me c t)" by (rule wait_ok_cong) (auto dest: wake1_sleeping)
qed

lemma a_wakeup_inv: "ptab_inv t \<Longrightarrow> ptab_inv (a_wakeup me c t)"
  unfolding ptab_inv_def using a_wakeup_keeps by blast

lemma ptab_wakeup [simp]: "ptab_of (wakeup c s) = a_wakeup (myproc s) c (ptab_of s)"
  by (auto simp: ptab_of_def a_wakeup_def wakeup_def wake1_def Let_def entry_of_def)

text \<open>The process on the CPU \<open>h\<close> gives it up, with a new state and channel.\<close>

definition a_off :: "nat \<Rightarrow> nat \<Rightarrow> procstate \<Rightarrow> wait_chan \<Rightarrow> ptab \<Rightarrow> ptab" where
  "a_off h i st c t = t\<lparr>ent := (ent t)[i := (ent t ! i)\<lparr>e_state := st, e_chan := c\<rparr>], onc := (onc t)[h := None]\<rparr>"

lemma cpu_okD:
  assumes "cpu_ok t" and "h < length (onc t)" and "onc t ! h = Some i"
  shows "i < length (ent t)" "e_state (ent t ! i) = RUNNING"
    and "k < length (onc t) \<Longrightarrow> onc t ! k = Some i \<Longrightarrow> k = h"
proof -
  show "i < length (ent t)" "e_state (ent t ! i) = RUNNING" using assms unfolding cpu_ok_def by blast+
  assume k: "k < length (onc t)" "onc t ! k = Some i"
  have "onc t ! h \<noteq> None" "onc t ! h = onc t ! k" using k assms(3) by simp_all
  then show "k = h" using assms(1,2) k(1) unfolding cpu_ok_def by blast
qed

lemma cpu_ok_running:
  "cpu_ok t \<Longrightarrow> i < length (ent t) \<Longrightarrow> e_state (ent t ! i) = RUNNING \<Longrightarrow> \<exists>h < length (onc t). onc t ! h = Some i"
  unfolding cpu_ok_def by (metis in_set_conv_nth)

lemma a_off_cpu:
  assumes ok: "cpu_ok t" and h: "h < length (onc t)" "onc t ! h = Some i" and st: "st \<noteq> RUNNING"
  shows "cpu_ok (a_off h i st c t)"
proof -
  let ?t = "a_off h i st c t"
  note hi = cpu_okD [OF ok h]
  have len: "length (onc ?t) = length (onc t)" "length (ent ?t) = length (ent t)" by (simp_all add: a_off_def)
  have onc: "onc ?t ! k = (if k = h then None else onc t ! k)" if "k < length (onc t)" for k
    using that by (simp add: a_off_def nth_list_update)
  have ent: "e_state (ent ?t ! j) = (if j = i then st else e_state (ent t ! j))" if "j < length (ent t)" for j
    using that by (simp add: a_off_def nth_list_update)
  show ?thesis
    unfolding cpu_ok_def len
  proof (intro conjI allI impI)
    fix k j assume k: "k < length (onc t)" "onc ?t ! k = Some j"
    then have kj: "k \<noteq> h" "onc t ! k = Some j" using onc by (auto split: if_splits)
    then have "j \<noteq> i" using hi(3) k(1) by blast
    moreover note cpu_okD(1,2) [OF ok k(1) kj(2)]
    ultimately show "j < length (ent t)" "e_state (ent ?t ! j) = RUNNING" using ent by simp_all
  next
    fix k l assume k: "k < length (onc t)" "l < length (onc t)" "onc ?t ! k \<noteq> None" "onc ?t ! k = onc ?t ! l"
    then have "onc t ! k \<noteq> None" "onc t ! k = onc t ! l" using onc by (auto split: if_splits)
    then show "k = l" using ok k(1,2) unfolding cpu_ok_def by blast
  next
    fix j assume j: "j < length (ent t)" "e_state (ent ?t ! j) = RUNNING"
    then have "j \<noteq> i" "e_state (ent t ! j) = RUNNING" using ent st by (auto split: if_splits)
    then obtain k where "k < length (onc t)" "onc t ! k = Some j" using cpu_ok_running [OF ok j(1)] by blast
    moreover from this have "k \<noteq> h" using h(2) \<open>j \<noteq> i\<close> by auto
    ultimately show "Some j \<in> set (onc ?t)" using onc len by (metis nth_mem)
  qed
qed

text \<open>What may happen to the process on a CPU: \<open>leave_ok\<close> is what the other processes need of it.\<close>

definition leave_ok :: "ptab \<Rightarrow> nat \<Rightarrow> procstate \<Rightarrow> wait_chan \<Rightarrow> bool" where
  "leave_ok t i st c \<longleftrightarrow> st \<in> {RUNNABLE, SLEEPING, ZOMBIE} \<and>
     (st = SLEEPING \<and> c = On_proc i \<longrightarrow>
        (\<forall>k < length (ent t). e_parent (ent t ! k) = Some i \<longrightarrow> e_state (ent t ! k) \<noteq> ZOMBIE)) \<and>
     (st = ZOMBIE \<longrightarrow> ini t \<noteq> Some i \<and> (\<forall>k < length (ent t). e_parent (ent t ! k) \<noteq> Some i) \<and>
        (\<forall>p. e_parent (ent t ! i) = Some p \<longrightarrow> \<not> (e_state (ent t ! p) = SLEEPING \<and> e_chan (ent t ! p) = On_proc p)))"

lemma a_off_inv:
  assumes inv: "ptab_inv t" and h: "h < length (onc t)" "onc t ! h = Some i" and lv: "leave_ok t i st c"
  shows "ptab_inv (a_off h i st c t)"
proof -
  let ?t = "a_off h i st c t"
  have ok: "cpu_ok t" "pid_ok t" "family_ok t" "wait_ok t" using inv by (auto simp: ptab_inv_def)
  note hi = cpu_okD(1,2) [OF ok(1) h]
  have st: "st \<noteq> RUNNING" "st \<noteq> UNUSED" using lv by (auto simp: leave_ok_def)
  have ent: "ent ?t ! j = (if j = i then (ent t ! i)\<lparr>e_state := st, e_chan := c\<rparr> else ent t ! j)" if "j < length (ent t)" for j
    using that by (simp add: a_off_def nth_list_update)
  have len: "length (ent ?t) = length (ent t)" "npid ?t = npid t" "ini ?t = ini t" by (simp_all add: a_off_def)
  have "cpu_ok ?t" by (rule a_off_cpu [OF ok(1) h st(1)])
  moreover have "pid_ok ?t" by (rule pid_ok_cong [OF ok(2) len(2,1)]) (use ent hi in \<open>auto split: if_splits\<close>)
  moreover have "family_ok ?t"
    unfolding family_ok_def len
  proof (intro conjI allI impI)
    fix j p assume j: "j < length (ent t)" "e_parent (ent ?t ! j) = Some p"
    then have jp: "e_parent (ent t ! j) = Some p" using ent by (auto split: if_splits)
    note d = family_okD [OF ok(3) j(1) jp]
    show "e_state (ent ?t ! j) \<noteq> UNUSED" "p < length (ent t)" "p \<noteq> j" using d ent [OF j(1)] st by auto
    have "st \<noteq> ZOMBIE" if "p = i" using lv jp j(1) that by (auto simp: leave_ok_def)
    then show "alive (ent ?t ! p)" using d ent [OF d(2)] st by (auto simp: alive_def)
  next
    fix p assume p: "ini t = Some p"
    note d = family_ok_ini [OF ok(3) p]
    show "p < length (ent t)" "e_parent (ent ?t ! p) = None" using d ent [OF d(1)] by auto
    have "st \<noteq> ZOMBIE" if "p = i" using lv p that by (auto simp: leave_ok_def)
    then show "alive (ent ?t ! p)" using d ent [OF d(1)] st by (auto simp: alive_def)
  qed
  moreover have "wait_ok ?t"
    unfolding wait_ok_def len
  proof (intro allI impI)
    fix p k assume a: "p < length (ent t)" "k < length (ent t)" "e_state (ent ?t ! p) = SLEEPING"
      "e_chan (ent ?t ! p) = On_proc p" "e_parent (ent ?t ! k) = Some p"
    then have kp: "e_parent (ent t ! k) = Some p" using ent by (auto split: if_splits)
    have pk: "p \<noteq> k" using family_okD(3) [OF ok(3) a(2) kp] .
    show "e_state (ent ?t ! k) \<noteq> ZOMBIE"
    proof (cases "p = i")
      case True
      then show ?thesis using a ent [OF a(1)] ent [OF a(2)] lv kp pk by (auto simp: leave_ok_def)
    next
      case False
      then have s: "e_state (ent t ! p) = SLEEPING" "e_chan (ent t ! p) = On_proc p" using a(3,4) ent [OF a(1)] by auto
      then have "e_state (ent t ! k) \<noteq> ZOMBIE" using ok(4) a(1,2) kp unfolding wait_ok_def by blast
      moreover have "st \<noteq> ZOMBIE" if "k = i" using lv kp s that by (auto simp: leave_ok_def)
      ultimately show ?thesis using ent [OF a(2)] by auto
    qed
  qed
  ultimately show ?thesis by (simp add: ptab_inv_def)
qed

text \<open>The scheduler puts a runnable process on an idle CPU.\<close>

definition a_on :: "nat \<Rightarrow> nat \<Rightarrow> ptab \<Rightarrow> ptab" where
  "a_on h i t = t\<lparr>ent := (ent t)[i := (ent t ! i)\<lparr>e_state := RUNNING\<rparr>], onc := (onc t)[h := Some i]\<rparr>"

lemma a_on_inv:
  assumes inv: "ptab_inv t" and h: "h < length (onc t)" "onc t ! h = None" and i: "i < length (ent t)" "e_state (ent t ! i) = RUNNABLE"
  shows "ptab_inv (a_on h i t)"
proof -
  let ?t = "a_on h i t"
  have ok: "cpu_ok t" "pid_ok t" "family_ok t" "wait_ok t" using inv by (auto simp: ptab_inv_def)
  have len: "length (onc ?t) = length (onc t)" "length (ent ?t) = length (ent t)" "npid ?t = npid t" "ini ?t = ini t"
    by (simp_all add: a_on_def)
  have onc: "onc ?t ! k = (if k = h then Some i else onc t ! k)" if "k < length (onc t)" for k
    using that by (simp add: a_on_def nth_list_update)
  have ent: "ent ?t ! j = (if j = i then (ent t ! i)\<lparr>e_state := RUNNING\<rparr> else ent t ! j)" if "j < length (ent t)" for j
    using that by (simp add: a_on_def nth_list_update)
  have fresh: "onc t ! k \<noteq> Some i" if "k < length (onc t)" for k
    using cpu_okD(2) [OF ok(1) that] i(2) by fastforce
  have "cpu_ok ?t"
    unfolding cpu_ok_def len
  proof (intro conjI allI impI)
    fix k j assume k: "k < length (onc t)" "onc ?t ! k = Some j"
    show "j < length (ent t)"
      using k onc i(1) cpu_okD(1) [OF ok(1) k(1)] by (auto split: if_splits)
    then show "e_state (ent ?t ! j) = RUNNING"
      using k onc ent cpu_okD(2) [OF ok(1) k(1)] by (auto split: if_splits)
  next
    fix k l assume k: "k < length (onc t)" "l < length (onc t)" "onc ?t ! k \<noteq> None" "onc ?t ! k = onc ?t ! l"
    show "k = l"
    proof (cases "k = h \<or> l = h")
      case True
      then show ?thesis using k onc [OF k(1)] onc [OF k(2)] fresh [OF k(1)] fresh [OF k(2)] by (auto split: if_splits)
    next
      case False
      then have "onc t ! k \<noteq> None" "onc t ! k = onc t ! l" using k onc by (auto split: if_splits)
      then show ?thesis using ok(1) k(1,2) unfolding cpu_ok_def by blast
    qed
  next
    fix j assume j: "j < length (ent t)" "e_state (ent ?t ! j) = RUNNING"
    show "Some j \<in> set (onc ?t)"
    proof (cases "j = i")
      case True
      then show ?thesis using onc [OF h(1)] h(1) len(1) by (metis nth_mem)
    next
      case False
      then have "e_state (ent t ! j) = RUNNING" using j ent by simp
      then obtain k where k: "k < length (onc t)" "onc t ! k = Some j" using cpu_ok_running [OF ok(1) j(1)] by blast
      moreover from this have "k \<noteq> h" using h(2) by auto
      ultimately show ?thesis using onc [OF k(1)] len(1) by (metis nth_mem)
    qed
  qed
  moreover have "pid_ok ?t" by (rule pid_ok_cong [OF ok(2) len(3,2)]) (use ent i in \<open>auto split: if_splits\<close>)
  moreover have "family_ok ?t"
    by (rule family_ok_cong [OF ok(3) len(4,2)]) (use ent i in \<open>auto simp: alive_def split: if_splits\<close>)
  moreover have "wait_ok ?t"
    by (rule wait_ok_cong [OF ok(4) len(2)]) (use ent in \<open>auto split: if_splits\<close>)
  ultimately show ?thesis by (simp add: ptab_inv_def)
qed


text \<open>A single entry that is not scheduled at the moment changes; \<open>fits\<close> is what the table asks of the new one.\<close>

definition a_set :: "nat \<Rightarrow> entry \<Rightarrow> ptab \<Rightarrow> ptab" where
  "a_set i e t = t\<lparr>ent := (ent t)[i := e]\<rparr>"

definition fits :: "ptab \<Rightarrow> nat \<Rightarrow> entry \<Rightarrow> bool" where
  "fits t i e \<longleftrightarrow> i < length (ent t) \<and> (e_state e = RUNNING \<longleftrightarrow> e_state (ent t ! i) = RUNNING) \<and>
     (e_state e \<noteq> UNUSED \<longrightarrow> e_pid e < npid t \<and>
        (\<forall>j < length (ent t). j \<noteq> i \<longrightarrow> e_state (ent t ! j) \<noteq> UNUSED \<longrightarrow> e_pid (ent t ! j) \<noteq> e_pid e)) \<and>
     (\<forall>p. e_parent e = Some p \<longrightarrow> e_state e \<noteq> UNUSED \<and> p < length (ent t) \<and> p \<noteq> i \<and> alive (ent t ! p)) \<and>
     (\<not> alive e \<longrightarrow> (\<forall>k < length (ent t). e_parent (ent t ! k) \<noteq> Some i)) \<and>
     (ini t = Some i \<longrightarrow> alive e \<and> e_parent e = None) \<and>
     (e_state e = SLEEPING \<and> e_chan e = On_proc i \<longrightarrow>
        (\<forall>k < length (ent t). e_parent (ent t ! k) = Some i \<longrightarrow> e_state (ent t ! k) \<noteq> ZOMBIE)) \<and>
     (\<forall>p. e_state e = ZOMBIE \<longrightarrow> e_parent e = Some p \<longrightarrow> \<not> (e_state (ent t ! p) = SLEEPING \<and> e_chan (ent t ! p) = On_proc p))"

lemma a_set_simps [simp]:
  "length (ent (a_set i e t)) = length (ent t)" "onc (a_set i e t) = onc t" "npid (a_set i e t) = npid t"
  "ini (a_set i e t) = ini t" "j < length (ent t) \<Longrightarrow> ent (a_set i e t) ! j = (if j = i then e else ent t ! j)"
  by (simp_all add: a_set_def nth_list_update)

lemma a_set_family:
  assumes ok: "family_ok t" and f: "fits t i e"
  shows "family_ok (a_set i e t)"
  unfolding family_ok_def a_set_simps
proof (intro conjI allI impI)
  fix j p assume j: "j < length (ent t)" "e_parent (ent (a_set i e t) ! j) = Some p"
  have "e_state (if j = i then e else ent t ! j) \<noteq> UNUSED \<and> p < length (ent t) \<and> p \<noteq> j \<and>
    alive (if p = i then e else ent t ! p)"
  proof (cases "j = i")
    case True
    then show ?thesis using f j by (auto simp: fits_def)
  next
    case False
    then have jp: "e_parent (ent t ! j) = Some p" using j by simp
    have "alive e" if "p = i" using f jp j(1) that unfolding fits_def by blast
    then show ?thesis using False family_okD [OF ok j(1) jp] by simp
  qed
  then show "e_state (ent (a_set i e t) ! j) \<noteq> UNUSED" "p < length (ent t)" "p \<noteq> j"
    "alive (ent (a_set i e t) ! p)" using j(1) by simp_all
next
  fix p assume p: "ini t = Some p"
  note d = family_ok_ini [OF ok p]
  have "alive e \<and> e_parent e = None" if "p = i" using f p that by (simp add: fits_def)
  then show "p < length (ent t)" "alive (ent (a_set i e t) ! p)" "e_parent (ent (a_set i e t) ! p) = None" using d by simp_all
qed

lemma a_set_wait:
  assumes ok: "wait_ok t" and f: "fits t i e" and fam: "family_ok t"
  shows "wait_ok (a_set i e t)"
  unfolding wait_ok_def a_set_simps
proof (intro allI impI)
  fix p k assume a: "p < length (ent t)" "k < length (ent t)" "e_state (ent (a_set i e t) ! p) = SLEEPING"
    "e_chan (ent (a_set i e t) ! p) = On_proc p" "e_parent (ent (a_set i e t) ! k) = Some p"
  consider "k = i" "p \<noteq> i" | "k \<noteq> i" "p = i" | "k \<noteq> i" "p \<noteq> i" | "k = i" "p = i" by blast
  then show "e_state (ent (a_set i e t) ! k) \<noteq> ZOMBIE"
  proof cases
    case 1
    then have "e_parent e = Some p" "e_state (ent t ! p) = SLEEPING" "e_chan (ent t ! p) = On_proc p" using a by simp_all
    then have "e_state e \<noteq> ZOMBIE" using f unfolding fits_def by blast
    then show ?thesis using 1 a by simp
  next
    case 2
    then have "e_state e = SLEEPING" "e_chan e = On_proc i" "e_parent (ent t ! k) = Some i" using a by simp_all
    then have "e_state (ent t ! k) \<noteq> ZOMBIE" using f a(2) unfolding fits_def by blast
    then show ?thesis using 2 a by simp
  next
    case 3
    then have "e_state (ent t ! k) \<noteq> ZOMBIE" using ok a unfolding wait_ok_def by simp
    then show ?thesis using 3 a by simp
  next
    case 4
    then have "e_parent e = Some i" using a by simp
    then have False using f unfolding fits_def by blast
    then show ?thesis ..
  qed
qed

lemma a_set_inv:
  assumes inv: "ptab_inv t" and f: "fits t i e"
  shows "ptab_inv (a_set i e t)"
proof -
  have ok: "cpu_ok t" "pid_ok t" "family_ok t" "wait_ok t" using inv by (auto simp: ptab_inv_def)
  have "cpu_ok (a_set i e t)" by (rule cpu_ok_cong [OF ok(1)]) (use f in \<open>auto simp: fits_def\<close>)
  moreover have "pid_ok (a_set i e t)"
    unfolding pid_ok_def a_set_simps
  proof (intro conjI allI impI)
    show "npid t < 2 ^ 31" using ok(2) by (simp add: pid_ok_def)
  next
    fix j assume j: "j < length (ent t)" "e_state (ent (a_set i e t) ! j) \<noteq> UNUSED"
    then show "e_pid (ent (a_set i e t) ! j) < npid t" using ok(2) f by (auto simp: pid_ok_def fits_def split: if_splits)
  next
    fix j k assume j: "j < length (ent t)" "k < length (ent t)" "e_state (ent (a_set i e t) ! j) \<noteq> UNUSED"
      "e_state (ent (a_set i e t) ! k) \<noteq> UNUSED" "e_pid (ent (a_set i e t) ! j) = e_pid (ent (a_set i e t) ! k)"
    consider "j = i" "k = i" | "j = i" "k \<noteq> i" | "j \<noteq> i" "k = i" | "j \<noteq> i" "k \<noteq> i" by blast
    then show "j = k"
    proof cases
      case 4
      then show ?thesis using j ok(2) unfolding pid_ok_def by simp
    qed (use j f in \<open>auto simp: fits_def\<close>)
  qed
  ultimately show ?thesis using a_set_family [OF ok(3) f] a_set_wait [OF ok(4) f ok(3)] by (simp add: ptab_inv_def)
qed

text \<open>The cases that occur: \<open>kill\<close> wakes, \<open>sleep\<close> clears the channel, \<open>freeproc\<close> empties, \<open>fork\<close> links.\<close>

lemma fits_same_place:
  assumes inv: "ptab_inv t" and i: "i < length (ent t)" and e: "e_pid e = e_pid (ent t ! i)" "e_parent e = e_parent (ent t ! i)"
    and st: "e_state e = e_state (ent t ! i) \<or> e_state (ent t ! i) \<in> {USED, SLEEPING, RUNNABLE} \<and> e_state e \<in> {USED, RUNNABLE}"
    and ch: "e_state e = SLEEPING \<Longrightarrow> e_chan e = e_chan (ent t ! i)"
  shows "fits t i e"
proof -
  have ok: "pid_ok t" "family_ok t" "wait_ok t" using inv by (auto simp: ptab_inv_def)
  have un: "e_state e = UNUSED \<longleftrightarrow> e_state (ent t ! i) = UNUSED" "alive e \<longleftrightarrow> alive (ent t ! i)"
    "e_state e = ZOMBIE \<longleftrightarrow> e_state (ent t ! i) = ZOMBIE" "e_state e = RUNNING \<longleftrightarrow> e_state (ent t ! i) = RUNNING"
    "e_state e = SLEEPING \<Longrightarrow> e_state (ent t ! i) = SLEEPING"
    using st by (auto simp: alive_def)
  have pid: "e_state e \<noteq> UNUSED \<longrightarrow> e_pid e < npid t \<and>
        (\<forall>j < length (ent t). j \<noteq> i \<longrightarrow> e_state (ent t ! j) \<noteq> UNUSED \<longrightarrow> e_pid (ent t ! j) \<noteq> e_pid e)"
    using ok(1) i unfolding pid_ok_def e(1) un(1) by blast
  have par: "e_state e \<noteq> UNUSED \<and> p < length (ent t) \<and> p \<noteq> i \<and> alive (ent t ! p)" if "e_parent e = Some p" for p
    using family_okD [OF ok(2) i, of p] that e(2) un(1) by simp
  have kid: "e_parent (ent t ! k) \<noteq> Some i" if "\<not> alive e" "k < length (ent t)" for k
    using family_okD(4) [OF ok(2) that(2), of i] that(1) un(2) by blast
  have ini: "alive e \<and> e_parent e = None" if "ini t = Some i"
    using family_ok_ini [OF ok(2) that] un(2) e(2) by simp
  have w1: "e_state (ent t ! k) \<noteq> ZOMBIE"
    if "e_state e = SLEEPING" "e_chan e = On_proc i" "k < length (ent t)" "e_parent (ent t ! k) = Some i" for k
    using ok(3) i that un(5) ch unfolding wait_ok_def by simp
  have w2: "\<not> (e_state (ent t ! p) = SLEEPING \<and> e_chan (ent t ! p) = On_proc p)" if "e_state e = ZOMBIE" "e_parent e = Some p" for p
    using ok(3) i that un(3) e(2) par [OF that(2)] unfolding wait_ok_def by metis
  show ?thesis unfolding fits_def using i un(4) pid par kid ini w1 w2 by blast
qed

lemma fits_free:
  assumes inv: "ptab_inv t" and i: "i < length (ent t)" "e_state (ent t ! i) \<in> {USED, ZOMBIE}"
    and e: "e_state e = UNUSED" "e_parent e = None" "ini t \<noteq> Some i"
    and kid: "\<And>k. k < length (ent t) \<Longrightarrow> e_parent (ent t ! k) \<noteq> Some i"
  shows "fits t i e"
  using assms by (auto simp: fits_def)

lemma zombie_no_child:
  assumes "ptab_inv t" and "i < length (ent t)" and "e_state (ent t ! i) = ZOMBIE \<or> e_state (ent t ! i) = UNUSED" and "k < length (ent t)"
  shows "e_parent (ent t ! k) \<noteq> Some i" and "ini t \<noteq> Some i"
proof -
  have f: "family_ok t" using assms(1) by (simp add: ptab_inv_def)
  show "e_parent (ent t ! k) \<noteq> Some i" using family_okD(4) [OF f assms(4), of i] assms(3) by (auto simp: alive_def)
  show "ini t \<noteq> Some i" using family_ok_ini(2) [OF f, of i] assms(3) by (auto simp: alive_def)
qed

lemma fits_link:
  assumes inv: "ptab_inv t" and j: "j < length (ent t)" "e_state (ent t ! j) = USED" "ini t \<noteq> Some j"
    and i: "i < length (ent t)" "i \<noteq> j" "alive (ent t ! i)"
    and e: "e_state e = RUNNABLE" "e_parent e = Some i" "e_pid e = e_pid (ent t ! j)"
  shows "fits t j e"
proof -
  have "pid_ok t" using inv by (simp add: ptab_inv_def)
  then have "e_pid e < npid t \<and> (\<forall>k < length (ent t). k \<noteq> j \<longrightarrow> e_state (ent t ! k) \<noteq> UNUSED \<longrightarrow> e_pid (ent t ! k) \<noteq> e_pid e)"
    using j(1,2) unfolding pid_ok_def e(3) by (metis procstate.distinct(1))
  moreover have "alive e" using e(1) by (simp add: alive_def)
  ultimately show ?thesis unfolding fits_def using assms by simp
qed

text \<open>\<open>allocproc\<close> takes an unused entry and the next pid.\<close>

definition a_alloc :: "nat \<Rightarrow> ptab \<Rightarrow> ptab" where
  "a_alloc i t = a_set i ((ent t ! i)\<lparr>e_state := USED, e_pid := npid t\<rparr>) (t\<lparr>npid := npid t + 1\<rparr>)"

lemma a_alloc_simps [simp]:
  "length (ent (a_alloc i t)) = length (ent t)" "onc (a_alloc i t) = onc t" "npid (a_alloc i t) = npid t + 1"
  "ini (a_alloc i t) = ini t"
  "j < length (ent t) \<Longrightarrow> ent (a_alloc i t) ! j = (if j = i then (ent t ! i)\<lparr>e_state := USED, e_pid := npid t\<rparr> else ent t ! j)"
  by (simp_all add: a_alloc_def)

lemma a_alloc_inv:
  assumes inv: "ptab_inv t" and i: "i < length (ent t)" "e_state (ent t ! i) = UNUSED" and n: "npid t + 1 < 2 ^ 31"
  shows "ptab_inv (a_alloc i t)"
proof -
  let ?t = "t\<lparr>npid := npid t + 1\<rparr>"
  have ok: "cpu_ok t" "pid_ok t" "family_ok t" "wait_ok t" using inv by (auto simp: ptab_inv_def)
  have pid: "e_pid (ent t ! j) < npid t" if "j < length (ent t)" "e_state (ent t ! j) \<noteq> UNUSED" for j
    using ok(2) that unfolding pid_ok_def by blast
  have "e_pid (ent t ! j) < npid t + 1" if "j < length (ent t)" "e_state (ent t ! j) \<noteq> UNUSED" for j
    using pid [OF that] by simp
  then have "pid_ok ?t" using ok(2) n by (simp add: pid_ok_def)
  moreover have "cpu_ok ?t" by (rule cpu_ok_cong [OF ok(1)]) simp_all
  moreover have "family_ok ?t" by (rule family_ok_cong [OF ok(3)]) simp_all
  moreover have "wait_ok ?t" by (rule wait_ok_cong [OF ok(4)]) simp_all
  ultimately have inv': "ptab_inv ?t" by (simp add: ptab_inv_def)
  have par: "e_parent (ent t ! i) = None" using family_okD(1) [OF ok(3) i(1)] i(2) by fastforce
  have ini: "ini t \<noteq> Some i" using family_ok_ini(2) [OF ok(3), of i] i(2) by (auto simp: alive_def)
  have kid: "e_parent (ent t ! k) \<noteq> Some i" if "k < length (ent t)" for k
    using zombie_no_child(1) [OF inv i(1) _ that] i(2) by simp
  have "fits ?t i ((ent t ! i)\<lparr>e_state := USED, e_pid := npid t\<rparr>)"
    unfolding fits_def using i par ini pid kid by (auto simp: alive_def dest: less_imp_neq [OF pid])
  then show ?thesis unfolding a_alloc_def by (rule a_set_inv [OF inv'])
qed

text \<open>\<open>reparent\<close> hands the children of \<open>i\<close> to the first process.\<close>

definition a_adopt :: "nat \<Rightarrow> nat \<Rightarrow> ptab \<Rightarrow> ptab" where
  "a_adopt i q t = t\<lparr>ent := map (\<lambda>e. if e_parent e = Some i then e\<lparr>e_parent := Some q\<rparr> else e) (ent t)\<rparr>"

lemma a_adopt_simps [simp]:
  "length (ent (a_adopt i q t)) = length (ent t)" "onc (a_adopt i q t) = onc t" "npid (a_adopt i q t) = npid t"
  "ini (a_adopt i q t) = ini t"
  "j < length (ent t) \<Longrightarrow> ent (a_adopt i q t) ! j = (if e_parent (ent t ! j) = Some i then (ent t ! j)\<lparr>e_parent := Some q\<rparr> else ent t ! j)"
  by (simp_all add: a_adopt_def)

text \<open>The wakeup that follows is needed: the first process may be asleep in \<open>wait\<close> and now have an exited child.\<close>

lemma a_adopt_inv:
  assumes inv: "ptab_inv t" and q: "ini t = Some q" "q \<noteq> i" "me \<noteq> Some q"
  shows "ptab_inv (a_wakeup me (On_proc q) (a_adopt i q t))"
proof -
  let ?u = "a_adopt i q t" and ?w = "a_wakeup me (On_proc q) (a_adopt i q t)"
  have ok: "cpu_ok t" "pid_ok t" "family_ok t" "wait_ok t" using inv by (auto simp: ptab_inv_def)
  have st: "e_state (ent ?u ! j) = e_state (ent t ! j)" "e_pid (ent ?u ! j) = e_pid (ent t ! j)"
    "e_chan (ent ?u ! j) = e_chan (ent t ! j)" "alive (ent ?u ! j) = alive (ent t ! j)" if "j < length (ent t)" for j
    using that by (simp_all add: alive_def)
  note iq = family_ok_ini [OF ok(3) q(1)]
  have "family_ok ?u"
    unfolding family_ok_def a_adopt_simps
  proof (intro conjI allI impI)
    fix j p assume j: "j < length (ent t)" "e_parent (ent ?u ! j) = Some p"
    have "e_state (ent t ! j) \<noteq> UNUSED \<and> p < length (ent t) \<and> p \<noteq> j \<and> alive (ent t ! p)"
    proof (cases "e_parent (ent t ! j) = Some i")
      case True
      then have "p = q" "q \<noteq> j" using j iq(3) by auto
      then show ?thesis using family_okD(1) [OF ok(3) j(1) True] iq by simp
    next
      case False
      then have "e_parent (ent t ! j) = Some p" using j by simp
      then show ?thesis using family_okD [OF ok(3) j(1)] by simp
    qed
    then show "e_state (ent ?u ! j) \<noteq> UNUSED" "p < length (ent t)" "p \<noteq> j" "alive (ent ?u ! p)" using st j(1) by auto
  next
    fix p assume "ini t = Some p"
    then have "p = q" using q by simp
    then show "p < length (ent t)" "alive (ent ?u ! p)" "e_parent (ent ?u ! p) = None" using iq st(4) by auto
  qed
  moreover have "cpu_ok ?u" by (rule cpu_ok_cong [OF ok(1)]) (simp_all add: st)
  moreover have "pid_ok ?u" by (rule pid_ok_cong [OF ok(2)]) (auto simp: st split: if_splits)
  ultimately have "cpu_ok ?w \<and> pid_ok ?w \<and> family_ok ?w" by (intro conjI a_wakeup_keeps)
  moreover have "wait_ok ?w"
    unfolding wait_ok_def a_wakeup_simps a_adopt_simps
  proof (intro allI impI)
    fix p k assume a: "p < length (ent t)" "k < length (ent t)" "e_state (ent ?w ! p) = SLEEPING"
      "e_chan (ent ?w ! p) = On_proc p" "e_parent (ent ?w ! k) = Some p"
    then have s: "e_state (ent t ! p) = SLEEPING" "e_chan (ent t ! p) = On_proc p" "p \<noteq> q"
      using wake1_sleeping [of me "On_proc q" p "ent ?u ! p"] st [of p] q(3) by auto
    then have "e_parent (ent t ! k) = Some p" using a by (auto split: if_splits)
    then have "e_state (ent t ! k) \<noteq> ZOMBIE" using ok(4) s a(1,2) unfolding wait_ok_def by blast
    then show "e_state (ent ?w ! k) \<noteq> ZOMBIE" using st a by simp
  qed
  ultimately show ?thesis by (simp add: ptab_inv_def)
qed

end
