(* ===== verification/Proc_Steps.thy ===== *)
theory Proc_Steps
  imports Proc_Table
begin

text \<open>
  The operations of kernel/proc.c against the abstract process table: what each does to it, and the
  step relation of a kernel whose processes fork, exit, wait, sleep, wake and kill one another on several
  CPUs. Every state such a kernel reaches satisfies the table invariant.
\<close>

section \<open>Operations that do not touch the table, or only wake\<close>

definition quiet :: "'a proc_state_scheme \<Rightarrow> 'a proc_state_scheme \<Rightarrow> bool" where
  "quiet s s' \<longleftrightarrow> cpus s' = cpus s \<and> hart s' = hart s \<and> ptab_of s' = ptab_of s"

definition wakes :: "'a proc_state_scheme \<Rightarrow> 'a proc_state_scheme \<Rightarrow> bool" where
  "wakes s s' \<longleftrightarrow> cpus s' = cpus s \<and> hart s' = hart s \<and>
     (\<exists>cs. ptab_of s' = fold (a_wakeup (myproc s)) cs (ptab_of s))"

lemma myproc_cong: "cpus s' = cpus s \<Longrightarrow> hart s' = hart s \<Longrightarrow> myproc s' = myproc s"
  by (simp add: myproc_def)

lemma quiet_trans: "quiet s t \<Longrightarrow> quiet t u \<Longrightarrow> quiet s u"
  by (simp add: quiet_def)

lemma quiet_refl [simp]: "quiet s s"
  by (simp add: quiet_def)

lemma quiet_more: "cow_state.more s' = cow_state.more s \<Longrightarrow> quiet s s'"
  by (cases s; cases s') (simp add: quiet_def ptab_of_def)

lemma quiet_kmem: "kmem_state.more s' = kmem_state.more s \<Longrightarrow> quiet s s'"
  by (rule quiet_more [OF cow_more])

lemma quiet_upd: "(\<And>p. entry_of (f p) = entry_of p) \<Longrightarrow> quiet s (upd_proc i f s)"
  by (simp add: quiet_def ptab_of_upd_same del: ptab_of_upd)

lemma quiet_tables [simp]:
  "quiet s (s\<lparr>mem := m\<rparr>)" "quiet s (s\<lparr>cow_groups := g\<rparr>)" "quiet s (sync_group s)"
  by (simp_all add: quiet_def ptab_of_def sync_group_def split: option.split)

lemma quiet_kernel [simp]:
  "quiet s (s\<lparr>fsys := t\<rparr>)" "quiet s (s\<lparr>ftable := t2\<rparr>)" "quiet s (s\<lparr>pipes := t3\<rparr>)" "quiet s (s\<lparr>psa_tracker := t4\<rparr>)"
  "quiet s (upd_file i f s)"
  by (simp_all add: quiet_def ptab_of_def upd_file_def)

lemma quiet_set_tf [simp]: "quiet s (set_tf i f v s)"
  by (simp add: set_tf_def)

lemma quiet_wakes: "quiet s s' \<Longrightarrow> wakes s s'"
  unfolding quiet_def wakes_def by (metis fold_simps(1))

lemma wakes_trans:
  assumes "wakes s t" and "wakes t u"
  shows "wakes s u"
proof -
  obtain cs ds where "ptab_of t = fold (a_wakeup (myproc s)) cs (ptab_of s)" "ptab_of u = fold (a_wakeup (myproc t)) ds (ptab_of t)"
    using assms unfolding wakes_def by blast
  moreover have "myproc t = myproc s" using assms(1) by (simp add: wakes_def myproc_def)
  ultimately have "ptab_of u = fold (a_wakeup (myproc s)) (cs @ ds) (ptab_of s)" by simp
  then have "\<exists>cs. ptab_of u = fold (a_wakeup (myproc s)) cs (ptab_of s)" by blast
  moreover have "cpus u = cpus s" "hart u = hart s" using assms by (simp_all add: wakes_def)
  ultimately show ?thesis by (simp add: wakes_def)
qed

lemma wakes_quiet: "wakes s t \<Longrightarrow> quiet t u \<Longrightarrow> wakes s u"
  by (rule wakes_trans [OF _ quiet_wakes])

lemma quiet_then_wakes: "quiet s t \<Longrightarrow> wakes t u \<Longrightarrow> wakes s u"
  by (rule wakes_trans [OF quiet_wakes])

lemma wakes_wakeup [simp]: "wakes s (wakeup c s)"
  unfolding wakes_def by (auto intro!: exI [of _ "[c]"])

lemma fold_wakeup_inv: "ptab_inv t \<Longrightarrow> ptab_inv (fold (a_wakeup me) cs t)"
  by (induction cs arbitrary: t) (simp_all add: a_wakeup_inv)

lemma fold_wakeup_simps:
  "length (ent (fold (a_wakeup me) cs t)) = length (ent t)" "onc (fold (a_wakeup me) cs t) = onc t"
  "ini (fold (a_wakeup me) cs t) = ini t"
  by (induction cs arbitrary: t) simp_all

lemma wakes_inv: "wakes s s' \<Longrightarrow> ptab_inv (ptab_of s) \<Longrightarrow> ptab_inv (ptab_of s')"
  by (auto simp: wakes_def fold_wakeup_inv)

lemma wakes_simps:
  assumes "wakes s s'"
  shows "length (procs s') = length (procs s)" "cpus s' = cpus s" "hart s' = hart s" "initproc s' = initproc s"
proof -
  obtain cs where c: "ptab_of s' = fold (a_wakeup (myproc s)) cs (ptab_of s)" using assms unfolding wakes_def by blast
  have "length (ent (ptab_of s')) = length (ent (ptab_of s))" unfolding c fold_wakeup_simps ..
  then show "length (procs s') = length (procs s)" by (simp add: ptab_of_ent)
  have "ini (ptab_of s') = ini (ptab_of s)" unfolding c fold_wakeup_simps ..
  then show "initproc s' = initproc s" by (simp add: ptab_of_ent)
  show "cpus s' = cpus s" "hart s' = hart s" using assms by (simp_all add: wakes_def)
qed

lemma copyout_quiet: "copyout_bytes pt va bs s = (r, s') \<Longrightarrow> quiet s s'"
  using copyout_bytes_more [of pt va bs s] by (intro quiet_kmem) simp

lemma fs_run_quiet: "fs_run f s = Some s' \<Longrightarrow> quiet s s'"
  by (auto simp: fs_run_def monad_simps)

lemma fs_get_quiet: "fs_get f s = Some (r, s') \<Longrightarrow> quiet s s'"
  by (auto simp: fs_get_def monad_simps)

lemma filedup_quiet: "filedup f s = Some s' \<Longrightarrow> quiet s s'"
  by (auto simp: filedup_def split: if_splits)

lemma dup_files_quiet: "dup_files fs s = Some s' \<Longrightarrow> quiet s s'"
proof (induction fs arbitrary: s)
  case Nil
  then show ?case by simp
next
  case (Cons f fs)
  then show ?case using filedup_quiet quiet_trans by (auto simp: monad_simps split: option.splits) blast
qed

lemma pipeclose_wakes:
  assumes "pipeclose pi w s = Some s'"
  shows "wakes s s'"
proof -
  obtain q c t where t: "t = wakeup c (s\<lparr>pipes := q\<rparr>)"
    and s': "s' = t \<or> (\<exists>q'. kfree pi (t\<lparr>pipes := q'\<rparr>) = Some s')"
    using assms by (auto simp: pipeclose_def Let_def monad_simps split: if_splits)
  have st: "wakes s t" unfolding t by (rule wakes_trans [OF quiet_wakes wakes_wakeup]) simp
  show ?thesis
    using s'
  proof
    assume "s' = t"
    then show ?thesis using st by simp
  next
    assume "\<exists>q'. kfree pi (t\<lparr>pipes := q'\<rparr>) = Some s'"
    then obtain q' where "kfree pi (t\<lparr>pipes := q'\<rparr>) = Some s'" ..
    then have "quiet (t\<lparr>pipes := q'\<rparr>) s'" by (rule quiet_kmem [OF kfree_frame])
    then show ?thesis by (rule wakes_quiet [OF wakes_quiet [OF st quiet_kernel(3)]])
  qed
qed

lemma fs_ops_quiet:
  assumes "do { s2 \<leftarrow> fs_run op1 s; s3 \<leftarrow> fs_run op2 s2; fs_run op3 s3 } = Some s'"
  shows "quiet s s'"
proof -
  obtain a b where q: "fs_run op1 s = Some a" "fs_run op2 a = Some b" "fs_run op3 b = Some s'"
    using assms by (auto simp: monad_simps)
  show ?thesis by (rule quiet_trans [OF fs_run_quiet [OF q(1)] quiet_trans [OF fs_run_quiet [OF q(2)] fs_run_quiet [OF q(3)]]])
qed

lemma fileclose_wakes:
  assumes "fileclose f s = Some s'"
  shows "wakes s s'"
proof (cases "f_ref (ftable s ! f) - 1 > 0")
  case True
  then show ?thesis using assms by (auto simp: fileclose_def Let_def quiet_wakes)
next
  case False
  let ?s1 = "upd_file f (\<lambda>f. f\<lparr>f_ref := 0, f_type := FD_NONE\<rparr>) s"
  have "wakes ?s1 s'"
  proof (cases "f_type (ftable s ! f)")
    case FD_PIPE
    then show ?thesis using assms False by (auto simp: fileclose_def Let_def intro: pipeclose_wakes)
  qed (use assms False in \<open>auto simp: fileclose_def Let_def intro: quiet_wakes fs_ops_quiet\<close>)
  then show ?thesis by (rule quiet_then_wakes [OF quiet_kernel(5)])
qed

lemma close_files_wakes: "close_files i fd n s = Some s' \<Longrightarrow> wakes s s'"
proof (induction n arbitrary: fd s)
  case 0
  then show ?case by (simp add: quiet_wakes)
next
  case (Suc n)
  show ?case
  proof (cases "p_ofile (procs s ! i) ! fd")
    case None
    then show ?thesis using Suc by simp
  next
    case (Some f)
    then obtain s1 where s1: "fileclose f s = Some s1"
      and r: "close_files i (Suc fd) n (upd_proc i (\<lambda>p. p\<lparr>p_ofile := (p_ofile p)[fd := None]\<rparr>) s1) = Some s'"
      using Suc.prems by (auto simp: monad_simps)
    have "quiet s1 (upd_proc i (\<lambda>p. p\<lparr>p_ofile := (p_ofile p)[fd := None]\<rparr>) s1)"
      by (rule quiet_upd) (simp add: entry_of_def)
    then show ?thesis using wakes_trans fileclose_wakes [OF s1] quiet_wakes Suc.IH [OF r] by meson
  qed
qed


section \<open>Allocation and freeing\<close>

definition a_none :: entry where
  "a_none = \<lparr>e_state = UNUSED, e_chan = No_chan, e_pid = 0, e_parent = None\<rparr>"

lemma proc_freepagetable_frame: "proc_freepagetable pt sz s = Some s' \<Longrightarrow> kmem_state.more s' = kmem_state.more s"
  by (auto simp: proc_freepagetable_def monad_simps dest!: uvmunmap_frame uvmfree_frame)

lemma ptab_upd:
  "ptab_of (upd_proc i f s) = a_set i (entry_of (f (procs s ! i))) (ptab_of s)"
  by (simp add: a_set_def ptab_of_ent)

lemma freeproc_ptab:
  assumes "freeproc i s = Some s'"
  shows "ptab_of s' = a_set i a_none (ptab_of s)" and "cpus s' = cpus s \<and> hart s' = hart s"
proof -
  obtain s1 s2 where s1: "(if p_trapframe (procs s ! i) \<noteq> 0 then kfree (p_trapframe (procs s ! i)) s else Some s) = Some s1"
    and s2: "(if p_pagetable (procs s ! i) \<noteq> 0 then proc_freepagetable (p_pagetable (procs s ! i)) (p_sz (procs s ! i)) s1 else Some s1) = Some s2"
    and s': "s' = upd_proc i (\<lambda>p. p\<lparr>p_trapframe := 0, p_pagetable := 0, p_sz := 0, p_pid := 0, p_parent := None,
        p_name := (p_name p)[0 := 0], p_chan := No_chan, p_killed := 0, p_xstate := 0, p_state := UNUSED\<rparr>) s2"
    using assms unfolding freeproc_def Let_def by (auto simp only: monad_simps)
  have "quiet s s1" using s1 by (auto intro: quiet_kmem [OF kfree_frame] split: if_splits)
  moreover have "quiet s1 s2" using s2 by (auto intro: quiet_kmem [OF proc_freepagetable_frame] split: if_splits)
  ultimately have q: "quiet s s2" by (rule quiet_trans)
  show "ptab_of s' = a_set i a_none (ptab_of s)"
    unfolding s' ptab_upd using q by (simp add: quiet_def a_none_def entry_of_def)
  show "cpus s' = cpus s \<and> hart s' = hart s" unfolding s' using q by (simp add: quiet_def)
qed

lemma proc_pagetable_frame:
  assumes "proc_pagetable i s = Some (pt, s')"
  shows "kmem_state.more s' = kmem_state.more s"
proof -
  obtain p s1 where c: "uvmcreate s = (p, s1)" by fastforce
  show ?thesis
  proof (cases "p = 0")
    case True
    then show ?thesis using assms c by (auto simp: proc_pagetable_def dest: uvmcreate_frame)
  next
    case False
    then obtain r s2 where m: "mappages p TRAMPOLINE PGSIZE (trampoline s1) (PTE_R OR PTE_X) s1 = Some (r, s2)"
      using assms c by (auto simp: proc_pagetable_def monad_simps)
    note q2 = trans [OF mappages_frame [OF m] uvmcreate_frame [OF c]]
    show ?thesis
    proof (cases "r < 0")
      case True
      then obtain s3 where f: "uvmfree p 0 s2 = Some s3" "s' = s3"
        using assms c m False by (auto simp: proc_pagetable_def monad_simps)
      then show ?thesis using trans [OF uvmfree_frame [OF f(1)] q2] by simp
    next
      case rf: False
      then obtain r' s3 where m': "mappages p TRAPFRAME PGSIZE (p_trapframe (procs s2 ! i)) (PTE_R OR PTE_W) s2 = Some (r', s3)"
        using assms c m False by (auto simp: proc_pagetable_def monad_simps)
      note q3 = trans [OF mappages_frame [OF m'] q2]
      show ?thesis
      proof (cases "r' < 0")
        case True
        then obtain s4 s5 where u: "uvmunmap p TRAMPOLINE 1 False s3 = Some s4" "uvmfree p 0 s4 = Some s5" "s' = s5"
          using assms c m m' False rf by (auto simp: proc_pagetable_def monad_simps)
        then show ?thesis
          using trans [OF uvmfree_frame [OF u(2)] trans [OF uvmunmap_frame [OF u(1)] q3]] by simp
      next
        case False
        then show ?thesis using assms c m m' \<open>p \<noteq> 0\<close> rf q3 by (auto simp: proc_pagetable_def monad_simps)
      qed
    qed
  qed
qed

lemma proc_pagetable_quiet: "proc_pagetable i s = Some (pt, s') \<Longrightarrow> quiet s s'"
  by (rule quiet_kmem [OF proc_pagetable_frame])

lemma a_set_same:
  assumes "ptab_of s = a_set i e t" and "i < length (ent t)"
  shows "ent (ptab_of s) ! i = e"
  using assms by simp

text \<open>A call takes one unused entry, or gives it back, or finds none; the pid is used up in any case.\<close>

lemma allocproc_ptab:
  assumes "allocproc s = Some (np, s')"
  shows "cpus s' = cpus s \<and> hart s' = hart s" and "np = None \<Longrightarrow> ptab_of s' = ptab_of s \<or>
      (\<exists>i < length (procs s). p_state (procs s ! i) = UNUSED \<and> nextpid s + 1 < 2 ^ 31 \<and> ptab_of s' = a_set i a_none (a_alloc i (ptab_of s)))"
    and "np = Some i \<Longrightarrow> i < length (procs s) \<and> p_state (procs s ! i) = UNUSED \<and> nextpid s + 1 < 2 ^ 31 \<and> ptab_of s' = a_alloc i (ptab_of s)"
proof -
  have "cpus s' = cpus s \<and> hart s' = hart s \<and>
    (case np of None \<Rightarrow> ptab_of s' = ptab_of s \<or>
      (\<exists>i < length (procs s). p_state (procs s ! i) = UNUSED \<and> nextpid s + 1 < 2 ^ 31 \<and> ptab_of s' = a_set i a_none (a_alloc i (ptab_of s)))
     | Some i \<Rightarrow> i < length (procs s) \<and> p_state (procs s ! i) = UNUSED \<and> nextpid s + 1 < 2 ^ 31 \<and> ptab_of s' = a_alloc i (ptab_of s))"
  proof (cases "first_index (\<lambda>p. p_state p = UNUSED) (procs s)")
    case None
    then show ?thesis using assms by (auto simp: allocproc_def)
  next
    case (Some j)
    then have "j < length (procs s)" "p_state (procs s ! j) = UNUSED" by (auto dest: first_index_SomeD)
    moreover have "nextpid s + 1 < 2 ^ 31" using assms Some by (auto simp: allocproc_def allocpid_def monad_simps split: if_splits)
    ultimately have j: "j < length (procs s)" "p_state (procs s ! j) = UNUSED" "nextpid s + 1 < 2 ^ 31" by simp_all
    let ?s1 = "upd_proc j (\<lambda>p. p\<lparr>p_pid := nextpid s, p_state := USED\<rparr>) (s\<lparr>nextpid := nextpid s + 1\<rparr>)"
    obtain tf s2 where k: "kalloc ?s1 = (tf, s2)" by fastforce
    let ?s3 = "upd_proc j (\<lambda>p. p\<lparr>p_trapframe := tf\<rparr>) s2"
    have a: "ptab_of ?s1 = a_alloc j (ptab_of s)"
      using j(1) by (simp add: a_alloc_def a_set_def ptab_of_ent) (simp add: ptab_of_def entry_of_def)
    have "quiet ?s1 s2" by (rule quiet_kmem [OF kalloc_frame [OF k]])
    moreover have "quiet s2 ?s3" by (rule quiet_upd) (simp add: entry_of_def)
    ultimately have q3: "quiet ?s1 ?s3" by (rule quiet_trans)
    have c1: "cpus ?s1 = cpus s" "hart ?s1 = hart s" by simp_all
    show ?thesis
    proof (cases "tf = 0")
      case True
      then obtain s4 where f: "freeproc j ?s3 = Some s4" "np = None" "s' = s4"
        using assms Some k by (auto simp: allocproc_def allocpid_def Let_def monad_simps)
      then show ?thesis using freeproc_ptab [OF f(1)] q3 a j c1 by (auto simp: quiet_def)
    next
      case False
      then obtain pt s4 where p: "proc_pagetable j ?s3 = Some (pt, s4)"
        using assms Some k by (auto simp: allocproc_def allocpid_def Let_def monad_simps)
      let ?s5 = "upd_proc j (\<lambda>p. p\<lparr>p_pagetable := pt\<rparr>) s4"
      have "quiet s4 ?s5" by (rule quiet_upd) (simp add: entry_of_def)
      then have q5: "quiet ?s1 ?s5" by (rule quiet_trans [OF quiet_trans [OF q3 proc_pagetable_quiet [OF p]]])
      show ?thesis
      proof (cases "pt = 0")
        case True
        then obtain s6 where f: "freeproc j ?s5 = Some s6" "np = None" "s' = s6"
          using assms Some k p False by (auto simp: allocproc_def allocpid_def Let_def monad_simps)
        then show ?thesis using freeproc_ptab [OF f(1)] q5 a j c1 by (auto simp: quiet_def)
      next
        case pt: False
        let ?f = "\<lambda>p. p\<lparr>p_context := \<lparr>ctx_ra = forkret ?s5, ctx_sp = p_kstack p + PGSIZE, ctx_s = replicate 12 0\<rparr>\<rparr>"
        have r: "np = Some j" "s' = upd_proc j ?f ?s5"
          using assms Some k p False pt by (auto simp: allocproc_def allocpid_def Let_def monad_simps)
        have "quiet ?s5 (upd_proc j ?f ?s5)" by (rule quiet_upd) (simp add: entry_of_def)
        then have "quiet ?s1 s'" unfolding r(2) by (rule quiet_trans [OF q5])
        then show ?thesis using r(1) a j c1 by (simp add: quiet_def)
      qed
    qed
  qed
  then show "cpus s' = cpus s \<and> hart s' = hart s" "np = None \<Longrightarrow> ptab_of s' = ptab_of s \<or>
      (\<exists>i < length (procs s). p_state (procs s ! i) = UNUSED \<and> nextpid s + 1 < 2 ^ 31 \<and> ptab_of s' = a_set i a_none (a_alloc i (ptab_of s)))"
    "np = Some i \<Longrightarrow> i < length (procs s) \<and> p_state (procs s ! i) = UNUSED \<and> nextpid s + 1 < 2 ^ 31 \<and> ptab_of s' = a_alloc i (ptab_of s)" by auto
qed


section \<open>Taking and giving up a CPU\<close>

definition on_cpu :: "'a proc_state_scheme \<Rightarrow> bool" where
  "on_cpu s \<longleftrightarrow> hart s < length (cpus s)"

definition table_ok :: "'a proc_state_scheme \<Rightarrow> bool" where
  "table_ok s \<longleftrightarrow> on_cpu s \<and> ptab_inv (ptab_of s)"

lemma table_ok_cpu:
  assumes "table_ok s" and "myproc s = Some i"
  shows "i < length (procs s)" "p_state (procs s ! i) = RUNNING" "hart s < length (onc (ptab_of s))" "onc (ptab_of s) ! hart s = Some i"
proof -
  show h: "hart s < length (onc (ptab_of s))" "onc (ptab_of s) ! hart s = Some i"
    using assms by (simp_all add: table_ok_def on_cpu_def ptab_of_ent myproc_def)
  have "cpu_ok (ptab_of s)" using assms(1) by (simp add: table_ok_def ptab_inv_def)
  note c = cpu_okD(1,2) [OF this h]
  then show "i < length (procs s)" "p_state (procs s ! i) = RUNNING" by (simp_all add: ptab_of_ent)
qed

lemma table_ok_wakes: "wakes s s' \<Longrightarrow> table_ok s \<Longrightarrow> table_ok s'"
  using wakes_inv [of s s'] wakes_simps [of s s'] by (simp add: table_ok_def on_cpu_def)

lemma table_ok_quiet: "quiet s s' \<Longrightarrow> table_ok s \<Longrightarrow> table_ok s'"
  by (rule table_ok_wakes [OF quiet_wakes])

lemma ptab_set_c_proc: "ptab_of (set_c_proc p s) = (ptab_of s)\<lparr>onc := (onc (ptab_of s))[hart s := p]\<rparr>"
  by (simp add: set_c_proc_def sync_group_def ptab_of_def map_update split: option.split)

lemma cpus_set_c_proc [simp]: "length (cpus (set_c_proc p s)) = length (cpus s)" "hart (set_c_proc p s) = hart s"
  "procs (set_c_proc p s) = procs s"
  by (simp_all add: set_c_proc_def)

lemma sched_upd:
  assumes m: "myproc s = Some i" and r: "sched (upd_proc i f s) = Some s'" and i: "i < length (procs s)"
    and e: "entry_of (f (procs s ! i)) = (entry_of (procs s ! i))\<lparr>e_state := st, e_chan := c\<rparr>"
  shows "ptab_of s' = a_off (hart s) i st c (ptab_of s)" and "on_cpu s' = on_cpu s"
proof -
  have s': "s' = set_c_proc None (upd_proc i f s)" using r m by (auto simp: sched_def myproc_def monad_simps)
  show "ptab_of s' = a_off (hart s) i st c (ptab_of s)"
    unfolding s' ptab_set_c_proc ptab_upd e using i by (simp add: a_off_def a_set_def ptab_of_ent)
  show "on_cpu s' = on_cpu s" unfolding s' by (simp add: on_cpu_def)
qed

lemma table_ok_off:
  assumes ok: "table_ok s" and m: "myproc s = Some i" and r: "sched (upd_proc i f s) = Some s'"
    and e: "entry_of (f (procs s ! i)) = (entry_of (procs s ! i))\<lparr>e_state := st, e_chan := c\<rparr>"
    and lv: "leave_ok (ptab_of s) i st c"
  shows "table_ok s'"
proof -
  note h = table_ok_cpu [OF ok m]
  note s = sched_upd [OF m r h(1) e]
  show ?thesis
    using s a_off_inv [OF _ h(3,4) lv] ok by (simp add: table_ok_def)
qed

lemma yield_ok:
  assumes ok: "table_ok s" and y: "yield s = Some s'"
  shows "table_ok s'"
proof -
  obtain i where m: "myproc s = Some i" and r: "sched (upd_proc i (\<lambda>p. p\<lparr>p_state := RUNNABLE\<rparr>) s) = Some s'"
    using y by (auto simp: yield_def monad_simps)
  show ?thesis
    by (rule table_ok_off [OF ok m r, where st = RUNNABLE and c = "p_chan (procs s ! i)"]) (simp_all add: entry_of_def leave_ok_def)
qed

lemma sleep_ok:
  assumes ok: "table_ok s" and y: "sleep c s = Some s'"
    and lv: "\<And>i. myproc s = Some i \<Longrightarrow> c = On_proc i \<Longrightarrow> \<forall>pp \<in> set (procs s). p_parent pp = Some i \<longrightarrow> p_state pp \<noteq> ZOMBIE"
  shows "table_ok s'"
proof -
  obtain i where m: "myproc s = Some i" and r: "sched (upd_proc i (\<lambda>p. p\<lparr>p_chan := c, p_state := SLEEPING\<rparr>) s) = Some s'"
    using y by (auto simp: sleep_def monad_simps)
  show ?thesis
    by (rule table_ok_off [OF ok m r, where st = SLEEPING and c = c]) (use lv [OF m] in \<open>auto simp: entry_of_def leave_ok_def ptab_of_ent\<close>)
qed

lemma schedule_ok:
  assumes ok: "table_ok s" and m: "myproc s = None" and i: "i < length (procs s)" and r: "schedule i s = Some s'"
  shows "table_ok s'"
proof (cases "p_state (procs s ! i) = RUNNABLE")
  case True
  let ?u = "upd_proc i (\<lambda>p. p\<lparr>p_state := RUNNING\<rparr>) s"
  have s': "s' = set_c_proc (Some i) ?u" using r True by (simp add: schedule_def)
  have "ptab_of s' = a_on (hart s) i (ptab_of s)"
    unfolding s' ptab_set_c_proc ptab_upd using i by (simp add: a_on_def a_set_def ptab_of_ent entry_of_def)
  moreover have "on_cpu s'" unfolding s' using ok by (simp add: table_ok_def on_cpu_def)
  moreover have "ptab_inv (a_on (hart s) i (ptab_of s))"
    by (rule a_on_inv) (use ok m i True in \<open>auto simp: table_ok_def on_cpu_def ptab_of_ent myproc_def\<close>)
  ultimately show ?thesis by (simp add: table_ok_def)
next
  case False
  then show ?thesis using r ok by (simp add: schedule_def)
qed

text \<open>An update of one entry that stays in its place.\<close>

lemma upd_ok:
  assumes ok: "table_ok s" and i: "i < length (procs s)" and "p_pid (f (procs s ! i)) = p_pid (procs s ! i)"
    "p_parent (f (procs s ! i)) = p_parent (procs s ! i)"
    and "p_state (f (procs s ! i)) = p_state (procs s ! i) \<or>
       p_state (procs s ! i) \<in> {USED, SLEEPING, RUNNABLE} \<and> p_state (f (procs s ! i)) \<in> {USED, RUNNABLE}"
    and "p_state (f (procs s ! i)) = SLEEPING \<Longrightarrow> p_chan (f (procs s ! i)) = p_chan (procs s ! i)"
  shows "table_ok (upd_proc i f s)"
proof -
  have "fits (ptab_of s) i (entry_of (f (procs s ! i)))"
    by (rule fits_same_place) (use assms in \<open>auto simp: table_ok_def ptab_of_ent\<close>)
  then have "ptab_inv (a_set i (entry_of (f (procs s ! i))) (ptab_of s))"
    using ok by (intro a_set_inv) (simp_all add: table_ok_def)
  then show ?thesis using ok unfolding table_ok_def ptab_upd by (simp add: on_cpu_def)
qed

lemma sleep_return_ok:
  assumes ok: "table_ok s" and r: "sleep_return s = Some s'"
  shows "table_ok s'"
proof -
  obtain i where m: "myproc s = Some i" and s': "s' = upd_proc i (\<lambda>p. p\<lparr>p_chan := No_chan\<rparr>) s"
    using r by (auto simp: sleep_return_def monad_simps)
  note h = table_ok_cpu [OF ok m]
  show ?thesis unfolding s' by (rule upd_ok [OF ok h(1)]) (simp_all add: h(2))
qed

lemma kill_ok:
  assumes ok: "table_ok s" and k: "kill pid s = (r, s')"
  shows "table_ok s'"
proof (cases "first_index (\<lambda>p. p_pid p = pid) (procs s)")
  case None
  then show ?thesis using k ok by (simp add: kill_def)
next
  case (Some i)
  then have i: "i < length (procs s)" by (auto dest: first_index_SomeD)
  have s': "s' = upd_proc i (\<lambda>p. p\<lparr>p_killed := 1, p_state := (if p_state p = SLEEPING then RUNNABLE else p_state p)\<rparr>) s"
    using k Some by (simp add: kill_def)
  show ?thesis unfolding s' by (rule upd_ok [OF ok i]) simp_all
qed

lemma setkilled_ok: "table_ok s \<Longrightarrow> table_ok (setkilled i s)"
  unfolding setkilled_def by (rule table_ok_quiet [OF quiet_upd]) (simp_all add: entry_of_def)

section \<open>fork, exit and wait\<close>

lemma allocproc_ok:
  assumes ok: "table_ok s" and a: "allocproc s = Some (np, s')"
  shows "table_ok s'"
proof -
  note p = allocproc_ptab [OF a]
  have al: "ptab_inv (a_alloc i (ptab_of s))" if "i < length (procs s)" "p_state (procs s ! i) = UNUSED" "nextpid s + 1 < 2 ^ 31" for i
    by (rule a_alloc_inv) (use ok that in \<open>simp_all add: table_ok_def ptab_of_ent\<close>)
  have "ptab_inv (ptab_of s')"
  proof (cases np)
    case (Some i)
    then show ?thesis using p(3) al by simp
  next
    case None
    then consider "ptab_of s' = ptab_of s" | i where "i < length (procs s)" "p_state (procs s ! i) = UNUSED"
      "nextpid s + 1 < 2 ^ 31" "ptab_of s' = a_set i a_none (a_alloc i (ptab_of s))" using p(2) by blast
    then show ?thesis
    proof cases
      case 1
      then show ?thesis using ok by (simp add: table_ok_def)
    next
      case (2 i)
      have inv: "ptab_inv (ptab_of s)" using ok by (simp add: table_ok_def)
      have kid: "e_parent (ent (ptab_of s) ! k) \<noteq> Some i" "ini (ptab_of s) \<noteq> Some i" if "k < length (procs s)" for k
        using zombie_no_child [OF inv, of i k] 2(1,2) that by (simp_all add: ptab_of_ent)
      have "fits (a_alloc i (ptab_of s)) i a_none"
        by (rule fits_free [OF al [OF 2(1-3)]]) (use 2 kid in \<open>auto simp: a_none_def ptab_of_ent\<close>)
      then show ?thesis unfolding 2(4) by (rule a_set_inv [OF al [OF 2(1-3)]])
    qed
  qed
  then show ?thesis using p(1) ok by (simp add: table_ok_def on_cpu_def)
qed

lemma freeproc_ok:
  assumes ok: "table_ok s" and f: "freeproc i s = Some s'" and i: "i < length (procs s)" "p_state (procs s ! i) \<in> {USED, ZOMBIE}"
    and kid: "initproc s \<noteq> Some i" "\<forall>pp \<in> set (procs s). p_parent pp \<noteq> Some i"
  shows "table_ok s'"
proof -
  note p = freeproc_ptab [OF f]
  have "fits (ptab_of s) i a_none"
    by (rule fits_free) (use assms in \<open>auto simp: table_ok_def ptab_of_ent a_none_def\<close>)
  then show ?thesis using a_set_inv p ok by (simp add: table_ok_def on_cpu_def)
qed


lemma fork_cow_quiet:
  assumes "fork_cow i j s = Some (r, s')"
  shows "quiet s s'"
proof -
  let ?s1 = "if p_cow_group (procs s ! i) = 0
               then upd_proc i (\<lambda>p. p\<lparr>p_cow_group := p_pid p, p_cow_enabled := 1\<rparr>)
                      (s\<lparr>cow_groups := cow_group_init (p_pid (procs s ! i)) (cow_groups s)\<rparr>) else s"
  have e: "quiet t (upd_proc i (\<lambda>p. p\<lparr>p_cow_group := p_pid p, p_cow_enabled := 1\<rparr>) t)"
    "quiet t (upd_proc j (\<lambda>q. q\<lparr>p_cow_enabled := 1\<rparr>) t)" "quiet t (upd_proc j (\<lambda>q. q\<lparr>p_cow_group := g\<rparr>) t)"
    for t :: "'a proc_state_scheme" and g
    by (rule quiet_upd, simp add: entry_of_def)+
  have q1: "quiet s ?s1" by (auto intro: quiet_trans [OF quiet_tables(2) e(1)])
  obtain c s2 where u: "uvmcopy_cow (p_pagetable (procs s ! i)) (p_pagetable (procs ?s1 ! j)) (p_sz (procs s ! i)) ?s1 = Some (c, s2)"
    using assms unfolding fork_cow_def Let_def by (auto simp only: monad_simps)
  have q2: "quiet s s2" by (rule quiet_trans [OF q1 quiet_more [OF uvmcopy_cow_frame [OF u]]])
  show ?thesis
  proof (cases "c < 0")
    case True
    then show ?thesis using assms u q2 by (auto simp: fork_cow_def Let_def)
  next
    case False
    then obtain s3 gs where s3: "share_pages (p_pagetable (procs s ! i)) (p_cow_group (procs s2 ! i)) 0 (p_sz (procs s ! i))
          (upd_proc j (\<lambda>q. q\<lparr>p_cow_enabled := 1\<rparr>) s2) = Some s3"
      and s': "s' = upd_proc j (\<lambda>q. q\<lparr>p_cow_group := p_cow_group (procs s2 ! i)\<rparr>) (s3\<lparr>cow_groups := gs\<rparr>)"
      using assms u by (auto simp: fork_cow_def Let_def monad_simps)
    have "quiet s s3" by (rule quiet_trans [OF quiet_trans [OF q2 e(2)] quiet_more [OF share_pages_frame [OF s3]]])
    then show ?thesis unfolding s' by (rule quiet_trans [OF quiet_trans [OF _ quiet_tables(2)] e(3)])
  qed
qed

lemma fork_ok:
  assumes ok: "table_ok s" and f: "fork b s = Some (r, s')"
  shows "table_ok s'"
proof -
  obtain i np s1 where m: "myproc s = Some i" and a: "allocproc s = Some (np, s1)"
    using f by (auto simp: fork_def monad_simps)
  note ok1 = allocproc_ok [OF ok a] and i = table_ok_cpu [OF ok m]
  show ?thesis
  proof (cases np)
    case None
    then show ?thesis using f m a ok1 by (auto simp: fork_def monad_simps)
  next
    case (Some j)
    note p = allocproc_ptab(3) [OF a Some] and cp = allocproc_ptab(1) [OF a]
    have ij: "i \<noteq> j" using p i by auto
    have "length (ent (ptab_of s1)) = length (ent (ptab_of s))" using p by simp
    then have len: "length (procs s1) = length (procs s)" by (simp add: ptab_of_ent)
    have inv: "ptab_inv (ptab_of s)" using ok by (simp add: table_ok_def)
    have kid: "e_parent (ent (ptab_of s) ! k) \<noteq> Some j" "ini (ptab_of s) \<noteq> Some j" if "k < length (procs s)" for k
      using zombie_no_child [OF inv, of j k] p that by (simp_all add: ptab_of_ent)
    have ej: "e_state (ent (ptab_of s1) ! j) = USED" using p by (simp add: ptab_of_ent)
    have ei: "ent (ptab_of s1) ! i = ent (ptab_of s) ! i" using p i(1) ij by (simp add: ptab_of_ent)
    let ?q = "procs s1 ! i"
    obtain c s2 where c: "(if b = 1 then fork_cow i j s1 else uvmcopy (p_pagetable ?q) (p_pagetable (procs s1 ! j)) (p_sz ?q) s1) = Some (c, s2)"
      using f m a Some by (auto simp: fork_def Let_def monad_simps)
    have q2: "quiet s1 s2" using c by (auto intro: fork_cow_quiet quiet_kmem [OF uvmcopy_frame] split: if_splits)
    show ?thesis
    proof (cases "c < 0")
      case True
      then have fr: "freeproc j s2 = Some s'" using f m a Some c by (auto simp: fork_def Let_def monad_simps)
      have t2: "ptab_of s2 = a_alloc j (ptab_of s)" using q2 p by (simp add: quiet_def)
      have len2: "length (procs s2) = length (procs s)" using arg_cong [OF t2, of "\<lambda>t. length (ent t)"] by (simp add: ptab_of_ent)
      have st2: "p_state (procs s2 ! j) = USED" using arg_cong [OF t2, of "\<lambda>t. e_state (ent t ! j)"] p len2 by (simp add: ptab_of_ent)
      have ini2: "initproc s2 \<noteq> Some j" using arg_cong [OF t2, of ini] kid(2) [of j] p by (simp add: ptab_of_ent)
      have "p_parent (procs s2 ! k) \<noteq> Some j" if "k < length (procs s)" for k
        using arg_cong [OF t2, of "\<lambda>t. e_parent (ent t ! k)"] kid(1) [OF that] kid(1) [of j] p that len2
        by (simp add: ptab_of_ent split: if_splits)
      then have "\<forall>pp \<in> set (procs s2). p_parent pp \<noteq> Some j" using len2 by (auto simp: in_set_conv_nth)
      then show ?thesis by (intro freeproc_ok [OF table_ok_quiet [OF q2 ok1] fr]) (use p len2 st2 ini2 in simp_all)
    next
      case False
      let ?s4 = "set_tf j tf_a0 0 (s2\<lparr>mem := memmove (mem s2) (p_trapframe (procs s2 ! j)) (p_trapframe ?q) 288\<rparr>)"
      let ?f = "\<lambda>cwd q. q\<lparr>p_sz := p_sz ?q,
              p_ofile := map2 (\<lambda>f g. if f = None then g else f) (p_ofile ?q) (p_ofile q), p_cwd := Some cwd,
              p_name := set_name (p_name ?q) (p_name q), p_ondemand := p_ondemand ?q,
              p_parent := Some i, p_state := RUNNABLE\<rparr>"
      obtain s5 w cwd s6 where s5: "dup_files (p_ofile ?q) ?s4 = Some s5"
        and s6: "fs_get (\<lambda>t. Some (idup w t)) s5 = Some (cwd, s6)" and s': "s' = upd_proc j (?f cwd) s6"
        using f m a Some c False by (auto simp: fork_def Let_def monad_simps)
      have q4: "quiet s1 ?s4" by (rule quiet_trans [OF quiet_trans [OF q2 quiet_tables(1)] quiet_set_tf])
      have q6: "quiet s1 s6" by (rule quiet_trans [OF quiet_trans [OF q4 dup_files_quiet [OF s5]] fs_get_quiet [OF s6]])
      have t6: "ptab_of s6 = ptab_of s1" using q6 by (simp add: quiet_def)
      have pj: "p_pid (procs s6 ! j) = e_pid (ent (ptab_of s1) ! j)"
        using arg_cong [OF t6, of "\<lambda>t. e_pid (ent t ! j)"] arg_cong [OF t6, of "\<lambda>t. length (ent t)"] p len
        by (simp add: ptab_of_ent del: map_eq_conv)
      have "fits (ptab_of s1) j (entry_of (?f cwd (procs s6 ! j)))"
      proof (rule fits_link [where i = i])
        show "ptab_inv (ptab_of s1)" using ok1 by (simp add: table_ok_def)
        show "ini (ptab_of s1) \<noteq> Some j" using p kid(2) [of j] by simp
        show "alive (ent (ptab_of s1) ! i)" unfolding ei using i by (simp add: ptab_of_ent alive_def)
      qed (use p i ij len ej pj in \<open>simp_all add: ptab_of_ent\<close>)
      then have "ptab_inv (a_set j (entry_of (?f cwd (procs s6 ! j))) (ptab_of s1))"
        using ok1 by (intro a_set_inv) (simp_all add: table_ok_def)
      moreover have "on_cpu s6" using table_ok_quiet [OF q6 ok1] by (simp add: table_ok_def)
      ultimately show ?thesis unfolding s' table_ok_def ptab_upd t6 by (simp add: on_cpu_def)
    qed
  qed
qed


lemma reparent_ok:
  assumes ok: "table_ok s" and m: "myproc s = Some i" and ini: "initproc s \<noteq> Some i" and r: "reparent i s = Some s'"
  shows "table_ok s'" and "cpus s' = cpus s \<and> hart s' = hart s \<and> initproc s' = initproc s"
    and "\<forall>pp \<in> set (procs s'). p_parent pp \<noteq> Some i"
proof -
  have "table_ok s' \<and> (cpus s' = cpus s \<and> hart s' = hart s \<and> initproc s' = initproc s) \<and> (\<forall>pp \<in> set (procs s'). p_parent pp \<noteq> Some i)"
  proof (cases "\<exists>pp \<in> set (procs s). p_parent pp = Some i")
    case False
    then show ?thesis using r ok by (auto simp: reparent_def)
  next
    case True
    let ?f = "\<lambda>q pp. if p_parent pp = Some i then pp\<lparr>p_parent := Some q\<rparr> else pp"
    obtain q where q: "initproc s = Some q" and s': "s' = wakeup (On_proc q) (s\<lparr>procs := map (?f q) (procs s)\<rparr>)"
      using r True by (auto simp: reparent_def monad_simps)
    let ?u = "s\<lparr>procs := map (?f q) (procs s)\<rparr>"
    have qi: "q \<noteq> i" using q ini by auto
    have mu: "myproc ?u = Some i" using m by (simp add: myproc_def)
    have "ptab_of ?u = a_adopt i q (ptab_of s)" by (auto simp: ptab_of_def a_adopt_def entry_of_def)
    then have t': "ptab_of s' = a_wakeup (Some i) (On_proc q) (a_adopt i q (ptab_of s))" unfolding s' ptab_wakeup mu by simp
    have "ptab_inv (ptab_of s')" unfolding t' by (rule a_adopt_inv) (use ok q qi in \<open>simp_all add: table_ok_def ptab_of_ent\<close>)
    moreover have "cpus s' = cpus s \<and> hart s' = hart s \<and> initproc s' = initproc s" unfolding s' by (simp add: wakeup_def)
    moreover have "p_parent pp \<noteq> Some i" if "pp \<in> set (procs s')" for pp
      using that qi unfolding s' wakeup_def by (auto simp: Let_def split: if_splits)
    ultimately show ?thesis using ok by (simp add: table_ok_def on_cpu_def)
  qed
  then show "table_ok s'" "cpus s' = cpus s \<and> hart s' = hart s \<and> initproc s' = initproc s"
    "\<forall>pp \<in> set (procs s'). p_parent pp \<noteq> Some i" by simp_all
qed

lemma exit_table_ok:
  assumes ok: "table_ok s" and m: "myproc s = Some i" and ini: "initproc s \<noteq> Some i" and r: "exit_table i st s = Some s'"
  shows "table_ok s'"
proof -
  obtain s1 where s1: "reparent i s = Some s1"
    and r2: "sched (upd_proc i (\<lambda>p. p\<lparr>p_xstate := st, p_state := ZOMBIE\<rparr>)
       (wakeup (case p_parent (procs s1 ! i) of None \<Rightarrow> No_chan | Some q \<Rightarrow> On_proc q) s1)) = Some s'"
    using r by (auto simp: exit_table_def Let_def monad_simps)
  note ok1 = reparent_ok [OF ok m ini s1]
  let ?c = "case p_parent (procs s1 ! i) of None \<Rightarrow> No_chan | Some q \<Rightarrow> On_proc q"
  let ?s2 = "wakeup ?c s1"
  have m1: "myproc s1 = Some i" using ok1(2) m by (simp add: myproc_def)
  have ok2: "table_ok ?s2" by (rule table_ok_wakes [OF wakes_wakeup ok1(1)])
  have m2: "myproc ?s2 = Some i" using m1 by simp
  have t2: "ptab_of ?s2 = a_wakeup (Some i) ?c (ptab_of s1)" using m1 by simp
  note h1 = table_ok_cpu [OF ok1(1) m1]
  have fam: "family_ok (ptab_of s1)" using ok1(1) by (simp add: table_ok_def ptab_inv_def)
  have "leave_ok (ptab_of ?s2) i ZOMBIE (p_chan (procs ?s2 ! i))"
    unfolding leave_ok_def
  proof (intro conjI impI allI)
    show "ini (ptab_of ?s2) \<noteq> Some i" unfolding t2 using ok1(2) ini by (simp add: ptab_of_ent)
    fix k assume "k < length (ent (ptab_of ?s2))"
    then show "e_parent (ent (ptab_of ?s2) ! k) \<noteq> Some i"
      unfolding t2 using ok1(3) by (simp add: ptab_of_ent)
  next
    fix p assume "e_parent (ent (ptab_of ?s2) ! i) = Some p"
    then have pp: "p_parent (procs s1 ! i) = Some p" unfolding t2 using h1(1) by (simp add: ptab_of_ent)
    then have par: "e_parent (ent (ptab_of s1) ! i) = Some p" "i < length (ent (ptab_of s1))" using h1(1) by (simp_all add: ptab_of_ent)
    have p: "p < length (ent (ptab_of s1))" "p \<noteq> i" using family_okD [OF fam par(2,1)] by simp_all
    show "\<not> (e_state (ent (ptab_of ?s2) ! p) = SLEEPING \<and> e_chan (ent (ptab_of ?s2) ! p) = On_proc p)"
      unfolding t2 using p pp wake1_sleeping [of "Some i" ?c p "ent (ptab_of s1) ! p"] by auto
  qed simp_all
  then show ?thesis
    by (intro table_ok_off [OF ok2 m2 r2, where st = ZOMBIE and c = "p_chan (procs ?s2 ! i)"]) (simp_all add: entry_of_def)
qed

lemma exit_ok:
  assumes ok: "table_ok s" and r: "exit st s = Some s'"
  shows "table_ok s'"
proof -
  let ?s0 = "init_psa_regions s"
  obtain i s1 s2 w s3 s4 s5 where m: "myproc ?s0 = Some i"
    and s1: "(if p_cow_enabled (procs ?s0 ! i) \<noteq> 0 then do {
              gs \<leftarrow> decr_cow_group_count (p_cow_group (procs ?s0 ! i)) (cow_groups ?s0);
              Some (?s0\<lparr>cow_groups := gs\<rparr>) } else Some ?s0) = Some s1"
    and ini: "initproc s1 \<noteq> Some i" and s2: "close_files i 0 NOFILE s1 = Some s2"
    and s3: "fs_run begin_op s2 = Some s3" "fs_run (iput w) s3 = Some s4" "fs_run end_op s4 = Some s5"
    and e: "exit_table i st (upd_proc i (\<lambda>p. p\<lparr>p_cwd := None\<rparr>) s5) = Some s'"
    using r by (auto simp: exit_def Let_def monad_simps)
  let ?s6 = "upd_proc i (\<lambda>p. p\<lparr>p_cwd := None\<rparr>) s5"
  have q0: "quiet s ?s0" by (simp add: init_psa_regions_def)
  have q1: "quiet s s1" using s1 q0 by (auto simp: monad_simps intro: quiet_trans [OF q0 quiet_tables(2)] split: if_splits)
  have q6: "quiet s5 ?s6" by (rule quiet_upd) (simp add: entry_of_def)
  have w: "wakes s1 ?s6"
    by (rule wakes_quiet [OF close_files_wakes [OF s2]])
      (rule quiet_trans [OF fs_run_quiet [OF s3(1)] quiet_trans [OF fs_run_quiet [OF s3(2)] quiet_trans [OF fs_run_quiet [OF s3(3)] q6]]])
  have m6: "myproc ?s6 = Some i" "initproc ?s6 \<noteq> Some i"
    using wakes_simps [OF w] q1 q0 m ini by (simp_all add: myproc_def quiet_def)
  show ?thesis by (rule exit_table_ok [OF table_ok_wakes [OF w table_ok_quiet [OF q1 ok]] m6 e])
qed

lemma wait_ok_step:
  assumes ok: "table_ok s" and r: "wait addr s = Some (out, s')"
  shows "table_ok s'"
proof -
  obtain i where m: "myproc s = Some i" using r by (auto simp: wait_def monad_simps)
  show ?thesis
  proof (cases "first_index (\<lambda>pp. p_parent pp = Some i \<and> p_state pp = ZOMBIE) (procs s)")
    case (Some k)
    then have k: "k < length (procs s)" "p_parent (procs s ! k) = Some i" "p_state (procs s ! k) = ZOMBIE"
      by (auto dest: first_index_SomeD)
    obtain c s1 where c: "(if addr \<noteq> 0 then copyout_bytes (p_pagetable (procs s ! i)) addr
         (le_bytes 4 (unat (word_of_int (p_xstate (procs s ! k)) :: u32))) s else (0, s)) = (c, s1)" by fastforce
    have q: "quiet s s1" using c by (auto intro: copyout_quiet split: if_splits)
    note ok1 = table_ok_quiet [OF q ok]
    show ?thesis
    proof (cases "c < 0")
      case True
      then show ?thesis using r m Some c ok1 by (auto simp: wait_def Let_def)
    next
      case False
      then have f: "freeproc k s1 = Some s'" using r m Some c by (auto simp: wait_def Let_def monad_simps)
      have t: "ptab_of s1 = ptab_of s" using q by (simp add: quiet_def)
      have len: "length (procs s1) = length (procs s)" using arg_cong [OF t, of "\<lambda>t. length (ent t)"] by (simp add: ptab_of_ent)
      have st: "p_state (procs s1 ! k) = ZOMBIE" using arg_cong [OF t, of "\<lambda>t. e_state (ent t ! k)"] k len by (simp add: ptab_of_ent del: map_eq_conv)
      have inv: "ptab_inv (ptab_of s1)" using ok1 by (simp add: table_ok_def)
      have z: "p_parent (procs s1 ! j) \<noteq> Some k" "initproc s1 \<noteq> Some k" if "j < length (procs s1)" for j
        using zombie_no_child [OF inv, of k j] k(1) st len that by (simp_all add: ptab_of_ent)
      show ?thesis
        by (rule freeproc_ok [OF ok1 f]) (use k len st z in \<open>auto simp: in_set_conv_nth\<close>)
    qed
  next
    case None
    then have nz: "\<forall>pp \<in> set (procs s). p_parent pp = Some i \<longrightarrow> p_state pp \<noteq> ZOMBIE" by (auto simp: first_index_None)
    show ?thesis
    proof (cases "(\<forall>pp \<in> set (procs s). p_parent pp \<noteq> Some i) \<or> killed i s \<noteq> 0")
      case True
      then have "s' = s" using r m None by (auto simp: wait_def)
      then show ?thesis using ok by simp
    next
      case False
      then have "sleep (On_proc i) s = Some s'"
        using r m None unfolding wait_def by (simp only: if_False option.simps bind.simps bind_eq_Some_conv) auto
      then show ?thesis by (rule sleep_ok [OF ok]) (use nz m in auto)
    qed
  qed
qed

text \<open>The first process has no parent; from then on it must not exit.\<close>

lemma a_ini_inv:
  assumes inv: "ptab_inv t" and i: "i < length (ent t)" "alive (ent t ! i)" "e_parent (ent t ! i) = None"
  shows "ptab_inv (t\<lparr>ini := Some i\<rparr>)"
proof -
  have ok: "cpu_ok t" "pid_ok t" "family_ok t" "wait_ok t" using inv by (auto simp: ptab_inv_def)
  have "cpu_ok (t\<lparr>ini := Some i\<rparr>)" by (rule cpu_ok_cong [OF ok(1)]) simp_all
  moreover have "pid_ok (t\<lparr>ini := Some i\<rparr>)" by (rule pid_ok_cong [OF ok(2)]) simp_all
  moreover have "wait_ok (t\<lparr>ini := Some i\<rparr>)" by (rule wait_ok_cong [OF ok(4)]) simp_all
  moreover have "family_ok (t\<lparr>ini := Some i\<rparr>)"
    unfolding family_ok_def
  proof (intro conjI allI impI)
    fix j p assume j: "j < length (ent (t\<lparr>ini := Some i\<rparr>))" "e_parent (ent (t\<lparr>ini := Some i\<rparr>) ! j) = Some p"
    then have "j < length (ent t)" "e_parent (ent t ! j) = Some p" by simp_all
    note d = family_okD [OF ok(3) this]
    show "e_state (ent (t\<lparr>ini := Some i\<rparr>) ! j) \<noteq> UNUSED" "p < length (ent (t\<lparr>ini := Some i\<rparr>))" "p \<noteq> j"
      "alive (ent (t\<lparr>ini := Some i\<rparr>) ! p)" using d by simp_all
  next
    fix p assume "ini (t\<lparr>ini := Some i\<rparr>) = Some p"
    then have "p = i" by simp
    then show "p < length (ent (t\<lparr>ini := Some i\<rparr>))" "alive (ent (t\<lparr>ini := Some i\<rparr>) ! p)"
      "e_parent (ent (t\<lparr>ini := Some i\<rparr>) ! p) = None" using i by simp_all
  qed
  ultimately show ?thesis by (simp add: ptab_inv_def)
qed

lemma userinit_ok:
  assumes ok: "table_ok s" and r: "userinit at s = Some s'"
  shows "table_ok s'"
proof -
  obtain i s1 s2 cwd s6 where a: "allocproc s = Some (Some i, s1)"
    and u: "uvmfirst (p_pagetable (procs s1 ! i)) at (of_nat (length initcode)) (s1\<lparr>initproc := Some i\<rparr>) = Some s2"
    and n: "fs_get (namei [slash] 0) (upd_proc i (\<lambda>p. p\<lparr>p_name := set_name (map (of_nat \<circ> of_char) ''initcode'') (p_name p)\<rparr>)
       (set_tf i tf_sp PGSIZE (set_tf i tf_epc 0 (upd_proc i (\<lambda>p. p\<lparr>p_sz := PGSIZE\<rparr>) s2)))) = Some (cwd, s6)"
    and s': "s' = upd_proc i (\<lambda>p. p\<lparr>p_cwd := cwd, p_state := RUNNABLE\<rparr>) s6"
    using r by (auto simp: userinit_def Let_def monad_simps)
  note p = allocproc_ptab(3) [OF a refl] and ok1 = allocproc_ok [OF ok a]
  have e1: "ent (ptab_of s1) ! i = (entry_of (procs s ! i))\<lparr>e_state := USED, e_pid := nextpid s\<rparr>" "length (ent (ptab_of s1)) = length (procs s)"
    using p by (simp_all add: ptab_of_ent)
  have fam: "family_ok (ptab_of s)" using ok by (simp add: table_ok_def ptab_inv_def)
  have "p_parent (procs s ! i) = None"
    using family_okD(1) [OF fam, of i] p by (cases "p_parent (procs s ! i)") (simp_all add: ptab_of_ent)
  then have "ptab_inv ((ptab_of s1)\<lparr>ini := Some i\<rparr>)"
    using ok1 p by (intro a_ini_inv) (simp_all add: table_ok_def ptab_of_ent alive_def)
  moreover have "ptab_of (s1\<lparr>initproc := Some i\<rparr>) = (ptab_of s1)\<lparr>ini := Some i\<rparr>" by (simp add: ptab_of_def)
  ultimately have okI: "table_ok (s1\<lparr>initproc := Some i\<rparr>)" using ok1 by (simp add: table_ok_def on_cpu_def)
  have e: "quiet t (upd_proc i (\<lambda>p. p\<lparr>p_name := nm p\<rparr>) t)" "quiet t (upd_proc i (\<lambda>p. p\<lparr>p_sz := PGSIZE\<rparr>) t)"
    for t :: "'c proc_state_scheme" and nm
    by (rule quiet_upd, simp add: entry_of_def)+
  have q6: "quiet (s1\<lparr>initproc := Some i\<rparr>) s6"
    by (rule quiet_trans [OF quiet_kmem [OF uvmfirst_frame [OF u]] quiet_trans [OF e(2) quiet_trans [OF quiet_set_tf
      quiet_trans [OF quiet_set_tf quiet_trans [OF e(1) fs_get_quiet [OF n]]]]]])
  have t6: "ent (ptab_of s6) = ent (ptab_of s1)" using q6 by (simp add: quiet_def ptab_of_def)
  have l6: "length (procs s6) = length (procs s)" using arg_cong [OF t6, of length] e1(2) by (simp add: ptab_of_ent)
  have "p_state (procs s6 ! i) = USED"
    using arg_cong [OF t6, of "\<lambda>t. e_state (t ! i)"] e1 l6 p by (simp add: ptab_of_ent del: map_eq_conv)
  then show ?thesis unfolding s' by (intro upd_ok [OF table_ok_quiet [OF q6 okI]]) (use p l6 in simp_all)
qed

text \<open>The table as the boot code leaves it.\<close>

lemma boot_table_ok:
  assumes "on_cpu s" and "\<forall>c \<in> set (cpus s). c_proc c = None"
    and "\<forall>p \<in> set (procs s). p_state p = UNUSED \<and> p_parent p = None" and "initproc s = None"
    and "nextpid s < 2 ^ 31"
  shows "table_ok s"
proof -
  have e: "e_state (ent (ptab_of s) ! i) = UNUSED" "e_parent (ent (ptab_of s) ! i) = None" if "i < length (ent (ptab_of s))" for i
    using assms(3) that by (simp_all add: ptab_of_ent)
  have c: "onc (ptab_of s) ! h = None" if "h < length (onc (ptab_of s))" for h
    using assms(2) that by (simp add: ptab_of_ent)
  have "cpu_ok (ptab_of s)" unfolding cpu_ok_def using e(1) c by simp
  moreover have "pid_ok (ptab_of s)" unfolding pid_ok_def using e(1) assms(5) by (simp add: ptab_of_ent)
  moreover have "family_ok (ptab_of s)" unfolding family_ok_def using e(2) assms(4) by (simp add: ptab_of_ent(4))
  moreover have "wait_ok (ptab_of s)" unfolding wait_ok_def using e(1) by simp
  ultimately show ?thesis using assms(1) by (simp add: table_ok_def ptab_inv_def)
qed

section \<open>The kernel as a step relation\<close>

text \<open>
  One step of the CPU \<open>hart\<close>, or the turn of another CPU. \<open>step_other\<close> is any operation that
  leaves the table alone: the file system, memory, and so on.
\<close>

inductive kstep :: "kernel_state \<Rightarrow> kernel_state \<Rightarrow> bool" where
  step_turn: "h < length (cpus s) \<Longrightarrow> kstep s (sync_group (s\<lparr>hart := h\<rparr>))"
| step_schedule: "myproc s = None \<Longrightarrow> i < length (procs s) \<Longrightarrow> schedule i s = Some s' \<Longrightarrow> kstep s s'"
| step_yield: "yield s = Some s' \<Longrightarrow> kstep s s'"
| step_sleep: "(\<forall>i. c \<noteq> On_proc i) \<Longrightarrow> sleep c s = Some s' \<Longrightarrow> kstep s s'"
| step_woken: "sleep_return s = Some s' \<Longrightarrow> kstep s s'"
| step_wakeup: "kstep s (wakeup c s)"
| step_kill: "kill pid s = (r, s') \<Longrightarrow> kstep s s'"
| step_setkilled: "kstep s (setkilled i s)"
| step_fork: "fork b s = Some (r, s') \<Longrightarrow> kstep s s'"
| step_exit: "exit st s = Some s' \<Longrightarrow> kstep s s'"
| step_wait: "wait addr s = Some (out, s') \<Longrightarrow> kstep s s'"
| step_userinit: "initproc s = None \<Longrightarrow> userinit at s = Some s' \<Longrightarrow> kstep s s'"
| step_other: "quiet s s' \<Longrightarrow> kstep s s'"

inductive kreach :: "kernel_state \<Rightarrow> kernel_state \<Rightarrow> bool" for s0 where
  reach_start: "kreach s0 s0"
| reach_step: "kreach s0 s \<Longrightarrow> kstep s s' \<Longrightarrow> kreach s0 s'"

inductive_cases kstepE: "kstep s s'"

lemma kstep_ok:
  assumes st: "kstep s s'" and ok: "table_ok s"
  shows "table_ok s'"
  using st
proof cases
  case (step_turn h)
  have "ptab_of (s\<lparr>hart := h\<rparr>) = ptab_of s" by (simp add: ptab_of_def)
  then have "table_ok (s\<lparr>hart := h\<rparr>)" using ok step_turn by (simp add: table_ok_def on_cpu_def)
  then show ?thesis unfolding step_turn(1) by (rule table_ok_quiet [OF quiet_tables(3)])
next
  case step_schedule
  then show ?thesis by (intro schedule_ok [OF ok])
next
  case step_yield
  then show ?thesis by (rule yield_ok [OF ok])
next
  case (step_sleep c)
  show ?thesis by (rule sleep_ok [OF ok step_sleep(2)]) (use step_sleep(1) in simp)
next
  case step_woken
  then show ?thesis by (rule sleep_return_ok [OF ok])
next
  case (step_wakeup c)
  show ?thesis unfolding step_wakeup by (rule table_ok_wakes [OF wakes_wakeup ok])
next
  case step_kill
  then show ?thesis by (rule kill_ok [OF ok])
next
  case (step_setkilled i)
  show ?thesis unfolding step_setkilled by (rule setkilled_ok [OF ok])
next
  case step_fork
  then show ?thesis by (rule fork_ok [OF ok])
next
  case step_exit
  then show ?thesis by (rule exit_ok [OF ok])
next
  case step_wait
  then show ?thesis by (rule wait_ok_step [OF ok])
next
  case step_userinit
  then show ?thesis by (intro userinit_ok [OF ok])
next
  case step_other
  then show ?thesis by (rule table_ok_quiet [OF _ ok])
qed

lemma kreach_ok: "kreach s0 s \<Longrightarrow> table_ok s0 \<Longrightarrow> table_ok s"
  by (induction rule: kreach.induct) (simp_all add: kstep_ok)


section \<open>Properties\<close>

lemma table_ok_parts:
  assumes "table_ok s"
  shows "cpu_ok (ptab_of s)" "pid_ok (ptab_of s)" "family_ok (ptab_of s)" "wait_ok (ptab_of s)"
  using assms by (simp_all add: table_ok_def ptab_inv_def)

text \<open>A running parent and a child that is runnable, on two CPUs.\<close>

definition demo_child :: proc where
  "demo_child = demo_proc\<lparr>p_state := RUNNABLE, p_pid := 2, p_parent := Some 0\<rparr>"

definition demo_pair :: kernel_state where
  "demo_pair = demo_kernel\<lparr>procs := [demo_proc, demo_child], nextpid := 3, initproc := Some 0,
     cpus := [\<lparr>c_proc = Some 0, c_noff = 0, c_intena = True\<rparr>, \<lparr>c_proc = None, c_noff = 0, c_intena = True\<rparr>]\<rparr>"

lemma demo_pair_ok: "table_ok demo_pair"
  by (simp add: table_ok_def on_cpu_def ptab_inv_def cpu_ok_def pid_ok_def family_ok_def wait_ok_def ptab_of_def
      demo_pair_def demo_child_def demo_kernel_def demo_proc_def entry_of_def alive_def less_Suc_eq nth_Cons' all_conj_distrib)

text \<open>The parent waits; then the other CPU runs the child.\<close>

definition demo_waiting :: kernel_state where
  "demo_waiting = demo_pair\<lparr>procs := [demo_proc\<lparr>p_state := SLEEPING, p_chan := On_proc 0\<rparr>, demo_child],
     cpus := [\<lparr>c_proc = None, c_noff = 0, c_intena = True\<rparr>, \<lparr>c_proc = None, c_noff = 0, c_intena = True\<rparr>]\<rparr>"

lemma demo_waiting_reach: "kreach demo_pair demo_waiting"
proof -
  have "wait 0 demo_pair = Some (Asleep 0, demo_waiting)"
    by (simp add: wait_def demo_pair_def demo_child_def demo_kernel_def demo_proc_def myproc_def killed_def
        sleep_def sched_def upd_proc_def set_c_proc_def sync_group_def demo_waiting_def)
  then show ?thesis using kreach.intros step_wait by metis
qed

text \<open>
  C18: in every reachable state of the kernel a process is \<open>RUNNING\<close> exactly when some CPU runs it, and
  no two CPUs run the same process, whatever the order in which the CPUs schedule, yield, sleep, fork, exit and wait.
\<close>

theorem process_on_one_cpu:
  assumes "table_ok s0" and "kreach s0 s" and "i < length (procs s)"
  shows "p_state (procs s ! i) = RUNNING \<longleftrightarrow> (\<exists>!h. h < length (cpus s) \<and> c_proc (cpus s ! h) = Some i)"
proof -
  have ok: "cpu_ok (ptab_of s)" using kreach_ok [OF assms(2,1)] table_ok_parts by blast
  have a: "p_state (procs s ! i) = RUNNING" if "h < length (cpus s)" "c_proc (cpus s ! h) = Some i" for h
    using cpu_okD(2) [OF ok, of h i] that assms(3) by (simp add: ptab_of_ent)
  have b: "k = h" if "h < length (cpus s)" "c_proc (cpus s ! h) = Some i" "k < length (cpus s)" "c_proc (cpus s ! k) = Some i" for h k
    using cpu_okD(3) [OF ok, of h i k] that by (simp add: ptab_of_ent)
  have c: "\<exists>h < length (cpus s). c_proc (cpus s ! h) = Some i" if "p_state (procs s ! i) = RUNNING"
    using cpu_ok_running [OF ok, of i] that assms(3) by (auto simp: ptab_of_ent)
  show ?thesis using a b c by blast
qed

theorem process_on_one_cpu_witness:
  "\<not> (\<exists>!h. h < length (cpus demo_waiting) \<and> c_proc (cpus demo_waiting ! h) = Some 0) \<and> length (cpus demo_waiting) = 2"
  using process_on_one_cpu [OF demo_pair_ok demo_waiting_reach, of 0]
  by (simp add: demo_waiting_def demo_pair_def demo_child_def demo_kernel_def demo_proc_def)

text \<open>
  C19: two entries in use never have the same pid, every pid in use is smaller than the next one to be
  given, and that one fits in the \<open>int\<close> that holds it, in every reachable state. An \<open>allocpid\<close> that would take
  the counter to \<open>2 ^ 31\<close> is a signed overflow, undefined in C: no state behind it counts as reachable.
\<close>

theorem pids_unique:
  assumes "table_ok s0" and "kreach s0 s" and "i < length (procs s)" and "j < length (procs s)"
    and "p_state (procs s ! i) \<noteq> UNUSED" and "p_state (procs s ! j) \<noteq> UNUSED"
  shows "p_pid (procs s ! i) < nextpid s \<and> nextpid s < 2 ^ 31 \<and> (p_pid (procs s ! i) = p_pid (procs s ! j) \<longleftrightarrow> i = j)"
proof (intro conjI)
  have ok: "pid_ok (ptab_of s)" using kreach_ok [OF assms(2,1)] table_ok_parts by blast
  show "p_pid (procs s ! i) < nextpid s" using ok assms(3,5) by (simp add: pid_ok_def ptab_of_ent)
  show "nextpid s < 2 ^ 31" using ok by (simp add: pid_ok_def ptab_of_ent)
  show "p_pid (procs s ! i) = p_pid (procs s ! j) \<longleftrightarrow> i = j"
    using ok assms(3-6) unfolding pid_ok_def by (metis (no_types, lifting) entry_of_simps(1,3) length_map nth_map ptab_of_ent(1))
qed

theorem pids_unique_witness: "(1::int) < nextpid demo_waiting \<and> nextpid demo_waiting < 2 ^ 31 \<and> ((1::int) = 2 \<longleftrightarrow> (0::nat) = 1)"
  using pids_unique [OF demo_pair_ok demo_waiting_reach, of 0 1]
  by (simp add: demo_waiting_def demo_pair_def demo_child_def demo_kernel_def demo_proc_def)

text \<open>
  C20: no lost wakeup between \<open>exit\<close> and \<open>wait\<close>: in every reachable state the parent of an exited child
  is a live process, and it is not asleep in \<open>wait\<close>.
\<close>

theorem no_lost_exit:
  assumes "table_ok s0" and "kreach s0 s" and "i < length (procs s)" and "p_state (procs s ! i) = ZOMBIE"
    and "p_parent (procs s ! i) = Some p"
  shows "p < length (procs s) \<and> (p_state (procs s ! p) \<noteq> UNUSED \<and> p_state (procs s ! p) \<noteq> ZOMBIE) \<and>
    \<not> (p_state (procs s ! p) = SLEEPING \<and> p_chan (procs s ! p) = On_proc p)"
proof (intro conjI [of "p < length (procs s)"] conjI [of "_ \<and> _"])
  have ok: "family_ok (ptab_of s)" "wait_ok (ptab_of s)" using kreach_ok [OF assms(2,1)] table_ok_parts by blast+
  have e: "i < length (ent (ptab_of s))" "e_parent (ent (ptab_of s) ! i) = Some p" using assms by (simp_all add: ptab_of_ent)
  note d = family_okD [OF ok(1) e]
  show p: "p < length (procs s)" using d(2) by (simp add: ptab_of_ent)
  show "p_state (procs s ! p) \<noteq> UNUSED \<and> p_state (procs s ! p) \<noteq> ZOMBIE" using d(4) p by (simp add: ptab_of_ent alive_def)
  show "\<not> (p_state (procs s ! p) = SLEEPING \<and> p_chan (procs s ! p) = On_proc p)"
    using ok(2) e d(2) p assms(3,4) unfolding wait_ok_def
    by (metis (no_types, lifting) entry_of_simps(1,2) nth_map ptab_of_ent(1))
qed


text \<open>The child has exited while the parent was running; the parent yields.\<close>

definition demo_exited :: kernel_state where
  "demo_exited = demo_pair\<lparr>procs := [demo_proc, demo_child\<lparr>p_state := ZOMBIE\<rparr>]\<rparr>"

lemma demo_exited_ok: "table_ok demo_exited"
  by (simp add: table_ok_def on_cpu_def ptab_inv_def cpu_ok_def pid_ok_def family_ok_def wait_ok_def ptab_of_def demo_exited_def
      demo_pair_def demo_child_def demo_kernel_def demo_proc_def entry_of_def alive_def less_Suc_eq nth_Cons' all_conj_distrib)

lemma demo_exited_reach:
  "kreach demo_exited (demo_exited\<lparr>procs := [demo_proc\<lparr>p_state := RUNNABLE\<rparr>, demo_child\<lparr>p_state := ZOMBIE\<rparr>],
     cpus := [\<lparr>c_proc = None, c_noff = 0, c_intena = True\<rparr>, \<lparr>c_proc = None, c_noff = 0, c_intena = True\<rparr>]\<rparr>)"
proof -
  have "yield demo_exited = Some (demo_exited\<lparr>procs := [demo_proc\<lparr>p_state := RUNNABLE\<rparr>, demo_child\<lparr>p_state := ZOMBIE\<rparr>],
     cpus := [\<lparr>c_proc = None, c_noff = 0, c_intena = True\<rparr>, \<lparr>c_proc = None, c_noff = 0, c_intena = True\<rparr>]\<rparr>)"
    by (simp add: yield_def demo_exited_def demo_pair_def demo_child_def demo_kernel_def demo_proc_def myproc_def
        sched_def upd_proc_def set_c_proc_def sync_group_def)
  then show ?thesis by (rule kreach.reach_step [OF kreach.reach_start kstep.step_yield])
qed

theorem no_lost_exit_witness:
  "p_state (demo_proc\<lparr>p_state := RUNNABLE\<rparr>) \<noteq> UNUSED \<and> p_state (demo_child\<lparr>p_state := ZOMBIE\<rparr>) = ZOMBIE"
  using no_lost_exit [OF demo_exited_ok demo_exited_reach, of 1 0]
  by (simp add: demo_child_def)

end
