(* ===== verification/Grep.thy ===== *)
theory Grep
  imports Xv6_Prelude
begin

text \<open>
  The program user/grep.c: Kernighan's matcher for \<open>^ . * $\<close> and the loop that cuts the input into
  lines. A C string is the list of its bytes before the NUL. The matcher is proved equal to the
  language of the pattern, the loop to a filter on the lines of the input, however \<open>read\<close> cuts it up.
\<close>

section \<open>The matcher\<close>

definition caret :: u8 where "caret = 94"
definition dot :: u8 where "dot = 46"
definition star :: u8 where "star = 42"
definition dollar :: u8 where "dollar = 36"
definition newline :: u8 where "newline = 10"

lemmas pattern_chars = caret_def dot_def star_def dollar_def newline_def

text \<open>\<open>hit c x\<close>: the pattern byte \<open>c\<close> stands for the text byte \<open>x\<close>.\<close>

definition hit :: "u8 \<Rightarrow> u8 \<Rightarrow> bool" where
  "hit c x \<longleftrightarrow> c = dot \<or> c = x"

function matchhere :: "u8 list \<Rightarrow> u8 list \<Rightarrow> bool"
  and matchstar :: "u8 \<Rightarrow> u8 list \<Rightarrow> u8 list \<Rightarrow> bool" where
  "matchhere re str =
     (case re of
        [] \<Rightarrow> True
      | c # re1 \<Rightarrow>
          if re1 \<noteq> [] \<and> hd re1 = star then matchstar c (tl re1) str
          else if c = dollar \<and> re1 = [] then str = []
          else (case str of [] \<Rightarrow> False | x # str' \<Rightarrow> hit c x \<and> matchhere re1 str'))"
| "matchstar c re str =
     (if matchhere re str then True
      else (case str of [] \<Rightarrow> False | x # str' \<Rightarrow> if x = c \<or> c = dot then matchstar c re str' else False))"
  by pat_completeness auto
termination
  by (relation "measures [\<lambda>x. case x of Inl (re, t) \<Rightarrow> 2 * length re | Inr (c, re, t) \<Rightarrow> 2 * length re + 1,
      \<lambda>x. case x of Inl (re, t) \<Rightarrow> length t | Inr (c, re, t) \<Rightarrow> length t]") auto

declare matchhere.simps [simp del] matchstar.simps [simp del]

text \<open>The \<open>do\<close> loop of \<open>match\<close>: try every suffix of the text, the empty one included.\<close>

fun match_any :: "u8 list \<Rightarrow> u8 list \<Rightarrow> bool" where
  "match_any re [] = matchhere re []"
| "match_any re (x # str) = (matchhere re (x # str) \<or> match_any re str)"

definition match :: "u8 list \<Rightarrow> u8 list \<Rightarrow> bool" where
  "match re str = (if re \<noteq> [] \<and> hd re = caret then matchhere (tl re) str else match_any re str)"

section \<open>The loop over the input\<close>

text \<open>
  \<open>grep_lines\<close> is the inner loop on the bytes of the buffer before the NUL that ends it: what is
  written, and the bytes that stay in the buffer. \<open>strchr\<close> stops at the first NUL.
\<close>

function grep_lines :: "u8 list \<Rightarrow> u8 list \<Rightarrow> u8 list \<times> u8 list" where
  "grep_lines pattern p =
     (let line = takeWhile (\<lambda>x. x \<noteq> 0 \<and> x \<noteq> newline) p; rest = drop (length line) p in
      if rest \<noteq> [] \<and> hd rest = newline then
        (case grep_lines pattern (tl rest) of
           (out, p') \<Rightarrow> (if match pattern line then line @ [newline] @ out else out, p'))
      else ([], p))"
  by pat_completeness auto
termination
proof (relation "measure (\<lambda>(pattern, p). length p)", goal_cases)
  case (2 pattern p line rest)
  then show ?case by (cases p) auto
qed simp

declare grep_lines.simps [simp del]

text \<open>
  \<open>read(fd, buf+m, n)\<close> takes \<open>rd n input\<close> bytes off the input, never more than \<open>n\<close> or than there
  are. The buffer holds 1024 bytes, the last one for the NUL.
\<close>

definition BUFSIZE :: nat where "BUFSIZE = 1024"

function grep :: "(nat \<Rightarrow> u8 list \<Rightarrow> nat) \<Rightarrow> u8 list \<Rightarrow> u8 list \<Rightarrow> u8 list \<Rightarrow> u8 list" where
  "grep rd pattern buf input =
     (let space = BUFSIZE - length buf - 1; got = take (min (rd space input) space) input in
      if got = [] then []
      else case grep_lines pattern (buf @ got) of
        (out, buf') \<Rightarrow> out @ grep rd pattern buf' (drop (length got) input))"
  by pat_completeness auto
termination
  by (relation "measure (\<lambda>(rd, pattern, buf, input). length input)") (auto simp: Let_def min_def split: if_splits)

declare grep.simps [simp del]

section \<open>The language of a pattern\<close>

text \<open>A pattern read as a list of items: one byte, a starred byte, or the end of the text.\<close>

datatype item = Single u8 | Star u8 | Eot

fun items :: "u8 list \<Rightarrow> item list" where
  "items [] = []"
| "items [c] = (if c = dollar then [Eot] else [Single c])"
| "items (c # d # re) = (if d = star then Star c # items re else Single c # items (d # re))"

text \<open>\<open>parses its w v\<close>: the items can match \<open>w\<close> when \<open>v\<close> comes after it.\<close>

fun parses :: "item list \<Rightarrow> u8 list \<Rightarrow> u8 list \<Rightarrow> bool" where
  "parses [] w v \<longleftrightarrow> w = []"
| "parses (Single c # its) w v \<longleftrightarrow> (\<exists>x w'. w = x # w' \<and> hit c x \<and> parses its w' v)"
| "parses (Star c # its) w v \<longleftrightarrow> (\<exists>u w'. w = u @ w' \<and> (\<forall>x \<in> set u. hit c x) \<and> parses its w' v)"
| "parses (Eot # its) w v \<longleftrightarrow> v = [] \<and> parses its w v"

lemma matchstar_iff:
  assumes "\<And>t. matchhere re t \<longleftrightarrow> (\<exists>w v. t = w @ v \<and> parses (items re) w v)"
  shows "matchstar c re str \<longleftrightarrow> (\<exists>w v. str = w @ v \<and> parses (Star c # items re) w v)"
proof (induction str)
  case Nil
  then show ?case by (simp add: matchstar.simps [of c re "[]"] assms)
next
  case (Cons x str)
  show ?case
  proof
    assume "matchstar c re (x # str)"
    then consider "matchhere re (x # str)" | "hit c x" "matchstar c re str"
      by (auto simp: matchstar.simps [of c re "x # str"] hit_def split: if_splits)
    then show "\<exists>w v. x # str = w @ v \<and> parses (Star c # items re) w v"
    proof cases
      case 1
      then obtain w v where "x # str = w @ v" "parses (items re) w v" unfolding assms by blast
      moreover from this have "parses (Star c # items re) w v" unfolding parses.simps by (intro exI [of _ "[]"] exI [of _ w]) simp
      ultimately show ?thesis by blast
    next
      case 2
      then obtain u w v where t: "str = (u @ w) @ v" "\<forall>x \<in> set u. hit c x" "parses (items re) w v"
        unfolding Cons.IH by auto
      then have "x # str = ((x # u) @ w) @ v" "\<forall>y \<in> set (x # u). hit c y" using 2 by auto
      then show ?thesis unfolding parses.simps using t(3) by blast
    qed
  next
    assume "\<exists>w v. x # str = w @ v \<and> parses (Star c # items re) w v"
    then obtain u w v where t: "x # str = u @ w @ v" "\<forall>x \<in> set u. hit c x" "parses (items re) w v" by auto
    show "matchstar c re (x # str)"
    proof (cases u)
      case Nil
      then have "matchhere re (x # str)" unfolding assms using t by auto
      then show ?thesis by (simp add: matchstar.simps [of c re "x # str"])
    next
      case (Cons y u')
      then have "hit c x" "str = (u' @ w) @ v" using t by auto
      moreover have "parses (Star c # items re) (u' @ w) v" using t Cons by auto
      ultimately have "hit c x" "matchstar c re str" unfolding Cons.IH by blast+
      then show ?thesis by (auto simp: matchstar.simps [of c re "x # str"] hit_def)
    qed
  qed
qed

lemma matchhere_iff: "matchhere re str \<longleftrightarrow> (\<exists>w v. str = w @ v \<and> parses (items re) w v)"
proof (induction re arbitrary: str rule: items.induct)
  case 1
  then show ?case by (simp add: matchhere.simps [of "[]"])
next
  case (2 c)
  show ?case
  proof (cases str)
    case (Cons x s)
    have "(\<exists>w v. x # s = w @ v \<and> (\<exists>y. w = [y] \<and> hit c y)) \<longleftrightarrow> hit c x"
    proof
      assume "hit c x"
      then have "x # s = [x] @ s \<and> (\<exists>y. [x] = [y] \<and> hit c y)" by simp
      then show "\<exists>w v. x # s = w @ v \<and> (\<exists>y. w = [y] \<and> hit c y)" by blast
    qed auto
    then show ?thesis using Cons by (simp add: matchhere.simps [of "[c]"] matchhere.simps [of "[]"])
  qed (auto simp: matchhere.simps [of "[c]"])
next
  case (3 c d re)
  show ?case
  proof (cases "d = star")
    case True
    then show ?thesis using matchstar_iff [OF 3(1) [OF True], of c str] by (simp add: True matchhere.simps [of "c # star # re"])
  next
    case False
    have "matchhere (c # d # re) str \<longleftrightarrow> (case str of [] \<Rightarrow> False | x # t \<Rightarrow> hit c x \<and> matchhere (d # re) t)"
      using False by (simp add: matchhere.simps [of "c # d # re"])
    also have "\<dots> \<longleftrightarrow> (\<exists>w v. str = w @ v \<and> parses (Single c # items (d # re)) w v)"
    proof (cases str)
      case (Cons x t)
      then show ?thesis unfolding 3(2) [OF False] by (auto simp: Cons_eq_append_conv)
    qed simp
    finally show ?thesis using False by simp
  qed
qed

lemma match_any_iff: "match_any re str \<longleftrightarrow> (\<exists>u t. str = u @ t \<and> matchhere re t)"
proof (induction str)
  case (Cons x str)
  show ?case
    unfolding match_any.simps Cons.IH
    by (auto simp: Cons_eq_append_conv)
qed simp

text \<open>
  C21: \<open>match\<close> returns on every pattern and text, and says yes exactly when the text has a part that
  the pattern describes: a part anywhere, or a prefix when the pattern starts with \<open>^\<close>, that ends
  where the text ends when it ends in \<open>$\<close>, with \<open>.\<close> for any byte and \<open>c*\<close> for any run of \<open>c\<close>.
\<close>

theorem match_language:
  "match re str \<longleftrightarrow>
     (if re \<noteq> [] \<and> hd re = caret then \<exists>w v. str = w @ v \<and> parses (items (tl re)) w v
      else \<exists>u w v. str = u @ w @ v \<and> parses (items re) w v)"
  by (auto simp: match_def match_any_iff matchhere_iff)

section \<open>grep as a filter on lines\<close>

text \<open>The complete lines of an input, without their newline; a last line without one does not count.\<close>

fun split_lines :: "u8 list \<Rightarrow> u8 list \<Rightarrow> u8 list list" where
  "split_lines acc [] = []"
| "split_lines acc (x # xs) = (if x = newline then acc # split_lines [] xs else split_lines (acc @ [x]) xs)"

fun last_line :: "u8 list \<Rightarrow> u8 list \<Rightarrow> u8 list" where
  "last_line acc [] = acc"
| "last_line acc (x # xs) = (if x = newline then last_line [] xs else last_line (acc @ [x]) xs)"

definition grep_spec :: "u8 list \<Rightarrow> u8 list list \<Rightarrow> u8 list" where
  "grep_spec pattern ls = concat (map (\<lambda>l. l @ [newline]) (filter (match pattern) ls))"

lemma split_lines_append: "split_lines acc (xs @ ys) = split_lines acc xs @ split_lines (last_line acc xs) ys"
  by (induction acc xs rule: split_lines.induct) simp_all

lemma last_line_append: "last_line acc (xs @ ys) = last_line (last_line acc xs) ys"
  by (induction acc xs rule: last_line.induct) simp_all

lemma split_lines_skip: "newline \<notin> set w \<Longrightarrow> split_lines acc (w @ xs) = split_lines (acc @ w) xs"
  by (induction w arbitrary: acc) auto

lemma last_line_skip: "newline \<notin> set w \<Longrightarrow> last_line acc (w @ xs) = last_line (acc @ w) xs"
  by (induction w arbitrary: acc) auto

lemma grep_spec_append: "grep_spec pattern (xs @ ys) = grep_spec pattern xs @ grep_spec pattern ys"
  by (simp add: grep_spec_def)

lemma split_lines_head: "split_lines acc xs = [] \<or> (\<exists>w. hd (split_lines acc xs) = acc @ w)"
  by (induction acc xs rule: split_lines.induct) auto

lemma split_lines_short: "l \<in> set (split_lines acc xs) \<Longrightarrow> length l < length acc + length xs"
  by (induction acc xs rule: split_lines.induct) (auto split: if_splits)

lemma last_line_set: "set (last_line acc xs) \<subseteq> set acc \<union> set xs"
  by (induction acc xs rule: last_line.induct) auto

lemma last_line_newline: "newline \<notin> set acc \<Longrightarrow> newline \<notin> set (last_line acc xs)"
  by (induction acc xs rule: last_line.induct) auto

lemma last_line_length: "length (last_line acc xs) \<le> length acc + length xs"
  by (induction acc xs rule: last_line.induct) auto

text \<open>
  \<open>strchr\<close> stops at a NUL: a buffer whose first line holds one is never emptied again.
\<close>

definition stuck :: "u8 list \<Rightarrow> bool" where
  "stuck p \<longleftrightarrow> (\<exists>w r. p = w @ 0 # r \<and> 0 \<notin> set w \<and> newline \<notin> set w)"

lemma stuck_append: "stuck p \<Longrightarrow> stuck (p @ q)"
  unfolding stuck_def by (metis append_Cons append_assoc)

lemma stuck_lines:
  assumes "stuck p"
  shows "grep_lines pattern p = ([], p)"
proof -
  obtain w r where p: "p = w @ 0 # r" "0 \<notin> set w" "newline \<notin> set w" using assms unfolding stuck_def by blast
  have "\<forall>x \<in> set w. x \<noteq> 0 \<and> x \<noteq> newline" using p(2,3) by auto
  then have tw: "takeWhile (\<lambda>x. x \<noteq> 0 \<and> x \<noteq> newline) p = w" unfolding p(1) by (simp add: takeWhile_append2)
  have "(0 :: u8) \<noteq> newline" by (simp add: newline_def)
  then show ?thesis unfolding grep_lines.simps [of pattern p] Let_def tw by (simp add: p(1))
qed

lemma grep_stuck: "stuck buf \<Longrightarrow> grep rd pattern buf input = []"
proof (induction "length input" arbitrary: buf input rule: less_induct)
  case less
  define space where "space = BUFSIZE - length buf - 1"
  define got where "got = take (min (rd space input) space) input"
  note step = grep.simps [of rd pattern buf input, unfolded Let_def, folded space_def, folded got_def]
  have st: "stuck (buf @ got)" by (rule stuck_append [OF less.prems])
  show ?case
  proof (cases "got = []")
    case False
    then have "input \<noteq> []" "0 < length got" by (auto simp: got_def)
    then have "length (drop (length got) input) < length input" by simp
    then show ?thesis unfolding step stuck_lines [OF st] using less.hyps [OF _ st] by simp
  qed (simp add: step)
qed

text \<open>The lines that the inner loop can work on: no NUL, and short enough to be in the buffer with their newline.\<close>

definition good_line :: "u8 list \<Rightarrow> bool" where
  "good_line l \<longleftrightarrow> 0 \<notin> set l \<and> length l \<le> 1022"

text \<open>The inner loop stops behind the complete lines, or at the first line that holds a NUL.\<close>

lemma grep_lines_spec:
  "\<exists>p'. grep_lines pattern p = (grep_spec pattern (takeWhile (\<lambda>l. 0 \<notin> set l) (split_lines [] p)), p') \<and>
    ((\<forall>l \<in> set (split_lines [] p). 0 \<notin> set l) \<and> p' = last_line [] p \<and> 0 \<notin> set p' \<or>
     stuck p' \<and> (\<forall>more. \<exists>ls. split_lines [] (p @ more) = takeWhile (\<lambda>l. 0 \<notin> set l) (split_lines [] p) @ ls \<and> (ls = [] \<or> 0 \<in> set (hd ls))))"
proof (induction pattern p rule: grep_lines.induct)
  case (1 pattern p)
  define line where "line = takeWhile (\<lambda>x. x \<noteq> 0 \<and> x \<noteq> newline) p"
  define rest where "rest = drop (length line) p"
  have dw: "rest = dropWhile (\<lambda>x. x \<noteq> 0 \<and> x \<noteq> newline) p" unfolding rest_def line_def by (simp add: dropWhile_eq_drop)
  have p: "p = line @ rest" unfolding dw line_def by simp
  have nl: "newline \<notin> set line" "0 \<notin> set line" unfolding line_def by (auto dest: set_takeWhileD)
  note step = grep_lines.simps [of pattern p, unfolded Let_def, folded line_def, folded rest_def]
  consider (line) r where "rest = newline # r" | (nul) r where "rest = 0 # r" | (none) "rest = []"
  proof (cases rest)
    case (Cons x r)
    then have "\<not> (x \<noteq> 0 \<and> x \<noteq> newline)" using hd_dropWhile [of "\<lambda>x. x \<noteq> 0 \<and> x \<noteq> newline" p] unfolding dw by auto
    then show ?thesis using Cons that by blast
  qed blast
  then show ?case
  proof cases
    case line
    have sl: "split_lines [] (p @ more) = line # split_lines [] (r @ more)" for more
      using line by (simp add: p split_lines_skip [OF nl(1)])
    have ll: "last_line [] p = last_line [] r" using line by (simp add: p last_line_skip [OF nl(1)])
    have h: "rest \<noteq> [] \<and> hd rest = newline" "tl rest = r" using line by simp_all
    obtain p' where p': "grep_lines pattern r = (grep_spec pattern (takeWhile (\<lambda>l. 0 \<notin> set l) (split_lines [] r)), p')"
      "(\<forall>l \<in> set (split_lines [] r). 0 \<notin> set l) \<and> p' = last_line [] r \<and> 0 \<notin> set p' \<or>
       stuck p' \<and> (\<forall>more. \<exists>ls. split_lines [] (r @ more) = takeWhile (\<lambda>l. 0 \<notin> set l) (split_lines [] r) @ ls \<and> (ls = [] \<or> 0 \<in> set (hd ls)))"
      using 1 [OF line_def rest_def h(1), unfolded h(2)] by blast
    have "grep_lines pattern p = (grep_spec pattern (takeWhile (\<lambda>l. 0 \<notin> set l) (split_lines [] p)), p')"
      using step h p'(1) nl(2) sl [of "[]"] by (simp add: grep_spec_def)
    then show ?thesis using p'(2) nl(2) sl sl [of "[]"] ll by auto
  next
    case nul
    have st: "stuck p" unfolding stuck_def using nul p nl by blast
    have sl: "split_lines [] (p @ more) = [] \<or> 0 \<in> set (hd (split_lines [] (p @ more)))" for more
      using split_lines_head [of "line @ [0]" "r @ more"] nul by (auto simp: p split_lines_skip [OF nl(1)] newline_def)
    then have "takeWhile (\<lambda>l. 0 \<notin> set l) (split_lines [] p) = []" using sl [of "[]"] by (cases "split_lines [] p") auto
    then show ?thesis using stuck_lines [OF st, of pattern] sl st by (simp add: grep_spec_def)
  next
    case none
    then have "p = line" using p by simp
    then have "split_lines [] p = []" "last_line [] p = p" "0 \<notin> set p"
      using split_lines_skip [of p "[]" "[]"] last_line_skip [of p "[]" "[]"] nl by simp_all
    then show ?thesis using step none by (simp add: grep_spec_def)
  qed
qed

lemma takeWhile_stop: "\<forall>l \<in> set xs. P l \<Longrightarrow> ys = [] \<or> \<not> P (hd ys) \<Longrightarrow> takeWhile P (xs @ ys) = xs"
  by (induction xs) (cases ys; auto)+

lemma grep_from_buffer:
  assumes rd: "\<And>n inp. 0 < n \<Longrightarrow> inp \<noteq> [] \<Longrightarrow> 0 < rd n inp"
  shows "0 \<notin> set buf \<Longrightarrow> newline \<notin> set buf \<Longrightarrow> length buf \<le> 1023 \<Longrightarrow>
    grep rd pattern buf input = grep_spec pattern (takeWhile good_line (split_lines buf input))"
proof (induction "length input" arbitrary: buf input rule: less_induct)
  case less
  define space where "space = BUFSIZE - length buf - 1"
  define got where "got = take (min (rd space input) space) input"
  note step = grep.simps [of rd pattern buf input, unfolded Let_def, folded space_def, folded got_def]
  consider (empty) "input = []" | (full) "length buf = 1023" | (more) "input \<noteq> []" "length buf < 1023"
    using less.prems(3) by linarith
  then show ?case
  proof cases
    case empty
    then show ?thesis unfolding step by (simp add: got_def grep_spec_def)
  next
    case full
    then have "takeWhile good_line (split_lines buf input) = []"
      using split_lines_head [of buf input] by (cases "split_lines buf input") (auto simp: good_line_def)
    moreover have "got = []" using full by (simp add: got_def space_def BUFSIZE_def)
    ultimately show ?thesis unfolding step by (simp add: grep_spec_def)
  next
    case more
    define after where "after = drop (length got) input"
    let ?p = "buf @ got"
    have sp: "0 < space" "space \<le> 1023 - length buf" using more by (simp_all add: space_def BUFSIZE_def)
    have ne: "got \<noteq> []" using rd [OF sp(1) more(1)] sp more by (simp add: got_def)
    have "xs = take k xs @ drop (length (take k xs)) xs" for k and xs :: "u8 list" by (cases "k \<le> length xs") simp_all
    then have inp: "input = got @ after" unfolding after_def got_def .
    have sl: "split_lines buf input = split_lines [] (?p @ after)"
      unfolding inp using split_lines_skip [OF less.prems(2), of "[]"] by simp
    have lp: "length ?p \<le> 1023" using sp(2) more by (simp add: got_def)
    obtain p' where g: "grep_lines pattern ?p = (grep_spec pattern (takeWhile (\<lambda>l. 0 \<notin> set l) (split_lines [] ?p)), p')"
      and rest: "(\<forall>l \<in> set (split_lines [] ?p). 0 \<notin> set l) \<and> p' = last_line [] ?p \<and> 0 \<notin> set p' \<or>
        stuck p' \<and> (\<forall>more. \<exists>ls. split_lines [] (?p @ more) = takeWhile (\<lambda>l. 0 \<notin> set l) (split_lines [] ?p) @ ls \<and> (ls = [] \<or> 0 \<in> set (hd ls)))"
      using grep_lines_spec by blast
    have run: "grep rd pattern buf input = grep_spec pattern (takeWhile (\<lambda>l. 0 \<notin> set l) (split_lines [] ?p)) @ grep rd pattern p' after"
      unfolding step g using ne by (simp add: after_def)
    have short: "length l \<le> 1022" if "l \<in> set (split_lines [] ?p)" for l
    proof -
      have "length l < length ?p" using split_lines_short [OF that] by simp
      then show ?thesis using lp by linarith
    qed
    show ?thesis
      using rest
    proof (elim disjE conjE)
      assume c: "\<forall>l \<in> set (split_lines [] ?p). 0 \<notin> set l" "p' = last_line [] ?p" "0 \<notin> set p'"
      have "length p' \<le> 1023" using last_line_length [of "[]" ?p] lp c(2) by simp
      moreover have "length after < length input" using ne inp by (cases got) simp_all
      ultimately have ih: "grep rd pattern p' after = grep_spec pattern (takeWhile good_line (split_lines p' after))"
        using less.hyps c(2,3) last_line_newline [of "[]" ?p] by simp
      have "\<forall>l \<in> set (split_lines [] ?p). good_line l" using c(1) short by (simp add: good_line_def)
      then have "takeWhile good_line (split_lines buf input) = split_lines [] ?p @ takeWhile good_line (split_lines p' after)"
        unfolding sl split_lines_append [of "[]" ?p] c(2) by (simp add: takeWhile_append2)
      moreover have "takeWhile (\<lambda>l. 0 \<notin> set l) (split_lines [] ?p) = split_lines [] ?p" using c(1) by (simp add: takeWhile_eq_all_conv)
      ultimately show ?thesis unfolding run ih by (simp only: grep_spec_append)
    next
      assume c: "stuck p'" "\<forall>more. \<exists>ls. split_lines [] (?p @ more) = takeWhile (\<lambda>l. 0 \<notin> set l) (split_lines [] ?p) @ ls \<and> (ls = [] \<or> 0 \<in> set (hd ls))"
      obtain ls where ls: "split_lines buf input = takeWhile (\<lambda>l. 0 \<notin> set l) (split_lines [] ?p) @ ls" "ls = [] \<or> 0 \<in> set (hd ls)"
        unfolding sl using c(2) by blast
      have "takeWhile good_line (split_lines buf input) = takeWhile (\<lambda>l. 0 \<notin> set l) (split_lines [] ?p)"
        unfolding ls(1) using short ls(2) by (intro takeWhile_stop) (auto simp: good_line_def dest: set_takeWhileD)
      then show ?thesis unfolding run grep_stuck [OF c(1)] by simp
    qed
  qed
qed

text \<open>
  C22: on every input, in whatever portions \<open>read\<close> delivers it, \<open>grep\<close> writes exactly the lines that match, each with its
  newline and in order, up to the first line that holds a NUL or has more than 1022 bytes: from there on it writes nothing.
  A last line without a newline does not count as a line.
\<close>

theorem grep_filters_lines:
  assumes "\<And>n inp. 0 < n \<Longrightarrow> inp \<noteq> [] \<Longrightarrow> 0 < rd n inp"
  shows "grep rd pattern [] input =
    concat (map (\<lambda>l. l @ [newline]) (filter (match pattern) (takeWhile (\<lambda>l. 0 \<notin> set l \<and> length l \<le> 1022) (split_lines [] input))))"
  using grep_from_buffer [of rd "[]" pattern input] assms by (simp add: grep_spec_def good_line_def [abs_def])

text \<open>
  Read two bytes at a time; the pattern \<open>^a*b\<close> takes the first and the third line, not the fourth, which has a NUL, and
  not the fifth behind it.
\<close>

theorem grep_filters_lines_witness:
  "grep (\<lambda>n inp. 2) [94, 97, 42, 98] [] [97, 98, 10, 99, 10, 98, 10, 98, 0, 10, 98, 10, 98] = [97, 98, 10, 98, 10]"
proof -
  have "grep (\<lambda>n inp. 2) [94, 97, 42, 98] [] [97, 98, 10, 99, 10, 98, 10, 98, 0, 10, 98, 10, 98] =
    concat (map (\<lambda>l. l @ [newline]) (filter (match [94, 97, 42, 98])
      (takeWhile (\<lambda>l. 0 \<notin> set l \<and> length l \<le> 1022) (split_lines [] [97, 98, 10, 99, 10, 98, 10, 98, 0, 10, 98, 10, 98]))))"
    by (rule grep_filters_lines) simp
  then show ?thesis
    by (simp add: newline_def match_def caret_def matchhere.simps matchstar.simps star_def dollar_def hit_def dot_def)
qed

end
