(* ===== verification/Printf.thy ===== *)
theory Printf
  imports Vm_Bytes
begin

text \<open>
  Formatted output: kernel/printf.c and user/printf.c. What is printed is the list of the bytes handed to
  \<open>consputc\<close> or written by \<open>putc\<close>. The variable arguments are a list of 64-bit words; \<open>None\<close> is an argument too
  few, a write past the buffer of \<open>printint\<close>, or a string without a NUL. The locks around the kernel's output
  and the end of \<open>panic\<close> (an endless loop) are not part of the output.
\<close>

section \<open>Numbers\<close>

definition digits_kernel :: "u8 list" where "digits_kernel = map of_nat ([48..<58] @ [97..<103])"
definition digits_user :: "u8 list" where "digits_user = map of_nat ([48..<58] @ [65..<71])"

text \<open>The loop that fills \<open>buf\<close> from the least digit on.\<close>

partial_function (option) put_digits :: "u8 list \<Rightarrow> u32 \<Rightarrow> u32 \<Rightarrow> u8 list option" where
  "put_digits digits base x =
     (if base = 0 then None
      else if x div base = 0 then Some [digits ! unat (x mod base)]
      else do { ds \<leftarrow> put_digits digits base (x div base); Some (digits ! unat (x mod base) # ds) })"

definition printint :: "u8 list \<Rightarrow> u32 \<Rightarrow> u32 \<Rightarrow> bool \<Rightarrow> u8 list option" where
  "printint digits xx base sign = do {
     let neg = sign \<and> sint xx < 0;
     buf \<leftarrow> put_digits digits base (if neg then - xx else xx);
     let buf' = (if neg then buf @ [45] else buf);
     if length buf' \<le> 16 then Some (rev buf') else None }"

text \<open>The sixteen digits of a pointer: the top four bits, then a shift.\<close>

primrec ptr_digits :: "u8 list \<Rightarrow> nat \<Rightarrow> u64 \<Rightarrow> u8 list" where
  "ptr_digits digits 0 x = []"
| "ptr_digits digits (Suc n) x = digits ! unat (drop_bit 60 x) # ptr_digits digits n (push_bit 4 x)"

definition printptr :: "u8 list \<Rightarrow> u64 \<Rightarrow> u8 list" where
  "printptr digits x = [48, 120] @ ptr_digits digits 16 x"

text \<open>The argument of \<open>%s\<close>: the bytes at an address up to the NUL, \<open>(null)\<close> for a null pointer.\<close>

definition str_arg :: "memory \<Rightarrow> u64 \<Rightarrow> u8 list option" where
  "str_arg m s = (if s = 0 then Some [40, 110, 117, 108, 108, 41] else do { n \<leftarrow> strlen m s; Some (read_bytes m s n) })"

section \<open>The kernel's printf\<close>

fun printf_kernel :: "memory \<Rightarrow> u8 list \<Rightarrow> u64 list \<Rightarrow> u8 list option" where
  "printf_kernel m [] args = Some []"
| "printf_kernel m (c # fmt) args =
     (if c \<noteq> 37 then map_option ((#) c) (printf_kernel m fmt args)
      else case fmt of
        [] \<Rightarrow> Some []
      | d # rest \<Rightarrow>
          if d \<in> {100, 120, 112, 115} then
            (case args of
               [] \<Rightarrow> None
             | a # args' \<Rightarrow> do {
                 out \<leftarrow> (if d = 100 then printint digits_kernel (ucast a) 10 True
                        else if d = 120 then printint digits_kernel (ucast a) 16 True
                        else if d = 112 then Some (printptr digits_kernel a)
                        else str_arg m a);
                 more \<leftarrow> printf_kernel m rest args';
                 Some (out @ more) })
          else if d = 37 then map_option ((#) 37) (printf_kernel m rest args)
          else map_option (\<lambda>out. [37, d] @ out) (printf_kernel m rest args))"

section \<open>The user's printf\<close>

text \<open>\<open>vprintf\<close> with its two states; \<open>%l\<close> hands its 64 bits to the \<open>int\<close> of \<open>printint\<close>.\<close>

fun vprintf :: "memory \<Rightarrow> bool \<Rightarrow> u8 list \<Rightarrow> u64 list \<Rightarrow> u8 list option" where
  "vprintf m percent [] args = Some []"
| "vprintf m False (c # fmt) args =
     (if c = 37 then vprintf m True fmt args else map_option ((#) c) (vprintf m False fmt args))"
| "vprintf m True (c # fmt) args =
     (if c \<in> {100, 108, 120, 112, 115, 99} then
        (case args of
           [] \<Rightarrow> None
         | a # args' \<Rightarrow> do {
             out \<leftarrow> (if c = 100 then printint digits_user (ucast a) 10 True
                    else if c = 108 then printint digits_user (ucast a) 10 False
                    else if c = 120 then printint digits_user (ucast a) 16 False
                    else if c = 112 then Some (printptr digits_user a)
                    else if c = 115 then str_arg m a
                    else Some [ucast a]);
             more \<leftarrow> vprintf m False fmt args';
             Some (out @ more) })
      else if c = 37 then map_option ((#) c) (vprintf m False fmt args)
      else map_option (\<lambda>out. [37, c] @ out) (vprintf m False fmt args))"

section \<open>What printint prints\<close>

definition number :: "nat \<Rightarrow> nat list \<Rightarrow> nat" where
  "number b ds = foldl (\<lambda>n d. b * n + d) 0 ds"

lemma number_snoc [simp]: "number b (ds @ [d]) = b * number b ds + d"
  by (simp add: number_def)

text \<open>\<open>ds\<close> are the digits of \<open>n\<close>, without a leading zero.\<close>

definition canonical :: "nat \<Rightarrow> nat \<Rightarrow> nat list \<Rightarrow> bool" where
  "canonical b n ds \<longleftrightarrow> number b ds = n \<and> ds \<noteq> [] \<and> (\<forall>d \<in> set ds. d < b) \<and> (hd ds = 0 \<longrightarrow> ds = [0])"

lemma put_digits_ok:
  assumes "2 \<le> unat base"
  shows "\<exists>ds. put_digits digits base x = Some (rev (map ((!) digits) ds)) \<and> canonical (unat base) (unat x) ds"
proof (induction "unat x" arbitrary: x rule: less_induct)
  case less
  let ?b = "unat base"
  have b0: "base \<noteq> 0" using assms by auto
  have dm: "unat (x div base) = unat x div ?b" "unat (x mod base) = unat x mod ?b" by (simp_all add: unat_div unat_mod)
  show ?case
  proof (cases "unat x < ?b")
    case True
    then have "x div base = 0" using dm(1) by (simp add: word_unat_eq_iff div_eq_0_iff)
    then have "put_digits digits base x = Some (rev (map ((!) digits) [unat x]))"
      using True b0 dm(2) by (subst put_digits.simps) simp
    moreover have "canonical ?b (unat x) [unat x]" using True by (simp add: canonical_def number_def)
    ultimately show ?thesis by (intro exI [of _ "[unat x]"]) simp
  next
    case False
    have nz: "x div base \<noteq> 0" using False dm(1) assms by (simp add: word_unat_eq_iff div_eq_0_iff)
    have lt: "unat (x div base) < unat x" using False assms dm(1) by (simp add: div_less_dividend)
    obtain ds where ds: "put_digits digits base (x div base) = Some (rev (map ((!) digits) ds))"
        "canonical ?b (unat x div ?b) ds"
      using less.hyps [OF lt] dm(1) by auto
    have "put_digits digits base x = Some (rev (map ((!) digits) (ds @ [unat x mod ?b])))"
      using b0 nz ds(1) dm(2) by (subst put_digits.simps) simp
    moreover have "canonical ?b (unat x) (ds @ [unat x mod ?b])"
    proof -
      have "ds \<noteq> [0]" using ds(2) False assms by (auto simp: canonical_def number_def div_eq_0_iff)
      then show ?thesis using ds(2) assms by (auto simp: canonical_def)
    qed
    ultimately show ?thesis by blast
  qed
qed

lemma number_ge: "ds \<noteq> [] \<Longrightarrow> hd ds * b ^ (length ds - 1) \<le> number b ds"
proof (induction ds rule: rev_induct)
  case (snoc d ds)
  show ?case
  proof (cases "length ds")
    case (Suc k)
    then have n: "ds \<noteq> []" by auto
    have e: "hd (ds @ [d]) * b ^ (length (ds @ [d]) - 1) = b * (hd ds * b ^ k)" using Suc n by simp
    have "b * (hd ds * b ^ k) \<le> b * number b ds" using snoc.IH [OF n] Suc by (intro mult_le_mono2) simp
    then show ?thesis unfolding e number_snoc by linarith
  qed (simp add: number_def)
qed simp

lemma canonical_length:
  assumes "canonical b n ds" and "n < 2 ^ 32" and "5 \<le> b"
  shows "length ds \<le> 14"
proof (cases "hd ds = 0")
  case True
  then show ?thesis using assms(1) by (simp add: canonical_def)
next
  case False
  have "5 ^ (length ds - 1) \<le> b ^ (length ds - 1)" using assms(3) by (rule power_mono) simp
  also have "\<dots> \<le> hd ds * b ^ (length ds - 1)" using False by simp
  also have "\<dots> \<le> n" using number_ge [of ds b] assms(1) by (auto simp: canonical_def)
  finally have "5 ^ (length ds - 1) < (2 :: nat) ^ 32" using assms(2) by simp
  also have "\<dots> < 5 ^ 14" by simp
  finally have "length ds - 1 < 14" by (rule power_less_imp_less_exp [rotated]) simp
  then show ?thesis by simp
qed

text \<open>The number that is printed without its sign; for the least \<open>int\<close> the negation stays as it is.\<close>

definition shown :: "bool \<Rightarrow> u32 \<Rightarrow> nat" where
  "shown sign xx = (if sign then nat \<bar>sint xx\<bar> else unat xx)"

lemma magnitude: "unat (if sign \<and> sint (xx :: u32) < 0 then - xx else xx) = shown sign xx"
proof (cases "sign \<and> sint xx < 0")
  case True
  have r: "- (2 ^ 31) \<le> sint xx" using sint_greater_eq [of xx] by simp
  have "uint (- xx) = (- uint xx) mod 2 ^ 32" by (simp add: uint_word_ariths)
  also have "- uint xx = - sint xx - 2 ^ 32" using True uint_sint32 [of xx] by simp
  also have "(- sint xx - 2 ^ 32) mod 2 ^ 32 = (- sint xx) mod 2 ^ 32" by simp
  also have "\<dots> = - sint xx" using True r by (intro mod_pos_pos_trivial) simp_all
  finally have "unat (- xx) = nat (- sint xx)" by (simp add: unat_eq_nat_uint)
  then show ?thesis using True by (simp add: shown_def)
next
  case False
  have "unat xx = nat (sint xx)" if "\<not> sint xx < 0"
  proof -
    have "uint xx = sint xx" using that uint_sint32 [of xx] by simp
    then show ?thesis by (simp only: unat_eq_nat_uint)
  qed
  then show ?thesis using False by (auto simp: shown_def)
qed

lemma printint_ok:
  assumes "5 \<le> unat base"
  shows "\<exists>ds. printint digits xx base sign = Some ((if sign \<and> sint xx < 0 then [45] else []) @ map ((!) digits) ds) \<and>
    canonical (unat base) (shown sign xx) ds \<and> length ds \<le> 14"
proof -
  let ?x = "if sign \<and> sint xx < 0 then - xx else xx"
  obtain ds where ds: "put_digits digits base ?x = Some (rev (map ((!) digits) ds))" "canonical (unat base) (shown sign xx) ds"
    using put_digits_ok [of base digits ?x] assms magnitude [of sign xx] by auto
  have "shown sign xx < 2 ^ 32" using unat_lt_u32 [of ?x] magnitude [of sign xx] by simp
  then have l: "length ds \<le> 14" using canonical_length [OF ds(2)] assms by simp
  then have "printint digits xx base sign = Some ((if sign \<and> sint xx < 0 then [45] else []) @ map ((!) digits) ds)"
    using ds(1) by (auto simp: printint_def Let_def)
  then show ?thesis using ds(2) l by blast
qed

text \<open>
  C30: for every base from 5 to 16, \<open>printint\<close> stays inside its buffer of sixteen bytes and prints the number
  exactly: the sign of a negative \<open>int\<close>, the least one included, and its digits without leading zeros.
\<close>

theorem printint_exact:
  assumes "5 \<le> unat base"
  shows "\<exists>ds. printint digits xx base sign = Some ((if sign \<and> sint xx < 0 then [45] else []) @ map ((!) digits) ds) \<and>
    number (unat base) ds = (if sign then nat \<bar>sint xx\<bar> else unat xx) \<and> (\<forall>d \<in> set ds. d < unat base) \<and>
    ds \<noteq> [] \<and> (hd ds = 0 \<longrightarrow> ds = [0]) \<and> length ds < 16"
proof -
  obtain ds where "printint digits xx base sign = Some ((if sign \<and> sint xx < 0 then [45] else []) @ map ((!) digits) ds)"
      "canonical (unat base) (shown sign xx) ds" "length ds \<le> 14"
    using printint_ok [OF assms] by blast
  then show ?thesis by (intro exI [of _ ds]) (simp add: canonical_def shown_def)
qed

theorem printint_exact_witness:
  "\<exists>ds. printint digits_kernel 0x80000000 10 True = Some (45 # map ((!) digits_kernel) ds) \<and> number 10 ds = 2147483648 \<and>
     (\<forall>d \<in> set ds. d < 10) \<and> ds \<noteq> [] \<and> (hd ds = 0 \<longrightarrow> ds = [0]) \<and> length ds < 16"
proof -
  have "5 \<le> unat (10 :: u32)" by simp
  from printint_exact [OF this, of digits_kernel "0x80000000" True] show ?thesis by simp
qed

end
