(* ===== verification/Ulib.thy ===== *)
theory Ulib
  imports Printf
begin

text \<open>
  The C library of user programs, user/ulib.c, on byte memory. \<open>None\<close> is a loop that meets no NUL or a signed
  overflow. \<open>stat\<close> and \<open>_main\<close> only pass system calls on.
\<close>

section \<open>Strings\<close>

partial_function (option) ulib_strcpy :: "memory \<Rightarrow> u64 \<Rightarrow> u64 \<Rightarrow> memory option" where
  "ulib_strcpy m s t = (if m t = 0 then Some (m(s := m t)) else ulib_strcpy (m(s := m t)) (s + 1) (t + 1))"

partial_function (option) ulib_strcmp :: "memory \<Rightarrow> u64 \<Rightarrow> u64 \<Rightarrow> int option" where
  "ulib_strcmp m p q = (if m p \<noteq> 0 \<and> m p = m q then ulib_strcmp m (p + 1) (q + 1) else Some (uint (m p) - uint (m q)))"

partial_function (option) ulib_strlen :: "memory \<Rightarrow> u64 \<Rightarrow> nat \<Rightarrow> nat option" where
  "ulib_strlen m s n = (if m (s + of_nat n) = 0 then Some n else ulib_strlen m s (Suc n))"

partial_function (option) ulib_strchr :: "memory \<Rightarrow> u64 \<Rightarrow> u8 \<Rightarrow> u64 option" where
  "ulib_strchr m s c = (if m s = 0 then Some 0 else if m s = c then Some s else ulib_strchr m (s + 1) c)"

section \<open>Memory\<close>

definition ulib_memset :: "memory \<Rightarrow> u64 \<Rightarrow> int \<Rightarrow> u32 \<Rightarrow> memory" where
  "ulib_memset m dst c n = memset_loop m dst (of_int c) 0 (unat n)"

definition ulib_memmove :: "memory \<Rightarrow> u64 \<Rightarrow> u64 \<Rightarrow> int \<Rightarrow> memory" where
  "ulib_memmove m dst src n =
     (if src > dst then copy_up m dst src (nat n) else copy_down m (dst + of_int n) (src + of_int n) (nat n))"

primrec ulib_memcmp :: "memory \<Rightarrow> u64 \<Rightarrow> u64 \<Rightarrow> nat \<Rightarrow> int" where
  "ulib_memcmp m p1 p2 0 = 0"
| "ulib_memcmp m p1 p2 (Suc n) = (if m p1 \<noteq> m p2 then uint (m p1) - uint (m p2) else ulib_memcmp m (p1 + 1) (p2 + 1) n)"

definition ulib_memcpy :: "memory \<Rightarrow> u64 \<Rightarrow> u64 \<Rightarrow> u32 \<Rightarrow> memory" where
  "ulib_memcpy m dst src n = ulib_memmove m dst src (sint n)"

section \<open>Input and numbers\<close>

text \<open>
  The loop of \<open>gets\<close> with room for \<open>k\<close> more bytes: what it stores before the NUL, and the input that is left. The
  input ends where \<open>read\<close> returns no byte.
\<close>

fun gets_loop :: "nat \<Rightarrow> u8 list \<Rightarrow> u8 list \<times> u8 list" where
  "gets_loop 0 inp = ([], inp)"
| "gets_loop (Suc k) [] = ([], [])"
| "gets_loop (Suc k) (c # inp) =
     (if c = 10 \<or> c = 13 then ([c], inp) else case gets_loop k inp of (bs, rest) \<Rightarrow> (c # bs, rest))"

definition gets :: "u8 list \<Rightarrow> nat \<Rightarrow> u8 list \<times> u8 list" where "gets inp n = gets_loop (n - 1) inp"

text \<open>\<open>atoi\<close> on the bytes of a string; the sum \<open>n * 10 + *s\<close> of an \<open>int\<close> must not overflow.\<close>

fun atoi_loop :: "int \<Rightarrow> u8 list \<Rightarrow> int option" where
  "atoi_loop n [] = Some n"
| "atoi_loop n (c # s) =
     (if 48 \<le> c \<and> c \<le> 57 then
        if n * 10 + uint c < 2 ^ 31 then atoi_loop (n * 10 + uint c - 48) s else None
      else Some n)"

definition atoi :: "u8 list \<Rightarrow> int option" where "atoi s = atoi_loop 0 s"

section \<open>What they do\<close>

lemma no_wrap_offset:
  "unat (p :: u64) + n < 2 ^ 64 \<Longrightarrow> k < n \<Longrightarrow> unat (p + of_nat k) = unat p + k"
  by (simp add: unat_word_ariths unat_of_nat_lt64)

text \<open>It moves as if through a buffer of its own, overlapping regions included.\<close>

lemma ulib_memmove_apply:
  assumes n: "0 \<le> n" and src: "unat src + nat n < 2 ^ 64" and dst: "unat dst + nat n < 2 ^ 64"
  shows "ulib_memmove m dst src n a = (if in_region dst (nat n) a then m (src + (a - dst)) else m a)"
proof (cases "src > dst")
  case True
  have "copy_up m dst src (nat n) a = (if in_region dst (nat n) a then m (src + (a - dst)) else m a)"
  proof (rule copy_up_apply)
    fix k :: nat assume "0 < k" "k < nat n"
    then show "dst \<noteq> src + of_nat k" using no_wrap_offset [OF src, of k] True by (auto simp: word_less_nat_alt)
  qed (use dst in simp)
  then show ?thesis using True by (simp add: ulib_memmove_def)
next
  case False
  have e: "of_int n = (of_nat (nat n) :: u64)" using n by simp
  have "copy_down m (dst + of_nat (nat n)) (src + of_nat (nat n)) (nat n) a =
      (if in_region dst (nat n) a then m (src + (a - dst)) else m a)"
  proof (rule copy_down_apply)
    fix k :: nat assume "0 < k" "k < nat n"
    then show "src \<noteq> dst + of_nat k" using no_wrap_offset [OF dst, of k] False by (auto simp: word_less_nat_alt)
  qed (use dst in simp)
  then show ?thesis using False unfolding ulib_memmove_def e by simp
qed

text \<open>\<open>gets\<close> takes the bytes up to the end of the line, the end of the input or the end of the buffer.\<close>

lemma gets_loop_prefix: "gets_loop k inp = (bs, rest) \<Longrightarrow> inp = bs @ rest \<and> length bs \<le> k \<and>
    (\<forall>c \<in> set (butlast bs). c \<noteq> 10 \<and> c \<noteq> 13) \<and>
    (bs \<noteq> [] \<and> last bs \<in> {10, 13} \<or> rest = [] \<or> length bs = k)"
proof (induction k inp arbitrary: bs rest rule: gets_loop.induct)
  case (3 k c inp)
  show ?case
  proof (cases "c = 10 \<or> c = 13")
    case True
    then have "bs = [c]" "rest = inp" using "3.prems" by auto
    then show ?thesis using True by simp
  next
    case False
    obtain bs' rest' where g: "gets_loop k inp = (bs', rest')" by fastforce
    then have b: "bs = c # bs'" "rest = rest'" using "3.prems" False by auto
    note ih = "3.IH" [OF False g]
    show ?thesis using ih b False by (cases "bs' = []") simp_all
  qed
qed simp_all

lemma atoi_loop_digits:
  "\<forall>d \<in> set ds. d < 10 \<Longrightarrow> int (foldl (\<lambda>n d. 10 * n + d) n ds) + 48 < 2 ^ 31 \<Longrightarrow>
    atoi_loop (int n) (map (\<lambda>d. of_nat (48 + d)) ds) = Some (int (foldl (\<lambda>n d. 10 * n + d) n ds))"
proof (induction ds arbitrary: n)
  case (Cons d ds)
  have d: "d < 10" using Cons.prems(1) by simp
  have ge: "n \<le> foldl (\<lambda>n d. 10 * n + d) n ds" for n
  proof (induction ds arbitrary: n)
    case (Cons e ds)
    show ?case using Cons.IH [of "10 * n + e"] by simp
  qed simp
  have u: "unat (of_nat (48 + d) :: u8) = 48 + d" using d by (simp add: unat_of_nat del: of_nat_add)
  then have c: "48 \<le> (of_nat (48 + d) :: u8) \<and> (of_nat (48 + d) :: u8) \<le> 57" "uint (of_nat (48 + d) :: u8) = int (48 + d)"
    using d by (simp_all add: word_le_nat_alt uint_nat del: of_nat_add)
  have "int (10 * n + d) + 48 < 2 ^ 31" using ge [of "10 * n + d"] Cons.prems(2) by simp
  then have "atoi_loop (int n) (of_nat (48 + d) # map (\<lambda>d. of_nat (48 + d)) ds) = atoi_loop (int (10 * n + d)) (map (\<lambda>d. of_nat (48 + d)) ds)"
    using c by (simp del: of_nat_add) (simp add: algebra_simps)
  also have "\<dots> = Some (int (foldl (\<lambda>n d. 10 * n + d) (10 * n + d) ds))" using Cons.prems by (intro Cons.IH) simp_all
  finally show ?case by simp
qed simp

text \<open>\<open>atoi\<close> reads back what \<open>printf("%d")\<close> prints, up to the number where its sum overflows.\<close>

theorem atoi_printint:
  assumes "sint x \<ge> 0" and "sint x < 2 ^ 31 - 48"
  shows "\<exists>bs. printint digits_user x 10 True = Some bs \<and> atoi bs = Some (sint x)"
proof -
  obtain ds where p: "printint digits_user x 10 True = Some (map ((!) digits_user) ds)" and c: "canonical 10 (shown True x) ds"
    using printint_ok [of "10 :: u32" digits_user x True] assms(1) by auto
  have n: "int (foldl (\<lambda>n d. 10 * n + d) 0 ds) = sint x" using c assms(1) by (simp add: canonical_def number_def shown_def)
  have d: "\<forall>d \<in> set ds. d < 10" using c by (simp add: canonical_def)
  have "digits_user ! d = of_nat (48 + d)" if "d < 10" for d
    using that unfolding digits_user_def by (subst nth_map) (simp_all add: nth_append del: upt_rec_numeral)
  then have e: "map ((!) digits_user) ds = map (\<lambda>d. of_nat (48 + d)) ds" using d by simp
  have "atoi (map ((!) digits_user) ds) = Some (sint x)"
    unfolding e using atoi_loop_digits [OF d, of 0] n assms(2) by (simp add: atoi_def)
  then show ?thesis using p by blast
qed

theorem atoi_printint_witness:
  "\<exists>bs. printint digits_user 2024 10 True = Some bs \<and> atoi bs = Some 2024"
proof -
  have "sint (2024 :: u32) = 2024" by simp
  then show ?thesis using atoi_printint [of 2024] by simp
qed

end
