(* ===== verification/Wc.thy ===== *)
theory Wc
  imports Ulib
begin

text \<open>
  The program user/wc.c: the loop over the buffers that \<open>read\<close> returns, against the number of bytes, newlines and words of
  the whole input. \<open>None\<close> is the overflow of a counter, which is a signed \<open>int\<close>.
\<close>

section \<open>The program\<close>

record wc_state =
  wc_l :: int
  wc_w :: int
  wc_c :: int
  inword :: bool

text \<open>\<open>strchr\<close> of user/ulib.c does not find the NUL, so a NUL is part of a word.\<close>

definition wc_space :: "u8 \<Rightarrow> bool" where
  "wc_space c \<longleftrightarrow> c \<in> set [32, 13, 9, 10, 11]"

definition count_up :: "int \<Rightarrow> int option" where
  "count_up n = (if n + 1 < 2 ^ 31 then Some (n + 1) else None)"

definition wc_byte :: "u8 \<Rightarrow> wc_state \<Rightarrow> wc_state option" where
  "wc_byte b s = do {
     c \<leftarrow> count_up (wc_c s);
     let s1 = s\<lparr>wc_c := c\<rparr>;
     s2 \<leftarrow> (if b = 10 then do { l \<leftarrow> count_up (wc_l s1); Some (s1\<lparr>wc_l := l\<rparr>) } else Some s1);
     if wc_space b then Some (s2\<lparr>inword := False\<rparr>)
     else if \<not> inword s2 then do { w \<leftarrow> count_up (wc_w s2); Some (s2\<lparr>wc_w := w, inword := True\<rparr>) }
     else Some s2 }"

primrec wc_bytes :: "u8 list \<Rightarrow> wc_state \<Rightarrow> wc_state option" where
  "wc_bytes [] s = Some s"
| "wc_bytes (b # bs) s = do { s1 \<leftarrow> wc_byte b s; wc_bytes bs s1 }"

text \<open>\<open>reads\<close> are the results of \<open>read\<close> before the one that is not positive.\<close>

primrec wc_loop :: "u8 list list \<Rightarrow> wc_state \<Rightarrow> wc_state option" where
  "wc_loop [] s = Some s"
| "wc_loop (buf # reads) s = do { s1 \<leftarrow> wc_bytes buf s; wc_loop reads s1 }"

definition wc :: "u8 list list \<Rightarrow> (int \<times> int \<times> int) option" where
  "wc reads = do {
     s \<leftarrow> wc_loop reads \<lparr>wc_l = 0, wc_w = 0, wc_c = 0, inword = False\<rparr>;
     Some (wc_l s, wc_w s, wc_c s) }"

section \<open>What it counts\<close>

text \<open>A word begins at each byte that is no space and follows a space or the start.\<close>

fun words_from :: "bool \<Rightarrow> u8 list \<Rightarrow> nat" where
  "words_from inside [] = 0"
| "words_from inside (b # bs) = (if wc_space b then words_from False bs else (if inside then 0 else 1) + words_from True bs)"

text \<open>The same with the words themselves: the maximal runs of bytes that are no spaces.\<close>

function words_of :: "u8 list \<Rightarrow> u8 list list" where
  "words_of bs = (case dropWhile wc_space bs of [] \<Rightarrow> []
     | rest \<Rightarrow> takeWhile (\<lambda>b. \<not> wc_space b) rest # words_of (dropWhile (\<lambda>b. \<not> wc_space b) rest))"
  by pat_completeness auto
termination
proof (relation "measure length", simp)
  fix bs x xs
  assume e: "dropWhile wc_space bs = x # xs"
  then have "\<not> wc_space x" using hd_dropWhile [of wc_space bs] by simp
  moreover have "length (x # xs) \<le> length bs" unfolding e [symmetric] by (rule length_dropWhile_le)
  ultimately show "(dropWhile (\<lambda>b. \<not> wc_space b) (x # xs), bs) \<in> measure length"
    using length_dropWhile_le [of "\<lambda>b. \<not> wc_space b" xs] by simp
qed

declare words_of.simps [simp del]

lemma words_from_True: "words_from True bs = words_from False (dropWhile (\<lambda>b. \<not> wc_space b) bs)"
  by (induction bs) auto

lemma words_from_spaces: "words_from False bs = words_from False (dropWhile wc_space bs)"
  by (induction bs) auto

lemma words_from_of: "words_from False bs = length (words_of bs)"
proof (induction bs rule: words_of.induct)
  case (1 bs)
  show ?case
  proof (cases "dropWhile wc_space bs")
    case Nil
    then show ?thesis unfolding words_of.simps [of bs] words_from_spaces [of bs] Nil by simp
  next
    case (Cons x xs)
    then have x: "\<not> wc_space x" using hd_dropWhile [of wc_space bs] by simp
    have "words_from False bs = Suc (words_from True xs)" using Cons x by (subst words_from_spaces) simp
    also have "words_from True xs = length (words_of (dropWhile (\<lambda>b. \<not> wc_space b) (x # xs)))"
      using 1 [OF Cons] x by (simp add: words_from_True)
    finally show ?thesis using Cons by (subst words_of.simps) simp
  qed
qed

definition inside_after :: "bool \<Rightarrow> u8 list \<Rightarrow> bool" where
  "inside_after inside bs = (if bs = [] then inside else \<not> wc_space (last bs))"

lemma words_from_append: "words_from inside (as @ bs) = words_from inside as + words_from (inside_after inside as) bs"
  by (induction inside as rule: words_from.induct) (auto simp: inside_after_def)

lemma words_from_le: "words_from inside bs \<le> length bs"
  by (induction inside bs rule: words_from.induct) auto

lemma wc_bytes_ok:
  "0 \<le> wc_l s \<Longrightarrow> 0 \<le> wc_w s \<Longrightarrow> wc_l s \<le> wc_c s \<Longrightarrow> wc_w s \<le> wc_c s \<Longrightarrow> wc_c s + int (length bs) < 2 ^ 31 \<Longrightarrow>
    wc_bytes bs s = Some \<lparr>wc_l = wc_l s + int (count_list bs 10), wc_w = wc_w s + int (words_from (inword s) bs),
      wc_c = wc_c s + int (length bs), inword = inside_after (inword s) bs\<rparr>"
proof (induction bs arbitrary: s)
  case (Cons b bs)
  let ?s = "\<lparr>wc_l = wc_l s + (if b = 10 then 1 else 0), wc_w = wc_w s + (if \<not> wc_space b \<and> \<not> inword s then 1 else 0), wc_c = wc_c s + 1,
    inword = \<not> wc_space b\<rparr>"
  have "wc_byte b s = Some ?s" using Cons.prems by (cases s) (simp add: wc_byte_def count_up_def Let_def wc_space_def)
  moreover have "wc_bytes bs ?s = Some \<lparr>wc_l = wc_l ?s + int (count_list bs 10), wc_w = wc_w ?s + int (words_from (inword ?s) bs),
      wc_c = wc_c ?s + int (length bs), inword = inside_after (inword ?s) bs\<rparr>"
    by (rule Cons.IH) (use Cons.prems in auto)
  ultimately show ?case by (auto simp: inside_after_def)
qed (simp add: inside_after_def)

text \<open>However \<open>read\<close> cuts up the input, \<open>wc\<close> counts the lines, words and bytes of the whole.\<close>

theorem wc_counts:
  assumes "length (concat reads) < 2 ^ 31"
  shows "wc reads = Some (int (count_list (concat reads) 10), int (length (words_of (concat reads))), int (length (concat reads)))"
proof -
  have "wc_loop reads s = wc_bytes (concat reads) s" for s
  proof (induction reads arbitrary: s)
    case (Cons buf reads)
    have "wc_bytes (as @ bs) s = Option.bind (wc_bytes as s) (wc_bytes bs)" for as bs s
      by (induction as arbitrary: s) (simp_all add: Option.bind_assoc)
    moreover have "wc_loop reads = wc_bytes (concat reads)" using Cons by (rule ext)
    ultimately show ?case by simp
  qed simp
  then show ?thesis using wc_bytes_ok [of "\<lparr>wc_l = 0, wc_w = 0, wc_c = 0, inword = False\<rparr>" "concat reads"] assms
    by (simp add: wc_def words_from_of)
qed

theorem wc_counts_witness: "wc [[97, 98], [99, 32], [10, 100]] = Some (1, 2, 6)"
proof -
  have "words_of [97, 98, 99, 32, 10, 100] = [[97, 98, 99], [100]]"
    by (simp add: words_of.simps [of "97 # _"] words_of.simps [of "32 # _"] words_of.simps [of "[]"] wc_space_def)
  then show ?thesis using wc_counts [of "[[97, 98], [99, 32], [10, 100]]"] by simp
qed

end
