(* ===== verification/Ulthread.thy ===== *)
theory Ulthread
  imports Xv6_Prelude
begin

text \<open>
  The user-level threads of assignment 3, user/ulthread.c and user/ulthread_swtch.S: the thread
  table, creation, the three scheduling policies, yielding and destroying. A pointer to a thread is
  an index into \<open>uthreads\<close>; \<open>now\<close> is what \<open>ctime()\<close> returns, the counter that the timer interrupt
  advances. The switch to a thread and back is a step, and \<open>turn\<close> strings them together.
\<close>

section \<open>State\<close>

definition MAXULTHREADS :: nat where "MAXULTHREADS = 100"

datatype ulthread_state = FREE | RUNNABLE | YIELD
datatype ulthread_algo = ROUNDROBIN | PRIORITY | FCFS

record ul_context =
  ul_ra :: u64
  ul_sp :: u64
  ul_s :: "u64 list"
  ul_a :: "u64 list"

record uthread =
  tid :: int
  priority :: int
  time :: u64
  start_func :: u64
  stack_pointer :: u64
  ustate :: ulthread_state
  ucontext :: ul_context

text \<open>\<open>main_thread\<close> with the library's globals: the thread that runs, the one that ran last, and the count.\<close>

record ulib =
  uthreads :: "uthread list"
  schedalgo :: ulthread_algo
  main_context :: ul_context
  current_thread :: "nat option"
  last_yielded :: "nat option"
  thread_count :: int

section \<open>Operations\<close>

definition clear_slot :: "uthread \<Rightarrow> uthread" where
  "clear_slot t = t\<lparr>tid := -1, priority := -1, ustate := FREE, start_func := -1, stack_pointer := -1, time := -1\<rparr>"

definition ulthread_init :: "ulthread_algo \<Rightarrow> ulib \<Rightarrow> ulib" where
  "ulthread_init algo s = s\<lparr>uthreads := map clear_slot (uthreads s), schedalgo := algo\<rparr>"

text \<open>
  Without a free slot the code writes before the array: \<open>None\<close>. The result is always \<open>false\<close>.
\<close>

definition ulthread_create :: "u64 \<Rightarrow> u64 \<Rightarrow> u64 list \<Rightarrow> int \<Rightarrow> u64 \<Rightarrow> ulib \<Rightarrow> (bool \<times> ulib) option" where
  "ulthread_create start stack args prio now s =
     (case first_index (\<lambda>t. ustate t = FREE) (uthreads s) of
        None \<Rightarrow> None
      | Some i \<Rightarrow> Some (False, s\<lparr>
          uthreads := (uthreads s)[i := (uthreads s ! i)\<lparr>
            tid := thread_count s, priority := prio, ustate := RUNNABLE, start_func := start, stack_pointer := stack,
            time := now, ucontext := \<lparr>ul_ra = start, ul_sp = stack, ul_s = replicate 12 0, ul_a = take 6 args\<rparr>\<rparr>],
          thread_count := thread_count s + 1\<rparr>))"

text \<open>
  The three loops of \<open>ulthread_schedule\<close> over the table, as the step on one entry. \<open>ltid\<close> is
  \<open>last_yielded_thread->tid\<close>.
\<close>

definition older :: "uthread list \<Rightarrow> nat \<Rightarrow> nat \<Rightarrow> nat" where
  "older ts i c = (if ustate (ts ! i) \<noteq> RUNNABLE then c else if time (ts ! i) < time (ts ! c) then i else c)"

definition higher :: "int \<Rightarrow> uthread list \<Rightarrow> nat \<Rightarrow> nat \<Rightarrow> nat" where
  "higher ltid ts i c =
     (if ustate (ts ! i) \<noteq> RUNNABLE then c
      else if tid (ts ! c) = ltid \<and> tid (ts ! i) \<noteq> ltid then i
      else if tid (ts ! i) \<noteq> ltid \<and> priority (ts ! i) \<ge> priority (ts ! c) then i
      else c)"

text \<open>
  One round of \<open>ulthread_schedule\<close>, up to the context switch. Before any thread has yielded,
  \<open>last_yielded_thread->tid\<close> is the word at address 0 of the program, \<open>word0\<close>. With no current thread and
  none runnable the code dereferences null: \<open>None\<close>.
\<close>

definition ulthread_pick :: "int \<Rightarrow> ulib \<Rightarrow> ulib option" where
  "ulthread_pick word0 s = do {
     let ts = uthreads s;
     c \<leftarrow> (case current_thread s of
            None \<Rightarrow> first_index (\<lambda>t. ustate t = RUNNABLE) ts
          | Some c \<Rightarrow> Some c);
     let ltid = (case last_yielded s of None \<Rightarrow> word0 | Some l \<Rightarrow> tid (ts ! l));
     Some (s\<lparr>current_thread := Some (
       case schedalgo s of
         PRIORITY \<Rightarrow> fold (higher ltid ts) [0..<length ts] c
       | _ \<Rightarrow> fold (older ts) [0..<length ts] c)\<rparr>) }"

definition ulthread_yield :: "u64 \<Rightarrow> ulib \<Rightarrow> ulib option" where
  "ulthread_yield now s = do {
     c \<leftarrow> current_thread s;
     let ts = (if schedalgo s \<noteq> FCFS then (uthreads s)[c := (uthreads s ! c)\<lparr>time := now\<rparr>] else uthreads s);
     Some (s\<lparr>uthreads := ts, last_yielded := Some c\<rparr>) }"

text \<open>\<open>ulthread_destroy\<close> frees the first slot that has the current thread's id.\<close>

definition ulthread_destroy :: "ulib \<Rightarrow> ulib option" where
  "ulthread_destroy s = do {
     c \<leftarrow> current_thread s;
     let ts = (case first_index (\<lambda>t. tid t = tid (uthreads s ! c)) (uthreads s) of
                 None \<Rightarrow> uthreads s
               | Some i \<Rightarrow> (uthreads s)[i := clear_slot (uthreads s ! i)]);
     Some (s\<lparr>uthreads := ts, last_yielded := Some c, thread_count := thread_count s - 1\<rparr>) }"

text \<open>
  The context switch of user/ulthread_swtch.S: every register is saved, then \<open>ra\<close> to \<open>a1\<close> are
  loaded from the new context; \<open>a2\<close> to \<open>a5\<close> are loaded through \<open>a1\<close>, which by then holds the
  new thread's own value. \<open>ld\<close> reads a word of memory.
\<close>

definition switch_to :: "(u64 \<Rightarrow> u64) \<Rightarrow> ul_context \<Rightarrow> ul_context" where
  "switch_to ld new = new\<lparr>ul_a := [ul_a new ! 0, ul_a new ! 1] @
     map (\<lambda>k. ld (ul_a new ! 1 + 128 + 8 * of_nat k)) [0..<4]\<rparr>"

section \<open>What the scheduler picks\<close>

definition runnable :: "ulib \<Rightarrow> nat \<Rightarrow> bool" where
  "runnable s i \<longleftrightarrow> i < length (uthreads s) \<and> ustate (uthreads s ! i) = RUNNABLE"

text \<open>A slot that is not runnable has the largest time, so the loop leaves it at the first runnable one.\<close>

definition ul_ok :: "ulib \<Rightarrow> bool" where
  "ul_ok s \<longleftrightarrow> (\<forall>i < length (uthreads s). if ustate (uthreads s ! i) = RUNNABLE then time (uthreads s ! i) \<noteq> -1
        else time (uthreads s ! i) = -1) \<and>
     (\<forall>c. current_thread s = Some c \<longrightarrow> c < length (uthreads s))"

lemma fold_older:
  assumes "c < length ts" and "n \<le> length ts"
  defines "r \<equiv> fold (older ts) [0..<n] c"
  shows "r < length ts" and "time (ts ! r) \<le> time (ts ! c)"
    and "\<And>i. i < n \<Longrightarrow> ustate (ts ! i) = RUNNABLE \<Longrightarrow> time (ts ! r) \<le> time (ts ! i)"
proof -
  have "r < length ts \<and> time (ts ! r) \<le> time (ts ! c) \<and> (\<forall>i < n. ustate (ts ! i) = RUNNABLE \<longrightarrow> time (ts ! r) \<le> time (ts ! i))"
    using assms(2) unfolding r_def
  proof (induction n)
    case (Suc n)
    define g where "g = fold (older ts) [0..<n] c"
    have ih: "g < length ts" "time (ts ! g) \<le> time (ts ! c)" "\<forall>i < n. ustate (ts ! i) = RUNNABLE \<longrightarrow> time (ts ! g) \<le> time (ts ! i)"
      using Suc by (simp_all add: g_def)
    have s: "fold (older ts) [0..<Suc n] c = older ts n g" by (simp add: g_def)
    show ?case
    proof (cases "ustate (ts ! n) = RUNNABLE \<and> time (ts ! n) < time (ts ! g)")
      case True
      then have "older ts n g = n" by (simp add: older_def)
      then show ?thesis unfolding s using ih True Suc.prems by (auto simp: less_Suc_eq intro: order_trans)
    next
      case False
      then have "older ts n g = g" by (auto simp: older_def)
      then show ?thesis unfolding s using ih False by (auto simp: less_Suc_eq)
    qed
  qed (simp add: assms(1))
  then show "r < length ts" "time (ts ! r) \<le> time (ts ! c)"
    "\<And>i. i < n \<Longrightarrow> ustate (ts ! i) = RUNNABLE \<Longrightarrow> time (ts ! r) \<le> time (ts ! i)" by simp_all
qed

lemma pick_start:
  assumes "ul_ok s" and "runnable s u"
  obtains c where "(case current_thread s of None \<Rightarrow> first_index (\<lambda>t. ustate t = RUNNABLE) (uthreads s) | Some c \<Rightarrow> Some c) = Some c"
    and "c < length (uthreads s)"
proof (cases "current_thread s")
  case None
  have u: "uthreads s ! u \<in> set (uthreads s)" "ustate (uthreads s ! u) = RUNNABLE" using assms(2) by (simp_all add: runnable_def)
  obtain c where "first_index (\<lambda>t. ustate t = RUNNABLE) (uthreads s) = Some c"
    using first_index_ex [OF u(1), of "\<lambda>t. ustate t = RUNNABLE"] u(2) by blast
  then show thesis using that [of c] None by (auto dest: first_index_SomeD)
next
  case (Some c)
  then show thesis using that [of c] assms(1) by (simp add: ul_ok_def)
qed

lemma pick_oldest:
  assumes ok: "ul_ok s" and u: "runnable s u" and al: "schedalgo s \<noteq> PRIORITY"
  shows "\<exists>c. ulthread_pick word0 s = Some (s\<lparr>current_thread := Some c\<rparr>) \<and> runnable s c \<and>
    (\<forall>i. runnable s i \<longrightarrow> time (uthreads s ! c) \<le> time (uthreads s ! i))"
proof -
  obtain c0 where c0: "(case current_thread s of None \<Rightarrow> first_index (\<lambda>t. ustate t = RUNNABLE) (uthreads s) | Some c \<Rightarrow> Some c) = Some c0"
    "c0 < length (uthreads s)" using pick_start [OF ok u] .
  let ?c = "fold (older (uthreads s)) [0..<length (uthreads s)] c0"
  note f = fold_older [OF c0(2) order_refl]
  have "time (uthreads s ! ?c) \<le> time (uthreads s ! u)" using f(3) u by (simp add: runnable_def)
  moreover have "time (uthreads s ! u) \<noteq> -1" using ok u by (simp add: ul_ok_def runnable_def)
  ultimately have "time (uthreads s ! ?c) \<noteq> -1" by (metis word_order.extremum_unique)
  then have "runnable s ?c" using ok f(1) by (auto simp: ul_ok_def runnable_def split: if_splits)
  moreover have "ulthread_pick word0 s = Some (s\<lparr>current_thread := Some ?c\<rparr>)"
    using c0 al by (cases "schedalgo s") (simp_all add: ulthread_pick_def Let_def)
  ultimately show ?thesis using f(3) by (auto simp: runnable_def)
qed


section \<open>Runs of the scheduler\<close>

text \<open>
  Turns of threads that yield or finish, and create no thread: the list of the threads that were picked, and the list
  of what the clock showed at the yields.
\<close>

inductive ul_run :: "int \<Rightarrow> ulib \<Rightarrow> nat list \<Rightarrow> u64 list \<Rightarrow> ulib \<Rightarrow> bool" for word0 where
  run_end: "ul_run word0 s [] [] s"
| run_yield: "thread_count s > 1 \<Longrightarrow> ulthread_pick word0 s = Some s1 \<Longrightarrow> current_thread s1 = Some c \<Longrightarrow>
    ulthread_yield now s1 = Some s2 \<Longrightarrow> ul_run word0 s2 cs ts s3 \<Longrightarrow> ul_run word0 s (c # cs) (now # ts) s3"
| run_destroy: "thread_count s > 1 \<Longrightarrow> ulthread_pick word0 s = Some s1 \<Longrightarrow> current_thread s1 = Some c \<Longrightarrow>
    ulthread_destroy s1 = Some s2 \<Longrightarrow> ul_run word0 s2 cs ts s3 \<Longrightarrow> ul_run word0 s (c # cs) ts s3"

text \<open>The threads that are runnable have different ids, and not the one of a free slot.\<close>

definition tids_ok :: "ulib \<Rightarrow> bool" where
  "tids_ok s \<longleftrightarrow> (\<forall>i < length (uthreads s). \<forall>j < length (uthreads s).
     ustate (uthreads s ! i) = RUNNABLE \<longrightarrow> tid (uthreads s ! i) = tid (uthreads s ! j) \<longrightarrow> i = j) \<and>
     (\<forall>i < length (uthreads s). ustate (uthreads s ! i) = RUNNABLE \<longrightarrow> tid (uthreads s ! i) \<noteq> -1)"

lemma yield_state:
  assumes "current_thread s1 = Some c"
  shows "ulthread_yield now s1 = Some s2 \<longleftrightarrow>
    s2 = s1\<lparr>uthreads := (if schedalgo s1 \<noteq> FCFS then (uthreads s1)[c := (uthreads s1 ! c)\<lparr>time := now\<rparr>] else uthreads s1),
      last_yielded := Some c\<rparr>"
  using assms by (auto simp: ulthread_yield_def Let_def)

lemma destroy_state:
  assumes "current_thread s1 = Some c" and "tids_ok s1" and "runnable s1 c"
  shows "ulthread_destroy s1 = Some s2 \<longleftrightarrow>
    s2 = s1\<lparr>uthreads := (uthreads s1)[c := clear_slot (uthreads s1 ! c)], last_yielded := Some c, thread_count := thread_count s1 - 1\<rparr>"
proof -
  have c: "c < length (uthreads s1)" "ustate (uthreads s1 ! c) = RUNNABLE" using assms(3) by (simp_all add: runnable_def)
  have "first_index (\<lambda>t. tid t = tid (uthreads s1 ! c)) (uthreads s1) = Some c"
    unfolding first_index_Some using c assms(2) unfolding tids_ok_def by (metis less_trans nat_neq_iff)
  then show ?thesis using assms(1) by (auto simp: ulthread_destroy_def Let_def)
qed

lemma yield_keeps:
  assumes "ul_ok s1" and "tids_ok s1" and "current_thread s1 = Some c" and "runnable s1 c" and "now \<noteq> -1"
    and "ulthread_yield now s1 = Some s2"
  shows "ul_ok s2" "tids_ok s2" "schedalgo s2 = schedalgo s1" "runnable s2 = runnable s1"
    and "i \<noteq> c \<Longrightarrow> uthreads s2 ! i = uthreads s1 ! i"
    and "time (uthreads s2 ! c) = (if schedalgo s1 = FCFS then time (uthreads s1 ! c) else now)"
proof -
  have s2: "s2 = s1\<lparr>uthreads := (if schedalgo s1 \<noteq> FCFS then (uthreads s1)[c := (uthreads s1 ! c)\<lparr>time := now\<rparr>] else uthreads s1),
      last_yielded := Some c\<rparr>"
    using assms(6) unfolding yield_state [OF assms(3)] .
  have e: "uthreads s2 ! i = (if i = c \<and> schedalgo s1 \<noteq> FCFS then (uthreads s1 ! c)\<lparr>time := now\<rparr> else uthreads s1 ! i)"
    if "i < length (uthreads s1)" for i using that by (simp add: s2 nth_list_update)
  have l: "length (uthreads s2) = length (uthreads s1)" "current_thread s2 = current_thread s1" by (simp_all add: s2)
  show "ul_ok s2" unfolding ul_ok_def l using assms(1,4,5) e by (auto simp: ul_ok_def runnable_def)
  have "ustate (uthreads s2 ! i) = ustate (uthreads s1 ! i)" "tid (uthreads s2 ! i) = tid (uthreads s1 ! i)"
    if "i < length (uthreads s1)" for i using e [OF that] by auto
  then show "tids_ok s2" "runnable s2 = runnable s1" using assms(2) unfolding tids_ok_def runnable_def l by (simp_all cong: conj_cong)
  show "schedalgo s2 = schedalgo s1" by (simp add: s2)
  show "i \<noteq> c \<Longrightarrow> uthreads s2 ! i = uthreads s1 ! i" by (simp add: s2)
  show "time (uthreads s2 ! c) = (if schedalgo s1 = FCFS then time (uthreads s1 ! c) else now)"
    using assms(4) e [of c] by (simp add: runnable_def)
qed

lemma destroy_keeps:
  assumes "ul_ok s1" and "tids_ok s1" and "current_thread s1 = Some c" and "runnable s1 c"
    and "ulthread_destroy s1 = Some s2"
  shows "ul_ok s2" "tids_ok s2" "schedalgo s2 = schedalgo s1" "runnable s2 i \<longleftrightarrow> runnable s1 i \<and> i \<noteq> c"
    and "i \<noteq> c \<Longrightarrow> uthreads s2 ! i = uthreads s1 ! i"
proof -
  have s2: "s2 = s1\<lparr>uthreads := (uthreads s1)[c := clear_slot (uthreads s1 ! c)], last_yielded := Some c, thread_count := thread_count s1 - 1\<rparr>"
    using assms(5) unfolding destroy_state [OF assms(3,2,4)] .
  have e: "uthreads s2 ! i = (if i = c then clear_slot (uthreads s1 ! c) else uthreads s1 ! i)"
    if "i < length (uthreads s1)" for i using that by (simp add: s2 nth_list_update)
  have l: "length (uthreads s2) = length (uthreads s1)" "current_thread s2 = current_thread s1" by (simp_all add: s2)
  show "ul_ok s2" unfolding ul_ok_def l using assms(1) e by (auto simp: ul_ok_def clear_slot_def)
  show "runnable s2 i \<longleftrightarrow> runnable s1 i \<and> i \<noteq> c" for i using e [of i] l by (auto simp: runnable_def clear_slot_def split: if_splits)
  show "schedalgo s2 = schedalgo s1" by (simp add: s2)
  show "i \<noteq> c \<Longrightarrow> uthreads s2 ! i = uthreads s1 ! i" by (simp add: s2)
  show "tids_ok s2"
    unfolding tids_ok_def l
  proof (intro conjI allI impI)
    fix i j assume a: "i < length (uthreads s1)" "j < length (uthreads s1)" "ustate (uthreads s2 ! i) = RUNNABLE"
      "tid (uthreads s2 ! i) = tid (uthreads s2 ! j)"
    have i: "i \<noteq> c" "ustate (uthreads s1 ! i) = RUNNABLE" using a(3) e [OF a(1)] by (auto simp: clear_slot_def split: if_splits)
    have "tid (uthreads s1 ! i) \<noteq> -1" using i(2) a(1) assms(2) unfolding tids_ok_def by blast
    then have "j \<noteq> c" using a(4) e [OF a(1)] e [OF a(2)] i(1) by (auto simp: clear_slot_def)
    then have "tid (uthreads s1 ! i) = tid (uthreads s1 ! j)" using a(4) e [OF a(1)] e [OF a(2)] i(1) by simp
    then show "i = j" using a(1,2) i(2) assms(2) unfolding tids_ok_def by blast
  next
    fix i assume a: "i < length (uthreads s1)" "ustate (uthreads s2 ! i) = RUNNABLE"
    then have i: "i \<noteq> c" "ustate (uthreads s1 ! i) = RUNNABLE" using e by (auto simp: clear_slot_def split: if_splits)
    have "tid (uthreads s1 ! i) \<noteq> -1" using i(2) a(1) assms(2) unfolding tids_ok_def by blast
    then show "tid (uthreads s2 ! i) \<noteq> -1" using e [OF a(1)] i(1) by simp
  qed
qed


lemma pick_keeps:
  assumes "ul_ok s" and "runnable s c"
  shows "ul_ok (s\<lparr>current_thread := Some c\<rparr>)" "tids_ok (s\<lparr>current_thread := Some c\<rparr>) = tids_ok s"
    "runnable (s\<lparr>current_thread := Some c\<rparr>) = runnable s"
  using assms by (auto simp: ul_ok_def tids_ok_def runnable_def)

text \<open>The library after \<open>ulthread_init\<close>, and after each creation as long as no thread has finished.\<close>

definition created :: "ulib \<Rightarrow> bool" where
  "created s \<longleftrightarrow> ul_ok s \<and> tids_ok s \<and> 0 < thread_count s \<and> (\<forall>i < length (uthreads s). tid (uthreads s ! i) < thread_count s)"

lemma init_created: "current_thread s = None \<Longrightarrow> thread_count s = 1 \<Longrightarrow> created (ulthread_init algo s)"
  by (simp add: created_def ul_ok_def tids_ok_def ulthread_init_def clear_slot_def)

lemma create_created:
  assumes "created s" and "ulthread_create start stack args prio now s = Some (r, s')" and "now \<noteq> -1"
  shows "created s'"
proof -
  obtain k where k: "first_index (\<lambda>t. ustate t = FREE) (uthreads s) = Some k" using assms(2) by (auto simp: ulthread_create_def split: option.splits)
  then have l: "k < length (uthreads s)" by (auto dest: first_index_SomeD)
  let ?t = "(uthreads s ! k)\<lparr>tid := thread_count s, priority := prio, ustate := RUNNABLE, start_func := start, stack_pointer := stack,
            time := now, ucontext := \<lparr>ul_ra = start, ul_sp = stack, ul_s = replicate 12 0, ul_a = take 6 args\<rparr>\<rparr>"
  have s': "s' = s\<lparr>uthreads := (uthreads s)[k := ?t], thread_count := thread_count s + 1\<rparr>"
    using assms(2) k by (simp add: ulthread_create_def)
  have e: "uthreads s' ! i = (if i = k then ?t else uthreads s ! i)" if "i < length (uthreads s)" for i
    using that by (simp add: s' nth_list_update)
  have f: "length (uthreads s') = length (uthreads s)" "current_thread s' = current_thread s" "thread_count s' = thread_count s + 1" by (simp_all add: s')
  have c: "ul_ok s" "tids_ok s" "0 < thread_count s" "\<And>i. i < length (uthreads s) \<Longrightarrow> tid (uthreads s ! i) < thread_count s"
    using assms(1) unfolding created_def by blast+
  have "ul_ok s'" using c(1) assms(3) e unfolding ul_ok_def f by auto
  moreover have "tids_ok s'"
    unfolding tids_ok_def f
  proof (intro conjI allI impI)
    fix i j assume a: "i < length (uthreads s)" "j < length (uthreads s)" "ustate (uthreads s' ! i) = RUNNABLE" "tid (uthreads s' ! i) = tid (uthreads s' ! j)"
    show "i = j"
    proof (cases "i = k \<or> j = k")
      case True
      then show ?thesis using a(4) e [OF a(1)] e [OF a(2)] c(4) [OF a(1)] c(4) [OF a(2)] by (auto split: if_splits)
    next
      case False
      then show ?thesis using a e [OF a(1)] e [OF a(2)] c(2) unfolding tids_ok_def by auto
    qed
  next
    fix i assume a: "i < length (uthreads s)" "ustate (uthreads s' ! i) = RUNNABLE"
    then show "tid (uthreads s' ! i) \<noteq> -1" using e [OF a(1)] c(2,3) unfolding tids_ok_def by (auto split: if_splits)
  qed
  moreover have "\<forall>i < length (uthreads s'). tid (uthreads s' ! i) < thread_count s'" using e c(4) f by (auto intro: less_imp_le)
  ultimately show ?thesis using c(3) f(3) by (simp add: created_def)
qed

section \<open>Round robin\<close>

text \<open>The threads that have waited at least as long as \<open>u\<close>.\<close>

definition ahead :: "ulib \<Rightarrow> nat \<Rightarrow> nat set" where
  "ahead s u = {i. runnable s i \<and> i \<noteq> u \<and> time (uthreads s ! i) \<le> time (uthreads s ! u)}"

lemma finite_ahead: "finite (ahead s u)"
  by (rule finite_subset [of _ "{..<length (uthreads s)}"]) (auto simp: ahead_def runnable_def)

lemma rr_turns:
  "ul_run word0 s cs ts s' \<Longrightarrow> sorted_wrt (<) ts \<Longrightarrow> \<forall>t \<in> set ts. t \<noteq> -1 \<and> (\<forall>i. runnable s i \<longrightarrow> time (uthreads s ! i) < t) \<Longrightarrow>
   schedalgo s = ROUNDROBIN \<Longrightarrow> ul_ok s \<Longrightarrow> tids_ok s \<Longrightarrow> runnable s u \<Longrightarrow> card (ahead s u) < length cs \<Longrightarrow> u \<in> set cs"
proof (induction rule: ul_run.induct)
  case (run_end s)
  then show ?case by simp
next
  case (run_yield s s1 c now s2 cs ts s3)
  obtain c' where c': "ulthread_pick word0 s = Some (s\<lparr>current_thread := Some c'\<rparr>)" "runnable s c'"
    "\<forall>i. runnable s i \<longrightarrow> time (uthreads s ! c') \<le> time (uthreads s ! i)"
    using pick_oldest [OF run_yield.prems(4,6)] run_yield.prems(3) by fastforce
  then have s1: "s1 = s\<lparr>current_thread := Some c\<rparr>" "c' = c" using run_yield.hyps by auto
  note k = pick_keeps [OF run_yield.prems(4) c'(2), unfolded s1(2), folded s1(1)]
  have nw: "now \<noteq> -1" "time (uthreads s ! u) < now" using run_yield.prems(2,6) by simp_all
  have rc: "runnable s1 c" "tids_ok s1" using c' s1 k run_yield.prems(5) by simp_all
  note y = yield_keeps [OF k(1) rc(2) run_yield.hyps(3) rc(1) nw(1) run_yield.hyps(4)]
  show ?case
  proof (cases "u = c")
    case False
    have t: "uthreads s1 = uthreads s" "schedalgo s1 = schedalgo s" unfolding s1 by simp_all
    have "ahead s2 u \<subseteq> ahead s u - {c}"
    proof
      fix i assume "i \<in> ahead s2 u"
      then have i: "runnable s i" "i \<noteq> u" "time (uthreads s2 ! i) \<le> time (uthreads s ! u)"
        using y(4,5) k(3) False t by (auto simp: ahead_def)
      have "i \<noteq> c" using i(3) y(6) nw(2) run_yield.prems(3) t by auto
      then show "i \<in> ahead s u - {c}" using i y(5) t by (simp add: ahead_def)
    qed
    moreover have "c \<in> ahead s u" using c' s1(2) run_yield.prems(6) False by (simp add: ahead_def)
    ultimately have "card (ahead s2 u) < card (ahead s u)" by (intro psubset_card_mono finite_ahead) blast
    then have lt: "card (ahead s2 u) < length cs" using run_yield.prems(7) by simp
    have later: "t' \<noteq> -1 \<and> (\<forall>i. runnable s2 i \<longrightarrow> time (uthreads s2 ! i) < t')" if "t' \<in> set ts" for t'
    proof (intro conjI allI impI)
      show "t' \<noteq> -1" using run_yield.prems(2) that by simp
      fix i assume i: "runnable s2 i"
      show "time (uthreads s2 ! i) < t'"
      proof (cases "i = c")
        case True
        then show ?thesis using y(6) t run_yield.prems(1,3) that by simp
      next
        case False
        then show ?thesis using y(4,5) i k(3) t run_yield.prems(2) that by simp
      qed
    qed
    have "u \<in> set cs"
      by (rule run_yield.IH) (use run_yield.prems later lt y k(3) t in \<open>simp_all\<close>)
    then show ?thesis by simp
  qed simp
next
  case (run_destroy s s1 c s2 cs ts s3)
  obtain c' where c': "ulthread_pick word0 s = Some (s\<lparr>current_thread := Some c'\<rparr>)" "runnable s c'"
    "\<forall>i. runnable s i \<longrightarrow> time (uthreads s ! c') \<le> time (uthreads s ! i)"
    using pick_oldest [OF run_destroy.prems(4,6)] run_destroy.prems(3) by fastforce
  then have s1: "s1 = s\<lparr>current_thread := Some c\<rparr>" "c' = c" using run_destroy.hyps by auto
  note k = pick_keeps [OF run_destroy.prems(4) c'(2), unfolded s1(2), folded s1(1)]
  have rc: "runnable s1 c" "tids_ok s1" using c' s1 k run_destroy.prems(5) by simp_all
  note y = destroy_keeps [OF k(1) rc(2) run_destroy.hyps(3) rc(1) run_destroy.hyps(4)]
  show ?case
  proof (cases "u = c")
    case False
    have t: "uthreads s1 = uthreads s" "schedalgo s1 = schedalgo s" unfolding s1 by simp_all
    have "ahead s2 u \<subseteq> ahead s u - {c}" using y(4,5) k(3) False t by (auto simp: ahead_def)
    moreover have "c \<in> ahead s u" using c' s1(2) run_destroy.prems(6) False by (simp add: ahead_def)
    ultimately have "card (ahead s2 u) < card (ahead s u)" by (intro psubset_card_mono finite_ahead) blast
    then have lt: "card (ahead s2 u) < length cs" using run_destroy.prems(7) by simp
    have "time (uthreads s2 ! i) < t'" if "t' \<in> set ts" "runnable s2 i" for t' i using y(4,5) that k(3) t run_destroy.prems(2) by auto
    then have "u \<in> set cs"
      by (intro run_destroy.IH) (use run_destroy.prems lt y k(3) t False in simp_all)
    then show ?thesis by simp
  qed simp
qed


section \<open>First come, first served\<close>

text \<open>The count is one more than the number of threads, so there is a thread to run while the loop goes on.\<close>

definition count_ok :: "ulib \<Rightarrow> bool" where
  "count_ok s \<longleftrightarrow> thread_count s = 1 + int (card (Collect (runnable s)))"

lemma finite_runnable [simp]: "finite (Collect (runnable s))"
  by (rule finite_subset [of _ "{..<length (uthreads s)}"]) (auto simp: runnable_def)

lemma count_runnable: "count_ok s \<Longrightarrow> thread_count s > 1 \<Longrightarrow> \<exists>u. runnable s u"
  by (cases "Collect (runnable s) = {}") (auto simp: count_ok_def)

lemma fcfs_turns:
  "ul_run word0 s cs ts s' \<Longrightarrow> -1 \<notin> set ts \<Longrightarrow> schedalgo s = FCFS \<Longrightarrow> ul_ok s \<Longrightarrow> tids_ok s \<Longrightarrow> count_ok s \<Longrightarrow>
   set cs \<subseteq> Collect (runnable s) \<and> sorted_wrt (\<lambda>a b. time (uthreads s ! a) \<le> time (uthreads s ! b)) cs"
proof (induction rule: ul_run.induct)
  case (run_end s)
  then show ?case by simp
next
  case (run_yield s s1 c now s2 cs ts s3)
  then obtain u where u: "runnable s u" using count_runnable by blast
  obtain c' where c': "ulthread_pick word0 s = Some (s\<lparr>current_thread := Some c'\<rparr>)" "runnable s c'"
    "\<forall>i. runnable s i \<longrightarrow> time (uthreads s ! c') \<le> time (uthreads s ! i)"
    using pick_oldest [OF run_yield.prems(3) u] run_yield.prems(2) by fastforce
  then have s1: "s1 = s\<lparr>current_thread := Some c\<rparr>" "c' = c" using run_yield.hyps by auto
  note k = pick_keeps [OF run_yield.prems(3) c'(2), unfolded s1(2), folded s1(1)]
  have nw: "now \<noteq> -1" using run_yield.prems(1) by auto
  have rc: "runnable s1 c" "tids_ok s1" using c' s1 k run_yield.prems(4) by simp_all
  note y = yield_keeps [OF k(1) rc(2) run_yield.hyps(3) rc(1) nw(1) run_yield.hyps(4)]
  have t: "uthreads s1 = uthreads s" "schedalgo s1 = schedalgo s" unfolding s1 by simp_all
  have tm: "time (uthreads s2 ! i) = time (uthreads s ! i)" for i using y(5,6) t run_yield.prems(2) by (cases "i = c") simp_all
  have "set cs \<subseteq> Collect (runnable s2) \<and> sorted_wrt (\<lambda>a b. time (uthreads s2 ! a) \<le> time (uthreads s2 ! b)) cs"
  proof (rule run_yield.IH)
    have "thread_count s2 = thread_count s" using run_yield.hyps(4) unfolding yield_state [OF run_yield.hyps(3)] by (simp add: s1)
    then show "count_ok s2" using run_yield.prems(5) y(4) k(3) by (simp add: count_ok_def)
  qed (use y t run_yield.prems(1,2) in simp_all)
  then show ?case using c'(2,3) s1(2) y(4) k(3) by (auto simp: tm)
next
  case (run_destroy s s1 c s2 cs ts s3)
  then obtain u where u: "runnable s u" using count_runnable by blast
  obtain c' where c': "ulthread_pick word0 s = Some (s\<lparr>current_thread := Some c'\<rparr>)" "runnable s c'"
    "\<forall>i. runnable s i \<longrightarrow> time (uthreads s ! c') \<le> time (uthreads s ! i)"
    using pick_oldest [OF run_destroy.prems(3) u] run_destroy.prems(2) by fastforce
  then have s1: "s1 = s\<lparr>current_thread := Some c\<rparr>" "c' = c" using run_destroy.hyps by auto
  note k = pick_keeps [OF run_destroy.prems(3) c'(2), unfolded s1(2), folded s1(1)]
  have rc: "runnable s1 c" "tids_ok s1" using c' s1 k run_destroy.prems(4) by simp_all
  note y = destroy_keeps [OF k(1) rc(2) run_destroy.hyps(3) rc(1) run_destroy.hyps(4)]
  have t: "uthreads s1 = uthreads s" "schedalgo s1 = schedalgo s" unfolding s1 by simp_all
  have "set cs \<subseteq> Collect (runnable s2) \<and> sorted_wrt (\<lambda>a b. time (uthreads s2 ! a) \<le> time (uthreads s2 ! b)) cs"
  proof (rule run_destroy.IH)
    have "thread_count s2 = thread_count s - 1"
      using run_destroy.hyps(4) unfolding destroy_state [OF run_destroy.hyps(3) rc(2,1)] by (simp add: s1)
    moreover have "Collect (runnable s2) = Collect (runnable s) - {c}" using y(4) k(3) by auto
    moreover have "c \<in> Collect (runnable s)" using c'(2) s1(2) by simp
    moreover have "0 < card (Collect (runnable s))" using \<open>c \<in> Collect (runnable s)\<close> by (auto simp: card_gt_0_iff)
    ultimately show "count_ok s2" using run_destroy.prems(5) by (simp add: count_ok_def card_Diff_singleton)
  qed (use y t run_destroy.prems(1,2) in simp_all)
  moreover from this have "sorted_wrt (\<lambda>a b. time (uthreads s ! a) \<le> time (uthreads s ! b)) cs"
    using y(4,5) t by (auto elim!: sorted_wrt_mono_rel [rotated] simp: subset_iff)
  ultimately show ?case using c'(2,3) s1(2) y(4) k(3) by auto
qed

section \<open>Priorities\<close>

definition candidate :: "int \<Rightarrow> ulib \<Rightarrow> nat \<Rightarrow> bool" where
  "candidate ltid s i \<longleftrightarrow> runnable s i \<and> tid (uthreads s ! i) \<noteq> ltid"

lemma fold_higher:
  fixes c :: nat and ltid :: int
  assumes "n \<le> length ts"
  defines "r \<equiv> fold (higher ltid ts) [0..<n] c"
    and "R \<equiv> \<lambda>i. ustate (ts ! i) = RUNNABLE \<and> tid (ts ! i) \<noteq> ltid"
  shows "(tid (ts ! r) = ltid \<and> r = c \<and> (\<forall>i < n. \<not> R i)) \<or>
    (tid (ts ! r) \<noteq> ltid \<and> (r = c \<or> r < n \<and> R r) \<and> (\<forall>i < n. R i \<longrightarrow> priority (ts ! i) \<le> priority (ts ! r)))"
  using assms(1) unfolding r_def
proof (induction n)
  case 0
  then show ?case by auto
next
  case (Suc n)
  define g where "g = fold (higher ltid ts) [0..<n] c"
  have s: "fold (higher ltid ts) [0..<Suc n] c = higher ltid ts n g" by (simp add: g_def)
  have ih: "(tid (ts ! g) = ltid \<and> g = c \<and> (\<forall>i < n. \<not> R i)) \<or>
    (tid (ts ! g) \<noteq> ltid \<and> (g = c \<or> g < n \<and> R g) \<and> (\<forall>i < n. R i \<longrightarrow> priority (ts ! i) \<le> priority (ts ! g)))"
    using Suc by (simp add: g_def)
  show ?case
  proof (cases "R n")
    case False
    then have "higher ltid ts n g = g" by (auto simp: higher_def R_def)
    then show ?thesis unfolding s using ih False by (auto simp: less_Suc_eq)
  next
    case True
    show ?thesis
    proof (cases "tid (ts ! g) = ltid \<or> priority (ts ! g) \<le> priority (ts ! n)")
      case yes: True
      then have "higher ltid ts n g = n" using True by (auto simp: higher_def R_def)
      then show ?thesis unfolding s using ih True yes by (auto simp: less_Suc_eq R_def intro: order_trans)
    next
      case no: False
      then have "higher ltid ts n g = g" using True by (auto simp: higher_def R_def)
      then show ?thesis unfolding s using ih True no by (auto simp: less_Suc_eq)
    qed
  qed
qed


section \<open>Properties\<close>

text \<open>Three threads created one after the other, at the times 1, 2 and 3.\<close>

definition demo_context :: ul_context where
  "demo_context = \<lparr>ul_ra = 0, ul_sp = 0, ul_s = replicate 12 0, ul_a = replicate 6 0\<rparr>"

definition demo_thread :: "int \<Rightarrow> int \<Rightarrow> u64 \<Rightarrow> uthread" where
  "demo_thread i p t = \<lparr>tid = i, priority = p, time = t, start_func = 0, stack_pointer = 0, ustate = RUNNABLE, ucontext = demo_context\<rparr>"

definition demo_lib :: "ulthread_algo \<Rightarrow> ulib" where
  "demo_lib al = \<lparr>uthreads = [demo_thread 1 5 1, demo_thread 2 7 2, demo_thread 3 6 3, clear_slot (demo_thread 0 0 0)],
     schedalgo = al, main_context = demo_context, current_thread = None, last_yielded = None, thread_count = 4\<rparr>"

lemma demo_lib_ok: "ul_ok (demo_lib al)" "tids_ok (demo_lib al)" "count_ok (demo_lib al)"
proof -
  have r: "Collect (runnable (demo_lib al)) = {0, 1, 2}"
    by (auto simp: runnable_def demo_lib_def demo_thread_def clear_slot_def less_Suc_eq)
  show "count_ok (demo_lib al)" unfolding count_ok_def r by (simp add: demo_lib_def)
  show "ul_ok (demo_lib al)" "tids_ok (demo_lib al)"
    by (auto simp: ul_ok_def tids_ok_def demo_lib_def demo_thread_def clear_slot_def less_Suc_eq)
qed

lemma demo_pick:
  "ulthread_pick 0 (demo_lib al) = Some ((demo_lib al)\<lparr>current_thread := Some (if al = PRIORITY then 1 else 0)\<rparr>)"
  by (cases al) (simp_all add: ulthread_pick_def demo_lib_def demo_thread_def clear_slot_def older_def higher_def upt_rec)

text \<open>
  C23: round robin is fair as long as the clock advances between any two yields, no thread is created and the runnable threads
  have different ids: a runnable thread \<open>u\<close> is picked at the latest after every thread that had waited at least as long has
  had one turn, whether the others yield or finish.
\<close>

theorem round_robin_fair:
  assumes "ul_run word0 s cs ts s'" and "sorted_wrt (<) ts"
    and "\<forall>t \<in> set ts. t \<noteq> -1 \<and> (\<forall>i. runnable s i \<longrightarrow> time (uthreads s ! i) < t)"
    and "schedalgo s = ROUNDROBIN" and "ul_ok s" and "tids_ok s" and "runnable s u"
    and "length cs > card {i. runnable s i \<and> i \<noteq> u \<and> time (uthreads s ! i) \<le> time (uthreads s ! u)}"
  shows "u \<in> set cs"
  using rr_turns [OF assms(1-7)] assms(8) by (simp add: ahead_def)

text \<open>The first thread yields at time 4, the second one finishes.\<close>

lemma demo_rr_run: "\<exists>s'. ul_run 0 (demo_lib ROUNDROBIN) [0, 1] [4] s'"
proof -
  let ?s1 = "(demo_lib ROUNDROBIN)\<lparr>current_thread := Some 0\<rparr>"
  let ?s2 = "?s1\<lparr>uthreads := (uthreads ?s1)[0 := (uthreads ?s1 ! 0)\<lparr>time := 4\<rparr>], last_yielded := Some 0\<rparr>"
  have p1: "ulthread_pick 0 (demo_lib ROUNDROBIN) = Some ?s1" by (simp add: demo_pick)
  have y: "ulthread_yield 4 ?s1 = Some ?s2" by (simp add: ulthread_yield_def demo_lib_def)
  have p2: "ulthread_pick 0 ?s2 = Some (?s2\<lparr>current_thread := Some 1\<rparr>)"
    by (simp add: ulthread_pick_def demo_lib_def demo_thread_def clear_slot_def older_def upt_rec)
  have d: "ulthread_destroy (?s2\<lparr>current_thread := Some 1\<rparr>) = Some (?s2\<lparr>current_thread := Some 1,
     uthreads := (uthreads ?s2)[1 := clear_slot (uthreads ?s2 ! 1)], last_yielded := Some 1, thread_count := 3\<rparr>)"
    by (simp add: ulthread_destroy_def demo_lib_def demo_thread_def clear_slot_def)
  have c: "thread_count (demo_lib ROUNDROBIN) > 1" "thread_count ?s2 > 1" by (simp_all add: demo_lib_def)
  have r2: "ul_run 0 ?s2 [1] [] (?s2\<lparr>current_thread := Some 1,
     uthreads := (uthreads ?s2)[1 := clear_slot (uthreads ?s2 ! 1)], last_yielded := Some 1, thread_count := 3\<rparr>)"
    by (rule ul_run.run_destroy [OF c(2) p2 _ d ul_run.run_end]) simp
  show ?thesis by (rule exI, rule ul_run.run_yield [OF c(1) p1 _ y r2]) simp
qed

theorem round_robin_fair_witness: "(1::nat) \<in> set [0, 1]"
proof -
  obtain s' where r: "ul_run 0 (demo_lib ROUNDROBIN) [0, 1] [4] s'" using demo_rr_run by blast
  have clock: "\<forall>t \<in> set [4]. t \<noteq> -1 \<and> (\<forall>i. runnable (demo_lib ROUNDROBIN) i \<longrightarrow> time (uthreads (demo_lib ROUNDROBIN) ! i) < t)"
    by (auto simp: runnable_def demo_lib_def demo_thread_def clear_slot_def less_Suc_eq)
  have a: "{i. runnable (demo_lib ROUNDROBIN) i \<and> i \<noteq> 1 \<and>
     time (uthreads (demo_lib ROUNDROBIN) ! i) \<le> time (uthreads (demo_lib ROUNDROBIN) ! 1)} = {0}"
    by (auto simp: runnable_def demo_lib_def demo_thread_def clear_slot_def less_Suc_eq)
  show ?thesis
    by (rule round_robin_fair [OF r _ clock _ demo_lib_ok(1,2)]) (unfold a, simp_all add: runnable_def demo_lib_def demo_thread_def)
qed

text \<open>
  First come, first served: threads get their turns in the order of their creation times, so an
  earlier thread has had all its turns before a later one has its first, however often they yield.
\<close>

theorem fcfs_in_creation_order:
  assumes "ul_run word0 s cs ts s'" and "-1 \<notin> set ts" and "schedalgo s = FCFS" and "ul_ok s" and "tids_ok s" and "count_ok s"
  shows "sorted_wrt (\<lambda>a b. time (uthreads s ! a) \<le> time (uthreads s ! b)) cs \<and> (\<forall>c \<in> set cs. runnable s c)"
  using fcfs_turns [OF assms] by auto

text \<open>The first two threads finish in turn.\<close>

lemma demo_fcfs_run: "\<exists>s'. ul_run 0 (demo_lib FCFS) [0, 1] [] s'"
proof -
  let ?s1 = "(demo_lib FCFS)\<lparr>current_thread := Some 0\<rparr>"
  let ?s2 = "?s1\<lparr>uthreads := (uthreads ?s1)[0 := clear_slot (uthreads ?s1 ! 0)], last_yielded := Some 0, thread_count := 3\<rparr>"
  let ?s3 = "?s2\<lparr>current_thread := Some 1\<rparr>"
  let ?s4 = "?s3\<lparr>uthreads := (uthreads ?s3)[1 := clear_slot (uthreads ?s3 ! 1)], last_yielded := Some 1, thread_count := 2\<rparr>"
  have p: "ulthread_pick 0 (demo_lib FCFS) = Some ?s1" "ulthread_pick 0 ?s2 = Some ?s3"
    by (simp add: demo_pick) (simp add: ulthread_pick_def demo_lib_def demo_thread_def clear_slot_def older_def upt_rec)
  have d: "ulthread_destroy ?s1 = Some ?s2" "ulthread_destroy ?s3 = Some ?s4"
    by (simp_all add: ulthread_destroy_def demo_lib_def demo_thread_def clear_slot_def)
  have c: "thread_count (demo_lib FCFS) > 1" "thread_count ?s2 > 1" by (simp_all add: demo_lib_def)
  have r: "ul_run 0 ?s2 [1] [] ?s4" by (rule ul_run.run_destroy [OF c(2) p(2) _ d(2) ul_run.run_end]) simp
  show ?thesis by (rule exI, rule ul_run.run_destroy [OF c(1) p(1) _ d(1) r]) simp
qed

theorem fcfs_in_creation_order_witness:
  "time (uthreads (demo_lib FCFS) ! 0) \<le> time (uthreads (demo_lib FCFS) ! 1)"
proof -
  obtain s' where r: "ul_run 0 (demo_lib FCFS) [0, 1] [] s'" using demo_fcfs_run by blast
  have "schedalgo (demo_lib FCFS) = FCFS" by (simp add: demo_lib_def)
  from fcfs_in_creation_order [OF r _ this demo_lib_ok] show ?thesis by simp
qed

text \<open>
  With priorities, the thread that gets the next turn is a runnable one other than the thread that ran last,
  and none of these has a higher priority; the last thread gets another turn only when no other is runnable.
\<close>

theorem priority_pick_highest:
  assumes "schedalgo s = PRIORITY" and "current_thread s = Some l" and "last_yielded s = Some l" and "l < length (uthreads s)"
  defines "ltid \<equiv> tid (uthreads s ! l)"
  shows "\<exists>c. ulthread_pick word0 s = Some (s\<lparr>current_thread := Some c\<rparr>) \<and>
    (if \<exists>i. candidate ltid s i
     then candidate ltid s c \<and> (\<forall>i. candidate ltid s i \<longrightarrow> priority (uthreads s ! i) \<le> priority (uthreads s ! c))
     else c = l)"
proof (intro exI conjI)
  let ?c = "fold (higher ltid (uthreads s)) [0..<length (uthreads s)] l"
  show "ulthread_pick word0 s = Some (s\<lparr>current_thread := Some ?c\<rparr>)"
    using assms by (simp add: ulthread_pick_def Let_def)
  show "if \<exists>i. candidate ltid s i
     then candidate ltid s ?c \<and> (\<forall>i. candidate ltid s i \<longrightarrow> priority (uthreads s ! i) \<le> priority (uthreads s ! ?c))
     else ?c = l"
    using fold_higher [OF order_refl, of "uthreads s" ltid l] by (auto simp: candidate_def runnable_def ltid_def)
qed

theorem priority_pick_highest_witness:
  "\<exists>c. candidate 2 ((demo_lib PRIORITY)\<lparr>current_thread := Some 1, last_yielded := Some 1\<rparr>) c \<and>
     priority (uthreads (demo_lib PRIORITY) ! 2) \<le> priority (uthreads (demo_lib PRIORITY) ! c)"
proof -
  let ?s = "(demo_lib PRIORITY)\<lparr>current_thread := Some 1, last_yielded := Some 1\<rparr>"
  have t: "tid (uthreads ?s ! 1) = 2" by (simp add: demo_lib_def demo_thread_def)
  have "candidate 2 ?s 2" by (simp add: candidate_def runnable_def demo_lib_def demo_thread_def)
  moreover have "\<exists>c. ulthread_pick 0 ?s = Some (?s\<lparr>current_thread := Some c\<rparr>) \<and>
    (if \<exists>i. candidate 2 ?s i then candidate 2 ?s c \<and> (\<forall>i. candidate 2 ?s i \<longrightarrow> priority (uthreads ?s ! i) \<le> priority (uthreads ?s ! c))
     else c = 1)"
    using priority_pick_highest [of ?s 1 0] unfolding t by (simp add: demo_lib_def)
  ultimately obtain c where "candidate 2 ?s c" "priority (uthreads ?s ! 2) \<le> priority (uthreads ?s ! c)" by auto
  then show ?thesis by auto
qed

end
