(* ===== verification/Spinlock.thy ===== *)
theory Spinlock
  imports Xv6_Prelude
begin

text \<open>
  Spin locks, kernel/spinlock.c, at the grain of their atomic instructions: any number of CPUs run
  \<open>acquire\<close> and \<open>release\<close> on any number of locks, interleaved between the swap, the stores to
  \<open>lk->cpu\<close> and \<open>lk->locked\<close>, and the nesting of \<open>push_off\<close> and \<open>pop_off\<close>. A CPU is
  a number, and so is a lock.
\<close>

section \<open>State\<close>

record spinlock =
  lk_locked :: bool
  lk_cpu :: "nat option"

text \<open>The interrupt state of a CPU: \<open>noff\<close> and \<open>intena\<close> of \<open>struct cpu\<close>, and the SIE bit of sstatus.\<close>

record intr_state =
  noff :: int
  intena :: bool
  sie :: bool

definition initlock :: spinlock where
  "initlock = \<lparr>lk_locked = False, lk_cpu = None\<rparr>"

section \<open>Interrupt nesting\<close>

definition push_off :: "intr_state \<Rightarrow> intr_state" where
  "push_off c = c\<lparr>sie := False, intena := (if noff c = 0 then sie c else intena c), noff := noff c + 1\<rparr>"

text \<open>\<open>None\<close> is one of the two panics.\<close>

definition pop_off :: "intr_state \<Rightarrow> intr_state option" where
  "pop_off c =
     (if sie c then None
      else if noff c < 1 then None
      else Some (c\<lparr>noff := noff c - 1, sie := (if noff c - 1 = 0 \<and> intena c then True else sie c)\<rparr>))"

text \<open>A sequence of calls, \<open>True\<close> for \<open>push_off\<close>.\<close>

primrec intr_run :: "bool list \<Rightarrow> intr_state \<Rightarrow> intr_state option" where
  "intr_run [] c = Some c"
| "intr_run (b # bs) c = (if b then intr_run bs (push_off c) else Option.bind (pop_off c) (intr_run bs))"

text \<open>How deep the calls are nested at the end, when every \<open>pop_off\<close> has its \<open>push_off\<close>.\<close>

primrec nesting :: "nat \<Rightarrow> bool list \<Rightarrow> nat option" where
  "nesting d [] = Some d"
| "nesting d (b # bs) = (if b then nesting (Suc d) bs else case d of 0 \<Rightarrow> None | Suc d' \<Rightarrow> nesting d' bs)"

text \<open>The state at depth \<open>d\<close> when interrupts were \<open>on\<close> at depth 0.\<close>

definition at_depth :: "bool \<Rightarrow> nat \<Rightarrow> intr_state \<Rightarrow> bool" where
  "at_depth on d c \<longleftrightarrow> noff c = int d \<and> (if d = 0 then sie c = on else \<not> sie c \<and> intena c = on)"

lemma push_off_depth: "at_depth on d c \<Longrightarrow> at_depth on (Suc d) (push_off c)"
  by (auto simp: at_depth_def push_off_def split: if_splits)

lemma pop_off_depth:
  assumes "at_depth on (Suc d) c"
  shows "\<exists>c'. pop_off c = Some c' \<and> at_depth on d c'"
  using assms by (auto simp: at_depth_def pop_off_def)

lemma intr_run_depth: "at_depth on d c \<Longrightarrow> nesting d bs = Some e \<Longrightarrow> \<exists>c'. intr_run bs c = Some c' \<and> at_depth on e c'"
proof (induction bs arbitrary: d c)
  case (Cons b bs)
  show ?case
  proof (cases b)
    case True
    then show ?thesis using Cons.IH [OF push_off_depth [OF Cons.prems(1)]] Cons.prems(2) by simp
  next
    case False
    then obtain d' where d: "d = Suc d'" "nesting d' bs = Some e" using Cons.prems(2) by (auto split: nat.splits)
    obtain c' where "pop_off c = Some c'" "at_depth on d' c'" using pop_off_depth Cons.prems(1) d(1) by blast
    then show ?thesis using Cons.IH [OF _ d(2)] False by simp
  qed
qed auto

text \<open>
  C26: \<open>push_off\<close> and \<open>pop_off\<close> nest: a sequence of calls in which every \<open>pop_off\<close> has its
  \<open>push_off\<close> never panics, interrupts are off as long as one is open, and with all of them closed they are
  as they were at the start.
\<close>

theorem push_off_nests:
  assumes "noff c = 0" and "nesting 0 bs = Some e"
  shows "\<exists>c'. intr_run bs c = Some c' \<and> noff c' = int e \<and> (if e = 0 then sie c' = sie c else \<not> sie c')"
proof -
  have "at_depth (sie c) 0 c" using assms(1) by (simp add: at_depth_def)
  from intr_run_depth [OF this assms(2)] show ?thesis by (auto simp: at_depth_def split: if_splits)
qed

theorem push_off_nests_witness:
  "\<exists>c'. intr_run [True, True, False, True, False, False] \<lparr>noff = 0, intena = False, sie = True\<rparr> = Some c' \<and> sie c'"
  using push_off_nests [of "\<lparr>noff = 0, intena = False, sie = True\<rparr>" "[True, True, False, True, False, False]" 0] by auto

section \<open>The steps of acquire and release\<close>

text \<open>Where a CPU is: outside both functions, spinning, after the winning swap, before the store to \<open>locked\<close>, before \<open>pop_off\<close>.\<close>

datatype lock_pc = Outside | Spinning nat | Won nat | Unlocking nat | Popping

record lock_world =
  lks :: "nat \<Rightarrow> spinlock"
  ints :: "nat \<Rightarrow> intr_state"
  pcs :: "nat \<Rightarrow> lock_pc"

definition holding :: "nat \<Rightarrow> nat \<Rightarrow> lock_world \<Rightarrow> bool" where
  "holding h l w \<longleftrightarrow> lk_locked (lks w l) \<and> lk_cpu (lks w l) = Some h"

text \<open>\<open>acquire\<close>: \<open>push_off\<close> and the check, the swap (again and again), and the store to \<open>lk->cpu\<close>.\<close>

definition acquire_enter :: "nat \<Rightarrow> nat \<Rightarrow> lock_world \<Rightarrow> lock_world option" where
  "acquire_enter h l w =
     (let w1 = w\<lparr>ints := (ints w)(h := push_off (ints w h))\<rparr> in
      if holding h l w1 then None \<comment> \<open>panic acquire\<close>
      else Some (w1\<lparr>pcs := (pcs w1)(h := Spinning l)\<rparr>))"

definition acquire_swap :: "nat \<Rightarrow> nat \<Rightarrow> lock_world \<Rightarrow> lock_world" where
  "acquire_swap h l w = w\<lparr>lks := (lks w)(l := (lks w l)\<lparr>lk_locked := True\<rparr>),
     pcs := (pcs w)(h := (if lk_locked (lks w l) then Spinning l else Won l))\<rparr>"

definition acquire_record :: "nat \<Rightarrow> nat \<Rightarrow> lock_world \<Rightarrow> lock_world" where
  "acquire_record h l w = w\<lparr>lks := (lks w)(l := (lks w l)\<lparr>lk_cpu := Some h\<rparr>), pcs := (pcs w)(h := Outside)\<rparr>"

text \<open>\<open>release\<close>: the check and \<open>lk->cpu = 0\<close>, the store to \<open>locked\<close>, and \<open>pop_off\<close>.\<close>

definition release_enter :: "nat \<Rightarrow> nat \<Rightarrow> lock_world \<Rightarrow> lock_world option" where
  "release_enter h l w =
     (if \<not> holding h l w then None \<comment> \<open>panic release\<close>
      else Some (w\<lparr>lks := (lks w)(l := (lks w l)\<lparr>lk_cpu := None\<rparr>), pcs := (pcs w)(h := Unlocking l)\<rparr>))"

definition release_store :: "nat \<Rightarrow> nat \<Rightarrow> lock_world \<Rightarrow> lock_world" where
  "release_store h l w = w\<lparr>lks := (lks w)(l := (lks w l)\<lparr>lk_locked := False\<rparr>), pcs := (pcs w)(h := Popping)\<rparr>"

definition release_pop :: "nat \<Rightarrow> lock_world \<Rightarrow> lock_world option" where
  "release_pop h w = do { c \<leftarrow> pop_off (ints w h); Some (w\<lparr>ints := (ints w)(h := c), pcs := (pcs w)(h := Outside)\<rparr>) }"

text \<open>
  Any CPU may take the next step. Outside the lock functions the code switches interrupts on and off when no
  \<open>push_off\<close> is open (the scheduler, and traps from user space).
\<close>

inductive lock_step :: "lock_world \<Rightarrow> lock_world \<Rightarrow> bool" where
  enter: "pcs w h = Outside \<Longrightarrow> acquire_enter h l w = Some w' \<Longrightarrow> lock_step w w'"
| swap: "pcs w h = Spinning l \<Longrightarrow> lock_step w (acquire_swap h l w)"
| record_cpu: "pcs w h = Won l \<Longrightarrow> lock_step w (acquire_record h l w)"
| leave: "pcs w h = Outside \<Longrightarrow> release_enter h l w = Some w' \<Longrightarrow> lock_step w w'"
| unlock: "pcs w h = Unlocking l \<Longrightarrow> lock_step w (release_store h l w)"
| pop: "pcs w h = Popping \<Longrightarrow> release_pop h w = Some w' \<Longrightarrow> lock_step w w'"
| intr: "pcs w h = Outside \<Longrightarrow> noff (ints w h) = 0 \<Longrightarrow> lock_step w (w\<lparr>ints := (ints w)(h := (ints w h)\<lparr>sie := b\<rparr>)\<rparr>)"

inductive lock_reach :: "lock_world \<Rightarrow> lock_world \<Rightarrow> bool" for w0 where
  lock_start: "lock_reach w0 w0"
| lock_next: "lock_reach w0 w \<Longrightarrow> lock_step w w' \<Longrightarrow> lock_reach w0 w'"

inductive_cases lock_stepE: "lock_step w w'"

definition lock_boot :: "lock_world \<Rightarrow> bool" where
  "lock_boot w \<longleftrightarrow> (\<forall>l. lks w l = initlock) \<and> (\<forall>h. pcs w h = Outside \<and> noff (ints w h) = 0)"

section \<open>The invariant\<close>

text \<open>The CPU between its winning swap and its store to \<open>locked\<close>.\<close>

definition owns :: "nat \<Rightarrow> nat \<Rightarrow> lock_world \<Rightarrow> bool" where
  "owns h l w \<longleftrightarrow> pcs w h = Won l \<or> lk_cpu (lks w l) = Some h \<or> pcs w h = Unlocking l"

definition held :: "nat \<Rightarrow> lock_world \<Rightarrow> nat set" where
  "held h w = {l. lk_cpu (lks w l) = Some h}"

definition pending :: "nat \<Rightarrow> lock_world \<Rightarrow> nat" where
  "pending h w = (if pcs w h = Outside then 0 else 1)"

definition lock_inv :: "lock_world \<Rightarrow> bool" where
  "lock_inv w \<longleftrightarrow>
     (\<forall>l h. owns h l w \<longrightarrow> lk_locked (lks w l)) \<and>
     (\<forall>l h k. owns h l w \<longrightarrow> owns k l w \<longrightarrow> h = k) \<and>
     (\<forall>l h. lk_cpu (lks w l) = Some h \<longrightarrow> pcs w h \<noteq> Won l \<and> pcs w h \<noteq> Unlocking l) \<and>
     (\<forall>h. finite (held h w) \<and> noff (ints w h) = int (card (held h w) + pending h w)) \<and>
     (\<forall>h. noff (ints w h) \<noteq> 0 \<longrightarrow> \<not> sie (ints w h))"


lemma lock_invD:
  assumes "lock_inv w"
  shows "owns h l w \<Longrightarrow> lk_locked (lks w l)" and "owns h l w \<Longrightarrow> owns k l w \<Longrightarrow> h = k"
    and "lk_cpu (lks w l) = Some h \<Longrightarrow> pcs w h \<noteq> Won l \<and> pcs w h \<noteq> Unlocking l"
    and "finite (held h w)" and "noff (ints w h) = int (card (held h w) + pending h w)"
    and "noff (ints w h) \<noteq> 0 \<Longrightarrow> \<not> sie (ints w h)"
  using assms unfolding lock_inv_def by blast+

lemma lock_invI:
  assumes "\<And>l h. owns h l w \<Longrightarrow> lk_locked (lks w l)" and "\<And>l h k. owns h l w \<Longrightarrow> owns k l w \<Longrightarrow> h = k"
    and "\<And>l h. lk_cpu (lks w l) = Some h \<Longrightarrow> pcs w h \<noteq> Won l \<and> pcs w h \<noteq> Unlocking l"
    and "\<And>h. finite (held h w)" and "\<And>h. noff (ints w h) = int (card (held h w) + pending h w)"
    and "\<And>h. noff (ints w h) \<noteq> 0 \<Longrightarrow> \<not> sie (ints w h)"
  shows "lock_inv w"
  unfolding lock_inv_def using assms by blast

lemma enter_inv:
  assumes inv: "lock_inv w" and pc: "pcs w h = Outside" and r: "acquire_enter h l w = Some w'"
  shows "lock_inv w'"
proof -
  have w': "w' = w\<lparr>ints := (ints w)(h := push_off (ints w h)), pcs := (pcs w)(h := Spinning l)\<rparr>"
    using r by (simp add: acquire_enter_def Let_def)
  have o: "owns k m w' = owns k m w" for k m using pc by (auto simp: owns_def w')
  have hd: "held k w' = held k w" for k by (simp add: held_def w')
  show ?thesis
  proof (rule lock_invI)
    show "noff (ints w' k) = int (card (held k w') + pending k w')" for k
      unfolding hd using lock_invD(5) [OF inv, of k] pc by (cases "k = h") (simp_all add: w' pending_def push_off_def)
    show "\<not> sie (ints w' k)" if "noff (ints w' k) \<noteq> 0" for k
      using lock_invD(6) [OF inv, of k] that by (auto simp: w' push_off_def split: if_splits)
  qed (use lock_invD [OF inv] in \<open>unfold o hd, auto simp: w'\<close>)
qed

lemma swap_inv:
  assumes inv: "lock_inv w" and pc: "pcs w h = Spinning l"
  shows "lock_inv (acquire_swap h l w)"
proof -
  let ?w = "acquire_swap h l w"
  have o: "owns k m ?w \<longleftrightarrow> owns k m w \<or> (k = h \<and> m = l \<and> \<not> lk_locked (lks w l))" for k m
    using pc by (auto simp: owns_def acquire_swap_def split: if_splits)
  have hd: "held k ?w = held k w" for k by (auto simp: held_def acquire_swap_def)
  have pn: "pending k ?w = pending k w" for k using pc by (auto simp: pending_def acquire_swap_def)
  have free: "\<not> owns k l w" if "\<not> lk_locked (lks w l)" for k using lock_invD(1) [OF inv] that by blast
  show ?thesis
  proof (rule lock_invI)
    show "lk_locked (lks ?w m)" if "owns k m ?w" for k m
      using that lock_invD(1) [OF inv] unfolding o by (auto simp: acquire_swap_def)
    show "k = j" if "owns k m ?w" "owns j m ?w" for k j m
      using that lock_invD(2) [OF inv] free unfolding o by blast
    show "pcs ?w k \<noteq> Won m \<and> pcs ?w k \<noteq> Unlocking m" if "lk_cpu (lks ?w m) = Some k" for k m
    proof -
      have c: "lk_cpu (lks w m) = Some k" using that by (simp add: acquire_swap_def split: if_splits)
      then have "owns k m w" by (simp add: owns_def)
      then have "m = l \<longrightarrow> lk_locked (lks w l)" using free by blast
      then show ?thesis using lock_invD(3) [OF inv c] by (auto simp: acquire_swap_def)
    qed
  qed (use lock_invD [OF inv] in \<open>unfold hd pn, simp_all add: acquire_swap_def\<close>)
qed

lemma record_inv:
  assumes inv: "lock_inv w" and pc: "pcs w h = Won l"
  shows "lock_inv (acquire_record h l w)"
proof -
  let ?w = "acquire_record h l w"
  have oh: "owns h l w" using pc by (simp add: owns_def)
  have c: "lk_cpu (lks w l) = None"
  proof (cases "lk_cpu (lks w l)")
    case (Some k)
    then have "owns k l w" by (simp add: owns_def)
    then have "k = h" using lock_invD(2) [OF inv _ oh] by blast
    then show ?thesis using lock_invD(3) [OF inv Some] pc by simp
  qed
  have o: "owns k m ?w = owns k m w" for k m
    using pc c lock_invD(2) [OF inv oh] by (auto simp: owns_def acquire_record_def split: if_splits)
  have hd: "held k ?w = (if k = h then insert l (held h w) else held k w)" for k
    using c by (auto simp: held_def acquire_record_def)
  have nl: "l \<notin> held h w" using c by (simp add: held_def)
  show ?thesis
  proof (rule lock_invI)
    show "noff (ints ?w k) = int (card (held k ?w) + pending k ?w)" for k
      unfolding hd using lock_invD(4,5) [OF inv, of k] pc nl by (auto simp: acquire_record_def pending_def)
    show "pcs ?w k \<noteq> Won m \<and> pcs ?w k \<noteq> Unlocking m" if "lk_cpu (lks ?w m) = Some k" for k m
      using that lock_invD(3) [OF inv, of m k] by (auto simp: acquire_record_def split: if_splits)
  qed (use lock_invD [OF inv] in \<open>unfold o hd, auto simp: acquire_record_def\<close>)
qed

lemma leave_inv:
  assumes inv: "lock_inv w" and pc: "pcs w h = Outside" and r: "release_enter h l w = Some w'"
  shows "lock_inv w'"
proof -
  have hl: "lk_cpu (lks w l) = Some h" and w': "w' = w\<lparr>lks := (lks w)(l := (lks w l)\<lparr>lk_cpu := None\<rparr>), pcs := (pcs w)(h := Unlocking l)\<rparr>"
    using r by (auto simp: release_enter_def holding_def split: if_splits)
  have oh: "owns h l w" using hl by (simp add: owns_def)
  have o: "owns k m w' = owns k m w" for k m
    using pc hl by (auto simp: owns_def w' split: if_splits)
  have hd: "held k w' = (if k = h then held h w - {l} else held k w)" for k
    using hl by (auto simp: held_def w')
  have nl: "l \<in> held h w" using hl by (simp add: held_def)
  show ?thesis
  proof (rule lock_invI)
    show "noff (ints w' k) = int (card (held k w') + pending k w')" for k
    proof (cases "k = h")
      case True
      have "card (held h w) = Suc (card (held h w - {l}))" using lock_invD(4) [OF inv] nl by (metis card_Suc_Diff1)
      then show ?thesis unfolding hd using lock_invD(5) [OF inv, of h] pc True by (simp add: w' pending_def)
    next
      case False
      then show ?thesis unfolding hd using lock_invD(5) [OF inv, of k] by (simp add: w' pending_def)
    qed
    show "pcs w' k \<noteq> Won m \<and> pcs w' k \<noteq> Unlocking m" if "lk_cpu (lks w' m) = Some k" for k m
      using that lock_invD(3) [OF inv, of m k] by (auto simp: w' split: if_splits)
  qed (use lock_invD [OF inv] in \<open>unfold o hd, auto simp: w'\<close>)
qed

lemma unlock_inv:
  assumes inv: "lock_inv w" and pc: "pcs w h = Unlocking l"
  shows "lock_inv (release_store h l w)"
proof -
  let ?w = "release_store h l w"
  have oh: "owns h l w" using pc by (simp add: owns_def)
  have none: "lk_cpu (lks w l) \<noteq> Some k" for k
  proof
    assume c: "lk_cpu (lks w l) = Some k"
    then have "owns k l w" by (simp add: owns_def)
    then have "k = h" using lock_invD(2) [OF inv _ oh] by blast
    then show False using lock_invD(3) [OF inv c] pc by simp
  qed
  have o: "owns k m ?w \<longleftrightarrow> owns k m w \<and> m \<noteq> l" for k m
  proof (cases "m = l")
    case True
    then show ?thesis using none lock_invD(2) [OF inv oh] by (auto simp: owns_def release_store_def)
  next
    case False
    then show ?thesis using pc by (auto simp: owns_def release_store_def)
  qed
  have hd: "held k ?w = held k w" for k by (auto simp: held_def release_store_def)
  have pn: "pending k ?w = pending k w" for k using pc by (simp add: pending_def release_store_def)
  show ?thesis
  proof (rule lock_invI)
    show "lk_locked (lks ?w m)" if "owns k m ?w" for k m
      using that lock_invD(1) [OF inv] unfolding o by (auto simp: release_store_def)
    show "k = j" if "owns k m ?w" "owns j m ?w" for k j m
      using that lock_invD(2) [OF inv] unfolding o by blast
    show "pcs ?w k \<noteq> Won m \<and> pcs ?w k \<noteq> Unlocking m" if "lk_cpu (lks ?w m) = Some k" for k m
      using that lock_invD(3) [OF inv, of m k] by (auto simp: release_store_def split: if_splits)
  qed (use lock_invD [OF inv] in \<open>unfold hd pn, simp_all add: release_store_def\<close>)
qed

lemma pop_inv:
  assumes inv: "lock_inv w" and pc: "pcs w h = Popping" and r: "release_pop h w = Some w'"
  shows "lock_inv w'"
proof -
  obtain c where c: "pop_off (ints w h) = Some c" and w': "w' = w\<lparr>ints := (ints w)(h := c), pcs := (pcs w)(h := Outside)\<rparr>"
    using r by (auto simp: release_pop_def monad_simps)
  have o: "owns k m w' = owns k m w" for k m using pc by (auto simp: owns_def w')
  have hd: "held k w' = held k w" for k by (simp add: held_def w')
  have cc: "noff c = noff (ints w h) - 1" "noff c \<noteq> 0 \<Longrightarrow> \<not> sie c" using c by (auto simp: pop_off_def split: if_splits)
  show ?thesis
  proof (rule lock_invI)
    show "noff (ints w' k) = int (card (held k w') + pending k w')" for k
      unfolding hd using lock_invD(5) [OF inv, of k] pc cc(1) by (auto simp: w' pending_def)
    show "\<not> sie (ints w' k)" if "noff (ints w' k) \<noteq> 0" for k
      using lock_invD(6) [OF inv, of k] that cc(2) by (auto simp: w' split: if_splits)
  qed (use lock_invD [OF inv] in \<open>unfold o hd, auto simp: w'\<close>)
qed

lemma intr_inv:
  assumes inv: "lock_inv w" and n: "noff (ints w h) = 0"
  shows "lock_inv (w\<lparr>ints := (ints w)(h := (ints w h)\<lparr>sie := b\<rparr>)\<rparr>)"
proof -
  let ?w = "w\<lparr>ints := (ints w)(h := (ints w h)\<lparr>sie := b\<rparr>)\<rparr>"
  have o: "owns k m ?w = owns k m w" "held k ?w = held k w" "pending k ?w = pending k w" for k m
    by (simp_all add: owns_def held_def pending_def)
  show ?thesis by (rule lock_invI; (unfold o)?) (use lock_invD [OF inv] n in auto)
qed

lemma lock_step_inv: "lock_step w w' \<Longrightarrow> lock_inv w \<Longrightarrow> lock_inv w'"
  by (elim lock_stepE; hypsubst?; (rule enter_inv swap_inv record_inv leave_inv unlock_inv pop_inv intr_inv; assumption))

lemma lock_boot_inv: "lock_boot w \<Longrightarrow> lock_inv w"
proof -
  assume b: "lock_boot w"
  have e: "lk_cpu (lks w l) = None" "pcs w h = Outside" "noff (ints w h) = 0" for l h
    using b by (simp_all add: lock_boot_def initlock_def)
  show "lock_inv w" by (rule lock_invI) (simp_all add: owns_def held_def pending_def e)
qed

lemma lock_reach_inv: "lock_reach w0 w \<Longrightarrow> lock_boot w0 \<Longrightarrow> lock_inv w"
  by (induction rule: lock_reach.induct) (simp_all add: lock_boot_inv lock_step_inv)

text \<open>
  C25: mutual exclusion: in every interleaving of any number of CPUs, at most one CPU is between winning a
  lock and storing 0 to it, it is the one that \<open>lk->cpu\<close> names when it names one, and its interrupts are off.
\<close>

theorem lock_mutual_exclusion:
  assumes "lock_boot w0" and "lock_reach w0 w"
    and "pcs w h = Won l \<or> holding h l w \<or> pcs w h = Unlocking l"
  shows "(\<forall>k. pcs w k = Won l \<or> holding k l w \<or> pcs w k = Unlocking l \<longrightarrow> k = h) \<and> lk_locked (lks w l) \<and> \<not> sie (ints w h)"
proof (intro conjI allI impI)
  note inv = lock_reach_inv [OF assms(2,1)]
  have o: "owns h l w" using assms(3) by (auto simp: owns_def holding_def)
  show "lk_locked (lks w l)" by (rule lock_invD(1) [OF inv o])
  show "k = h" if "pcs w k = Won l \<or> holding k l w \<or> pcs w k = Unlocking l" for k
  proof -
    have "owns k l w" using that by (auto simp: owns_def holding_def)
    then show ?thesis by (rule lock_invD(2) [OF inv _ o])
  qed
  have "noff (ints w h) \<noteq> 0"
  proof (cases "pcs w h = Outside")
    case True
    then have "l \<in> held h w" using o by (simp add: owns_def held_def)
    then have "card (held h w) > 0" using lock_invD(4) [OF inv, of h] by (auto simp: card_gt_0_iff)
    then show ?thesis using lock_invD(5) [OF inv, of h] by simp
  next
    case False
    then show ?thesis using lock_invD(5) [OF inv, of h] by (simp add: pending_def)
  qed
  then show "\<not> sie (ints w h)" by (rule lock_invD(6) [OF inv])
qed

text \<open>CPU 0 takes lock 5; CPU 1 spins on it.\<close>

definition lock_demo :: lock_world where
  "lock_demo = \<lparr>lks = \<lambda>l. initlock, ints = \<lambda>h. \<lparr>noff = 0, intena = False, sie = True\<rparr>, pcs = \<lambda>h. Outside\<rparr>"

lemma lock_demo_boot: "lock_boot lock_demo"
  by (simp add: lock_boot_def lock_demo_def)

lemma lock_demo_reach: "\<exists>w. lock_reach lock_demo w \<and> holding 0 5 w \<and> pcs w 1 = Spinning 5"
proof -
  obtain w1 where w1: "acquire_enter 0 5 lock_demo = Some w1"
    by (simp add: acquire_enter_def Let_def holding_def lock_demo_def initlock_def)
  define w3 where "w3 = acquire_record 0 5 (acquire_swap 0 5 w1)"
  have p1: "pcs w1 0 = Spinning 5" "pcs (acquire_swap 0 5 w1) 0 = Won 5" "pcs w3 1 = Outside" "holding 0 5 w3" "\<not> holding 1 5 w3"
    using w1 by (auto simp: w3_def acquire_enter_def Let_def acquire_swap_def acquire_record_def holding_def lock_demo_def initlock_def)
  have o: "pcs lock_demo 0 = Outside" by (simp add: lock_demo_def)
  have "lock_reach lock_demo w3"
    unfolding w3_def
    by (rule lock_reach.lock_next [OF lock_reach.lock_next [OF lock_reach.lock_next [OF lock_reach.lock_start
      lock_step.enter [OF o w1]] lock_step.swap [OF p1(1)]] lock_step.record_cpu [OF p1(2)]])
  moreover obtain w4 where w4: "acquire_enter 1 5 w3 = Some w4" "holding 0 5 w4" "pcs w4 1 = Spinning 5"
    using p1(4,5) by (auto simp: acquire_enter_def Let_def holding_def)
  ultimately show ?thesis using lock_reach.lock_next [OF _ lock_step.enter [OF p1(3) w4(1)]] by blast
qed

theorem lock_mutual_exclusion_witness:
  "\<exists>w. lock_reach lock_demo w \<and> holding 0 5 w \<and> \<not> holding 1 5 w \<and> \<not> sie (ints w 0)"
proof -
  obtain w where w: "lock_reach lock_demo w" "holding 0 5 w" "pcs w 1 = Spinning 5" using lock_demo_reach by blast
  have "\<not> holding 1 5 w" using lock_mutual_exclusion [OF lock_demo_boot w(1) disjI2 [OF disjI1 [OF w(2)]]] by auto
  moreover have "\<not> sie (ints w 0)" using lock_mutual_exclusion [OF lock_demo_boot w(1), of 0 5] w(2) by blast
  ultimately show ?thesis using w by blast
qed

text \<open>
  C27: the panics of \<open>release\<close> and \<open>pop_off\<close> are out of reach of a CPU that releases what it holds: its
  check succeeds, and the \<open>pop_off\<close> that ends any \<open>release\<close> returns.
\<close>

theorem release_never_panics:
  assumes "lock_boot w0" and "lock_reach w0 w"
  shows "(holding h l w \<longrightarrow> release_enter h l w \<noteq> None) \<and> (pcs w h = Popping \<longrightarrow> release_pop h w \<noteq> None)"
proof (intro conjI impI)
  note inv = lock_reach_inv [OF assms(2,1)]
  show "release_enter h l w \<noteq> None" if "holding h l w" using that by (simp add: release_enter_def)
  assume p: "pcs w h = Popping"
  have "noff (ints w h) \<ge> 1" using lock_invD(5) [OF inv, of h] p by (simp add: pending_def)
  moreover from this have "\<not> sie (ints w h)" using lock_invD(6) [OF inv, of h] by simp
  ultimately show "release_pop h w \<noteq> None" by (simp add: release_pop_def pop_off_def)
qed


theorem release_never_panics_witness: "\<exists>w. lock_reach lock_demo w \<and> release_enter 0 5 w \<noteq> None"
proof -
  obtain w where w: "lock_reach lock_demo w" "holding 0 5 w" using lock_demo_reach by blast
  then show ?thesis using release_never_panics [OF lock_demo_boot w(1)] w(2) by blast
qed

end
