(* ===== verification/Sleeplock.thy ===== *)
theory Sleeplock
  imports Main
begin

text \<open>
  Sleep locks, kernel/sleeplock.c. The spin lock inside makes each pass of the loop of \<open>acquiresleep\<close> one step, and
  \<open>sleep\<close> gives it up only when the process is asleep. Any number of processes use any number of locks; the
  scheduler is where a process that has been woken goes on.
\<close>

section \<open>The lock\<close>

record sleeplock =
  sl_locked :: bool
  sl_pid :: int

definition initsleeplock :: sleeplock where
  "initsleeplock = \<lparr>sl_locked = False, sl_pid = 0\<rparr>"

text \<open>One pass of the loop: the lock is taken, or the process goes to sleep (\<open>False\<close>).\<close>

definition acquiresleep :: "int \<Rightarrow> sleeplock \<Rightarrow> bool \<times> sleeplock" where
  "acquiresleep pid lk = (if sl_locked lk then (False, lk) else (True, lk\<lparr>sl_locked := True, sl_pid := pid\<rparr>))"

definition releasesleep :: "sleeplock \<Rightarrow> sleeplock" where
  "releasesleep lk = lk\<lparr>sl_locked := False, sl_pid := 0\<rparr>"

definition holdingsleep :: "int \<Rightarrow> sleeplock \<Rightarrow> bool" where
  "holdingsleep pid lk \<longleftrightarrow> sl_locked lk \<and> sl_pid lk = pid"

section \<open>Processes\<close>

text \<open>A process asks for a lock, is asleep on one, or does something else; a process that holds a lock may do all of these.\<close>

datatype sl_pc = Free | Trying nat | Asleep_on nat

record sl_world =
  sls :: "nat \<Rightarrow> sleeplock"
  sl_pcs :: "int \<Rightarrow> sl_pc"

definition wake_all :: "nat \<Rightarrow> (int \<Rightarrow> sl_pc) \<Rightarrow> int \<Rightarrow> sl_pc" where
  "wake_all l pcs p = (if pcs p = Asleep_on l then Trying l else pcs p)"

text \<open>Only the holder releases a lock: the callers of \<open>releasesleep\<close> in fs.c and bio.c test it with \<open>holdingsleep\<close> first.\<close>

inductive sl_step :: "sl_world \<Rightarrow> sl_world \<Rightarrow> bool" where
  ask: "sl_pcs w p = Free \<Longrightarrow> \<not> holdingsleep p (sls w l) \<Longrightarrow> sl_step w (w\<lparr>sl_pcs := (sl_pcs w)(p := Trying l)\<rparr>)"
| got: "sl_pcs w p = Trying l \<Longrightarrow> acquiresleep p (sls w l) = (True, lk) \<Longrightarrow>
    sl_step w (w\<lparr>sls := (sls w)(l := lk), sl_pcs := (sl_pcs w)(p := Free)\<rparr>)"
| slept: "sl_pcs w p = Trying l \<Longrightarrow> acquiresleep p (sls w l) = (False, lk) \<Longrightarrow>
    sl_step w (w\<lparr>sls := (sls w)(l := lk), sl_pcs := (sl_pcs w)(p := Asleep_on l)\<rparr>)"
| gave_up: "sl_pcs w p = Free \<Longrightarrow> holdingsleep p (sls w l) \<Longrightarrow>
    sl_step w (w\<lparr>sls := (sls w)(l := releasesleep (sls w l)), sl_pcs := wake_all l (sl_pcs w)\<rparr>)"

inductive sl_reach :: "sl_world \<Rightarrow> sl_world \<Rightarrow> bool" for w0 where
  sl_start: "sl_reach w0 w0"
| sl_next: "sl_reach w0 w \<Longrightarrow> sl_step w w' \<Longrightarrow> sl_reach w0 w'"

inductive_cases sl_stepE: "sl_step w w'"

definition sl_boot :: "sl_world \<Rightarrow> bool" where
  "sl_boot w \<longleftrightarrow> (\<forall>l. sls w l = initsleeplock) \<and> (\<forall>p. sl_pcs w p = Free)"

text \<open>No wakeup is lost: whoever sleeps on a lock sleeps while somebody holds it.\<close>

lemma sl_step_awake:
  "sl_step w w' \<Longrightarrow> (\<And>p l. sl_pcs w p = Asleep_on l \<Longrightarrow> sl_locked (sls w l)) \<Longrightarrow> sl_pcs w' p = Asleep_on l \<Longrightarrow> sl_locked (sls w' l)"
  by (erule sl_stepE) (auto simp: acquiresleep_def releasesleep_def wake_all_def split: if_splits)

lemma sleepers_have_holder:
  assumes "sl_reach w0 w" and "sl_boot w0"
  shows "sl_pcs w p = Asleep_on l \<Longrightarrow> sl_locked (sls w l)"
  using assms
proof (induction arbitrary: p l rule: sl_reach.induct)
  case sl_start
  then show ?case by (simp add: sl_boot_def)
next
  case (sl_next w w')
  then show ?case using sl_step_awake [of w w' p l] by blast
qed

text \<open>Mutual exclusion, from one release to the next: while a process holds the lock nobody else comes to hold it.\<close>

lemma holder_unique: "holdingsleep p lk \<Longrightarrow> holdingsleep q lk \<Longrightarrow> p = q"
  by (simp add: holdingsleep_def)

lemma holder_stays:
  assumes "sl_step w w'" and "holdingsleep p (sls w l)" and "\<not> holdingsleep p (sls w' l)"
  shows "sls w' l = releasesleep (sls w l) \<and> sl_pcs w p = Free"
  using assms by (elim sl_stepE) (auto simp: acquiresleep_def holdingsleep_def releasesleep_def split: if_splits)

end
