(* ===== verification/Console.thy ===== *)
theory Console
  imports Printf User_Io Ring
begin

text \<open>
  The console: kernel/uart.c and kernel/console.c. Bytes handed to the transmit register are appended to
  \<open>thr\<close>. How many bytes the device takes before its status register says busy is the argument \<open>n\<close> of the
  operations that look at it, and the bytes that have arrived are the argument of \<open>uartintr\<close>. An endless
  loop after a panic is \<open>None\<close>; a caller that sleeps is \<open>Asleep\<close>. \<open>uart_tx_lock\<close> and \<open>cons.lock\<close> make each body one step.
\<close>

section \<open>State\<close>

definition INPUT_BUF_SIZE :: nat where "INPUT_BUF_SIZE = 128"
definition UART_TX_BUF_SIZE :: nat where "UART_TX_BUF_SIZE = 32"

record console_state = kernel_state +
  cons_buf :: "u8 list"
  cons_r :: u32
  cons_w :: u32
  cons_e :: u32
  uart_tx_buf :: "u8 list"
  uart_tx_w :: u64
  uart_tx_r :: u64
  uart_regs :: "(nat \<times> u8) list"
  thr :: "u8 list"
  panicked :: bool

section \<open>uart.c\<close>

text \<open>The writes to the control registers, in order.\<close>

definition uartinit :: "'a console_state_scheme \<Rightarrow> 'a console_state_scheme" where
  "uartinit s = s\<lparr>uart_regs := uart_regs s @ [(1, 0x00), (3, 0x80), (0, 0x03), (1, 0x00), (3, 0x03), (2, 0x07), (1, 0x03)]\<rparr>"

definition uartputc_sync :: "u8 \<Rightarrow> 'a console_state_scheme \<Rightarrow> 'a console_state_scheme option" where
  "uartputc_sync c s = (if panicked s then None else Some (s\<lparr>thr := thr s @ [c]\<rparr>))"

text \<open>The two ends of the output queue.\<close>

definition uart_put :: "u8 \<Rightarrow> 'a console_state_scheme \<Rightarrow> 'a console_state_scheme" where
  "uart_put c s = s\<lparr>uart_tx_buf := (uart_tx_buf s)[unat (uart_tx_w s) mod UART_TX_BUF_SIZE := c], uart_tx_w := uart_tx_w s + 1\<rparr>"

definition uart_get :: "'a console_state_scheme \<Rightarrow> u8 \<times> 'a console_state_scheme" where
  "uart_get s = (uart_tx_buf s ! (unat (uart_tx_r s) mod UART_TX_BUF_SIZE), s\<lparr>uart_tx_r := uart_tx_r s + 1\<rparr>)"

primrec uartstart :: "nat \<Rightarrow> 'a console_state_scheme \<Rightarrow> 'a console_state_scheme" where
  "uartstart 0 s = s"
| "uartstart (Suc n) s =
     (if uart_tx_w s = uart_tx_r s then s
      else case uart_get s of (c, s1) \<Rightarrow>
        let s2 = wakeup On_uart s1 in uartstart n (s2\<lparr>thr := thr s2 @ [c]\<rparr>))"

definition uartputc :: "nat \<Rightarrow> u8 \<Rightarrow> 'a console_state_scheme \<Rightarrow> (outcome \<times> 'a console_state_scheme) option" where
  "uartputc n c s =
     (if panicked s then None
      else if uart_tx_w s = uart_tx_r s + of_nat UART_TX_BUF_SIZE then do { s1 \<leftarrow> sleep On_uart s; Some (Asleep 0, s1) }
      else Some (Done 0, uartstart n (uart_put c s)))"

section \<open>console.c\<close>

definition BACKSPACE :: u32 where "BACKSPACE = 0x100"

definition consputc :: "u32 \<Rightarrow> 'a console_state_scheme \<Rightarrow> 'a console_state_scheme option" where
  "consputc c s =
     (if c = BACKSPACE then do { s1 \<leftarrow> uartputc_sync 8 s; s2 \<leftarrow> uartputc_sync 32 s1; uartputc_sync 8 s2 }
      else uartputc_sync (ucast c) s)"

text \<open>The loop of control-U: one step per byte between \<open>w\<close> and \<open>e\<close>, back to a newline.\<close>

partial_function (option) kill_line :: "'a console_state_scheme \<Rightarrow> 'a console_state_scheme option" where
  "kill_line s =
     (if cons_e s \<noteq> cons_w s \<and> cons_buf s ! (unat (cons_e s - 1) mod INPUT_BUF_SIZE) \<noteq> 10
      then do { s1 \<leftarrow> consputc BACKSPACE (s\<lparr>cons_e := cons_e s - 1\<rparr>); kill_line s1 }
      else Some s)"

section \<open>The kernel's printf on the console, and the process list\<close>

primrec kputs :: "u8 list \<Rightarrow> 'a console_state_scheme \<Rightarrow> 'a console_state_scheme option" where
  "kputs [] s = Some s"
| "kputs (b # bs) s = do { s1 \<leftarrow> consputc (ucast b) s; kputs bs s1 }"

definition ascii :: "string \<Rightarrow> u8 list" where "ascii cs = map (of_nat \<circ> of_char) cs"

definition state_name :: "procstate \<Rightarrow> u8 list" where
  "state_name st = ascii (case st of UNUSED \<Rightarrow> ''unused'' | USED \<Rightarrow> ''used'' | SLEEPING \<Rightarrow> ''sleep ''
     | RUNNABLE \<Rightarrow> ''runble'' | RUNNING \<Rightarrow> ''run   '' | ZOMBIE \<Rightarrow> ''zombie'')"

definition name_bytes :: "u8 list \<Rightarrow> u8 list" where "name_bytes nm = takeWhile (\<lambda>b. b \<noteq> 0) nm"

primrec dump_lines :: "proc list \<Rightarrow> u8 list option" where
  "dump_lines [] = Some []"
| "dump_lines (p # ps) = do {
     rest \<leftarrow> dump_lines ps;
     if p_state p = UNUSED then Some rest
     else do {
       pid \<leftarrow> printint digits_kernel (word_of_int (p_pid p)) 10 True;
       Some (pid @ [32] @ state_name (p_state p) @ [32] @ name_bytes (p_name p) @ [10] @ rest) } }"

definition procdump :: "'a console_state_scheme \<Rightarrow> 'a console_state_scheme option" where
  "procdump s = do { ls \<leftarrow> dump_lines (procs s); kputs (10 # ls) s }"

section \<open>Input and output\<close>

definition consoleintr :: "u8 \<Rightarrow> 'a console_state_scheme \<Rightarrow> 'a console_state_scheme option" where
  "consoleintr c s =
     (if c = 0x10 then procdump s
      else if c = 0x15 then kill_line s
      else if c = 8 \<or> c = 0x7f then
        (if cons_e s \<noteq> cons_w s then consputc BACKSPACE (s\<lparr>cons_e := cons_e s - 1\<rparr>) else Some s)
      else if c \<noteq> 0 \<and> cons_e s - cons_r s < of_nat INPUT_BUF_SIZE then do {
        let c' = (if c = 13 then 10 else c);
        s1 \<leftarrow> consputc (ucast c') s;
        let s2 = s1\<lparr>cons_buf := (cons_buf s1)[unat (cons_e s1) mod INPUT_BUF_SIZE := c'], cons_e := cons_e s1 + 1\<rparr>;
        Some (if c' = 10 \<or> c' = 4 \<or> cons_e s2 - cons_r s2 = of_nat INPUT_BUF_SIZE
              then wakeup On_cons (s2\<lparr>cons_w := cons_e s2\<rparr>) else s2) }
      else Some s)"

primrec consoleintrs :: "u8 list \<Rightarrow> 'a console_state_scheme \<Rightarrow> 'a console_state_scheme option" where
  "consoleintrs [] s = Some s"
| "consoleintrs (c # cs) s = do { s1 \<leftarrow> consoleintr c s; consoleintrs cs s1 }"

definition uartintr :: "u8 list \<Rightarrow> nat \<Rightarrow> 'a console_state_scheme \<Rightarrow> 'a console_state_scheme option" where
  "uartintr input n s = do { s1 \<leftarrow> consoleintrs input s; Some (uartstart n s1) }"

text \<open>\<open>ready i\<close> is the number of bytes the device takes after the \<open>i\<close>-th byte; \<open>k\<close> bytes are to go.\<close>

primrec consolewrite_loop ::
  "(nat \<Rightarrow> nat) \<Rightarrow> bool \<Rightarrow> u64 \<Rightarrow> nat \<Rightarrow> nat \<Rightarrow> 'a console_state_scheme \<Rightarrow> (outcome \<times> 'a console_state_scheme) option" where
  "consolewrite_loop ready user_src src i 0 s = Some (Done (int i), s)"
| "consolewrite_loop ready user_src src i (Suc k) s = do {
     (r, bs) \<leftarrow> either_copyin user_src (src + of_nat i) 1 s;
     if r = -1 then Some (Done (int i), s)
     else do {
       (out, s1) \<leftarrow> uartputc (ready i) (hd bs) s;
       if out = Done 0 then consolewrite_loop ready user_src src (Suc i) k s1 else Some (Asleep i, s1) } }"

definition consolewrite :: "(nat \<Rightarrow> nat) \<Rightarrow> bool \<Rightarrow> u64 \<Rightarrow> int \<Rightarrow> 'a console_state_scheme \<Rightarrow> (outcome \<times> 'a console_state_scheme) option" where
  "consolewrite ready user_src src n s = consolewrite_loop ready user_src src 0 (nat n) s"

text \<open>\<open>i\<close> bytes are read and \<open>k\<close> are to go.\<close>

primrec consoleread_loop :: "bool \<Rightarrow> u64 \<Rightarrow> nat \<Rightarrow> nat \<Rightarrow> 'a console_state_scheme \<Rightarrow> (outcome \<times> 'a console_state_scheme) option" where
  "consoleread_loop user_dst dst i 0 s = Some (Done (int i), s)"
| "consoleread_loop user_dst dst i (Suc k) s =
     (if cons_r s = cons_w s then do {
        p \<leftarrow> myproc s;
        if killed p s \<noteq> 0 then Some (Done (-1), s)
        else do { s1 \<leftarrow> sleep On_cons s; Some (Asleep i, s1) } }
      else let c = cons_buf s ! (unat (cons_r s) mod INPUT_BUF_SIZE); s1 = s\<lparr>cons_r := cons_r s + 1\<rparr> in
        if c = 4 then Some (Done (int i), if 0 < i then s1\<lparr>cons_r := cons_r s1 - 1\<rparr> else s1)
        else do {
          (r, s2) \<leftarrow> either_copyout user_dst (dst + of_nat i) [c] s1;
          if r = -1 then Some (Done (int i), s2)
          else if c = 10 then Some (Done (int (Suc i)), s2)
          else consoleread_loop user_dst dst (Suc i) k s2 })"

definition consoleread :: "bool \<Rightarrow> u64 \<Rightarrow> int \<Rightarrow> 'a console_state_scheme \<Rightarrow> (outcome \<times> 'a console_state_scheme) option" where
  "consoleread user_dst dst n s = consoleread_loop user_dst dst 0 (nat n) s"

definition consoleinit :: "'a console_state_scheme \<Rightarrow> 'a console_state_scheme" where
  "consoleinit s = uartinit s"

text \<open>\<open>devsw\<close> as \<open>consoleinit\<close> sets it up: the console is device 1.\<close>

definition devsw_read :: "'a console_state_scheme dev_op" where
  "devsw_read major = (if major = 1 then Some consoleread else None)"

definition devsw_write :: "(nat \<Rightarrow> nat) \<Rightarrow> 'a console_state_scheme dev_op" where
  "devsw_write ready major = (if major = 1 then Some (consolewrite ready) else None)"

section \<open>Ring buffers seen from the write end\<close>

lemma unat_pred_diff:
  fixes r w :: "'w::len word"
  assumes "r \<noteq> w"
  shows "unat (w - 1 - r) = unat (w - r) - 1"
proof -
  have "w - r \<noteq> 0" using assms by simp
  then have "unat (w - r - 1) = unat (w - r) - 1" by (rule unat_minus_one)
  then show ?thesis by (simp add: algebra_simps)
qed

lemma ring_back:
  fixes r w :: "'w::len word"
  assumes "ring_ok data r w" and "r \<noteq> w"
  shows "ring_ok data r (w - 1)" and "ring_content data r (w - 1) = butlast (ring_content data r w)"
    and "last (ring_content data r w) = data ! (unat (w - 1) mod length data)"
proof -
  let ?m = "unat (w - r)"
  have p: "0 < ?m" using assms(2) by (simp add: unat_gt_0)
  note d = unat_pred_diff [OF assms(2)]
  show "ring_ok data r (w - 1)" using assms(1) d by (auto simp: ring_ok_def)
  obtain n where n: "?m = Suc n" using p gr0_implies_Suc by blast
  show "ring_content data r (w - 1) = butlast (ring_content data r w)"
    unfolding ring_content_def d n by simp
  have "w - 1 = r + of_nat (?m - 1)" using d by (metis add.commute diff_add_cancel of_nat_unat ucast_id)
  then have "unat (w - 1) mod length data = (unat r + (?m - 1)) mod length data"
    using unat_add_mod [of "length data" r "?m - 1"] assms(1) by (simp add: ring_ok_def)
  then show "last (ring_content data r w) = data ! (unat (w - 1) mod length data)"
    unfolding ring_content_def n by simp
qed

section \<open>The input line\<close>

definition cons_content :: "'a console_state_scheme \<Rightarrow> u8 list" where
  "cons_content s = ring_content (cons_buf s) (cons_r s) (cons_e s)"

text \<open>The lines that can be read, and the line that is being typed.\<close>

definition committed :: "'a console_state_scheme \<Rightarrow> u8 list" where
  "committed s = take (unat (cons_w s - cons_r s)) (cons_content s)"

definition editing :: "'a console_state_scheme \<Rightarrow> u8 list" where
  "editing s = drop (unat (cons_w s - cons_r s)) (cons_content s)"

definition cons_inv :: "'a console_state_scheme \<Rightarrow> bool" where
  "cons_inv s \<longleftrightarrow> length (cons_buf s) = INPUT_BUF_SIZE \<and> ring_ok (cons_buf s) (cons_r s) (cons_e s) \<and>
     unat (cons_w s - cons_r s) \<le> unat (cons_e s - cons_r s) \<and> 10 \<notin> set (editing s)"

text \<open>A line editor on two lists: what has been committed, and what can still be changed.\<close>

definition line_intr :: "u8 \<Rightarrow> u8 list \<times> u8 list \<Rightarrow> u8 list \<times> u8 list" where
  "line_intr c = (\<lambda>(lines, line).
     if c = 0x10 then (lines, line)
     else if c = 0x15 then (lines, [])
     else if c = 8 \<or> c = 0x7f then (lines, butlast line)
     else if c = 0 \<or> length lines + length line \<ge> INPUT_BUF_SIZE then (lines, line)
     else let c' = (if c = 13 then 10 else c); line' = line @ [c'] in
       if c' = 10 \<or> c' = 4 \<or> length lines + length line' = INPUT_BUF_SIZE then (lines @ line', []) else (lines, line'))"

lemma cons_split: "cons_content s = committed s @ editing s"
  by (simp add: committed_def editing_def)

lemma cons_lengths:
  assumes "cons_inv s"
  shows "length (cons_content s) = unat (cons_e s - cons_r s)" "length (committed s) = unat (cons_w s - cons_r s)"
    "length (cons_content s) \<le> INPUT_BUF_SIZE"
  using assms by (auto simp: cons_content_def committed_def cons_inv_def ring_ok_def)

lemma editing_empty:
  assumes "cons_inv s"
  shows "cons_e s = cons_w s \<longleftrightarrow> editing s = []"
proof -
  have "editing s = [] \<longleftrightarrow> unat (cons_e s - cons_r s) = unat (cons_w s - cons_r s)"
    using assms by (auto simp: editing_def cons_content_def cons_inv_def)
  also have "\<dots> \<longleftrightarrow> cons_e s = cons_w s" by (auto simp flip: word_unat_eq_iff)
  finally show ?thesis by simp
qed

text \<open>Only the console fields matter for the lines.\<close>

definition same_line :: "'a console_state_scheme \<Rightarrow> 'a console_state_scheme \<Rightarrow> bool" where
  "same_line s s' \<longleftrightarrow> cons_buf s' = cons_buf s \<and> cons_r s' = cons_r s \<and> cons_w s' = cons_w s \<and> cons_e s' = cons_e s \<and>
     panicked s' = panicked s"

lemma same_lineD:
  assumes "same_line s s'"
  shows "cons_inv s' = cons_inv s" "committed s' = committed s" "editing s' = editing s" "panicked s' = panicked s"
  using assms by (simp_all add: same_line_def cons_inv_def committed_def editing_def cons_content_def)

lemma consputc_line: "\<not> panicked s \<Longrightarrow> \<exists>s'. consputc c s = Some s' \<and> same_line s s'"
  by (simp add: consputc_def uartputc_sync_def same_line_def)

lemma kputs_line: "\<not> panicked s \<Longrightarrow> \<exists>s'. kputs bs s = Some s' \<and> same_line s s'"
proof (induction bs arbitrary: s)
  case (Cons b bs)
  obtain t where t: "consputc (ucast b) s = Some t" "same_line s t" using consputc_line [OF Cons.prems] by blast
  obtain s' where "kputs bs t = Some s'" "same_line t s'" using Cons.IH [of t] Cons.prems same_lineD(4) [OF t(2)] by blast
  then show ?case using t by (auto simp: same_line_def)
qed (simp add: same_line_def)

lemma dump_lines_Some: "\<exists>ls. dump_lines ps = Some ls"
proof (induction ps)
  case (Cons p ps)
  have "5 \<le> unat (10 :: u32)" by simp
  from printint_ok [OF this, of digits_kernel "word_of_int (p_pid p)" True] show ?case using Cons by auto
qed simp

lemma procdump_line:
  assumes "\<not> panicked s"
  shows "\<exists>s'. procdump s = Some s' \<and> same_line s s'"
proof -
  obtain ls where "dump_lines (procs s) = Some ls" using dump_lines_Some by blast
  then have "procdump s = kputs (10 # ls) s" by (simp add: procdump_def)
  then show ?thesis using kputs_line [OF assms] by metis
qed

lemma cons_wakeup [simp]:
  "cons_buf (wakeup c s) = cons_buf s" "cons_r (wakeup c s) = cons_r s" "cons_w (wakeup c s) = cons_w s"
  "cons_e (wakeup c s) = cons_e s" "panicked (wakeup c s) = panicked s" "uart_tx_buf (wakeup c s) = uart_tx_buf s"
  "uart_tx_r (wakeup c s) = uart_tx_r s" "uart_tx_w (wakeup c s) = uart_tx_w s" "thr (wakeup c s) = thr s"
  by (simp_all add: wakeup_def split: option.split)

text \<open>Taking back the last byte of the line.\<close>

lemma erase_last:
  assumes "cons_inv s" and "editing s \<noteq> []"
  defines "s' \<equiv> s\<lparr>cons_e := cons_e s - 1\<rparr>"
  shows "cons_inv s'" "committed s' = committed s" "editing s' = butlast (editing s)"
    "cons_buf s ! (unat (cons_e s - 1) mod INPUT_BUF_SIZE) = last (editing s)"
proof -
  have ne: "cons_e s \<noteq> cons_w s" using editing_empty [OF assms(1)] assms(2) by simp
  have i: "length (cons_buf s) = INPUT_BUF_SIZE" "ring_ok (cons_buf s) (cons_r s) (cons_e s)"
    "unat (cons_w s - cons_r s) \<le> unat (cons_e s - cons_r s)" "10 \<notin> set (editing s)"
    using assms(1) by (auto simp: cons_inv_def)
  have lt: "unat (cons_w s - cons_r s) < unat (cons_e s - cons_r s)"
    using i(3) ne by (metis diff_add_cancel le_neq_implies_less word_unat_eq_iff)
  then have re: "cons_r s \<noteq> cons_e s" by auto
  note b = ring_back [OF i(2) re]
  have c: "cons_content s' = butlast (cons_content s)" using b(2) by (simp add: s'_def cons_content_def)
  have l: "unat (cons_w s - cons_r s) < length (cons_content s)" using lt by (simp add: cons_content_def)
  show cm: "committed s' = committed s"
  proof -
    have "unat (cons_w s - cons_r s) \<le> length (cons_content s) - 1" using l by simp
    then show ?thesis unfolding committed_def c by (simp add: s'_def butlast_conv_take min_absorb1)
  qed
  show ed: "editing s' = butlast (editing s)"
    using l unfolding editing_def c by (simp add: s'_def butlast_drop)
  have "unat (cons_e s - 1 - cons_r s) = unat (cons_e s - cons_r s) - 1" by (rule unat_pred_diff [OF re])
  then show "cons_inv s'" using i b(1) lt ed by (auto simp: cons_inv_def s'_def dest: in_set_butlastD)
  show "cons_buf s ! (unat (cons_e s - 1) mod INPUT_BUF_SIZE) = last (editing s)"
    using b(3) i(1) assms(2) cons_split [of s] by (simp add: cons_content_def)
qed

lemma kill_line_ok:
  assumes "cons_inv s" and "\<not> panicked s"
  shows "\<exists>s'. kill_line s = Some s' \<and> cons_inv s' \<and> \<not> panicked s' \<and> committed s' = committed s \<and> editing s' = []"
  using assms
proof (induction "length (editing s)" arbitrary: s)
  case 0
  then show ?case using editing_empty [OF "0.prems"(1)] by (subst kill_line.simps) simp
next
  case (Suc n)
  then have ne: "editing s \<noteq> []" by auto
  note e = erase_last [OF Suc.prems(1) ne]
  obtain t where t: "consputc BACKSPACE (s\<lparr>cons_e := cons_e s - 1\<rparr>) = Some t" "same_line (s\<lparr>cons_e := cons_e s - 1\<rparr>) t"
    using consputc_line [of "s\<lparr>cons_e := cons_e s - 1\<rparr>" BACKSPACE] Suc.prems(2) by auto
  note l = same_lineD [OF t(2)]
  have "n = length (editing t)" using Suc.hyps(2) l(3) e(3) by simp
  then obtain s' where s': "kill_line t = Some s'" "cons_inv s'" "\<not> panicked s'" "committed s' = committed t" "editing s' = []"
    using Suc.hyps(1) [of t] l e(1) Suc.prems(2) by auto
  have "last (editing s) \<noteq> 10" using Suc.prems(1) last_in_set [OF ne] by (auto simp: cons_inv_def)
  then have "kill_line s = Some s'"
    using editing_empty [OF Suc.prems(1)] ne e(4) t(1) s'(1) by (subst kill_line.simps) simp
  then show ?case using s' l(2) e(2) by simp
qed

text \<open>Adding a byte at the end of the line.\<close>

lemma add_byte:
  assumes "cons_inv s" and "length (cons_content s) < INPUT_BUF_SIZE"
    and s'_def: "s' = s\<lparr>cons_buf := (cons_buf s)[unat (cons_e s) mod INPUT_BUF_SIZE := c], cons_e := cons_e s + 1\<rparr>"
  shows "cons_content s' = cons_content s @ [c]" "length (cons_buf s') = INPUT_BUF_SIZE"
    "ring_ok (cons_buf s') (cons_r s') (cons_e s')" "committed s' = committed s" "editing s' = editing s @ [c]"
    "unat (cons_e s' - cons_r s') = Suc (length (cons_content s))"
proof -
  have i: "length (cons_buf s) = INPUT_BUF_SIZE" "ring_ok (cons_buf s) (cons_r s) (cons_e s)"
    using assms(1) by (auto simp: cons_inv_def)
  have room: "unat (cons_e s - cons_r s) < length (cons_buf s)" using assms(2) i(1) by (simp add: cons_content_def)
  note p = ring_put [OF i(2) room, of c]
  show content: "cons_content s' = cons_content s @ [c]" using p(2) i(1) by (simp add: cons_content_def s'_def)
  show "length (cons_buf s') = INPUT_BUF_SIZE" by (simp add: s'_def i(1))
  show "ring_ok (cons_buf s') (cons_r s') (cons_e s')" using p(1) i(1) by (simp add: s'_def)
  have "unat (cons_w s - cons_r s) \<le> length (cons_content s)"
    using assms(1) by (simp add: cons_inv_def cons_content_def)
  then show "committed s' = committed s" "editing s' = editing s @ [c]"
    by (simp_all add: committed_def editing_def content) (simp_all add: s'_def)
  show "unat (cons_e s' - cons_r s') = Suc (length (cons_content s))"
    using arg_cong [OF content, of length] by (simp add: cons_content_def)
qed

lemma consoleintr_ok:
  assumes "cons_inv s" and "\<not> panicked s"
  shows "\<exists>s'. consoleintr c s = Some s' \<and> cons_inv s' \<and> \<not> panicked s' \<and>
    (committed s', editing s') = line_intr c (committed s, editing s)"
proof -
  consider (dump) "c = 0x10" | (kill) "c = 0x15" | (rubout) "c = 8 \<or> c = 0x7f"
    | (full) "c \<noteq> 0x10" "c \<noteq> 0x15" "c \<noteq> 8" "c \<noteq> 0x7f" "c = 0 \<or> length (cons_content s) \<ge> INPUT_BUF_SIZE"
    | (byte) "c \<noteq> 0x10" "c \<noteq> 0x15" "c \<noteq> 8" "c \<noteq> 0x7f" "c \<noteq> 0" "length (cons_content s) < INPUT_BUF_SIZE"
    by fastforce
  then show ?thesis
  proof cases
    case dump
    obtain t where t: "procdump s = Some t" "same_line s t" using procdump_line [OF assms(2)] by blast
    from same_lineD [OF t(2)] show ?thesis using dump assms t(1) by (simp add: consoleintr_def line_intr_def)
  next
    case kill
    then show ?thesis using kill_line_ok [OF assms] by (auto simp: consoleintr_def line_intr_def)
  next
    case rubout
    show ?thesis
    proof (cases "editing s = []")
      case True
      then show ?thesis using rubout assms editing_empty [OF assms(1)] by (auto simp: consoleintr_def line_intr_def)
    next
      case False
      note e = erase_last [OF assms(1) False]
      obtain t where t: "consputc BACKSPACE (s\<lparr>cons_e := cons_e s - 1\<rparr>) = Some t" "same_line (s\<lparr>cons_e := cons_e s - 1\<rparr>) t"
        using consputc_line [of "s\<lparr>cons_e := cons_e s - 1\<rparr>" BACKSPACE] assms(2) by auto
      then show ?thesis using rubout False assms(2) editing_empty [OF assms(1)] e same_lineD [OF t(2)]
        by (auto simp: consoleintr_def line_intr_def)
    qed
  next
    case full
    have "\<not> cons_e s - cons_r s < of_nat INPUT_BUF_SIZE" if "length (cons_content s) \<ge> INPUT_BUF_SIZE"
      using that by (simp add: cons_content_def word_less_nat_alt INPUT_BUF_SIZE_def)
    then show ?thesis using full assms cons_split [of s] by (auto simp: consoleintr_def line_intr_def)
  next
    case byte
    define c' where "c' = (if c = 13 then 10 else c)"
    have lt: "cons_e s - cons_r s < of_nat INPUT_BUF_SIZE"
      using byte(6) by (simp add: cons_content_def word_less_nat_alt INPUT_BUF_SIZE_def)
    obtain t where t: "consputc (ucast c') s = Some t" "same_line s t" using consputc_line [OF assms(2)] by blast
    note l = same_lineD [OF t(2)]
    have inv: "cons_inv t" and len: "length (cons_content t) < INPUT_BUF_SIZE" and pan: "\<not> panicked t"
      using l assms byte(6) cons_split [of s] cons_split [of t] by simp_all
    let ?u = "t\<lparr>cons_buf := (cons_buf t)[unat (cons_e t) mod INPUT_BUF_SIZE := c'], cons_e := cons_e t + 1\<rparr>"
    note a = add_byte [OF inv len refl, of c']
    have d: "unat (cons_e ?u - cons_r ?u) = length (committed s) + length (editing s @ [c'])"
      using a(6) cons_split [of t] l by simp
    let ?commit = "c' = 10 \<or> c' = 4 \<or> length (committed s) + length (editing s @ [c']) = INPUT_BUF_SIZE"
    have full: "cons_e ?u - cons_r ?u = of_nat INPUT_BUF_SIZE \<longleftrightarrow> length (committed s) + length (editing s @ [c']) = INPUT_BUF_SIZE"
      using d by (simp add: word_unat_eq_iff INPUT_BUF_SIZE_def)
    have run: "consoleintr c s = Some (if ?commit then wakeup On_cons (?u\<lparr>cons_w := cons_e ?u\<rparr>) else ?u)"
      using byte lt t(1) full unfolding consoleintr_def c'_def [symmetric] Let_def by simp
    have spec: "line_intr c (committed s, editing s) = (if ?commit then (committed s @ editing s @ [c'], []) else (committed s, editing s @ [c']))"
      using byte cons_split [of s] unfolding line_intr_def c'_def [symmetric] Let_def by simp
    show ?thesis
    proof (cases ?commit)
      case True
      let ?v = "wakeup On_cons (?u\<lparr>cons_w := cons_e ?u\<rparr>)"
      have cont: "cons_content ?v = cons_content t @ [c']" using a(1) unfolding cons_content_def by simp
      have w: "unat (cons_w ?v - cons_r ?v) = length (cons_content ?v)" using a(6) unfolding cont by simp
      have "committed ?v = cons_content t @ [c']" "editing ?v = []"
        unfolding committed_def editing_def w unfolding cont by simp_all
      moreover have "cons_inv ?v" using a(2,3) w \<open>editing ?v = []\<close> by (simp add: cons_inv_def cons_content_def)
      ultimately show ?thesis using run spec True pan cons_split [of t] l by simp
    next
      case False
      have "10 \<notin> set (editing ?u)" using False inv a(5) by (auto simp: cons_inv_def)
      moreover have "unat (cons_w ?u - cons_r ?u) \<le> unat (cons_e ?u - cons_r ?u)"
        using a(6) inv by (simp add: cons_inv_def cons_content_def)
      ultimately have "cons_inv ?u" using a(2,3) by (simp add: cons_inv_def)
      then show ?thesis using run spec False pan a(4,5) l by simp
    qed
  qed
qed

lemma consoleintrs_ok:
  assumes "cons_inv s" and "\<not> panicked s"
  shows "\<exists>s'. consoleintrs keys s = Some s' \<and> cons_inv s' \<and> \<not> panicked s' \<and>
    (committed s', editing s') = fold line_intr keys (committed s, editing s)"
  using assms
proof (induction keys arbitrary: s)
  case (Cons c keys)
  obtain t where t: "consoleintr c s = Some t" "cons_inv t" "\<not> panicked t"
      "(committed t, editing t) = line_intr c (committed s, editing s)"
    using consoleintr_ok [OF Cons.prems] by blast
  obtain s' where s': "consoleintrs keys t = Some s'" "cons_inv s'" "\<not> panicked s'"
      "(committed s', editing s') = fold line_intr keys (committed t, editing t)"
    using Cons.IH [OF t(2,3)] by blast
  have "consoleintrs (c # keys) s = Some s'" using t(1) s'(1) by simp
  moreover have "(committed s', editing s') = fold line_intr (c # keys) (committed s, editing s)"
    using s'(4) t(4) by simp
  ultimately show ?case using s'(2,3) by blast
qed simp

section \<open>Reading a line\<close>

text \<open>
  What a reader gets: whether its loop ends or it goes to sleep, the bytes it gets, and the bytes that stay in the
  buffer. \<open>ok i\<close> says whether the \<open>i\<close>-th byte of its buffer can be written; if not, the loop ends and the byte it
  has taken out is lost.
\<close>

fun read_line :: "(nat \<Rightarrow> bool) \<Rightarrow> nat \<Rightarrow> nat \<Rightarrow> u8 list \<Rightarrow> bool \<times> u8 list \<times> u8 list" where
  "read_line ok i 0 bs = (True, [], bs)"
| "read_line ok i (Suc k) [] = (False, [], [])"
| "read_line ok i (Suc k) (b # bs) =
     (if b = 4 then (True, [], if 0 < i then b # bs else bs)
      else if \<not> ok i then (True, [], bs)
      else if b = 10 then (True, [b], bs)
      else case read_line ok (Suc i) k bs of (e, l, rest) \<Rightarrow> (e, b # l, rest))"

lemma take_byte:
  assumes "cons_inv s" and "committed s = c # bs"
  defines "s' \<equiv> s\<lparr>cons_r := cons_r s + 1\<rparr>"
  shows "cons_r s \<noteq> cons_w s" "cons_buf s ! (unat (cons_r s) mod INPUT_BUF_SIZE) = c" "cons_inv s'" "committed s' = bs" "editing s' = editing s"
proof -
  have i: "length (cons_buf s) = INPUT_BUF_SIZE" "ring_ok (cons_buf s) (cons_r s) (cons_e s)"
    "unat (cons_w s - cons_r s) \<le> unat (cons_e s - cons_r s)"
    using assms(1) by (auto simp: cons_inv_def)
  show rw: "cons_r s \<noteq> cons_w s" using assms(2) by (auto simp: committed_def)
  have re: "cons_r s \<noteq> cons_e s"
  proof
    assume "cons_r s = cons_e s"
    then have "unat (cons_w s - cons_r s) = 0" using i(3) by simp
    then show False using rw by (simp add: unat_eq_0)
  qed
  note g = ring_get [OF i(2) re]
  have len: "unat (cons_w s - cons_r s) = Suc (length bs)" using cons_lengths(2) [OF assms(1)] assms(2) by simp
  have cont: "cons_content s = cons_buf s ! (unat (cons_r s) mod INPUT_BUF_SIZE) # cons_content s'"
    using g(2) i(1) by (simp add: cons_content_def s'_def)
  show "cons_buf s ! (unat (cons_r s) mod INPUT_BUF_SIZE) = c" using assms(2) cont len by (simp add: committed_def)
  have p: "0 < unat (cons_w s - cons_r s)" "0 < unat (cons_e s - cons_r s)" using len i(3) by simp_all
  have pred: "unat (x - (cons_r s + 1)) = unat (x - cons_r s) - 1" if "cons_r s \<noteq> x" for x :: u32
    using unat_pred_diff [OF that] by (simp add: algebra_simps)
  have w: "unat (cons_w s' - cons_r s') = length bs" using pred [OF rw] len by (simp add: s'_def)
  show "committed s' = bs" using assms(2) cont len unfolding committed_def w by simp
  show ed: "editing s' = editing s" using cont len unfolding editing_def w by simp
  have "unat (cons_w s' - cons_r s') \<le> unat (cons_e s' - cons_r s')"
    using pred [OF re] w len i(3) by (simp add: s'_def)
  then show "cons_inv s'" using i(1) g(1) assms(1) ed by (simp add: cons_inv_def s'_def)
qed

lemma delivered_nil:
  assumes "user \<Longrightarrow> uvm_inv s root ps" and "mem s' = mem s" "freelist s' = freelist s" "kend s' = kend s"
  shows "delivered user root ps s s' dst []"
  using assms(1) uvm_inv_kmem [OF assms(2-4)] by (simp add: delivered_def user_wrote_def assms(2))

lemma delivered_kmem:
  assumes "mem t = mem s" "freelist t = freelist s" "kend t = kend s"
  shows "delivered user root ps t s' dst bs = delivered user root ps s s' dst bs"
  using user_wrote_kmem [OF assms refl refl refl] assms(1) by (simp add: delivered_def)

lemma sleep_kept:
  assumes "myproc s = Some p" and "p < length (procs s)" and "hart s < length (cpus s)"
  shows "\<exists>s'. sleep c s = Some s' \<and> mem s' = mem s \<and> freelist s' = freelist s \<and> kend s' = kend s \<and> same_line s s' \<and>
    uart_tx_buf s' = uart_tx_buf s \<and> uart_tx_r s' = uart_tx_r s \<and> uart_tx_w s' = uart_tx_w s \<and> thr s' = thr s \<and>
    myproc s' = None \<and> p_state (procs s' ! p) = SLEEPING \<and> p_chan (procs s' ! p) = c"
  using assms by (auto simp: sleep_def sched_def myproc_def upd_proc_def set_c_proc_def sync_group_def same_line_def)

definition running :: "nat \<Rightarrow> 'a console_state_scheme \<Rightarrow> bool" where
  "running p s \<longleftrightarrow> myproc s = Some p \<and> p < length (procs s) \<and> hart s < length (cpus s)"

text \<open>\<open>read_out\<close>: the loop, begun at \<open>i\<close>, has ended or sleeps after the bytes \<open>l\<close>.\<close>

definition read_out :: "nat \<Rightarrow> bool \<Rightarrow> u8 list \<Rightarrow> nat \<Rightarrow> 'a console_state_scheme \<Rightarrow> outcome \<Rightarrow> bool" where
  "read_out i e l p s' out \<longleftrightarrow>
     (if e then out = Done (int (i + length l))
      else out = Asleep (i + length l) \<and> myproc s' = None \<and> p_state (procs s' ! p) = SLEEPING \<and> p_chan (procs s' ! p) = On_cons)"

lemma consoleread_loop_ok:
  assumes "cons_inv s" and "read_line ok i k (committed s) = (e, l, rest)" and "running p s" and "killed p s = 0"
    and "root = p_pagetable (procs s ! p)" and "user \<Longrightarrow> uvm_inv s root ps" and "ok = (\<lambda>j. dst_ok user p (dst + of_nat j) s)"
  shows "\<exists>out s'. consoleread_loop user dst i k s = Some (out, s') \<and> read_out i e l p s' out \<and>
    delivered user root ps s s' (dst + of_nat i) l \<and> committed s' = rest \<and> editing s' = editing s \<and> cons_inv s'"
  using assms
proof (induction k arbitrary: i s l)
  case 0
  then show ?case by (auto simp: read_out_def intro: delivered_nil)
next
  case (Suc k)
  note run = Suc.prems(3) [unfolded running_def]
  show ?case
  proof (cases "committed s")
    case Nil
    then have "unat (cons_w s - cons_r s) = 0" using cons_lengths(2) [OF Suc.prems(1)] by simp
    then have w: "cons_r s = cons_w s" by (simp add: unat_eq_0)
    obtain s' where s': "sleep On_cons s = Some s'" "mem s' = mem s" "freelist s' = freelist s" "kend s' = kend s" "same_line s s'"
      "myproc s' = None" "p_state (procs s' ! p) = SLEEPING" "p_chan (procs s' ! p) = On_cons"
      using sleep_kept [of s p On_cons] run by auto
    have "consoleread_loop user dst i (Suc k) s = Some (Asleep i, s')" using w run Suc.prems(4) s'(1) by simp
    moreover have "delivered user root ps s s' (dst + of_nat i) []" using delivered_nil [OF Suc.prems(6) s'(2-4)] .
    ultimately show ?thesis using Suc.prems(1,2) Nil s'(6-8) same_lineD [OF s'(5)] by (auto simp: read_out_def)
  next
    case (Cons c bs)
    note t = take_byte [OF Suc.prems(1) Cons]
    let ?s1 = "s\<lparr>cons_r := cons_r s + 1\<rparr>"
    have k1: "mem ?s1 = mem s" "freelist ?s1 = freelist s" "kend ?s1 = kend s" by simp_all
    have s1: "myproc ?s1 = Some p" "root = p_pagetable (procs ?s1 ! p)" "dst_ok user p b ?s1 = dst_ok user p b s" for b
      using run Suc.prems(5) by (simp_all add: myproc_def dst_ok_def uvm_inv_kmem(3) [OF k1])
    have inv1: "user \<Longrightarrow> uvm_inv ?s1 root ps" using Suc.prems(6) by (simp add: uvm_inv_kmem(1) [OF k1])
    note eo = either_copyout_byte [of ?s1 p root user ps "dst + of_nat i" c, OF s1(1,2) inv1, unfolded s1(3)]
    have u: "consoleread_loop user dst i (Suc k) s =
       (if c = 4 then Some (Done (int i), if 0 < i then s else ?s1)
        else do {
          (r, s2) \<leftarrow> either_copyout user (dst + of_nat i) [c] ?s1;
          if r = -1 then Some (Done (int i), s2)
          else if c = 10 then Some (Done (int (Suc i)), s2)
          else consoleread_loop user dst (Suc i) k s2 })"
      using t(1,2) by (simp add: Let_def)
    have nil: "delivered user root ps s ?s1 (dst + of_nat i) []" "delivered user root ps s s (dst + of_nat i) []"
      using delivered_nil [OF Suc.prems(6)] by simp_all
    consider (eof) "c = 4" | (fault) "c \<noteq> 4" "\<not> dst_ok user p (dst + of_nat i) s" | (stored) "c \<noteq> 4" "dst_ok user p (dst + of_nat i) s" by blast
    then show ?thesis
    proof cases
      case eof
      then show ?thesis using u t(3-5) Suc.prems(1,2) Cons nil by (auto simp: read_out_def split: if_splits)
    next
      case fault
      then have "consoleread_loop user dst i (Suc k) s = Some (Done (int i), ?s1)" using u eo(1) by simp
      then show ?thesis using fault t(3-5) Suc.prems(1,2,7) Cons nil by (auto simp: read_out_def)
    next
      case stored
      obtain m where m: "either_copyout user (dst + of_nat i) [c] ?s1 = Some (0, ?s1\<lparr>mem := m\<rparr>)"
        "delivered user root ps ?s1 (?s1\<lparr>mem := m\<rparr>) (dst + of_nat i) [c]"
        "\<forall>b. dst_ok user p b (?s1\<lparr>mem := m\<rparr>) = dst_ok user p b s"
        using eo(2) stored(2) by auto
      let ?s2 = "?s1\<lparr>mem := m\<rparr>"
      have d1: "delivered user root ps s ?s2 (dst + of_nat i) [c]" using m(2) by (simp only: delivered_kmem [OF k1])
      have l2: "same_line ?s1 ?s2" by (simp add: same_line_def)
      note l1 = same_lineD [OF l2]
      show ?thesis
      proof (cases "c = 10")
        case True
        then have lb: "e" "l = [c]" "rest = bs" using Suc.prems(2,7) Cons stored by simp_all
        have "consoleread_loop user dst i (Suc k) s = Some (Done (int (Suc i)), ?s2)" unfolding u using True m(1) by simp
        then show ?thesis using d1 l1 t(3-5) lb by (auto simp: read_out_def)
      next
        case False
        then obtain l' where more: "read_line ok (Suc i) k bs = (e, l', rest)" "l = c # l'"
          using Suc.prems(2,7) Cons stored by (auto split: prod.splits)
        have p2: "running p ?s2" "killed p ?s2 = 0" "root = p_pagetable (procs ?s2 ! p)"
          using run Suc.prems(4,5) by (simp_all add: running_def myproc_def killed_def)
        have inv2: "user \<Longrightarrow> uvm_inv ?s2 root ps" using d1 by (simp add: delivered_def user_wrote_def)
        have c2: "cons_inv ?s2" "read_line ok (Suc i) k (committed ?s2) = (e, l', rest)" using l1 t(3-5) more(1) by simp_all
        have ok2: "ok = (\<lambda>j. dst_ok user p (dst + of_nat j) ?s2)" using Suc.prems(7) m(3) by simp
        obtain out s' where s': "consoleread_loop user dst (Suc i) k ?s2 = Some (out, s')" "read_out (Suc i) e l' p s' out"
          "delivered user root ps ?s2 s' (dst + of_nat (Suc i)) l'" "committed s' = rest" "editing s' = editing ?s2" "cons_inv s'"
          using Suc.IH [OF c2 p2(1,2,3) inv2 ok2] by blast
        have "delivered user root ps s s' (dst + of_nat i) l"
          unfolding more(2) by (rule delivered_cons [OF d1]) (use s'(3) in \<open>simp add: algebra_simps\<close>)
        moreover have "read_out i e l p s' out" using s'(2) more(2) by (simp add: read_out_def)
        moreover have "consoleread_loop user dst i (Suc k) s = Some (out, s')"
          unfolding u using s'(1) stored(1) False m(1) by simp
        moreover have "editing s' = editing s" using s'(5) l1 t(5) by simp
        ultimately show ?thesis using s'(4,6) by blast
      qed
    qed
  qed
qed

text \<open>The interrupts of the keys leave memory and the address spaces alone.\<close>

definition same_procs :: "'a console_state_scheme \<Rightarrow> 'a console_state_scheme \<Rightarrow> bool" where
  "same_procs s s' \<longleftrightarrow> mem s' = mem s \<and> freelist s' = freelist s \<and> kend s' = kend s \<and> cpus s' = cpus s \<and> hart s' = hart s \<and>
     length (procs s') = length (procs s) \<and>
     (\<forall>p < length (procs s). p_pagetable (procs s' ! p) = p_pagetable (procs s ! p) \<and> p_killed (procs s' ! p) = p_killed (procs s ! p))"

lemma same_procs_refl [simp]: "same_procs s s"
  by (simp add: same_procs_def)

lemma same_procs_trans: "same_procs s t \<Longrightarrow> same_procs t u \<Longrightarrow> same_procs s u"
  by (simp add: same_procs_def)

lemma wakeup_fields [simp]:
  "freelist (wakeup c s) = freelist s" "kend (wakeup c s) = kend s"
  "p < length (procs s) \<Longrightarrow> p_pagetable (procs (wakeup c s) ! p) = p_pagetable (procs s ! p)"
  "p < length (procs s) \<Longrightarrow> p_killed (procs (wakeup c s) ! p) = p_killed (procs s ! p)"
  by (simp_all add: wakeup_def Let_def)

lemma same_procs_updates [simp]:
  "same_procs s (t\<lparr>cons_e := e\<rparr>) = same_procs s t" "same_procs s (t\<lparr>cons_w := w\<rparr>) = same_procs s t"
  "same_procs s (t\<lparr>cons_buf := b\<rparr>) = same_procs s t" "same_procs s (t\<lparr>thr := x\<rparr>) = same_procs s t"
  "same_procs (s\<lparr>cons_e := e\<rparr>) t = same_procs s t" "same_procs s (wakeup c t) = same_procs s t"
  by (auto simp: same_procs_def)

lemma consputc_procs: "consputc c s = Some s' \<Longrightarrow> same_procs s s'"
  by (auto simp: consputc_def uartputc_sync_def monad_simps split: if_splits)

lemma kputs_procs: "kputs bs s = Some s' \<Longrightarrow> same_procs s s'"
proof (induction bs arbitrary: s)
  case (Cons b bs)
  then obtain t where "consputc (ucast b) s = Some t" "kputs bs t = Some s'" by (auto simp: monad_simps)
  then show ?case using same_procs_trans [OF consputc_procs] Cons.IH by blast
qed simp

lemma kill_line_procs: "kill_line s = Some s' \<Longrightarrow> same_procs s s'"
proof (rule kill_line.raw_induct [rotated, where P = same_procs])
  fix f and s s' :: "'a console_state_scheme"
  assume 1: "\<And>x y. f x = Some y \<Longrightarrow> same_procs x y"
    "(if cons_e s \<noteq> cons_w s \<and> cons_buf s ! (unat (cons_e s - 1) mod INPUT_BUF_SIZE) \<noteq> 10
      then do { s1 \<leftarrow> consputc BACKSPACE (s\<lparr>cons_e := cons_e s - 1\<rparr>); f s1 } else Some s) = Some s'"
  show "same_procs s s'"
  proof (cases "cons_e s \<noteq> cons_w s \<and> cons_buf s ! (unat (cons_e s - 1) mod INPUT_BUF_SIZE) \<noteq> 10")
    case True
    then obtain t where t: "consputc BACKSPACE (s\<lparr>cons_e := cons_e s - 1\<rparr>) = Some t" "f t = Some s'"
      using 1(2) by (auto simp: monad_simps)
    then show ?thesis using same_procs_trans [OF consputc_procs [OF t(1)] 1(1) [OF t(2)]] by simp
  qed (use 1(2) in auto)
qed

lemma consoleintr_procs:
  assumes "consoleintr c s = Some s'"
  shows "same_procs s s'"
  using assms
  by (auto simp: consoleintr_def Let_def monad_simps procdump_def dest!: kputs_procs kill_line_procs consputc_procs
      intro: same_procs_trans split: if_splits)

lemma consoleintrs_procs: "consoleintrs cs s = Some s' \<Longrightarrow> same_procs s s'"
proof (induction cs arbitrary: s)
  case (Cons c cs)
  then obtain t where "consoleintr c s = Some t" "consoleintrs cs t = Some s'" by (auto simp: monad_simps)
  then show ?case using same_procs_trans [OF consoleintr_procs] Cons.IH by blast
qed simp

definition cons_empty :: "'a console_state_scheme \<Rightarrow> bool" where
  "cons_empty s \<longleftrightarrow> length (cons_buf s) = INPUT_BUF_SIZE \<and> cons_w s = cons_r s \<and> cons_e s = cons_r s \<and> \<not> panicked s"

lemma cons_empty_inv:
  assumes "cons_empty s"
  shows "cons_inv s" "committed s = []" "editing s = []"
  using assms by (auto simp: cons_empty_def cons_inv_def ring_ok_def committed_def editing_def cons_content_def ring_content_def INPUT_BUF_SIZE_def)

section \<open>The output queue\<close>

definition uart_inv :: "'a console_state_scheme \<Rightarrow> bool" where
  "uart_inv s \<longleftrightarrow> length (uart_tx_buf s) = UART_TX_BUF_SIZE \<and> ring_ok (uart_tx_buf s) (uart_tx_r s) (uart_tx_w s)"

definition uart_bytes :: "'a console_state_scheme \<Rightarrow> u8 list" where
  "uart_bytes s = ring_content (uart_tx_buf s) (uart_tx_r s) (uart_tx_w s)"

interpretation uq: ring UART_TX_BUF_SIZE uart_inv uart_bytes uart_put uart_get
proof
  fix s c assume "uart_inv s" "length (uart_bytes s) < UART_TX_BUF_SIZE"
  then show "uart_inv (uart_put c s) \<and> uart_bytes (uart_put c s) = uart_bytes s @ [c]"
    using ring_put [of "uart_tx_buf s" "uart_tx_r s" "uart_tx_w s" c]
    by (simp add: uart_inv_def uart_bytes_def uart_put_def)
next
  fix s c cs assume "uart_inv s" "uart_bytes s = c # cs"
  then show "fst (uart_get s) = c \<and> uart_inv (snd (uart_get s)) \<and> uart_bytes (snd (uart_get s)) = cs"
    using ring_get [of "uart_tx_buf s" "uart_tx_r s" "uart_tx_w s"] ring_empty [of "uart_tx_buf s" "uart_tx_r s" "uart_tx_w s"]
    by (auto simp: uart_inv_def uart_bytes_def uart_get_def)
next
  fix s assume "uart_inv s"
  then show "length (uart_bytes s) \<le> UART_TX_BUF_SIZE" by (simp add: uart_inv_def uart_bytes_def ring_ok_def)
qed

lemma uart_full: "uart_inv s \<Longrightarrow> uart_tx_w s = uart_tx_r s + of_nat UART_TX_BUF_SIZE \<longleftrightarrow> length (uart_bytes s) = UART_TX_BUF_SIZE"
  using ring_full [of "uart_tx_buf s" "uart_tx_r s" "uart_tx_w s"] by (simp add: uart_inv_def uart_bytes_def)

lemma uart_cong:
  assumes "uart_tx_buf s' = uart_tx_buf s" "uart_tx_r s' = uart_tx_r s" "uart_tx_w s' = uart_tx_w s"
  shows "uart_inv s' = uart_inv s" "uart_bytes s' = uart_bytes s"
  by (simp_all add: uart_inv_def uart_bytes_def assms)

text \<open>Nothing is lost, doubled or reordered between the queue and the register.\<close>

definition sent :: "'a console_state_scheme \<Rightarrow> u8 list" where "sent s = thr s @ uart_bytes s"

lemma same_procs_uart [simp]:
  "same_procs s (t\<lparr>uart_tx_r := a\<rparr>) = same_procs s t" "same_procs s (t\<lparr>uart_tx_w := a\<rparr>) = same_procs s t"
  "same_procs s (t\<lparr>uart_tx_buf := b\<rparr>) = same_procs s t"
  by (auto simp: same_procs_def)

lemma same_procsD:
  assumes "same_procs s s'"
  shows "running p s' = running p s" and "running p s \<Longrightarrow> src_byte user p a s' = src_byte user p a s"
  using assms uvm_inv_kmem(4) [of s' s] by (auto simp: same_procs_def running_def myproc_def src_byte_def)

lemma uartstart_ok:
  "uart_inv s \<Longrightarrow> uart_inv (uartstart n s) \<and> sent (uartstart n s) = sent s \<and> same_procs s (uartstart n s) \<and>
     panicked (uartstart n s) = panicked s"
proof (induction n arbitrary: s)
  case (Suc n)
  show ?case
  proof (cases "uart_tx_w s = uart_tx_r s")
    case False
    then obtain c cs where c: "uart_bytes s = c # cs"
      using ring_empty [of "uart_tx_buf s" "uart_tx_r s" "uart_tx_w s"] by (cases "uart_bytes s") (auto simp: uart_bytes_def)
    note g = uq.get_ok [OF Suc.prems c]
    let ?s1 = "snd (uart_get s)"
    let ?t = "(wakeup On_uart ?s1)\<lparr>thr := thr (wakeup On_uart ?s1) @ [c]\<rparr>"
    have t1: "uart_inv ?t = uart_inv ?s1" by (rule uart_cong(1)) simp_all
    have t2: "uart_bytes ?t = uart_bytes ?s1" by (rule uart_cong(2)) simp_all
    note t = t1 t2
    have f: "thr ?s1 = thr s" "panicked ?s1 = panicked s" "same_procs s ?t" by (simp_all add: uart_get_def)
    have "uartstart (Suc n) s = uartstart n ?t" using False g by (cases "uart_get s") (simp add: Let_def)
    moreover have "sent ?t = sent s" using t g c f(1) by (simp add: sent_def)
    ultimately show ?thesis using Suc.IH [of ?t] t g f(2) same_procs_trans [OF f(3)] by simp
  qed (use Suc.prems in simp)
qed simp

text \<open>
  C28: what a reader of the console gets of the keys typed is what the line editor on two lists makes of them. From an
  empty console, after the interrupts of any keystrokes (erase, kill line, full buffer and end-of-file included), a
  read of \<open>n\<close> bytes to a user address (or a kernel address) stores the first line there, changes no other memory, and
  leaves the other lines and the line being typed; without a whole line it sleeps on the console after the bytes
  there are. It also ends at an address it cannot write, and the byte it has taken for it is lost.
\<close>

theorem console_cooked:
  assumes "cons_empty s" and "fold line_intr keys ([], []) = (lines, line)"
    and "running p s" and "killed p s = 0" and "user \<Longrightarrow> uvm_inv s (p_pagetable (procs s ! p)) ps"
    and "read_line (\<lambda>j. dst_ok user p (dst + of_nat j) s) 0 (nat n) lines = (e, l, rest)"
  shows "\<exists>s1 out s2. consoleintrs keys s = Some s1 \<and> consoleread user dst n s1 = Some (out, s2) \<and>
    delivered user (p_pagetable (procs s ! p)) ps s s2 dst l \<and> committed s2 = rest \<and> editing s2 = line \<and>
    (if e then out = Done (int (length l))
     else out = Asleep (length l) \<and> myproc s2 = None \<and> p_state (procs s2 ! p) = SLEEPING \<and> p_chan (procs s2 ! p) = On_cons)"
proof -
  let ?root = "p_pagetable (procs s ! p)"
  have c: "cons_inv s" "committed s = []" "editing s = []" "\<not> panicked s"
    using cons_empty_inv [OF assms(1)] assms(1) by (auto simp: cons_empty_def)
  obtain s1 where s1: "consoleintrs keys s = Some s1" "cons_inv s1" "committed s1 = lines" "editing s1 = line"
    using consoleintrs_ok [OF c(1,4), of keys] assms(2) c(2,3) by auto
  have f: "mem s1 = mem s" "freelist s1 = freelist s" "kend s1 = kend s" and g: "running p s1" "killed p s1 = 0" "?root = p_pagetable (procs s1 ! p)"
    using consoleintrs_procs [OF s1(1)] assms(3,4) by (simp_all add: same_procs_def running_def myproc_def killed_def)
  have inv: "user \<Longrightarrow> uvm_inv s1 ?root ps" using assms(5) by (simp add: uvm_inv_kmem(1) [OF f])
  have ok: "(\<lambda>j. dst_ok user p (dst + of_nat j) s) = (\<lambda>j. dst_ok user p (dst + of_nat j) s1)"
    using g(3) by (simp add: dst_ok_def uvm_inv_kmem(3) [OF f])
  obtain out s2 where "consoleread_loop user dst 0 (nat n) s1 = Some (out, s2)" "read_out 0 e l p s2 out"
    "delivered user ?root ps s1 s2 (dst + of_nat 0) l" "committed s2 = rest" "editing s2 = line"
    using consoleread_loop_ok [OF s1(2) _ g inv ok, of 0 "nat n" e l rest] assms(6) s1(3,4) by auto
  moreover from this(3) have "delivered user ?root ps s s2 dst l" by (simp add: delivered_kmem [OF f])
  ultimately show ?thesis using s1(1) by (auto simp: consoleread_def read_out_def)
qed

definition demo_console :: console_state where
  "demo_console = kernel_state.extend demo_kernel
     \<lparr>cons_buf = replicate 128 0, cons_r = 0, cons_w = 0, cons_e = 0, uart_tx_buf = replicate 32 0, uart_tx_w = 0,
      uart_tx_r = 0, uart_regs = [], thr = [], panicked = False\<rparr>"

lemma demo_console_facts:
  "cons_empty demo_console" "running 0 demo_console" "killed 0 demo_console = 0" "uvm_inv demo_console (p_pagetable (procs demo_console ! 0)) []"
  "uart_inv demo_console" "\<not> panicked demo_console" "p_pagetable (procs demo_console ! 0) = demo_root"
proof -
  show "cons_empty demo_console" "running 0 demo_console" "killed 0 demo_console = 0" "uart_inv demo_console" "\<not> panicked demo_console"
    by (simp_all add: cons_empty_def running_def killed_def myproc_def uart_inv_def ring_ok_def UART_TX_BUF_SIZE_def INPUT_BUF_SIZE_def
        demo_console_def kernel_state.defs demo_kernel_def demo_proc_def)
  show r: "p_pagetable (procs demo_console ! 0) = demo_root"
    by (simp add: demo_console_def kernel_state.defs demo_kernel_def demo_proc_def)
  show "uvm_inv demo_console (p_pagetable (procs demo_console ! 0)) []"
    unfolding r using demo_uvm_inv uvm_inv_kmem(1) [of demo_console demo_vm demo_root "[]"]
    by (simp add: demo_console_def kernel_state.defs demo_kernel_def demo_vm_def)
qed

lemma demo_console_uaddr: "uaddr demo_console demo_root va = (if PGROUNDDOWN va = 0 then Some (demo_user + va) else None)"
  using demo_uaddr [of va] uvm_inv_kmem(3) [of demo_console demo_vm demo_root va]
  by (simp add: demo_console_def kernel_state.defs demo_kernel_def demo_vm_def)

text \<open>\<open>l x <rubout> s <return> a\<close>, read into a buffer whose third byte is not mapped: the newline is lost.\<close>

theorem console_cooked_witness:
  "\<exists>s1 s2. consoleintrs [0x6c, 0x78, 0x7f, 0x73, 13, 0x61] demo_console = Some s1 \<and>
    consoleread True 4094 100 s1 = Some (Done 2, s2) \<and> delivered True demo_root [] demo_console s2 4094 [0x6c, 0x73] \<and>
    committed s2 = [] \<and> editing s2 = [0x61]"
proof -
  have k: "fold line_intr [0x6c, 0x78, 0x7f, 0x73, 13, 0x61] ([], []) = ([0x6c, 0x73, 10], [0x61])"
    by (simp add: line_intr_def INPUT_BUF_SIZE_def)
  obtain k where n: "nat 100 = Suc (Suc (Suc k))" by (rule that [of 97]) simp
  have "dst_ok True 0 4094 demo_console" "dst_ok True 0 4095 demo_console" "\<not> dst_ok True 0 4096 demo_console"
    using demo_console_facts(7) by (simp_all add: dst_ok_def demo_console_uaddr PGROUNDDOWN_def)
  then have l: "read_line (\<lambda>j. dst_ok True 0 (4094 + of_nat j) demo_console) 0 (nat 100) [0x6c, 0x73, 10] = (True, [0x6c, 0x73], [])"
    unfolding n by simp
  show ?thesis using console_cooked [OF demo_console_facts(1) k demo_console_facts(2,3,4) l] demo_console_facts(7) by auto
qed

text \<open>How the write loop ends with \<open>bs\<close> sent out of \<open>k\<close>.\<close>

definition cons_write_end :: "bool \<Rightarrow> nat \<Rightarrow> u64 \<Rightarrow> nat \<Rightarrow> nat \<Rightarrow> u8 list \<Rightarrow> 'a console_state_scheme \<Rightarrow> outcome \<Rightarrow> 'a console_state_scheme \<Rightarrow> bool" where
  "cons_write_end user p src i k bs s out s' \<longleftrightarrow>
     length bs = k \<and> out = Done (int (i + k)) \<or>
     length bs < k \<and> src_byte user p (src + of_nat (i + length bs)) s = None \<and> out = Done (int (i + length bs)) \<or>
     length bs < k \<and> length (uart_bytes s') = UART_TX_BUF_SIZE \<and> out = Asleep (i + length bs) \<and>
       myproc s' = None \<and> p_state (procs s' ! p) = SLEEPING \<and> p_chan (procs s' ! p) = On_uart"

lemma consolewrite_loop_ok:
  assumes "uart_inv s" and "\<not> panicked s" and "running p s"
  shows "\<exists>out s' bs. consolewrite_loop ready user src i k s = Some (out, s') \<and> uart_inv s' \<and> mem s' = mem s \<and>
    sent s' = sent s @ bs \<and> (\<forall>j < length bs. src_byte user p (src + of_nat (i + j)) s = Some (bs ! j)) \<and>
    cons_write_end user p src i k bs s out s'"
  using assms
proof (induction k arbitrary: i s)
  case 0
  then show ?case by (intro exI [of _ "Done (int i)"] exI [of _ s] exI [of _ "[]"]) (simp add: cons_write_end_def)
next
  case (Suc k)
  note run = Suc.prems(3) [unfolded running_def]
  note cp = either_copyin_byte [OF conjunct1 [OF run], of user "src + of_nat i"]
  consider (fault) "src_byte user p (src + of_nat i) s = None"
    | (full) c where "src_byte user p (src + of_nat i) s = Some c" "uart_tx_w s = uart_tx_r s + of_nat UART_TX_BUF_SIZE"
    | (byte) c where "src_byte user p (src + of_nat i) s = Some c" "uart_tx_w s \<noteq> uart_tx_r s + of_nat UART_TX_BUF_SIZE"
    by (cases "src_byte user p (src + of_nat i) s") auto
  then show ?case
  proof cases
    case fault
    then have "consolewrite_loop ready user src i (Suc k) s = Some (Done (int i), s)" using cp by simp
    then show ?thesis using fault Suc.prems(1)
      by (intro exI [of _ "Done (int i)"] exI [of _ s] exI [of _ "[]"]) (simp add: cons_write_end_def)
  next
    case full
    obtain s1 where s1: "sleep On_uart s = Some s1" "mem s1 = mem s" "uart_tx_buf s1 = uart_tx_buf s" "uart_tx_r s1 = uart_tx_r s"
      "uart_tx_w s1 = uart_tx_w s" "thr s1 = thr s" "myproc s1 = None" "p_state (procs s1 ! p) = SLEEPING" "p_chan (procs s1 ! p) = On_uart"
      using sleep_kept [of s p On_uart] run by auto
    note u = uart_cong [OF s1(3-5)]
    have "consolewrite_loop ready user src i (Suc k) s = Some (Asleep i, s1)"
      using cp full Suc.prems(2) s1(1) by (simp add: uartputc_def)
    moreover have "length (uart_bytes s1) = UART_TX_BUF_SIZE" using full(2) uart_full [OF Suc.prems(1)] u by simp
    ultimately show ?thesis using s1 u Suc.prems(1)
      by (intro exI [of _ "Asleep i"] exI [of _ s1] exI [of _ "[]"]) (simp add: cons_write_end_def sent_def)
  next
    case byte
    have room: "length (uart_bytes s) < UART_TX_BUF_SIZE"
      using byte(2) uart_full [OF Suc.prems(1)] uq.cap_ok [OF Suc.prems(1)] by simp
    note pt = uq.put_ok [OF Suc.prems(1) room, of c]
    let ?u = "uart_put c s" and ?t = "uartstart (ready i) (uart_put c s)"
    have f: "thr ?u = thr s" "panicked ?u = panicked s" "same_procs s ?u" by (simp_all add: uart_put_def)
    note st = uartstart_ok [of ?u "ready i"]
    have sp: "same_procs s ?t" using st pt same_procs_trans [OF f(3)] by blast
    have t: "uart_inv ?t" "sent ?t = sent s @ [c]" "\<not> panicked ?t" "running p ?t" "mem ?t = mem s"
      using st pt f Suc.prems(2,3) same_procsD(1) [OF sp] sp by (simp_all add: sent_def same_procs_def)
    note src = same_procsD(2) [OF sp Suc.prems(3)]
    obtain out s' bs where r: "consolewrite_loop ready user src (Suc i) k ?t = Some (out, s')" "uart_inv s'" "mem s' = mem ?t"
        "sent s' = sent ?t @ bs" "\<forall>j < length bs. src_byte user p (src + of_nat (Suc i + j)) ?t = Some (bs ! j)"
        "cons_write_end user p src (Suc i) k bs ?t out s'"
      using Suc.IH [OF t(1,3,4), of "Suc i"] by blast
    have "consolewrite_loop ready user src i (Suc k) s = Some (out, s')"
      using cp byte Suc.prems(2) r(1) by (simp add: uartputc_def)
    moreover have "\<forall>j < length (c # bs). src_byte user p (src + of_nat (i + j)) s = Some ((c # bs) ! j)"
      using byte(1) r(5) src by (auto simp: nth_Cons algebra_simps split: nat.split)
    moreover have "cons_write_end user p src i (Suc k) (c # bs) s out s'" using r(6) src by (simp add: cons_write_end_def)
    ultimately show ?thesis using r(2,3,4) t(2,5)
      by (intro exI [of _ out] exI [of _ s'] exI [of _ "c # bs"]) simp
  qed
qed

text \<open>
  C29: a write of \<open>n\<close> bytes to the console from a user address (or a kernel address) always ends, changes no memory, and
  whatever the speed of the device the bytes handed to it and the queue together grow by exactly the first bytes of the
  buffer, in order. It ends in one of three ways: all bytes are sent; the next one is not mapped; or the queue is full
  and the writer sleeps for a place in it.
\<close>

theorem consolewrite_fifo:
  assumes "uart_inv s" and "\<not> panicked s" and "running p s"
  shows "\<exists>out s' bs. consolewrite ready user src n s = Some (out, s') \<and> uart_inv s' \<and> mem s' = mem s \<and>
    sent s' = sent s @ bs \<and> (\<forall>j < length bs. src_byte user p (src + of_nat j) s = Some (bs ! j)) \<and>
    (length bs = nat n \<and> out = Done (int (nat n)) \<or>
     length bs < nat n \<and> src_byte user p (src + of_nat (length bs)) s = None \<and> out = Done (int (length bs)) \<or>
     length bs < nat n \<and> length (uart_bytes s') = UART_TX_BUF_SIZE \<and> out = Asleep (length bs) \<and>
       myproc s' = None \<and> p_state (procs s' ! p) = SLEEPING \<and> p_chan (procs s' ! p) = On_uart)"
  using consolewrite_loop_ok [OF assms, of ready user src 0 "nat n"] by (simp add: consolewrite_def cons_write_end_def)

text \<open>A write of two bytes across the end of the mapped page to a device that takes none sends one byte.\<close>

theorem consolewrite_fifo_witness:
  "\<exists>s'. consolewrite (\<lambda>i. 0) True 4095 2 demo_console = Some (Done 1, s') \<and> uart_inv s' \<and>
    sent s' = sent demo_console @ [mem demo_vm (demo_user + 4095)]"
proof -
  note d = demo_console_facts
  have m: "mem demo_console = mem demo_vm" by (simp add: demo_console_def kernel_state.defs demo_kernel_def)
  have b: "src_byte True 0 4095 demo_console = Some (mem demo_vm (demo_user + 4095))" "src_byte True 0 4096 demo_console = None"
    using d(7) by (simp_all add: src_byte_def user_byte_def demo_console_uaddr PGROUNDDOWN_def m)
  have e: "uart_bytes demo_console = []" "sent demo_console = []"
    by (simp_all add: uart_bytes_def sent_def ring_content_def demo_console_def kernel_state.defs)
  obtain out s' bs where w: "consolewrite (\<lambda>i. 0) True 4095 2 demo_console = Some (out, s')" "uart_inv s'" "sent s' = sent demo_console @ bs"
    "\<forall>j < length bs. src_byte True 0 (4095 + of_nat j) demo_console = Some (bs ! j)"
    "length bs = 2 \<or> length bs < 2 \<and> src_byte True 0 (4095 + of_nat (length bs)) demo_console = None \<and> out = Done (int (length bs)) \<or>
     length bs < 2 \<and> length (uart_bytes s') = UART_TX_BUF_SIZE"
    using consolewrite_fifo [OF d(5,6,2), of "\<lambda>i. 0" True 4095 2] by auto
  have "\<not> 1 < length bs" using w(4) [rule_format, of 1] b by auto
  moreover have "length (uart_bytes s') \<le> length bs" using w(3) e by (auto simp: sent_def)
  moreover have "bs \<noteq> []" using w(5) b calculation(2) by (auto simp: UART_TX_BUF_SIZE_def)
  ultimately have "length bs = 1" by (cases bs) auto
  then obtain c where c: "bs = [c]" by (auto simp: length_Suc_conv)
  then have "c = mem demo_vm (demo_user + 4095)" using w(4) [rule_format, of 0] b by simp
  moreover have "out = Done 1" using w(5) c calculation(1) \<open>length (uart_bytes s') \<le> length bs\<close> by (auto simp: UART_TX_BUF_SIZE_def)
  ultimately show ?thesis using w c by auto
qed

end
