(* ===== verification/Umalloc.thy ===== *)
theory Umalloc
  imports Xv6_Prelude
begin

text \<open>
  The allocator of user programs: user/umalloc.c. The headers of the blocks are in the memory of the program;
  \<open>base\<close> is the address of the static header. The list of free blocks is circular, and \<open>free\<close> and \<open>malloc\<close> walk
  it: a walk that never ends is \<open>None\<close>.
\<close>

section \<open>Headers\<close>

record uheap =
  umem :: memory
  base :: u64
  freep :: u64
  brk :: u64

text \<open>\<open>union header\<close>: the pointer, then the size in units of 16 bytes.\<close>

definition hptr :: "memory \<Rightarrow> u64 \<Rightarrow> u64" where "hptr m h = load64 m h"
definition hsize :: "memory \<Rightarrow> u64 \<Rightarrow> u32" where "hsize m h = load32 m (h + 8)"
definition set_hptr :: "u64 \<Rightarrow> u64 \<Rightarrow> memory \<Rightarrow> memory" where "set_hptr h v m = store64 m h v"
definition set_hsize :: "u64 \<Rightarrow> u32 \<Rightarrow> memory \<Rightarrow> memory" where "set_hsize h n m = store32 m (h + 8) n"

text \<open>Pointer arithmetic on \<open>Header *\<close>.\<close>

definition hadd :: "u64 \<Rightarrow> u32 \<Rightarrow> u64" where "hadd h n = h + 16 * ucast n"

section \<open>free\<close>

partial_function (option) free_search :: "u64 \<Rightarrow> u64 \<Rightarrow> memory \<Rightarrow> u64 option" where
  "free_search bp p m =
     (if bp > p \<and> bp < hptr m p then Some p
      else if p \<ge> hptr m p \<and> (bp > p \<or> bp < hptr m p) then Some p
      else free_search bp (hptr m p) m)"

text \<open>The block joins the next one, then the one before.\<close>

definition join_next :: "u64 \<Rightarrow> u64 \<Rightarrow> memory \<Rightarrow> memory" where
  "join_next bp p m =
     (if hadd bp (hsize m bp) = hptr m p
      then let m1 = set_hsize bp (hsize m bp + hsize m (hptr m p)) m in set_hptr bp (hptr m1 (hptr m1 p)) m1
      else set_hptr bp (hptr m p) m)"

definition join_prev :: "u64 \<Rightarrow> u64 \<Rightarrow> memory \<Rightarrow> memory" where
  "join_prev bp p m =
     (if hadd p (hsize m p) = bp
      then let m1 = set_hsize p (hsize m p + hsize m bp) m in set_hptr p (hptr m1 bp) m1
      else set_hptr p bp m)"

definition free :: "u64 \<Rightarrow> uheap \<Rightarrow> uheap option" where
  "free ap s = do {
     let bp = ap - 16;
     p \<leftarrow> free_search bp (freep s) (umem s);
     Some (s\<lparr>umem := join_prev bp p (join_next bp p (umem s)), freep := p\<rparr>) }"

section \<open>malloc\<close>

text \<open>
  \<open>sbrk\<close> of a process that is not loaded on demand: \<open>growproc\<close> rounds the \<open>int\<close> up to pages and adds it to the
  size; with a negative one \<open>uvmdealloc\<close> never grows. Whether the kernel has the memory is the argument \<open>grow\<close>.
\<close>

definition sbrk :: "(u64 \<Rightarrow> u32 \<Rightarrow> bool) \<Rightarrow> u32 \<Rightarrow> uheap \<Rightarrow> u64 \<times> uheap" where
  "sbrk grow n s =
     (let r = (n + 4095) AND NOT 4095; sz = brk s + scast r in
      if 0 < sint r then (if grow (brk s) r then (brk s, s\<lparr>brk := sz\<rparr>) else (-1, s))
      else if sint r < 0 then (brk s, s\<lparr>brk := (if brk s \<le> sz then brk s else sz)\<rparr>)
      else (brk s, s))"

definition morecore :: "(u64 \<Rightarrow> u32 \<Rightarrow> bool) \<Rightarrow> u32 \<Rightarrow> uheap \<Rightarrow> (u64 \<times> uheap) option" where
  "morecore grow nu s = do {
     let nu' = (if nu < 4096 then 4096 else nu);
     let (p, s1) = sbrk grow (nu' * 16) s;
     if p = -1 then Some (0, s1)
     else do {
       s2 \<leftarrow> free (p + 16) (s1\<lparr>umem := set_hsize p nu' (umem s1)\<rparr>);
       Some (freep s2, s2) } }"

definition malloc_units :: "u32 \<Rightarrow> u32" where
  "malloc_units nbytes = ucast ((ucast nbytes + 15 :: u64) div 16 + 1)"

text \<open>The block that is taken: all of a free block, or its end.\<close>

definition take_block :: "u32 \<Rightarrow> u64 \<Rightarrow> u64 \<Rightarrow> uheap \<Rightarrow> u64 \<times> uheap" where
  "take_block nunits prevp p s =
     (if hsize (umem s) p = nunits
      then (p + 16, s\<lparr>umem := set_hptr prevp (hptr (umem s) p) (umem s), freep := prevp\<rparr>)
      else let m1 = set_hsize p (hsize (umem s) p - nunits) (umem s); p' = hadd p (hsize m1 p) in
        (p' + 16, s\<lparr>umem := set_hsize p' nunits m1, freep := prevp\<rparr>))"

partial_function (option) malloc_loop ::
  "(u64 \<Rightarrow> u32 \<Rightarrow> bool) \<Rightarrow> u32 \<Rightarrow> u64 \<Rightarrow> u64 \<Rightarrow> uheap \<Rightarrow> (u64 \<times> uheap) option" where
  "malloc_loop grow nunits prevp p s =
     (if nunits \<le> hsize (umem s) p then Some (take_block nunits prevp p s)
      else if p = freep s then
        (case morecore grow nunits s of
           None \<Rightarrow> None
         | Some (q, s1) \<Rightarrow> if q = 0 then Some (0, s1) else malloc_loop grow nunits q (hptr (umem s1) q) s1)
      else malloc_loop grow nunits p (hptr (umem s) p) s)"

definition malloc :: "(u64 \<Rightarrow> u32 \<Rightarrow> bool) \<Rightarrow> u32 \<Rightarrow> uheap \<Rightarrow> (u64 \<times> uheap) option" where
  "malloc grow nbytes s =
     (let s1 = (if freep s = 0
        then s\<lparr>umem := set_hsize (base s) 0 (set_hptr (base s) (base s) (umem s)), freep := base s\<rparr> else s)
      in malloc_loop grow (malloc_units nbytes) (freep s1) (hptr (umem s1) (freep s1)) s1)"

section \<open>Reads over writes of headers\<close>

definition apart :: "u64 \<Rightarrow> u64 \<Rightarrow> bool" where
  "apart h k \<longleftrightarrow> unat h + 16 \<le> unat k \<or> unat k + 16 \<le> unat h"

definition placed :: "u64 \<Rightarrow> bool" where "placed h \<longleftrightarrow> unat h + 16 < 2 ^ 64"

lemma unat_add_small: "unat (h :: u64) + n < 2 ^ 64 \<Longrightarrow> unat (h + of_nat n) = unat h + n"
  using unat_of_nat_lt64 [of n] by (simp only: unat_word_ariths) simp

lemma plus_8: "placed h \<Longrightarrow> unat (h + 8) = unat h + 8" and plus_16: "placed h \<Longrightarrow> unat (h + 16) = unat h + 16"
  using unat_add_small [of h 8] unat_add_small [of h 16] by (simp_all add: placed_def)

lemma in_ptr: "placed h \<Longrightarrow> in_region h 8 b \<longleftrightarrow> unat h \<le> unat b \<and> unat b < unat h + 8"
  by (subst in_region_unat) (simp_all add: placed_def)

lemma in_size: "placed h \<Longrightarrow> in_region (h + 8) 4 b \<longleftrightarrow> unat h + 8 \<le> unat b \<and> unat b < unat h + 12"
  by (subst in_region_unat) (simp_all add: plus_8 add.commute, simp add: placed_def)

lemma set_hptr_frame: "placed h \<Longrightarrow> unat b < unat h \<or> unat h + 16 \<le> unat b \<Longrightarrow> set_hptr h v m b = m b"
  by (auto simp: set_hptr_def store64_frame in_ptr)

lemma set_hsize_frame: "placed h \<Longrightarrow> unat b < unat h \<or> unat h + 16 \<le> unat b \<Longrightarrow> set_hsize h v m b = m b"
  by (auto simp: set_hsize_def store32_frame in_size)

lemma header_cong:
  assumes "placed k" and "\<And>b. unat k \<le> unat b \<Longrightarrow> unat b < unat k + 16 \<Longrightarrow> m b = m' b"
  shows "hptr m k = hptr m' k" and "hsize m k = hsize m' k"
  unfolding hptr_def hsize_def using assms
  by (auto intro!: load64_cong load32_cong simp: in_ptr in_size)

lemma header_self [simp]:
  assumes "placed h"
  shows "hptr (set_hptr h v m) h = v" "hsize (set_hsize h n m) h = n" "hptr (set_hsize h n m) h = hptr m h"
    "hsize (set_hptr h v m) h = hsize m h"
proof -
  show "hptr (set_hptr h v m) h = v" "hsize (set_hsize h n m) h = n"
    by (simp_all add: hptr_def set_hptr_def hsize_def set_hsize_def mem_simps)
  show "hptr (set_hsize h n m) h = hptr m h"
    unfolding hptr_def set_hsize_def by (rule load64_cong) (auto simp: store32_frame in_ptr in_size assms)
  show "hsize (set_hptr h v m) h = hsize m h"
    unfolding hsize_def set_hptr_def by (rule load32_cong) (auto simp: store64_frame in_ptr in_size assms)
qed

lemma header_other [simp]:
  assumes "placed h" "placed k" "apart h k"
  shows "hptr (set_hptr h v m) k = hptr m k" "hsize (set_hsize h n m) k = hsize m k"
    "hptr (set_hsize h n m) k = hptr m k" "hsize (set_hptr h v m) k = hsize m k"
  using header_cong [OF assms(2), of "set_hptr h v m" m] header_cong [OF assms(2), of "set_hsize h n m" m] assms
  by (auto simp: set_hptr_frame set_hsize_frame apart_def)

section \<open>The free list\<close>

primrec chain :: "memory \<Rightarrow> u64 \<Rightarrow> u64 list \<Rightarrow> u64 \<Rightarrow> bool" where
  "chain m a [] z \<longleftrightarrow> hptr m a = z"
| "chain m a (b # bs) z \<longleftrightarrow> hptr m a = b \<and> chain m b bs z"

definition span :: "memory \<Rightarrow> u64 \<Rightarrow> nat" where "span m h = 16 * unat (hsize m h)"

text \<open>The next node lies behind the block, and does not touch it.\<close>

definition gap :: "memory \<Rightarrow> u64 \<Rightarrow> u64 \<Rightarrow> bool" where
  "gap m a b \<longleftrightarrow> unat a + 16 \<le> unat b \<and> unat a + span m a < unat b"

primrec spaced :: "memory \<Rightarrow> u64 \<Rightarrow> u64 list \<Rightarrow> bool" where
  "spaced m a [] \<longleftrightarrow> True"
| "spaced m a (b # bs) \<longleftrightarrow> gap m a b \<and> spaced m b bs"

lemma chain_append: "chain m a (xs @ b # ys) z \<longleftrightarrow> chain m a xs b \<and> chain m b ys z"
  by (induction xs arbitrary: a) auto

lemma spaced_append: "spaced m a (xs @ b # ys) \<longleftrightarrow> spaced m a xs \<and> gap m (last (a # xs)) b \<and> spaced m b ys"
  by (induction xs arbitrary: a) auto

lemma chain_last: "chain m a xs z \<Longrightarrow> hptr m (last (a # xs)) = z"
  by (induction xs arbitrary: a) auto

lemma chain_split:
  assumes "chain m a (xs @ ys) z"
  shows "chain m a xs (hd (ys @ [z]))" "chain m (last (a # xs)) ys z"
  using assms by (cases ys; auto simp: chain_append chain_last simp del: last.simps)+

lemma chain_cong:
  assumes "chain m a xs z" and "\<And>k. k \<in> set (butlast (a # xs)) \<Longrightarrow> hptr m' k = hptr m k" and "hptr m' (last (a # xs)) = z'"
  shows "chain m' a xs z'"
  using assms by (induction xs arbitrary: a) (auto split: if_splits)

lemma spaced_cong:
  assumes "spaced m a xs" and "\<And>k. k \<in> set (butlast (a # xs)) \<Longrightarrow> hsize m' k = hsize m k"
  shows "spaced m' a xs"
  using assms by (induction xs arbitrary: a) (auto simp: gap_def span_def split: if_splits)

lemma spaced_less: "spaced m a xs \<Longrightarrow> b \<in> set xs \<Longrightarrow> unat a + 16 \<le> unat b \<and> unat a + span m a < unat b"
proof (induction xs arbitrary: a)
  case (Cons x xs)
  show ?case
  proof (cases "b = x")
    case False
    then show ?thesis using Cons.IH [of x] Cons.prems by (auto simp: gap_def)
  qed (use Cons.prems in \<open>simp add: gap_def\<close>)
qed simp

lemma spaced_split:
  assumes "spaced m a (xs @ ys)"
  shows "spaced m a xs" "spaced m (last (a # xs)) ys"
  using assms by (cases ys; auto simp: spaced_append simp del: last.simps)+

lemma spaced_before:
  assumes "spaced m a (xs @ b # ys)" and "k \<in> set (a # xs)"
  shows "unat k + 16 \<le> unat b" "unat k + span m k < unat b"
proof -
  have "unat k + 16 \<le> unat b \<and> unat k + span m k < unat b"
    using assms
  proof (induction xs arbitrary: a)
    case (Cons x xs)
    show ?case
    proof (cases "k = a")
      case True
      then show ?thesis using spaced_less [of m a "(x # xs) @ b # ys" b] Cons.prems(1) by simp
    qed (use Cons in auto)
  qed (simp add: gap_def)
  then show "unat k + 16 \<le> unat b" "unat k + span m k < unat b" by auto
qed

lemma spaced_sorted: "spaced m a xs \<Longrightarrow> sorted_wrt (\<lambda>x y. unat x + 16 \<le> unat y) (a # xs)"
proof (induction xs arbitrary: a)
  case (Cons x xs)
  have "sorted_wrt (\<lambda>x y. unat x + 16 \<le> unat y) (x # xs)" by (rule Cons.IH) (use Cons.prems in simp)
  then show ?case using spaced_less [OF Cons.prems] by auto
qed simp

text \<open>A free block: not empty, aligned, and inside the heap.\<close>

definition node_ok :: "uheap \<Rightarrow> u64 \<Rightarrow> bool" where
  "node_ok s b \<longleftrightarrow> hsize (umem s) b \<noteq> 0 \<and> 16 dvd unat b \<and> unat b + span (umem s) b \<le> unat (brk s)"

definition heap_ok :: "uheap \<Rightarrow> bool" where
  "heap_ok s \<longleftrightarrow> 0 < unat (base s) \<and> unat (base s) + 16 \<le> unat (brk s) \<and> 16 dvd unat (brk s) \<and> unat (brk s) \<le> 2 ^ 35"

definition ring_inv :: "uheap \<Rightarrow> u64 list \<Rightarrow> bool" where
  "ring_inv s bs \<longleftrightarrow> heap_ok s \<and> chain (umem s) (base s) bs (base s) \<and> spaced (umem s) (base s) bs \<and>
     (\<forall>b \<in> set bs. node_ok s b) \<and> hsize (umem s) (base s) = 0 \<and> freep s \<in> set (base s # bs)"

lemma ring_placed:
  assumes "ring_inv s bs" and "h \<in> set (base s # bs)"
  shows "placed h"
proof (cases "h = base s")
  case False
  then have "hsize (umem s) h \<noteq> 0" "unat h + span (umem s) h \<le> unat (brk s)" "unat (brk s) \<le> 2 ^ 35"
    using assms by (auto simp: ring_inv_def node_ok_def heap_ok_def)
  then show ?thesis unfolding placed_def span_def by (simp add: unat_gt_0)
qed (use assms in \<open>simp add: ring_inv_def heap_ok_def placed_def\<close>)

section \<open>The walk of free\<close>

text \<open>From a node below the block the walk ends at the last node below it.\<close>

lemma search_forward:
  assumes "chain m q (us @ ys) z" and "\<And>k. k \<in> set (q # us) \<Longrightarrow> k < bp" and "sorted_wrt (<) (q # us)"
    and "case ys of [] \<Rightarrow> z \<le> q | y # _ \<Rightarrow> bp < y"
  shows "free_search bp q m = Some (last (q # us))"
  using assms
proof (induction us arbitrary: q)
  case Nil
  then show ?case by (subst free_search.simps) (auto split: list.splits)
next
  case (Cons u us)
  have "free_search bp u m = Some (last (u # us))"
    using Cons by (intro Cons.IH) (auto split: list.splits)
  moreover have "hptr m q = u" "q < u" "u < bp" using Cons.prems by auto
  ultimately show ?case by (subst free_search.simps) auto
qed

text \<open>From a node above the block the walk passes the end of the list.\<close>

lemma search_wrap:
  assumes "chain m q us z" and "\<And>k. k \<in> set (q # us) \<Longrightarrow> bp < k" and "sorted_wrt (<) (q # us)" and "z < bp"
  shows "free_search bp q m = free_search bp z m"
  using assms
proof (induction us arbitrary: q)
  case Nil
  then show ?case by (subst free_search.simps) auto
next
  case (Cons u us)
  have "free_search bp u m = free_search bp z m" using Cons by (intro Cons.IH) auto
  moreover have "hptr m q = u" "q < u" "bp < u" "bp < q" using Cons.prems by auto
  ultimately show ?case by (subst free_search.simps) auto
qed

lemma free_search_ok:
  assumes c: "chain m a (xs @ ys) a" and s: "spaced m a (xs @ ys)" and q: "q \<in> set (a # xs @ ys)"
    and lo: "\<And>k. k \<in> set (a # xs) \<Longrightarrow> k < bp" and hi: "\<And>k. k \<in> set ys \<Longrightarrow> bp < k"
  shows "free_search bp q m = Some (last (a # xs))"
proof -
  have srt: "sorted_wrt (<) (a # xs @ ys)"
    using spaced_sorted [OF s] by (rule sorted_wrt_mono_rel [rotated]) (simp add: word_less_nat_alt)
  have from_low: "free_search bp q m = Some (last (a # xs))" if q: "q \<in> set (a # xs)" for q
  proof -
    obtain us vs where uv: "a # xs = us @ q # vs" using q by (meson split_list)
    then have split: "a # xs @ ys = us @ q # vs @ ys" by simp
    have ch: "chain m q (vs @ ys) a"
    proof (cases us)
      case (Cons u us')
      then show ?thesis using c uv chain_append [of m a us' q "vs @ ys"] by simp
    qed (use c uv in simp)
    have "sorted_wrt (<) (us @ q # vs @ ys)" using srt split by simp
    then have sq: "sorted_wrt (<) (q # vs)" by (simp add: sorted_wrt_append)
    have "a \<le> q" using srt q by (auto intro: less_imp_le)
    then have "free_search bp q m = Some (last (q # vs))"
      using hi lo uv by (intro search_forward [OF ch _ sq]) (auto split: list.splits)
    then show ?thesis unfolding uv by simp
  qed
  show ?thesis
  proof (cases "q \<in> set (a # xs)")
    case False
    then have "q \<in> set ys" using q by auto
    then obtain us vs where uv: "ys = us @ q # vs" by (meson split_list)
    then have ch: "chain m q vs a" using c chain_append [of m a "xs @ us" q vs] by simp
    have sq: "sorted_wrt (<) (q # vs)" using srt uv by (simp add: sorted_wrt_append)
    have "free_search bp q m = free_search bp a m" using hi lo uv by (intro search_wrap [OF ch _ sq]) auto
    then show ?thesis using from_low [of a] by simp
  qed (rule from_low)
qed

section \<open>Joining\<close>

definition extent :: "memory \<Rightarrow> u64 \<Rightarrow> nat set" where
  "extent m h = {unat h ..< unat h + span m h}"

definition space :: "memory \<Rightarrow> u64 list \<Rightarrow> nat set" where
  "space m bs = (\<Union>b \<in> set bs. extent m b)"

lemma space_simps [simp]:
  "space m [] = {}" "space m (b # bs) = extent m b \<union> space m bs" "space m (xs @ ys) = space m xs \<union> space m ys"
  by (auto simp: space_def)

lemma space_cong: "(\<And>k. k \<in> set bs \<Longrightarrow> hsize m' k = hsize m k) \<Longrightarrow> space m' bs = space m bs"
  by (simp add: space_def extent_def span_def)

lemma chain_same: "chain m a xs z \<Longrightarrow> (\<And>k. k \<in> set (a # xs) \<Longrightarrow> hptr m' k = hptr m k) \<Longrightarrow> chain m' a xs z"
  by (induction xs arbitrary: a) auto

lemma spaced_same: "spaced m a xs \<Longrightarrow> (\<And>k. k \<in> set (a # xs) \<Longrightarrow> hsize m' k = hsize m k) \<Longrightarrow> spaced m' a xs"
  by (induction xs arbitrary: a) (auto simp: gap_def span_def)

lemma chain_switch:
  assumes "chain m a xs z" and "hptr m' b = hptr m a" and "\<And>k. k \<in> set xs \<Longrightarrow> hptr m' k = hptr m k"
  shows "chain m' b xs z"
proof (cases xs)
  case (Cons x ys)
  have "chain m x ys z" using assms(1) Cons by simp
  then have "chain m' x ys z" by (rule chain_same) (use assms(3) Cons in simp)
  then show ?thesis using assms(1,2) Cons by simp
qed (use assms in simp)

lemma spaced_switch:
  assumes "spaced m a xs" and "unat b + span m' b \<le> unat a + span m a" and "unat b \<le> unat a"
    and "\<And>k. k \<in> set xs \<Longrightarrow> hsize m' k = hsize m k"
  shows "spaced m' b xs"
proof (cases xs)
  case (Cons x ys)
  have "spaced m x ys" using assms(1) Cons by simp
  then have "spaced m' x ys" by (rule spaced_same) (use assms(4) Cons in simp)
  then show ?thesis using assms(1-3) Cons by (auto simp: gap_def)
qed simp

lemma unat_hadd: "unat h + span m h < 2 ^ 64 \<Longrightarrow> unat (hadd h (hsize m h)) = unat h + span m h"
  using unat_add_small [of h "span m h"] by (simp add: hadd_def span_def)

lemma unat_add_hsize: "span m h + span m' k < 2 ^ 36 \<Longrightarrow> unat (hsize m h + hsize m' k) = unat (hsize m h) + unat (hsize m' k)"
  by (simp add: span_def unat_word_ariths)

lemma join_next_frame: "placed bp \<Longrightarrow> unat b < unat bp \<or> unat bp + 16 \<le> unat b \<Longrightarrow> join_next bp p m b = m b"
  by (simp add: join_next_def Let_def set_hptr_frame set_hsize_frame)

lemma join_prev_frame: "placed p \<Longrightarrow> unat b < unat p \<or> unat p + 16 \<le> unat b \<Longrightarrow> join_prev bp p m b = m b"
  by (simp add: join_prev_def Let_def set_hptr_frame set_hsize_frame)

lemma join_next_ok:
  assumes c: "chain m p ys a" and s: "spaced m p ys" and ab: "a < bp" and pl: "placed p" "placed bp" "\<And>y. y \<in> set ys \<Longrightarrow> placed y"
    and ap: "apart bp p" "\<And>y. y \<in> set ys \<Longrightarrow> unat bp + 16 \<le> unat y"
    and free: "\<And>y. y \<in> set ys \<Longrightarrow> unat bp + span m bp \<le> unat y" and b0: "16 \<le> span m bp"
    and top: "unat bp + span m bp \<le> 2 ^ 35" "\<And>y. y \<in> set ys \<Longrightarrow> unat y + span m y \<le> 2 ^ 35"
  defines "m1 \<equiv> join_next bp p m"
  shows "\<exists>ys'. chain m1 bp ys' a \<and> spaced m1 bp ys' \<and> set ys' \<subseteq> set ys \<and> extent m1 bp \<union> space m1 ys' = extent m bp \<union> space m ys \<and>
    hsize m bp \<le> hsize m1 bp" (is "\<exists>ys'. ?P ys'")
proof -
  have frame: "m1 b = m b" if "unat b < unat bp \<or> unat bp + 16 \<le> unat b" for b
    unfolding m1_def by (rule join_next_frame [OF pl(2) that])
  have same: "hptr m1 y = hptr m y" "hsize m1 y = hsize m y" if "y \<in> set ys" for y
    using header_cong [OF pl(3) [OF that], of m1 m] ap(2) [OF that] frame by auto
  have nx: "hptr m p = hd (ys @ [a])" using c by (cases ys) auto
  have e: "unat (hadd bp (hsize m bp)) = unat bp + span m bp" using top(1) by (intro unat_hadd) simp
  show ?thesis
  proof (cases "hadd bp (hsize m bp) = hptr m p")
    case True
    then obtain y ys' where y: "ys = y # ys'" using e nx ab by (cases ys) (auto simp: word_less_nat_alt)
    have yb: "unat y = unat bp + span m bp" using True nx y e by auto
    have sz: "unat (hsize m bp + hsize m y) = unat (hsize m bp) + unat (hsize m y)"
      using top(2) [of y] yb y by (intro unat_add_hsize) simp
    have ap': "apart bp y" "placed y" using ap(2) [of y] pl(3) y by (auto simp: apart_def)
    have h1: "hsize m1 bp = hsize m bp + hsize m y" "hptr m1 bp = hptr m y"
      using True nx y pl ap(1) ap' by (simp_all add: m1_def join_next_def Let_def)
    have sp: "span m1 bp = span m bp + span m y" using h1(1) sz by (simp add: span_def)
    have "chain m1 bp ys' a" 
    proof (rule chain_switch)
      show "chain m y ys' a" using c y by simp
    qed (use y same h1(2) in simp_all)
    moreover have "spaced m1 bp ys'" 
    proof (rule spaced_switch)
      show "spaced m y ys'" using s y by simp
    qed (use y same yb sp in simp_all)
    moreover have "extent m1 bp = extent m bp \<union> extent m y" using yb sp by (auto simp: extent_def)
    moreover have "space m1 ys' = space m ys'" using same y by (intro space_cong) simp
    moreover have "hsize m bp \<le> hsize m1 bp" using h1(1) sz by (simp add: word_le_nat_alt)
    ultimately have "?P ys'" using y by auto
    then show ?thesis by blast
  next
    case False
    then have h1: "hsize m1 bp = hsize m bp" "hptr m1 bp = hptr m p"
      using pl by (simp_all add: m1_def join_next_def)
    have "spaced m1 bp ys"
    proof (cases ys)
      case (Cons y ys')
      have "unat bp + span m bp \<noteq> unat y" using False e nx Cons by (auto simp: word_unat_eq_iff)
      then have "gap m1 bp y" using free [of y] ap(2) [of y] Cons h1(1) by (simp add: gap_def span_def)
      moreover have "spaced m1 y ys'" 
      proof (rule spaced_same)
        show "spaced m y ys'" using s Cons by simp
      qed (use Cons same in simp)
      ultimately show ?thesis using Cons by simp
    qed simp
    moreover have "chain m1 bp ys a" by (rule chain_switch [OF c]) (use same h1(2) in simp_all)
    moreover have "space m1 ys = space m ys" using same by (intro space_cong) simp
    moreover have "extent m1 bp = extent m bp" using h1(1) by (simp add: extent_def span_def)
    ultimately have "?P ys" using h1(1) by simp
    then show ?thesis by blast
  qed
qed

lemma join_prev_ok:
  assumes c: "chain m a xs z" "chain m bp ys a" and s: "spaced m a xs" "spaced m bp ys" and a0: "hsize m a = 0"
    and pl: "\<And>k. k \<in> set (a # xs @ bp # ys) \<Longrightarrow> placed k"
    and lo: "\<And>k. k \<in> set (a # xs) \<Longrightarrow> unat k + 16 \<le> unat bp" "unat (last (a # xs)) + span m (last (a # xs)) \<le> unat bp"
    and top: "unat bp + span m bp \<le> 2 ^ 35" and nz: "\<And>k. k \<in> set (xs @ bp # ys) \<Longrightarrow> hsize m k \<noteq> 0"
  defines "p \<equiv> last (a # xs)"
  defines "m2 \<equiv> join_prev bp p m"
  shows "\<exists>bs. chain m2 a bs a \<and> spaced m2 a bs \<and> p \<in> set (a # bs) \<and> set bs \<subseteq> set xs \<union> {bp} \<union> set ys \<and>
    space m2 bs = space m xs \<union> extent m bp \<union> space m ys \<and> (\<forall>k \<in> set bs. hsize m2 k \<noteq> 0) \<and>
    (\<exists>k \<in> set bs. hsize m bp \<le> hsize m2 k)" (is "\<exists>bs. ?P bs")
    and "hsize m2 a = 0"
proof -
  have pin: "p \<in> set (a # xs)" by (simp add: p_def)
  have plp: "placed p" "placed bp" "apart p bp" using pl pin lo(1) [OF pin] by (auto simp: apart_def)
  have frame: "m2 b = m b" if "unat b < unat p \<or> unat p + 16 \<le> unat b" for b
    unfolding m2_def by (rule join_prev_frame [OF plp(1) that])
  have srt: "sorted_wrt (\<lambda>x y. unat x + 16 \<le> unat y) (a # xs)" by (rule spaced_sorted [OF s(1)])
  have above: "unat p + 16 \<le> unat k" if "k \<in> set (bp # ys)" for k
    using that lo(1) [OF pin] spaced_less [OF s(2), of k] by auto
  have below: "unat k + 16 \<le> unat p" if "k \<in> set (butlast (a # xs))" for k
  proof -
    have "sorted_wrt (\<lambda>x y. unat x + 16 \<le> unat y) (butlast (a # xs) @ [p])" using srt unfolding p_def
      by (metis append_butlast_last_id list.distinct(1))
    then show ?thesis using that by (auto simp: sorted_wrt_append)
  qed
  have same: "hptr m2 k = hptr m k" "hsize m2 k = hsize m k" if "k \<in> set (butlast (a # xs)) \<or> k \<in> set (bp # ys)" for k
  proof -
    have "k \<in> set (a # xs @ bp # ys)" using that in_set_butlastD [of k "a # xs"] by auto
    then have "placed k" by (rule pl)
    moreover have "unat p + 16 \<le> unat k \<or> unat k + 16 \<le> unat p" using that above below by blast
    ultimately show "hptr m2 k = hptr m k" "hsize m2 k = hsize m k" using header_cong [of k m2 m] frame by auto
  qed
  have ap: "unat (hadd p (hsize m p)) = unat p + span m p" using lo(2) top unfolding p_def by (intro unat_hadd) simp
  have tail: "chain m2 bp ys a" "spaced m2 bp ys" "extent m2 bp = extent m bp" "space m2 ys = space m ys"
  proof -
    show "chain m2 bp ys a" by (rule chain_same [OF c(2)]) (use same in simp)
    show "spaced m2 bp ys" by (rule spaced_same [OF s(2)]) (use same in simp)
    show "extent m2 bp = extent m bp" using same by (simp add: extent_def span_def)
    show "space m2 ys = space m ys" using same by (intro space_cong) simp
  qed
  show "\<exists>bs. ?P bs"
  proof (cases "hadd p (hsize m p) = bp")
    case True
    then have bpp: "unat bp = unat p + span m p" using ap by simp
    have "span m p \<noteq> 0" using bpp lo(1) [OF pin] by simp
    then have "p \<noteq> a" using a0 by (auto simp: span_def)
    then obtain us where us: "xs = us @ [p]" unfolding p_def by (cases xs rule: rev_cases) auto
    have sz: "unat (hsize m p + hsize m bp) = unat (hsize m p) + unat (hsize m bp)"
      using bpp top by (intro unat_add_hsize) simp
    have h: "hsize m2 p = hsize m p + hsize m bp" "hptr m2 p = hptr m bp"
      using True plp by (simp_all add: m2_def join_prev_def Let_def)
    have sp: "span m2 p = span m p + span m bp" using h(1) sz by (simp add: span_def)
    have bl: "butlast (a # xs) = a # us" using us by simp
    have low: "hptr m2 k = hptr m k" "hsize m2 k = hsize m k" if "k \<in> set (a # us)" for k
      using same [of k] that unfolding bl by auto
    have "chain m2 a us p"
    proof (rule chain_same)
      show "chain m a us p" using c(1) us chain_append [of m a us p "[]" z] by simp
    qed (rule low)
    moreover have "chain m2 p ys a" by (rule chain_switch [OF c(2) h(2)]) (use same in simp)
    moreover have "spaced m2 a us" "gap m2 (last (a # us)) p"
    proof -
      have "spaced m a us" "gap m (last (a # us)) p" using s(1) us spaced_append [of m a us p "[]"] by simp_all
      then show "spaced m2 a us" "gap m2 (last (a # us)) p"
        using low [of "last (a # us)"] by (auto intro: spaced_same low(2) simp: gap_def span_def)
    qed
    moreover have "spaced m2 p ys"
    proof (rule spaced_switch [OF s(2)])
      show "unat p + span m2 p \<le> unat bp + span m bp" using bpp sp by simp
    qed (use bpp same in simp_all)
    moreover have "extent m2 p = extent m p \<union> extent m bp" using bpp sp by (auto simp: extent_def)
    moreover have "space m2 us = space m us" using low by (intro space_cong) simp
    moreover have "hsize m bp \<le> hsize m2 p" using h(1) sz by (simp add: word_le_nat_alt)
    moreover have "hsize m2 k \<noteq> 0" if "k \<in> set (us @ p # ys)" for k
    proof (cases "k = p")
      case True
      have "unat (hsize m bp) \<noteq> 0" using nz [of bp] by (simp add: unat_eq_0)
      then show ?thesis using sz h(1) True by (metis add_is_0 unat_0)
    qed (use that same low nz us in auto)
    ultimately have "?P (us @ p # ys)" using us tail(4) by (auto simp: chain_append spaced_append)
    then show ?thesis by blast
  next
    case False
    then have h: "hsize m2 p = hsize m p" "hptr m2 p = bp" using plp by (simp_all add: m2_def join_prev_def)
    have all: "hsize m2 k = hsize m k" if "k \<in> set (a # xs)" for k
      using that h(1) same(2) [of k] unfolding p_def by (metis append_butlast_last_id list.distinct(1) in_set_conv_decomp set_append Un_iff list.set(1) empty_iff set_ConsD)
    have "chain m2 a xs bp"
      by (rule chain_cong [OF c(1)]) (use same h(2) p_def in simp_all)
    moreover have "spaced m2 a xs" by (rule spaced_same [OF s(1)]) (rule all)
    moreover have "gap m2 (last (a # xs)) bp"
    proof -
      have "unat p + span m p \<noteq> unat bp" using False ap by (auto simp: word_unat_eq_iff)
      then show ?thesis using lo(1) [OF pin] lo(2) h(1) unfolding gap_def p_def span_def by simp
    qed
    moreover have "space m2 xs = space m xs" using all by (intro space_cong) simp
    moreover have "hsize m2 k \<noteq> 0" if "k \<in> set (xs @ bp # ys)" for k using that nz [OF that] all same by auto
    moreover have "hsize m2 bp = hsize m bp" using same by simp
    ultimately have "?P (xs @ bp # ys)" using pin tail by (auto simp: chain_append spaced_append)
    then show ?thesis by blast
  qed
  show "hsize m2 a = 0"
  proof (cases "p = a")
    case True
    have "span m p = 0" using a0 True by (simp add: span_def)
    then have "hadd p (hsize m p) \<noteq> bp" using ap lo(1) [OF pin] by auto
    then show ?thesis using a0 True plp by (simp add: m2_def join_prev_def)
  next
    case False
    then have "xs \<noteq> []" by (auto simp: p_def)
    then show ?thesis using same(2) [of a] a0 by simp
  qed
qed

section \<open>What free does\<close>

text \<open>A block that can be given back: it lies in the heap and meets no free block.\<close>

definition block_ok :: "uheap \<Rightarrow> u64 list \<Rightarrow> u64 \<Rightarrow> bool" where
  "block_ok s bs h \<longleftrightarrow> node_ok s h \<and> unat (base s) + 16 \<le> unat h \<and> extent (umem s) h \<inter> space (umem s) bs = {}"

text \<open>The bytes an operation may change: those of the free blocks and of the static header.\<close>

definition keeps :: "uheap \<Rightarrow> nat set \<Rightarrow> memory \<Rightarrow> bool" where
  "keeps s X m \<longleftrightarrow> (\<forall>b. unat b \<notin> X \<longrightarrow> unat b \<notin> {unat (base s) ..< unat (base s) + 16} \<longrightarrow> m b = umem s b)"

lemma span_pos: "hsize m h \<noteq> 0 \<Longrightarrow> 16 \<le> span m h"
  unfolding span_def by (simp add: unat_gt_0 Suc_leI)

lemma extent_apart:
  assumes "hsize m h \<noteq> 0" "hsize m k \<noteq> 0" "extent m h \<inter> extent m k = {}"
  shows "unat h + span m h \<le> unat k \<or> unat k + span m k \<le> unat h"
proof (rule ccontr)
  assume "\<not> ?thesis"
  then have "max (unat h) (unat k) \<in> extent m h \<inter> extent m k" using span_pos [OF assms(1)] span_pos [OF assms(2)] by (auto simp: extent_def)
  then show False using assms(3) by blast
qed

lemma extent_below: "hsize m h \<noteq> 0 \<Longrightarrow> extent m h \<subseteq> {..<n} \<longleftrightarrow> unat h + span m h \<le> n"
proof
  assume "hsize m h \<noteq> 0" "extent m h \<subseteq> {..<n}"
  moreover from this(1) have "unat h + span m h - 1 \<in> extent m h" using span_pos [of m h] by (auto simp: extent_def)
  ultimately have "unat h + span m h - 1 < n" by blast
  then show "unat h + span m h \<le> n" by simp
qed (auto simp: extent_def)

lemma free_ok:
  assumes r: "ring_inv s bs" and b: "block_ok s bs bp"
  shows "\<exists>s' bs'. free (bp + 16) s = Some s' \<and> ring_inv s' bs' \<and> brk s' = brk s \<and> base s' = base s \<and>
    space (umem s') bs' = extent (umem s) bp \<union> space (umem s) bs \<and>
    keeps s (extent (umem s) bp \<union> space (umem s) bs) (umem s') \<and> (\<exists>k \<in> set bs'. hsize (umem s) bp \<le> hsize (umem s') k)"
proof -
  let ?m = "umem s" and ?a = "base s"
  have h: "heap_ok s" and ch: "chain ?m ?a bs ?a" and sp: "spaced ?m ?a bs" and nodes: "\<And>k. k \<in> set bs \<Longrightarrow> node_ok s k"
    and a0: "hsize ?m ?a = 0" and fp: "freep s \<in> set (?a # bs)"
    using r by (auto simp: ring_inv_def)
  have bn: "node_ok s bp" and ab: "unat ?a + 16 \<le> unat bp" and dis: "\<And>k. k \<in> set bs \<Longrightarrow> extent ?m bp \<inter> extent ?m k = {}"
    using b by (auto simp: block_ok_def space_def)
  have bnz: "hsize ?m bp \<noteq> 0" using bn by (simp add: node_ok_def)
  have top: "unat k + span ?m k \<le> 2 ^ 35" if "k = bp \<or> k \<in> set bs" for k
    using that bn nodes [of k] h by (auto simp: node_ok_def heap_ok_def)
  have plb: "placed bp" using top [of bp] span_pos [OF bnz] by (simp add: placed_def)
  have pl: "placed k" if "k \<in> set (?a # bs)" for k by (rule ring_placed [OF r that])
  have sep: "unat bp + span ?m bp \<le> unat k \<or> unat k + span ?m k \<le> unat bp" if "k \<in> set bs" for k
    using extent_apart [OF bnz _ dis [OF that]] nodes [OF that] by (simp add: node_ok_def)
  have kspan: "16 \<le> span ?m k" if "k \<in> set bs" for k using nodes [OF that] span_pos by (simp add: node_ok_def)
  define xs where "xs = takeWhile (\<lambda>k. k < bp) bs"
  define ys where "ys = dropWhile (\<lambda>k. k < bp) bs"
  have bs: "bs = xs @ ys" by (simp add: xs_def ys_def)
  have xlo: "k < bp" if "k \<in> set xs" for k using set_takeWhileD that unfolding xs_def by fast
  have yhi: "bp < k" if "k \<in> set ys" for k
  proof (cases ys)
    case (Cons y ys')
    have "\<not> y < bp" using Cons unfolding ys_def dropWhile_eq_Cons_conv by simp
    moreover have "y \<noteq> bp" using sep [of y] bs Cons kspan [of y] span_pos [OF bnz] by auto
    ultimately have "bp < y" by simp
    moreover have "y \<le> k" using spaced_sorted [OF sp] bs Cons that by (auto simp: sorted_wrt_append word_le_nat_alt)
    ultimately show ?thesis by (rule less_le_trans)
  qed (use that in simp)
  have alo: "?a < bp" using ab by (simp add: word_less_nat_alt)
  define p where "p = last (?a # xs)"
  have search: "free_search bp (freep s) ?m = Some p"
    unfolding p_def
  proof (rule free_search_ok)
    show "k < bp" if "k \<in> set (?a # xs)" for k using that alo xlo by auto
  qed (use ch sp fp bs yhi in simp_all)
  have psplit: "chain ?m ?a xs (hd (ys @ [?a]))" "chain ?m p ys ?a" "spaced ?m ?a xs" "spaced ?m p ys"
    unfolding p_def using chain_split [of ?m ?a xs ys ?a] spaced_split [of ?m ?a xs ys] ch sp bs by simp_all
  have pin: "p \<in> set (?a # bs)" using bs by (auto simp: p_def)
  have xbelow: "unat k + 16 \<le> unat bp" "unat k + span ?m k \<le> unat bp" if "k \<in> set (?a # xs)" for k
  proof -
    have "unat k + 16 \<le> unat bp \<and> unat k + span ?m k \<le> unat bp"
    proof (cases "k = ?a")
      case False
      then have k: "k \<in> set xs" "k \<in> set bs" using that bs by auto
      have "unat k < unat bp" using xlo [OF k(1)] by (simp add: word_less_nat_alt)
      then show ?thesis using sep [OF k(2)] kspan [OF k(2)] span_pos [OF bnz] by linarith
    qed (use ab a0 in \<open>simp add: span_def\<close>)
    then show "unat k + 16 \<le> unat bp" "unat k + span ?m k \<le> unat bp" by auto
  qed
  have yabove: "unat bp + span ?m bp \<le> unat k" if "k \<in> set ys" for k
  proof -
    have "k \<in> set bs" "unat bp < unat k" using that bs yhi [OF that] by (auto simp: word_less_nat_alt)
    then show ?thesis using sep [of k] kspan [of k] by linarith
  qed
  let ?m1 = "join_next bp p ?m"
  have pxs: "p \<in> set (?a # xs)" unfolding p_def by (rule last_in_set) simp
  have ap: "apart bp p" using xbelow(1) [OF pxs] by (simp add: apart_def)
  obtain ys' where ys': "chain ?m1 bp ys' ?a" "spaced ?m1 bp ys'" "set ys' \<subseteq> set ys"
      "extent ?m1 bp \<union> space ?m1 ys' = extent ?m bp \<union> space ?m ys" "hsize ?m bp \<le> hsize ?m1 bp"
    using join_next_ok [OF psplit(2,4) alo pl [OF pin] plb _ ap] pl bs yabove span_pos [OF bnz] top by force
  have f1: "?m1 b = ?m b" if "unat b < unat bp \<or> unat bp + 16 \<le> unat b" for b
    by (rule join_next_frame [OF plb that])
  have same: "hptr ?m1 k = hptr ?m k" "hsize ?m1 k = hsize ?m k" if "k \<in> set (?a # bs)" for k
  proof -
    have "unat k + 16 \<le> unat bp \<or> unat bp + 16 \<le> unat k"
      using that bs xbelow(1) [of k] yabove [of k] span_pos [OF bnz] by auto
    then show "hptr ?m1 k = hptr ?m k" "hsize ?m1 k = hsize ?m k" using header_cong [OF pl [OF that], of ?m1 ?m] f1 by auto
  qed
  have in_heap: "extent ?m bp \<union> space ?m bs \<subseteq> {..<unat (brk s)}"
  proof -
    have "extent ?m k \<subseteq> {..<unat (brk s)}" if "node_ok s k" for k using that by (simp add: node_ok_def extent_below)
    from this [OF bn] this [OF nodes] show ?thesis unfolding space_def by blast
  qed
  have y1: "hsize ?m1 k = hsize ?m k" "hsize ?m k \<noteq> 0" if "k \<in> set xs \<or> k \<in> set ys'" for k
    using that same(2) [of k] ys'(3) bs nodes [of k] by (auto simp: node_ok_def)
  have b1: "hsize ?m1 bp \<noteq> 0" using ys'(5) bnz by (metis word_le_0_iff)
  have nz1: "hsize ?m1 k \<noteq> 0" if "k \<in> set (xs @ bp # ys')" for k using that y1 [of k] b1 by auto
  have top1: "unat bp + span ?m1 bp \<le> unat (brk s)"
    using ys'(4) in_heap bs by (subst extent_below [symmetric, OF b1]) auto
  let ?m2 = "join_prev bp p ?m1"
  note prev = join_prev_ok [of ?m1 ?a xs "hd (ys @ [?a])" bp ys', folded p_def]
  have pre: "chain ?m1 ?a xs (hd (ys @ [?a]))" "spaced ?m1 ?a xs" "hsize ?m1 ?a = 0"
    "unat p + span ?m1 p \<le> unat bp" "unat bp + span ?m1 bp \<le> 2 ^ 35"
  proof -
    show "chain ?m1 ?a xs (hd (ys @ [?a]))" by (rule chain_same [OF psplit(1)]) (use same bs in auto)
    show "spaced ?m1 ?a xs" by (rule spaced_same [OF psplit(3)]) (use same bs in auto)
    show "hsize ?m1 ?a = 0" using same(2) [of ?a] a0 by simp
    show "unat p + span ?m1 p \<le> unat bp" using xbelow(2) [OF pxs] same(2) [OF pin] by (simp add: span_def)
    show "unat bp + span ?m1 bp \<le> 2 ^ 35" using top1 h by (simp add: heap_ok_def)
  qed
  have pls: "placed k" if "k \<in> set (?a # xs @ bp # ys')" for k using that pl [of k] plb ys'(3) bs by auto
  obtain bs' where bs': "chain ?m2 ?a bs' ?a" "spaced ?m2 ?a bs'" "p \<in> set (?a # bs')"
      "set bs' \<subseteq> set xs \<union> {bp} \<union> set ys'" "space ?m2 bs' = space ?m1 xs \<union> extent ?m1 bp \<union> space ?m1 ys'"
      "\<forall>k \<in> set bs'. hsize ?m2 k \<noteq> 0" "\<exists>k \<in> set bs'. hsize ?m1 bp \<le> hsize ?m2 k"
    using prev(1) [OF pre(1) ys'(1) pre(2) ys'(2) pre(3) pls xbelow(1) pre(4,5) nz1] by blast
  have a2: "hsize ?m2 ?a = 0" by (rule prev(2) [OF pre(1) ys'(1) pre(2) ys'(2) pre(3) pls xbelow(1) pre(4,5) nz1])
  have sp2: "space ?m2 bs' = extent ?m bp \<union> space ?m bs"
  proof -
    have "space ?m1 xs = space ?m xs" using same(2) bs by (intro space_cong) auto
    then show ?thesis using bs'(5) ys'(4) bs by auto
  qed
  let ?s = "s\<lparr>umem := ?m2, freep := p\<rparr>"
  have "free (bp + 16) s = Some ?s" using search by (simp add: free_def)
  moreover have "ring_inv ?s bs'"
  proof -
    have "node_ok ?s k" if "k \<in> set bs'" for k
    proof -
      have "extent ?m2 k \<subseteq> {..<unat (brk s)}" using that sp2 in_heap by (auto simp: space_def)
      moreover have "16 dvd unat k" using that bs'(4) ys'(3) bs bn nodes [of k] by (auto simp: node_ok_def)
      ultimately show ?thesis using bs'(6) that extent_below by (simp add: node_ok_def)
    qed
    then show ?thesis using h bs'(1-3) a2 by (simp add: ring_inv_def heap_ok_def)
  qed
  moreover have "keeps s (extent ?m bp \<union> space ?m bs) ?m2"
    unfolding keeps_def
  proof (intro allI impI)
    fix b :: u64 assume b: "unat b \<notin> extent ?m bp \<union> space ?m bs" "unat b \<notin> {unat ?a ..< unat ?a + 16}"
    have "unat b < unat bp \<or> unat bp + 16 \<le> unat b" using b(1) span_pos [OF bnz] by (auto simp: extent_def)
    moreover have "unat b < unat p \<or> unat p + 16 \<le> unat b"
    proof (cases "p = ?a")
      case False
      then have "p \<in> set bs" using pin by simp
      then show ?thesis using b(1) kspan [of p] by (auto simp: space_def extent_def)
    qed (use b(2) in auto)
    ultimately show "?m2 b = ?m b" using join_prev_frame [OF pl [OF pin]] f1 by simp
  qed
  moreover have "\<exists>k \<in> set bs'. hsize ?m bp \<le> hsize ?m2 k" using bs'(7) ys'(5) order_trans by blast
  ultimately show ?thesis using sp2
    by (intro exI [of _ ?s] exI [of _ bs']) (simp)
qed

end
