(* ===== verification/Umalloc_Props.thy ===== *)
theory Umalloc_Props
  imports Umalloc
begin

text \<open>
  What \<open>malloc\<close> does, and runs of a program over the allocator: in every reachable state the blocks the program
  holds are disjoint, \<open>malloc\<close> and \<open>free\<close> come back, and they change no byte of a block in use.
\<close>

section \<open>Taking a block\<close>

lemma ring_distinct: "ring_inv s bs \<Longrightarrow> distinct (base s # bs)"
proof -
  assume "ring_inv s bs"
  then have "sorted_wrt (\<lambda>x y. unat x + 16 \<le> unat y) (base s # bs)" by (intro spaced_sorted [of "umem s"]) (simp add: ring_inv_def)
  then have "sorted_wrt (\<noteq>) (base s # bs)" by (rule sorted_wrt_mono_rel [rotated]) auto
  then show ?thesis unfolding distinct_conv_nth sorted_wrt_iff_nth_less by (metis nat_neq_iff)
qed

text \<open>The nodes in the order in which \<open>malloc\<close> meets them.\<close>

lemma rotate:
  assumes "chain m a bs a" and "f \<in> set (a # bs)" and "distinct (a # bs)"
  shows "\<exists>cs. chain m f cs f \<and> set (f # cs) = set (a # bs) \<and> f \<notin> set cs"
proof -
  obtain us vs where uv: "a # bs = us @ f # vs" using assms(2) by (meson split_list)
  have "chain m f (vs @ us) f"
  proof (cases us)
    case (Cons u us')
    then have "bs = us' @ f # vs" "u = a" using uv by simp_all
    then have "chain m a us' f" "chain m f vs a" using assms(1) by (simp_all add: chain_append)
    then show ?thesis using Cons \<open>u = a\<close> by (simp add: chain_append)
  qed (use assms(1) uv in simp)
  moreover have "f \<notin> set (vs @ us)" using assms(3) uv by (metis append_Cons distinct.simps(2) distinct_append not_distinct_conv_prefix Un_iff set_append distinct_append disjoint_iff list.set_intros(1))
  ultimately show ?thesis using uv by (intro exI [of _ "vs @ us"]) (metis Un_commute Un_insert_right list.set(2) set_append)
qed

lemma walk_found:
  assumes "chain (umem s) q cs (freep s)" and "freep s \<notin> set cs" and "\<exists>c \<in> set (cs @ [freep s]). nunits \<le> hsize (umem s) c"
  shows "\<exists>prevp p. prevp \<in> set (q # cs) \<and> hptr (umem s) prevp = p \<and> nunits \<le> hsize (umem s) p \<and>
    malloc_loop grow nunits q (hptr (umem s) q) s = Some (take_block nunits prevp p s)"
  using assms
proof (induction cs arbitrary: q)
  case Nil
  then show ?case by (subst malloc_loop.simps) auto
next
  case (Cons c cs)
  show ?case
  proof (cases "nunits \<le> hsize (umem s) c")
    case True
    then show ?thesis using Cons.prems by (subst malloc_loop.simps) auto
  next
    case False
    have "malloc_loop grow nunits q c s = malloc_loop grow nunits c (hptr (umem s) c) s"
      using False Cons.prems by (subst malloc_loop.simps) auto
    then show ?thesis using Cons.IH [of c] Cons.prems False by auto
  qed
qed

lemma walk_none:
  assumes "chain (umem s) q cs (freep s)" and "freep s \<notin> set cs" and "\<not> (\<exists>c \<in> set (cs @ [freep s]). nunits \<le> hsize (umem s) c)"
  shows "malloc_loop grow nunits q (hptr (umem s) q) s =
    (case morecore grow nunits s of None \<Rightarrow> None
     | Some (q, s1) \<Rightarrow> if q = 0 then Some (0, s1) else malloc_loop grow nunits q (hptr (umem s1) q) s1)"
  using assms
proof (induction cs arbitrary: q)
  case Nil
  then show ?case by (subst malloc_loop.simps) auto
next
  case (Cons c cs)
  have "malloc_loop grow nunits q c s = malloc_loop grow nunits c (hptr (umem s) c) s"
    using Cons.prems by (subst malloc_loop.simps) auto
  then show ?case using Cons by simp
qed

lemma prev_unique:
  assumes "chain m a (xs @ p # ys) a" and "distinct (a # xs @ p # ys)" and "k \<in> set (a # xs @ p # ys)" and "hptr m k = p"
  shows "k = last (a # xs)"
proof -
  obtain us vs where uv: "a # xs @ p # ys = us @ k # vs" using assms(3) by (meson split_list)
  have "hptr m k = hd (vs @ [a])"
  proof (cases us)
    case (Cons u us')
    then have "xs @ p # ys = us' @ k # vs" "u = a" using uv by simp_all
    then have "chain m k vs a" using assms(1) chain_append by metis
    then show ?thesis by (cases vs) auto
  next
    case Nil
    then have "chain m k vs a" using assms(1) uv by simp
    then show ?thesis by (cases vs) auto
  qed
  then have "hd (vs @ [a]) = p" using assms(4) by simp
  moreover have "p \<noteq> a" using assms(2) by auto
  ultimately obtain vs' where vs: "vs = p # vs'" by (cases vs) auto
  have e: "(a # xs) @ p # ys = (us @ [k]) @ p # vs'" using uv vs by simp
  have n: "p \<notin> set (a # xs)" "p \<notin> set ys" using assms(2) by auto
  have "a # xs = us @ [k] \<and> ys = vs'" by (rule iffD1 [OF append_Cons_eq_iff [OF n] e])
  then have "a # xs = us @ [k]" by simp
  then show ?thesis by (metis last_snoc)
qed

lemma take_whole:
  assumes r: "ring_inv s (xs @ p # ys)" and pp: "prevp = last (base s # xs)"
  defines "m \<equiv> set_hptr prevp (hptr (umem s) p) (umem s)"
  shows "ring_inv (s\<lparr>umem := m, freep := prevp\<rparr>) (xs @ ys)" and "hsize m p = hsize (umem s) p"
    and "space m (xs @ ys) = space (umem s) (xs @ ys)" and "space (umem s) (xs @ ys) \<inter> extent (umem s) p = {}"
    and "keeps s (space (umem s) (xs @ p # ys)) m"
proof -
  let ?a = "base s" and ?m = "umem s" and ?N = "base s # xs @ p # ys"
  have h: "heap_ok s" and ch: "chain ?m ?a (xs @ p # ys) ?a" and sp: "spaced ?m ?a (xs @ p # ys)"
    and nodes: "\<And>k. k \<in> set (xs @ p # ys) \<Longrightarrow> node_ok s k" and a0: "hsize ?m ?a = 0"
    using r by (auto simp: ring_inv_def)
  have pin: "prevp \<in> set (?a # xs)" unfolding pp by (rule last_in_set) simp
  have pl: "placed k" if "k \<in> set ?N" for k by (rule ring_placed [OF r that])
  have srt: "sorted_wrt (\<lambda>x y. unat x + 16 \<le> unat y) ?N" by (rule spaced_sorted [OF sp])
  have ap: "apart prevp k" if "k \<in> set ?N" "k \<noteq> prevp" for k
  proof -
    have "unat x + 16 \<le> unat y \<or> unat y + 16 \<le> unat x" if "x \<in> set ?N" "y \<in> set ?N" "x \<noteq> y" for x y
      using sorted_wrt_nth_less [OF srt] that by (metis in_set_conv_nth nat_neq_iff)
    then show ?thesis using that pin by (auto simp: apart_def)
  qed
  have same: "hsize m k = hsize ?m k" if "k \<in> set ?N" for k
  proof (cases "k = prevp")
    case True
    then show ?thesis using pl [OF that] by (simp add: m_def)
  qed (use that ap pl pin in \<open>auto simp: m_def\<close>)
  have ptr: "hptr m k = hptr ?m k" if "k \<in> set ?N" "k \<noteq> prevp" for k
    using that ap [OF that] pl pin by (auto simp: m_def)
  show "hsize m p = hsize ?m p" using same by simp
  show "space m (xs @ ys) = space ?m (xs @ ys)" using same by (intro space_cong) auto
  show "space ?m (xs @ ys) \<inter> extent ?m p = {}"
  proof -
    have "extent ?m k \<inter> extent ?m p = {}" if "k \<in> set xs" for k
      using spaced_before(2) [OF sp, of k] that by (auto simp: extent_def)
    moreover have "extent ?m k \<inter> extent ?m p = {}" if "k \<in> set ys" for k
      using spaced_less [of ?m p ys k] that sp by (auto simp: spaced_append extent_def)
    ultimately show ?thesis unfolding space_def by auto
  qed
  have dist: "prevp \<notin> set (p # ys)" "prevp \<notin> set (butlast (?a # xs))"
  proof -
    have "distinct ?N" by (rule ring_distinct [OF r])
    then show "prevp \<notin> set (p # ys)" using pin by auto
    have "distinct (butlast (?a # xs) @ [prevp])" using \<open>distinct ?N\<close> unfolding pp append_butlast_last_id [OF list.distinct(2)] by simp
    then show "prevp \<notin> set (butlast (?a # xs))" by simp
  qed
  have pn: "hptr ?m p = hd (ys @ [?a])" and cys: "chain ?m p ys ?a"
    using ch by (auto simp: chain_append) (cases ys; auto simp: chain_append)
  have mp: "hptr m prevp = hptr ?m p" using pl pin by (auto simp: m_def)
  have bl: "k \<in> set ?N" if "k \<in> set (butlast (?a # xs))" for k using in_set_butlastD [OF that] by auto
  have cx: "chain m ?a xs (hptr ?m p)"
  proof (rule chain_cong)
    show "chain ?m ?a xs p" using ch by (simp add: chain_append)
    show "hptr m (last (?a # xs)) = hptr ?m p" using mp pp by simp
    show "hptr m k = hptr ?m k" if "k \<in> set (butlast (?a # xs))" for k using ptr [OF bl [OF that]] that dist(2) by auto
  qed
  have sx: "spaced m ?a xs" "spaced ?m p ys" "gap ?m (last (?a # xs)) p"
    using sp by (auto simp: spaced_append intro!: spaced_same [of ?m] same)
  have "chain m ?a (xs @ ys) ?a \<and> spaced m ?a (xs @ ys)"
  proof (cases ys)
    case Nil
    then show ?thesis using cx sx pn by simp
  next
    case (Cons y ys')
    have "chain m y ys' ?a"
    proof (rule chain_same)
      show "chain ?m y ys' ?a" using cys Cons by simp
    qed (use ptr dist(1) Cons in auto)
    moreover have "spaced m y ys'"
    proof (rule spaced_same)
      show "spaced ?m y ys'" using sx(2) Cons by simp
    qed (use same Cons in auto)
    moreover have "gap m (last (?a # xs)) y"
      using sx(2,3) Cons same [of "last (?a # xs)"] pin pp by (auto simp: gap_def span_def)
    ultimately show ?thesis using cx sx pn Cons by (simp add: chain_append spaced_append)
  qed
  moreover have "node_ok (s\<lparr>umem := m, freep := prevp\<rparr>) k" if "k \<in> set (xs @ ys)" for k
    using nodes [of k] same [of k] that by (auto simp: node_ok_def span_def)
  ultimately show "ring_inv (s\<lparr>umem := m, freep := prevp\<rparr>) (xs @ ys)"
    using h a0 same [of ?a] pin by (auto simp: ring_inv_def heap_ok_def)
  show "keeps s (space ?m (xs @ p # ys)) m"
    unfolding keeps_def
  proof (intro allI impI)
    fix b :: u64 assume b: "unat b \<notin> space ?m (xs @ p # ys)" "unat b \<notin> {unat ?a ..< unat ?a + 16}"
    have "unat b < unat prevp \<or> unat prevp + 16 \<le> unat b"
    proof (cases "prevp = ?a")
      case False
      then have "prevp \<in> set (xs @ p # ys)" using pin by auto
      then have "extent ?m prevp \<subseteq> space ?m (xs @ p # ys)" "16 \<le> span ?m prevp"
        using nodes span_pos by (auto simp: space_def node_ok_def)
      then have "unat b \<notin> extent ?m prevp" using b(1) by blast
      then show ?thesis using \<open>16 \<le> span ?m prevp\<close> by (auto simp: extent_def)
    qed (use b(2) in auto)
    then show "m b = ?m b" using pl pin by (auto simp: m_def set_hptr_frame)
  qed
qed

lemma take_end:
  assumes r: "ring_inv s (xs @ p # ys)" and n: "n < hsize (umem s) p" "n \<noteq> 0" and f: "f \<in> set (base s # xs @ p # ys)"
  defines "q \<equiv> hadd p (hsize (umem s) p - n)"
  defines "m \<equiv> set_hsize q n (set_hsize p (hsize (umem s) p - n) (umem s))"
  shows "ring_inv (s\<lparr>umem := m, freep := f\<rparr>) (xs @ p # ys)" and "hsize m q = n"
    and "space m (xs @ p # ys) \<union> extent m q = space (umem s) (xs @ p # ys)"
    and "space m (xs @ p # ys) \<inter> extent m q = {}" and "16 dvd unat q" and "unat (base s) + 16 \<le> unat q"
    and "unat q + span m q \<le> unat (brk s)" and "keeps s (space (umem s) (xs @ p # ys)) m"
proof -
  let ?a = "base s" and ?m = "umem s" and ?N = "base s # xs @ p # ys"
  have h: "heap_ok s" and ch: "chain ?m ?a (xs @ p # ys) ?a" and sp: "spaced ?m ?a (xs @ p # ys)"
    and nodes: "\<And>k. k \<in> set (xs @ p # ys) \<Longrightarrow> node_ok s k" and a0: "hsize ?m ?a = 0"
    using r by (auto simp: ring_inv_def)
  have pl: "placed k" if "k \<in> set ?N" for k by (rule ring_placed [OF r that])
  have pn: "16 dvd unat p" "unat p + span ?m p \<le> unat (brk s)" "unat (brk s) \<le> 2 ^ 35"
    using nodes [of p] h by (auto simp: node_ok_def heap_ok_def)
  let ?k = "hsize ?m p - n"
  have k: "unat ?k = unat (hsize ?m p) - unat n" using n(1) by (simp add: unat_sub word_le_nat_alt word_less_nat_alt)
  have kn: "0 < unat n" "unat n < unat (hsize ?m p)" using n by (simp_all add: word_less_nat_alt unat_gt_0)
  have sk: "16 * unat ?k + 16 * unat n = span ?m p" "16 \<le> 16 * unat ?k" using k kn by (simp_all add: span_def)
  have uq: "unat q = unat p + 16 * unat ?k"
    using unat_add_small [of p "16 * unat ?k"] sk pn by (simp add: q_def hadd_def)
  have plq: "placed q" using uq sk pn kn by (simp add: placed_def)
  have plp: "placed p" using pl by simp
  have apq: "apart q p" using uq sk by (simp add: apart_def)
  show hq: "hsize m q = n" using plq by (simp add: m_def)
  have hp: "hsize m p = ?k" using plq plp apq by (simp add: m_def)
  have spq: "span m q = 16 * unat n" "span m p = 16 * unat ?k" using hq hp by (simp_all add: span_def)
  have frame: "m b = ?m b" if "unat b < unat p \<or> unat p + span ?m p \<le> unat b" for b
    using that plq plp uq sk kn by (auto simp: m_def set_hsize_frame)
  have other: "unat k + 16 \<le> unat p \<or> unat p + span ?m p \<le> unat k" if "k \<in> set ?N" "k \<noteq> p" for k
    using that spaced_before(1) [OF sp, of k] spaced_less [of ?m p ys k] sp by (auto simp: spaced_append)
  have same: "hsize m k = hsize ?m k" if "k \<in> set ?N" "k \<noteq> p" for k
    using header_cong(2) [OF pl [OF that(1)], of m ?m] frame other [OF that] by auto
  have ptr: "hptr m k = hptr ?m k" if "k \<in> set ?N" for k
  proof (cases "k = p")
    case True
    then show ?thesis using plq plp apq by (simp add: m_def)
  next
    case False
    then show ?thesis using header_cong(1) [OF pl [OF that], of m ?m] frame other [OF that] by auto
  qed
  have dist: "p \<notin> set xs" "p \<notin> set ys" "p \<noteq> ?a" using ring_distinct [OF r] by auto
  have spx: "space m xs = space ?m xs" "space m ys = space ?m ys" using same dist by (auto intro!: space_cong)
  have ep: "extent m p \<union> extent m q = extent ?m p" "extent m p \<inter> extent m q = {}"
    using uq spq sk by (auto simp: extent_def)
  show "space m (xs @ p # ys) \<union> extent m q = space ?m (xs @ p # ys)" using spx ep by auto
  have apart: "space ?m xs \<inter> extent ?m p = {}" "space ?m ys \<inter> extent ?m p = {}"
    using take_whole(4) [OF r refl] by auto
  show "space m (xs @ p # ys) \<inter> extent m q = {}" using spx ep apart by auto
  show "16 dvd unat q" using uq pn(1) by simp
  show "unat ?a + 16 \<le> unat q" using spaced_before(1) [OF sp, of ?a] uq by simp
  show "unat q + span m q \<le> unat (brk s)" using uq spq sk pn(2) by simp
  show "keeps s (space ?m (xs @ p # ys)) m" using frame by (auto simp: keeps_def extent_def)
  have "chain m ?a (xs @ p # ys) ?a" by (rule chain_same [OF ch]) (rule ptr)
  moreover have "spaced m ?a (xs @ p # ys)"
  proof -
    have s0: "spaced ?m ?a xs" "gap ?m (last (?a # xs)) p" "spaced ?m p ys" using sp by (simp_all add: spaced_append)
    have l: "last (?a # xs) \<in> set (?a # xs)" by (rule last_in_set) simp
    then have "last (?a # xs) \<noteq> p" using dist by auto
    then have "hsize m (last (?a # xs)) = hsize ?m (last (?a # xs))" using l by (intro same) auto
    then have "gap m (last (?a # xs)) p" using s0(2) unfolding gap_def span_def by simp
    moreover have "spaced m ?a xs"
    proof (rule spaced_same [OF s0(1)])
      show "hsize m k = hsize ?m k" if "k \<in> set (?a # xs)" for k using that dist by (intro same) auto
    qed
    moreover have "spaced m p ys"
    proof (rule spaced_switch [OF s0(3)])
      show "unat p + span m p \<le> unat p + span ?m p" using spq sk by simp
      show "hsize m k = hsize ?m k" if "k \<in> set ys" for k using that dist by (intro same) auto
    qed simp
    ultimately show ?thesis by (simp add: spaced_append)
  qed
  moreover have "node_ok (s\<lparr>umem := m, freep := f\<rparr>) k" if "k \<in> set (xs @ p # ys)" for k
  proof (cases "k = p")
    case True
    have "?k \<noteq> 0" using k kn by auto
    then show ?thesis using True hp spq sk pn by (simp add: node_ok_def)
  next
    case False
    then show ?thesis using nodes [OF that] same [of k] that by (auto simp: node_ok_def span_def)
  qed
  ultimately show "ring_inv (s\<lparr>umem := m, freep := f\<rparr>) (xs @ p # ys)"
    using h a0 same [of ?a] dist f by (auto simp: ring_inv_def heap_ok_def)
qed

text \<open>A block of \<open>n\<close> units taken out of the free space \<open>free0\<close>.\<close>

definition taken :: "uheap \<Rightarrow> nat set \<Rightarrow> u32 \<Rightarrow> u64 \<Rightarrow> uheap \<Rightarrow> u64 list \<Rightarrow> bool" where
  "taken s free0 n q s' bs' \<longleftrightarrow> ring_inv s' bs' \<and> base s' = base s \<and> hsize (umem s') q = n \<and> node_ok s' q \<and>
     unat (base s) + 16 \<le> unat q \<and> space (umem s') bs' \<union> extent (umem s') q = free0 \<and>
     space (umem s') bs' \<inter> extent (umem s') q = {}"

lemma take_block_ok:
  assumes r: "ring_inv s bs" and pr: "prevp \<in> set (base s # bs)" "hptr (umem s) prevp = p" and n: "n \<le> hsize (umem s) p" "n \<noteq> 0"
  shows "\<exists>q s' bs'. take_block n prevp p s = (q + 16, s') \<and> taken s (space (umem s) bs) n q s' bs' \<and> brk s' = brk s \<and>
    keeps s (space (umem s) bs) (umem s')"
proof -
  let ?a = "base s" and ?m = "umem s"
  have ch: "chain ?m ?a bs ?a" and a0: "hsize ?m ?a = 0" and nodes: "\<And>k. k \<in> set bs \<Longrightarrow> node_ok s k"
    and sp: "spaced ?m ?a bs"
    using r by (auto simp: ring_inv_def)
  have "hptr ?m k \<in> set (?a # bs)" if k: "k \<in> set (?a # bs)" for k
  proof -
    obtain cs where "chain ?m k cs k" "set (k # cs) = set (?a # bs)" using rotate [OF ch k ring_distinct [OF r]] by blast
    then show ?thesis by (cases cs) auto
  qed
  then have "p \<in> set (?a # bs)" using pr by blast
  moreover have "p \<noteq> ?a" using n a0 by auto
  ultimately have "p \<in> set bs" by simp
  then obtain xs ys where bs: "bs = xs @ p # ys" by (meson split_list)
  have prv: "prevp = last (?a # xs)"
    using prev_unique [of ?m ?a xs p ys prevp] ch ring_distinct [OF r] pr bs by simp
  have np: "node_ok s p" "unat ?a + 16 \<le> unat p" using nodes spaced_less [OF sp, of p] bs by simp_all
  show ?thesis
  proof (cases "hsize ?m p = n")
    case True
    let ?m' = "set_hptr prevp (hptr ?m p) ?m" and ?s = "s\<lparr>umem := set_hptr prevp (hptr ?m p) ?m, freep := prevp\<rparr>"
    note w = take_whole [OF r [unfolded bs] prv]
    have e: "extent ?m' p = extent ?m p" using w(2) by (simp add: extent_def span_def)
    have "taken s (space ?m bs) n p ?s (xs @ ys)"
      using w np True e by (auto simp: taken_def node_ok_def span_def bs)
    then show ?thesis using True w(5) bs by (auto simp: take_block_def)
  next
    case False
    then have lt: "n < hsize ?m p" using n(1) by simp
    let ?m1 = "set_hsize p (hsize ?m p - n) ?m"
    let ?q = "hadd p (hsize ?m p - n)"
    let ?s = "s\<lparr>umem := set_hsize ?q n ?m1, freep := prevp\<rparr>"
    have plp: "placed p" using ring_placed [OF r] bs by simp
    note w = take_end [OF r [unfolded bs] lt n(2) pr(1) [unfolded bs]]
    have "taken s (space ?m bs) n ?q ?s bs" using w n(2) by (simp add: taken_def node_ok_def bs)
    moreover have "take_block n prevp p s = (?q + 16, ?s)" using False plp by (simp add: take_block_def Let_def)
    ultimately show ?thesis using w(8) bs by auto
  qed
qed

section \<open>More memory\<close>

definition more_units :: "u32 \<Rightarrow> u32" where "more_units nu = (if nu < 4096 then 4096 else nu)"
definition more_bytes :: "u32 \<Rightarrow> u32" where "more_bytes nu = (more_units nu * 16 + 4095) AND NOT 4095"

lemma unat_round: "unat (n :: u32) + 4095 < 2 ^ 32 \<Longrightarrow> unat ((n + 4095) AND NOT 4095) = 4096 * ((unat n + 4095) div 4096)"
proof -
  assume n: "unat n + 4095 < 2 ^ 32"
  have m: "NOT (4095 :: u32) = NOT (mask 12)" by (simp add: mask_eq_exp_minus_1)
  have "(n + 4095) AND NOT 4095 = push_bit 12 (drop_bit 12 (n + 4095))" unfolding m by (rule bit_eqI) (auto simp: bit_simps)
  moreover have "unat (n + 4095) = unat n + 4095" using n by (simp add: unat_word_ariths)
  moreover have "(unat n + 4095) div 4096 * 4096 < 2 ^ 32" using n by (rule le_less_trans [OF div_times_less_eq_dividend])
  ultimately show ?thesis by (simp add: push_bit_eq_mult drop_bit_eq_div unat_word_ariths unat_div_distrib)
qed

lemma more_bytes_ok:
  assumes "unat nu \<le> 2 ^ 26 + 2"
  shows "16 * unat (more_units nu) \<le> unat (more_bytes nu)" "unat (more_bytes nu) < 2 ^ 31" "0 < unat (more_bytes nu)"
    "16 dvd unat (more_bytes nu)" "nu \<le> more_units nu" "more_units nu \<noteq> 0"
proof -
  have u: "unat (more_units nu) \<le> 2 ^ 26 + 2" "4096 \<le> unat (more_units nu)"
    using assms by (auto simp: more_units_def word_less_nat_alt)
  then have n: "unat (more_units nu * 16) = 16 * unat (more_units nu)" by (simp add: unat_word_ariths)
  have d: "4096 * (y div 4096) \<le> y \<and> y < 4096 * (y div 4096) + 4096" for y :: nat
    using div_times_less_eq_dividend [of y 4096] dividend_less_div_times [of 4096 y] by (simp add: mult.commute)
  have r: "unat (more_bytes nu) = 4096 * ((16 * unat (more_units nu) + 4095) div 4096)"
    using unat_round [of "more_units nu * 16"] n u by (simp add: more_bytes_def)
  show "16 * unat (more_units nu) \<le> unat (more_bytes nu)" "unat (more_bytes nu) < 2 ^ 31" "0 < unat (more_bytes nu)"
    unfolding r using u d [of "16 * unat (more_units nu) + 4095"] by simp_all
  show "16 dvd unat (more_bytes nu)" unfolding r by (simp add: dvd_mult2)
  show "nu \<le> more_units nu" "more_units nu \<noteq> 0" by (auto simp: more_units_def)
qed

lemma sint_small:
  assumes "unat (r :: u32) < 2 ^ 31"
  shows "sint r = int (unat r)" "(scast r :: u64) = ucast r"
proof -
  have "int (unat r) < int (2 ^ 31)" using assms by (simp only: of_nat_less_iff)
  then have "uint r < 2 ^ 31" by simp
  moreover have "- (2 ^ 31) \<le> sint r" using sint_greater_eq [of r] by simp
  ultimately have "\<not> sint r < 0" using uint_sint32 [of r] by (cases "sint r < 0") simp_all
  then have e: "sint r = uint r" using uint_sint32 [of r] by simp
  then show "sint r = int (unat r)" by simp
  show "(scast r :: u64) = ucast r" using e by (simp only: scast_eq ucast_eq)
qed

definition bounded :: "(u64 \<Rightarrow> u32 \<Rightarrow> bool) \<Rightarrow> bool" where
  "bounded grow \<longleftrightarrow> (\<forall>b r. grow b r \<longrightarrow> unat b + unat r \<le> 2 ^ 35)"

lemma morecore_ok:
  assumes r: "ring_inv s bs" and nu: "unat nu \<le> 2 ^ 26 + 2" and gr: "bounded grow"
  shows "\<not> grow (brk s) (more_bytes nu) \<and> morecore grow nu s = Some (0, s) \<or>
    (\<exists>s' bs'. morecore grow nu s = Some (freep s', s') \<and> freep s' \<noteq> 0 \<and> ring_inv s' bs' \<and> base s' = base s \<and>
       unat (brk s) \<le> unat (brk s') \<and> space (umem s') bs' \<subseteq> space (umem s) bs \<union> {unat (brk s) ..< unat (brk s')} \<and>
       keeps s (space (umem s) bs \<union> {unat (brk s) ..< unat (brk s')}) (umem s') \<and> (\<exists>k \<in> set bs'. nu \<le> hsize (umem s') k))"
proof (cases "grow (brk s) (more_bytes nu)")
  case False
  have "0 < sint (more_bytes nu)" using sint_small(1) [OF more_bytes_ok(2) [OF nu]] more_bytes_ok(3) [OF nu] by linarith
  then have "sbrk grow (more_units nu * 16) s = (-1, s)"
    using False unfolding more_bytes_def sbrk_def Let_def by simp
  then show ?thesis using False by (simp add: morecore_def more_units_def [symmetric] Let_def)
next
  case True
  note mb = more_bytes_ok [OF nu]
  let ?n = "more_units nu" and ?m = "umem s" and ?h = "brk s"
  define s1 where "s1 = s\<lparr>brk := ?h + ucast (more_bytes nu)\<rparr>"
  define s2 where "s2 = s1\<lparr>umem := set_hsize ?h ?n ?m\<rparr>"
  have hk: "heap_ok s" using r by (simp add: ring_inv_def)
  have top: "unat ?h + unat (more_bytes nu) \<le> 2 ^ 35" using gr True by (auto simp: bounded_def)
  have b1: "unat (brk s1) = unat ?h + unat (more_bytes nu)"
    using top by (simp add: s1_def unat_word_ariths)
  have p: "0 < sint (more_bytes nu)" using sint_small(1) [OF mb(2)] mb(3) by linarith
  have sb: "sbrk grow (?n * 16) s = (?h, s1)"
    using True p sint_small(2) [OF mb(2)] unfolding more_bytes_def sbrk_def Let_def s1_def by simp
  have plh: "placed ?h" using top mb(1) hk by (simp add: placed_def heap_ok_def)
  have hs: "hsize (umem s2) ?h = ?n" using plh by (simp add: s2_def)
  have low: "unat k + 16 \<le> unat ?h" if "k \<in> set (base s # bs)" for k
  proof (cases "k = base s")
    case False
    then have "node_ok s k" using that r by (simp add: ring_inv_def)
    then show ?thesis using span_pos [of ?m k] by (auto simp: node_ok_def)
  qed (use hk in \<open>simp add: heap_ok_def\<close>)
  have same: "hptr (umem s2) k = hptr ?m k" "hsize (umem s2) k = hsize ?m k" if "k \<in> set (base s # bs)" for k
  proof -
    have "apart ?h k" "placed k" using low [OF that] ring_placed [OF r that] by (auto simp: apart_def)
    then show "hptr (umem s2) k = hptr ?m k" "hsize (umem s2) k = hsize ?m k" using plh by (simp_all add: s2_def s1_def)
  qed
  have heap2: "base s2 = base s" "brk s2 = brk s1" "freep s2 = freep s" by (simp_all add: s2_def s1_def)
  have sps: "space (umem s2) bs = space ?m bs" using same(2) by (intro space_cong) simp
  have hk2: "heap_ok s2" using hk top b1 mb(4) heap2 by (auto simp: heap_ok_def)
  have r2: "ring_inv s2 bs"
  proof -
    have "chain (umem s2) (base s) bs (base s)" by (rule chain_same [of ?m]) (use r same in \<open>auto simp: ring_inv_def\<close>)
    moreover have "spaced (umem s2) (base s) bs" by (rule spaced_same [of ?m]) (use r same in \<open>auto simp: ring_inv_def\<close>)
    moreover have "node_ok s2 k" if "k \<in> set bs" for k
      using r same(2) [of k] that b1 heap2(2) by (auto simp: ring_inv_def node_ok_def span_def)
    ultimately show ?thesis using hk2 r same(2) [of "base s"] heap2 by (simp add: ring_inv_def)
  qed
  have eh: "extent (umem s2) ?h = {unat ?h ..< unat ?h + 16 * unat ?n}" using hs by (simp add: extent_def span_def)
  have sub: "extent (umem s2) ?h \<subseteq> {unat ?h ..< unat (brk s1)}" using eh mb(1) b1 by auto
  have below: "space ?m bs \<subseteq> {..<unat ?h}"
  proof -
    have "extent ?m k \<subseteq> {..<unat ?h}" if "k \<in> set bs" for k
      using that r extent_below [of ?m k "unat ?h"] by (simp add: ring_inv_def node_ok_def)
    then show ?thesis unfolding space_def by blast
  qed
  have b2: "block_ok s2 bs ?h"
    using hs mb(1,6) b1 heap2 hk eh below sps by (auto simp: block_ok_def node_ok_def heap_ok_def span_def)
  obtain s' bs' where f: "free (?h + 16) s2 = Some s'" "ring_inv s' bs'" "brk s' = brk s2" "base s' = base s2"
      "space (umem s') bs' = extent (umem s2) ?h \<union> space (umem s2) bs"
      "keeps s2 (extent (umem s2) ?h \<union> space (umem s2) bs) (umem s')" "\<exists>k \<in> set bs'. hsize (umem s2) ?h \<le> hsize (umem s') k"
    using free_ok [OF r2 b2] by blast
  have "?h \<noteq> -1" using hk unfolding heap_ok_def by (auto simp: unsigned_minus_1_eq_mask mask_eq_exp_minus_1)
  then have "morecore grow nu s = Some (freep s', s')"
    using sb f(1) by (simp add: morecore_def more_units_def [symmetric] Let_def s2_def s1_def)
  moreover have "freep s' \<noteq> 0"
  proof -
    have "freep s' \<in> set (base s' # bs')" "0 < unat (base s')" "spaced (umem s') (base s') bs'"
      using f(2) by (auto simp: ring_inv_def heap_ok_def)
    then have "0 < unat (freep s')" using spaced_less by fastforce
    then show ?thesis by auto
  qed
  moreover have "keeps s (space ?m bs \<union> {unat ?h ..< unat (brk s')}) (umem s')"
    unfolding keeps_def
  proof (intro allI impI)
    fix b :: u64 assume b: "unat b \<notin> space ?m bs \<union> {unat ?h ..< unat (brk s')}" "unat b \<notin> {unat (base s) ..< unat (base s) + 16}"
    then have "umem s' b = umem s2 b" using f(3,6) sub sps heap2 by (auto simp: keeps_def)
    moreover have "unat b < unat ?h \<or> unat ?h + 16 \<le> unat b"
    proof -
      have "0 < unat ?n" using mb(6) by (simp add: unat_gt_0)
      then show ?thesis using b(1) f(3) heap2 b1 mb(1) by auto
    qed
    then have "umem s2 b = ?m b" using plh by (simp add: s2_def set_hsize_frame)
    ultimately show "umem s' b = ?m b" by simp
  qed
  moreover have "\<exists>k \<in> set bs'. nu \<le> hsize (umem s') k"
  proof -
    obtain k where k: "k \<in> set bs'" "?n \<le> hsize (umem s') k" using f(7) hs by auto
    have "nu \<le> hsize (umem s') k" by (rule order_trans [OF mb(5) k(2)])
    then show ?thesis using k(1) by blast
  qed
  moreover have "base s' = base s" "unat ?h \<le> unat (brk s')" using f(3,4) heap2 b1 by simp_all
  moreover have "space (umem s') bs' \<subseteq> space ?m bs \<union> {unat ?h ..< unat (brk s')}"
  proof -
    have "space (umem s') bs' = extent (umem s2) ?h \<union> space ?m bs" using f(5) sps by simp
    moreover have "extent (umem s2) ?h \<subseteq> {unat ?h ..< unat (brk s')}" using sub f(3) heap2(2) by simp
    ultimately show ?thesis by (metis Un_commute Un_mono order_refl)
  qed
  ultimately show ?thesis using f(2) by blast
qed

section \<open>What malloc does\<close>

lemma malloc_units_ok:
  assumes "unat nbytes \<le> 2 ^ 30"
  shows "unat (malloc_units nbytes) = (unat nbytes + 15) div 16 + 1" "malloc_units nbytes \<noteq> 0" "unat (malloc_units nbytes) \<le> 2 ^ 26 + 2"
proof -
  have "unat ((ucast nbytes + 15 :: u64) div 16 + 1) = (unat nbytes + 15) div 16 + 1"
    using assms by (simp add: unat_word_ariths unat_div)
  moreover have "(unat nbytes + 15) div 16 + 1 \<le> 2 ^ 26 + 2"
    using assms div_le_mono [of "unat nbytes + 15" "2 ^ 30 + 15" 16] by simp
  ultimately show u: "unat (malloc_units nbytes) = (unat nbytes + 15) div 16 + 1" "unat (malloc_units nbytes) \<le> 2 ^ 26 + 2"
    unfolding malloc_units_def by (simp_all add: unsigned_ucast_eq take_bit_nat_eq_self)
  show "malloc_units nbytes \<noteq> 0"
  proof
    assume "malloc_units nbytes = 0"
    then show False using u(1) by simp
  qed
qed

lemma loop_ok:
  assumes r: "ring_inv s bs" and n: "n \<noteq> 0" and some: "\<exists>k \<in> set bs. n \<le> hsize (umem s) k"
  shows "\<exists>q s' bs'. malloc_loop grow n (freep s) (hptr (umem s) (freep s)) s = Some (q + 16, s') \<and>
    taken s (space (umem s) bs) n q s' bs' \<and> brk s' = brk s \<and> keeps s (space (umem s) bs) (umem s')"
proof -
  have c: "chain (umem s) (base s) bs (base s)" "freep s \<in> set (base s # bs)" using r by (auto simp: ring_inv_def)
  obtain cs where cs: "chain (umem s) (freep s) cs (freep s)" "set (freep s # cs) = set (base s # bs)" "freep s \<notin> set cs"
    using rotate [OF c ring_distinct [OF r]] by blast
  have "\<exists>k \<in> set (cs @ [freep s]). n \<le> hsize (umem s) k" using some cs(2) by auto
  then obtain prevp p where p: "prevp \<in> set (freep s # cs)" "hptr (umem s) prevp = p" "n \<le> hsize (umem s) p"
      "malloc_loop grow n (freep s) (hptr (umem s) (freep s)) s = Some (take_block n prevp p s)"
    using walk_found [OF cs(1,3), of n grow] by blast
  show ?thesis using take_block_ok [OF r _ p(2,3) n] p(1,4) cs(2) by auto
qed

text \<open>A call of \<open>malloc\<close> from a state with the free list \<open>bs\<close>.\<close>

definition malloc_result :: "(u64 \<Rightarrow> u32 \<Rightarrow> bool) \<Rightarrow> u32 \<Rightarrow> uheap \<Rightarrow> u64 list \<Rightarrow> u64 \<Rightarrow> uheap \<Rightarrow> bool" where
  "malloc_result grow n s bs r s' \<longleftrightarrow>
     r = 0 \<and> s' = s \<and> \<not> grow (brk s) (more_bytes n) \<or>
     (\<exists>q bs' free0. r = q + 16 \<and> taken s free0 n q s' bs' \<and> unat (brk s) \<le> unat (brk s') \<and>
        free0 \<subseteq> space (umem s) bs \<union> {unat (brk s) ..< unat (brk s')} \<and>
        keeps s (space (umem s) bs \<union> {unat (brk s) ..< unat (brk s')}) (umem s'))"

lemma malloc_loop_ok:
  assumes r: "ring_inv s bs" and n: "n \<noteq> 0" "unat n \<le> 2 ^ 26 + 2" and gr: "bounded grow"
  shows "\<exists>r s'. malloc_loop grow n (freep s) (hptr (umem s) (freep s)) s = Some (r, s') \<and> malloc_result grow n s bs r s'"
proof (cases "\<exists>k \<in> set bs. n \<le> hsize (umem s) k")
  case True
  obtain q s' bs' where q: "malloc_loop grow n (freep s) (hptr (umem s) (freep s)) s = Some (q + 16, s')"
      "taken s (space (umem s) bs) n q s' bs'" "brk s' = brk s" "keeps s (space (umem s) bs) (umem s')"
    using loop_ok [OF r n(1) True] by blast
  have "malloc_result grow n s bs (q + 16) s'"
    unfolding malloc_result_def using q(2-4) by (intro disjI2 exI [of _ q] exI [of _ bs'] exI [of _ "space (umem s) bs"]) auto
  then show ?thesis using q(1) by blast
next
  case False
  have c: "chain (umem s) (base s) bs (base s)" "freep s \<in> set (base s # bs)" "hsize (umem s) (base s) = 0"
    using r by (auto simp: ring_inv_def)
  obtain cs where cs: "chain (umem s) (freep s) cs (freep s)" "set (freep s # cs) = set (base s # bs)" "freep s \<notin> set cs"
    using rotate [OF c(1,2) ring_distinct [OF r]] by blast
  have "\<not> n \<le> hsize (umem s) (base s)" using c(3) n(1) by simp
  then have none: "\<not> (\<exists>k \<in> set (cs @ [freep s]). n \<le> hsize (umem s) k)" using False cs(2) by auto
  note w = walk_none [OF cs(1,3) none, of grow]
  consider (no) "\<not> grow (brk s) (more_bytes n)" "morecore grow n s = Some (0, s)"
    | (more) s1 bs1 where "morecore grow n s = Some (freep s1, s1)" "freep s1 \<noteq> 0" "ring_inv s1 bs1" "base s1 = base s"
        "unat (brk s) \<le> unat (brk s1)" "space (umem s1) bs1 \<subseteq> space (umem s) bs \<union> {unat (brk s) ..< unat (brk s1)}"
        "keeps s (space (umem s) bs \<union> {unat (brk s) ..< unat (brk s1)}) (umem s1)" "\<exists>k \<in> set bs1. n \<le> hsize (umem s1) k"
    using morecore_ok [OF r n(2) gr] by blast
  then show ?thesis
  proof cases
    case no
    then show ?thesis using w by (intro exI [of _ 0] exI [of _ s]) (simp add: malloc_result_def)
  next
    case more
    obtain q s' bs' where q: "malloc_loop grow n (freep s1) (hptr (umem s1) (freep s1)) s1 = Some (q + 16, s')"
        "taken s1 (space (umem s1) bs1) n q s' bs'" "brk s' = brk s1" "keeps s1 (space (umem s1) bs1) (umem s')"
      using loop_ok [OF more(3) n(1) more(8)] by blast
    have "keeps s (space (umem s) bs \<union> {unat (brk s) ..< unat (brk s')}) (umem s')"
      using q(3,4) more(4,6,7) unfolding keeps_def by (metis (no_types, lifting) subsetD)
    moreover have "taken s (space (umem s1) bs1) n q s' bs'" using q(2) more(4) by (simp add: taken_def)
    ultimately have "malloc_result grow n s bs (q + 16) s'"
      unfolding malloc_result_def using q(3) more(5,6) by (intro disjI2 exI [of _ q] exI [of _ bs'] exI [of _ "space (umem s1) bs1"]) simp
    then show ?thesis using w more(1,2) q(1) by auto
  qed
qed

section \<open>Programs over the allocator\<close>

text \<open>
  What a program can do: allocate up to a gigabyte, give back what it holds, and write into what it holds. \<open>A\<close> lists
  the pointers it holds with the sizes it asked for.
\<close>

inductive heap_run :: "(u64 \<Rightarrow> u32 \<Rightarrow> bool) \<Rightarrow> uheap \<Rightarrow> (u64 \<times> u32) list \<Rightarrow> bool" for grow where
  run_start: "heap_ok s \<Longrightarrow> freep s = 0 \<Longrightarrow> heap_run grow s []"
| run_malloc: "heap_run grow s A \<Longrightarrow> unat n \<le> 2 ^ 30 \<Longrightarrow> malloc grow n s = Some (r, s') \<Longrightarrow>
    heap_run grow s' (if r = 0 then A else (r, n) # A)"
| run_free: "heap_run grow s A \<Longrightarrow> (r, n) \<in> set A \<Longrightarrow> free r s = Some s' \<Longrightarrow> heap_run grow s' (remove1 (r, n) A)"
| run_write: "heap_run grow s A \<Longrightarrow> (r, n) \<in> set A \<Longrightarrow> i < unat n \<Longrightarrow>
    heap_run grow (s\<lparr>umem := (umem s)(r + of_nat i := v)\<rparr>) A"

definition owned :: "uheap \<Rightarrow> u64 list \<Rightarrow> u64 \<times> u32 \<Rightarrow> bool" where
  "owned s bs = (\<lambda>(r, n). block_ok s bs (r - 16) \<and> hsize (umem s) (r - 16) = malloc_units n \<and> unat n \<le> 2 ^ 30)"

definition held :: "memory \<Rightarrow> u64 \<times> u32 \<Rightarrow> nat set" where "held m = (\<lambda>(r, n). extent m (r - 16))"

definition holds :: "uheap \<Rightarrow> u64 list \<Rightarrow> (u64 \<times> u32) list \<Rightarrow> bool" where
  "holds s bs A \<longleftrightarrow> ring_inv s bs \<and> (\<forall>x \<in> set A. owned s bs x) \<and> sorted_wrt (\<lambda>x y. held (umem s) x \<inter> held (umem s) y = {}) A"

definition run_inv :: "uheap \<Rightarrow> (u64 \<times> u32) list \<Rightarrow> bool" where
  "run_inv s A \<longleftrightarrow> heap_ok s \<and> freep s = 0 \<and> A = [] \<or> (\<exists>bs. holds s bs A)"

lemma block_bounds:
  assumes "block_ok s bs h" and "heap_ok s"
  shows "placed h" "16 \<le> span (umem s) h" "unat h + span (umem s) h \<le> unat (brk s)" "unat (base s) + 16 \<le> unat h"
  using assms span_pos [of "umem s" h] by (auto simp: block_ok_def node_ok_def heap_ok_def placed_def)

text \<open>Blocks outside the changed bytes stay what they are.\<close>

lemma owned_stable:
  assumes own: "owned s bs x" and h: "heap_ok s" and k: "keeps s X (umem s')" and dis: "held (umem s) x \<inter> X = {}"
    and new: "space (umem s') bs' \<subseteq> X" "base s' = base s" "unat (brk s) \<le> unat (brk s')"
  shows "owned s' bs' x" and "held (umem s') x = held (umem s) x"
proof -
  obtain r n where x: "x = (r, n)" by (cases x)
  have b: "block_ok s bs (r - 16)" "hsize (umem s) (r - 16) = malloc_units n" "unat n \<le> 2 ^ 30" using own x by (auto simp: owned_def)
  note bb = block_bounds [OF b(1) h]
  have "hsize (umem s') (r - 16) = hsize (umem s) (r - 16)"
  proof (rule header_cong(2) [OF bb(1)])
    fix a :: u64 assume a: "unat (r - 16) \<le> unat a" "unat a < unat (r - 16) + 16"
    then have "unat a \<in> held (umem s) x" using bb(2) by (auto simp: held_def extent_def x)
    then show "umem s' a = umem s a" using k dis bb(4) a(1) by (auto simp: keeps_def)
  qed
  then have hs: "hsize (umem s') (r - 16) = hsize (umem s) (r - 16)" .
  then show e: "held (umem s') x = held (umem s) x" by (simp add: held_def x extent_def span_def)
  have "extent (umem s') (r - 16) = extent (umem s) (r - 16)" using hs by (simp add: extent_def span_def)
  then have "extent (umem s') (r - 16) \<inter> space (umem s') bs' = {}" using dis new(1) by (auto simp: held_def x)
  then show "owned s' bs' x" using b hs new(2,3) by (auto simp: owned_def x block_ok_def node_ok_def span_def)
qed

lemma holds_stable:
  assumes own: "\<forall>x \<in> set A. owned s bs x" "sorted_wrt (\<lambda>x y. held (umem s) x \<inter> held (umem s) y = {}) A"
    and h: "heap_ok s" and k: "keeps s X (umem s')" and dis: "\<And>x. x \<in> set A \<Longrightarrow> held (umem s) x \<inter> X = {}"
    and new: "ring_inv s' bs'" "space (umem s') bs' \<subseteq> X" "base s' = base s" "unat (brk s) \<le> unat (brk s')"
  shows "holds s' bs' A"
proof -
  have o: "owned s' bs' x" "held (umem s') x = held (umem s) x" if "x \<in> set A" for x
    using owned_stable [OF bspec [OF own(1) that] h k dis [OF that] new(2-4)] by auto
  have "sorted_wrt (\<lambda>x y. held (umem s') x \<inter> held (umem s') y = {}) A"
    by (rule sorted_wrt_mono_rel [OF _ own(2)]) (simp add: o(2))
  then show ?thesis using o(1) new(1) by (simp add: holds_def)
qed

lemma ring_freep: "ring_inv s bs \<Longrightarrow> freep s \<noteq> 0"
proof -
  assume "ring_inv s bs"
  then have "freep s \<in> set (base s # bs)" "0 < unat (base s)" "spaced (umem s) (base s) bs"
    by (auto simp: ring_inv_def heap_ok_def)
  then have "0 < unat (freep s)" using spaced_less by fastforce
  then show ?thesis by auto
qed

lemma owned_free_space: "owned s bs x \<Longrightarrow> held (umem s) x \<inter> (space (umem s) bs \<union> {unat (brk s) ..< e}) = {}"
  by (auto simp: owned_def held_def block_ok_def node_ok_def extent_def)

lemma holds_heap: "run_inv s A \<Longrightarrow> heap_ok s"
  by (auto simp: run_inv_def holds_def ring_inv_def)

text \<open>What the first lines of \<open>malloc\<close> leave.\<close>

lemma malloc_start:
  assumes "run_inv s A"
  shows "\<exists>bs. holds (if freep s = 0 then s\<lparr>umem := set_hsize (base s) 0 (set_hptr (base s) (base s) (umem s)), freep := base s\<rparr> else s) bs A"
proof (cases "freep s = 0")
  case True
  then have A: "A = []" and h: "heap_ok s" using assms ring_freep by (auto simp: run_inv_def holds_def)
  then have "placed (base s)" by (simp add: heap_ok_def placed_def)
  then show ?thesis using True A h by (intro exI [of _ "[]"]) (simp add: holds_def ring_inv_def heap_ok_def)
qed (use assms in \<open>auto simp: run_inv_def\<close>)

text \<open>What \<open>malloc\<close> makes of the blocks a program holds.\<close>

lemma malloc_run:
  assumes inv: "run_inv s A" and n: "unat n \<le> 2 ^ 30" and gr: "bounded grow"
  shows "\<exists>r s'. malloc grow n s = Some (r, s') \<and> run_inv s' (if r = 0 then A else (r, n) # A) \<and>
    (r = 0 \<longrightarrow> \<not> grow (brk s) (more_bytes (malloc_units n))) \<and>
    (\<forall>x \<in> set A. \<forall>b. unat b \<in> held (umem s) x \<longrightarrow> umem s' b = umem s b)"
proof -
  define s1 where "s1 = (if freep s = 0 then s\<lparr>umem := set_hsize (base s) 0 (set_hptr (base s) (base s) (umem s)), freep := base s\<rparr> else s)"
  obtain bs where hb: "holds s1 bs A" using malloc_start [OF inv] unfolding s1_def by blast
  then have r1: "ring_inv s1 bs" and own: "\<forall>x \<in> set A. owned s1 bs x"
    and pw: "sorted_wrt (\<lambda>x y. held (umem s1) x \<inter> held (umem s1) y = {}) A" by (auto simp: holds_def)
  have h1: "heap_ok s1" using r1 by (simp add: ring_inv_def)
  have e1: "brk s1 = brk s" "base s1 = base s" by (simp_all add: s1_def)
  have same: "s1 = s" if "A \<noteq> []"
    using inv that ring_freep by (auto simp: s1_def run_inv_def holds_def)
  note u = malloc_units_ok [OF n]
  obtain r s' where r: "malloc_loop grow (malloc_units n) (freep s1) (hptr (umem s1) (freep s1)) s1 = Some (r, s')"
      "malloc_result grow (malloc_units n) s1 bs r s'"
    using malloc_loop_ok [OF r1 u(2,3) gr] by blast
  have m: "malloc grow n s = Some (r, s')" using r(1) by (simp add: malloc_def s1_def Let_def)
  consider (no) "r = 0" "s' = s1" "\<not> grow (brk s) (more_bytes (malloc_units n))"
    | (yes) q bs' free0 where "r = q + 16" "taken s1 free0 (malloc_units n) q s' bs'" "unat (brk s1) \<le> unat (brk s')"
        "free0 \<subseteq> space (umem s1) bs \<union> {unat (brk s1) ..< unat (brk s')}"
        "keeps s1 (space (umem s1) bs \<union> {unat (brk s1) ..< unat (brk s')}) (umem s')"
    using r(2) e1 by (auto simp: malloc_result_def)
  then show ?thesis
  proof cases
    case no
    have "run_inv s' A" using hb no(2) by (auto simp: run_inv_def)
    moreover have "\<forall>x \<in> set A. \<forall>b. unat b \<in> held (umem s) x \<longrightarrow> umem s' b = umem s b"
      using same no(2) by (cases "A = []") simp_all
    ultimately show ?thesis using m no by (intro exI [of _ r] exI [of _ s']) simp
  next
    case yes
    let ?X = "space (umem s1) bs \<union> {unat (brk s1) ..< unat (brk s')}"
    have t: "ring_inv s' bs'" "base s' = base s1" "hsize (umem s') q = malloc_units n" "node_ok s' q" "unat (base s1) + 16 \<le> unat q"
        "space (umem s') bs' \<union> extent (umem s') q = free0" "space (umem s') bs' \<inter> extent (umem s') q = {}"
      using yes(2) by (simp_all add: taken_def)
    have dis: "held (umem s1) x \<inter> ?X = {}" if "x \<in> set A" for x using owned_free_space own that by blast
    have sub: "space (umem s') bs' \<subseteq> ?X" "extent (umem s') q \<subseteq> ?X" using t(6) yes(4) by auto
    have A': "holds s' bs' A" by (rule holds_stable [OF own pw h1 yes(5) dis t(1) sub(1) t(2) yes(3)])
    have q: "owned s' bs' (q + 16, n)" using t n by (auto simp: owned_def block_ok_def)
    have held_same: "held (umem s') x = held (umem s1) x" if "x \<in> set A" for x
      using owned_stable(2) [OF bspec [OF own that] h1 yes(5) dis [OF that] sub(1) t(2) yes(3)] .
    have "held (umem s') (q + 16, n) \<inter> held (umem s') x = {}" if "x \<in> set A" for x
      using held_same [OF that] dis [OF that] sub(2) by (auto simp: held_def)
    then have "holds s' bs' ((q + 16, n) # A)" using A' q by (auto simp: holds_def)
    moreover have "q + 16 \<noteq> 0"
    proof -
      have "placed q" using t(1,4) span_pos [of "umem s'" q] by (auto simp: node_ok_def ring_inv_def heap_ok_def placed_def)
      then have "unat (q + 16) \<noteq> 0" by (simp add: plus_16)
      then show ?thesis by auto
    qed
    moreover have "umem s' b = umem s b" if x: "x \<in> set A" "unat b \<in> held (umem s) x" for x b
    proof -
      have s: "s1 = s" using x(1) same by force
      have o: "block_ok s1 bs (fst x - 16)" using own x(1) by (auto simp: owned_def)
      have "unat b \<notin> {unat (base s1) ..< unat (base s1) + 16}"
        using x(2) block_bounds(4) [OF o h1] s by (cases x) (auto simp: held_def extent_def)
      moreover have "unat b \<notin> ?X" using dis [OF x(1)] x(2) s by auto
      ultimately show ?thesis using yes(5) s by (simp add: keeps_def)
    qed
    ultimately show ?thesis using m yes(1) by (intro exI [of _ r] exI [of _ s']) (auto simp: run_inv_def)
  qed
qed

lemma sorted_wrt_remove1: "sorted_wrt P xs \<Longrightarrow> sorted_wrt P (remove1 x xs)"
  by (induction xs) (auto dest: notin_set_remove1 intro: set_remove1_subset [THEN subsetD])

lemma held_pairwise:
  assumes "sorted_wrt (\<lambda>x y. held m x \<inter> held m y = {}) A" and "x \<in> set A" and "y \<in> set (remove1 x A)"
  shows "held m x \<inter> held m y = {}"
proof -
  obtain us vs where A: "A = us @ x # vs" "x \<notin> set us" using split_list_first [OF assms(2)] by blast
  then have "y \<in> set us \<or> y \<in> set vs" using assms(3) by (auto simp: remove1_append)
  then show ?thesis using assms(1) A(1) by (auto simp: sorted_wrt_append)
qed

lemma free_run:
  assumes inv: "run_inv s A" and x: "(r, n) \<in> set A"
  shows "\<exists>s'. free r s = Some s' \<and> run_inv s' (remove1 (r, n) A) \<and>
    (\<forall>y \<in> set (remove1 (r, n) A). \<forall>b. unat b \<in> held (umem s) y \<longrightarrow> umem s' b = umem s b)"
proof -
  obtain bs where hb: "holds s bs A" using inv x by (auto simp: run_inv_def)
  then have rg: "ring_inv s bs" and own: "\<forall>y \<in> set A. owned s bs y"
    and pw: "sorted_wrt (\<lambda>x y. held (umem s) x \<inter> held (umem s) y = {}) A" by (auto simp: holds_def)
  have h: "heap_ok s" using rg by (simp add: ring_inv_def)
  have b: "block_ok s bs (r - 16)" using own x by (auto simp: owned_def)
  let ?X = "extent (umem s) (r - 16) \<union> space (umem s) bs" and ?A = "remove1 (r, n) A"
  obtain s' bs' where f: "free r s = Some s'" "ring_inv s' bs'" "brk s' = brk s" "base s' = base s" "space (umem s') bs' = ?X"
      "keeps s ?X (umem s')"
    using free_ok [OF rg b] by auto
  have sub: "set ?A \<subseteq> set A" by (rule set_remove1_subset)
  have dis: "held (umem s) y \<inter> ?X = {}" if "y \<in> set ?A" for y
  proof -
    have "owned s bs y" using that sub own by blast
    then have "held (umem s) y \<inter> space (umem s) bs = {}" using owned_free_space [of s bs y "unat (brk s)"] by simp
    moreover have "held (umem s) (r, n) \<inter> held (umem s) y = {}" by (rule held_pairwise [OF pw x that])
    ultimately show ?thesis by (auto simp: held_def)
  qed
  have own': "\<forall>y \<in> set ?A. owned s bs y" using own sub by blast
  have "holds s' bs' ?A"
    by (rule holds_stable [OF own' sorted_wrt_remove1 [OF pw] h f(6) dis f(2)]) (simp_all add: f)
  moreover have "umem s' b = umem s b" if "y \<in> set ?A" "unat b \<in> held (umem s) y" for y b
  proof -
    have "block_ok s bs (fst y - 16)" using own' that(1) by (auto simp: owned_def)
    then have "unat b \<notin> {unat (base s) ..< unat (base s) + 16}"
      using that(2) block_bounds(4) [OF _ h] by (cases y) (fastforce simp: held_def extent_def)
    then show ?thesis using f(6) dis [OF that(1)] that(2) by (auto simp: keeps_def)
  qed
  ultimately show ?thesis using f(1) by (auto simp: run_inv_def)
qed

lemma header_upd:
  assumes "placed k" and "unat a < unat k \<or> unat k + 16 \<le> unat a"
  shows "hptr (m(a := v)) k = hptr m k" "hsize (m(a := v)) k = hsize m k"
proof -
  have "(m(a := v)) b = m b" if "unat k \<le> unat b" "unat b < unat k + 16" for b using that assms(2) by auto
  then show "hptr (m(a := v)) k = hptr m k" "hsize (m(a := v)) k = hsize m k" using header_cong [OF assms(1)] by blast+
qed

text \<open>The payload of a block, seen from its pointer.\<close>

lemma payload:
  assumes "owned s bs (p, c)" and "heap_ok s"
  shows "unat p = unat (p - 16) + 16" "16 + unat c \<le> span (umem s) (p - 16)" "unat (base s) + 32 \<le> unat p"
    "unat p + unat c \<le> unat (brk s)" "16 dvd unat p" "hsize (umem s) (p - 16) \<noteq> 0"
    "i < unat c \<Longrightarrow> unat (p + of_nat i) = unat p + i \<and> unat (p + of_nat i) \<in> held (umem s) (p, c)"
proof -
  have o: "block_ok s bs (p - 16)" "hsize (umem s) (p - 16) = malloc_units c" "unat c \<le> 2 ^ 30"
    using assms(1) by (auto simp: owned_def)
  note bb = block_bounds [OF o(1) assms(2)]
  show u: "unat p = unat (p - 16) + 16" using plus_16 [OF bb(1)] by simp
  have "span (umem s) (p - 16) = 16 * ((unat c + 15) div 16 + 1)" using malloc_units_ok(1) [OF o(3)] o(2) by (simp add: span_def)
  then show sz: "16 + unat c \<le> span (umem s) (p - 16)" using dividend_less_div_times [of 16 "unat c + 15"] by simp
  show top: "unat (base s) + 32 \<le> unat p" "unat p + unat c \<le> unat (brk s)" "16 dvd unat p" "hsize (umem s) (p - 16) \<noteq> 0"
    using u sz bb(3,4) o(1) by (auto simp: block_ok_def node_ok_def)
  assume i: "i < unat c"
  have "unat (p + of_nat i) = unat p + i" using i top(2) assms(2) by (intro unat_add_small) (simp add: heap_ok_def)
  then show "unat (p + of_nat i) = unat p + i \<and> unat (p + of_nat i) \<in> held (umem s) (p, c)"
    using u sz i by (simp add: held_def extent_def)
qed

lemma write_run:
  assumes inv: "run_inv s A" and x: "(r, n) \<in> set A" and i: "i < unat n"
  shows "run_inv (s\<lparr>umem := (umem s)(r + of_nat i := v)\<rparr>) A"
proof -
  obtain bs where hb: "holds s bs A" using inv x by (auto simp: run_inv_def)
  then have rg: "ring_inv s bs" and own: "\<forall>y \<in> set A. owned s bs y"
    and pw: "sorted_wrt (\<lambda>x y. held (umem s) x \<inter> held (umem s) y = {}) A" by (auto simp: holds_def)
  have h: "heap_ok s" using rg by (simp add: ring_inv_def)
  have ow: "owned s bs (r, n)" using own x by blast
  then have b: "block_ok s bs (r - 16)" by (simp add: owned_def)
  note bb = block_bounds [OF b h] and pay = payload [OF ow h]
  define a where "a = r + of_nat i"
  have ua: "unat a = unat (r - 16) + 16 + i" unfolding a_def using pay(1) pay(7) [OF i] by presburger
  have in_x: "unat a \<in> held (umem s) (r, n)" unfolding a_def using pay(7) [OF i] by (rule conjunct2)
  let ?m' = "(umem s)(a := v)" and ?s = "s\<lparr>umem := (umem s)(a := v)\<rparr>"
  note same = header_upd [of _ a "umem s" v]
  have out: "unat a < unat k \<or> unat k + 16 \<le> unat a" if k: "unat a \<notin> extent (umem s) k" "16 \<le> span (umem s) k" for k
    using k by (auto simp: extent_def)
  have ring: "hptr ?m' k = hptr (umem s) k" "hsize ?m' k = hsize (umem s) k" if k: "k \<in> set (base s # bs)" for k
  proof -
    have "unat a < unat k \<or> unat k + 16 \<le> unat a"
    proof (cases "k = base s")
      case False
      have "extent (umem s) (r - 16) \<inter> space (umem s) bs = {}" using b by (simp add: block_ok_def)
      moreover have "k \<in> set bs" using False k by simp
      ultimately have "unat a \<notin> extent (umem s) k" using in_x by (auto simp: held_def space_def)
      moreover have "16 \<le> span (umem s) k" using rg \<open>k \<in> set bs\<close> span_pos by (auto simp: ring_inv_def node_ok_def)
      ultimately show ?thesis by (rule out)
    qed (use bb(4) ua in auto)
    then show "hptr ?m' k = hptr (umem s) k" "hsize ?m' k = hsize (umem s) k" using same ring_placed [OF rg k] by auto
  qed
  have r': "ring_inv ?s bs"
  proof -
    have "chain ?m' (base s) bs (base s)" by (rule chain_same [of "umem s"]) (use rg ring in \<open>auto simp: ring_inv_def\<close>)
    moreover have "spaced ?m' (base s) bs" by (rule spaced_same [of "umem s"]) (use rg ring in \<open>auto simp: ring_inv_def\<close>)
    moreover have "node_ok ?s k" if "k \<in> set bs" for k
      using rg ring(2) [of k] that by (auto simp: ring_inv_def node_ok_def span_def)
    ultimately show ?thesis using rg ring(2) [of "base s"] by (simp add: ring_inv_def heap_ok_def)
  qed
  have sps: "space ?m' bs = space (umem s) bs" using ring(2) by (intro space_cong) simp
  have o: "owned ?s bs y \<and> held ?m' y = held (umem s) y" if y: "y \<in> set A" for y
  proof -
    obtain q k where yq: "y = (q, k)" by (cases y)
    have oy: "block_ok s bs (q - 16)" using own y yq by (auto simp: owned_def)
    note by' = block_bounds [OF oy h]
    have "unat a < unat (q - 16) \<or> unat (q - 16) + 16 \<le> unat a"
    proof (cases "y = (r, n)")
      case True
      then show ?thesis using ua yq by simp
    next
      case False
      then have "y \<in> set (remove1 (r, n) A)" using y by simp
      then have "held (umem s) (r, n) \<inter> held (umem s) y = {}" by (rule held_pairwise [OF pw x])
      then have "unat a \<notin> extent (umem s) (q - 16)" using in_x by (auto simp: held_def yq)
      then show ?thesis using by'(2) by (rule out)
    qed
    from same(2) [OF by'(1) this] have "hsize ?m' (q - 16) = hsize (umem s) (q - 16)" .
    then show ?thesis using bspec [OF own y] sps yq
      by (auto simp: owned_def held_def block_ok_def node_ok_def extent_def span_def)
  qed
  have "sorted_wrt (\<lambda>x y. held ?m' x \<inter> held ?m' y = {}) A"
    by (rule sorted_wrt_mono_rel [OF _ pw]) (simp add: o)
  then have "holds ?s bs A" using r' o by (simp add: holds_def)
  then show ?thesis unfolding a_def by (auto simp: run_inv_def)
qed

lemma heap_run_inv:
  assumes "heap_run grow s A" and "bounded grow"
  shows "run_inv s A"
  using assms(1)
proof (induction rule: heap_run.induct)
  case (run_start s)
  then show ?case by (simp add: run_inv_def)
next
  case (run_malloc s A n r s')
  then show ?case using malloc_run [of s A n grow] assms(2) by auto
next
  case (run_free s A r n s')
  then show ?case using free_run [of s A r n] by auto
next
  case (run_write s A r n i v)
  then show ?case using write_run by blast
qed

section \<open>A small heap\<close>

definition demo_heap :: uheap where
  "demo_heap = \<lparr>umem = (\<lambda>_. 0), base = 0x1000, freep = 0, brk = 0x2000\<rparr>"

definition demo_grow :: "u64 \<Rightarrow> u32 \<Rightarrow> bool" where
  "demo_grow b r \<longleftrightarrow> unat b + unat r \<le> 2 ^ 20"

definition demo_list :: memory where
  "demo_list = set_hptr 0x1000 0x2000 (set_hptr 0x2000 0x1000 (set_hsize 0x2000 4096
     (set_hsize 0x1000 0 (set_hptr 0x1000 0x1000 (\<lambda>_. 0)))))"

definition demo_heap1 :: uheap where
  "demo_heap1 = \<lparr>umem = set_hsize 0x11F80 8 (set_hsize 0x2000 4088 demo_list), base = 0x1000, freep = 0x1000, brk = 0x12000\<rparr>"

definition demo_heap2 :: uheap where
  "demo_heap2 = \<lparr>umem = set_hsize 0x11F00 8 (set_hsize 0x2000 4080 (umem demo_heap1)), base = 0x1000, freep = 0x1000, brk = 0x12000\<rparr>"

lemma demo_placed [simp]: "placed 0x1000" "placed 0x2000" "placed 0x11F80" "placed 0x11F00"
  by (simp_all add: placed_def)

lemma demo_apart [simp]: "apart 0x1000 0x2000" "apart 0x2000 0x1000" "apart 0x11F80 0x1000" "apart 0x11F80 0x2000"
  by (simp_all add: apart_def)

lemma demo_units: "malloc_units 100 = 8"
  by (simp add: malloc_units_def)

lemma demo_morecore:
  "morecore demo_grow 8 \<lparr>umem = set_hsize 0x1000 0 (set_hptr 0x1000 0x1000 (\<lambda>_. 0)), base = 0x1000, freep = 0x1000, brk = 0x2000\<rparr> =
    Some (0x1000, \<lparr>umem = demo_list, base = 0x1000, freep = 0x1000, brk = 0x12000\<rparr>)"
proof -
  have r: "(0x10000 + 4095 :: u32) AND NOT 4095 = 0x10000" by simp
  show ?thesis
    by (simp add: morecore_def sbrk_def Let_def demo_grow_def free_def free_search.simps [of "0x2000"] join_next_def join_prev_def hadd_def
      demo_list_def)
qed

lemma demo_malloc1: "malloc demo_grow 100 demo_heap = Some (0x11F90, demo_heap1)"
  unfolding malloc_def demo_units demo_heap_def
  apply (simp add: Let_def)
  apply (subst malloc_loop.simps)
  apply (simp add: demo_morecore)
  apply (subst malloc_loop.simps)
  apply (simp add: demo_list_def demo_heap1_def take_block_def hadd_def Let_def)
  done

lemma demo_malloc2: "malloc demo_grow 100 demo_heap1 = Some (0x11F10, demo_heap2)"
  unfolding malloc_def demo_units demo_heap1_def
  apply (simp add: Let_def)
  apply (subst malloc_loop.simps)
  apply (simp add: demo_list_def demo_heap1_def demo_heap2_def take_block_def hadd_def Let_def)
  done

lemma demo_run: "heap_run demo_grow demo_heap2 [(0x11F10, 100), (0x11F90, 100)]" and demo_bounded: "bounded demo_grow"
proof -
  have "heap_run demo_grow demo_heap []" by (rule run_start) (simp_all add: heap_ok_def demo_heap_def)
  from run_malloc [OF this _ demo_malloc1] have "heap_run demo_grow demo_heap1 [(0x11F90, 100)]" by simp
  from run_malloc [OF this _ demo_malloc2] show "heap_run demo_grow demo_heap2 [(0x11F10, 100), (0x11F90, 100)]" by simp
  show "bounded demo_grow" by (auto simp: bounded_def demo_grow_def)
qed

text \<open>C31: the blocks a program holds never meet: in every reachable state two of them lie apart, header
  included, each inside the heap, behind the static header, and aligned to 16 bytes.\<close>

theorem blocks_apart:
  assumes "heap_run grow s A" and "bounded grow" and "i < j" and "j < length A" and "A ! i = (r, n)" and "A ! j = (q, k)"
  shows "(unat r + unat n \<le> unat q - 16 \<or> unat q + unat k \<le> unat r - 16) \<and>
    unat (base s) + 32 \<le> unat r \<and> unat r + unat n \<le> unat (brk s) \<and> 16 dvd unat r"
proof -
  have inv: "run_inv s A" by (rule heap_run_inv [OF assms(1,2)])
  obtain bs where hb: "holds s bs A" using inv assms(3,4) by (auto simp: run_inv_def)
  have h: "heap_ok s" by (rule holds_heap [OF inv])
  have ri: "(r, n) \<in> set A" "(q, k) \<in> set A" using assms(3-6) nth_mem [of i A] nth_mem [of j A] by auto
  then have ow: "owned s bs (r, n)" "owned s bs (q, k)" using hb by (auto simp: holds_def)
  note p = payload [OF ow(1) h] payload [OF ow(2) h]
  have "held (umem s) (A ! i) \<inter> held (umem s) (A ! j) = {}"
    using hb assms(3,4) by (auto simp: holds_def sorted_wrt_iff_nth_less)
  then have "extent (umem s) (r - 16) \<inter> extent (umem s) (q - 16) = {}" using assms(5,6) by (simp add: held_def)
  then have "unat (r - 16) + span (umem s) (r - 16) \<le> unat (q - 16) \<or> unat (q - 16) + span (umem s) (q - 16) \<le> unat (r - 16)"
    by (rule extent_apart [OF p(6) p(13)])
  then show ?thesis using p(1-5,8-12) by auto
qed

theorem blocks_apart_witness:
  "unat (0x11F10 :: u64) + unat (100 :: u32) \<le> unat (0x11F90 :: u64) - 16 \<and> unat (base demo_heap2) + 32 \<le> unat (0x11F10 :: u64)"
  using blocks_apart [OF demo_run demo_bounded, of 0 1 "0x11F10" 100 "0x11F90" 100] by simp

text \<open>C32: \<open>malloc\<close> and \<open>free\<close> always come back: no reachable state lets their walks of the free list run for
  ever, and \<open>malloc\<close> returns 0 only when the kernel has refused the memory.\<close>

theorem malloc_returns:
  assumes "heap_run grow s A" and "bounded grow" and "unat n \<le> 2 ^ 30"
  shows "(\<exists>r s'. malloc grow n s = Some (r, s') \<and> (r = 0 \<longrightarrow> \<not> grow (brk s) (more_bytes (malloc_units n)))) \<and>
    (\<forall>(r, k) \<in> set A. \<exists>s'. free r s = Some s')"
proof -
  have inv: "run_inv s A" by (rule heap_run_inv [OF assms(1,2)])
  have "\<exists>s'. free r s = Some s'" if "(r, k) \<in> set A" for r k using free_run [OF inv that] by blast
  then show ?thesis using malloc_run [OF inv assms(3,2)] by auto
qed

theorem malloc_returns_witness:
  "(\<exists>r s'. malloc demo_grow 50000 demo_heap2 = Some (r, s') \<and>
      (r = 0 \<longrightarrow> \<not> demo_grow (brk demo_heap2) (more_bytes (malloc_units 50000)))) \<and> (\<exists>s'. free 0x11F90 demo_heap2 = Some s')"
  using malloc_returns [OF demo_run demo_bounded, of 50000] by simp

text \<open>C33: allocating a block, or giving back another one, changes no byte of a block the program holds.\<close>

theorem blocks_kept:
  assumes "heap_run grow s A" and "bounded grow" and "(r, n) \<in> set A" and "i < unat n"
    and "unat k \<le> 2 ^ 30 \<and> malloc grow k s = Some (q, s') \<or> (q, k) \<in> set (remove1 (r, n) A) \<and> free q s = Some s'"
  shows "umem s' (r + of_nat i) = umem s (r + of_nat i)"
proof -
  have inv: "run_inv s A" by (rule heap_run_inv [OF assms(1,2)])
  obtain bs where hb: "holds s bs A" using inv assms(3) by (auto simp: run_inv_def)
  then have "owned s bs (r, n)" using assms(3) by (auto simp: holds_def)
  from payload(7) [OF this holds_heap [OF inv] assms(4)]
  have b: "unat (r + of_nat i) \<in> held (umem s) (r, n)" by blast
  from assms(5) show ?thesis
  proof
    assume "unat k \<le> 2 ^ 30 \<and> malloc grow k s = Some (q, s')"
    then show ?thesis using malloc_run [OF inv _ assms(2), of k] b assms(3) by auto
  next
    assume q: "(q, k) \<in> set (remove1 (r, n) A) \<and> free q s = Some s'"
    have "(r, n) \<in> set (remove1 (q, k) A)"
    proof (cases "(r, n) = (q, k)")
      case True
      then show ?thesis using q by simp
    next
      case False
      then show ?thesis using assms(3) by simp
    qed
    moreover have "(q, k) \<in> set A" using q set_remove1_subset by fastforce
    ultimately show ?thesis using free_run [OF inv, of q k] q b by auto
  qed
qed

theorem blocks_kept_witness:
  "umem demo_heap2 (0x11F90 + of_nat 7) = umem demo_heap1 (0x11F90 + of_nat 7)"
proof -
  have "heap_run demo_grow demo_heap []" by (rule run_start) (simp_all add: heap_ok_def demo_heap_def)
  from run_malloc [OF this _ demo_malloc1] have r: "heap_run demo_grow demo_heap1 [(0x11F90, 100)]" by simp
  show ?thesis using blocks_kept [OF r demo_bounded, of "0x11F90" 100 7 100 "0x11F10" demo_heap2] demo_malloc2 by simp
qed

end
