(* ===== verification/Trap.thy ===== *)
theory Trap
  imports Console Syscall
begin

text \<open>
  The process calls of kernel/sysproc.c, the dispatch of kernel/syscall.c, the interrupt controller of
  kernel/plic.c and the traps of kernel/trap.c. The supervisor registers the trap code reads and writes are
  fields of the state. What the devices say is an argument: the interrupt number that is claimed, the bytes
  that have arrived, and how many bytes the transmitter takes. \<open>disk\<close> is \<open>virtio_disk_intr\<close>, whose descriptors
  are below the disk of the buffer cache. A system call that has given up the CPU, asleep or for good, is \<open>Asleep\<close>; what
  the trap code does when the process has the CPU again is a function of its own.
\<close>

section \<open>State\<close>

record trap_state = console_state +
  stvec :: u64
  sepc :: u64
  scause :: u64
  stval :: u64
  sstatus :: u64
  sip :: u64
  satp :: u64
  mmio :: "(u64 \<times> u32) list"

definition SSTATUS_SPP :: u64 where "SSTATUS_SPP = push_bit 8 1"
definition SSTATUS_SPIE :: u64 where "SSTATUS_SPIE = push_bit 5 1"
definition SSTATUS_SIE :: u64 where "SSTATUS_SIE = push_bit 1 1"

definition intr_on :: "'a trap_state_scheme \<Rightarrow> 'a trap_state_scheme" where
  "intr_on s = s\<lparr>sstatus := sstatus s OR SSTATUS_SIE\<rparr>"

definition intr_off :: "'a trap_state_scheme \<Rightarrow> 'a trap_state_scheme" where
  "intr_off s = s\<lparr>sstatus := sstatus s AND NOT SSTATUS_SIE\<rparr>"

definition intr_get :: "'a trap_state_scheme \<Rightarrow> bool" where
  "intr_get s \<longleftrightarrow> sstatus s AND SSTATUS_SIE \<noteq> 0"

definition MAKE_SATP :: "u64 \<Rightarrow> u64" where
  "MAKE_SATP pagetable = push_bit 60 8 OR drop_bit 12 pagetable"

section \<open>sysproc.c\<close>

definition sys_exit :: "'a kernel_state_scheme \<Rightarrow> (outcome \<times> 'a kernel_state_scheme) option" where
  "sys_exit s = do { n \<leftarrow> argint 0 s; s1 \<leftarrow> exit n s; Some (Asleep 0, s1) }"

definition sys_getpid :: "'a kernel_state_scheme \<Rightarrow> (outcome \<times> 'a kernel_state_scheme) option" where
  "sys_getpid s = do { p \<leftarrow> myproc s; Some (Done (p_pid (procs s ! p)), s) }"

definition sys_fork :: "'a kernel_state_scheme \<Rightarrow> (outcome \<times> 'a kernel_state_scheme) option" where
  "sys_fork s = do { cow_enabled \<leftarrow> argint 0 s; (pid, s1) \<leftarrow> fork cow_enabled s; Some (Done pid, s1) }"

definition sys_wait :: "'a kernel_state_scheme \<Rightarrow> (outcome \<times> 'a kernel_state_scheme) option" where
  "sys_wait s = do { p \<leftarrow> argaddr 0 s; wait p s }"

definition sys_sbrk :: "'a kernel_state_scheme \<Rightarrow> (outcome \<times> 'a kernel_state_scheme) option" where
  "sys_sbrk s = do {
     n \<leftarrow> argint 0 s;
     p \<leftarrow> myproc s;
     let addr = p_sz (procs s ! p);
     (r, s1) \<leftarrow> growproc n s;
     Some (Done (if r < 0 then -1 else uint addr), s1) }"

text \<open>One test of the loop of \<open>sys_sleep\<close>; the comparison of \<open>uint\<close> with \<open>int\<close> is unsigned.\<close>

definition sys_sleep_loop :: "int \<Rightarrow> u32 \<Rightarrow> 'a kernel_state_scheme \<Rightarrow> (outcome \<times> 'a kernel_state_scheme) option" where
  "sys_sleep_loop n ticks0 s =
     (if ticks s - ticks0 < word_of_int n then do {
        p \<leftarrow> myproc s;
        if killed p s \<noteq> 0 then Some (Done (-1), s)
        else do { s1 \<leftarrow> sleep On_ticks s; Some (Asleep (unat ticks0), s1) } }
      else Some (Done 0, s))"

definition sys_sleep :: "'a kernel_state_scheme \<Rightarrow> (outcome \<times> 'a kernel_state_scheme) option" where
  "sys_sleep s = do { n \<leftarrow> argint 0 s; sys_sleep_loop n (ticks s) s }"

definition sys_kill :: "'a kernel_state_scheme \<Rightarrow> (outcome \<times> 'a kernel_state_scheme) option" where
  "sys_kill s = do { pid \<leftarrow> argint 0 s; case kill pid s of (r, s1) \<Rightarrow> Some (Done r, s1) }"

definition sys_uptime :: "'a kernel_state_scheme \<Rightarrow> (outcome \<times> 'a kernel_state_scheme) option" where
  "sys_uptime s = Some (Done (uint (ticks s)), s)"

section \<open>The system call table\<close>

definition returns :: "('s \<Rightarrow> (int \<times> 's) option) \<Rightarrow> 's \<Rightarrow> (outcome \<times> 's) option" where
  "returns f s = do { (r, s1) \<leftarrow> f s; Some (Done r, s1) }"

definition syscalls ::
  "'a kernel_state_scheme dev_op \<Rightarrow> 'a kernel_state_scheme dev_op
     \<Rightarrow> ('a kernel_state_scheme \<Rightarrow> (outcome \<times> 'a kernel_state_scheme) option) option list" where
  "syscalls rd wr =
     [None, Some sys_fork, Some sys_exit, Some sys_wait, Some (returns sys_pipe), Some (sys_read rd), Some sys_kill,
      Some (returns sys_exec), Some (returns sys_fstat), Some (returns sys_chdir), Some (returns sys_dup), Some sys_getpid,
      Some sys_sbrk, Some sys_sleep, Some sys_uptime, Some (returns sys_open), Some (sys_write wr), Some (returns sys_mknod),
      Some (returns sys_unlink), Some (returns sys_link), Some (returns sys_mkdir), Some (returns sys_close)]"

text \<open>\<open>ready\<close>: how many bytes the transmitter takes after each byte written to the console.\<close>

definition syscall :: "(nat \<Rightarrow> nat) \<Rightarrow> 'a console_state_scheme \<Rightarrow> (outcome \<times> 'a console_state_scheme) option" where
  "syscall ready s = do {
     p \<leftarrow> myproc s;
     let num = sint (ucast (get_tf p tf_a7 s) :: u32);
     let table = syscalls devsw_read (devsw_write ready);
     case (if num > 0 \<and> num < int (length table) then table ! nat num else None) of
       Some f \<Rightarrow> do {
         (out, s1) \<leftarrow> f s;
         Some (out, case out of Done r \<Rightarrow> set_tf p tf_a0 (word_of_int r) s1 | Asleep _ \<Rightarrow> s1) }
     | None \<Rightarrow> do {
         pid \<leftarrow> printint digits_kernel (word_of_int (p_pid (procs s ! p))) 10 True;
         n \<leftarrow> printint digits_kernel (word_of_int num) 10 True;
         s1 \<leftarrow> kputs (pid @ [32] @ name_bytes (p_name (procs s ! p)) @ ascii '': unknown sys call '' @ n @ [10]) s;
         Some (Done (-1), set_tf p tf_a0 (-1) s1) } }"

section \<open>plic.c\<close>

definition UART0_IRQ :: u32 where "UART0_IRQ = 10"
definition VIRTIO0_IRQ :: u32 where "VIRTIO0_IRQ = 1"
definition PLIC_SENABLE :: "nat \<Rightarrow> u64" where "PLIC_SENABLE h = PLIC + 0x2080 + of_nat h * 0x100"
definition PLIC_SPRIORITY :: "nat \<Rightarrow> u64" where "PLIC_SPRIORITY h = PLIC + 0x201000 + of_nat h * 0x2000"
definition PLIC_SCLAIM :: "nat \<Rightarrow> u64" where "PLIC_SCLAIM h = PLIC + 0x201004 + of_nat h * 0x2000"

definition plicinit :: "'a trap_state_scheme \<Rightarrow> 'a trap_state_scheme" where
  "plicinit s = s\<lparr>mmio := mmio s @ [(PLIC + ucast UART0_IRQ * 4, 1), (PLIC + ucast VIRTIO0_IRQ * 4, 1)]\<rparr>"

definition plicinithart :: "'a trap_state_scheme \<Rightarrow> 'a trap_state_scheme" where
  "plicinithart s = s\<lparr>mmio := mmio s @
     [(PLIC_SENABLE (hart s), push_bit (unat UART0_IRQ) 1 OR push_bit (unat VIRTIO0_IRQ) 1), (PLIC_SPRIORITY (hart s), 0)]\<rparr>"

definition plic_complete :: "u32 \<Rightarrow> 'a trap_state_scheme \<Rightarrow> 'a trap_state_scheme" where
  "plic_complete irq s = s\<lparr>mmio := mmio s @ [(PLIC_SCLAIM (hart s), irq)]\<rparr>"

section \<open>trap.c\<close>

text \<open>The addresses of kernelvec, and of uservec and userret in the trampoline page.\<close>

record vectors =
  v_kernelvec :: u64
  v_trampoline :: u64
  v_uservec :: u64
  v_userret :: u64
  v_usertrap :: u64

definition trapinithart :: "vectors \<Rightarrow> 'a trap_state_scheme \<Rightarrow> 'a trap_state_scheme" where
  "trapinithart v s = s\<lparr>stvec := v_kernelvec v\<rparr>"

definition clockintr :: "'a kernel_state_scheme \<Rightarrow> 'a kernel_state_scheme" where
  "clockintr s = wakeup On_ticks (s\<lparr>ticks := ticks s + 1\<rparr>)"

text \<open>What the devices say when they are asked.\<close>

record devices =
  dv_irq :: u32
  dv_input :: "u8 list"
  dv_takes :: nat

definition devintr ::
  "devices \<Rightarrow> ('a trap_state_scheme \<Rightarrow> 'a trap_state_scheme option) \<Rightarrow> 'a trap_state_scheme \<Rightarrow> (nat \<times> 'a trap_state_scheme) option" where
  "devintr d disk s =
     (if scause s AND 0x8000000000000000 \<noteq> 0 \<and> scause s AND 0xff = 9 then do {
        let irq = dv_irq d;
        s1 \<leftarrow> (if irq = UART0_IRQ then uartintr (dv_input d) (dv_takes d) s
               else if irq = VIRTIO0_IRQ then disk s
               else if irq \<noteq> 0 then do {
                 n \<leftarrow> printint digits_kernel irq 10 True;
                 kputs (ascii ''unexpected interrupt irq='' @ n @ [10]) s }
               else Some s);
        Some (1, if irq \<noteq> 0 then plic_complete irq s1 else s1) }
      else if scause s = 0x8000000000000001 then
        (let s1 = (if hart s = 0 then clockintr s else s) in Some (2, s1\<lparr>sip := sip s1 AND NOT 2\<rparr>))
      else Some (0, s))"

text \<open>
  The jump into the trampoline: its address and the page table it switches to. The hart number is \<open>tp\<close>.
\<close>

definition usertrapret :: "vectors \<Rightarrow> 'a trap_state_scheme \<Rightarrow> ((u64 \<times> u64) \<times> 'a trap_state_scheme) option" where
  "usertrapret v s = do {
     p \<leftarrow> myproc s;
     let s1 = intr_off s;
     let s2 = s1\<lparr>stvec := TRAMPOLINE + (v_uservec v - v_trampoline v)\<rparr>;
     let s3 = set_tf p 32 (of_nat (hart s2)) (set_tf p 16 (v_usertrap v)
        (set_tf p 8 (p_kstack (procs s2 ! p) + PGSIZE) (set_tf p 0 (satp s2) s2)));
     let s4 = s3\<lparr>sstatus := (sstatus s3 AND NOT SSTATUS_SPP) OR SSTATUS_SPIE\<rparr>;
     let s5 = s4\<lparr>sepc := get_tf p tf_epc s4\<rparr>;
     Some ((TRAMPOLINE + (v_userret v - v_trampoline v), MAKE_SATP (p_pagetable (procs s5 ! p))), s5) }"

text \<open>
  Where the code of a trap stops: back in user space, in \<open>exit\<close>, or off the CPU inside \<open>yield\<close> or inside a system call.
\<close>

datatype trap_end = To_user u64 u64 | Exited | Yielded | Slept

definition go_user :: "vectors \<Rightarrow> 'a trap_state_scheme \<Rightarrow> (trap_end \<times> 'a trap_state_scheme) option" where
  "go_user v s = do { ((pc, pt), s1) \<leftarrow> usertrapret v s; Some (To_user pc pt, s1) }"

definition trap_done ::
  "vectors \<Rightarrow> nat \<Rightarrow> nat \<Rightarrow> 'a trap_state_scheme \<Rightarrow> (trap_end \<times> 'a trap_state_scheme) option" where
  "trap_done v p which_dev s =
     (if killed p s \<noteq> 0 then do { s1 \<leftarrow> exit (-1) s; Some (Exited, s1) }
      else if which_dev = 2 then do { s1 \<leftarrow> yield s; Some (Yielded, s1) }
      else go_user v s)"

text \<open>
  The rest of \<open>usertrap\<close> when the process has the CPU again: after \<open>yield\<close> only \<open>usertrapret\<close>, and after a
  system call that has slept and now ends with the result \<open>r\<close> everything behind \<open>syscall\<close>.
\<close>

definition trap_yielded :: "vectors \<Rightarrow> 'a trap_state_scheme \<Rightarrow> (trap_end \<times> 'a trap_state_scheme) option" where
  "trap_yielded v s = go_user v s"

definition trap_woken :: "vectors \<Rightarrow> nat \<Rightarrow> int \<Rightarrow> 'a trap_state_scheme \<Rightarrow> (trap_end \<times> 'a trap_state_scheme) option" where
  "trap_woken v p r s = trap_done v p 0 (set_tf p tf_a0 (word_of_int r) s)"

definition usertrap ::
  "vectors \<Rightarrow> devices \<Rightarrow> ('a trap_state_scheme \<Rightarrow> 'a trap_state_scheme option) \<Rightarrow> (nat \<Rightarrow> nat) \<Rightarrow> 'a trap_state_scheme
     \<Rightarrow> (trap_end \<times> 'a trap_state_scheme) option" where
  "usertrap v d disk ready s =
     (if sstatus s AND SSTATUS_SPP \<noteq> 0 then None \<comment> \<open>panic usertrap: not from user mode\<close>
      else do {
        p \<leftarrow> myproc s;
        let s1 = set_tf p tf_epc (sepc s) (s\<lparr>stvec := v_kernelvec v\<rparr>);
        let cause = scause s1;
        if cause = 12 \<or> cause = 13 \<or> cause = 15 then do {
          s2 \<leftarrow> page_fault_handler (stval s1) cause s1;
          trap_done v p 0 s2 }
        else if cause = 8 then
          (if killed p s1 \<noteq> 0 then do { s2 \<leftarrow> exit (-1) s1; Some (Exited, s2) }
           else do {
             let s2 = intr_on (set_tf p tf_epc (get_tf p tf_epc s1 + 4) s1);
             (out, s3) \<leftarrow> syscall ready s2;
             case out of Done _ \<Rightarrow> trap_done v p 0 s3 | Asleep _ \<Rightarrow> Some (Slept, s3) })
        else do {
          (which_dev, s2) \<leftarrow> devintr d disk s1;
          if which_dev \<noteq> 0 then trap_done v p which_dev s2
          else do {
            pid \<leftarrow> printint digits_kernel (word_of_int (p_pid (procs s2 ! p))) 10 True;
            s3 \<leftarrow> kputs (ascii ''usertrap(): unexpected scause '' @ printptr digits_kernel cause @ ascii '' pid='' @ pid @ [10] @
                    ascii ''            sepc='' @ printptr digits_kernel (sepc s2) @ ascii '' stval='' @
                    printptr digits_kernel (stval s2) @ [10]) s2;
            trap_done v p 0 (setkilled p s3) } } })"

definition kerneltrap ::
  "devices \<Rightarrow> ('a trap_state_scheme \<Rightarrow> 'a trap_state_scheme option) \<Rightarrow> 'a trap_state_scheme \<Rightarrow> 'a trap_state_scheme option" where
  "kerneltrap d disk s =
     (if sstatus s AND SSTATUS_SPP = 0 then None \<comment> \<open>panic kerneltrap: not from supervisor mode\<close>
      else if intr_get s then None \<comment> \<open>panic kerneltrap: interrupts enabled\<close>
      else do {
        (which_dev, s1) \<leftarrow> devintr d disk s;
        if which_dev = 0 then None \<comment> \<open>panic kerneltrap\<close>
        else do {
          s2 \<leftarrow> (case myproc s1 of
                   Some p \<Rightarrow> if which_dev = 2 \<and> p_state (procs s1 ! p) = RUNNING then yield s1 else Some s1
                 | None \<Rightarrow> Some s1);
          Some (s2\<lparr>sepc := sepc s, sstatus := sstatus s\<rparr>) } })"

section \<open>Returning to user space\<close>

lemma set_tf_same [simp]:
  "sstatus (set_tf p f v s) = sstatus s" "scause (set_tf p f v s) = scause s" "sepc (set_tf p f v s) = sepc s" "stvec (set_tf p f v s) = stvec s"
  "procs (set_tf p f v s) = procs s" "cpus (set_tf p f v s) = cpus s" "hart (set_tf p f v s) = hart s"
  by (simp_all add: set_tf_def)

lemma masked:
  fixes x a b c :: "'w::len word"
  shows "(((x AND NOT a) AND NOT b) OR c) AND b = c AND b" "(((x AND NOT a) AND NOT b) OR c) AND a = c AND a"
    "(((x AND NOT a) AND NOT b) OR c) AND c = c"
  by (rule bit_eqI; auto simp: bit_simps)+

lemma sstatus_bits:
  fixes x :: u64
  defines "y \<equiv> ((x AND NOT SSTATUS_SIE) AND NOT SSTATUS_SPP) OR SSTATUS_SPIE"
  shows "y AND SSTATUS_SPP = 0" "y AND SSTATUS_SPIE \<noteq> 0" "y AND SSTATUS_SIE = 0"
  unfolding y_def masked by (simp_all add: SSTATUS_SPP_def SSTATUS_SPIE_def SSTATUS_SIE_def)

lemma no_outcome: "\<forall>x. a \<noteq> Asleep x \<Longrightarrow> \<forall>x. a \<noteq> Done x \<Longrightarrow> P"
  by (cases a) auto

text \<open>
  A trap of process \<open>p\<close> in the state \<open>s\<close>, over all the times it leaves the CPU and gets it back: while it is off the
  CPU the rest of the system may do anything, marking \<open>p\<close> killed included. The same holds between the last look
  at the mark and the return (\<open>trap_late\<close>): another CPU may run, and after a system call, which turned interrupts
  on, so may an interrupt that takes the CPU away. The first of the two states of the relation, \<open>c\<close>, is that of the last look.
\<close>

inductive trap_run ::
  "vectors \<Rightarrow> devices \<Rightarrow> (trap_state \<Rightarrow> trap_state option) \<Rightarrow> (nat \<Rightarrow> nat) \<Rightarrow> nat \<Rightarrow> trap_state \<Rightarrow> trap_end \<Rightarrow> trap_state \<Rightarrow> trap_state \<Rightarrow> bool"
  for v d disk ready p s where
  trap_first: "myproc s = Some p \<Longrightarrow> usertrap v d disk ready s = Some (e, s') \<Longrightarrow> trap_run v d disk ready p s e s' s'"
| trap_again: "trap_run v d disk ready p s Yielded c s1 \<Longrightarrow> myproc s2 = Some p \<Longrightarrow> trap_yielded v s2 = Some (e, s') \<Longrightarrow>
    trap_run v d disk ready p s e c s'"
| trap_wake: "trap_run v d disk ready p s Slept c s1 \<Longrightarrow> myproc s2 = Some p \<Longrightarrow> trap_woken v p r s2 = Some (e, s') \<Longrightarrow>
    trap_run v d disk ready p s e s' s'"
| trap_late: "trap_run v d disk ready p s (To_user pc pt) c s1 \<Longrightarrow> myproc s2 = Some p \<Longrightarrow> go_user v s2 = Some (e, s') \<Longrightarrow>
    trap_run v d disk ready p s e c s'"

text \<open>How a state is left for user space.\<close>

definition user_ready :: "vectors \<Rightarrow> u64 \<Rightarrow> nat \<Rightarrow> 'a trap_state_scheme \<Rightarrow> bool" where
  "user_ready v pt p s \<longleftrightarrow> sstatus s AND SSTATUS_SPP = 0 \<and> sstatus s AND SSTATUS_SPIE \<noteq> 0 \<and> \<not> intr_get s \<and>
     stvec s = TRAMPOLINE + (v_uservec v - v_trampoline v) \<and> myproc s = Some p \<and> sepc s = get_tf p tf_epc s \<and>
     pt = MAKE_SATP (p_pagetable (procs s ! p))"

lemma go_user_ready:
  assumes "go_user v s = Some (e, s')"
  obtains pc pt q where "e = To_user pc pt" "myproc s = Some q" "user_ready v pt q s'" "killed p s' = killed p s"
  using assms sstatus_bits
  by (auto simp: go_user_def usertrapret_def intr_off_def intr_get_def Let_def killed_def myproc_def get_tf_def monad_simps user_ready_def)

lemma devintr_timer: "devintr d disk s = Some (2, s') \<Longrightarrow> scause s = 0x8000000000000001"
  by (auto simp: devintr_def Let_def monad_simps split: if_splits)

text \<open>A trap that yields has looked at the mark.\<close>

lemma upd_proc_killed: "p_killed (f (procs s ! q)) = p_killed (procs s ! q) \<Longrightarrow> p_killed (procs (upd_proc q f s) ! p) = p_killed (procs s ! p)"
  by (cases "q < length (procs s)") (auto simp: nth_list_update list_update_beyond upd_proc_def sync_group_def split: option.splits)

lemma yield_killed: "yield s = Some s' \<Longrightarrow> killed p s' = killed p s"
  by (auto simp: yield_def sched_def killed_def monad_simps set_c_proc_def sync_group_def upd_proc_killed split: if_splits option.splits)

lemma trap_done_yield: "trap_done v p w s = Some (Yielded, s') \<Longrightarrow> w = 2 \<and> killed p s' = 0"
  by (auto simp: trap_done_def go_user_def monad_simps yield_killed split: if_splits)

lemma trap_done_user:
  "trap_done v p w s = Some (To_user pc pt, s') \<Longrightarrow> killed p s' = 0 \<and> (\<exists>q. user_ready v pt q s')"
  by (auto simp: trap_done_def monad_simps split: if_splits elim: go_user_ready [where p = p])

lemma usertrap_cases:
  assumes "usertrap v d disk ready s = Some (e, s')" and "myproc s = Some p"
  shows "sstatus s AND SSTATUS_SPP = 0" and "e = Yielded \<Longrightarrow> killed p s' = 0"
    and "e = To_user pc pt \<Longrightarrow> killed p s' = 0 \<and> (\<exists>q. user_ready v pt q s')"
proof -
  show "sstatus s AND SSTATUS_SPP = 0" using assms by (auto simp: usertrap_def split: if_splits)
  show "killed p s' = 0" if "e = Yielded"
    using assms that
    by (auto simp: usertrap_def Let_def monad_simps dest!: trap_done_yield split: if_splits outcome.splits elim: no_outcome)
  show "killed p s' = 0 \<and> (\<exists>q. user_ready v pt q s')" if "e = To_user pc pt"
    using assms that by (auto simp: usertrap_def Let_def monad_simps dest!: trap_done_user split: if_splits outcome.splits elim: no_outcome)
qed

lemma trap_run_inv:
  assumes "trap_run v d disk ready p s e c s'"
  shows "sstatus s AND SSTATUS_SPP = 0 \<and> (e = Yielded \<longrightarrow> killed p c = 0) \<and>
    (\<forall>pc pt. e = To_user pc pt \<longrightarrow> killed p c = 0 \<and> (\<exists>q. user_ready v pt q s'))"
  using assms
proof (induction rule: trap_run.induct)
  case (trap_first e s')
  then show ?case using usertrap_cases [OF trap_first(2,1)] by blast
next
  case (trap_again c s1 s2 e s')
  then show ?case by (auto simp: trap_yielded_def elim: go_user_ready)
next
  case (trap_wake c s1 s2 r e s')
  then show ?case by (auto simp: trap_woken_def dest: trap_done_yield trap_done_user)
next
  case (trap_late pc pt c s1 s2 e s')
  then show ?case by (auto elim: go_user_ready)
qed

text \<open>
  C37: when a trap from user space goes back there, however often the process has left the CPU on the way, the previous
  mode is user, interrupts are off until the \<open>sret\<close> and on after it, traps go to the trampoline, the program
  counter and page table are those of the running process, and the process that trapped was not marked killed when the
  code last looked. That look comes before \<open>yield\<close> on a timer interrupt and, after a system call, before
  interrupts are turned off again, so a process marked while it is off the CPU there, or by another CPU, still goes back
  to user space once. A trap that did not come from user mode is not served.
\<close>

theorem usertrap_returns:
  assumes "trap_run v d disk ready p s (To_user pc pt) c s'"
  shows "sstatus s AND SSTATUS_SPP = 0 \<and> killed p c = 0 \<and> (\<exists>q. user_ready v pt q s')"
  using trap_run_inv [OF assms] by blast

definition demo_vectors :: vectors where
  "demo_vectors = \<lparr>v_kernelvec = 0x80004000, v_trampoline = 0x80007000, v_uservec = 0x80007000, v_userret = 0x8000709C,
     v_usertrap = 0x80002000\<rparr>"

definition demo_devices :: devices where
  "demo_devices = \<lparr>dv_irq = 0, dv_input = [], dv_takes = 0\<rparr>"

text \<open>The demo process makes the system call \<open>getpid\<close>.\<close>

definition demo_trap :: trap_state where
  "demo_trap = console_state.extend (demo_console\<lparr>mem := store64 (mem demo_console) 0x800050A8 11\<rparr>)
     \<lparr>stvec = 0, sepc = 0x100, scause = 8, stval = 0, sstatus = 0, sip = 0, satp = 0, mmio = []\<rparr>"

lemma demo_trap_facts: "myproc demo_trap = Some 0" "procs demo_trap = [demo_proc]" "hart demo_trap = 0" "scause demo_trap = 8" "sstatus demo_trap = 0"
  "load64 (mem demo_trap) 0x800050A8 = 11"
  by (simp_all add: demo_trap_def demo_console_def console_state.defs kernel_state.defs myproc_def demo_kernel_def load_store_64)

lemma demo_tf_other: "load64 (store64 m 0x80005018 v) 0x800050A8 = load64 m 0x800050A8"
  by (rule load_store_64_other) (simp add: in_region_unat)

lemma syscalls_getpid: "syscalls rd wr ! 11 = Some sys_getpid" "length (syscalls rd wr) = 22"
  by (simp_all add: syscalls_def)

lemma demo_getpid:
  assumes "myproc s = Some 0" "procs s = [demo_proc]" "load64 (mem s) 0x800050A8 = 11"
  shows "syscall ready s = Some (Done 1, set_tf 0 tf_a0 1 s)"
proof -
  have n: "sint (ucast (get_tf 0 tf_a7 s) :: u32) = 11"
    using assms by (simp add: get_tf_def tf_a7_def demo_proc_def)
  have g: "sys_getpid s = Some (Done 1, s)" using assms by (simp add: sys_getpid_def demo_proc_def)
  show ?thesis unfolding syscall_def using assms(1) n g by (simp add: Let_def syscalls_getpid)
qed

lemma demo_ret:
  assumes "myproc s = Some 0" "procs s = [demo_proc]"
  shows "\<exists>pc pt s'. trap_done v 0 0 s = Some (To_user pc pt, s')"
proof -
  have "killed 0 s = 0" using assms by (simp add: killed_def demo_proc_def)
  moreover have "\<exists>r s'. usertrapret v s = Some (r, s')" using assms(1) by (simp add: usertrapret_def Let_def intr_off_def)
  ultimately show ?thesis by (auto simp: trap_done_def go_user_def)
qed

lemma demo_usertrap: "\<exists>pc pt s'. usertrap demo_vectors demo_devices Some (\<lambda>_. 0) demo_trap = Some (To_user pc pt, s')"
proof -
  note f = demo_trap_facts
  let ?s1 = "set_tf 0 tf_epc (sepc demo_trap) (demo_trap\<lparr>stvec := v_kernelvec demo_vectors\<rparr>)"
  let ?s2 = "intr_on (set_tf 0 tf_epc (get_tf 0 tf_epc ?s1 + 4) ?s1)"
  have p: "myproc ?s2 = Some 0" "procs ?s2 = [demo_proc]" "load64 (mem ?s2) 0x800050A8 = 11"
    using f by (simp_all add: intr_on_def set_tf_def myproc_def demo_proc_def tf_epc_def demo_tf_other)
  have k: "killed 0 ?s1 = 0" "scause ?s1 = 8" using f by (simp_all add: killed_def demo_proc_def set_tf_def)
  let ?s3 = "set_tf 0 tf_a0 1 ?s2"
  have "myproc ?s3 = Some 0" "procs ?s3 = [demo_proc]" using p by (simp_all add: myproc_def)
  then obtain pc pt s' where r: "trap_done demo_vectors 0 0 ?s3 = Some (To_user pc pt, s')" using demo_ret by blast
  have "usertrap demo_vectors demo_devices Some (\<lambda>_. 0) demo_trap = trap_done demo_vectors 0 0 ?s3"
    unfolding usertrap_def Let_def using f(1,5) k demo_getpid [OF p] by simp
  then show ?thesis using r by simp
qed

theorem usertrap_returns_witness:
  "\<exists>pc pt s'. trap_run demo_vectors demo_devices Some (\<lambda>_. 0) 0 demo_trap (To_user pc pt) s' s' \<and> killed 0 s' = 0 \<and>
     sstatus demo_trap AND SSTATUS_SPP = 0 \<and> (\<exists>q. user_ready demo_vectors pt q s')"
proof -
  obtain pc pt s' where u: "usertrap demo_vectors demo_devices Some (\<lambda>_. 0) demo_trap = Some (To_user pc pt, s')"
    using demo_usertrap by blast
  have r: "trap_run demo_vectors demo_devices Some (\<lambda>_. 0) 0 demo_trap (To_user pc pt) s' s'" by (rule trap_first [OF demo_trap_facts(1) u])
  show ?thesis using r usertrap_returns [OF r] by blast
qed

end
