(* ===== verification/Sh.thy ===== *)
theory Sh
  imports Xv6_Prelude
begin

text \<open>
  The shell, user/sh.c: the parser on the bytes of a line, the termination of its strings in the buffer, and
  what \<open>runcmd\<close> asks of the kernel. A pointer into the line is an index, and the byte at the end of the line is
  the NUL. The mutually recursive functions of the parser take fuel; theory Sh_Parse shows how much is enough.
\<close>

section \<open>Commands\<close>

text \<open>The five structures of sh.c; \<open>'p\<close> is what stands for a string, in the parser its two pointers.\<close>

datatype 'p cmd =
    EXEC "'p list"
  | REDIR "'p cmd" 'p int int
  | PIPE "'p cmd" "'p cmd"
  | LIST "'p cmd" "'p cmd"
  | BACK "'p cmd"

type_synonym span = "nat \<times> nat"

datatype shell_error = Panic string | Out_of_fuel

fun ebind :: "'e + 'a \<Rightarrow> ('a \<Rightarrow> 'e + 'b) \<Rightarrow> 'e + 'b" where
  "ebind (Inl e) f = Inl e"
| "ebind (Inr x) f = f x"

definition MAXARGS :: nat where "MAXARGS = 10"

section \<open>Tokens\<close>

definition whitespace :: "u8 \<Rightarrow> bool" where
  "whitespace c \<longleftrightarrow> c \<in> set [32, 9, 13, 10, 11]"

definition symbol :: "u8 \<Rightarrow> bool" where
  "symbol c \<longleftrightarrow> c \<in> set [60, 124, 62, 38, 59, 40, 41]"

text \<open>The byte at a pointer into the line.\<close>

definition byte :: "u8 list \<Rightarrow> nat \<Rightarrow> u8" where
  "byte buf s = (if s < length buf then buf ! s else 0)"

definition skip_space :: "u8 list \<Rightarrow> nat \<Rightarrow> nat" where
  "skip_space buf s = s + length (takeWhile whitespace (drop s buf))"

definition skip_word :: "u8 list \<Rightarrow> nat \<Rightarrow> nat" where
  "skip_word buf s = s + length (takeWhile (\<lambda>c. \<not> whitespace c \<and> \<not> symbol c) (drop s buf))"

text \<open>The token, the two ends of its text, and the pointer after it.\<close>

definition gettoken :: "u8 list \<Rightarrow> nat \<Rightarrow> u8 \<times> nat \<times> nat \<times> nat" where
  "gettoken buf s =
     (let q = skip_space buf s; c = byte buf q;
          (ret, eq) = (if c = 0 then (0, q)
            else if c \<in> {124, 40, 41, 59, 38, 60} then (c, q + 1)
            else if c = 62 then (if byte buf (q + 1) = 62 then (43, q + 2) else (62, q + 1))
            else (97, skip_word buf q))
      in (ret, q, eq, skip_space buf eq))"

definition peek :: "u8 list \<Rightarrow> nat \<Rightarrow> u8 list \<Rightarrow> bool \<times> nat" where
  "peek buf s toks = (let q = skip_space buf s in (byte buf q \<noteq> 0 \<and> byte buf q \<in> set toks, q))"

section \<open>The parser\<close>

text \<open>\<open>parseexec\<close> adds the arguments to the \<open>execcmd\<close> inside the redirections that are already around it.\<close>

fun add_arg :: "'p \<Rightarrow> 'p cmd \<Rightarrow> 'p cmd" where
  "add_arg a (EXEC args) = EXEC (args @ [a])"
| "add_arg a (REDIR c file mode fd) = REDIR (add_arg a c) file mode fd"
| "add_arg a c = c"

definition redir :: "u8 \<Rightarrow> 'p \<Rightarrow> 'p cmd \<Rightarrow> 'p cmd" where
  "redir tok file c =
     (if tok = 60 then REDIR c file 0 0
      else if tok = 62 then REDIR c file 0x601 1
      else if tok = 43 then REDIR c file 0x201 1
      else c)"

primrec parseredirs :: "nat \<Rightarrow> u8 list \<Rightarrow> span cmd \<Rightarrow> nat \<Rightarrow> shell_error + span cmd \<times> nat" where
  "parseredirs 0 buf c s = Inl Out_of_fuel"
| "parseredirs (Suc n) buf c s =
     (case peek buf s [60, 62] of
        (False, s1) \<Rightarrow> Inr (c, s1)
      | (True, s1) \<Rightarrow>
          (case gettoken buf s1 of (tok, _, _, s2) \<Rightarrow>
           case gettoken buf s2 of (t, q, eq, s3) \<Rightarrow>
             if t \<noteq> 97 then Inl (Panic ''missing file for redirection'')
             else parseredirs n buf (redir tok (q, eq) c) s3))"

primrec parseargs :: "nat \<Rightarrow> u8 list \<Rightarrow> nat \<Rightarrow> span cmd \<Rightarrow> nat \<Rightarrow> shell_error + span cmd \<times> nat" where
  "parseargs 0 buf argc ret s = Inl Out_of_fuel"
| "parseargs (Suc n) buf argc ret s =
     (case peek buf s [124, 41, 38, 59] of
        (True, s1) \<Rightarrow> Inr (ret, s1)
      | (False, s1) \<Rightarrow>
          (case gettoken buf s1 of (tok, q, eq, s2) \<Rightarrow>
             if tok = 0 then Inr (ret, s2)
             else if tok \<noteq> 97 then Inl (Panic ''syntax'')
             else if Suc argc \<ge> MAXARGS then Inl (Panic ''too many args'')
             else ebind (parseredirs n buf (add_arg (q, eq) ret) s2)
                    (\<lambda>(ret', s3). parseargs n buf (Suc argc) ret' s3)))"

text \<open>The loop of \<open>parseline\<close> over \<open>&\<close>.\<close>

primrec parsebacks :: "nat \<Rightarrow> u8 list \<Rightarrow> span cmd \<Rightarrow> nat \<Rightarrow> shell_error + span cmd \<times> nat" where
  "parsebacks 0 buf c s = Inl Out_of_fuel"
| "parsebacks (Suc n) buf c s =
     (case peek buf s [38] of
        (False, s1) \<Rightarrow> Inr (c, s1)
      | (True, s1) \<Rightarrow> (case gettoken buf s1 of (_, _, _, s2) \<Rightarrow> parsebacks n buf (BACK c) s2))"

fun parseline :: "nat \<Rightarrow> u8 list \<Rightarrow> nat \<Rightarrow> shell_error + span cmd \<times> nat"
  and parsepipe :: "nat \<Rightarrow> u8 list \<Rightarrow> nat \<Rightarrow> shell_error + span cmd \<times> nat"
  and parseexec :: "nat \<Rightarrow> u8 list \<Rightarrow> nat \<Rightarrow> shell_error + span cmd \<times> nat"
  and parseblock :: "nat \<Rightarrow> u8 list \<Rightarrow> nat \<Rightarrow> shell_error + span cmd \<times> nat" where
  "parseline 0 buf s = Inl Out_of_fuel"
| "parseline (Suc n) buf s =
     ebind (parsepipe n buf s) (\<lambda>(c, s1).
     ebind (parsebacks n buf c s1) (\<lambda>(c1, s2).
       case peek buf s2 [59] of
         (False, s3) \<Rightarrow> Inr (c1, s3)
       | (True, s3) \<Rightarrow> (case gettoken buf s3 of (_, _, _, s4) \<Rightarrow>
           ebind (parseline n buf s4) (\<lambda>(c2, s5). Inr (LIST c1 c2, s5)))))"
| "parsepipe 0 buf s = Inl Out_of_fuel"
| "parsepipe (Suc n) buf s =
     ebind (parseexec n buf s) (\<lambda>(c, s1).
       case peek buf s1 [124] of
         (False, s2) \<Rightarrow> Inr (c, s2)
       | (True, s2) \<Rightarrow> (case gettoken buf s2 of (_, _, _, s3) \<Rightarrow>
           ebind (parsepipe n buf s3) (\<lambda>(c2, s4). Inr (PIPE c c2, s4))))"
| "parseexec 0 buf s = Inl Out_of_fuel"
| "parseexec (Suc n) buf s =
     (case peek buf s [40] of
        (True, s1) \<Rightarrow> parseblock n buf s1
      | (False, s1) \<Rightarrow> ebind (parseredirs n buf (EXEC []) s1) (\<lambda>(ret, s2). parseargs n buf 0 ret s2))"
| "parseblock 0 buf s = Inl Out_of_fuel"
| "parseblock (Suc n) buf s =
     (case peek buf s [40] of
        (False, s1) \<Rightarrow> Inl (Panic ''parseblock'')
      | (True, s1) \<Rightarrow> (case gettoken buf s1 of (_, _, _, s2) \<Rightarrow>
          ebind (parseline n buf s2) (\<lambda>(c, s3).
            case peek buf s3 [41] of
              (False, s4) \<Rightarrow> Inl (Panic ''syntax - missing )'')
            | (True, s4) \<Rightarrow> (case gettoken buf s4 of (_, _, _, s5) \<Rightarrow> parseredirs n buf c s5))))"

primrec nulterminate :: "span cmd \<Rightarrow> u8 list \<Rightarrow> u8 list" where
  "nulterminate (EXEC args) b = foldl (\<lambda>b a. b[snd a := 0]) b args"
| "nulterminate (REDIR c file mode fd) b = (nulterminate c b)[snd file := 0]"
| "nulterminate (PIPE l r) b = nulterminate r (nulterminate l b)"
| "nulterminate (LIST l r) b = nulterminate r (nulterminate l b)"
| "nulterminate (BACK c) b = nulterminate c b"

text \<open>The fuel that theory Sh_Parse shows to be enough for a line of this length.\<close>

definition parse_fuel :: "u8 list \<Rightarrow> nat" where "parse_fuel buf = 4 * length buf + 4"

text \<open>The command, and the buffer with its strings terminated.\<close>

definition parsecmd :: "u8 list \<Rightarrow> shell_error + span cmd \<times> u8 list" where
  "parsecmd buf =
     ebind (parseline (parse_fuel buf) buf 0) (\<lambda>(c, s).
       case peek buf s [] of (_, s1) \<Rightarrow>
         if s1 \<noteq> length buf then Inl (Panic ''syntax'') else Inr (c, nulterminate c (buf @ [0])))"

section \<open>Running a command\<close>

text \<open>
  What a process of the shell asks of the kernel, with a branch for every answer the code tells apart. The
  answer of \<open>pipe\<close> is its two descriptors; a process that has been replaced by \<open>exec\<close> has left the shell.
\<close>

datatype act =
    Exit int
  | Exec "u8 list" "u8 list list" act
  | Write_err string "u8 list" act
  | Close int act
  | Dup int act
  | Open "u8 list" int act act
  | Pipe_call act "int \<times> int \<Rightarrow> act"
  | Fork act act act
  | Wait act

definition panic :: "string \<Rightarrow> act" where "panic msg = Write_err msg [] (Exit 1)"

text \<open>\<open>fork1\<close>: the child, the parent, and the panic when there is no process.\<close>

definition fork1 :: "act \<Rightarrow> act \<Rightarrow> act" where "fork1 child parent = Fork child parent (panic ''fork'')"

primrec runcmd :: "u8 list cmd \<Rightarrow> act" where
  "runcmd (EXEC args) = (case args of [] \<Rightarrow> Exit 1 | a # _ \<Rightarrow> Exec a args (Write_err ''exec failed'' a (Exit 0)))"
| "runcmd (REDIR c file mode fd) = Close fd (Open file mode (Write_err ''open failed'' file (Exit 1)) (runcmd c))"
| "runcmd (LIST l r) = fork1 (runcmd l) (Wait (runcmd r))"
| "runcmd (PIPE l r) = Pipe_call (panic ''pipe'') (\<lambda>(p0, p1).
     fork1 (Close 1 (Dup p1 (Close p0 (Close p1 (runcmd l)))))
      (fork1 (Close 0 (Dup p0 (Close p0 (Close p1 (runcmd r)))))
        (Close p0 (Close p1 (Wait (Wait (Exit 0)))))))"
| "runcmd (BACK c) = fork1 (runcmd c) (Exit 0)"

text \<open>The string at a pointer, once the buffer is terminated.\<close>

definition cstring :: "u8 list \<Rightarrow> span \<Rightarrow> u8 list" where
  "cstring b a = takeWhile (\<lambda>c. c \<noteq> 0) (drop (fst a) b)"

end
