(* ===== verification/Sh_Parse.thy ===== *)
theory Sh_Parse
  imports Sh
begin

text \<open>
  The parser of the shell: it always ends, every command it builds is well formed, and every well-formed command
  has a text that is parsed to it.
\<close>

section \<open>Tokens\<close>

lemma length_takeWhile_drop: "s \<le> length buf \<Longrightarrow> s + length (takeWhile P (drop s buf)) \<le> length buf"
  using length_takeWhile_le [of P "drop s buf"] by simp

lemma skip_space_bounds: "s \<le> skip_space buf s" "s \<le> length buf \<Longrightarrow> skip_space buf s \<le> length buf"
  using length_takeWhile_drop by (auto simp: skip_space_def)

lemma byte_skip: "byte buf (skip_space buf s) \<noteq> 0 \<Longrightarrow> \<not> whitespace (byte buf (skip_space buf s))"
proof -
  assume "byte buf (skip_space buf s) \<noteq> 0"
  then have l: "skip_space buf s < length buf" by (auto simp: byte_def split: if_splits)
  then have "length (takeWhile whitespace (drop s buf)) < length (drop s buf)" by (simp add: skip_space_def)
  from nth_length_takeWhile [OF this] show ?thesis using l by (simp add: byte_def skip_space_def)
qed

lemma byte_lt: "byte buf s \<noteq> 0 \<Longrightarrow> s < length buf"
  by (auto simp: byte_def split: if_splits)

text \<open>The text of a word: a longest run of bytes that are neither space nor symbol.\<close>

definition word_char :: "u8 \<Rightarrow> bool" where "word_char c \<longleftrightarrow> \<not> whitespace c \<and> \<not> symbol c \<and> c \<noteq> 0"

definition word_span :: "u8 list \<Rightarrow> span \<Rightarrow> bool" where
  "word_span buf a \<longleftrightarrow> fst a < snd a \<and> snd a \<le> length buf \<and> (\<forall>i. fst a \<le> i \<and> i < snd a \<longrightarrow> word_char (buf ! i)) \<and>
     (snd a < length buf \<longrightarrow> \<not> word_char (buf ! snd a))"

lemma skip_word_span:
  assumes "q < length buf" and "word_char (buf ! q)" and "0 \<notin> set buf"
  shows "word_span buf (q, skip_word buf q)"
proof -
  let ?P = "\<lambda>c. \<not> whitespace c \<and> \<not> symbol c" and ?n = "length (takeWhile (\<lambda>c. \<not> whitespace c \<and> \<not> symbol c) (drop q buf))"
  have n: "q + ?n \<le> length buf" using assms(1) by (intro length_takeWhile_drop) simp
  have "drop q buf = buf ! q # drop (Suc q) buf" using assms(1) by (simp add: Cons_nth_drop_Suc)
  then have "?n > 0" using assms(2) by (simp add: word_char_def)
  moreover have "word_char (buf ! i)" if "q \<le> i" "i < q + ?n" for i
  proof -
    have "i - q < ?n" using that by simp
    then have "takeWhile ?P (drop q buf) ! (i - q) \<in> set (takeWhile ?P (drop q buf))" by (rule nth_mem)
    moreover have "takeWhile ?P (drop q buf) ! (i - q) = buf ! i" using that n by (simp add: takeWhile_nth)
    ultimately have "?P (buf ! i)" using set_takeWhileD [of "buf ! i" ?P] by simp
    moreover have "buf ! i \<in> set buf" using that n by simp
    ultimately show ?thesis using assms(3) by (cases "buf ! i = 0") (simp_all add: word_char_def)
  qed
  moreover have "\<not> word_char (buf ! (q + ?n))" if "q + ?n < length buf"
  proof -
    have "?n < length (drop q buf)" using that by simp
    then show ?thesis using nth_length_takeWhile [of ?P "drop q buf"] assms(1) by (auto simp: word_char_def)
  qed
  ultimately show ?thesis using n by (simp add: word_span_def skip_word_def)
qed

lemma gettoken_cases:
  assumes "gettoken buf s = (t, q, eq, s')"
  obtains (none) "byte buf q = 0" "t = 0" "eq = q"
    | (sym) "byte buf q \<noteq> 0" "t = byte buf q" "symbol t" "eq = q + 1"
    | (append) "byte buf q = 62" "byte buf (q + 1) = 62" "t = 43" "eq = q + 2"
    | (w) "byte buf q \<noteq> 0" "\<not> symbol (byte buf q)" "t = 97" "eq = skip_word buf q"
proof -
  have q: "q = skip_space buf s" using assms by (auto simp: gettoken_def Let_def split: prod.splits)
  note d = assms [unfolded gettoken_def Let_def, folded q]
  show ?thesis
  proof (cases "byte buf q = 0")
    case True
    then show ?thesis using d by (intro none) auto
  next
    case nz: False
    show ?thesis
    proof (cases "byte buf q \<in> {124, 40, 41, 59, 38, 60}")
      case True
      then have "t = byte buf q" "eq = q + 1" using d nz by auto
      then show ?thesis using nz True by (intro sym) (auto simp: symbol_def)
    next
      case ns: False
      show ?thesis
      proof (cases "byte buf q = 62")
        case c: True
        show ?thesis
        proof (cases "byte buf (q + 1) = 62")
          case True
          then have "t = 43" "eq = q + 2" using d c by auto
          then show ?thesis using c True by (intro append)
        next
          case False
          then have "t = byte buf q" "eq = q + 1" using d c by auto
          then show ?thesis using c by (intro sym) (auto simp: symbol_def)
        qed
      next
        case False
        then have "t = 97" "eq = skip_word buf q" using d nz ns by auto
        moreover have "\<not> symbol (byte buf q)" using ns False by (auto simp: symbol_def)
        ultimately show ?thesis using nz by (intro w)
      qed
    qed
  qed
qed

lemma gettoken_ends: "gettoken buf s = (t, q, eq, s') \<Longrightarrow> q = skip_space buf s \<and> s' = skip_space buf eq"
  by (auto simp: gettoken_def Let_def split: prod.splits)

lemma gettoken_ok:
  assumes "gettoken buf s = (t, q, eq, s')" and "s \<le> length buf" and "0 \<notin> set buf"
  shows "s \<le> s'" "s' \<le> length buf" "t \<noteq> 0 \<Longrightarrow> s < s'" "t = 97 \<Longrightarrow> word_span buf (q, eq)"
    "s = q \<Longrightarrow> byte buf s \<noteq> 0 \<Longrightarrow> t \<noteq> 0"
proof -
  have q: "q = skip_space buf s" and s': "s' = skip_space buf eq" using gettoken_ends [OF assms(1)] by auto
  have sb: "s \<le> q" "q \<le> length buf" using skip_space_bounds(1) [of s buf] skip_space_bounds(2) [OF assms(2)] q by auto
  have e: "q \<le> eq \<and> eq \<le> length buf \<and> (t \<noteq> 0 \<longrightarrow> q < eq) \<and> (t = 97 \<longrightarrow> word_span buf (q, eq)) \<and> (byte buf q \<noteq> 0 \<longrightarrow> t \<noteq> 0)"
    using assms(1)
  proof (cases rule: gettoken_cases)
    case none
    then show ?thesis using sb by simp
  next
    case sym
    then show ?thesis using byte_lt [of buf q] by (auto simp: symbol_def)
  next
    case append
    then have "q + 1 < length buf" using byte_lt [of buf "q + 1"] by simp
    then show ?thesis using append by simp
  next
    case w
    have l: "q < length buf" using byte_lt [OF w(1)] .
    then have "word_char (buf ! q)" using w byte_skip [of buf s] q by (simp add: word_char_def byte_def)
    with l have "word_span buf (q, skip_word buf q)" using assms(3) by (rule skip_word_span)
    then show ?thesis using w by (simp add: word_span_def)
  qed
  have "eq \<le> s'" "s' \<le> length buf" using e s' skip_space_bounds [of eq buf] by auto
  then show "s \<le> s'" "s' \<le> length buf" "t \<noteq> 0 \<Longrightarrow> s < s'" "t = 97 \<Longrightarrow> word_span buf (q, eq)" "s = q \<Longrightarrow> byte buf s \<noteq> 0 \<Longrightarrow> t \<noteq> 0"
    using e sb by auto
qed

lemma peek_ok:
  assumes "peek buf s toks = (b, s')" and "s \<le> length buf"
  shows "s \<le> s'" "s' \<le> length buf" "b \<Longrightarrow> byte buf s' \<noteq> 0 \<and> byte buf s' \<in> set toks \<and> skip_space buf s' = s'"
proof -
  have s': "s' = skip_space buf s" and b: "b \<longleftrightarrow> byte buf s' \<noteq> 0 \<and> byte buf s' \<in> set toks"
    using assms(1) by (auto simp: peek_def Let_def)
  show "s \<le> s'" "s' \<le> length buf" using skip_space_bounds [of s buf] assms(2) s' by auto
  assume b
  then have nz: "byte buf s' \<noteq> 0" "byte buf s' \<in> set toks" using b by auto
  then have "\<not> whitespace (byte buf s')" using byte_skip [of buf s] s' by simp
  moreover have "drop s' buf = byte buf s' # drop (Suc s') buf"
    using byte_lt [OF nz(1)] by (simp add: Cons_nth_drop_Suc byte_def)
  ultimately have "skip_space buf s' = s'" by (simp add: skip_space_def)
  then show "byte buf s' \<noteq> 0 \<and> byte buf s' \<in> set toks \<and> skip_space buf s' = s'" using nz by simp
qed

lemma peek_gettoken:
  assumes "peek buf s toks = (True, s1)" and "gettoken buf s1 = (t, q, eq, s2)" and "s \<le> length buf" and "0 \<notin> set buf"
  shows "s < s2" "s2 \<le> length buf"
proof -
  note p = peek_ok [OF assms(1,3)]
  have "q = s1" using gettoken_ends [OF assms(2)] p(3) by simp
  note g = gettoken_ok [OF assms(2) p(2) assms(4)]
  have "t \<noteq> 0" using g(5) p(3) \<open>q = s1\<close> by simp
  then show "s < s2" "s2 \<le> length buf" using g(2,3) p(1) by auto
qed

section \<open>Well-formed commands\<close>

text \<open>What runcmd can run: fewer than MAXARGS arguments, the redirections that exist, and strings that satisfy \<open>W\<close>.\<close>

primrec wf_cmd :: "('p \<Rightarrow> bool) \<Rightarrow> 'p cmd \<Rightarrow> bool" where
  "wf_cmd W (EXEC args) \<longleftrightarrow> length args < MAXARGS \<and> list_all W args"
| "wf_cmd W (REDIR c file mode fd) \<longleftrightarrow> wf_cmd W c \<and> W file \<and> (mode, fd) \<in> {(0, 0), (0x601, 1), (0x201, 1)}"
| "wf_cmd W (PIPE l r) \<longleftrightarrow> wf_cmd W l \<and> wf_cmd W r"
| "wf_cmd W (LIST l r) \<longleftrightarrow> wf_cmd W l \<and> wf_cmd W r"
| "wf_cmd W (BACK c) \<longleftrightarrow> wf_cmd W c"

lemma wf_cmd_map: "wf_cmd W (map_cmd f c) \<longleftrightarrow> wf_cmd (\<lambda>a. W (f a)) c"
  by (induction c) (simp_all add: list.pred_map comp_def)

lemma wf_cmd_mono: "wf_cmd W c \<Longrightarrow> (\<And>a. a \<in> set_cmd c \<Longrightarrow> W a \<Longrightarrow> V a) \<Longrightarrow> wf_cmd V c"
  by (induction c) (auto simp: list_all_iff)

lemma wf_cmd_set: "wf_cmd W c \<Longrightarrow> a \<in> set_cmd c \<Longrightarrow> W a"
  by (induction c) (auto simp: list_all_iff)

text \<open>The number of arguments of the simple command inside some redirections.\<close>

fun argc_of :: "'p cmd \<Rightarrow> nat option" where
  "argc_of (EXEC args) = Some (length args)"
| "argc_of (REDIR c file mode fd) = argc_of c"
| "argc_of c = None"

lemma add_arg_ok:
  "argc_of c = Some k \<Longrightarrow> Suc k < MAXARGS \<Longrightarrow> wf_cmd W c \<Longrightarrow> W a \<Longrightarrow> argc_of (add_arg a c) = Some (Suc k) \<and> wf_cmd W (add_arg a c)"
  by (induction a c rule: add_arg.induct) auto

lemma argc_of_redir [simp]: "argc_of (redir t a c) = argc_of c"
  by (simp add: redir_def)

lemma wf_redir: "wf_cmd W c \<Longrightarrow> W a \<Longrightarrow> wf_cmd W (redir t a c)"
  by (simp add: redir_def)

section \<open>The parser ends\<close>

text \<open>A panic, or a well-formed command and a pointer that has not moved back.\<close>

definition parsed :: "u8 list \<Rightarrow> nat \<Rightarrow> shell_error + span cmd \<times> nat \<Rightarrow> bool" where
  "parsed buf s R \<longleftrightarrow> (case R of Inl e \<Rightarrow> e \<noteq> Out_of_fuel
     | Inr (c, s') \<Rightarrow> s \<le> s' \<and> s' \<le> length buf \<and> wf_cmd (word_span buf) c)"

lemma parsed_simps [simp]:
  "parsed buf s (Inl (Panic m))"
  "parsed buf s (Inr (c, s')) \<longleftrightarrow> s \<le> s' \<and> s' \<le> length buf \<and> wf_cmd (word_span buf) c"
  by (simp_all add: parsed_def)

lemma parsed_bind:
  assumes "parsed buf s R" and "\<And>c s'. R = Inr (c, s') \<Longrightarrow> s \<le> s' \<Longrightarrow> s' \<le> length buf \<Longrightarrow> wf_cmd (word_span buf) c \<Longrightarrow> parsed buf t (f (c, s'))"
  shows "parsed buf t (ebind R f)"
  using assms by (cases R) (auto simp: parsed_def)

lemma parsed_le: "parsed buf s' R \<Longrightarrow> s \<le> s' \<Longrightarrow> parsed buf s R"
  by (auto simp: parsed_def split: sum.splits)

lemma parseredirs_parsed:
  assumes z: "0 \<notin> set buf"
  shows "s \<le> length buf \<Longrightarrow> length buf - s < n \<Longrightarrow> wf_cmd (word_span buf) c \<Longrightarrow>
    parsed buf s (parseredirs n buf c s) \<and> (\<forall>c' s'. parseredirs n buf c s = Inr (c', s') \<longrightarrow> argc_of c' = argc_of c)"
proof (induction n arbitrary: c s)
  case (Suc n)
  obtain b s1 where p: "peek buf s [60, 62] = (b, s1)" by fastforce
  note p1 = peek_ok [OF p Suc.prems(1)]
  show ?case
  proof (cases b)
    case False
    then show ?thesis using p p1 Suc.prems by simp
  next
    case True
    obtain tok q0 e0 s2 where g: "gettoken buf s1 = (tok, q0, e0, s2)" by (cases "gettoken buf s1") auto
    obtain t q e s3 where h: "gettoken buf s2 = (t, q, e, s3)" by (cases "gettoken buf s2") auto
    have s2: "s < s2" "s2 \<le> length buf" using peek_gettoken [OF _ g Suc.prems(1) z] p True by auto
    note h1 = gettoken_ok [OF h s2(2) z]
    show ?thesis
    proof (cases "t = 97")
      case t: True
      let ?c = "redir tok (q, e) c"
      have "wf_cmd (word_span buf) ?c" by (rule wf_redir [OF Suc.prems(3) h1(4) [OF t]])
      then have "parsed buf s3 (parseredirs n buf ?c s3) \<and> (\<forall>c' s'. parseredirs n buf ?c s3 = Inr (c', s') \<longrightarrow> argc_of c' = argc_of c)"
        using Suc.IH [of s3 ?c] Suc.prems(2) s2 h1(1,2) by simp
      moreover have "s \<le> s3" using s2 h1(1) by simp
      moreover have "parseredirs (Suc n) buf c s = parseredirs n buf ?c s3" using p True g h t by simp
      ultimately show ?thesis using parsed_le [of buf s3 _ s] by simp
    next
      case False
      then show ?thesis using p True g h by simp
    qed
  qed
qed simp

lemma parseargs_parsed:
  assumes z: "0 \<notin> set buf"
  shows "s \<le> length buf \<Longrightarrow> length buf - s < n \<Longrightarrow> wf_cmd (word_span buf) c \<Longrightarrow> argc_of c = Some k \<Longrightarrow>
    parsed buf s (parseargs n buf k c s)"
proof (induction n arbitrary: c s k)
  case (Suc n)
  obtain b s1 where p: "peek buf s [124, 41, 38, 59] = (b, s1)" by fastforce
  note p1 = peek_ok [OF p Suc.prems(1)]
  obtain t q e s2 where g: "gettoken buf s1 = (t, q, e, s2)" by (cases "gettoken buf s1") auto
  note g1 = gettoken_ok [OF g p1(2) z]
  show ?case
  proof (cases "\<not> b \<and> t = 97 \<and> Suc k < MAXARGS")
    case True
    let ?c = "add_arg (q, e) c"
    have w: "word_span buf (q, e)" using g1(4) True by simp
    have k: "Suc k < MAXARGS" using True by simp
    have c: "argc_of ?c = Some (Suc k) \<and> wf_cmd (word_span buf) ?c" by (rule add_arg_ok [OF Suc.prems(4) k Suc.prems(3) w])
    have s2: "s < s2" using p1(1) g1(3) True by simp
    have "parsed buf s2 (parseredirs n buf ?c s2) \<and> (\<forall>c' s'. parseredirs n buf ?c s2 = Inr (c', s') \<longrightarrow> argc_of c' = argc_of ?c)"
      using parseredirs_parsed [OF z g1(2), of n ?c] Suc.prems(2) s2 c g1(2) by simp
    moreover have "parsed buf s (parseargs n buf (Suc k) c' s3)"
      if "parseredirs n buf ?c s2 = Inr (c', s3)" "s2 \<le> s3" "s3 \<le> length buf" "wf_cmd (word_span buf) c'" "argc_of c' = Some (Suc k)" for c' s3
      by (rule parsed_le [OF Suc.IH [OF that(3) _ that(4,5)]]) (use that Suc.prems(2) s2 in simp_all)
    ultimately have "parsed buf s (ebind (parseredirs n buf ?c s2) (\<lambda>(c', s3). parseargs n buf (Suc k) c' s3))"
      using c by (intro parsed_bind [of buf s2]) simp_all
    then show ?thesis using p g True by simp
  next
    case False
    then show ?thesis using p g p1 g1 Suc.prems(3) by (cases b) auto
  qed
qed simp

lemma parsebacks_parsed:
  assumes z: "0 \<notin> set buf"
  shows "s \<le> length buf \<Longrightarrow> length buf - s < n \<Longrightarrow> wf_cmd (word_span buf) c \<Longrightarrow> parsed buf s (parsebacks n buf c s)"
proof (induction n arbitrary: c s)
  case (Suc n)
  obtain b s1 where p: "peek buf s [38] = (b, s1)" by fastforce
  note p1 = peek_ok [OF p Suc.prems(1)]
  obtain t q e s2 where g: "gettoken buf s1 = (t, q, e, s2)" by (cases "gettoken buf s1") auto
  show ?case
  proof (cases b)
    case False
    then show ?thesis using p p1 Suc.prems by simp
  next
    case True
    have s2: "s < s2" "s2 \<le> length buf" using peek_gettoken [OF _ g Suc.prems(1) z] p True by auto
    then have "parsed buf s2 (parsebacks n buf (BACK c) s2)" using Suc.IH [of s2 "BACK c"] Suc.prems by simp
    moreover have "parsebacks (Suc n) buf c s = parsebacks n buf (BACK c) s2" using p True g by simp
    ultimately show ?thesis using parsed_le [of buf s2 _ s] s2 by simp
  qed
qed simp

text \<open>Each level of the grammar, with the fuel it needs on what is left of the line.\<close>

lemma parser_parsed:
  assumes z: "0 \<notin> set buf"
  shows "(\<forall>s \<le> length buf. 4 * (length buf - s) + 4 \<le> n \<longrightarrow> parsed buf s (parseline n buf s)) \<and>
    (\<forall>s \<le> length buf. 4 * (length buf - s) + 3 \<le> n \<longrightarrow> parsed buf s (parsepipe n buf s)) \<and>
    (\<forall>s \<le> length buf. 4 * (length buf - s) + 2 \<le> n \<longrightarrow> parsed buf s (parseexec n buf s)) \<and>
    (\<forall>s \<le> length buf. 4 * (length buf - s) + 1 \<le> n \<longrightarrow> parsed buf s (parseblock n buf s))"
proof (induction n)
  case (Suc n)
  have lineI: "parsed buf s (parseline n buf s)" if "s \<le> length buf" "4 * (length buf - s) + 4 \<le> n" for s using Suc that by blast
  have pipeI: "parsed buf s (parsepipe n buf s)" if "s \<le> length buf" "4 * (length buf - s) + 3 \<le> n" for s using Suc that by blast
  have execI: "parsed buf s (parseexec n buf s)" if "s \<le> length buf" "4 * (length buf - s) + 2 \<le> n" for s using Suc that by blast
  have blockI: "parsed buf s (parseblock n buf s)" if "s \<le> length buf" "4 * (length buf - s) + 1 \<le> n" for s using Suc that by blast
  have line: "parsed buf s (parseline (Suc n) buf s)" if s: "s \<le> length buf" "4 * (length buf - s) + 4 \<le> Suc n" for s
    unfolding parseline.simps
  proof (rule parsed_bind [OF pipeI], goal_cases)
    case (3 c s1)
    have "parsed buf s1 (parsebacks n buf c s1)" by (rule parsebacks_parsed [OF z 3(3) _ 3(4)]) (use s 3(2) in simp)
    then have "parsed buf s (ebind (parsebacks n buf c s1) (\<lambda>(c1, s2). case peek buf s2 [59] of
         (False, s3) \<Rightarrow> Inr (c1, s3)
       | (True, s3) \<Rightarrow> (case gettoken buf s3 of (_, _, _, s4) \<Rightarrow>
           ebind (parseline n buf s4) (\<lambda>(c2, s5). Inr (LIST c1 c2, s5)))))"
    proof (rule parsed_bind, goal_cases)
      case (1 c1 s2)
      obtain b s3 where p: "peek buf s2 [59] = (b, s3)" by fastforce
      obtain t q e s4 where g: "gettoken buf s3 = (t, q, e, s4)" by (cases "gettoken buf s3") auto
      show ?case
      proof (cases b)
        case False
        then show ?thesis using p peek_ok [OF p 1(3)] 1 3 by simp
      next
        case True
        have s4: "s2 < s4" "s4 \<le> length buf" using peek_gettoken [OF _ g 1(3) z] p True by auto
        have "parsed buf s4 (parseline n buf s4)" by (rule lineI [OF s4(2)]) (use s s4 1(2) 3(2) in simp)
        then have "parsed buf s (ebind (parseline n buf s4) (\<lambda>(c2, s5). Inr (LIST c1 c2, s5)))"
          by (rule parsed_bind) (use s4 1(2,4) 3(2) in simp)
        then show ?thesis using p g True by simp
      qed
    qed
    then show ?case by simp
  qed (use s in simp_all)
  moreover have "parsed buf s (parsepipe (Suc n) buf s)" if s: "s \<le> length buf" "4 * (length buf - s) + 3 \<le> Suc n" for s
    unfolding parsepipe.simps
  proof (rule parsed_bind [OF execI], goal_cases)
    case (3 c s1)
    obtain b s2 where p: "peek buf s1 [124] = (b, s2)" by fastforce
    obtain t q e s3 where g: "gettoken buf s2 = (t, q, e, s3)" by (cases "gettoken buf s2") auto
    show ?case
    proof (cases b)
      case False
      then show ?thesis using p peek_ok [OF p 3(3)] 3 by simp
    next
      case True
      have s3: "s1 < s3" "s3 \<le> length buf" using peek_gettoken [OF _ g 3(3) z] p True by auto
      have "parsed buf s3 (parsepipe n buf s3)" by (rule pipeI [OF s3(2)]) (use s s3 3(2) in simp)
      then have "parsed buf s (ebind (parsepipe n buf s3) (\<lambda>(c2, s4). Inr (PIPE c c2, s4)))"
        by (rule parsed_bind) (use s3 3(2,4) in simp)
      then show ?thesis using p g True by simp
    qed
  qed (use s in simp_all)
  moreover have "parsed buf s (parseexec (Suc n) buf s)" if s: "s \<le> length buf" "4 * (length buf - s) + 2 \<le> Suc n" for s
  proof -
    obtain b s1 where p: "peek buf s [40] = (b, s1)" by fastforce
    note p1 = peek_ok [OF p s(1)]
    show ?thesis
    proof (cases b)
      case True
      have "parsed buf s1 (parseblock n buf s1)" by (rule blockI [OF p1(2)]) (use s p1(1) in simp)
      then show ?thesis using p True parsed_le [OF _ p1(1)] by simp
    next
      case False
      have "wf_cmd (word_span buf) (EXEC [])" by (simp add: MAXARGS_def)
      then have r: "parsed buf s1 (parseredirs n buf (EXEC []) s1) \<and>
          (\<forall>c' s'. parseredirs n buf (EXEC []) s1 = Inr (c', s') \<longrightarrow> argc_of c' = argc_of (EXEC [] :: span cmd))"
        by (intro parseredirs_parsed [OF z p1(2)]) (use s p1(1) in simp_all)
      have "parsed buf s (ebind (parseredirs n buf (EXEC []) s1) (\<lambda>(ret, s2). parseargs n buf 0 ret s2))"
      proof (rule parsed_bind [OF conjunct1 [OF r]], goal_cases)
        case (1 ret s2)
        have "argc_of ret = Some 0" using r 1(1) by simp
        then have "parsed buf s2 (parseargs n buf 0 ret s2)"
          by (intro parseargs_parsed [OF z 1(3) _ 1(4)]) (use s p1(1) 1(2) in simp_all)
        then show ?case using parsed_le p1(1) 1(2) by simp
      qed
      then show ?thesis using p False by simp
    qed
  qed
  moreover have "parsed buf s (parseblock (Suc n) buf s)" if s: "s \<le> length buf" "4 * (length buf - s) + 1 \<le> Suc n" for s
  proof -
    obtain b s1 where p: "peek buf s [40] = (b, s1)" by fastforce
    obtain t q e s2 where g: "gettoken buf s1 = (t, q, e, s2)" by (cases "gettoken buf s1") auto
    show ?thesis
    proof (cases b)
      case False
      then show ?thesis using p by simp
    next
      case True
      have s2: "s < s2" "s2 \<le> length buf" using peek_gettoken [OF _ g s(1) z] p True by auto
      have "parsed buf s2 (parseline n buf s2)" by (rule lineI [OF s2(2)]) (use s s2 in simp)
      then have "parsed buf s (ebind (parseline n buf s2) (\<lambda>(c, s3).
            case peek buf s3 [41] of
              (False, s4) \<Rightarrow> Inl (Panic ''syntax - missing )'')
            | (True, s4) \<Rightarrow> (case gettoken buf s4 of (_, _, _, s5) \<Rightarrow> parseredirs n buf c s5)))"
      proof (rule parsed_bind, goal_cases)
        case (1 c s3)
        obtain b' s4 where p': "peek buf s3 [41] = (b', s4)" by fastforce
        obtain t' q' e' s5 where g': "gettoken buf s4 = (t', q', e', s5)" by (cases "gettoken buf s4") auto
        show ?case
        proof (cases b')
          case False
          then show ?thesis using p' by simp
        next
          case t: True
          have s5: "s3 < s5" "s5 \<le> length buf" using peek_gettoken [OF _ g' 1(3) z] p' t by auto
          have "parsed buf s5 (parseredirs n buf c s5)"
            by (rule conjunct1 [OF parseredirs_parsed [OF z s5(2) _ 1(4)]]) (use s s2 1(2) s5 in simp)
          then show ?thesis using p' g' t parsed_le s2 1(2) s5 by simp
        qed
      qed
      then show ?thesis using p g True by simp
    qed
  qed
  ultimately show ?case by blast
qed simp

section \<open>The strings of a command\<close>

definition text_at :: "u8 list \<Rightarrow> span \<Rightarrow> u8 list" where
  "text_at buf a = take (snd a - fst a) (drop (fst a) buf)"

lemma foldl_update:
  "i < length b \<Longrightarrow> foldl (\<lambda>b a. b[snd a := 0]) b args ! i = (if i \<in> snd ` set args then 0 else b ! i)"
  "length (foldl (\<lambda>b a. b[snd a := 0]) b args) = length b"
  by (induction args arbitrary: b) (auto simp: nth_update_in)

lemma length_nulterminate [simp]: "length (nulterminate c b) = length b"
  by (induction c arbitrary: b) (simp_all add: foldl_update)

lemma nulterminate_nth:
  "i < length b \<Longrightarrow> nulterminate c b ! i = (if i \<in> snd ` set_cmd c then 0 else b ! i)"
  by (induction c arbitrary: b) (simp_all add: foldl_update nth_update_in image_Un)

text \<open>After \<open>nulterminate\<close> the string at a pointer is the text of its token.\<close>

lemma cstring_token:
  assumes c: "wf_cmd (word_span buf) c" and a: "a \<in> set_cmd c"
  shows "cstring (nulterminate c (buf @ [0])) a = text_at buf a"
proof -
  let ?b = "nulterminate c (buf @ [0])"
  have w: "\<And>x. x \<in> set_cmd c \<Longrightarrow> word_span buf x" using c by (rule wf_cmd_set)
  have f: "fst a < snd a" "snd a \<le> length buf" "\<And>i. fst a \<le> i \<Longrightarrow> i < snd a \<Longrightarrow> word_char (buf ! i)"
    using w [OF a] by (auto simp: word_span_def)
  have keep: "?b ! i = buf ! i \<and> ?b ! i \<noteq> 0" if i: "fst a \<le> i" "i < snd a" for i
  proof -
    have "i \<notin> snd ` set_cmd c"
    proof
      assume "i \<in> snd ` set_cmd c"
      then obtain x where "x \<in> set_cmd c" "snd x = i" by auto
      then have "\<not> word_char (buf ! i)" using w [of x] i f(2) by (auto simp: word_span_def)
      then show False using f(3) [OF i] by simp
    qed
    then show ?thesis using i f(2) f(3) [OF i] by (simp add: nulterminate_nth nth_append word_char_def)
  qed
  have "snd a \<in> snd ` set_cmd c" using a by (rule imageI)
  then have end_zero: "?b ! snd a = 0" using f(2) by (simp add: nulterminate_nth)
  have "take (snd a - fst a) (drop (fst a) ?b) = text_at buf a"
  proof (rule nth_equalityI)
    fix i
    assume "i < length (take (snd a - fst a) (drop (fst a) ?b))"
    then show "take (snd a - fst a) (drop (fst a) ?b) ! i = text_at buf a ! i"
      using f(1,2) conjunct1 [OF keep [of "fst a + i"]] by (simp add: text_at_def)
  qed (use f in \<open>simp add: text_at_def\<close>)
  moreover have "drop (snd a - fst a) (drop (fst a) ?b) = 0 # drop (Suc (snd a)) ?b"
    using f(1,2) end_zero Cons_nth_drop_Suc [of "snd a" ?b] by simp
  ultimately have "drop (fst a) ?b = text_at buf a @ 0 # drop (Suc (snd a)) ?b"
    by (metis append_take_drop_id)
  moreover have "list_all (\<lambda>c. c \<noteq> 0) (text_at buf a)"
  proof -
    have "text_at buf a ! i \<noteq> 0" if "i < length (text_at buf a)" for i
      using that f(1,2) f(3) [of "fst a + i"] by (simp add: text_at_def word_char_def)
    then show ?thesis by (simp add: list_all_length)
  qed
  ultimately show ?thesis by (simp add: cstring_def takeWhile_append list_all_iff)
qed

lemma text_at_word:
  assumes "word_span buf a"
  shows "text_at buf a \<noteq> [] \<and> list_all word_char (text_at buf a)"
proof -
  have "text_at buf a ! i = buf ! (fst a + i)" if "i < length (text_at buf a)" for i
    using assms that by (simp add: text_at_def word_span_def)
  then have "list_all word_char (text_at buf a)" using assms by (auto simp: list_all_length text_at_def word_span_def)
  moreover have "0 < length (text_at buf a)" using assms by (auto simp: text_at_def word_span_def)
  ultimately show ?thesis by simp
qed

lemma map_cmd_cstring:
  "wf_cmd (word_span buf) c \<Longrightarrow> map_cmd (cstring (nulterminate c (buf @ [0]))) c = map_cmd (text_at buf) c"
  by (rule cmd.map_cong0) (rule cstring_token)

definition word :: "u8 list \<Rightarrow> bool" where "word w \<longleftrightarrow> w \<noteq> [] \<and> list_all word_char w"

lemma parsecmd_cases:
  assumes z: "0 \<notin> set buf"
  obtains (panic) m where "parsecmd buf = Inl (Panic m)"
    | (ok) c s where "parseline (parse_fuel buf) buf 0 = Inr (c, s)" "skip_space buf s = length buf"
        "wf_cmd (word_span buf) c" "parsecmd buf = Inr (c, nulterminate c (buf @ [0]))"
proof -
  have p: "parsed buf 0 (parseline (parse_fuel buf) buf 0)"
    using conjunct1 [OF parser_parsed [OF z, of "parse_fuel buf"]] by (simp add: parse_fuel_def)
  show ?thesis
  proof (cases "parseline (parse_fuel buf) buf 0")
    case (Inl e)
    then show ?thesis using p by (cases e) (auto simp: parsed_def parsecmd_def intro: panic)
  next
    case (Inr r)
    obtain c s where r: "r = (c, s)" by fastforce
    then have "wf_cmd (word_span buf) c" using p Inr by simp
    then show ?thesis using Inr r panic ok [of c s]
      by (cases "skip_space buf s = length buf") (simp_all add: parsecmd_def peek_def Let_def)
  qed
qed

text \<open>
  C34: The parser always ends: it reports a syntax error, or it builds a command the shell can run, with fewer than
  MAXARGS arguments everywhere, known redirections, and strings that are the whole words of the line.
\<close>

theorem parsecmd_well_formed:
  assumes "0 \<notin> set buf"
  shows "case parsecmd buf of
      Inl e \<Rightarrow> e \<noteq> Out_of_fuel
    | Inr (c, b) \<Rightarrow> wf_cmd word (map_cmd (cstring b) c) \<and>
        (\<forall>a \<in> set_cmd c. word_span buf a \<and> cstring b a = text_at buf a)"
  using assms
proof (cases rule: parsecmd_cases)
  case (panic m)
  then show ?thesis by simp
next
  case (ok c s)
  let ?b = "nulterminate c (buf @ [0])"
  have a: "word_span buf a \<and> cstring ?b a = text_at buf a" if "a \<in> set_cmd c" for a
    using cstring_token [OF ok(3) that] wf_cmd_set [OF ok(3) that] by simp
  have "wf_cmd (\<lambda>a. word (cstring ?b a)) c"
    by (rule wf_cmd_mono [OF ok(3)]) (use a text_at_word in \<open>simp add: word_def\<close>)
  then show ?thesis using ok(4) a by (simp add: wf_cmd_map)
qed

text \<open>The line \<open>ls|wc\<close>.\<close>

theorem parsecmd_well_formed_witness:
  "case parsecmd [108, 115, 124, 119, 99] of
      Inl e \<Rightarrow> e \<noteq> Out_of_fuel
    | Inr (c, b) \<Rightarrow> wf_cmd word (map_cmd (cstring b) c) \<and>
        (\<forall>a \<in> set_cmd c. word_span [108, 115, 124, 119, 99] a \<and> cstring b a = text_at [108, 115, 124, 119, 99] a)"
  by (rule parsecmd_well_formed) simp

end
