(* ===== verification/Sh_Print.thy ===== *)
theory Sh_Print
  imports Sh_Parse
begin

text \<open>
  Every well-formed command can be typed: \<open>show_cmd\<close> writes it as a line, with a space after each token and parentheses
  around the parts that are not simple commands, and the parser of user/sh.c reads exactly that command back.
\<close>

section \<open>Writing commands\<close>

definition show_words :: "u8 list list \<Rightarrow> u8 list" where
  "show_words ws = concat (map (\<lambda>w. w @ [32]) ws)"

definition show_redir :: "int \<Rightarrow> u8 list \<Rightarrow> u8 list" where
  "show_redir mode file = (if mode = 0 then [60] else if mode = 0x601 then [62] else [62, 62]) @ [32] @ file @ [32]"

fun simple :: "'p cmd \<Rightarrow> bool" where
  "simple (EXEC args) = True"
| "simple (REDIR c file mode fd) = True"
| "simple c = False"

definition paren :: "'p cmd \<Rightarrow> u8 list \<Rightarrow> u8 list" where
  "paren c t = (if simple c then t else [40, 32] @ t @ [41, 32])"

primrec show_cmd :: "u8 list cmd \<Rightarrow> u8 list" where
  "show_cmd (EXEC args) = show_words args"
| "show_cmd (REDIR c file mode fd) = paren c (show_cmd c) @ show_redir mode file"
| "show_cmd (PIPE l r) = paren l (show_cmd l) @ [124, 32] @ paren r (show_cmd r)"
| "show_cmd (LIST l r) = paren l (show_cmd l) @ [59, 32] @ paren r (show_cmd r)"
| "show_cmd (BACK c) = paren c (show_cmd c) @ [38, 32]"

abbreviation atom :: "u8 list cmd \<Rightarrow> u8 list" where "atom c \<equiv> paren c (show_cmd c)"

section \<open>Reading tokens\<close>

definition fresh :: "u8 list \<Rightarrow> bool" where "fresh xs \<longleftrightarrow> xs = [] \<or> \<not> whitespace (hd xs)"

lemma fresh_simps [simp]: "fresh []" "fresh (x # xs) \<longleftrightarrow> \<not> whitespace x"
  by (simp_all add: fresh_def)

lemma fresh_append: "fresh a \<Longrightarrow> (a = [] \<Longrightarrow> fresh b) \<Longrightarrow> fresh (a @ b)"
  by (cases a) simp_all

lemma space_32 [simp]: "whitespace 32"
  by (simp add: whitespace_def)

lemma not_space [simp]:
  "\<not> whitespace 124" "\<not> whitespace 40" "\<not> whitespace 41" "\<not> whitespace 59" "\<not> whitespace 38" "\<not> whitespace 60" "\<not> whitespace 62"
  by (simp_all add: whitespace_def)

lemma byte_at: "drop s buf = x # xs \<Longrightarrow> byte buf s = x"
  by (metis byte_def drop_all hd_drop_conv_nth leI list.discI list.sel(1))

lemma byte_end: "drop s buf = [] \<Longrightarrow> byte buf s = 0"
  by (simp add: byte_def)

lemma drop_step: "drop s buf = a @ xs \<Longrightarrow> drop (s + length a) buf = xs"
  by (metis add.commute append_eq_conv_conj drop_drop)

lemma drop_step1: "drop s buf = x # xs \<Longrightarrow> drop (Suc s) buf = xs"
  using drop_step [of s buf "[x]" xs] by simp

lemma skip_fresh: "drop s buf = xs \<Longrightarrow> fresh xs \<Longrightarrow> skip_space buf s = s"
  by (cases xs) (simp_all add: skip_space_def)

lemma skip_one: "drop s buf = 32 # xs \<Longrightarrow> fresh xs \<Longrightarrow> skip_space buf s = Suc s"
  by (cases xs) (simp_all add: skip_space_def)

lemma peek_no: "drop s buf = xs \<Longrightarrow> fresh xs \<Longrightarrow> xs = [] \<or> hd xs \<notin> set toks \<Longrightarrow> peek buf s toks = (False, s)"
  by (cases xs) (simp_all add: peek_def Let_def skip_fresh byte_at byte_end)

lemma peek_yes: "drop s buf = x # xs \<Longrightarrow> \<not> whitespace x \<Longrightarrow> x \<noteq> 0 \<Longrightarrow> x \<in> set toks \<Longrightarrow> peek buf s toks = (True, s)"
  by (simp add: peek_def Let_def skip_fresh byte_at)

lemma gettoken_end: "drop s buf = [] \<Longrightarrow> gettoken buf s = (0, s, s, s)"
  by (simp add: gettoken_def Let_def skip_fresh byte_end)

lemma gettoken_sym:
  assumes d: "drop s buf = x # 32 # xs" and x: "x \<in> {124, 40, 41, 59, 38, 60, 62}" and f: "fresh xs"
  shows "gettoken buf s = (x, s, Suc s, Suc (Suc s))"
proof -
  have "\<not> whitespace x" "x \<noteq> 0" using x by auto
  then have q: "skip_space buf s = s" using skip_fresh [OF d] by simp
  have d1: "drop (Suc s) buf = 32 # xs" by (rule drop_step1 [OF d])
  have e: "skip_space buf (Suc s) = Suc (Suc s)" by (rule skip_one [OF d1 f])
  show ?thesis using x q e byte_at [OF d] byte_at [OF d1] by (auto simp: gettoken_def Let_def)
qed

lemma gettoken_append:
  assumes d: "drop s buf = 62 # 62 # 32 # xs" and f: "fresh xs"
  shows "gettoken buf s = (43, s, Suc (Suc s), Suc (Suc (Suc s)))"
proof -
  have q: "skip_space buf s = s" using skip_fresh [OF d] by simp
  have d1: "drop (Suc s) buf = 62 # 32 # xs" by (rule drop_step1 [OF d])
  have d2: "drop (Suc (Suc s)) buf = 32 # xs" by (rule drop_step1 [OF d1])
  have e: "skip_space buf (Suc (Suc s)) = Suc (Suc (Suc s))" by (rule skip_one [OF d2 f])
  show ?thesis using q e byte_at [OF d] byte_at [OF d1] by (simp add: gettoken_def Let_def)
qed

lemma gettoken_word:
  assumes d: "drop s buf = w @ 32 # xs" and w: "word w" and f: "fresh xs"
  shows "gettoken buf s = (97, s, s + length w, Suc (s + length w))" "text_at buf (s, s + length w) = w"
proof -
  obtain a w' where a: "w = a # w'" "word_char a" using w by (cases w) (auto simp: word_def)
  have d0: "drop s buf = a # w' @ 32 # xs" using d a by simp
  have q: "skip_space buf s = s" using skip_fresh [OF d0] a(2) by (simp add: word_char_def)
  have "takeWhile (\<lambda>c. \<not> whitespace c \<and> \<not> symbol c) (drop s buf) = w"
    using w d by (simp add: takeWhile_append2 word_def list_all_iff word_char_def)
  then have e: "skip_word buf s = s + length w" by (simp add: skip_word_def)
  have "drop (s + length w) buf = 32 # xs" by (rule drop_step [OF d])
  then have e2: "skip_space buf (s + length w) = Suc (s + length w)" using f by (rule skip_one)
  have b: "byte buf s = a" by (rule byte_at [OF d0])
  have "a \<noteq> 0" "a \<notin> {124, 40, 41, 59, 38, 60}" "a \<noteq> 62" using a(2) by (auto simp: word_char_def symbol_def)
  then show "gettoken buf s = (97, s, s + length w, Suc (s + length w))"
    using q e e2 b by (simp add: gettoken_def Let_def)
  show "text_at buf (s, s + length w) = w" using d by (simp add: text_at_def)
qed

section \<open>Reading commands\<close>

definition yields :: "u8 list \<Rightarrow> shell_error + span cmd \<times> nat \<Rightarrow> nat \<Rightarrow> u8 list cmd \<Rightarrow> bool" where
  "yields buf R t c \<longleftrightarrow> (\<exists>r. R = Inr (r, t) \<and> map_cmd (text_at buf) r = c)"

lemma yields_Inr [simp]: "yields buf (Inr (r, t)) t' c \<longleftrightarrow> t = t' \<and> map_cmd (text_at buf) r = c"
  by (auto simp: yields_def)

lemma yields_bind:
  "yields buf R t c \<Longrightarrow> (\<And>r. map_cmd (text_at buf) r = c \<Longrightarrow> yields buf (f (r, t)) t' c') \<Longrightarrow> yields buf (ebind R f) t' c'"
  by (auto simp: yields_def)

type_synonym redirs = "(int \<times> int \<times> u8 list) list"

definition wrap :: "u8 list cmd \<Rightarrow> redirs \<Rightarrow> u8 list cmd" where
  "wrap c rs = foldl (\<lambda>c (mode, fd, file). REDIR c file mode fd) c rs"

definition show_redirs :: "redirs \<Rightarrow> u8 list" where
  "show_redirs rs = concat (map (\<lambda>(mode, fd, file). show_redir mode file) rs)"

definition redirs_ok :: "redirs \<Rightarrow> bool" where
  "redirs_ok rs \<longleftrightarrow> list_all (\<lambda>(mode, fd, file). word file \<and> (mode, fd) \<in> {(0, 0), (0x601, 1), (0x201, 1)}) rs"

lemma redirs_simps [simp]:
  "wrap c [] = c" "wrap c ((mode, fd, file) # rs) = wrap (REDIR c file mode fd) rs"
  "show_redirs [] = []" "show_redirs ((mode, fd, file) # rs) = show_redir mode file @ show_redirs rs"
  "redirs_ok []" "redirs_ok ((mode, fd, file) # rs) \<longleftrightarrow> word file \<and> (mode, fd) \<in> {(0, 0), (0x601, 1), (0x201, 1)} \<and> redirs_ok rs"
  by (simp_all add: wrap_def show_redirs_def redirs_ok_def)

text \<open>Where a command ends: at the end of the line or before one of the symbols that no command starts with.\<close>

definition stop :: "u8 list \<Rightarrow> bool" where "stop xs \<longleftrightarrow> xs = [] \<or> hd xs \<in> {124, 41, 38, 59}"

lemma stop_simps [simp]: "stop []" "stop (x # xs) \<longleftrightarrow> x \<in> {124, 41, 38, 59}"
  by (simp_all add: stop_def)

lemma stop_fresh: "stop xs \<Longrightarrow> fresh xs"
  by (cases xs) auto

lemma fresh_word: "word w \<Longrightarrow> fresh (w @ xs)"
  by (cases w) (auto simp: word_def word_char_def)

lemma fresh_show_redirs: "fresh xs \<Longrightarrow> fresh (show_redirs rs @ xs)"
  by (cases rs) (auto simp: show_redir_def)

lemma hd_word: "word w \<Longrightarrow> hd (w @ xs) \<notin> {60, 124, 62, 38, 59, 40, 41}"
  by (cases w) (auto simp: word_def word_char_def symbol_def)

lemma parseredirs_stop:
  "drop s buf = xs \<Longrightarrow> fresh xs \<Longrightarrow> xs = [] \<or> hd xs \<notin> {60, 62} \<Longrightarrow> 0 < n \<Longrightarrow> parseredirs n buf c s = Inr (c, s)"
  by (cases n) (auto simp: peek_no)

lemma parseargs_stop: "drop s buf = xs \<Longrightarrow> stop xs \<Longrightarrow> 0 < n \<Longrightarrow> parseargs n buf k c s = Inr (c, s)"
proof (cases xs)
  case Nil
  moreover assume "drop s buf = xs" "0 < n"
  ultimately show ?thesis by (cases n) (simp_all add: peek_no [of s buf "[]"] gettoken_end)
next
  case (Cons x ys)
  moreover assume d: "drop s buf = xs" and x: "stop xs" and n: "0 < n"
  ultimately have "peek buf s [124, 41, 38, 59] = (True, s)" by (intro peek_yes [of s buf x ys]) auto
  then show ?thesis using n by (cases n) simp_all
qed

lemma gettoken_op:
  assumes d: "drop s buf = p @ 32 # xs" and p: "(p, t) \<in> {([60], 60), ([62], 62), ([62, 62], 43)}" and f: "fresh xs"
  shows "peek buf s [60, 62] = (True, s) \<and> gettoken buf s = (t, s, s + length p, Suc (s + length p))"
proof -
  consider "p = [60] \<and> t = 60" | "p = [62] \<and> t = 62" | "p = [62, 62] \<and> t = 43" using p by blast
  then show ?thesis
  proof cases
    case 1
    then show ?thesis using d f peek_yes [of s buf 60 "32 # xs"] gettoken_sym [of s buf 60 xs] by simp
  next
    case 2
    then show ?thesis using d f peek_yes [of s buf 62 "32 # xs"] gettoken_sym [of s buf 62 xs] by simp
  next
    case 3
    then show ?thesis using d f peek_yes [of s buf 62 "62 # 32 # xs"] gettoken_append [of s buf xs] by simp
  qed
qed

lemma parseredirs_step:
  assumes d: "drop s buf = show_redir mode file @ xs" and w: "word file" and m: "(mode, fd) \<in> {(0, 0), (0x601, 1), (0x201, 1)}"
    and f: "fresh xs"
  shows "\<exists>a. text_at buf a = file \<and> parseredirs (Suc n) buf c s = parseredirs n buf (REDIR c a mode fd) (s + length (show_redir mode file))"
proof -
  obtain p t where p: "(p, t) \<in> {([60], 60), ([62], 62), ([62, 62], 43)}" "show_redir mode file = p @ [32] @ file @ [32]"
    "\<And>a. redir t a c = REDIR c a mode fd"
  proof -
    consider "mode = 0 \<and> fd = 0" | "mode = 0x601 \<and> fd = 1" | "mode = 0x201 \<and> fd = 1" using m by auto
    then show thesis
    proof cases
      case 1
      then show ?thesis by (intro that [of "[60]" 60]) (simp_all add: show_redir_def redir_def)
    next
      case 2
      then show ?thesis by (intro that [of "[62]" 62]) (simp_all add: show_redir_def redir_def)
    next
      case 3
      then show ?thesis by (intro that [of "[62, 62]" 43]) (simp_all add: show_redir_def redir_def)
    qed
  qed
  let ?q = "Suc (s + length p)"
  have d': "drop s buf = p @ 32 # (file @ 32 # xs)" using d p(2) by simp
  have o: "peek buf s [60, 62] = (True, s) \<and> gettoken buf s = (t, s, s + length p, ?q)"
    by (rule gettoken_op [OF d' p(1) fresh_word [OF w]])
  have "drop (s + length (p @ [32])) buf = file @ 32 # xs" by (rule drop_step) (use d' in simp)
  then have q: "drop ?q buf = file @ 32 # xs" by simp
  note g = gettoken_word [OF q w f]
  have "parseredirs (Suc n) buf c s = parseredirs n buf (REDIR c (?q, ?q + length file) mode fd) (Suc (?q + length file))"
    using o g(1) p(3) by simp
  then show ?thesis using g(2) by (intro exI [of _ "(?q, ?q + length file)"]) (simp del: parseredirs.simps add: p(2) add.assoc)
qed

lemma parseredirs_show:
  "drop s buf = show_redirs rs @ xs \<Longrightarrow> redirs_ok rs \<Longrightarrow> stop xs \<Longrightarrow> length (drop s buf) < n \<Longrightarrow>
    yields buf (parseredirs n buf c s) (s + length (show_redirs rs)) (wrap (map_cmd (text_at buf) c) rs)"
proof (induction rs arbitrary: s n c)
  case Nil
  then show ?case using parseredirs_stop [of s buf xs n c] stop_fresh [of xs] by (cases xs) auto
next
  case (Cons r rs)
  obtain mode fd fl where r: "r = (mode, fd, fl)" by (cases r) auto
  obtain n' where n: "n = Suc n'" using Cons.prems(4) by (cases n) auto
  let ?t = "s + length (show_redir mode fl)"
  have d: "drop s buf = show_redir mode fl @ (show_redirs rs @ xs)" using Cons.prems(1) r by simp
  have w: "word fl" "(mode, fd) \<in> {(0, 0), (0x601, 1), (0x201, 1)}" "redirs_ok rs" using Cons.prems(2) unfolding r redirs_simps by blast+
  obtain a where a: "text_at buf a = fl" "parseredirs (Suc n') buf c s = parseredirs n' buf (REDIR c a mode fd) ?t"
    using parseredirs_step [OF d w(1,2) fresh_show_redirs [OF stop_fresh [OF Cons.prems(3)]]] by blast
  have d': "drop ?t buf = show_redirs rs @ xs" by (rule drop_step [OF d])
  have "length (drop ?t buf) < n'" using Cons.prems(4) n d d' by (simp add: show_redir_def)
  from Cons.IH [OF d' w(3) Cons.prems(3) this, of "REDIR c a mode fd"]
  show ?case using n r a by (simp add: add.assoc)
qed

lemma parseargs_show:
  "drop s buf = show_words ws @ show_redirs rs @ xs \<Longrightarrow> list_all word ws \<Longrightarrow> ws \<noteq> [] \<Longrightarrow> redirs_ok rs \<Longrightarrow> stop xs \<Longrightarrow>
    length args + length ws < MAXARGS \<Longrightarrow> length (drop s buf) < n \<Longrightarrow>
    yields buf (parseargs n buf (length args) (EXEC args) s) (s + length (show_words ws @ show_redirs rs))
      (wrap (EXEC (map (text_at buf) args @ ws)) rs)"
proof (induction ws arbitrary: s n args)
  case (Cons w ws)
  obtain n' where n: "n = Suc n'" using Cons.prems(7) by (cases n) auto
  let ?rest = "show_words ws @ show_redirs rs @ xs" and ?a = "(s, s + length w)" and ?s2 = "Suc (s + length w)"
  have w: "word w" "list_all word ws" using Cons.prems(2) by auto
  have d: "drop s buf = w @ 32 # ?rest" using Cons.prems(1) by (simp add: show_words_def)
  have fr: "fresh ?rest"
    using w(2) fresh_word fresh_show_redirs [OF stop_fresh [OF Cons.prems(5)]] by (cases ws) (simp_all add: show_words_def)
  note g = gettoken_word [OF d w(1) fr]
  have pk: "peek buf s [124, 41, 38, 59] = (False, s)"
    using hd_word [OF w(1), of "32 # ?rest"] by (intro peek_no [OF d fresh_word [OF w(1)]]) auto
  have d2: "drop ?s2 buf = ?rest" using drop_step [of s buf "w @ [32]" ?rest] d by simp
  have l2: "length (drop ?s2 buf) < n'" using Cons.prems(7) n d d2 by simp
  have step: "parseargs n buf (length args) (EXEC args) s =
      ebind (parseredirs n' buf (EXEC (args @ [?a])) ?s2) (\<lambda>(ret, s3). parseargs n' buf (Suc (length args)) ret s3)"
    using n pk g(1) Cons.prems(6) by simp
  show ?case
  proof (cases "ws = []")
    case True
    then have y: "yields buf (parseredirs n' buf (EXEC (args @ [?a])) ?s2) (?s2 + length (show_redirs rs)) (wrap (EXEC (map (text_at buf) args @ [w])) rs)"
      using parseredirs_show [of ?s2 buf rs xs n' "EXEC (args @ [?a])"] d2 l2 g(2) Cons.prems(4,5) by (simp add: show_words_def)
    have "drop (?s2 + length (show_redirs rs)) buf = xs" using drop_step [of ?s2 buf "show_redirs rs" xs] d2 True by (simp add: show_words_def)
    then have e: "\<And>r. parseargs n' buf (Suc (length args)) r (?s2 + length (show_redirs rs)) = Inr (r, ?s2 + length (show_redirs rs))"
      using Cons.prems(5) l2 by (intro parseargs_stop) auto
    have "yields buf (parseargs n buf (length args) (EXEC args) s) (?s2 + length (show_redirs rs)) (wrap (EXEC (map (text_at buf) args @ [w])) rs)"
      unfolding step by (rule yields_bind [OF y]) (simp only: prod.case e yields_Inr)
    then show ?thesis using True by (simp add: show_words_def add.assoc)
  next
    case False
    then obtain v vs where v: "ws = v # vs" by (cases ws) auto
    have "hd ?rest \<notin> {60, 62}" using hd_word [of v "32 # show_words vs @ show_redirs rs @ xs"] w(2) v by (simp add: show_words_def)
    then have "parseredirs n' buf (EXEC (args @ [?a])) ?s2 = Inr (EXEC (args @ [?a]), ?s2)"
      using l2 by (intro parseredirs_stop [OF d2 fr]) auto
    moreover have "yields buf (parseargs n' buf (length (args @ [?a])) (EXEC (args @ [?a])) ?s2) (?s2 + length (show_words ws @ show_redirs rs))
        (wrap (EXEC (map (text_at buf) (args @ [?a]) @ ws)) rs)"
      using Cons.prems(6) False by (intro Cons.IH [OF d2 w(2) _ Cons.prems(4,5) _ l2]) simp_all
    ultimately show ?thesis unfolding step using g(2) by (simp add: show_words_def add.assoc)
  qed
qed simp

text \<open>What \<open>parseexec\<close> and \<open>parseline\<close> do on the text of a command.\<close>

definition exec_reads :: "u8 list cmd \<Rightarrow> bool" where
  "exec_reads c \<longleftrightarrow> (\<forall>buf s n rs xs. drop s buf = atom c @ show_redirs rs @ xs \<longrightarrow> redirs_ok rs \<longrightarrow> stop xs \<longrightarrow>
     4 * length (drop s buf) + 2 \<le> n \<longrightarrow> yields buf (parseexec n buf s) (s + length (atom c @ show_redirs rs)) (wrap c rs))"

definition line_reads :: "u8 list cmd \<Rightarrow> bool" where
  "line_reads c \<longleftrightarrow> (\<forall>buf s n xs. drop s buf = show_cmd c @ xs \<longrightarrow> xs = [] \<or> hd xs = 41 \<longrightarrow>
     4 * length (drop s buf) + 4 \<le> n \<longrightarrow> yields buf (parseline n buf s) (s + length (show_cmd c)) c)"

lemma exec_readsD:
  "exec_reads c \<Longrightarrow> drop s buf = atom c @ xs \<Longrightarrow> stop xs \<Longrightarrow> 4 * length (drop s buf) + 2 \<le> n \<Longrightarrow>
    yields buf (parseexec n buf s) (s + length (atom c)) c"
  unfolding exec_reads_def by (metis append.left_neutral append_Nil2 redirs_simps(1,3,5))

lemma exec_reads_EXEC:
  assumes "wf_cmd word (EXEC ws)"
  shows "exec_reads (EXEC ws)"
  unfolding exec_reads_def
proof (intro allI impI)
  fix buf s n rs xs
  assume d: "drop s buf = atom (EXEC ws) @ show_redirs rs @ xs" and r: "redirs_ok rs" and x: "stop xs" and n: "4 * length (drop s buf) + 2 \<le> n"
  obtain n' where n': "n = Suc n'" using n by (cases n) auto
  have l: "length (drop s buf) < n'" using n n' by simp
  have ws: "length ws < MAXARGS" "list_all word ws" using assms by auto
  have d': "drop s buf = show_words ws @ show_redirs rs @ xs" using d by (simp add: paren_def)
  show "yields buf (parseexec n buf s) (s + length (atom (EXEC ws) @ show_redirs rs)) (wrap (EXEC ws) rs)"
  proof (cases ws)
    case Nil
    then have d0: "drop s buf = show_redirs rs @ xs" using d' by (simp add: show_words_def)
    have "show_redirs rs @ xs = [] \<or> hd (show_redirs rs @ xs) \<noteq> 40"
      using x by (cases rs) (auto simp: show_redir_def stop_def split: if_splits)
    then have pk: "peek buf s [40] = (False, s)" by (intro peek_no [OF d0 fresh_show_redirs [OF stop_fresh [OF x]]]) auto
    have y: "yields buf (parseredirs n' buf (EXEC []) s) (s + length (show_redirs rs)) (wrap (EXEC []) rs)"
      using parseredirs_show [OF d0 r x l, of "EXEC []"] by simp
    have "drop (s + length (show_redirs rs)) buf = xs" by (rule drop_step [OF d0])
    then have e: "\<And>r. parseargs n' buf 0 r (s + length (show_redirs rs)) = Inr (r, s + length (show_redirs rs))"
      using x l by (intro parseargs_stop) auto
    have "yields buf (ebind (parseredirs n' buf (EXEC []) s) (\<lambda>(ret, s2). parseargs n' buf 0 ret s2)) (s + length (show_redirs rs)) (wrap (EXEC []) rs)"
      by (rule yields_bind [OF y]) (simp only: prod.case e yields_Inr)
    then show ?thesis using n' pk Nil by (simp add: paren_def show_words_def)
  next
    case (Cons w vs)
    have w: "word w" using ws Cons by simp
    have dw: "drop s buf = w @ (32 # show_words vs @ show_redirs rs @ xs)" using d' Cons by (simp add: show_words_def)
    note h = hd_word [OF w, of "32 # show_words vs @ show_redirs rs @ xs"] and f = fresh_word [OF w, of "32 # show_words vs @ show_redirs rs @ xs"]
    have pk: "peek buf s [40] = (False, s)" using h by (intro peek_no [OF dw f]) auto
    have pr: "parseredirs n' buf (EXEC []) s = Inr (EXEC [], s)" using h l by (intro parseredirs_stop [OF dw f]) auto
    have "yields buf (parseargs n' buf (length ([] :: span list)) (EXEC []) s) (s + length (show_words ws @ show_redirs rs))
        (wrap (EXEC (map (text_at buf) [] @ ws)) rs)"
      by (rule parseargs_show [OF d' ws(2) _ r x _ l]) (use ws(1) Cons in simp_all)
    then show ?thesis using n' pk pr by (simp add: paren_def)
  qed
qed

lemma exec_reads_REDIR:
  assumes "exec_reads c" and w: "wf_cmd word (REDIR c file mode fd)"
  shows "exec_reads (REDIR c file mode fd)"
  unfolding exec_reads_def
proof (intro allI impI)
  fix buf s n rs xs
  assume d: "drop s buf = atom (REDIR c file mode fd) @ show_redirs rs @ xs" and r: "redirs_ok rs" and x: "stop xs"
    and n: "4 * length (drop s buf) + 2 \<le> n"
  have t: "atom (REDIR c file mode fd) @ show_redirs rs = atom c @ show_redirs ((mode, fd, file) # rs)" by (simp add: paren_def)
  have "redirs_ok ((mode, fd, file) # rs)" using w r by simp
  moreover have "drop s buf = atom c @ show_redirs ((mode, fd, file) # rs) @ xs" using d t by (metis append.assoc)
  ultimately have "yields buf (parseexec n buf s) (s + length (atom c @ show_redirs ((mode, fd, file) # rs))) (wrap c ((mode, fd, file) # rs))"
    using assms(1) x n unfolding exec_reads_def by blast
  then show "yields buf (parseexec n buf s) (s + length (atom (REDIR c file mode fd) @ show_redirs rs)) (wrap (REDIR c file mode fd) rs)"
    unfolding t by simp
qed

lemma parsepipe_atom:
  assumes c: "exec_reads c" and d: "drop s buf = atom c @ xs" and x: "stop xs" "xs = [] \<or> hd xs \<noteq> 124"
    and n: "4 * length (drop s buf) + 3 \<le> n"
  shows "yields buf (parsepipe n buf s) (s + length (atom c)) c"
proof -
  obtain n' where n': "n = Suc n'" using n by (cases n) auto
  have y: "yields buf (parseexec n' buf s) (s + length (atom c)) c" using n n' by (intro exec_readsD [OF c d x(1)]) simp
  have "peek buf (s + length (atom c)) [124] = (False, s + length (atom c))"
    using x by (intro peek_no [OF drop_step [OF d] stop_fresh]) auto
  then show ?thesis unfolding n' parsepipe.simps by (intro yields_bind [OF y]) simp
qed

lemma parsebacks_stop: "drop s buf = xs \<Longrightarrow> fresh xs \<Longrightarrow> xs = [] \<or> hd xs \<noteq> 38 \<Longrightarrow> 0 < n \<Longrightarrow> parsebacks n buf c s = Inr (c, s)"
  by (cases n) (simp_all add: peek_no)

lemma parseline_end:
  assumes y: "yields buf (parsepipe n buf s) t c" and d: "drop t buf = xs" and x: "xs = [] \<or> hd xs = 41" and n: "0 < n"
  shows "yields buf (parseline (Suc n) buf s) t c"
proof -
  have f: "fresh xs" using x by (cases xs) auto
  have "\<And>r. parsebacks n buf r t = Inr (r, t)" using x n by (intro parsebacks_stop [OF d f]) auto
  moreover have "peek buf t [59] = (False, t)" using x by (intro peek_no [OF d f]) auto
  ultimately show ?thesis unfolding parseline.simps by (intro yields_bind [OF y]) simp
qed

lemma parseline_atom:
  assumes c: "exec_reads c" and d: "drop s buf = atom c @ xs" and x: "xs = [] \<or> hd xs = 41" and n: "4 * length (drop s buf) + 4 \<le> n"
  shows "yields buf (parseline n buf s) (s + length (atom c)) c"
proof -
  obtain n' where n': "n = Suc n'" using n by (cases n) auto
  have st: "stop xs" "xs = [] \<or> hd xs \<noteq> 124" using x by (cases xs; simp)+
  have "yields buf (parsepipe n' buf s) (s + length (atom c)) c" using n n' by (intro parsepipe_atom [OF c d st]) simp
  then show ?thesis unfolding n' using n n' by (intro parseline_end [OF _ drop_step [OF d] x]) simp_all
qed

lemma fresh_atom:
  assumes "wf_cmd word c" "fresh xs"
  shows "fresh (atom c @ xs)"
proof -
  have "fresh (show_cmd c @ xs)" if "wf_cmd word c" "simple c" "fresh xs" for c xs
    using that
  proof (induction c arbitrary: xs)
    case (EXEC args)
    then show ?case using fresh_word by (cases args) (simp_all add: show_words_def)
  next
    case (REDIR c f m fd)
    then show ?case by (cases "simple c") (simp_all add: paren_def show_redir_def)
  qed simp_all
  then show ?thesis using assms by (cases "simple c") (simp_all add: paren_def)
qed

lemma line_reads_PIPE:
  assumes l: "exec_reads l" and r: "exec_reads r" and w: "wf_cmd word r"
  shows "line_reads (PIPE l r)"
  unfolding line_reads_def
proof (intro allI impI)
  fix buf s n xs
  assume d: "drop s buf = show_cmd (PIPE l r) @ xs" and x: "xs = [] \<or> hd xs = 41" and n: "4 * length (drop s buf) + 4 \<le> n"
  obtain n' where n': "n = Suc (Suc n')" using n by (cases n; cases "n - 1") auto
  have st: "stop xs" "xs = [] \<or> hd xs \<noteq> 124" using x by (cases xs; simp)+
  have dl: "drop s buf = atom l @ (124 # 32 # atom r @ xs)" using d by simp
  let ?t = "s + length (atom l)"
  have dt: "drop ?t buf = 124 # 32 # atom r @ xs" by (rule drop_step [OF dl])
  have dr: "drop (Suc (Suc ?t)) buf = atom r @ xs" by (rule drop_step1 [OF drop_step1 [OF dt]])
  have y: "yields buf (parseexec n' buf s) ?t l" using n n' by (intro exec_readsD [OF l dl]) simp_all
  have pk: "peek buf ?t [124] = (True, ?t)" by (rule peek_yes [OF dt]) simp_all
  have g: "gettoken buf ?t = (124, ?t, Suc ?t, Suc (Suc ?t))"
    by (rule gettoken_sym [OF dt]) (simp_all add: fresh_atom [OF w stop_fresh [OF st(1)]])
  have y2: "yields buf (parsepipe n' buf (Suc (Suc ?t))) (Suc (Suc ?t) + length (atom r)) r"
    using n n' dl dr by (intro parsepipe_atom [OF r dr st]) simp
  have "yields buf (parsepipe (Suc n') buf s) (Suc (Suc ?t) + length (atom r)) (PIPE l r)"
    unfolding parsepipe.simps
  proof (rule yields_bind [OF y], goal_cases)
    case (1 c)
    have "yields buf (ebind (parsepipe n' buf (Suc (Suc ?t))) (\<lambda>(c2, s4). Inr (PIPE c c2, s4))) (Suc (Suc ?t) + length (atom r)) (PIPE l r)"
      by (rule yields_bind [OF y2]) (simp add: 1)
    then show ?case using pk g by simp
  qed
  then have "yields buf (parseline n buf s) (Suc (Suc ?t) + length (atom r)) (PIPE l r)"
    unfolding n' by (rule parseline_end [OF _ drop_step [OF dr] x]) simp
  then show "yields buf (parseline n buf s) (s + length (show_cmd (PIPE l r))) (PIPE l r)" by (simp add: add.assoc)
qed

lemma line_reads_LIST:
  assumes l: "exec_reads l" and r: "exec_reads r" and w: "wf_cmd word r"
  shows "line_reads (LIST l r)"
  unfolding line_reads_def
proof (intro allI impI)
  fix buf s n xs
  assume d: "drop s buf = show_cmd (LIST l r) @ xs" and x: "xs = [] \<or> hd xs = 41" and n: "4 * length (drop s buf) + 4 \<le> n"
  obtain n' where n': "n = Suc n'" using n by (cases n) auto
  have st: "stop xs" using x by (cases xs; simp)
  have dl: "drop s buf = atom l @ (59 # 32 # atom r @ xs)" using d by simp
  let ?t = "s + length (atom l)"
  have dt: "drop ?t buf = 59 # 32 # atom r @ xs" by (rule drop_step [OF dl])
  have dr: "drop (Suc (Suc ?t)) buf = atom r @ xs" by (rule drop_step1 [OF drop_step1 [OF dt]])
  have y: "yields buf (parsepipe n' buf s) ?t l" using n n' by (intro parsepipe_atom [OF l dl]) simp_all
  have b: "\<And>c. parsebacks n' buf c ?t = Inr (c, ?t)" using n n' dl by (intro parsebacks_stop [OF dt]) simp_all
  have pk: "peek buf ?t [59] = (True, ?t)" by (rule peek_yes [OF dt]) simp_all
  have g: "gettoken buf ?t = (59, ?t, Suc ?t, Suc (Suc ?t))"
    by (rule gettoken_sym [OF dt]) (simp_all add: fresh_atom [OF w stop_fresh [OF st]])
  have y2: "yields buf (parseline n' buf (Suc (Suc ?t))) (Suc (Suc ?t) + length (atom r)) r"
    using n n' dl dr by (intro parseline_atom [OF r dr x]) simp
  have "yields buf (parseline n buf s) (Suc (Suc ?t) + length (atom r)) (LIST l r)"
    unfolding n' parseline.simps
  proof (rule yields_bind [OF y], goal_cases)
    case (1 c)
    have "yields buf (ebind (parseline n' buf (Suc (Suc ?t))) (\<lambda>(c2, s5). Inr (LIST c c2, s5))) (Suc (Suc ?t) + length (atom r)) (LIST l r)"
      by (rule yields_bind [OF y2]) (simp add: 1)
    then show ?case using b pk g by simp
  qed
  then show "yields buf (parseline n buf s) (s + length (show_cmd (LIST l r))) (LIST l r)" by (simp add: add.assoc)
qed

lemma line_reads_BACK:
  assumes c: "exec_reads c"
  shows "line_reads (BACK c)"
  unfolding line_reads_def
proof (intro allI impI)
  fix buf s n xs
  assume d: "drop s buf = show_cmd (BACK c) @ xs" and x: "xs = [] \<or> hd xs = 41" and n: "4 * length (drop s buf) + 4 \<le> n"
  obtain n' where n': "n = Suc (Suc n')" using n by (cases n; cases "n - 1") auto
  have f: "fresh xs" using x by (cases xs) auto
  have dl: "drop s buf = atom c @ (38 # 32 # xs)" using d by simp
  let ?t = "s + length (atom c)"
  have dt: "drop ?t buf = 38 # 32 # xs" by (rule drop_step [OF dl])
  have dr: "drop (Suc (Suc ?t)) buf = xs" by (rule drop_step1 [OF drop_step1 [OF dt]])
  have y: "yields buf (parsepipe (Suc n') buf s) ?t c" using n n' by (intro parsepipe_atom [OF c dl]) simp_all
  have pk: "peek buf ?t [38] = (True, ?t)" by (rule peek_yes [OF dt]) simp_all
  have g: "gettoken buf ?t = (38, ?t, Suc ?t, Suc (Suc ?t))" by (rule gettoken_sym [OF dt _ f]) simp
  have "\<And>c. parsebacks n' buf c (Suc (Suc ?t)) = Inr (c, Suc (Suc ?t))"
    using n n' dl x by (intro parsebacks_stop [OF dr f]) auto
  then have b: "\<And>c. parsebacks (Suc n') buf c ?t = Inr (BACK c, Suc (Suc ?t))" using pk g by simp
  have "peek buf (Suc (Suc ?t)) [59] = (False, Suc (Suc ?t))" using x by (intro peek_no [OF dr f]) auto
  then have "yields buf (parseline n buf s) (Suc (Suc ?t)) (BACK c)"
    unfolding n' parseline.simps by (intro yields_bind [OF y]) (simp add: b del: parsebacks.simps)
  then show "yields buf (parseline n buf s) (s + length (show_cmd (BACK c))) (BACK c)" by simp
qed

lemma exec_reads_block:
  assumes c: "line_reads c" "wf_cmd word c" "\<not> simple c"
  shows "exec_reads c"
  unfolding exec_reads_def
proof (intro allI impI)
  fix buf s n rs xs
  assume d: "drop s buf = atom c @ show_redirs rs @ xs" and r: "redirs_ok rs" and x: "stop xs" and n: "4 * length (drop s buf) + 2 \<le> n"
  obtain n' where n': "n = Suc (Suc n')" using n by (cases n; cases "n - 1") auto
  let ?s = "Suc (Suc s)" and ?t = "Suc (Suc s) + length (show_cmd c)" and ?rest = "show_redirs rs @ xs"
  have d0: "drop s buf = 40 # 32 # show_cmd c @ (41 # 32 # ?rest)" using d c(3) by (simp add: paren_def)
  have d1: "drop ?s buf = show_cmd c @ (41 # 32 # ?rest)" by (rule drop_step1 [OF drop_step1 [OF d0]])
  have dt: "drop ?t buf = 41 # 32 # ?rest" by (rule drop_step [OF d1])
  have d2: "drop (Suc (Suc ?t)) buf = ?rest" by (rule drop_step1 [OF drop_step1 [OF dt]])
  have f: "fresh (show_cmd c @ (41 # 32 # ?rest))"
  proof (cases c)
    case (PIPE l r)
    then show ?thesis using fresh_atom [of l] c(2) by simp
  next
    case (LIST l r)
    then show ?thesis using fresh_atom [of l] c(2) by simp
  next
    case (BACK b)
    then show ?thesis using fresh_atom [of b] c(2) by simp
  qed (use c(3) in simp_all)
  have pk: "peek buf s [40] = (True, s)" by (rule peek_yes [OF d0]) simp_all
  have g: "gettoken buf s = (40, s, Suc s, ?s)" by (rule gettoken_sym [OF d0 _ f]) simp
  have "41 # 32 # ?rest = [] \<or> hd (41 # 32 # ?rest) = (41 :: u8)" by simp
  moreover have "4 * length (drop ?s buf) + 4 \<le> n'" using n n' d0 d1 by simp
  ultimately have y: "yields buf (parseline n' buf ?s) ?t c" using c(1) d1 unfolding line_reads_def by blast
  have pk2: "peek buf ?t [41] = (True, ?t)" by (rule peek_yes [OF dt]) simp_all
  have g2: "gettoken buf ?t = (41, ?t, Suc ?t, Suc (Suc ?t))"
    by (rule gettoken_sym [OF dt _ fresh_show_redirs [OF stop_fresh [OF x]]]) simp
  have l: "length (drop (Suc (Suc ?t)) buf) < n'" using n n' d0 d2 by simp
  have "yields buf (parseblock (Suc n') buf s) (Suc (Suc ?t) + length (show_redirs rs)) (wrap c rs)"
  proof -
    have "yields buf (ebind (parseline n' buf ?s) (\<lambda>(c, s3).
            case peek buf s3 [41] of
              (False, s4) \<Rightarrow> Inl (Panic ''syntax - missing )'')
            | (True, s4) \<Rightarrow> (case gettoken buf s4 of (_, _, _, s5) \<Rightarrow> parseredirs n' buf c s5)))
        (Suc (Suc ?t) + length (show_redirs rs)) (wrap c rs)"
    proof (rule yields_bind [OF y], goal_cases)
      case (1 p)
      show ?case using parseredirs_show [OF d2 r x l, of p] pk2 g2 by (simp add: 1)
    qed
    then show ?thesis using pk g by simp
  qed
  then show "yields buf (parseexec n buf s) (s + length (atom c @ show_redirs rs)) (wrap c rs)"
    using n' pk c(3) by (simp add: paren_def add.assoc)
qed

lemma wf_exec_reads: "wf_cmd word c \<Longrightarrow> exec_reads c"
proof (induction c)
  case (EXEC ws)
  then show ?case by (rule exec_reads_EXEC)
next
  case (REDIR c f m fd)
  then show ?case by (simp only: exec_reads_REDIR wf_cmd.simps)
next
  case (PIPE l r)
  then show ?case by (intro exec_reads_block [OF line_reads_PIPE]) simp_all
next
  case (LIST l r)
  then show ?case by (intro exec_reads_block [OF line_reads_LIST]) simp_all
next
  case (BACK c)
  then show ?case by (intro exec_reads_block [OF line_reads_BACK]) simp_all
qed

lemma wf_line_reads:
  assumes "wf_cmd word c"
  shows "line_reads c"
proof (cases "simple c")
  case True
  then show ?thesis
    using parseline_atom [OF wf_exec_reads [OF assms]] unfolding line_reads_def paren_def by simp
next
  case False
  then show ?thesis using assms
    by (cases c) (simp_all add: line_reads_PIPE line_reads_LIST line_reads_BACK wf_exec_reads)
qed

lemma show_no_zero:
  assumes "wf_cmd word c"
  shows "0 \<notin> set (show_cmd c)"
  using assms
proof (induction c)
  case (EXEC ws)
  then show ?case by (induction ws) (auto simp: show_words_def word_def list_all_iff word_char_def MAXARGS_def)
qed (auto simp: paren_def show_redir_def word_def list_all_iff word_char_def)

text \<open>
  C35: Every command of the shell can be typed: the line \<open>show_cmd c\<close> is parsed without an error to a command with
  the structure of \<open>c\<close> whose strings, once the buffer is terminated, are those of \<open>c\<close>. So the parser
  loses nothing of the grouping, of the order of the redirections or of the words.
\<close>

theorem parsecmd_show:
  assumes "wf_cmd word c"
  shows "\<exists>p b. parsecmd (show_cmd c) = Inr (p, b) \<and> map_cmd (cstring b) p = c"
proof -
  let ?buf = "show_cmd c"
  have z: "0 \<notin> set ?buf" using assms by (rule show_no_zero)
  have "yields ?buf (parseline (parse_fuel ?buf) ?buf 0) (length ?buf) c"
    using wf_line_reads [OF assms, unfolded line_reads_def, rule_format, of 0 ?buf "[]"] by (simp add: parse_fuel_def)
  then obtain p where p: "parseline (parse_fuel ?buf) ?buf 0 = Inr (p, length ?buf)" "map_cmd (text_at ?buf) p = c"
    by (auto simp: yields_def)
  show ?thesis using z
  proof (cases rule: parsecmd_cases)
    case (panic m)
    then show ?thesis using p(1) by (simp add: parsecmd_def peek_def skip_space_def)
  next
    case (ok p' s)
    then have "p' = p" using p(1) by simp
    then show ?thesis using ok(3,4) p(2) by (simp add: map_cmd_cstring)
  qed
qed

text \<open>The command \<open>(a & b c) > f | d\<close>, with a list in the place of the first \<open>&\<close>.\<close>

theorem parsecmd_show_witness:
  "\<exists>p b. parsecmd (show_cmd (PIPE (REDIR (LIST (BACK (EXEC [[97]])) (EXEC [[98], [99]])) [102] 0x601 1) (EXEC [[100]]))) = Inr (p, b) \<and>
     map_cmd (cstring b) p = PIPE (REDIR (LIST (BACK (EXEC [[97]])) (EXEC [[98], [99]])) [102] 0x601 1) (EXEC [[100]])"
  by (rule parsecmd_show)
    (simp add: MAXARGS_def word_def word_char_def whitespace_def symbol_def)

end
