(* ===== verification/Sh_Run.thy ===== *)
theory Sh_Run
  imports Sh_Print Ulib
begin

text \<open>
  What the shell starts: \<open>starts\<close> follows the requests of \<open>runcmd\<close> with the descriptor table of the process that
  makes them, under every answer the kernel may give, and says with which descriptors a program begins. The
  specification \<open>plumbed\<close> is the meaning of pipes and redirections without descriptors.
\<close>

section \<open>Descriptor tables\<close>

text \<open>What a descriptor refers to: a file the shell was given, a file that was opened, or an end of a pipe.\<close>

datatype stream = Given nat | Opened "u8 list" int | Pipe_end nat bool

type_synonym fds = "stream option list"

definition NOFILE_SH :: nat where "NOFILE_SH = 16"

text \<open>The lowest free descriptor, which open, dup and pipe use; the length of the table when there is none.\<close>

definition low_fd :: "fds \<Rightarrow> nat" where "low_fd t = length (takeWhile (\<lambda>x. x \<noteq> None) t)"

inductive starts :: "act \<Rightarrow> fds \<Rightarrow> u8 list \<Rightarrow> u8 list list \<Rightarrow> fds \<Rightarrow> bool" where
  exec_done: "starts (Exec path args k) t path args t"
| exec_fails: "starts k t p as u \<Longrightarrow> starts (Exec path args k) t p as u"
| write_err: "starts k t p as u \<Longrightarrow> starts (Write_err m w k) t p as u"
| close_fd: "starts k (t[nat fd := None]) p as u \<Longrightarrow> starts (Close fd k) t p as u"
| dup_done: "nat fd < length t \<Longrightarrow> t ! nat fd = Some f \<Longrightarrow> starts k (t[low_fd t := Some f]) p as u \<Longrightarrow> starts (Dup fd k) t p as u"
| dup_fails: "nat fd \<ge> length t \<or> t ! nat fd = None \<Longrightarrow> starts k t p as u \<Longrightarrow> starts (Dup fd k) t p as u"
| open_done: "low_fd t < length t \<Longrightarrow> starts good (t[low_fd t := Some (Opened path mode)]) p as u \<Longrightarrow> starts (Open path mode bad good) t p as u"
| open_fails: "starts bad t p as u \<Longrightarrow> starts (Open path mode bad good) t p as u"
| pipe_done: "a = low_fd t \<Longrightarrow> t1 = t[a := Some (Pipe_end n False)] \<Longrightarrow> b = low_fd t1 \<Longrightarrow> b < length t \<Longrightarrow>
    starts (good (int a, int b)) (t1[b := Some (Pipe_end n True)]) p as u \<Longrightarrow> starts (Pipe_call bad good) t p as u"
| pipe_fails: "starts bad t p as u \<Longrightarrow> starts (Pipe_call bad good) t p as u"
| fork_child: "starts child t p as u \<Longrightarrow> starts (Fork child parent bad) t p as u"
| fork_parent: "starts parent t p as u \<Longrightarrow> starts (Fork child parent bad) t p as u"
| fork_fails: "starts bad t p as u \<Longrightarrow> starts (Fork child parent bad) t p as u"
| wait: "starts k t p as u \<Longrightarrow> starts (Wait k) t p as u"

inductive_simps starts_simps [simp]:
  "starts (Exit x) t p as u"
  "starts (Exec path args k) t p as u"
  "starts (Write_err m w k) t p as u"
  "starts (Close fd k) t p as u"
  "starts (Dup fd k) t p as u"
  "starts (Open path mode bad good) t p as u"
  "starts (Pipe_call bad good) t p as u"
  "starts (Fork child parent bad) t p as u"
  "starts (Wait k) t p as u"

section \<open>The meaning of a command\<close>

text \<open>\<open>plumbed c i f p as i' f'\<close>: run with input \<open>i\<close> and output \<open>f\<close>, the command \<open>c\<close> may start the program \<open>p\<close> with input \<open>i'\<close>
  and output \<open>f'\<close>.\<close>

inductive plumbed :: "u8 list cmd \<Rightarrow> stream \<Rightarrow> stream \<Rightarrow> u8 list \<Rightarrow> u8 list list \<Rightarrow> stream \<Rightarrow> stream \<Rightarrow> bool" where
  "plumbed (EXEC (p # as)) i f p (p # as) i f"
| "plumbed c (Opened path mode) f p as i' f' \<Longrightarrow> plumbed (REDIR c path mode 0) i f p as i' f'"
| "plumbed c i (Opened path mode) p as i' f' \<Longrightarrow> plumbed (REDIR c path mode 1) i f p as i' f'"
| "plumbed l i (Pipe_end n True) p as i' f' \<Longrightarrow> plumbed (PIPE l r) i f p as i' f'"
| "plumbed r (Pipe_end n False) f p as i' f' \<Longrightarrow> plumbed (PIPE l r) i f p as i' f'"
| "plumbed l i f p as i' f' \<Longrightarrow> plumbed (LIST l r) i f p as i' f'"
| "plumbed r i f p as i' f' \<Longrightarrow> plumbed (LIST l r) i f p as i' f'"
| "plumbed c i f p as i' f' \<Longrightarrow> plumbed (BACK c) i f p as i' f'"

inductive_simps plumbed_simps [simp]:
  "plumbed (EXEC as) i f p bs i' f'"
  "plumbed (REDIR c path mode fd) i f p as i' f'"
  "plumbed (PIPE l r) i f p as i' f'"
  "plumbed (LIST l r) i f p as i' f'"
  "plumbed (BACK c) i f p as i' f'"

section \<open>The shell process\<close>

text \<open>The child that main forks for a line, and the command cd, which the shell does itself.\<close>

definition sh_child :: "u8 list \<Rightarrow> act" where
  "sh_child buf = (case parsecmd buf of
     Inl e \<Rightarrow> panic (case e of Panic m \<Rightarrow> m | Out_of_fuel \<Rightarrow> [])
   | Inr (c, b) \<Rightarrow> runcmd (map_cmd (cstring b) c))"

text \<open>
  One round of main: the prompt, a line of at most 99 bytes into a buffer that was cleared, and what is done with it. \<open>Spawn\<close>
  is the child that \<open>fork1\<close> makes (without one the shell panics) and that the shell waits for. \<open>Chdir\<close> takes the rest of the line without its last byte.
\<close>

datatype sh_action = Leave | Chdir "u8 list" | Spawn act

definition getcmd :: "u8 list \<Rightarrow> u8 list option \<times> u8 list" where
  "getcmd inp = (case gets inp 100 of (bs, rest) \<Rightarrow>
     (let line = takeWhile (\<lambda>c. c \<noteq> 0) bs in (if line = [] then None else Some line, rest)))"

definition sh_round :: "u8 list \<Rightarrow> sh_action \<times> u8 list" where
  "sh_round inp = (case getcmd inp of
     (None, rest) \<Rightarrow> (Leave, rest)
   | (Some line, rest) \<Rightarrow>
       (if take 3 line = [99, 100, 32] then Chdir (drop 3 (butlast line)) else Spawn (sh_child line), rest))"

text \<open>The descriptors 0, 1 and 2, and the rest of the table free.\<close>

definition std :: "stream \<Rightarrow> stream \<Rightarrow> stream \<Rightarrow> fds" where
  "std i f e = Some i # Some f # Some e # replicate (NOFILE_SH - 3) None"

lemma std_unfold: "std i f e = [Some i, Some f, Some e, None, None, None, None, None, None, None, None, None, None, None, None, None]"
  by (simp add: std_def NOFILE_SH_def eval_nat_numeral)

lemma panic_starts [simp]: "\<not> starts (panic m) t p as u"
  by (simp add: panic_def)

lemma fork1_starts [simp]: "starts (fork1 child parent) t p as u \<longleftrightarrow> starts child t p as u \<or> starts parent t p as u"
  by (simp add: fork1_def)

lemma runcmd_starts:
  "wf_cmd W c \<Longrightarrow> starts (runcmd c) (std i f e) p as u \<longleftrightarrow> (\<exists>i' f'. plumbed c i f p as i' f' \<and> u = std i' f' e)"
proof (induction c arbitrary: i f)
  case (EXEC args)
  then show ?case by (cases args) auto
next
  case (REDIR c path mode fd)
  then have "fd = 0 \<or> fd = 1" "wf_cmd W c" by auto
  then show ?case using REDIR.IH by (auto simp: std_unfold low_fd_def)
next
  case (PIPE l r)
  have l: "starts (runcmd l) (std i f e) p as u \<longleftrightarrow> (\<exists>i' f'. plumbed l i f p as i' f' \<and> u = std i' f' e)" for i f
    using PIPE by simp
  have r: "starts (runcmd r) (std i f e) p as u \<longleftrightarrow> (\<exists>i' f'. plumbed r i f p as i' f' \<and> u = std i' f' e)" for i f
    using PIPE by simp
  have e: "starts (runcmd (PIPE l r)) (std i f e) p as u \<longleftrightarrow>
      (\<exists>n. starts (runcmd l) (std i (Pipe_end n True) e) p as u \<or> starts (runcmd r) (std (Pipe_end n False) f e) p as u)"
    by (simp add: std_unfold low_fd_def)
  show ?case unfolding e l r by (simp del: starts_simps) blast
next
  case (LIST l r)
  then show ?case by auto
next
  case (BACK c)
  then show ?case by auto
qed

text \<open>
  C36: Whatever line is typed and however the kernel answers, the programs the shell starts are those of the parsed
  command, each with exactly the three descriptors its place in the pipes and redirections gives it: no end of a pipe
  is left open in a program that does not use it. A line with a syntax error starts nothing.
\<close>

theorem shell_plumbing:
  assumes "0 \<notin> set line"
  shows "starts (sh_child line) (std i f e) p as u \<longleftrightarrow>
    (\<exists>c b i' f'. parsecmd line = Inr (c, b) \<and> plumbed (map_cmd (cstring b) c) i f p as i' f' \<and> u = std i' f' e)"
  using assms
proof (cases rule: parsecmd_cases)
  case (panic m)
  then show ?thesis by (simp add: sh_child_def)
next
  case (ok c s)
  let ?b = "nulterminate c (line @ [0])"
  have "wf_cmd (\<lambda>_. True) (map_cmd (cstring ?b) c)" unfolding wf_cmd_map by (rule wf_cmd_mono [OF ok(3)]) simp
  from runcmd_starts [OF this] show ?thesis using ok(4) by (simp add: sh_child_def)
qed

text \<open>The line \<open>a|b>f\<close>: \<open>b\<close> reads the pipe and writes to the file.\<close>

theorem shell_plumbing_witness:
  "starts (sh_child [97, 124, 98, 62, 102]) (std (Given 0) (Given 1) (Given 2)) [98] [[98]]
     (std (Pipe_end 0 False) (Opened [102] 0x601) (Given 2))"
proof -
  have "parsecmd [97, 124, 98, 62, 102] = Inr (PIPE (EXEC [(0, 1)]) (REDIR (EXEC [(2, 3)]) (4, 5) 0x601 1), [97, 0, 98, 0, 102, 0])"
    by code_simp
  moreover have "cstring [97, 0, 98, 0, 102, 0] (2, 3) = [98]" "cstring [97, 0, 98, 0, 102, 0] (4, 5) = [102]"
    by (simp_all add: cstring_def)
  ultimately show ?thesis by (subst shell_plumbing) auto
qed

end
