(* ===== verification/Virtio.thy ===== *)
theory Virtio
  imports Bio Cstring Kalloc Ring
begin

unbundle bit_operations_syntax

text \<open>
  The disk driver, kernel/virtio_disk.c and kernel/virtio.h, and the device on the other side of its queues. A
  pointer that is given to the device is the object it points to. The lock vdisk_lock makes the parts of \<open>virtio_disk_rw\<close>
  between its sleeps, and the interrupt handler, one step each. The device is the one of section 5.2 of the virtio
  specification: it takes the heads that are available, performs them in any order, and reports each once, with the status
  of its choice: 0 for a transfer that was made, anything else (\<open>VIRTIO_BLK_S_IOERR\<close>, \<open>VIRTIO_BLK_S_UNSUPP\<close>) for one that failed.
\<close>

section \<open>Descriptors and queues\<close>

definition NUM :: nat where "NUM = 8"

definition VRING_DESC_F_NEXT :: u16 where "VRING_DESC_F_NEXT = 1"
definition VRING_DESC_F_WRITE :: u16 where "VRING_DESC_F_WRITE = 2"

datatype dma = Null | Ops nat | Data nat | Status nat

record virtq_desc =
  d_addr :: dma
  d_len :: u32
  d_flags :: u16
  d_next :: u16

record virtio_blk_req =
  q_type :: u32
  q_reserved :: u32
  q_sector :: u64

record vbuf = buf +
  b_disk :: bool

text \<open>
  \<open>struct disk\<close> with the two rings, the buffers, and the device: the heads it has seen (\<open>dev_avail\<close>), those it is working
  on, and its sectors of 512 bytes.
\<close>

record vdisk =
  desc :: "virtq_desc list"
  avail_idx :: u16
  avail_ring :: "u16 list"
  used_idx :: u16
  used_ring :: "u32 list"
  dfree :: "bool list"
  seen_idx :: u16
  info_b :: "nat option list"
  info_status :: "u8 list"
  ops :: "virtio_blk_req list"
  vbufs :: "vbuf list"
  dev_avail :: u16
  dev_work :: "nat list"
  sectors :: "nat \<Rightarrow> u8 list"

definition no_desc :: virtq_desc where
  "no_desc = \<lparr>d_addr = Null, d_len = 0, d_flags = 0, d_next = 0\<rparr>"

section \<open>The driver\<close>

definition alloc_desc :: "vdisk \<Rightarrow> nat option \<times> vdisk" where
  "alloc_desc s = (case find (\<lambda>i. dfree s ! i) [0..<NUM] of
     Some i \<Rightarrow> (Some i, s\<lparr>dfree := (dfree s)[i := False]\<rparr>)
   | None \<Rightarrow> (None, s))"

definition free_desc :: "nat \<Rightarrow> vdisk \<Rightarrow> vdisk option" where
  "free_desc i s =
     (if i \<ge> NUM then None
      else if dfree s ! i then None
      else Some (s\<lparr>desc := (desc s)[i := no_desc], dfree := (dfree s)[i := True]\<rparr>))"

partial_function (option) free_chain :: "nat \<Rightarrow> vdisk \<Rightarrow> vdisk option" where
  "free_chain i s = do {
     let flag = d_flags (desc s ! i);
     let nxt = unat (d_next (desc s ! i));
     s1 \<leftarrow> free_desc i s;
     if flag AND VRING_DESC_F_NEXT \<noteq> 0 then free_chain nxt s1 else Some s1 }"

text \<open>The loop of \<open>alloc3_desc\<close> with \<open>n\<close> descriptors to go; those it has are freed when there is none left.\<close>

primrec free_all :: "nat list \<Rightarrow> vdisk \<Rightarrow> vdisk option" where
  "free_all [] s = Some s"
| "free_all (i # is) s = do { s1 \<leftarrow> free_desc i s; free_all is s1 }"

primrec alloc_loop :: "nat \<Rightarrow> nat list \<Rightarrow> vdisk \<Rightarrow> (nat list option \<times> vdisk) option" where
  "alloc_loop 0 idx s = Some (Some idx, s)"
| "alloc_loop (Suc n) idx s = (case alloc_desc s of
     (Some i, s1) \<Rightarrow> alloc_loop n (idx @ [i]) s1
   | (None, s1) \<Rightarrow> do { s2 \<leftarrow> free_all idx s1; Some (None, s2) })"

definition alloc3_desc :: "vdisk \<Rightarrow> (nat list option \<times> vdisk) option" where
  "alloc3_desc s = alloc_loop 3 [] s"

text \<open>The three descriptors of a request for buffer \<open>b\<close>, and its entry in the available ring.\<close>

definition rw_format :: "nat \<Rightarrow> bool \<Rightarrow> nat \<Rightarrow> nat \<Rightarrow> nat \<Rightarrow> vdisk \<Rightarrow> vdisk" where
  "rw_format b write i0 i1 i2 s =
     (let sector = (ucast (b_blockno (vbufs s ! b) * 2) :: u64);
          d0 = \<lparr>d_addr = Ops i0, d_len = 16, d_flags = VRING_DESC_F_NEXT, d_next = of_nat i1\<rparr>;
          d1 = \<lparr>d_addr = Data b, d_len = of_nat BSIZE,
                d_flags = (if write then 0 else VRING_DESC_F_WRITE) OR VRING_DESC_F_NEXT, d_next = of_nat i2\<rparr>;
          d2 = \<lparr>d_addr = Status i0, d_len = 1, d_flags = VRING_DESC_F_WRITE, d_next = 0\<rparr>
      in s\<lparr>ops := (ops s)[i0 := \<lparr>q_type = (if write then 1 else 0), q_reserved = 0, q_sector = sector\<rparr>],
           desc := (desc s)[i0 := d0, i1 := d1, i2 := d2],
           info_status := (info_status s)[i0 := 0xff],
           info_b := (info_b s)[i0 := Some b],
           vbufs := (vbufs s)[b := (vbufs s ! b)\<lparr>b_disk := True\<rparr>],
           avail_ring := (avail_ring s)[unat (avail_idx s) mod NUM := of_nat i0],
           avail_idx := avail_idx s + 1\<rparr>)"

text \<open>\<open>virtio_disk_rw\<close> up to its second sleep: the head of the request, or no head when it sleeps for descriptors.\<close>

definition rw_begin :: "nat \<Rightarrow> bool \<Rightarrow> vdisk \<Rightarrow> (nat option \<times> vdisk) option" where
  "rw_begin b write s = do {
     (idx, s1) \<leftarrow> alloc3_desc s;
     Some (case idx of
        None \<Rightarrow> (None, s1)
      | Some l \<Rightarrow> (Some (l ! 0), rw_format b write (l ! 0) (l ! 1) (l ! 2) s1)) }"

text \<open>The rest of it, each time it wakes up: it sleeps again (\<open>False\<close>) or frees the chain and returns.\<close>

definition rw_end :: "nat \<Rightarrow> nat \<Rightarrow> vdisk \<Rightarrow> (bool \<times> vdisk) option" where
  "rw_end b i0 s =
     (if b_disk (vbufs s ! b) then Some (False, s)
      else do { s1 \<leftarrow> free_chain i0 (s\<lparr>info_b := (info_b s)[i0 := None]\<rparr>); Some (True, s1) })"

partial_function (option) virtio_disk_intr :: "vdisk \<Rightarrow> vdisk option" where
  "virtio_disk_intr s =
     (if seen_idx s = used_idx s then Some s
      else let id = unat (used_ring s ! (unat (seen_idx s) mod NUM)) in
        if id \<ge> NUM \<or> info_status s ! id \<noteq> 0 then None
        else case info_b s ! id of
          None \<Rightarrow> None
        | Some b \<Rightarrow> virtio_disk_intr (s\<lparr>vbufs := (vbufs s)[b := (vbufs s ! b)\<lparr>b_disk := False\<rparr>], seen_idx := seen_idx s + 1\<rparr>))"

section \<open>Initialisation\<close>

text \<open>
  \<open>virtio_disk_init\<close>: \<open>rd\<close> is what a read of a device register gives, at the time the code reads it; the result is the
  writes to registers in their order, the three pages of the queues, and the state of the driver over the given buffers.
\<close>

definition virtio_features :: "u32 \<Rightarrow> u32" where
  "virtio_features f = f AND NOT (push_bit 5 1 OR push_bit 7 1 OR push_bit 11 1 OR push_bit 12 1 OR push_bit 27 1 OR push_bit 29 1 OR push_bit 28 1)"

definition fresh_disk :: "vdisk \<Rightarrow> vdisk" where
  "fresh_disk s = s\<lparr>desc := replicate NUM no_desc, avail_idx := 0, avail_ring := replicate NUM 0, used_idx := 0,
     used_ring := replicate NUM 0, dfree := replicate NUM True\<rparr>"

definition virtio_disk_init ::
  "(u64 \<Rightarrow> u32) \<Rightarrow> 'a kmem_state_scheme \<Rightarrow> vdisk \<Rightarrow> ((u64 \<times> u32) list \<times> 'a kmem_state_scheme \<times> vdisk) option" where
  "virtio_disk_init rd k s =
     (if rd 0x000 \<noteq> 0x74726976 \<or> rd 0x004 \<noteq> 2 \<or> rd 0x008 \<noteq> 2 \<or> rd 0x00c \<noteq> 0x554d4551 then None
      else if rd 0x070 AND 8 = 0 then None
      else if rd 0x044 \<noteq> 0 then None
      else if rd 0x034 < of_nat NUM then None
      else case kalloc k of (p1, k1) \<Rightarrow> case kalloc k1 of (p2, k2) \<Rightarrow> case kalloc k2 of (p3, k3) \<Rightarrow>
        if p1 = 0 \<or> p2 = 0 \<or> p3 = 0 then None
        else let k4 = k3\<lparr>mem := memset (memset (memset (mem k3) p1 0 4096) p2 0 4096) p3 0 4096\<rparr> in
          Some ([(0x070, 0), (0x070, 1), (0x070, 3), (0x020, virtio_features (rd 0x010)), (0x070, 11), (0x030, 0), (0x038, of_nat NUM),
                 (0x080, ucast p1), (0x084, ucast (drop_bit 32 p1)), (0x090, ucast p2), (0x094, ucast (drop_bit 32 p2)),
                 (0x0a0, ucast p3), (0x0a4, ucast (drop_bit 32 p3)), (0x044, 1), (0x070, rd 0x070 OR 4)],
                k4, fresh_disk s))"

section \<open>The device\<close>

definition block_at :: "(nat \<Rightarrow> u8 list) \<Rightarrow> nat \<Rightarrow> block" where
  "block_at sec k = sec k @ sec (k + 1)"

definition dev_take :: "vdisk \<Rightarrow> vdisk option" where
  "dev_take s =
     (if dev_avail s = avail_idx s then None
      else Some (s\<lparr>dev_work := dev_work s @ [unat (avail_ring s ! (unat (dev_avail s) mod NUM))], dev_avail := dev_avail s + 1\<rparr>))"

text \<open>
  Performing the request with head \<open>h\<close>: a header, one buffer in the right direction and of the right length, and a
  status byte, which becomes \<open>st\<close>. When \<open>st\<close> is not 0 the transfer has failed, and the sectors of a write or the buffer of a
  read hold any bytes \<open>junk\<close>. On any other chain the device is free to do anything, which is \<open>None\<close>.
\<close>

definition dev_finish :: "nat \<Rightarrow> u8 \<Rightarrow> block \<Rightarrow> vdisk \<Rightarrow> vdisk option" where
  "dev_finish h st junk s =
     (let d0 = desc s ! h; d1 = desc s ! unat (d_next d0); d2 = desc s ! unat (d_next d1);
          s' = s\<lparr>used_ring := (used_ring s)[unat (used_idx s) mod NUM := of_nat h], used_idx := used_idx s + 1,
                  dev_work := remove1 h (dev_work s)\<rparr>
      in case (d_addr d0, d_addr d1, d_addr d2) of
        (Ops o0, Data b, Status k) \<Rightarrow>
          (let q = ops s ! o0; sec = unat (q_sector q); v = vbufs s ! b;
               d = (if st \<noteq> 0 then junk else if q_type q = 1 then b_data v else block_at (sectors s) sec) in
           if d_flags d0 = VRING_DESC_F_NEXT \<and> d_len d1 = of_nat BSIZE \<and> d_flags d2 = VRING_DESC_F_WRITE \<and>
              q_type q = 1 \<and> d_flags d1 = VRING_DESC_F_NEXT
           then Some (s'\<lparr>sectors := (sectors s)(sec := take 512 d, sec + 1 := drop 512 d), info_status := (info_status s)[k := st]\<rparr>)
           else if d_flags d0 = VRING_DESC_F_NEXT \<and> d_len d1 = of_nat BSIZE \<and> d_flags d2 = VRING_DESC_F_WRITE \<and>
              q_type q = 0 \<and> d_flags d1 = VRING_DESC_F_WRITE OR VRING_DESC_F_NEXT
           then Some (s'\<lparr>vbufs := (vbufs s)[b := v\<lparr>b_data := d\<rparr>], info_status := (info_status s)[k := st]\<rparr>)
           else None)
      | _ \<Rightarrow> None)"

section \<open>Processes, interrupts and the device together\<close>

text \<open>
  A request in flight: its buffer, its direction, its head, and (for the specification) what the block and the buffer are to
  hold at the end: the data of the buffer for a write, the block on the disk for a read, at the time of the call.
\<close>

record request =
  rq_buf :: nat
  rq_write :: bool
  rq_head :: nat
  rq_want :: block

definition sector_of :: "nat \<Rightarrow> vdisk \<Rightarrow> nat" where
  "sector_of b s = 2 * unat (b_blockno (vbufs s ! b))"

text \<open>
  The caller holds the sleep lock of the buffer, so no other request is for it, and the buffer cache has one buffer per
  block. While no request is in flight for a buffer its owner may change it (\<open>fill\<close>).
\<close>

definition may_begin :: "nat \<Rightarrow> vdisk \<times> request set \<Rightarrow> bool" where
  "may_begin b w \<longleftrightarrow> b < length (vbufs (fst w)) \<and> unat (b_blockno (vbufs (fst w) ! b)) < 2 ^ 31 \<and>
     (\<forall>r \<in> snd w. rq_buf r \<noteq> b \<and> sector_of (rq_buf r) (fst w) \<noteq> sector_of b (fst w))"

inductive disk_step :: "vdisk \<times> request set \<Rightarrow> vdisk \<times> request set \<Rightarrow> bool" where
  begin_rw: "may_begin b (s, R) \<Longrightarrow> rw_begin b write s = Some (Some h, s') \<Longrightarrow>
    disk_step (s, R) (s', insert \<lparr>rq_buf = b, rq_write = write, rq_head = h,
      rq_want = (if write then b_data (vbufs s ! b) else block_at (sectors s) (sector_of b s))\<rparr> R)"
| no_desc_left: "may_begin b (s, R) \<Longrightarrow> rw_begin b write s = Some (None, s') \<Longrightarrow> disk_step (s, R) (s', R)"
| end_rw: "r \<in> R \<Longrightarrow> rw_end (rq_buf r) (rq_head r) s = Some (True, s') \<Longrightarrow> disk_step (s, R) (s', R - {r})"
| interrupt: "virtio_disk_intr s = Some s' \<Longrightarrow> disk_step (s, R) (s', R)"
| take: "dev_take s = Some s' \<Longrightarrow> disk_step (s, R) (s', R)"
| perform: "h \<in> set (dev_work s) \<Longrightarrow> length junk = BSIZE \<Longrightarrow> dev_finish h st junk s = Some s' \<Longrightarrow> disk_step (s, R) (s', R)"
| fill: "b < length (vbufs s) \<Longrightarrow> \<forall>r \<in> R. rq_buf r \<noteq> b \<Longrightarrow> length d = BSIZE \<Longrightarrow>
    disk_step (s, R) (s\<lparr>vbufs := (vbufs s)[b := (vbufs s ! b)\<lparr>b_data := d, b_blockno := n\<rparr>]\<rparr>, R)"

inductive disk_reach :: "vdisk \<times> request set \<Rightarrow> vdisk \<times> request set \<Rightarrow> bool" for w0 where
  disk_start: "disk_reach w0 w0"
| disk_next: "disk_reach w0 w \<Longrightarrow> disk_step w w' \<Longrightarrow> disk_reach w0 w'"

inductive_cases disk_stepE: "disk_step w w'"

end
