(* ===== verification/Virtio_Inv.thy ===== *)
theory Virtio_Inv
  imports Virtio
begin

text \<open>
  The driver and the device work together: an invariant of every reachable state of the queues, from which the only panic of the
  driver is the one on a request that the device reports as failed, the device never meets a malformed chain, and a request that
  returns has moved its block.
\<close>

section \<open>The invariant\<close>

definition second :: "vdisk \<Rightarrow> nat \<Rightarrow> nat" where "second s h = unat (d_next (desc s ! h))"

definition cells :: "vdisk \<Rightarrow> nat \<Rightarrow> nat set" where
  "cells s h = {h, second s h, second s (second s h)}"

definition formatted :: "vdisk \<Rightarrow> request \<Rightarrow> bool" where
  "formatted s r \<longleftrightarrow>
     (let h = rq_head r; i1 = second s h; i2 = second s i1; b = rq_buf r
      in distinct [h, i1, i2] \<and> h < NUM \<and> i1 < NUM \<and> i2 < NUM \<and>
         desc s ! h = \<lparr>d_addr = Ops h, d_len = 16, d_flags = VRING_DESC_F_NEXT, d_next = of_nat i1\<rparr> \<and>
         desc s ! i1 = \<lparr>d_addr = Data b, d_len = of_nat BSIZE,
           d_flags = (if rq_write r then 0 else VRING_DESC_F_WRITE) OR VRING_DESC_F_NEXT, d_next = of_nat i2\<rparr> \<and>
         desc s ! i2 = \<lparr>d_addr = Status h, d_len = 1, d_flags = VRING_DESC_F_WRITE, d_next = 0\<rparr> \<and>
         ops s ! h = \<lparr>q_type = (if rq_write r then 1 else 0), q_reserved = 0, q_sector = of_nat (sector_of b s)\<rparr> \<and>
         info_b s ! h = Some b \<and> b < length (vbufs s) \<and> unat (b_blockno (vbufs s ! b)) < 2 ^ 31)"

text \<open>The heads in the two rings, those the device has still to perform, and all that are under way.\<close>

definition avails :: "vdisk \<Rightarrow> nat list" where "avails s = map unat (ring_content (avail_ring s) (dev_avail s) (avail_idx s))"
definition useds :: "vdisk \<Rightarrow> nat list" where "useds s = map unat (ring_content (used_ring s) (seen_idx s) (used_idx s))"
definition todo :: "vdisk \<Rightarrow> nat list" where "todo s = avails s @ dev_work s"

definition sizes :: "vdisk \<Rightarrow> bool" where
  "sizes s \<longleftrightarrow> length (desc s) = NUM \<and> length (avail_ring s) = NUM \<and> length (used_ring s) = NUM \<and> length (dfree s) = NUM \<and>
     length (info_b s) = NUM \<and> length (info_status s) = NUM \<and> length (ops s) = NUM \<and>
     (\<forall>b < length (vbufs s). length (b_data (vbufs s ! b)) = BSIZE) \<and> (\<forall>k. length (sectors s k) = 512) \<and>
     ring_ok (avail_ring s) (dev_avail s) (avail_idx s) \<and> ring_ok (used_ring s) (seen_idx s) (used_idx s)"

text \<open>
  What the data of a request is, before and after the device has performed it; nothing is known of a request that is reported
  as failed.
\<close>

definition failed :: "vdisk \<Rightarrow> request \<Rightarrow> bool" where
  "failed s r \<longleftrightarrow> rq_head r \<in> set (useds s) \<and> info_status s ! rq_head r \<noteq> 0"

definition moved :: "vdisk \<Rightarrow> request \<Rightarrow> bool" where
  "moved s r \<longleftrightarrow>
     (let d = b_data (vbufs s ! rq_buf r); m = block_at (sectors s) (sector_of (rq_buf r) s)
      in if rq_head r \<in> set (todo s) then (if rq_write r then d = rq_want r else m = rq_want r)
         else failed s r \<or> d = rq_want r \<and> m = rq_want r)"

definition apart :: "vdisk \<Rightarrow> request \<Rightarrow> request \<Rightarrow> bool" where
  "apart s r r' \<longleftrightarrow> cells s (rq_head r) \<inter> cells s (rq_head r') = {} \<and> rq_buf r \<noteq> rq_buf r' \<and>
     sector_of (rq_buf r) s \<noteq> sector_of (rq_buf r') s"

definition waiting :: "vdisk \<Rightarrow> request set \<Rightarrow> nat set" where
  "waiting s R = rq_head ` {r \<in> R. b_disk (vbufs s ! rq_buf r)}"

definition disk_inv :: "vdisk \<Rightarrow> request set \<Rightarrow> bool" where
  "disk_inv s R \<longleftrightarrow> sizes s \<and> (\<forall>r \<in> R. formatted s r \<and> moved s r) \<and> (\<forall>r \<in> R. \<forall>r' \<in> R. r \<noteq> r' \<longrightarrow> apart s r r') \<and>
     (\<forall>i < NUM. dfree s ! i \<longleftrightarrow> (\<forall>r \<in> R. i \<notin> cells s (rq_head r))) \<and>
     distinct (todo s @ useds s) \<and> set (todo s @ useds s) = waiting s R"

lemma disk_invD:
  assumes "disk_inv s R"
  shows "sizes s" and "r \<in> R \<Longrightarrow> formatted s r" and "r \<in> R \<Longrightarrow> moved s r" and "r \<in> R \<Longrightarrow> r' \<in> R \<Longrightarrow> r \<noteq> r' \<Longrightarrow> apart s r r'"
    and "i < NUM \<Longrightarrow> dfree s ! i \<longleftrightarrow> (\<forall>r \<in> R. i \<notin> cells s (rq_head r))"
    and "distinct (todo s @ useds s)" and "set (todo s @ useds s) = waiting s R"
  using assms unfolding disk_inv_def by blast+

lemma disk_invI:
  assumes "sizes s" and "\<And>r. r \<in> R \<Longrightarrow> formatted s r" and "\<And>r. r \<in> R \<Longrightarrow> moved s r"
    and "\<And>r r'. r \<in> R \<Longrightarrow> r' \<in> R \<Longrightarrow> r \<noteq> r' \<Longrightarrow> apart s r r'"
    and "\<And>i. i < NUM \<Longrightarrow> dfree s ! i \<longleftrightarrow> (\<forall>r \<in> R. i \<notin> cells s (rq_head r))"
    and "distinct (todo s @ useds s)" and "set (todo s @ useds s) = waiting s R"
  shows "disk_inv s R"
  unfolding disk_inv_def using assms by blast

lemma cells_less: "formatted s r \<Longrightarrow> i \<in> cells s (rq_head r) \<Longrightarrow> i < NUM"
  by (auto simp: formatted_def cells_def Let_def)

lemma head_cell: "rq_head r \<in> cells s (rq_head r)"
  by (simp add: cells_def)

lemma in_use:
  assumes "disk_inv s R" "r \<in> R" "i \<in> cells s (rq_head r)"
  shows "\<not> dfree s ! i" "i < NUM"
proof -
  show i: "i < NUM" using cells_less disk_invD(2) assms by blast
  show "\<not> dfree s ! i" using disk_invD(5) [OF assms(1) i] assms(2,3) by blast
qed

text \<open>Requests keep their chain when the descriptors of the chain are left alone.\<close>

lemma cells_cong:
  "\<forall>i \<in> cells s h. desc s' ! i = desc s ! i \<Longrightarrow> cells s' h = cells s h \<and> second s' h = second s h \<and> second s' (second s h) = second s (second s h)"
  by (auto simp: cells_def second_def)

lemma formatted_cong:
  assumes f: "formatted s r" and d: "\<forall>i \<in> cells s (rq_head r). desc s' ! i = desc s ! i"
    and o: "ops s' ! rq_head r = ops s ! rq_head r" and i: "info_b s' ! rq_head r = info_b s ! rq_head r"
    and v: "length (vbufs s') = length (vbufs s)" "b_blockno (vbufs s' ! rq_buf r) = b_blockno (vbufs s ! rq_buf r)"
  shows "formatted s' r"
proof -
  note c = cells_cong [OF d]
  have "sector_of (rq_buf r) s' = sector_of (rq_buf r) s" using v(2) by (simp add: sector_of_def)
  moreover have "desc s' ! rq_head r = desc s ! rq_head r" "desc s' ! second s (rq_head r) = desc s ! second s (rq_head r)"
    "desc s' ! second s (second s (rq_head r)) = desc s ! second s (second s (rq_head r))"
    using d by (simp_all add: cells_def)
  ultimately show ?thesis using f o i v c unfolding formatted_def Let_def by simp
qed

lemma apart_cong:
  assumes "apart s r r'" and "\<forall>i \<in> cells s (rq_head r) \<union> cells s (rq_head r'). desc s' ! i = desc s ! i"
    and "b_blockno (vbufs s' ! rq_buf r) = b_blockno (vbufs s ! rq_buf r)" "b_blockno (vbufs s' ! rq_buf r') = b_blockno (vbufs s ! rq_buf r')"
  shows "apart s' r r'"
  using assms cells_cong [of s "rq_head r" s'] cells_cong [of s "rq_head r'" s'] by (simp add: apart_def sector_of_def)

lemma head_inj:
  assumes "disk_inv s R" "r \<in> R" "r' \<in> R" "rq_head r = rq_head r'"
  shows "r = r'"
proof (rule ccontr)
  assume "r \<noteq> r'"
  then have "apart s r r'" by (rule disk_invD(4) [OF assms(1-3)])
  then show False using head_cell [of r s] head_cell [of r' s] assms(4) unfolding apart_def by auto
qed

lemma waiting_less: "disk_inv s R \<Longrightarrow> h \<in> waiting s R \<Longrightarrow> h < NUM"
  unfolding waiting_def using in_use(2) head_cell by blast

lemma waiting_iff:
  assumes "disk_inv s R" "r \<in> R"
  shows "rq_head r \<in> waiting s R \<longleftrightarrow> b_disk (vbufs s ! rq_buf r)"
  using head_inj [OF assms(1)] assms(2) unfolding waiting_def by blast

text \<open>Fewer than eight heads are under way when one of the eight is not.\<close>

lemma under_way_length:
  assumes "distinct xs" "set xs \<subseteq> {..<NUM} - {h}" "h < NUM"
  shows "length xs < NUM"
proof -
  have "length xs = card (set xs)" using assms(1) by (simp add: distinct_card)
  also have "\<dots> \<le> card ({..<NUM} - {h})" using assms(2) by (intro card_mono) simp_all
  also have "\<dots> < NUM" using assms(3) by simp
  finally show ?thesis .
qed

section \<open>Allocating three descriptors\<close>

definition mark_used :: "nat list \<Rightarrow> bool list \<Rightarrow> bool list" where
  "mark_used l F = foldl (\<lambda>F i. F[i := False]) F l"

lemma mark_used_simps [simp]: "mark_used [] F = F" "mark_used (i # l) F = mark_used l (F[i := False])" "length (mark_used l F) = length F"
  by (simp_all add: mark_used_def) (induction l arbitrary: F, simp_all)

lemma mark_used_append: "mark_used (l @ [i]) F = (mark_used l F)[i := False]"
  by (simp add: mark_used_def)

lemma mark_used_nth: "i < length F \<Longrightarrow> mark_used l F ! i \<longleftrightarrow> F ! i \<and> i \<notin> set l"
  by (induction l arbitrary: F) (auto simp: nth_update_in)

text \<open>Descriptors that are freed again without having been used: only free entries change.\<close>

definition free_changed :: "vdisk \<Rightarrow> vdisk \<Rightarrow> bool" where
  "free_changed s s' \<longleftrightarrow> (\<exists>D F. s' = s\<lparr>desc := D, dfree := F\<rparr> \<and> length D = length (desc s) \<and> length F = length (dfree s) \<and>
     (\<forall>i < NUM. F ! i = dfree s ! i) \<and> (\<forall>i < NUM. \<not> dfree s ! i \<longrightarrow> D ! i = desc s ! i))"

lemma free_all_marked:
  "distinct l \<Longrightarrow> set l \<subseteq> {..<NUM} \<Longrightarrow> length (dfree s) = NUM \<Longrightarrow> length (desc s) = NUM \<Longrightarrow> \<forall>i \<in> set l. \<not> dfree s ! i \<Longrightarrow>
    \<exists>D. free_all l s = Some (s\<lparr>desc := D, dfree := foldl (\<lambda>F i. F[i := True]) (dfree s) l\<rparr>) \<and> length D = NUM \<and>
      (\<forall>i < NUM. i \<notin> set l \<longrightarrow> D ! i = desc s ! i)"
proof (induction l arbitrary: s)
  case Nil
  then show ?case by (intro exI [of _ "desc s"]) simp
next
  case (Cons i l)
  let ?s = "s\<lparr>desc := (desc s)[i := no_desc], dfree := (dfree s)[i := True]\<rparr>"
  have i: "i < NUM" "i \<notin> set l" "\<not> dfree s ! i" using Cons.prems by auto
  have "\<forall>j \<in> set l. \<not> dfree ?s ! j" using Cons.prems i by (auto simp: nth_list_update)
  then obtain D where D: "free_all l ?s = Some (?s\<lparr>desc := D, dfree := foldl (\<lambda>F i. F[i := True]) (dfree ?s) l\<rparr>)" "length D = NUM"
      "\<forall>j < NUM. j \<notin> set l \<longrightarrow> D ! j = desc ?s ! j"
    using Cons.IH [of ?s] Cons.prems by auto
  have "free_desc i s = Some ?s" using i by (simp add: free_desc_def)
  then show ?case using D by (intro exI [of _ D]) simp
qed

lemma foldl_true_nth: "i < length F \<Longrightarrow> foldl (\<lambda>F i. F[i := True]) F l ! i \<longleftrightarrow> F ! i \<or> i \<in> set l"
  "length (foldl (\<lambda>F i. F[i := True]) F l) = length F"
  by (induction l arbitrary: F) (auto simp: nth_update_in)

lemma alloc_loop_ok:
  assumes "length (dfree s) = NUM" and "length (desc s) = NUM"
  shows "distinct idx \<Longrightarrow> set idx \<subseteq> {i. i < NUM \<and> dfree s ! i} \<Longrightarrow>
    (\<exists>l. alloc_loop n idx (s\<lparr>dfree := mark_used idx (dfree s)\<rparr>) = Some (Some (idx @ l), s\<lparr>dfree := mark_used (idx @ l) (dfree s)\<rparr>) \<and>
       length l = n \<and> distinct (idx @ l) \<and> set (idx @ l) \<subseteq> {i. i < NUM \<and> dfree s ! i}) \<or>
    (\<exists>s'. alloc_loop n idx (s\<lparr>dfree := mark_used idx (dfree s)\<rparr>) = Some (None, s') \<and> free_changed s s')"
proof (induction n arbitrary: idx)
  case (Suc n)
  let ?s = "s\<lparr>dfree := mark_used idx (dfree s)\<rparr>"
  show ?case
  proof (cases "find (\<lambda>i. dfree ?s ! i) [0..<NUM]")
    case None
    have l: "set idx \<subseteq> {..<NUM}" using Suc.prems by auto
    have "\<forall>i \<in> set idx. \<not> dfree ?s ! i" using Suc.prems assms by (auto simp: mark_used_nth)
    then obtain D where D: "free_all idx ?s = Some (?s\<lparr>desc := D, dfree := foldl (\<lambda>F i. F[i := True]) (dfree ?s) idx\<rparr>)" "length D = NUM"
        "\<forall>j < NUM. j \<notin> set idx \<longrightarrow> D ! j = desc ?s ! j"
      using free_all_marked [OF Suc.prems(1) l, of ?s] assms by auto
    let ?F = "foldl (\<lambda>F i. F[i := True]) (dfree ?s) idx"
    have F: "?F ! i = dfree s ! i" if "i < NUM" for i
      using that assms Suc.prems by (auto simp: foldl_true_nth mark_used_nth)
    have "free_changed s (?s\<lparr>desc := D, dfree := ?F\<rparr>)"
      unfolding free_changed_def using D F assms Suc.prems by (intro exI [of _ D] exI [of _ ?F]) (auto simp: foldl_true_nth)
    moreover have "alloc_loop (Suc n) idx ?s = Some (None, ?s\<lparr>desc := D, dfree := ?F\<rparr>)"
      using None D(1) by (simp add: alloc_desc_def)
    ultimately show ?thesis by blast
  next
    case (Some i)
    then have i: "i < NUM" "dfree ?s ! i" by (auto simp: find_Some_iff)
    then have f: "dfree s ! i" "i \<notin> set idx" using assms by (auto simp: mark_used_nth)
    have e: "?s\<lparr>dfree := (dfree ?s)[i := False]\<rparr> = s\<lparr>dfree := mark_used (idx @ [i]) (dfree s)\<rparr>"
      by (simp add: mark_used_append)
    have "distinct (idx @ [i])" "set (idx @ [i]) \<subseteq> {i. i < NUM \<and> dfree s ! i}" using Suc.prems i(1) f by auto
    note ih = Suc.IH [OF this]
    have st: "alloc_loop (Suc n) idx ?s = alloc_loop n (idx @ [i]) (s\<lparr>dfree := mark_used (idx @ [i]) (dfree s)\<rparr>)"
      using Some unfolding e [symmetric] by (simp add: alloc_desc_def)
    from ih show ?thesis
    proof (elim disjE exE conjE)
      fix l
      assume "alloc_loop n (idx @ [i]) (s\<lparr>dfree := mark_used (idx @ [i]) (dfree s)\<rparr>) = Some (Some ((idx @ [i]) @ l), s\<lparr>dfree := mark_used ((idx @ [i]) @ l) (dfree s)\<rparr>)"
        "length l = n" "distinct ((idx @ [i]) @ l)" "set ((idx @ [i]) @ l) \<subseteq> {i. i < NUM \<and> dfree s ! i}"
      then show ?thesis unfolding st by (intro disjI1 exI [of _ "i # l"]) simp
    next
      fix s'
      assume "alloc_loop n (idx @ [i]) (s\<lparr>dfree := mark_used (idx @ [i]) (dfree s)\<rparr>) = Some (None, s')" "free_changed s s'"
      then show ?thesis unfolding st by blast
    qed
  qed
next
  case 0
  then show ?case by simp
qed

lemma alloc3_ok:
  assumes "length (dfree s) = NUM" and "length (desc s) = NUM"
  obtains (ok) i0 i1 i2 where "alloc3_desc s = Some (Some [i0, i1, i2], s\<lparr>dfree := mark_used [i0, i1, i2] (dfree s)\<rparr>)"
      "distinct [i0, i1, i2]" "{i0, i1, i2} \<subseteq> {i. i < NUM \<and> dfree s ! i}"
    | (none) s' where "alloc3_desc s = Some (None, s')" "free_changed s s'"
proof -
  from alloc_loop_ok [OF assms, of "[]" 3] show ?thesis
  proof (simp, elim disjE exE conjE)
    fix l
    assume l: "alloc_loop 3 [] s = Some (Some l, s\<lparr>dfree := mark_used l (dfree s)\<rparr>)" "length l = 3" "distinct l"
        "set l \<subseteq> {i. i < NUM \<and> dfree s ! i}"
    obtain i0 i1 i2 where "l = [i0, i1, i2]" using l(2) by (auto simp: numeral_3_eq_3 length_Suc_conv)
    then show thesis using l by (intro ok) (simp_all add: alloc3_desc_def)
  next
    fix s'
    assume "alloc_loop 3 [] s = Some (None, s')" "free_changed s s'"
    then show thesis by (intro none) (simp_all add: alloc3_desc_def)
  qed
qed

section \<open>What a step leaves alone\<close>

definition keeps :: "request set \<Rightarrow> vdisk \<Rightarrow> vdisk \<Rightarrow> bool" where
  "keeps R s s' \<longleftrightarrow> length (vbufs s') = length (vbufs s) \<and>
     (\<forall>r \<in> R. (\<forall>i \<in> cells s (rq_head r). desc s' ! i = desc s ! i) \<and> ops s' ! rq_head r = ops s ! rq_head r \<and>
       info_b s' ! rq_head r = info_b s ! rq_head r \<and> b_blockno (vbufs s' ! rq_buf r) = b_blockno (vbufs s ! rq_buf r))"

lemma keepsI:
  assumes "length (vbufs s') = length (vbufs s)"
    and "\<And>r i. r \<in> R \<Longrightarrow> i \<in> cells s (rq_head r) \<Longrightarrow> desc s' ! i = desc s ! i"
    and "\<And>r. r \<in> R \<Longrightarrow> ops s' ! rq_head r = ops s ! rq_head r"
    and "\<And>r. r \<in> R \<Longrightarrow> info_b s' ! rq_head r = info_b s ! rq_head r"
    and "\<And>r. r \<in> R \<Longrightarrow> b_blockno (vbufs s' ! rq_buf r) = b_blockno (vbufs s ! rq_buf r)"
  shows "keeps R s s'"
  unfolding keeps_def using assms by blast

lemma keeps_cells: "keeps R s s' \<Longrightarrow> r \<in> R \<Longrightarrow> cells s' (rq_head r) = cells s (rq_head r)"
  using cells_cong unfolding keeps_def by blast

lemma keeps_sector: "keeps R s s' \<Longrightarrow> r \<in> R \<Longrightarrow> sector_of (rq_buf r) s' = sector_of (rq_buf r) s"
  unfolding keeps_def sector_of_def by simp

lemma keeps_formatted:
  assumes "keeps R s s'" "r \<in> R" "formatted s r"
  shows "formatted s' r"
  using assms(1,2) by (intro formatted_cong [OF assms(3)]) (simp_all add: keeps_def)

lemma keeps_apart:
  assumes "keeps R s s'" "r \<in> R" "r' \<in> R" "apart s r r'"
  shows "apart s' r r'"
  using assms(1-3) by (intro apart_cong [OF assms(4)]) (auto simp: keeps_def)

lemma keeps_waiting:
  assumes "\<And>r. r \<in> R \<Longrightarrow> b_disk (vbufs s' ! rq_buf r) = b_disk (vbufs s ! rq_buf r)"
  shows "waiting s' R = waiting s R"
  unfolding waiting_def using assms by (auto intro: imageI)

lemma waiting_insert:
  "waiting s (insert r R) = (if b_disk (vbufs s ! rq_buf r) then insert (rq_head r) (waiting s R) else waiting s R)"
  unfolding waiting_def by auto

lemma moved_cong:
  assumes "moved s r" "keeps R s s'" "r \<in> R" "b_data (vbufs s' ! rq_buf r) = b_data (vbufs s ! rq_buf r)"
    "\<And>k. k \<in> {sector_of (rq_buf r) s, sector_of (rq_buf r) s + 1} \<Longrightarrow> sectors s' k = sectors s k"
    "rq_head r \<in> set (todo s') \<longleftrightarrow> rq_head r \<in> set (todo s)" "failed s' r \<longleftrightarrow> failed s r"
  shows "moved s' r"
  using assms(1,4-7) keeps_sector [OF assms(2,3)] by (simp add: moved_def Let_def block_at_def)

lemma inv_no_desc:
  assumes "disk_inv s R" and "free_changed s s'"
  shows "disk_inv s' R"
proof -
  obtain D F where s': "s' = s\<lparr>desc := D, dfree := F\<rparr>" and l: "length D = length (desc s)" "length F = length (dfree s)"
    and F: "\<And>i. i < NUM \<Longrightarrow> F ! i = dfree s ! i" and D: "\<And>i. i < NUM \<Longrightarrow> \<not> dfree s ! i \<Longrightarrow> D ! i = desc s ! i"
    using assms(2) unfolding free_changed_def by blast
  have k: "keeps R s s'" by (rule keepsI) (use in_use [OF assms(1)] D s' in auto)
  have same: "todo s' = todo s" "useds s' = useds s" by (simp_all add: s' todo_def avails_def useds_def)
  show ?thesis
  proof (rule disk_invI)
    show "sizes s'" using disk_invD(1) [OF assms(1)] l by (simp add: sizes_def s')
    show "formatted s' r" if "r \<in> R" for r using keeps_formatted [OF k that disk_invD(2) [OF assms(1) that]] .
    show "moved s' r" if "r \<in> R" for r
      by (rule moved_cong [OF disk_invD(3) [OF assms(1) that] k that]) (simp_all add: s' todo_def avails_def useds_def failed_def)
    show "apart s' r r'" if "r \<in> R" "r' \<in> R" "r \<noteq> r'" for r r'
      using keeps_apart [OF k that(1,2) disk_invD(4) [OF assms(1) that]] .
    show "dfree s' ! i \<longleftrightarrow> (\<forall>r \<in> R. i \<notin> cells s' (rq_head r))" if "i < NUM" for i
      using disk_invD(5) [OF assms(1) that] F [OF that] keeps_cells [OF k] by (simp add: s')
    show "distinct (todo s' @ useds s')" using disk_invD(6) [OF assms(1)] by (simp add: same)
    have "waiting s' R = waiting s R" by (rule keeps_waiting) (simp add: s')
    then show "set (todo s' @ useds s') = waiting s' R" using disk_invD(7) [OF assms(1)] by (simp add: same)
  qed
qed

section \<open>Beginning a request\<close>

lemma sector_word:
  fixes n :: u32
  assumes "unat n < 2 ^ 31"
  shows "(ucast (n * 2) :: u64) = of_nat (2 * unat n)" and "unat (of_nat (2 * unat n) :: u64) = 2 * unat n"
proof -
  have "unat (n * 2) = 2 * unat n" using assms by (simp add: unat_word_ariths)
  then show "(ucast (n * 2) :: u64) = of_nat (2 * unat n)" by (metis of_nat_unat)
  show "unat (of_nat (2 * unat n) :: u64) = 2 * unat n" using assms by (intro unat_of_nat_lt64) simp
qed

lemma unat_index: "i < NUM \<Longrightarrow> unat (of_nat i :: u16) = i" "i < NUM \<Longrightarrow> unat (of_nat i :: u32) = i"
  by (simp_all add: NUM_def unat_of_nat)

lemma rw_format_simps:
  "desc (rw_format b write i0 i1 i2 s) = (desc s)
      [i0 := \<lparr>d_addr = Ops i0, d_len = 16, d_flags = VRING_DESC_F_NEXT, d_next = of_nat i1\<rparr>,
       i1 := \<lparr>d_addr = Data b, d_len = of_nat BSIZE, d_flags = (if write then 0 else VRING_DESC_F_WRITE) OR VRING_DESC_F_NEXT, d_next = of_nat i2\<rparr>,
       i2 := \<lparr>d_addr = Status i0, d_len = 1, d_flags = VRING_DESC_F_WRITE, d_next = 0\<rparr>]"
    "ops (rw_format b write i0 i1 i2 s) = (ops s)[i0 := \<lparr>q_type = (if write then 1 else 0), q_reserved = 0, q_sector = ucast (b_blockno (vbufs s ! b) * 2)\<rparr>]"
    "info_status (rw_format b write i0 i1 i2 s) = (info_status s)[i0 := 0xff]"
    "info_b (rw_format b write i0 i1 i2 s) = (info_b s)[i0 := Some b]"
    "vbufs (rw_format b write i0 i1 i2 s) = (vbufs s)[b := (vbufs s ! b)\<lparr>b_disk := True\<rparr>]"
    "avail_ring (rw_format b write i0 i1 i2 s) = (avail_ring s)[unat (avail_idx s) mod NUM := of_nat i0]"
    "avail_idx (rw_format b write i0 i1 i2 s) = avail_idx s + 1"
    "used_ring (rw_format b write i0 i1 i2 s) = used_ring s" "used_idx (rw_format b write i0 i1 i2 s) = used_idx s"
    "dfree (rw_format b write i0 i1 i2 s) = dfree s" "seen_idx (rw_format b write i0 i1 i2 s) = seen_idx s"
    "dev_avail (rw_format b write i0 i1 i2 s) = dev_avail s" "dev_work (rw_format b write i0 i1 i2 s) = dev_work s"
    "sectors (rw_format b write i0 i1 i2 s) = sectors s"
  by (simp_all add: rw_format_def Let_def)

lemma update_three:
  assumes "length l = NUM" "distinct [i0, i1, i2]" "{i0, i1, i2} \<subseteq> {..<NUM}"
  shows "l[i0 := a, i1 := b, i2 := c] ! i0 = a" "l[i0 := a, i1 := b, i2 := c] ! i1 = b" "l[i0 := a, i1 := b, i2 := c] ! i2 = c"
    "i < NUM \<Longrightarrow> i \<notin> {i0, i1, i2} \<Longrightarrow> l[i0 := a, i1 := b, i2 := c] ! i = l ! i"
  using assms by (auto simp: nth_list_update)

lemma inv_begin:
  assumes I: "disk_inv s R" and b: "may_begin b (s, R)" and i: "distinct [i0, i1, i2]" "{i0, i1, i2} \<subseteq> {i. i < NUM \<and> dfree s ! i}"
    and s': "s' = rw_format b write i0 i1 i2 (s\<lparr>dfree := mark_used [i0, i1, i2] (dfree s)\<rparr>)"
    and r0: "r0 = \<lparr>rq_buf = b, rq_write = write, rq_head = i0,
      rq_want = (if write then b_data (vbufs s ! b) else block_at (sectors s) (sector_of b s))\<rparr>"
  shows "disk_inv s' (insert r0 R)"
proof -
  note z = disk_invD(1) [OF I]
  have len: "length (desc s) = NUM" "length (ops s) = NUM" "length (info_b s) = NUM" "length (info_status s) = NUM"
    "length (dfree s) = NUM" "length (avail_ring s) = NUM" using z by (simp_all add: sizes_def)
  have bl: "b < length (vbufs s)" "unat (b_blockno (vbufs s ! b)) < 2 ^ 31" using b by (simp_all add: may_begin_def)
  have other: "rq_buf r \<noteq> b" "b \<noteq> rq_buf r" "sector_of (rq_buf r) s \<noteq> sector_of b s" if "r \<in> R" for r using b that by (auto simp: may_begin_def)
  have lt: "{i0, i1, i2} \<subseteq> {..<NUM}" and free: "dfree s ! i0" "dfree s ! i1" "dfree s ! i2" using i(2) by auto
  have new: "i0 \<notin> cells s (rq_head r)" "i1 \<notin> cells s (rq_head r)" "i2 \<notin> cells s (rq_head r)" if "r \<in> R" for r
    using in_use(1) [OF I that] free by blast+
  note f = rw_format_simps [of b "write" i0 i1 i2 "s\<lparr>dfree := mark_used [i0, i1, i2] (dfree s)\<rparr>", folded s', simplified]
  note u = update_three [OF len(1) i(1) lt]
  have "rq_head r \<noteq> i0" if "r \<in> R" for r using new(1) [OF that] head_cell by metis
  then have head: "rq_head r \<noteq> i0" "i0 \<noteq> rq_head r" if "r \<in> R" for r using that by blast+
  have k: "keeps R s s'"
  proof (rule keepsI)
    show "desc s' ! i = desc s ! i" if "r \<in> R" "i \<in> cells s (rq_head r)" for r i
      unfolding f using in_use(2) [OF I that] new [OF that(1)] that(2) by (intro u(4)) auto
  qed (simp_all add: f head other)
  have "h \<noteq> i0 \<and> h < NUM" if "h \<in> waiting s R" for h using that head waiting_less [OF I that] by (auto simp: waiting_def)
  then have w: "set (todo s @ useds s) \<subseteq> {..<NUM} - {i0}" using disk_invD(7) [OF I] by blast
  have "length (avails s) < NUM"
    by (rule under_way_length [of _ i0]) (use w disk_invD(6) [OF I] lt in \<open>auto simp: todo_def\<close>)
  then have room: "unat (avail_idx s - dev_avail s) < length (avail_ring s)" using len by (simp add: avails_def)
  have ok: "ring_ok (avail_ring s) (dev_avail s) (avail_idx s)" using z by (simp add: sizes_def)
  note rp = ring_put [OF ok room, of "of_nat i0", unfolded len]
  have av: "avails s' = avails s @ [i0]" using rp(2) lt by (simp add: avails_def f unat_index)
  have us: "useds s' = useds s" by (simp add: useds_def f)
  have td: "set (todo s') = insert i0 (set (todo s))" "distinct (todo s' @ useds s') \<longleftrightarrow> distinct (i0 # todo s @ useds s)"
    by (auto simp: todo_def av us f)
  have v: "vbufs s' ! rq_buf r = vbufs s ! rq_buf r" if "r \<in> R" for r using other [OF that] by (simp add: f nth_list_update_neq)
  have vb: "vbufs s' ! b = (vbufs s ! b)\<lparr>b_disk := True\<rparr>" using bl by (simp add: f)
  have sec: "sector_of b s' = sector_of b s" by (simp add: sector_of_def vb)
  have c: "second s' i0 = i1" "second s' i1 = i2" using u lt by (simp_all add: second_def f unat_index)
  then have c0: "cells s' (rq_head r0) = {i0, i1, i2}" by (simp add: cells_def r0)
  have f0: "formatted s' r0"
    using c i(1) lt u bl sector_word(1) [OF bl(2)] len by (simp add: formatted_def r0 Let_def f sec sector_of_def)
  show ?thesis
  proof (rule disk_invI)
    show "sizes s'"
      using z bl rp(1) unfolding sizes_def f by (simp add: nth_list_update)
    show "formatted s' r" if "r \<in> insert r0 R" for r using that f0 keeps_formatted [OF k _ disk_invD(2) [OF I]] by blast
    show "moved s' r" if "r \<in> insert r0 R" for r
    proof (cases "r = r0")
      case True
      then show ?thesis using td(1) bl(1) by (simp add: moved_def r0 Let_def vb sec f)
    next
      case False
      then have r: "r \<in> R" using that by simp
      show ?thesis by (rule moved_cong [OF disk_invD(3) [OF I r] k r]) (use v [OF r] head [OF r] td(1) us f in \<open>auto simp: failed_def\<close>)
    qed
    have new_apart: "apart s' r0 r \<and> apart s' r r0" if "r \<in> R" for r
      using new [OF that] other [OF that] keeps_cells [OF k that] keeps_sector [OF k that] c0 sec by (auto simp: apart_def r0)
    show "apart s' r r'" if "r \<in> insert r0 R" "r' \<in> insert r0 R" "r \<noteq> r'" for r r'
      using that new_apart keeps_apart [OF k _ _ disk_invD(4) [OF I]] by blast
    show "dfree s' ! i \<longleftrightarrow> (\<forall>r \<in> insert r0 R. i \<notin> cells s' (rq_head r))" if "i < NUM" for i
      using disk_invD(5) [OF I that] that len keeps_cells [OF k] c0 mark_used_nth [of i "dfree s" "[i0, i1, i2]"] by (simp add: f) blast
    show "distinct (todo s' @ useds s')" using td(2) w disk_invD(6) [OF I] by auto
    have "waiting s' R = waiting s R" by (rule keeps_waiting) (simp add: v)
    then have "waiting s' (insert r0 R) = insert i0 (waiting s R)" using vb by (simp add: waiting_insert r0)
    then show "set (todo s' @ useds s') = waiting s' (insert r0 R)" using td(1) us disk_invD(7) [OF I] by auto
  qed
qed

section \<open>Ending a request\<close>

lemma flag_bits [simp]:
  "VRING_DESC_F_NEXT \<noteq> 0" "(VRING_DESC_F_WRITE OR VRING_DESC_F_NEXT) AND VRING_DESC_F_NEXT \<noteq> 0"
  "VRING_DESC_F_WRITE AND VRING_DESC_F_NEXT = 0" "VRING_DESC_F_WRITE OR VRING_DESC_F_NEXT \<noteq> VRING_DESC_F_NEXT"
  by (simp_all add: VRING_DESC_F_NEXT_def VRING_DESC_F_WRITE_def)

lemma free_chain_ok:
  assumes f: "formatted s r" and l: "length (desc s) = NUM" "length (dfree s) = NUM" and u: "\<And>i. i \<in> cells s (rq_head r) \<Longrightarrow> \<not> dfree s ! i"
    and t: "desc t = desc s" "dfree t = dfree s"
  shows "\<exists>D F. free_chain (rq_head r) t = Some (t\<lparr>desc := D, dfree := F\<rparr>) \<and> length D = NUM \<and> length F = NUM \<and>
    (\<forall>i < NUM. F ! i \<longleftrightarrow> dfree s ! i \<or> i \<in> cells s (rq_head r)) \<and> (\<forall>i < NUM. i \<notin> cells s (rq_head r) \<longrightarrow> D ! i = desc s ! i)"
proof -
  define h i1 i2 where i: "h = rq_head r" "i1 = second s h" "i2 = second s i1"
  note g = f [unfolded formatted_def Let_def, folded i(1), folded i(2), folded i(3)]
  have c: "cells s h = {h, i1, i2}" by (simp add: cells_def i)
  have d: "d_flags (desc s ! h) AND VRING_DESC_F_NEXT \<noteq> 0" "unat (d_next (desc s ! h)) = i1"
    "d_flags (desc s ! i1) AND VRING_DESC_F_NEXT \<noteq> 0" "unat (d_next (desc s ! i1)) = i2" "d_flags (desc s ! i2) AND VRING_DESC_F_NEXT = 0"
    using g by (simp_all add: unat_index)
  have n: "h < NUM" "i1 < NUM" "i2 < NUM" "h \<noteq> i1" "h \<noteq> i2" "i1 \<noteq> i2" using g by auto
  have u3: "\<not> dfree s ! h" "\<not> dfree s ! i1" "\<not> dfree s ! i2" using u c i(1) by auto
  define s1 where s1: "s1 = t\<lparr>desc := (desc t)[h := no_desc], dfree := (dfree t)[h := True]\<rparr>"
  define s2 where s2: "s2 = s1\<lparr>desc := (desc s1)[i1 := no_desc], dfree := (dfree s1)[i1 := True]\<rparr>"
  define s3 where s3: "s3 = s2\<lparr>desc := (desc s2)[i2 := no_desc], dfree := (dfree s2)[i2 := True]\<rparr>"
  have e: "free_desc h t = Some s1" "free_desc i1 s1 = Some s2" "free_desc i2 s2 = Some s3"
    using n u3 l t by (simp_all add: free_desc_def s1 s2 s3 nth_list_update_neq)
  have "desc t ! h = desc s ! h" "desc s1 ! i1 = desc s ! i1" "desc s2 ! i2 = desc s ! i2" using n t by (simp_all add: s1 s2 nth_list_update_neq)
  then have a: "free_chain h t = Some s3"
    using d e by (simp add: free_chain.simps [of h] free_chain.simps [of i1] free_chain.simps [of i2])
  have "s3 = t\<lparr>desc := desc s3, dfree := dfree s3\<rparr>" by (simp add: s1 s2 s3)
  from trans [OF a arg_cong [OF this, of Some]]
  have "free_chain h t = Some (t\<lparr>desc := desc s3, dfree := dfree s3\<rparr>)" .
  moreover have "length (desc s3) = NUM" "length (dfree s3) = NUM" using l t by (simp_all add: s1 s2 s3)
  moreover have "\<forall>i < NUM. dfree s3 ! i \<longleftrightarrow> dfree s ! i \<or> i \<in> {h, i1, i2}" using l t by (auto simp: s1 s2 s3 nth_update_in)
  moreover have "\<forall>i < NUM. i \<notin> {h, i1, i2} \<longrightarrow> desc s3 ! i = desc s ! i" using l t by (auto simp: s1 s2 s3 nth_update_in)
  ultimately show ?thesis unfolding i(1) [symmetric] c by blast
qed

lemma inv_end:
  assumes I: "disk_inv s R" and r0: "r0 \<in> R" and nd: "\<not> b_disk (vbufs s ! rq_buf r0)"
  shows "\<exists>s'. rw_end (rq_buf r0) (rq_head r0) s = Some (True, s') \<and> disk_inv s' (R - {r0}) \<and> vbufs s' = vbufs s \<and> sectors s' = sectors s"
proof -
  let ?h = "rq_head r0"
  let ?t = "s\<lparr>info_b := (info_b s)[?h := None]\<rparr>"
  note z = disk_invD(1) [OF I]
  have len: "length (desc s) = NUM" "length (dfree s) = NUM" using z by (simp_all add: sizes_def)
  have f: "formatted s r0" by (rule disk_invD(2) [OF I r0])
  have u: "\<not> dfree s ! i" if "i \<in> cells s ?h" for i using in_use(1) [OF I r0 that] .
  have "\<exists>D F. free_chain ?h ?t = Some (?t\<lparr>desc := D, dfree := F\<rparr>) \<and> length D = NUM \<and> length F = NUM \<and>
    (\<forall>i < NUM. F ! i \<longleftrightarrow> dfree s ! i \<or> i \<in> cells s ?h) \<and> (\<forall>i < NUM. i \<notin> cells s ?h \<longrightarrow> D ! i = desc s ! i)"
    by (rule free_chain_ok [OF f len u]) simp_all
  then obtain D F where e: "free_chain ?h ?t = Some (?t\<lparr>desc := D, dfree := F\<rparr>)" and DF: "length D = NUM" "length F = NUM"
      "\<And>i. i < NUM \<Longrightarrow> F ! i \<longleftrightarrow> dfree s ! i \<or> i \<in> cells s ?h" "\<And>i. i < NUM \<Longrightarrow> i \<notin> cells s ?h \<Longrightarrow> D ! i = desc s ! i"
    by blast
  define s' where s': "s' = ?t\<lparr>desc := D, dfree := F\<rparr>"
  have sel: "desc s' = D" "dfree s' = F" "info_b s' = (info_b s)[?h := None]" "vbufs s' = vbufs s" "sectors s' = sectors s" "ops s' = ops s"
    "info_status s' = info_status s" "todo s' = todo s" "useds s' = useds s"
    by (simp_all add: s' todo_def avails_def useds_def)
  have ap: "cells s (rq_head r) \<inter> cells s ?h = {}" if "r \<in> R - {r0}" for r
    using disk_invD(4) [OF I _ r0] that by (auto simp: apart_def)
  have hd: "?h \<noteq> rq_head r" if "r \<in> R - {r0}" for r using ap [OF that] head_cell [of r s] head_cell [of r0 s] by auto
  have k: "keeps (R - {r0}) s s'"
  proof (rule keepsI)
    show "desc s' ! i = desc s ! i" if "r \<in> R - {r0}" "i \<in> cells s (rq_head r)" for r i
      using DF(4) [of i] in_use(2) [OF I _ that(2)] that ap [OF that(1)] by (auto simp: sel)
  qed (simp_all add: sel hd)
  have "rw_end (rq_buf r0) ?h s = Some (True, s')" using nd e by (simp add: rw_end_def s')
  moreover have "disk_inv s' (R - {r0})"
  proof (rule disk_invI)
    show "sizes s'" using z DF(1,2) by (simp add: sizes_def s')
    show "formatted s' r" if "r \<in> R - {r0}" for r using keeps_formatted [OF k that disk_invD(2) [OF I]] that by blast
    show "moved s' r" if "r \<in> R - {r0}" for r
      by (rule moved_cong [OF disk_invD(3) [OF I] k that]) (use that in \<open>simp_all add: sel failed_def\<close>)
    show "apart s' r r'" if "r \<in> R - {r0}" "r' \<in> R - {r0}" "r \<noteq> r'" for r r'
      using keeps_apart [OF k that(1,2) disk_invD(4) [OF I]] that by blast
    show "dfree s' ! i \<longleftrightarrow> (\<forall>r \<in> R - {r0}. i \<notin> cells s' (rq_head r))" if "i < NUM" for i
      using disk_invD(5) [OF I that] DF(3) [OF that] keeps_cells [OF k] ap r0 by (auto simp: sel)
    show "distinct (todo s' @ useds s')" using disk_invD(6) [OF I] by (simp add: sel)
    have "waiting s' (R - {r0}) = waiting s R" unfolding waiting_def sel using nd by auto
    then show "set (todo s' @ useds s') = waiting s' (R - {r0})" using disk_invD(7) [OF I] by (simp add: sel)
  qed
  ultimately show ?thesis using sel(4,5) by blast
qed

section \<open>The interrupt\<close>

lemma used_head:
  assumes I: "disk_inv s R" and h: "h \<in> set (todo s @ useds s)"
  obtains r where "r \<in> R" "rq_head r = h" "b_disk (vbufs s ! rq_buf r)"
  using disk_invD(7) [OF I] h unfolding waiting_def by auto

lemma inv_ack:
  assumes I: "disk_inv s R" and u: "useds s = h # us"
  obtains b where "unat (used_ring s ! (unat (seen_idx s) mod NUM)) = h" "h < NUM" "info_b s ! h = Some b"
    "seen_idx s \<noteq> used_idx s"
    "info_status s ! h = 0 \<longrightarrow> disk_inv (s\<lparr>vbufs := (vbufs s)[b := (vbufs s ! b)\<lparr>b_disk := False\<rparr>], seen_idx := seen_idx s + 1\<rparr>) R"
    "useds (s\<lparr>vbufs := (vbufs s)[b := (vbufs s ! b)\<lparr>b_disk := False\<rparr>], seen_idx := seen_idx s + 1\<rparr>) = us"
proof -
  note z = disk_invD(1) [OF I]
  have len: "length (used_ring s) = NUM" and ok: "ring_ok (used_ring s) (seen_idx s) (used_idx s)" using z by (simp_all add: sizes_def)
  have ne: "seen_idx s \<noteq> used_idx s" using u ring_empty [of "used_ring s" "seen_idx s" "used_idx s"] by (auto simp: useds_def)
  note rg = ring_get [OF ok ne, unfolded len]
  have h: "unat (used_ring s ! (unat (seen_idx s) mod NUM)) = h" and us: "us = map unat (ring_content (used_ring s) (seen_idx s + 1) (used_idx s))"
    using u rg(2) by (simp_all add: useds_def)
  have "h \<in> set (todo s @ useds s)" using u by simp
  then obtain r where r: "r \<in> R" "rq_head r = h" using used_head [OF I] by metis
  let ?b = "rq_buf r"
  let ?s = "s\<lparr>vbufs := (vbufs s)[?b := (vbufs s ! ?b)\<lparr>b_disk := False\<rparr>], seen_idx := seen_idx s + 1\<rparr>"
  have f: "formatted s r" by (rule disk_invD(2) [OF I r(1)])
  then have fb: "h < NUM" "info_b s ! h = Some ?b" "?b < length (vbufs s)" using r(2) by (simp_all add: formatted_def Let_def)
  have same: "todo ?s = todo s" "useds ?s = us" by (simp_all add: todo_def avails_def useds_def us)
  have vd: "b_data (vbufs ?s ! i) = b_data (vbufs s ! i)" "b_blockno (vbufs ?s ! i) = b_blockno (vbufs s ! i)" for i
    using fb(3) by (cases "i = ?b"; simp)+
  have k: "keeps R s ?s" by (rule keepsI) (use vd in simp_all)
  have other: "rq_buf r' \<noteq> ?b" "rq_head r' \<noteq> h" if "r' \<in> R" "r' \<noteq> r" for r'
  proof -
    show "rq_buf r' \<noteq> ?b" using disk_invD(4) [OF I that(1) r(1) that(2)] by (simp add: apart_def)
    show "rq_head r' \<noteq> h" using head_inj [OF I that(1) r(1)] that(2) r(2) by auto
  qed
  have "disk_inv ?s R" if st: "info_status s ! h = 0"
  proof (rule disk_invI)
    show "sizes ?s" using z rg(1) vd by (simp add: sizes_def)
    show "formatted ?s r'" if "r' \<in> R" for r' using keeps_formatted [OF k that disk_invD(2) [OF I that]] .
    show "moved ?s r'" if "r' \<in> R" for r'
    proof (rule moved_cong [OF disk_invD(3) [OF I that] k that vd(1)])
      show "failed ?s r' \<longleftrightarrow> failed s r'"
        using other(2) [OF that] disk_invD(6) [OF I] u r(2) st unfolding failed_def same by (cases "r' = r") auto
    qed (simp_all only: same, simp)
    show "apart ?s r' r''" if "r' \<in> R" "r'' \<in> R" "r' \<noteq> r''" for r' r''
      using keeps_apart [OF k that(1,2) disk_invD(4) [OF I that]] .
    show "dfree ?s ! i \<longleftrightarrow> (\<forall>r \<in> R. i \<notin> cells ?s (rq_head r))" if "i < NUM" for i
      using disk_invD(5) [OF I that] keeps_cells [OF k] by simp
    show "distinct (todo ?s @ useds ?s)" using disk_invD(6) [OF I] u unfolding same by simp
    have w: "waiting ?s R = waiting s R - {h}"
    proof (rule set_eqI)
      fix x
      show "x \<in> waiting ?s R \<longleftrightarrow> x \<in> waiting s R - {h}"
      proof
        assume "x \<in> waiting ?s R"
        then obtain r' where r': "r' \<in> R" "x = rq_head r'" "b_disk (vbufs ?s ! rq_buf r')" unfolding waiting_def by blast
        then have "r' \<noteq> r" using fb(3) by auto
        then show "x \<in> waiting s R - {h}" using r' other [of r'] unfolding waiting_def by auto
      next
        assume "x \<in> waiting s R - {h}"
        then obtain r' where r': "r' \<in> R" "x = rq_head r'" "b_disk (vbufs s ! rq_buf r')" "x \<noteq> h" unfolding waiting_def by blast
        then have "r' \<noteq> r" using r(2) by auto
        then have "b_disk (vbufs ?s ! rq_buf r')" using r' other [of r'] by simp
        then show "x \<in> waiting ?s R" using r'(1,2) unfolding waiting_def by blast
      qed
    qed
    show "set (todo ?s @ useds ?s) = waiting ?s R" using disk_invD(6,7) [OF I] u unfolding same w by auto
  qed
  then have "info_status s ! h = 0 \<longrightarrow> disk_inv ?s R" by blast
  then show ?thesis using that [of ?b] h fb ne same(2) by blast
qed

lemma inv_intr:
  "disk_inv s R \<Longrightarrow> useds s = us \<Longrightarrow>
    (if \<exists>h \<in> set us. info_status s ! h \<noteq> 0 then virtio_disk_intr s = None
     else \<exists>s'. virtio_disk_intr s = Some s' \<and> disk_inv s' R \<and> useds s' = [] \<and> todo s' = todo s)"
proof (induction us arbitrary: s)
  case Nil
  then have "seen_idx s = used_idx s" using ring_empty [of "used_ring s" "seen_idx s" "used_idx s"] by (simp add: useds_def)
  then show ?case using Nil by (subst virtio_disk_intr.simps) simp
next
  case (Cons h us)
  obtain b where b: "unat (used_ring s ! (unat (seen_idx s) mod NUM)) = h" "h < NUM" "info_b s ! h = Some b"
    "seen_idx s \<noteq> used_idx s"
    "info_status s ! h = 0 \<longrightarrow> disk_inv (s\<lparr>vbufs := (vbufs s)[b := (vbufs s ! b)\<lparr>b_disk := False\<rparr>], seen_idx := seen_idx s + 1\<rparr>) R"
    "useds (s\<lparr>vbufs := (vbufs s)[b := (vbufs s ! b)\<lparr>b_disk := False\<rparr>], seen_idx := seen_idx s + 1\<rparr>) = us"
    by (rule inv_ack [OF Cons.prems])
  show ?case
  proof (cases "info_status s ! h = 0")
    case True
    let ?t = "s\<lparr>vbufs := (vbufs s)[b := (vbufs s ! b)\<lparr>b_disk := False\<rparr>], seen_idx := seen_idx s + 1\<rparr>"
    have "virtio_disk_intr s = virtio_disk_intr ?t" using b(1-4) True by (subst virtio_disk_intr.simps) (simp add: Let_def)
    moreover have "todo ?t = todo s" "info_status ?t = info_status s" by (simp_all add: todo_def avails_def)
    ultimately show ?thesis using Cons.IH [OF b(5) [rule_format] b(6)] True
      by (cases "\<exists>h \<in> set us. info_status s ! h \<noteq> 0") auto
  next
    case False
    then show ?thesis using b(1-4) by (subst (1 2) virtio_disk_intr.simps) (simp add: Let_def)
  qed
qed

section \<open>The device\<close>

lemma inv_take:
  assumes I: "disk_inv s R" and t: "dev_take s = Some s'"
  shows "disk_inv s' R \<and> set (todo s') = set (todo s)"
proof -
  note z = disk_invD(1) [OF I]
  have len: "length (avail_ring s) = NUM" and ok: "ring_ok (avail_ring s) (dev_avail s) (avail_idx s)" using z by (simp_all add: sizes_def)
  have ne: "dev_avail s \<noteq> avail_idx s"
    and s': "s' = s\<lparr>dev_work := dev_work s @ [unat (avail_ring s ! (unat (dev_avail s) mod NUM))], dev_avail := dev_avail s + 1\<rparr>"
    using t by (simp_all add: dev_take_def split: if_splits)
  note rg = ring_get [OF ok ne, unfolded len]
  obtain h as where a: "avails s = h # as" "h = unat (avail_ring s ! (unat (dev_avail s) mod NUM))"
      "as = map unat (ring_content (avail_ring s) (dev_avail s + 1) (avail_idx s))"
    using rg(2) by (simp add: avails_def)
  have "avails s' = as" unfolding a(3) by (simp add: avails_def s')
  then have td: "todo s' = as @ dev_work s @ [h]" "todo s = h # as @ dev_work s" and us: "useds s' = useds s"
    using a(1,2) by (simp_all add: todo_def useds_def s')
  have same: "set (todo s') = set (todo s)" unfolding td by auto
  have k: "keeps R s s'" by (rule keepsI) (simp_all add: s')
  have "disk_inv s' R"
  proof (rule disk_invI)
    show "sizes s'" using z rg(1) by (simp add: sizes_def s')
    show "formatted s' r" if "r \<in> R" for r using keeps_formatted [OF k that disk_invD(2) [OF I that]] .
    show "moved s' r" if "r \<in> R" for r
      by (rule moved_cong [OF disk_invD(3) [OF I that] k that]) (simp_all only: same us failed_def, simp_all add: s')
    show "apart s' r r'" if "r \<in> R" "r' \<in> R" "r \<noteq> r'" for r r'
      using keeps_apart [OF k that(1,2) disk_invD(4) [OF I that]] .
    show "dfree s' ! i \<longleftrightarrow> (\<forall>r \<in> R. i \<notin> cells s' (rq_head r))" if "i < NUM" for i
      using disk_invD(5) [OF I that] keeps_cells [OF k] by (simp add: s')
    show "distinct (todo s' @ useds s')" using disk_invD(6) [OF I] unfolding td us by auto
    have "waiting s' R = waiting s R" by (rule keeps_waiting) (simp add: s')
    then show "set (todo s' @ useds s') = waiting s' R" using disk_invD(7) [OF I] by (simp add: same us)
  qed
  then show ?thesis using same by simp
qed

text \<open>What the device does with a chain the driver has formatted.\<close>

definition performed :: "request \<Rightarrow> u8 \<Rightarrow> block \<Rightarrow> vdisk \<Rightarrow> vdisk" where
  "performed r st junk s =
     (let b = rq_buf r; sec = sector_of b s; v = vbufs s ! b;
          d = (if st \<noteq> 0 then junk else if rq_write r then b_data v else block_at (sectors s) sec)
      in s\<lparr>used_ring := (used_ring s)[unat (used_idx s) mod NUM := of_nat (rq_head r)], used_idx := used_idx s + 1,
           dev_work := remove1 (rq_head r) (dev_work s), info_status := (info_status s)[rq_head r := st],
           sectors := (if rq_write r then (sectors s)(sec := take 512 d, sec + 1 := drop 512 d) else sectors s),
           vbufs := (if rq_write r then vbufs s else (vbufs s)[b := v\<lparr>b_data := d\<rparr>])\<rparr>)"

lemma dev_finish_performed:
  assumes f: "formatted s r"
  shows "dev_finish (rq_head r) st junk s = Some (performed r st junk s)"
proof -
  define h i1 i2 where i: "h = rq_head r" "i1 = second s h" "i2 = second s i1"
  note g = f [unfolded formatted_def Let_def, folded i(1), folded i(2), folded i(3)]
  have d: "desc s ! h = \<lparr>d_addr = Ops h, d_len = 16, d_flags = VRING_DESC_F_NEXT, d_next = of_nat i1\<rparr>"
    "desc s ! i1 = \<lparr>d_addr = Data (rq_buf r), d_len = of_nat BSIZE,
       d_flags = (if rq_write r then 0 else VRING_DESC_F_WRITE) OR VRING_DESC_F_NEXT, d_next = of_nat i2\<rparr>"
    "desc s ! i2 = \<lparr>d_addr = Status h, d_len = 1, d_flags = VRING_DESC_F_WRITE, d_next = 0\<rparr>"
    "ops s ! h = \<lparr>q_type = (if rq_write r then 1 else 0), q_reserved = 0, q_sector = of_nat (sector_of (rq_buf r) s)\<rparr>"
    and n: "i1 < NUM" "i2 < NUM" and bn: "unat (b_blockno (vbufs s ! rq_buf r)) < 2 ^ 31" using g by auto
  have sec: "unat (of_nat (sector_of (rq_buf r) s) :: u64) = sector_of (rq_buf r) s" using sector_word(2) [OF bn] by (simp add: sector_of_def)
  show ?thesis unfolding i(1) [symmetric]
    by (cases "rq_write r") (simp_all add: dev_finish_def performed_def Let_def d n unat_index sec i(1) [symmetric])
qed

lemma dev_performs:
  assumes I: "disk_inv s R" and h: "h \<in> set (dev_work s)"
  shows "\<exists>r \<in> R. rq_head r = h \<and> dev_finish h st junk s = Some (performed r st junk s)"
proof -
  have "h \<in> set (todo s @ useds s)" using h by (simp add: todo_def)
  then obtain r where r: "r \<in> R" "rq_head r = h" using used_head [OF I] by metis
  then show ?thesis using dev_finish_performed [OF disk_invD(2) [OF I r(1)]] by blast
qed

lemma block_at_written: "length d = BSIZE \<Longrightarrow> block_at (f(sec := take 512 d, sec + 1 := drop 512 d)) sec = d"
  by (simp add: block_at_def)

lemma inv_perform:
  assumes I: "disk_inv s R" and h: "h \<in> set (dev_work s)" and j: "length junk = BSIZE"
  shows "\<exists>s'. dev_finish h st junk s = Some s' \<and> disk_inv s' R"
proof -
  note z = disk_invD(1) [OF I]
  have "h \<in> set (todo s @ useds s)" using h by (simp add: todo_def)
  then obtain r where r: "r \<in> R" "rq_head r = h" using used_head [OF I] by metis
  have f: "formatted s r" by (rule disk_invD(2) [OF I r(1)])
  let ?b = "rq_buf r" and ?sec = "sector_of (rq_buf r) s" and ?s = "performed r st junk s"
  have fb: "h < NUM" "?b < length (vbufs s)" using f r(2) by (simp_all add: formatted_def Let_def)
  have len: "length (used_ring s) = NUM" "length (info_status s) = NUM" and ok: "ring_ok (used_ring s) (seen_idx s) (used_idx s)"
    and dl: "length (b_data (vbufs s ! ?b)) = BSIZE" and sl: "\<And>k. length (sectors s k) = 512" using z fb(2) by (simp_all add: sizes_def)
  have w: "set (todo s @ useds s) \<subseteq> {..<NUM}" using disk_invD(7) [OF I] waiting_less [OF I] by auto
  have "length (useds s) < NUM"
    by (rule under_way_length [of _ h]) (use w disk_invD(6) [OF I] h fb(1) in \<open>auto simp: todo_def\<close>)
  then have room: "unat (used_idx s - seen_idx s) < length (used_ring s)" using len by (simp add: useds_def)
  note rp = ring_put [OF ok room, of "of_nat h", unfolded len]
  have us: "useds ?s = useds s @ [h]" using rp(2) fb(1) r(2) by (simp add: useds_def performed_def Let_def unat_index)
  have td: "todo ?s = avails s @ remove1 h (dev_work s)" using r(2) by (simp add: todo_def avails_def performed_def Let_def)
  have dist: "distinct (todo s @ useds s)" by (rule disk_invD(6) [OF I])
  have tset: "set (todo ?s) = set (todo s) - {h}" unfolding td using dist h by (auto simp: todo_def)
  have vk: "b_blockno (vbufs ?s ! i) = b_blockno (vbufs s ! i)" "b_disk (vbufs ?s ! i) = b_disk (vbufs s ! i)"
    "length (vbufs ?s) = length (vbufs s)" for i
    using fb(2) by (cases "i = ?b"; simp add: performed_def Let_def)+
  have vo: "vbufs ?s ! i = vbufs s ! i" if "i \<noteq> ?b" for i using that by (simp add: performed_def Let_def)
  have k: "keeps R s ?s" by (rule keepsI) (use vk in \<open>simp_all add: performed_def Let_def\<close>)
  have so: "sectors ?s j = sectors s j" if "j \<noteq> ?sec" "j \<noteq> ?sec + 1" for j using that by (simp add: performed_def Let_def)
  have "disk_inv ?s R"
  proof (rule disk_invI)
    show "sizes ?s"
      using z rp(1) vk r(2) fb(2) dl sl j unfolding sizes_def performed_def Let_def
      by (auto simp: nth_list_update block_at_def BSIZE_def)
    show "formatted ?s r'" if "r' \<in> R" for r' using keeps_formatted [OF k that disk_invD(2) [OF I that]] .
    show "moved ?s r'" if "r' \<in> R" for r'
    proof (cases "r' = r")
      case True
      have nt: "h \<notin> set (todo ?s)" using tset by simp
      have m: "if rq_write r then b_data (vbufs s ! ?b) = rq_want r else block_at (sectors s) ?sec = rq_want r"
        using disk_invD(3) [OF I r(1)] h r(2) by (simp add: moved_def Let_def todo_def)
      have "failed ?s r" if "st \<noteq> 0"
        using that r(2) us fb(1) len(2) by (simp add: failed_def) (simp add: performed_def Let_def)
      moreover have "b_data (vbufs ?s ! ?b) = rq_want r \<and> block_at (sectors ?s) ?sec = rq_want r" if "st = 0"
        using that m fb(2) block_at_written [OF dl, of "sectors s" ?sec] by (auto simp: performed_def Let_def)
      ultimately show ?thesis using nt True r(2) keeps_sector [OF k r(1)] by (cases "st = 0") (simp_all add: moved_def Let_def)
    next
      case False
      have a: "apart s r' r" by (rule disk_invD(4) [OF I that r(1) False])
      have hd: "rq_head r' \<noteq> h" using head_inj [OF I that r(1)] False r(2) by auto
      have ev: "sector_of (rq_buf r') s \<noteq> ?sec" "even (sector_of (rq_buf r') s)" "even ?sec" using a by (simp_all add: apart_def sector_of_def)
      show ?thesis
      proof (rule moved_cong [OF disk_invD(3) [OF I that] k that])
        show "b_data (vbufs ?s ! rq_buf r') = b_data (vbufs s ! rq_buf r')" using vo a by (simp add: apart_def)
        show "sectors ?s j = sectors s j" if "j \<in> {sector_of (rq_buf r') s, sector_of (rq_buf r') s + 1}" for j
        proof -
          have "j = sector_of (rq_buf r') s \<or> j = sector_of (rq_buf r') s + 1" using that by simp
          then have "j \<noteq> ?sec" "j \<noteq> ?sec + 1" using ev by presburger+
          then show ?thesis by (rule so)
        qed
        show "rq_head r' \<in> set (todo ?s) \<longleftrightarrow> rq_head r' \<in> set (todo s)" using tset hd by simp
        have "info_status ?s ! rq_head r' = info_status s ! rq_head r'" using hd r(2) by (simp add: performed_def Let_def)
        then show "failed ?s r' \<longleftrightarrow> failed s r'" using hd us by (simp add: failed_def)
      qed
    qed
    show "apart ?s r' r''" if "r' \<in> R" "r'' \<in> R" "r' \<noteq> r''" for r' r''
      using keeps_apart [OF k that(1,2) disk_invD(4) [OF I that]] .
    show "dfree ?s ! i \<longleftrightarrow> (\<forall>r \<in> R. i \<notin> cells ?s (rq_head r))" if "i < NUM" for i
      using disk_invD(5) [OF I that] keeps_cells [OF k] by (simp add: performed_def Let_def)
    show "distinct (todo ?s @ useds ?s)" using dist h unfolding td us todo_def [of s] by auto
    have "waiting ?s R = waiting s R" by (rule keeps_waiting) (rule vk(2))
    then show "set (todo ?s @ useds ?s) = waiting ?s R" using disk_invD(7) [OF I] tset us h by (auto simp: todo_def [of s])
  qed
  then show ?thesis using dev_finish_performed [OF f] r(2) by blast
qed

section \<open>Every reachable state\<close>

lemma inv_fill:
  assumes I: "disk_inv s R" and b: "b < length (vbufs s)" "\<forall>r \<in> R. rq_buf r \<noteq> b" and d: "length d = BSIZE"
  shows "disk_inv (s\<lparr>vbufs := (vbufs s)[b := (vbufs s ! b)\<lparr>b_data := d, b_blockno := n\<rparr>]\<rparr>) R"
    (is "disk_inv ?s R")
proof -
  note z = disk_invD(1) [OF I]
  have v: "vbufs ?s ! rq_buf r = vbufs s ! rq_buf r" if "r \<in> R" for r
  proof -
    have "b \<noteq> rq_buf r" using b(2) that by auto
    then show ?thesis by simp
  qed
  have k: "keeps R s ?s" by (rule keepsI) (simp_all only: v, simp_all)
  have same: "todo ?s = todo s" "useds ?s = useds s" by (simp_all add: todo_def avails_def useds_def)
  show ?thesis
  proof (rule disk_invI)
    show "sizes ?s" using z b(1) d by (auto simp: sizes_def nth_list_update)
    show "formatted ?s r" if "r \<in> R" for r using keeps_formatted [OF k that disk_invD(2) [OF I that]] .
    show "moved ?s r" if "r \<in> R" for r
      by (rule moved_cong [OF disk_invD(3) [OF I that] k that]) (simp_all only: v [OF that] same failed_def, simp_all)
    show "apart ?s r r'" if "r \<in> R" "r' \<in> R" "r \<noteq> r'" for r r'
      using keeps_apart [OF k that(1,2) disk_invD(4) [OF I that]] .
    show "dfree ?s ! i \<longleftrightarrow> (\<forall>r \<in> R. i \<notin> cells ?s (rq_head r))" if "i < NUM" for i
      using disk_invD(5) [OF I that] keeps_cells [OF k] by simp
    show "distinct (todo ?s @ useds ?s)" using disk_invD(6) [OF I] unfolding same .
    have "waiting ?s R = waiting s R" by (rule keeps_waiting) (simp only: v)
    then show "set (todo ?s @ useds ?s) = waiting ?s R" using disk_invD(7) [OF I] unfolding same by simp
  qed
qed

lemma rw_begin_cases:
  assumes I: "disk_inv s R"
  obtains (ok) i0 i1 i2 where "rw_begin b write s = Some (Some i0, rw_format b write i0 i1 i2 (s\<lparr>dfree := mark_used [i0, i1, i2] (dfree s)\<rparr>))"
      "distinct [i0, i1, i2]" "{i0, i1, i2} \<subseteq> {i. i < NUM \<and> dfree s ! i}"
    | (none) s' where "rw_begin b write s = Some (None, s')" "free_changed s s'"
proof -
  have l: "length (dfree s) = NUM" "length (desc s) = NUM" using disk_invD(1) [OF I] by (simp_all add: sizes_def)
  show ?thesis
    using l
  proof (cases rule: alloc3_ok)
    case (ok i0 i1 i2)
    then show ?thesis using that(1) [of i0 i1 i2] by (simp add: rw_begin_def)
  next
    case (none s')
    then show ?thesis using that(2) [of s'] by (simp add: rw_begin_def)
  qed
qed

lemma disk_step_inv: "disk_step (s, R) (s', R') \<Longrightarrow> disk_inv s R \<Longrightarrow> disk_inv s' R'"
proof (erule disk_stepE)
  fix b s1 R1 w h s1'
  assume e: "(s, R) = (s1, R1)" "(s', R') = (s1', insert \<lparr>rq_buf = b, rq_write = w, rq_head = h,
      rq_want = (if w then b_data (vbufs s1 ! b) else block_at (sectors s1) (sector_of b s1))\<rparr> R1)"
    and m: "may_begin b (s1, R1)" and r: "rw_begin b w s1 = Some (Some h, s1')" and I: "disk_inv s R"
  have I1: "disk_inv s1 R1" using I e(1) by simp
  show "disk_inv s' R'"
    using I1
  proof (cases rule: rw_begin_cases [of s1 R1 b w])
    case (ok i0 i1 i2)
    then show ?thesis using inv_begin [OF I1 m ok(2,3) _ refl, of s1' w] r e(2) by simp
  qed (use r in simp)
next
  fix b s1 R1 w s1'
  assume e: "(s, R) = (s1, R1)" "(s', R') = (s1', R1)" and r: "rw_begin b w s1 = Some (None, s1')" and I: "disk_inv s R"
  have I1: "disk_inv s1 R1" using I e(1) by simp
  show "disk_inv s' R'"
    using I1
  proof (cases rule: rw_begin_cases [of s1 R1 b w])
    case (none s2)
    then show ?thesis using inv_no_desc [OF I1 none(2)] r e(2) by simp
  qed (use r in simp)
next
  fix r R1 s1 s1'
  assume e: "(s, R) = (s1, R1)" "(s', R') = (s1', R1 - {r})" and r: "r \<in> R1" "rw_end (rq_buf r) (rq_head r) s1 = Some (True, s1')"
    and I: "disk_inv s R"
  have I1: "disk_inv s1 R1" using I e(1) by simp
  have "\<not> b_disk (vbufs s1 ! rq_buf r)" using r(2) by (auto simp: rw_end_def)
  from inv_end [OF I1 r(1) this] show "disk_inv s' R'" using r(2) e(2) by auto
next
  fix s1 s1' R1
  assume e: "(s, R) = (s1, R1)" "(s', R') = (s1', R1)" and r: "virtio_disk_intr s1 = Some s1'" and I: "disk_inv s R"
  then show "disk_inv s' R'" using inv_intr [of s1 R1 "useds s1"] by (auto split: if_splits)
next
  fix s1 s1' R1
  assume e: "(s, R) = (s1, R1)" "(s', R') = (s1', R1)" and r: "dev_take s1 = Some s1'" and I: "disk_inv s R"
  then show "disk_inv s' R'" using inv_take [of s1 R1 s1'] by auto
next
  fix h s1 junk st s1' R1
  assume e: "(s, R) = (s1, R1)" "(s', R') = (s1', R1)" and I: "disk_inv s R"
    and r: "h \<in> set (dev_work s1)" "length junk = BSIZE" "dev_finish h st junk s1 = Some s1'"
  then show "disk_inv s' R'" using inv_perform [of s1 R1 h junk st] by auto
next
  fix b s1 R1 d n
  assume e: "(s, R) = (s1, R1)" "(s', R') = (s1\<lparr>vbufs := (vbufs s1)[b := (vbufs s1 ! b)\<lparr>b_data := d, b_blockno := n\<rparr>]\<rparr>, R1)"
    and r: "b < length (vbufs s1)" "\<forall>r \<in> R1. rq_buf r \<noteq> b" "length d = BSIZE" and I: "disk_inv s R"
  then show "disk_inv s' R'" using inv_fill [of s1 R1 b d n] by auto
qed

text \<open>The queues after \<open>virtio_disk_init\<close>.\<close>

definition disk_boot :: "vdisk \<Rightarrow> bool" where
  "disk_boot s \<longleftrightarrow> length (desc s) = NUM \<and> length (avail_ring s) = NUM \<and> length (used_ring s) = NUM \<and> dfree s = replicate NUM True \<and>
     length (info_b s) = NUM \<and> length (info_status s) = NUM \<and> length (ops s) = NUM \<and> avail_idx s = 0 \<and> used_idx s = 0 \<and>
     seen_idx s = 0 \<and> dev_avail s = 0 \<and> dev_work s = [] \<and>
     (\<forall>b < length (vbufs s). length (b_data (vbufs s ! b)) = BSIZE) \<and> (\<forall>k. length (sectors s k) = 512)"

lemma disk_boot_inv: "disk_boot s \<Longrightarrow> disk_inv s {}"
  by (auto simp: disk_boot_def disk_inv_def sizes_def ring_ok_def todo_def avails_def useds_def ring_content_def waiting_def NUM_def nth_replicate)

lemma disk_reach_inv:
  assumes "disk_reach (s0, {}) (s, R)" and "disk_boot s0"
  shows "disk_inv s R"
proof -
  have "disk_inv (fst w) (snd w)" if "disk_reach (s0, {}) w" for w
    using that
  proof (induction rule: disk_reach.induct)
    case disk_start
    then show ?case using disk_boot_inv [OF assms(2)] by simp
  next
    case (disk_next w w')
    then show ?case using disk_step_inv [of "fst w" "snd w" "fst w'" "snd w'"] by simp
  qed
  from this [OF assms(1)] show ?thesis by simp
qed

text \<open>
  C9: however requests, interrupts and the device are interleaved, and whatever status the device reports for each request, the
  interrupt handler panics exactly when it meets a completion whose status is not 0, nothing else in the driver panics, the device
  never meets a chain it cannot perform, and no descriptor is lost: all eight are free when no request is in flight.
\<close>

theorem disk_driver_safe:
  assumes "disk_boot s0" and "disk_reach (s0, {}) (s, R)"
  shows "(virtio_disk_intr s = None \<longleftrightarrow> (\<exists>h \<in> set (useds s). info_status s ! h \<noteq> 0)) \<and>
    rw_begin b write s \<noteq> None \<and> (\<forall>r \<in> R. rw_end (rq_buf r) (rq_head r) s \<noteq> None) \<and>
    (\<forall>h \<in> set (dev_work s). \<forall>st junk. dev_finish h st junk s \<noteq> None) \<and> (R = {} \<longrightarrow> (\<forall>i < NUM. dfree s ! i))"
proof -
  have I: "disk_inv s R" using disk_reach_inv [OF assms(2,1)] .
  have "virtio_disk_intr s = None \<longleftrightarrow> (\<exists>h \<in> set (useds s). info_status s ! h \<noteq> 0)"
    using inv_intr [OF I refl] by (auto split: if_splits)
  moreover have "rw_begin b write s \<noteq> None" using I by (cases rule: rw_begin_cases [of s R b "write"]) simp_all
  moreover have "rw_end (rq_buf r) (rq_head r) s \<noteq> None" if "r \<in> R" for r
    using inv_end [OF I that] by (cases "b_disk (vbufs s ! rq_buf r)") (auto simp: rw_end_def)
  moreover have "dev_finish h st junk s \<noteq> None" if "h \<in> set (dev_work s)" for h st junk using dev_performs [OF I that] by auto
  moreover have "R = {} \<longrightarrow> (\<forall>i < NUM. dfree s ! i)" using disk_invD(5) [OF I] by simp
  ultimately show ?thesis by blast
qed

text \<open>
  C10: \<open>virtio_disk_rw\<close> is an atomic transfer: when it returns, the buffer and the block on the disk hold the same
  data, for a write what the buffer held at the call, for a read what the block held at the call, whatever other requests
  have done in between.
\<close>

theorem disk_rw_atomic:
  assumes "disk_boot s0" and "disk_reach (s0, {}) (s, R)" and "r \<in> R" and "rw_end (rq_buf r) (rq_head r) s = Some (True, s')"
  shows "b_data (vbufs s' ! rq_buf r) = rq_want r \<and> block_at (sectors s') (sector_of (rq_buf r) s') = rq_want r"
proof -
  have I: "disk_inv s R" using disk_reach_inv [OF assms(2,1)] .
  have nd: "\<not> b_disk (vbufs s ! rq_buf r)" using assms(4) by (auto simp: rw_end_def)
  have s': "vbufs s' = vbufs s" "sectors s' = sectors s" using inv_end [OF I assms(3) nd] assms(4) by auto
  have "rq_head r \<notin> set (todo s)" "\<not> failed s r"
    using disk_invD(7) [OF I] waiting_iff [OF I assms(3)] nd by (auto simp: failed_def)
  then have "b_data (vbufs s ! rq_buf r) = rq_want r \<and> block_at (sectors s) (sector_of (rq_buf r) s) = rq_want r"
    using disk_invD(3) [OF I assms(3)] by (simp add: moved_def Let_def)
  then show ?thesis using s' by (simp add: sector_of_def)
qed

section \<open>A run\<close>

text \<open>One buffer, for block 3; a write of it from the call to the return.\<close>

definition demo_vbuf :: vbuf where
  "demo_vbuf = \<lparr>b_valid = True, b_dev = 1, b_blockno = 3, b_lock = True, b_refcnt = 1, b_data = replicate BSIZE 7, b_disk = False\<rparr>"

definition demo_disk :: vdisk where
  "demo_disk = \<lparr>desc = replicate NUM no_desc, avail_idx = 0, avail_ring = replicate NUM 0, used_idx = 0, used_ring = replicate NUM 0,
     dfree = replicate NUM True, seen_idx = 0, info_b = replicate NUM None, info_status = replicate NUM 0,
     ops = replicate NUM \<lparr>q_type = 0, q_reserved = 0, q_sector = 0\<rparr>, vbufs = [demo_vbuf], dev_avail = 0, dev_work = [],
     sectors = (\<lambda>_. replicate 512 0)\<rparr>"

definition demo_request :: request where
  "demo_request = \<lparr>rq_buf = 0, rq_write = True, rq_head = 0, rq_want = replicate BSIZE 7\<rparr>"

lemma demo_disk_boot: "disk_boot demo_disk"
  by (simp add: disk_boot_def demo_disk_def demo_vbuf_def)

lemma demo_begin:
  "rw_begin 0 True demo_disk = Some (Some 0, rw_format 0 True 0 1 2 (demo_disk\<lparr>dfree := mark_used [0, 1, 2] (replicate NUM True)\<rparr>))"
  by (simp add: rw_begin_def alloc3_desc_def numeral_3_eq_3 alloc_desc_def demo_disk_def NUM_def eval_nat_numeral)

definition demo_disk1 :: vdisk where
  "demo_disk1 = rw_format 0 True 0 1 2 (demo_disk\<lparr>dfree := mark_used [0, 1, 2] (replicate NUM True)\<rparr>)"

lemma demo_reach1: "disk_reach (demo_disk, {}) (demo_disk1, {demo_request})"
proof -
  have "may_begin 0 (demo_disk, {})" by (simp add: may_begin_def demo_disk_def demo_vbuf_def)
  from begin_rw [OF this demo_begin]
  have "disk_step (demo_disk, {}) (demo_disk1, {demo_request})"
    by (simp add: demo_disk1_def demo_request_def demo_disk_def demo_vbuf_def)
  then show ?thesis by (rule disk_next [OF disk_start])
qed

text \<open>The device performs the request and reports the status \<open>st\<close>.\<close>

lemma demo_performed:
  obtains s where "disk_reach (demo_disk, {}) (s, {demo_request})" "useds s = [0]" "todo s = []" "info_status s ! 0 = st"
proof -
  obtain s2 where s2: "dev_take demo_disk1 = Some s2" "dev_work s2 = [0]" "avail_idx s2 = 1" "dev_avail s2 = 1" "used_idx s2 = 0" "seen_idx s2 = 0"
      "used_ring s2 = replicate NUM 0" "length (info_status s2) = NUM"
    by (simp add: dev_take_def demo_disk1_def rw_format_simps demo_disk_def NUM_def)
  have r2: "disk_reach (demo_disk, {}) (s2, {demo_request})" by (rule disk_next [OF demo_reach1 take [OF s2(1)]])
  have I2: "disk_inv s2 {demo_request}" using disk_reach_inv [OF r2 demo_disk_boot] .
  let ?s = "performed demo_request st (replicate BSIZE 0) s2"
  have f: "dev_finish (rq_head demo_request) st (replicate BSIZE 0) s2 = Some ?s"
    by (rule dev_finish_performed [OF disk_invD(2) [OF I2]]) simp
  have "disk_step (s2, {demo_request}) (?s, {demo_request})"
    by (rule perform [OF _ _ f]) (simp_all add: demo_request_def s2(2))
  then have "disk_reach (demo_disk, {}) (?s, {demo_request})" by (rule disk_next [OF r2])
  moreover have "useds ?s = [0]" "todo ?s = []" "info_status ?s ! 0 = st"
    by (simp_all add: useds_def todo_def avails_def performed_def Let_def s2 demo_request_def ring_content_def NUM_def)
  ultimately show ?thesis by (rule that)
qed

lemma demo_done:
  obtains s where "disk_reach (demo_disk, {}) (s, {demo_request})" "\<not> b_disk (vbufs s ! 0)"
proof -
  obtain s3 where s3: "disk_reach (demo_disk, {}) (s3, {demo_request})" "useds s3 = [0]" "todo s3 = []" "info_status s3 ! 0 = 0"
    by (rule demo_performed)
  have I3: "disk_inv s3 {demo_request}" using disk_reach_inv [OF s3(1) demo_disk_boot] .
  obtain s4 where s4: "virtio_disk_intr s3 = Some s4" "disk_inv s4 {demo_request}" "useds s4 = []" "todo s4 = todo s3"
    using inv_intr [OF I3 s3(2)] s3(4) by auto
  have r4: "disk_reach (demo_disk, {}) (s4, {demo_request})" by (rule disk_next [OF s3(1) interrupt [OF s4(1)]])
  have "rq_head demo_request \<notin> waiting s4 {demo_request}" using disk_invD(7) [OF s4(2)] s4(3,4) s3(3) by simp
  then have "\<not> b_disk (vbufs s4 ! 0)" using waiting_iff [OF s4(2), of demo_request] by (simp add: demo_request_def)
  with r4 show ?thesis by (rule that)
qed

text \<open>A request that succeeds, and one for which the device reports an I/O error.\<close>

theorem disk_driver_safe_witness:
  "\<exists>s s'. virtio_disk_intr s \<noteq> None \<and> useds s = [0] \<and> info_status s ! 0 = 0 \<and>
     virtio_disk_intr s' = None \<and> useds s' = [0] \<and> info_status s' ! 0 = 1"
proof -
  obtain s where s: "disk_reach (demo_disk, {}) (s, {demo_request})" "useds s = [0]" "todo s = []" "info_status s ! 0 = 0"
    by (rule demo_performed)
  obtain s' where s': "disk_reach (demo_disk, {}) (s', {demo_request})" "useds s' = [0]" "todo s' = []" "info_status s' ! 0 = 1"
    by (rule demo_performed)
  have "virtio_disk_intr s \<noteq> None" using disk_driver_safe [OF demo_disk_boot s(1), of 0 False] s by simp
  moreover have "virtio_disk_intr s' = None" using disk_driver_safe [OF demo_disk_boot s'(1), of 0 False] s' by simp
  ultimately show ?thesis using s s' by blast
qed

theorem disk_rw_atomic_witness:
  "\<exists>s s'. disk_reach (demo_disk, {}) (s, {demo_request}) \<and> rw_end 0 0 s = Some (True, s') \<and>
     b_data (vbufs s' ! 0) = replicate BSIZE 7 \<and> block_at (sectors s') (sector_of 0 s') = replicate BSIZE 7"
proof -
  obtain s where s: "disk_reach (demo_disk, {}) (s, {demo_request})" "\<not> b_disk (vbufs s ! 0)" by (rule demo_done)
  have I: "disk_inv s {demo_request}" using disk_reach_inv [OF s(1) demo_disk_boot] .
  have d: "rq_buf demo_request = 0" "rq_head demo_request = 0" "rq_want demo_request = replicate BSIZE 7" by (simp_all add: demo_request_def)
  obtain s' where e: "rw_end 0 0 s = Some (True, s')" using inv_end [OF I, of demo_request] s(2) d by auto
  show ?thesis using disk_rw_atomic [OF demo_disk_boot s(1), of demo_request s'] s(1) e d by auto
qed

end
