(* ===== verification/Vmm.thy ===== *)
theory Vmm
  imports Proc_Steps
begin

text \<open>
  Trap-and-emulate of assignment 4, kernel/trap-and-emulate.c: a process whose name starts with
  \<open>vm-\<close> runs a guest kernel in user mode, and every privileged instruction of the guest traps into
  \<open>trap_and_emulate\<close>, which carries it out on virtual registers. The table operations are those of
  theories Vm and Proc, except \<open>uvmunmap\<close>, which in this assignment panics on a page that is not mapped.
\<close>

section \<open>State\<close>

record vm_reg =
  code :: u32
  reg_mode :: int
  val :: u64

text \<open>
  \<open>struct vm_virtual_state\<close>. The registers from \<open>sstatus\<close> to \<open>pmpaddr[3]\<close> are the list \<open>regs\<close> in
  the order of the struct; \<open>old_ptable\<close> and \<open>new_ptable\<close> follow them in memory.
\<close>

record vmm_state = proc_state +
  regs :: "vm_reg list"
  old_ptable :: u64
  new_ptable :: u64
  current_mode :: int
  pmp_configuration :: int

definition reg_codes :: "(u32 \<times> int \<times> u64) list" where
  "reg_codes = [
     (0x100, 1, 0), (0x104, 1, 0), (0x105, 1, 0), (0x106, 1, 0),
     (0x140, 1, 0), (0x141, 1, 0), (0x142, 1, 0), (0x144, 1, 0), (0x143, 1, 0),
     (0x180, 1, 0),
     (0xf11, 2, 0x637365353336), (0xf12, 2, 0), (0xf13, 2, 0), (0xf14, 2, 0), (0xf15, 2, 0),
     (0x300, 2, 0), (0x301, 2, 0), (0x302, 2, 0), (0x303, 2, 0), (0x304, 2, 0), (0x305, 2, 0), (0x306, 2, 0), (0x310, 2, 0),
     (0x340, 2, 0), (0x341, 2, 0), (0x342, 2, 0), (0x343, 2, 0), (0x344, 2, 0), (0x34A, 2, 0), (0x34B, 2, 0),
     (0x3a0, 0, 0), (0x3b0, 0, 0), (0x3b1, 0, 0), (0x3b2, 0, 0), (0x3b3, 0, 0)]"

definition PMPCFG :: nat where "PMPCFG = 30"
definition PMPADDR :: nat where "PMPADDR = 31"

definition trap_and_emulate_init :: "vmm_state \<Rightarrow> vmm_state" where
  "trap_and_emulate_init s = s\<lparr>regs := map (\<lambda>(c, m, v). \<lparr>code = c, reg_mode = m, val = v\<rparr>) reg_codes,
     current_mode := 2, pmp_configuration := 0, old_ptable := 0, new_ptable := 0\<rparr>"

text \<open>
  \<open>get_vm_reg\<close> walks the whole struct in steps of \<open>struct vm_reg\<close>, so its last step reads the two page
  tables as a register: the low word of \<open>old_ptable\<close> as its code, \<open>new_ptable\<close> as its value.
\<close>

definition all_regs :: "vmm_state \<Rightarrow> vm_reg list" where
  "all_regs s = regs s @ [\<lparr>code = ucast (old_ptable s), reg_mode = sint (ucast (drop_bit 32 (old_ptable s)) :: u32), val = new_ptable s\<rparr>]"

definition get_vm_reg :: "u32 \<Rightarrow> vmm_state \<Rightarrow> nat option" where
  "get_vm_reg csr s = first_index (\<lambda>r. code r = csr) (all_regs s)"

definition reg_val :: "nat \<Rightarrow> vmm_state \<Rightarrow> u64" where
  "reg_val k s = val (all_regs s ! k)"

definition set_reg :: "nat \<Rightarrow> u64 \<Rightarrow> vmm_state \<Rightarrow> vmm_state" where
  "set_reg k v s = (if k < length (regs s) then s\<lparr>regs := (regs s)[k := (regs s ! k)\<lparr>val := v\<rparr>]\<rparr> else s\<lparr>new_ptable := v\<rparr>)"

definition set_pagetable :: "nat \<Rightarrow> u64 \<Rightarrow> vmm_state \<Rightarrow> vmm_state" where
  "set_pagetable i pt s = upd_proc i (\<lambda>p. p\<lparr>p_pagetable := pt\<rparr>) s"

definition switch_page_table :: "nat \<Rightarrow> vmm_state \<Rightarrow> vmm_state" where
  "switch_page_table i s = set_pagetable i (old_ptable s) s"

section \<open>Page tables of the guest\<close>

text \<open>\<open>uvmunmap\<close> of this assignment, one page, without freeing.\<close>

definition unmap_page :: "u64 \<Rightarrow> u64 \<Rightarrow> 'a kmem_state_scheme \<Rightarrow> 'a kmem_state_scheme option" where
  "unmap_page pagetable a s =
     (if a mod PGSIZE \<noteq> 0 then None
      else do {
        (pte, _) \<leftarrow> walk pagetable a False s;
        let e = load64 (mem s) pte;
        if pte = 0 \<or> e AND PTE_V = 0 \<or> PTE_FLAGS e = PTE_V then None
        else Some (s\<lparr>mem := store64 (mem s) pte 0\<rparr>) })"

partial_function (option) apply_pmp_restrictions ::
  "u64 \<Rightarrow> u64 \<Rightarrow> u64 \<Rightarrow> 'a kmem_state_scheme \<Rightarrow> 'a kmem_state_scheme option" where
  "apply_pmp_restrictions pagetable i end_addr s =
     (if i < end_addr then do {
        s1 \<leftarrow> unmap_page pagetable i s;
        apply_pmp_restrictions pagetable (i + PGSIZE) end_addr s1 }
      else Some s)"

partial_function (option) copy_pagetable_region ::
  "u64 \<Rightarrow> u64 \<Rightarrow> u64 \<Rightarrow> u64 \<Rightarrow> 'a kmem_state_scheme \<Rightarrow> 'a kmem_state_scheme option" where
  "copy_pagetable_region old new i end_addr s =
     (if i < end_addr then do {
        (pte, _) \<leftarrow> walk old i False s;
        let e = load64 (mem s) pte;
        if pte = 0 \<or> e AND PTE_V = 0 then None \<comment> \<open>panic\<close>
        else do {
          (_, s1) \<leftarrow> mappages new i PGSIZE (PTE2PA e) (PTE_FLAGS e) s;
          copy_pagetable_region old new (i + PGSIZE) end_addr s1 } }
      else Some s)"

definition GUEST_START :: u64 where "GUEST_START = 0x80000000"
definition GUEST_END :: u64 where "GUEST_END = 0x80400000"

text \<open>A new table with the guest's regions; the walks of a null table are faults of the kernel.\<close>

definition clone_guest :: "nat \<Rightarrow> u64 \<Rightarrow> vmm_state \<Rightarrow> (u64 \<times> vmm_state) option" where
  "clone_guest i old s = do {
     (new, s1) \<leftarrow> proc_pagetable i s;
     if new = 0 then None
     else do {
       s2 \<leftarrow> copy_pagetable_region old new 0 (p_sz (procs s1 ! i)) s1;
       s3 \<leftarrow> copy_pagetable_region old new GUEST_START GUEST_END s2;
       Some (new, s3) } }"

section \<open>The handlers\<close>

definition kill_vm :: "nat \<Rightarrow> vmm_state \<Rightarrow> vmm_state" where
  "kill_vm i s = trap_and_emulate_init (setkilled i s)"

text \<open>
  The updates of \<open>sstatus\<close> and \<open>mstatus\<close> in \<open>handle_ecall\<close> go to local variables that are not
  written back.
\<close>

definition handle_ecall :: "nat \<Rightarrow> vmm_state \<Rightarrow> vmm_state option" where
  "handle_ecall i s =
     (if current_mode s = 0 then do {
        sepc \<leftarrow> get_vm_reg 0x141 s;
        sstatus \<leftarrow> get_vm_reg 0x100 s;
        stvec \<leftarrow> get_vm_reg 0x105 s;
        let s1 = (set_reg sepc (get_tf i tf_epc s) s)\<lparr>current_mode := 1\<rparr>;
        Some (set_tf i tf_epc (reg_val stvec s1) s1) }
      else if current_mode s = 1 then do {
        mepc \<leftarrow> get_vm_reg 0x341 s;
        mstatus \<leftarrow> get_vm_reg 0x300 s;
        mtvec \<leftarrow> get_vm_reg 0x305 s;
        let s1 = (set_reg mepc (get_tf i tf_epc s) s)\<lparr>current_mode := 2\<rparr>;
        Some (set_pagetable i (old_ptable s) (set_tf i tf_epc (reg_val mtvec s1) s1)) }
      else Some (kill_vm i s))"

definition handle_sret :: "nat \<Rightarrow> vmm_state \<Rightarrow> vmm_state option" where
  "handle_sret i s =
     (if current_mode s = 1 then do {
        r \<leftarrow> get_vm_reg 0x100 s;
        e \<leftarrow> get_vm_reg 0x141 s;
        let sstatus = reg_val r s;
        let spp = drop_bit 8 sstatus AND 1;
        let spie = drop_bit 5 sstatus AND 1;
        let s1 = (if spp < 1 then s\<lparr>current_mode := uint spp\<rparr> else s);
        let s2 = set_reg r (sstatus OR push_bit 1 spie OR push_bit 5 1) s1;
        Some (set_tf i tf_epc (reg_val e s2) s2) }
      else Some (kill_vm i (set_pagetable i (old_ptable s) s)))"

text \<open>The loop over the four PMP entries: \<open>start\<close> is what the last round left in \<open>start_addr\<close>.\<close>

definition pmp_end :: "nat \<Rightarrow> vmm_state \<Rightarrow> u64" where
  "pmp_end j s = push_bit 2 (reg_val (PMPADDR + j) s)"

definition pmp_rwx :: "nat \<Rightarrow> vmm_state \<Rightarrow> u64" where
  "pmp_rwx j s = drop_bit (8 * j) (reg_val PMPCFG s) AND 7"

primrec pmp_loop :: "nat \<Rightarrow> nat \<Rightarrow> vmm_state \<Rightarrow> vmm_state option" where
  "pmp_loop j 0 s = Some s"
| "pmp_loop j (Suc n) s =
     (if reg_val (PMPADDR + j) s = 0 then Some s
      else do {
        let start = (if j > 0 then pmp_end (j - 1) s else GUEST_START);
        s1 \<leftarrow> (if pmp_rwx j s \<noteq> 7 then apply_pmp_restrictions (new_ptable s) start (pmp_end j s) s else Some s);
        pmp_loop (Suc j) n s1 })"

definition handle_mret :: "nat \<Rightarrow> vmm_state \<Rightarrow> vmm_state option" where
  "handle_mret i s = do {
     s1 \<leftarrow> (if current_mode s \<ge> 2 then do {
              r \<leftarrow> get_vm_reg 0x300 s;
              e \<leftarrow> get_vm_reg 0x341 s;
              let mstatus = reg_val r s;
              let mpp = drop_bit 11 mstatus AND 3;
              let mpie = drop_bit 7 mstatus AND 1;
              let t = (if mpp < 2 then s\<lparr>current_mode := uint mpp\<rparr> else s);
              let t1 = set_reg r (mstatus OR push_bit 3 mpie OR push_bit 7 1) t;
              Some (set_tf i tf_epc (reg_val e t1) t1) }
            else Some (kill_vm i s));
     if pmp_configuration s1 = 1 then do {
       (new, s2) \<leftarrow> clone_guest i (p_pagetable (procs s1 ! i)) s1;
       s3 \<leftarrow> pmp_loop 0 4 (s2\<lparr>new_ptable := new\<rparr>);
       Some (set_pagetable i (new_ptable s3) s3) }
     else Some s1 }"

text \<open>Register \<open>r\<close> in the trapframe, as \<open>&(p->trapframe->ra) + r - 1\<close>; register 0 is the word before \<open>ra\<close>.\<close>

definition tf_reg :: "u32 \<Rightarrow> u64" where
  "tf_reg r = 32 + 8 * ucast r"

definition handle_csrw :: "nat \<Rightarrow> u32 \<Rightarrow> u32 \<Rightarrow> vmm_state \<Rightarrow> vmm_state" where
  "handle_csrw i rs1 uimm s =
     (let v = get_tf i (tf_reg rs1) s;
          s1 = (case get_vm_reg uimm s of
                  Some k \<Rightarrow> if reg_mode (all_regs s ! k) \<le> current_mode s then set_reg k v s else kill_vm i s
                | None \<Rightarrow> kill_vm i s);
          s2 = (if uimm \<in> {0x3a0, 0x3b0, 0x3b1, 0x3b2, 0x3b3} then s1\<lparr>pmp_configuration := 1\<rparr> else s1)
      in set_tf i tf_epc (get_tf i tf_epc s2 + 4) s2)"

definition handle_csrr :: "nat \<Rightarrow> u32 \<Rightarrow> u32 \<Rightarrow> vmm_state \<Rightarrow> vmm_state option" where
  "handle_csrr i rd uimm s = do {
     k \<leftarrow> get_vm_reg uimm s;
     let s1 = (if reg_mode (all_regs s ! k) \<le> current_mode s then set_tf i (tf_reg rd) (reg_val k s) s else kill_vm i s);
     Some (set_tf i tf_epc (get_tf i tf_epc s1 + 4) s1) }"

section \<open>trap_and_emulate\<close>

text \<open>The fields of an instruction word; \<open>op\<close> is only printed.\<close>

definition i_rd :: "u32 \<Rightarrow> u32" where "i_rd w = drop_bit 7 w AND 31"
definition i_funct3 :: "u32 \<Rightarrow> u32" where "i_funct3 w = drop_bit 12 w AND 7"
definition i_rs1 :: "u32 \<Rightarrow> u32" where "i_rs1 w = drop_bit 15 w AND 31"
definition i_uimm :: "u32 \<Rightarrow> u32" where "i_uimm w = drop_bit 20 w AND 4095"

definition emulate :: "nat \<Rightarrow> u32 \<Rightarrow> vmm_state \<Rightarrow> vmm_state option" where
  "emulate i w s =
     (if i_funct3 w = 0 then
        (if i_uimm w = 0x102 then handle_sret i s
         else if i_uimm w = 0x302 then handle_mret i s
         else handle_ecall i s)
      else if i_funct3 w = 1 then Some (handle_csrw i (i_rs1 w) (i_uimm w) s)
      else if i_funct3 w = 2 then handle_csrr i (i_rd w) (i_uimm w) s
      else Some s)"

text \<open>\<open>sepc\<close> is the address of the instruction, in the hardware register.\<close>

definition trap_and_emulate :: "u64 \<Rightarrow> vmm_state \<Rightarrow> vmm_state option" where
  "trap_and_emulate sepc s = do {
     i \<leftarrow> myproc s;
     s1 \<leftarrow> (if old_ptable s = 0 \<and> p_pagetable (procs s ! i) \<noteq> 0 then do {
              (pt, t) \<leftarrow> clone_guest i (p_pagetable (procs s ! i)) s;
              Some (t\<lparr>old_ptable := pt\<rparr>) }
            else Some s);
     let pa = walkaddr (p_pagetable (procs s1 ! i)) sepc s1;
     if pa = 0 then None
     else emulate i (ucast (load64 (mem s1) (pa OR (sepc AND 0xFFF)))) s1 }"


section \<open>Removing pages from a table\<close>

lemma unmap_page_leaf:
  assumes inv: "pt_inv s root ps" and u: "unmap_page root a s = Some s'"
  shows "pt_inv s' root ps" and "page_aligned a" and "a < MAXVA" and "kmem_state.more s' = kmem_state.more s"
    and "\<And>vb. vb < MAXVA \<Longrightarrow> leaf (mem s') root vb = (if PGROUNDDOWN vb = a then 0 else leaf (mem s) root vb)"
proof -
  show a: "a < MAXVA" using u by (auto simp: unmap_page_def walk_def monad_simps split: if_splits)
  show al: "page_aligned a" using u by (auto simp: unmap_page_def page_aligned_def split: if_splits)
  then have pa: "PGROUNDDOWN a = a" by (rule PGROUNDDOWN_id)
  obtain t where t: "reach (mem s) root (ix 0 a) = Some t" and s': "s' = s\<lparr>mem := store64 (mem s) (pte_slot t (PX 0 a)) 0\<rparr>"
    using u by (auto simp: unmap_page_def walk_lookup [OF a] Let_def split: if_splits option.splits)
  note l = store_leaf [OF inv t s']
  show "pt_inv s' root ps" by (rule l(1))
  show "kmem_state.more s' = kmem_state.more s" by (simp add: s')
  show "leaf (mem s') root vb = (if PGROUNDDOWN vb = a then 0 else leaf (mem s) root vb)" if "vb < MAXVA" for vb
    using l(2) l(3) [OF a that] leaf_same_page [of vb a] pa by auto
qed


lemma page_after:
  assumes "page_aligned a" and "page_aligned p" and "a \<le> p" and "p \<noteq> a" and "a < MAXVA"
  shows "a + PGSIZE \<le> p"
proof -
  obtain j k where "unat a = 4096 * j" "unat p = 4096 * k"
    using assms(1,2) unfolding page_aligned_unat by (meson dvd_def mod_eq_0_iff_dvd)
  moreover from this have "j < k" using assms(3,4) by (simp add: word_le_nat_alt word_unat_eq_iff le_less)
  moreover have "unat (a + PGSIZE) = unat a + 4096"
    using assms(5) by (simp add: unat_word_ariths word_less_nat_alt MAXVA_def)
  ultimately show ?thesis by (simp add: word_le_nat_alt)
qed

text \<open>A page whose base is at or after the start and before the end is taken out; the rest of the table stays.\<close>

lemma apply_pmp_leaf:
  assumes r: "apply_pmp_restrictions root i e s = Some s'" and inv: "pt_inv s root ps"
  shows "pt_inv s' root ps" and "kmem_state.more s' = kmem_state.more s"
    and "vb < MAXVA \<Longrightarrow> leaf (mem s') root vb =
       (if i \<le> PGROUNDDOWN vb \<and> PGROUNDDOWN vb < e then 0 else leaf (mem s) root vb)"
proof -
  have "pt_inv s root ps \<longrightarrow> pt_inv s' root ps \<and> kmem_state.more s' = kmem_state.more s \<and>
    (\<forall>vb < MAXVA. leaf (mem s') root vb =
       (if i \<le> PGROUNDDOWN vb \<and> PGROUNDDOWN vb < e then 0 else leaf (mem s) root vb))"
  proof (rule apply_pmp_restrictions.raw_induct [where P = "\<lambda>root i e s s'. pt_inv s root ps \<longrightarrow> pt_inv s' root ps \<and>
      kmem_state.more s' = kmem_state.more s \<and> (\<forall>vb < MAXVA. leaf (mem s') root vb =
         (if i \<le> PGROUNDDOWN vb \<and> PGROUNDDOWN vb < e then 0 else leaf (mem s) root vb))", OF _ r], goal_cases)
    case (1 f root i e s s')
    show ?case
    proof (intro impI)
      assume inv: "pt_inv s root ps"
      show "pt_inv s' root ps \<and> kmem_state.more s' = kmem_state.more s \<and> (\<forall>vb < MAXVA. leaf (mem s') root vb =
         (if i \<le> PGROUNDDOWN vb \<and> PGROUNDDOWN vb < e then 0 else leaf (mem s) root vb))"
      proof (cases "i < e")
        case False
        then have "s' = s" using 1(2) by simp
        then show ?thesis using inv False by auto
      next
        case True
        then obtain s1 where u: "unmap_page root i s = Some s1" and r: "f root (i + PGSIZE) e s1 = Some s'"
          using 1(2) by (auto simp: monad_simps)
        note l = unmap_page_leaf [OF inv u]
        have ih: "pt_inv s' root ps" "kmem_state.more s' = kmem_state.more s1" "\<forall>vb < MAXVA. leaf (mem s') root vb =
           (if i + PGSIZE \<le> PGROUNDDOWN vb \<and> PGROUNDDOWN vb < e then 0 else leaf (mem s1) root vb)"
          using 1(1) [OF r] l(1) by simp_all
        have "leaf (mem s') root vb = (if i \<le> PGROUNDDOWN vb \<and> PGROUNDDOWN vb < e then 0 else leaf (mem s) root vb)"
          if vb: "vb < MAXVA" for vb
        proof -
          have i: "i \<le> i + PGSIZE" using l(3) by (simp add: MAXVA_def word_le_nat_alt word_less_nat_alt unat_word_ariths)
          consider "PGROUNDDOWN vb = i" | "i + PGSIZE \<le> PGROUNDDOWN vb" | "\<not> i \<le> PGROUNDDOWN vb"
            using page_after [OF l(2) PGROUNDDOWN_aligned _ _ l(3), of vb] by blast
          then show ?thesis
          proof cases
            case 1
            have "\<not> i + PGSIZE \<le> i" using l(3) by (simp add: MAXVA_def word_le_nat_alt word_less_nat_alt unat_word_ariths)
            then show ?thesis using ih(3) [rule_format, OF vb] l(5) [OF vb] True 1 by simp
          next
            case 2
            then have "i \<le> PGROUNDDOWN vb" using i by (rule order_trans [rotated])
            moreover have "PGROUNDDOWN vb \<noteq> i"
              using 2 l(3) by (auto simp: MAXVA_def word_le_nat_alt word_less_nat_alt unat_word_ariths)
            ultimately show ?thesis using ih(3) [rule_format, OF vb] l(5) [OF vb] 2 by simp
          next
            case 3
            then have "\<not> i + PGSIZE \<le> PGROUNDDOWN vb" "PGROUNDDOWN vb \<noteq> i" using i by (auto dest: order_trans [OF i])
            then show ?thesis using ih(3) [rule_format, OF vb] l(5) [OF vb] 3 by simp
          qed
        qed
        then show ?thesis using ih l(4) by simp
      qed
    qed
  qed
  with inv show "pt_inv s' root ps" "kmem_state.more s' = kmem_state.more s"
    "vb < MAXVA \<Longrightarrow> leaf (mem s') root vb = (if i \<le> PGROUNDDOWN vb \<and> PGROUNDDOWN vb < e then 0 else leaf (mem s) root vb)"
    by blast+
qed


text \<open>The registers do not change while the four entries are gone through.\<close>

lemma reg_val_more: "kmem_state.more s' = kmem_state.more s \<Longrightarrow> reg_val k s' = reg_val k (s :: vmm_state) \<and> new_ptable s' = new_ptable s"
  by (cases s; cases s') (simp add: reg_val_def all_regs_def)

definition pmp_start :: "nat \<Rightarrow> vmm_state \<Rightarrow> u64" where
  "pmp_start j s = (if j > 0 then pmp_end (j - 1) s else GUEST_START)"

text \<open>Entry \<open>j\<close> is in force when it and the entries before it are set.\<close>

definition pmp_active :: "nat \<Rightarrow> nat \<Rightarrow> vmm_state \<Rightarrow> bool" where
  "pmp_active j0 j s \<longleftrightarrow> (\<forall>l. j0 \<le> l \<and> l \<le> j \<longrightarrow> reg_val (PMPADDR + l) s \<noteq> 0)"

definition pmp_denies :: "nat \<Rightarrow> nat \<Rightarrow> u64 \<Rightarrow> vmm_state \<Rightarrow> bool" where
  "pmp_denies j0 n p s \<longleftrightarrow> (\<exists>j. j0 \<le> j \<and> j < j0 + n \<and> pmp_active j0 j s \<and> pmp_rwx j s \<noteq> 7 \<and>
     pmp_start j s \<le> p \<and> p < pmp_end j s)"

lemma pmp_more:
  assumes "kmem_state.more s' = kmem_state.more s"
  shows "pmp_rwx j s' = pmp_rwx j s" "pmp_start j s' = pmp_start j s" "pmp_end j s' = pmp_end j s"
    "pmp_active j0 j s' = pmp_active j0 j s" "pmp_denies j0 n p s' = pmp_denies j0 n p s"
  using reg_val_more [OF assms] by (simp_all add: pmp_rwx_def pmp_start_def pmp_end_def pmp_active_def pmp_denies_def)

lemma pmp_denies_Suc:
  assumes "reg_val (PMPADDR + j) s \<noteq> 0"
  shows "pmp_denies j (Suc n) p s \<longleftrightarrow>
    (pmp_rwx j s \<noteq> 7 \<and> pmp_start j s \<le> p \<and> p < pmp_end j s) \<or> pmp_denies (Suc j) n p s"
proof -
  have a: "pmp_active j j s" using assms unfolding pmp_active_def by (metis le_antisym)
  have b: "pmp_active j l s = pmp_active (Suc j) l s" if "Suc j \<le> l" for l
  proof -
    have "(j \<le> m \<and> m \<le> l) \<longleftrightarrow> m = j \<or> Suc j \<le> m \<and> m \<le> l" for m using that by auto
    then show ?thesis using assms unfolding pmp_active_def by auto
  qed
  show ?thesis
  proof
    assume "pmp_denies j (Suc n) p s"
    then obtain l where l: "j \<le> l" "l < j + Suc n" "pmp_active j l s" "pmp_rwx l s \<noteq> 7" "pmp_start l s \<le> p" "p < pmp_end l s"
      by (auto simp: pmp_denies_def)
    show "(pmp_rwx j s \<noteq> 7 \<and> pmp_start j s \<le> p \<and> p < pmp_end j s) \<or> pmp_denies (Suc j) n p s"
    proof (cases "l = j")
      case False
      then have "Suc j \<le> l" "l < Suc j + n" using l by auto
      then show ?thesis using l b unfolding pmp_denies_def by blast
    qed (use l in simp)
  next
    assume "(pmp_rwx j s \<noteq> 7 \<and> pmp_start j s \<le> p \<and> p < pmp_end j s) \<or> pmp_denies (Suc j) n p s"
    then show "pmp_denies j (Suc n) p s"
    proof
      assume "pmp_denies (Suc j) n p s"
      then obtain l where l: "Suc j \<le> l" "l < Suc j + n" "pmp_active (Suc j) l s" "pmp_rwx l s \<noteq> 7" "pmp_start l s \<le> p" "p < pmp_end l s"
        by (auto simp: pmp_denies_def)
      then have "j \<le> l" "l < j + Suc n" "pmp_active j l s" using b by simp_all
      then show ?thesis using l unfolding pmp_denies_def by blast
    next
      assume "pmp_rwx j s \<noteq> 7 \<and> pmp_start j s \<le> p \<and> p < pmp_end j s"
      then show ?thesis using a unfolding pmp_denies_def by (intro exI [of _ j]) simp
    qed
  qed
qed

lemma pmp_loop_leaf:
  assumes "pmp_loop j n s = Some s'" and "pt_inv s root ps" and "new_ptable s = root"
  shows "pt_inv s' root ps \<and> kmem_state.more s' = kmem_state.more s \<and>
    (\<forall>vb < MAXVA. leaf (mem s') root vb = (if pmp_denies j n (PGROUNDDOWN vb) s then 0 else leaf (mem s) root vb))"
  using assms
proof (induction n arbitrary: j s)
  case 0
  then show ?case by (auto simp: pmp_denies_def)
next
  case (Suc n)
  show ?case
  proof (cases "reg_val (PMPADDR + j) s = 0")
    case True
    then have "\<not> pmp_denies j (Suc n) p s" for p by (auto simp: pmp_denies_def pmp_active_def)
    then show ?thesis using Suc.prems True by auto
  next
    case False
    define t where "t = (if pmp_rwx j s \<noteq> 7 then apply_pmp_restrictions root (pmp_start j s) (pmp_end j s) s else Some s)"
    obtain s1 where s1: "t = Some s1" and r: "pmp_loop (Suc j) n s1 = Some s'"
      using Suc.prems(1,3) False unfolding t_def pmp_start_def by (auto simp: Let_def monad_simps simp del: if_None_eq_Some if_Some_eq_None)
    have l: "pt_inv s1 root ps" "kmem_state.more s1 = kmem_state.more s"
      "\<And>vb. vb < MAXVA \<Longrightarrow> leaf (mem s1) root vb = (if pmp_rwx j s \<noteq> 7 \<and> pmp_start j s \<le> PGROUNDDOWN vb \<and> PGROUNDDOWN vb < pmp_end j s
         then 0 else leaf (mem s) root vb)"
      using s1 apply_pmp_leaf [OF _ Suc.prems(2), of "pmp_start j s" "pmp_end j s" s1] Suc.prems(2)
      unfolding t_def by (auto split: if_splits)
    have nt: "new_ptable s1 = root" using reg_val_more [OF l(2)] Suc.prems(3) by simp
    note ih = Suc.IH [OF r l(1) nt]
    show ?thesis using ih l(2,3) pmp_denies_Suc [OF False] pmp_more [OF l(2)] by simp
  qed
qed


section \<open>The virtual registers\<close>

definition vm_ok :: "vmm_state \<Rightarrow> bool" where
  "vm_ok s \<longleftrightarrow> map (\<lambda>r. (code r, reg_mode r)) (regs s) = map (\<lambda>(c, m, v). (c, m)) reg_codes \<and> current_mode s \<in> {0, 1, 2}"

lemma vm_ok_init [simp]: "vm_ok (trap_and_emulate_init s)"
  by (auto simp: vm_ok_def trap_and_emulate_init_def reg_codes_def)

lemma vm_ok_length: "vm_ok s \<Longrightarrow> length (regs s) = 35"
  unfolding vm_ok_def by (drule conjunct1, drule arg_cong [of _ _ length]) (simp add: reg_codes_def)

lemma vm_ok_code:
  assumes "vm_ok s" and "k < 35"
  shows "code (regs s ! k) = fst (reg_codes ! k)" and "reg_mode (regs s ! k) = fst (snd (reg_codes ! k))"
proof -
  have "map (\<lambda>r. (code r, reg_mode r)) (regs s) ! k = map (\<lambda>(c, m, v). (c, m)) reg_codes ! k"
    using assms(1) by (simp add: vm_ok_def)
  moreover have "length reg_codes = 35" by (simp add: reg_codes_def)
  ultimately have "(code (regs s ! k), reg_mode (regs s ! k)) = (fst (reg_codes ! k), fst (snd (reg_codes ! k)))"
    using vm_ok_length [OF assms(1)] assms(2) by (simp add: case_prod_beta)
  then show "code (regs s ! k) = fst (reg_codes ! k)" "reg_mode (regs s ! k) = fst (snd (reg_codes ! k))" by simp_all
qed

text \<open>Each code names one register.\<close>

lemma reg_codes_distinct: "distinct (map fst reg_codes)"
  by (simp add: reg_codes_def)

lemma get_vm_reg_code:
  assumes ok: "vm_ok s" and k: "k < 35"
  shows "get_vm_reg (fst (reg_codes ! k)) s = Some k"
proof -
  have l: "length (regs s) = 35" by (rule vm_ok_length [OF ok])
  have c: "code (all_regs s ! j) = fst (reg_codes ! j)" if "j < 35" for j
    using that l vm_ok_code [OF ok that] by (simp add: all_regs_def nth_append)
  have n: "length reg_codes = 35" by (simp add: reg_codes_def)
  have "fst (reg_codes ! j) \<noteq> fst (reg_codes ! k)" if "j < k" for j
  proof -
    have "map fst reg_codes ! j \<noteq> map fst reg_codes ! k"
      using nth_eq_iff_index_eq [OF reg_codes_distinct, of j k] that k n by simp
    then show ?thesis using that k n by simp
  qed
  then show ?thesis
    unfolding get_vm_reg_def first_index_Some using k l c by (auto simp: all_regs_def)
qed

lemma get_vm_reg_SomeD:
  assumes ok: "vm_ok s" and g: "get_vm_reg csr s = Some k" and o: "ucast (old_ptable s) \<noteq> csr"
  shows "k < 35" and "fst (reg_codes ! k) = csr"
proof -
  have l: "length (regs s) = 35" by (rule vm_ok_length [OF ok])
  have k: "k < 36" "code (all_regs s ! k) = csr" using g l by (auto simp: get_vm_reg_def all_regs_def dest!: first_index_SomeD)
  show "k < 35"
  proof (rule ccontr)
    assume "\<not> k < 35"
    then have "k = 35" using k(1) by simp
    then show False using k(2) o l by (simp add: all_regs_def nth_append)
  qed
  then show "fst (reg_codes ! k) = csr" using k(2) l vm_ok_code [OF ok \<open>k < 35\<close>] by (simp add: all_regs_def nth_append)
qed


section \<open>What the steps of a guest do to the registers and the mode\<close>

lemma vmm_tf [simp]:
  "regs (set_tf i f v s) = regs s" "current_mode (set_tf i f v s) = current_mode s" "procs (set_tf i f v s) = procs s"
  "old_ptable (set_tf i f v s) = old_ptable s" "new_ptable (set_tf i f v s) = new_ptable s"
  "pmp_configuration (set_tf i f v s) = pmp_configuration s"
  by (simp_all add: set_tf_def)

lemma vmm_upd [simp]:
  "regs (upd_proc i f s) = regs s" "current_mode (upd_proc i f s) = current_mode s"
  "old_ptable (upd_proc i f s) = old_ptable s" "new_ptable (upd_proc i f s) = new_ptable s"
  "pmp_configuration (upd_proc i f s) = pmp_configuration s" "procs (upd_proc i f s) = (procs s)[i := f (procs s ! i)]"
  by (simp_all add: upd_proc_def sync_group_def split: option.split)

lemma vmm_init [simp]:
  "current_mode (trap_and_emulate_init s) = 2" "procs (trap_and_emulate_init s) = procs s"
  "old_ptable (trap_and_emulate_init s) = 0" "pmp_configuration (trap_and_emulate_init s) = 0" "mem (trap_and_emulate_init s) = mem s"
  by (simp_all add: trap_and_emulate_init_def)

lemma map_update_same: "f y = f (xs ! k) \<Longrightarrow> map f (xs[k := y]) = map f xs"
  by (cases "k < length xs") (auto simp: list_eq_iff_nth_eq nth_list_update list_update_beyond)

lemma vmm_set_reg [simp]:
  "current_mode (set_reg k v s) = current_mode s" "procs (set_reg k v s) = procs s" "mem (set_reg k v s) = mem s"
  "old_ptable (set_reg k v s) = old_ptable s" "pmp_configuration (set_reg k v s) = pmp_configuration s"
  "map (\<lambda>r. (code r, reg_mode r)) (regs (set_reg k v s)) = map (\<lambda>r. (code r, reg_mode r)) (regs s)"
  by (simp_all add: set_reg_def map_update_same del: map_update)

lemma vm_ok_cong: "regs s' = regs s \<Longrightarrow> current_mode s' \<in> {0, 1, 2} \<Longrightarrow> vm_ok s \<Longrightarrow> vm_ok s'"
  by (simp add: vm_ok_def)

lemma vm_ok_set_reg: "vm_ok s \<Longrightarrow> vm_ok (set_reg k v s)"
  by (simp add: vm_ok_def)

lemma more_vmm:
  assumes "kmem_state.more s' = kmem_state.more (s :: vmm_state)"
  shows "regs s' = regs s" "current_mode s' = current_mode s" "procs s' = procs s" "old_ptable s' = old_ptable s"
  using assms by (cases s; cases s'; simp)+

lemma copy_region_frame:
  assumes "copy_pagetable_region old new a e s = Some s'"
  shows "kmem_state.more s' = kmem_state.more s"
proof (rule copy_pagetable_region.raw_induct [where P = "\<lambda>old new a e s s'. kmem_state.more s' = kmem_state.more s", OF _ assms],
    goal_cases)
  case (1 f old new a e s s')
  show ?case
  proof (cases "a < e")
    case True
    then obtain pte x r s1 where "walk old a False s = Some (pte, x)"
      and m: "mappages new a PGSIZE (PTE2PA (load64 (mem s) pte)) (PTE_FLAGS (load64 (mem s) pte)) s = Some (r, s1)"
      and f: "f old new (a + PGSIZE) e s1 = Some s'"
      using 1(2) by (auto simp: monad_simps Let_def split: prod.splits)
    show ?thesis using mappages_frame [OF m] 1(1) [OF f] by simp
  qed (use 1(2) in simp)
qed

lemma clone_guest_frame: "clone_guest i old s = Some (new, s') \<Longrightarrow> kmem_state.more s' = kmem_state.more s"
  by (auto simp: clone_guest_def monad_simps split: if_splits dest!: proc_pagetable_frame copy_region_frame)

lemma apply_pmp_frame:
  assumes "apply_pmp_restrictions root a e s = Some s'"
  shows "kmem_state.more s' = kmem_state.more s"
proof (rule apply_pmp_restrictions.raw_induct [where P = "\<lambda>root a e s s'. kmem_state.more s' = kmem_state.more s", OF _ assms],
    goal_cases)
  case (1 f root a e s s')
  show ?case
  proof (cases "a < e")
    case True
    then obtain s1 where u: "unmap_page root a s = Some s1" and f: "f root (a + PGSIZE) e s1 = Some s'"
      using 1(2) by (auto simp: monad_simps)
    have "kmem_state.more s1 = kmem_state.more s" using u by (auto simp: unmap_page_def monad_simps Let_def split: if_splits)
    then show ?thesis using 1(1) [OF f] by simp
  qed (use 1(2) in simp)
qed

lemma pmp_loop_frame: "pmp_loop j n s = Some s' \<Longrightarrow> kmem_state.more s' = kmem_state.more s"
proof (induction n arbitrary: j s)
  case (Suc n)
  have "kmem_state.more s1 = kmem_state.more s"
    if "(if pmp_rwx j s \<noteq> 7 then apply_pmp_restrictions (new_ptable s) a b s else Some s) = Some s1" for a b s1
    using that by (auto split: if_splits dest: apply_pmp_frame)
  then show ?case using Suc by (fastforce simp: Let_def monad_simps simp del: if_None_eq_Some if_Some_eq_None split: if_split_asm)
qed simp

definition vm_killed :: "nat \<Rightarrow> vmm_state \<Rightarrow> bool" where
  "vm_killed i s \<longleftrightarrow> p_killed (procs s ! i) = 1 \<and> regs s = regs (trap_and_emulate_init s)"

lemma kill_vm_killed [simp]:
  "i < length (procs s) \<Longrightarrow> vm_killed i (kill_vm i s)" "current_mode (kill_vm i s) = 2" "vm_ok (kill_vm i s)"
  using vm_ok_init [of "setkilled i s"] by (simp_all add: vm_killed_def kill_vm_def setkilled_def) (simp add: trap_and_emulate_init_def)

lemma reg_index:
  assumes "vm_ok s"
  shows "get_vm_reg 0x100 s = Some 0" "get_vm_reg 0x105 s = Some 2" "get_vm_reg 0x141 s = Some 5"
    "get_vm_reg 0x300 s = Some 15" "get_vm_reg 0x305 s = Some 20" "get_vm_reg 0x341 s = Some 24"
  using get_vm_reg_code [OF assms, of 0] get_vm_reg_code [OF assms, of 2] get_vm_reg_code [OF assms, of 5]
    get_vm_reg_code [OF assms, of 15] get_vm_reg_code [OF assms, of 20] get_vm_reg_code [OF assms, of 24]
  by (simp_all add: reg_codes_def)


lemma vm_ok_procs [simp]: "vm_ok (set_tf i f v s) = vm_ok s" "vm_ok (upd_proc i g s) = vm_ok s"
  by (simp_all add: vm_ok_def)

lemma get_set_tf: "get_tf i f (set_tf i f v s) = v"
  by (simp add: get_tf_def set_tf_def load_store_64)

lemma get_tf_upd: "p_trapframe (f (procs s ! i)) = p_trapframe (procs s ! i) \<Longrightarrow> get_tf i g (upd_proc i f s) = get_tf i g s"
  by (cases "i < length (procs s)") (simp_all add: get_tf_def upd_proc_def list_update_beyond)

definition STVEC :: nat where "STVEC = 2"
definition MTVEC :: nat where "MTVEC = 20"

definition trap_vector :: "vmm_state \<Rightarrow> u64" where
  "trap_vector s = reg_val (if current_mode s = 0 then STVEC else MTVEC) s"

text \<open>What one instruction may do to the mode: stay or go down, kill the guest, or trap one level up to the vector.\<close>

definition mode_step :: "nat \<Rightarrow> vmm_state \<Rightarrow> vmm_state \<Rightarrow> bool" where
  "mode_step i s s' \<longleftrightarrow> vm_ok s' \<and> (current_mode s' \<le> current_mode s \<or> vm_killed i s' \<or>
     current_mode s' = current_mode s + 1 \<and> get_tf i tf_epc s' = trap_vector s)"

lemma reg_val_set_other: "k \<noteq> j \<Longrightarrow> k < length (regs s) \<Longrightarrow> reg_val k (set_reg j v s) = reg_val k s"
  by (auto simp: reg_val_def set_reg_def all_regs_def nth_append)

lemma ecall_mode:
  assumes ok: "vm_ok s" and i: "i < length (procs s)" and r: "handle_ecall i s = Some s'"
  shows "mode_step i s s'"
proof -
  have l: "length (regs s) = 35" by (rule vm_ok_length [OF ok])
  consider "current_mode s = 0" | "current_mode s = 1" | "current_mode s = 2" using ok by (auto simp: vm_ok_def)
  then show ?thesis
  proof cases
    case 1
    have s': "s' = set_tf i tf_epc (reg_val 2 ((set_reg 5 (get_tf i tf_epc s) s)\<lparr>current_mode := 1\<rparr>))
        ((set_reg 5 (get_tf i tf_epc s) s)\<lparr>current_mode := 1\<rparr>)"
      using r 1 reg_index [OF ok] by (simp add: handle_ecall_def Let_def)
    have v: "reg_val 2 ((set_reg 5 (get_tf i tf_epc s) s)\<lparr>current_mode := 1\<rparr>) = trap_vector s"
      using reg_val_set_other [of 2 5 s] l 1 by (simp add: reg_val_def all_regs_def trap_vector_def STVEC_def)
    have "vm_ok s'" using vm_ok_set_reg [OF ok] by (simp add: s' vm_ok_def)
    then show ?thesis using 1 by (simp add: mode_step_def s' v get_set_tf)
  next
    case 2
    define s1 where "s1 = (set_reg 24 (get_tf i tf_epc s) s)\<lparr>current_mode := 2\<rparr>"
    have s': "s' = set_pagetable i (old_ptable s) (set_tf i tf_epc (reg_val 20 s1) s1)"
      using r 2 reg_index [OF ok] by (simp add: handle_ecall_def s1_def Let_def)
    have v: "reg_val 20 s1 = trap_vector s"
      using reg_val_set_other [of 20 24 s] l 2 by (simp add: reg_val_def all_regs_def trap_vector_def MTVEC_def s1_def)
    have "vm_ok s1" using vm_ok_set_reg [OF ok] by (simp add: s1_def vm_ok_def)
    then show ?thesis using 2 by (simp add: mode_step_def s' v set_pagetable_def get_tf_upd get_set_tf) (simp add: s1_def)
  next
    case 3
    then show ?thesis using r i by (auto simp: handle_ecall_def mode_step_def)
  qed
qed

lemma sret_mode:
  assumes ok: "vm_ok s" and i: "i < length (procs s)" and r: "handle_sret i s = Some s'"
  shows "mode_step i s s'"
proof (cases "current_mode s = 1")
  case True
  define spp where "spp = drop_bit 8 (reg_val 0 s) AND 1"
  define s1 where "s1 = (if spp < 1 then s\<lparr>current_mode := uint spp\<rparr> else s)"
  obtain v e where s': "s' = set_tf i tf_epc e (set_reg 0 v s1)"
    using r unfolding handle_sret_def Let_def s1_def spp_def
    by (simp only: True refl if_True reg_index [OF ok] Option.bind.simps option.inject) blast
  have m: "current_mode s1 \<in> {0, 1}" "current_mode s1 \<le> 1" using True by (auto simp: s1_def)
  have "vm_ok s1" using ok m(1) by (auto simp: vm_ok_def s1_def)
  then show ?thesis using m True by (simp add: mode_step_def s' vm_ok_set_reg)
next
  case False
  then show ?thesis using r i by (auto simp: handle_sret_def mode_step_def set_pagetable_def)
qed

lemma csrw_mode:
  assumes ok: "vm_ok s" and i: "i < length (procs s)"
  shows "mode_step i s (handle_csrw i rs1 csr s)"
proof -
  define s1 where "s1 = (case get_vm_reg csr s of
                  Some k \<Rightarrow> if reg_mode (all_regs s ! k) \<le> current_mode s then set_reg k (get_tf i (tf_reg rs1) s) s else kill_vm i s
                | None \<Rightarrow> kill_vm i s)"
  have m: "mode_step i s s1" using ok i by (auto simp: s1_def mode_step_def vm_ok_set_reg split: option.split)
  have "vm_ok s1 \<and> (current_mode s1 \<le> current_mode s \<or> vm_killed i s1)"
    using ok i by (auto simp: s1_def vm_ok_set_reg split: option.split)
  then show ?thesis
    unfolding handle_csrw_def Let_def s1_def [symmetric]
    by (auto simp: mode_step_def vm_ok_def vm_killed_def trap_and_emulate_init_def)
qed

lemma csrr_mode:
  assumes ok: "vm_ok s" and i: "i < length (procs s)" and r: "handle_csrr i rd csr s = Some s'"
  shows "mode_step i s s'"
proof -
  obtain k where s': "s' = (let s1 = (if reg_mode (all_regs s ! k) \<le> current_mode s then set_tf i (tf_reg rd) (reg_val k s) s else kill_vm i s)
      in set_tf i tf_epc (get_tf i tf_epc s1 + 4) s1)"
    using r by (auto simp: handle_csrr_def monad_simps Let_def)
  have "vm_killed i (set_tf i f v (kill_vm i s))" for f v
    using kill_vm_killed(1) [OF i] by (simp add: vm_killed_def trap_and_emulate_init_def)
  then show ?thesis using ok unfolding s' Let_def by (auto simp: mode_step_def)
qed

lemma mret_mode:
  assumes ok: "vm_ok s" and i: "i < length (procs s)" and r: "handle_mret i s = Some s'"
  shows "mode_step i s s'"
proof -
  define first where "first = (if current_mode s \<ge> 2 then do {
              r \<leftarrow> get_vm_reg 0x300 s;
              e \<leftarrow> get_vm_reg 0x341 s;
              let mstatus = reg_val r s;
              let mpp = drop_bit 11 mstatus AND 3;
              let mpie = drop_bit 7 mstatus AND 1;
              let t = (if mpp < 2 then s\<lparr>current_mode := uint mpp\<rparr> else s);
              let t1 = set_reg r (mstatus OR push_bit 3 mpie OR push_bit 7 1) t;
              Some (set_tf i tf_epc (reg_val e t1) t1) }
            else Some (kill_vm i s))"
  obtain s1 where s1: "first = Some s1"
    and rest: "if pmp_configuration s1 = 1 then do {
       (new, s2) \<leftarrow> clone_guest i (p_pagetable (procs s1 ! i)) s1;
       s3 \<leftarrow> pmp_loop 0 4 (s2\<lparr>new_ptable := new\<rparr>);
       Some (set_pagetable i (new_ptable s3) s3) } = Some s' else s1 = s'"
    using r unfolding handle_mret_def first_def [symmetric] by (cases first) (auto split: if_splits)
  have m1: "vm_ok s1 \<and> (current_mode s1 \<le> current_mode s \<or> vm_killed i s1 \<and> pmp_configuration s1 = 0)"
  proof (cases "current_mode s \<ge> 2")
    case True
    define mpp where "mpp = drop_bit 11 (reg_val 15 s) AND 3"
    define t where "t = (if mpp < 2 then s\<lparr>current_mode := uint mpp\<rparr> else s)"
    obtain v e where s1': "s1 = set_tf i tf_epc e (set_reg 15 v t)"
      using s1 unfolding first_def Let_def t_def mpp_def
      by (simp only: True if_True reg_index [OF ok] Option.bind.simps option.inject) blast
    have "uint mpp \<in> {0, 1}" if "mpp < 2"
    proof -
      have "uint mpp < 2" using that by (simp add: word_less_def)
      moreover have "0 \<le> uint mpp" by simp
      ultimately have "uint mpp = 0 \<or> uint mpp = 1" by linarith
      then show ?thesis by simp
    qed
    then have "vm_ok t \<and> current_mode t \<le> current_mode s" using ok True by (auto simp: t_def vm_ok_def)
    then show ?thesis by (simp add: s1' vm_ok_set_reg)
  next
    case False
    then have "s1 = kill_vm i s" using s1 by (simp add: first_def)
    then show ?thesis using kill_vm_killed(1) [OF i] kill_vm_killed(3) [of i s] by (simp add: kill_vm_def)
  qed
  show ?thesis
  proof (cases "pmp_configuration s1 = 1")
    case False
    then show ?thesis using rest m1 by (auto simp: mode_step_def)
  next
    case True
    then obtain new s2 s3 where c: "clone_guest i (p_pagetable (procs s1 ! i)) s1 = Some (new, s2)"
      and p: "pmp_loop 0 4 (s2\<lparr>new_ptable := new\<rparr>) = Some s3" and s': "s' = set_pagetable i (new_ptable s3) s3"
      using rest by (auto simp: monad_simps)
    have "regs s3 = regs s1 \<and> current_mode s3 = current_mode s1"
      using more_vmm [OF clone_guest_frame [OF c]] more_vmm [OF pmp_loop_frame [OF p]] by simp
    then have "vm_ok s3 \<and> current_mode s3 \<le> current_mode s" using m1 True by (auto simp: vm_ok_def)
    then show ?thesis by (simp add: mode_step_def s' set_pagetable_def)
  qed
qed

lemma emulate_mode:
  assumes "vm_ok s" and "i < length (procs s)" and "emulate i w s = Some s'"
  shows "mode_step i s s'"
proof -
  have "mode_step i s s" using assms(1) by (simp add: mode_step_def)
  then show ?thesis
    using assms ecall_mode [OF assms(1,2)] sret_mode [OF assms(1,2)] mret_mode [OF assms(1,2)] csrw_mode [OF assms(1,2)]
      csrr_mode [OF assms(1,2)]
    unfolding emulate_def by (auto split: if_splits)
qed


section \<open>Properties\<close>

text \<open>A guest with the demo page table; \<open>demo_proc\<close> runs it.\<close>

definition demo_guest :: "int \<Rightarrow> vmm_state" where
  "demo_guest m = (trap_and_emulate_init \<lparr>mem = mem demo_vm, freelist = 0, kend = 0x80000000, cow_groups = [], my_group = 0,
     procs = [demo_proc], cpus = [\<lparr>c_proc = Some 0, c_noff = 0, c_intena = True\<rparr>], hart = 0, initproc = None,
     nextpid = 2, trampoline = 0, forkret = 0, regs = [], old_ptable = 0, new_ptable = 0, current_mode = 0,
     pmp_configuration = 0\<rparr>)\<lparr>old_ptable := demo_root, new_ptable := demo_root, current_mode := m\<rparr>"

lemma demo_guest_simps [simp]:
  "mem (demo_guest m) = mem demo_vm" "procs (demo_guest m) = [demo_proc]" "current_mode (demo_guest m) = m"
  "old_ptable (demo_guest m) = demo_root" "new_ptable (demo_guest m) = demo_root" "length (regs (demo_guest m)) = 35"
  "regs (demo_guest m) = map (\<lambda>(c, m, v). \<lparr>code = c, reg_mode = m, val = v\<rparr>) reg_codes"
  by (simp_all add: demo_guest_def trap_and_emulate_init_def reg_codes_def)

lemma demo_guest_ok: "m \<in> {0, 1, 2} \<Longrightarrow> vm_ok (demo_guest m)"
  using vm_ok_init by (auto simp: vm_ok_def trap_and_emulate_init_def)

text \<open>One trapped instruction, from the reading of the instruction on.\<close>

lemma trap_mode:
  assumes "vm_ok s" and "myproc s = Some i" and "i < length (procs s)" and "trap_and_emulate sepc s = Some s'"
  shows "mode_step i s s'"
proof -
  obtain s1 w where s1: "(if old_ptable s = 0 \<and> p_pagetable (procs s ! i) \<noteq> 0 then do {
              (pt, t) \<leftarrow> clone_guest i (p_pagetable (procs s ! i)) s;
              Some (t\<lparr>old_ptable := pt\<rparr>) } else Some s) = Some s1" and e: "emulate i w s1 = Some s'"
    using assms(2,4) unfolding trap_and_emulate_def by (auto simp: bind_eq_Some_conv Let_def)
  have f: "regs s1 = regs s \<and> current_mode s1 = current_mode s \<and> procs s1 = procs s"
  proof (cases "old_ptable s = 0 \<and> p_pagetable (procs s ! i) \<noteq> 0")
    case True
    then obtain pt t where "clone_guest i (p_pagetable (procs s ! i)) s = Some (pt, t)" "s1 = t\<lparr>old_ptable := pt\<rparr>"
      using s1 by (auto simp: bind_eq_Some_conv)
    then show ?thesis using more_vmm [OF clone_guest_frame, of i _ s pt t] by simp
  next
    case False
    then show ?thesis using s1 by auto
  qed
  have ok1: "vm_ok s1" using assms(1) f by (simp add: vm_ok_def)
  have v: "trap_vector s1 = trap_vector s"
    using f vm_ok_length [OF assms(1)] by (simp add: trap_vector_def reg_val_def all_regs_def nth_append STVEC_def MTVEC_def)
  have m: "mode_step i s1 s'" by (rule emulate_mode [OF ok1 _ e]) (use f assms(3) in simp)
  show ?thesis using m f v by (simp add: mode_step_def)
qed

text \<open>
  C38: no privilege escalation: whatever instruction traps, the guest's mode afterwards is one of the three and
  not higher than before, unless the guest was killed with all its registers reset, or it trapped one level
  up, and then it goes on at the trap vector that the higher level has set.
\<close>

theorem guest_no_escalation:
  assumes "vm_ok s" and "myproc s = Some i" and "i < length (procs s)" and "trap_and_emulate sepc s = Some s'"
  shows "vm_ok s' \<and> (current_mode s' \<le> current_mode s \<or>
    p_killed (procs s' ! i) = 1 \<and> regs s' = regs (trap_and_emulate_init s) \<or>
    current_mode s' = current_mode s + 1 \<and> get_tf i tf_epc s' = trap_vector s)"
  using trap_mode [OF assms] by (auto simp: mode_step_def vm_killed_def trap_and_emulate_init_def)

text \<open>The word at address 8 of the guest is 0: it is taken for an \<open>ecall\<close>.\<close>

lemma demo_guest_trap: "trap_and_emulate 8 (demo_guest 0) = handle_ecall 0 (demo_guest 0)"
proof -
  have "walkaddr demo_root 8 (demo_guest 0) = demo_user"
    using walkaddr_mem [of "demo_guest 0" demo_vm demo_root 8] by (simp add: demo_walkaddr MAXVA_def PGROUNDDOWN_def)
  moreover have "load64 (mem demo_vm) 0x80004008 = 0"
    using demo_load [of demo_user 1] demo_aligned by (simp add: pte_slot_def)
  ultimately show ?thesis
    by (simp add: trap_and_emulate_def myproc_def demo_guest_def trap_and_emulate_init_def demo_proc_def emulate_def i_funct3_def i_uimm_def)
qed

theorem guest_no_escalation_witness:
  "\<exists>s'. trap_and_emulate 8 (demo_guest 0) = Some s' \<and> current_mode s' = 1 \<and> get_tf 0 tf_epc s' = 0"
proof -
  obtain s' where s': "handle_ecall 0 (demo_guest 0) = Some s'" "current_mode s' = 1" "p_killed (procs s' ! 0) = 0"
    using reg_index [OF demo_guest_ok, of 0] by (simp add: handle_ecall_def Let_def demo_proc_def)
  have m: "myproc (demo_guest 0) = Some 0" by (simp add: myproc_def demo_guest_def trap_and_emulate_init_def)
  have "trap_vector (demo_guest 0) = 0" by (simp add: trap_vector_def reg_val_def all_regs_def nth_append reg_codes_def STVEC_def)
  then have "get_tf 0 tf_epc s' = 0"
    using guest_no_escalation [OF demo_guest_ok m _ demo_guest_trap [THEN trans, OF s'(1)]] s'(2,3) by simp
  then show ?thesis using s' demo_guest_trap by auto
qed

text \<open>The registers whose write turns the emulated PMP on: pmpcfg0 and pmpaddr0 to 3.\<close>

definition pmp_csr :: "u32 \<Rightarrow> bool" where
  "pmp_csr csr \<longleftrightarrow> csr \<in> {0x3a0, 0x3b0, 0x3b1, 0x3b2, 0x3b3}"

lemma handle_csrw_cases:
  "regs (handle_csrw i rs1 csr s) = regs (case get_vm_reg csr s of
      Some k \<Rightarrow> if reg_mode (all_regs s ! k) \<le> current_mode s then set_reg k (get_tf i (tf_reg rs1) s) s else kill_vm i s
    | None \<Rightarrow> kill_vm i s)"
  "procs (handle_csrw i rs1 csr s) = procs (case get_vm_reg csr s of
      Some k \<Rightarrow> if reg_mode (all_regs s ! k) \<le> current_mode s then set_reg k (get_tf i (tf_reg rs1) s) s else kill_vm i s
    | None \<Rightarrow> kill_vm i s)"
  "current_mode (handle_csrw i rs1 csr s) = current_mode (case get_vm_reg csr s of
      Some k \<Rightarrow> if reg_mode (all_regs s ! k) \<le> current_mode s then set_reg k (get_tf i (tf_reg rs1) s) s else kill_vm i s
    | None \<Rightarrow> kill_vm i s)"
  "pmp_configuration (handle_csrw i rs1 csr s) = (if pmp_csr csr then 1 else pmp_configuration (case get_vm_reg csr s of
      Some k \<Rightarrow> if reg_mode (all_regs s ! k) \<le> current_mode s then set_reg k (get_tf i (tf_reg rs1) s) s else kill_vm i s
    | None \<Rightarrow> kill_vm i s))"
  by (simp_all add: handle_csrw_def Let_def pmp_csr_def)

text \<open>
  C39: a write of a control register takes effect exactly when the register exists and the guest's mode
  reaches the register's: then that register alone of the registers changes, and the emulated PMP is turned on when it
  is a register of the PMP; otherwise the guest is killed and every register is reset. The register \<open>mvendorid\<close>
  is treated like any other, also when 0 is written, where the assignment asks for the end of the guest; and a
  rejected write of a PMP register leaves the PMP on behind the reset.
\<close>

theorem csr_write_guarded:
  assumes "vm_ok s" and "i < length (procs s)" and "ucast (old_ptable s) \<noteq> csr"
  shows "case get_vm_reg csr s of
      None \<Rightarrow> vm_killed i (handle_csrw i rs1 csr s) \<and>
        pmp_configuration (handle_csrw i rs1 csr s) = (if pmp_csr csr then 1 else 0)
    | Some k \<Rightarrow> k < 35 \<and> fst (reg_codes ! k) = csr \<and>
        (if fst (snd (reg_codes ! k)) \<le> current_mode s
         then regs (handle_csrw i rs1 csr s) = (regs s)[k := (regs s ! k)\<lparr>val := get_tf i (tf_reg rs1) s\<rparr>] \<and>
              current_mode (handle_csrw i rs1 csr s) = current_mode s \<and> procs (handle_csrw i rs1 csr s) = procs s \<and>
              pmp_configuration (handle_csrw i rs1 csr s) = (if pmp_csr csr then 1 else pmp_configuration s)
         else vm_killed i (handle_csrw i rs1 csr s) \<and>
              pmp_configuration (handle_csrw i rs1 csr s) = (if pmp_csr csr then 1 else 0))"
proof -
  have kill: "vm_killed i (handle_csrw i rs1 csr s) \<and> pmp_configuration (handle_csrw i rs1 csr s) = (if pmp_csr csr then 1 else 0)"
    if "case get_vm_reg csr s of None \<Rightarrow> True | Some k \<Rightarrow> \<not> reg_mode (all_regs s ! k) \<le> current_mode s"
    using that kill_vm_killed(1) [OF assms(2)]
    by (auto simp: vm_killed_def handle_csrw_cases kill_vm_def trap_and_emulate_init_def split: option.splits)
  show ?thesis
  proof (cases "get_vm_reg csr s")
    case None
    then show ?thesis using kill by simp
  next
    case (Some k)
    note k = get_vm_reg_SomeD [OF assms(1) Some assms(3)]
    have m: "reg_mode (all_regs s ! k) = fst (snd (reg_codes ! k))"
      using vm_ok_code(2) [OF assms(1) k(1)] vm_ok_length [OF assms(1)] k(1) by (simp add: all_regs_def nth_append)
    show ?thesis
      using kill k vm_ok_length [OF assms(1)] by (auto simp: Some m handle_csrw_cases set_reg_def)
  qed
qed

text \<open>A guest in supervisor mode writes \<open>stvec\<close>.\<close>

theorem csr_write_guarded_witness:
  "regs (handle_csrw 0 1 0x105 (demo_guest 1)) = (regs (demo_guest 1))[2 := (regs (demo_guest 1) ! 2)\<lparr>val := get_tf 0 (tf_reg 1) (demo_guest 1)\<rparr>]"
proof -
  have g: "get_vm_reg 0x105 (demo_guest 1) = Some 2" using reg_index [OF demo_guest_ok] by simp
  have "fst (snd (reg_codes ! 2)) = 1" by (simp add: reg_codes_def)
  then show ?thesis
    using csr_write_guarded [OF demo_guest_ok, of 1 0 "0x105" 1] unfolding g by simp
qed


text \<open>Fields of the trapframe that do not overlap.\<close>

lemma get_set_tf_other:
  assumes "unat a + 8 \<le> unat b" and "unat b + 8 < 2 ^ 64"
  shows "get_tf i b (set_tf i a v s) = get_tf i b s" and "get_tf i a (set_tf i b v s) = get_tf i a s"
proof -
  have d: "\<not> (in_region (p + a) 8 c \<and> in_region (p + b) 8 c)" for p c
  proof
    assume r: "in_region (p + a) 8 c \<and> in_region (p + b) 8 c"
    have e: "c - (p + a) = (c - (p + b)) + (b - a)" by simp
    have u: "unat (b - a) = unat b - unat a" using assms(1) by (simp add: unat_sub word_le_nat_alt)
    have "unat (c - (p + b)) < 8" using r by (simp add: in_region_def)
    then have "unat (c - (p + b)) + unat (b - a) < 2 ^ 64" unfolding u using assms(2) by linarith
    then have "unat (c - (p + a)) = unat (c - (p + b)) + unat (b - a)" unfolding e by (intro unat_add_lem [THEN iffD1]) simp
    moreover have "unat (c - (p + a)) < 8" using r by (simp add: in_region_def)
    ultimately show False using assms(1) u by linarith
  qed
  show "get_tf i b (set_tf i a v s) = get_tf i b s"
    using d by (simp add: get_tf_def set_tf_def) (intro load_store_64_other, blast)
  show "get_tf i a (set_tf i b v s) = get_tf i a s"
    using d by (simp add: get_tf_def set_tf_def) (intro load_store_64_other, blast)
qed

text \<open>
  A control register keeps what the guest wrote: a read of the register after a write gives, in the
  destination register, the value of the source register, for every register that the mode may access.
\<close>

theorem csr_write_read:
  assumes "vm_ok s" and "i < length (procs s)" and "ucast (old_ptable s) \<noteq> csr" and "get_vm_reg csr s = Some k"
    and "fst (snd (reg_codes ! k)) \<le> current_mode s" and "rd < 32"
  shows "\<exists>s'. handle_csrr i rd csr (handle_csrw i rs1 csr s) = Some s' \<and> get_tf i (tf_reg rd) s' = get_tf i (tf_reg rs1) s"
proof -
  let ?v = "get_tf i (tf_reg rs1) s" and ?w = "handle_csrw i rs1 csr s"
  note k = get_vm_reg_SomeD [OF assms(1,4,3)] and l = vm_ok_length [OF assms(1)]
  have m: "reg_mode (all_regs s ! k) = fst (snd (reg_codes ! k))"
    using vm_ok_code(2) [OF assms(1) k(1)] l k(1) by (simp add: all_regs_def nth_append)
  have w: "regs ?w = (regs s)[k := (regs s ! k)\<lparr>val := ?v\<rparr>]" "current_mode ?w = current_mode s" "old_ptable ?w = old_ptable s"
    using assms(4,5) m k(1) l by (simp_all add: handle_csrw_def Let_def set_reg_def)
  have ok: "vm_ok ?w" using assms(1) w(1,2) by (simp add: vm_ok_def map_update_same del: map_update)
  have g: "get_vm_reg csr ?w = Some k" using get_vm_reg_code [OF ok k(1)] k(2) by simp
  have m': "reg_mode (all_regs ?w ! k) \<le> current_mode ?w" and v: "reg_val k ?w = ?v"
    using m w assms(5) k(1) l by (simp_all add: all_regs_def reg_val_def nth_append)
  let ?t = "set_tf i (tf_reg rd) ?v ?w"
  have "unat (tf_reg rd) = 32 + 8 * unat rd"
  proof -
    have r: "unat rd < 32" using assms(6) by (simp add: word_less_nat_alt)
    then have "unat (ucast rd :: u64) = unat rd" by (simp add: unsigned_ucast_eq take_bit_nat_eq_self)
    then show ?thesis using r unfolding tf_reg_def by (simp add: unat_word_ariths)
  qed
  moreover have "unat rd < 32" using assms(6) by (simp add: word_less_nat_alt)
  ultimately have "get_tf i (tf_reg rd) (set_tf i tf_epc e ?t) = get_tf i (tf_reg rd) ?t" for e
    by (intro get_set_tf_other(1)) (simp_all add: tf_epc_def)
  then show ?thesis using g m' v by (simp add: handle_csrr_def Let_def get_set_tf)
qed

theorem csr_write_read_witness:
  "\<exists>s'. handle_csrr 0 11 0x341 (handle_csrw 0 10 0x341 (demo_guest 2)) = Some s' \<and>
     get_tf 0 (tf_reg 11) s' = get_tf 0 (tf_reg 10) (demo_guest 2)"
  by (rule csr_write_read [OF demo_guest_ok, where k = 24])
    (use reg_index [OF demo_guest_ok, of 2] in \<open>simp_all add: reg_codes_def\<close>)

text \<open>
  C40: PMP isolation: once the entries have been applied, the guest's new table translates no address of a
  page in the range of an entry in force whose permissions are not all three of read, write and execute, and
  every other address as before. The range of an entry starts where the one before ends.
\<close>

theorem pmp_regions_unmapped:
  assumes "pmp_loop 0 4 s = Some s'" and "pt_inv s (new_ptable s) ps"
  shows "walkaddr (new_ptable s) va s' =
    (if \<exists>j < 4. (\<forall>l \<le> j. reg_val (PMPADDR + l) s \<noteq> 0) \<and> pmp_rwx j s \<noteq> 7 \<and>
          (if j > 0 then pmp_end (j - 1) s else GUEST_START) \<le> PGROUNDDOWN va \<and> PGROUNDDOWN va < pmp_end j s
     then 0 else walkaddr (new_ptable s) va s)"
proof -
  have d: "pmp_denies 0 4 (PGROUNDDOWN va) s \<longleftrightarrow> (\<exists>j < 4. (\<forall>l \<le> j. reg_val (PMPADDR + l) s \<noteq> 0) \<and> pmp_rwx j s \<noteq> 7 \<and>
          (if j > 0 then pmp_end (j - 1) s else GUEST_START) \<le> PGROUNDDOWN va \<and> PGROUNDDOWN va < pmp_end j s)"
    unfolding pmp_denies_def pmp_active_def pmp_start_def by simp
  note l = pmp_loop_leaf [OF assms(1,2) refl]
  show ?thesis
    unfolding d [symmetric] using l walkaddr_leaf [OF assms(2), of va] walkaddr_leaf [of s' "new_ptable s" ps va] by auto
qed

text \<open>Two entries: an empty range, then the page at 0 without permissions.\<close>

definition pmp_guest :: vmm_state where
  "pmp_guest = set_reg (PMPADDR + 1) 1024 (set_reg PMPADDR 0x4000000000000000 (set_reg PMPCFG 7 (demo_guest 2)))"

lemma pt_inv_same: "mem s' = mem s \<Longrightarrow> freelist s' = freelist s \<Longrightarrow> kend s' = kend s \<Longrightarrow> pt_inv s root ps \<Longrightarrow> pt_inv s' root ps"
  by (simp add: pt_inv_def kmem_inv_def ram_page_def)

lemma pmp_guest_run: "\<exists>s'. pmp_loop 0 4 pmp_guest = Some s'"
proof -
  have m: "mem pmp_guest = mem demo_vm" "new_ptable pmp_guest = demo_root" by (simp_all add: pmp_guest_def set_reg_def PMPADDR_def PMPCFG_def reg_codes_def)
  have v: "reg_val 30 pmp_guest = 7" "reg_val 31 pmp_guest = 0x4000000000000000" "reg_val 32 pmp_guest = 1024" "reg_val 33 pmp_guest = 0"
    by (simp_all add: pmp_guest_def set_reg_def PMPADDR_def PMPCFG_def reg_val_def all_regs_def nth_append reg_codes_def)
  have r: "reach (mem pmp_guest) demo_root (ix 0 0) = Some demo_low" using demo_reach [of "ix 0 0"] m indices_ix [of 0 0]
    by (simp add: ix_def PX_def)
  have l: "load64 (mem pmp_guest) (pte_slot demo_low 0) = demo_entry" using demo_load [of demo_low 0] demo_aligned m by simp
  have u: "unmap_page demo_root 0 pmp_guest = Some (pmp_guest\<lparr>mem := store64 (mem pmp_guest) (pte_slot demo_low 0) 0\<rparr>)"
    using demo_entries r l walk_lookup [of 0 demo_root pmp_guest] pte_slot_nonzero [of demo_low 0] demo_aligned
    by (simp add: unmap_page_def MAXVA_def PX_def) (simp add: demo_entry_def PTE_FLAGS_def PA2PTE_def)
  have a: "apply_pmp_restrictions demo_root 0 4096 pmp_guest = Some (pmp_guest\<lparr>mem := store64 (mem pmp_guest) (pte_slot demo_low 0) 0\<rparr>)"
    by (simp add: apply_pmp_restrictions.simps u)
  have more: "reg_val k (pmp_guest\<lparr>mem := x\<rparr>) = reg_val k pmp_guest" for k x by (simp add: reg_val_def all_regs_def)
  have p: "pmp_rwx 0 pmp_guest = 7" "pmp_rwx 1 pmp_guest = 0" "pmp_end 0 pmp_guest = 0" "pmp_end 1 pmp_guest = 4096"
    using v by (simp_all add: pmp_rwx_def pmp_end_def PMPADDR_def PMPCFG_def)
  let ?t = "pmp_guest\<lparr>mem := store64 (mem pmp_guest) (pte_slot demo_low 0) 0\<rparr>"
  have "pmp_loop 2 (Suc 1) ?t = Some ?t" using v more unfolding pmp_loop.simps(2) by (simp add: PMPADDR_def)
  then have t2: "pmp_loop (Suc 1) 2 ?t = Some ?t" by (simp only: Suc_1)
  have "pmp_loop 1 (Suc 2) pmp_guest = Some ?t"
    using v p a m t2 unfolding pmp_loop.simps(2) by (simp add: PMPADDR_def)
  then have "pmp_loop 1 3 pmp_guest = Some ?t" by simp
  then have "pmp_loop 0 4 pmp_guest = Some ?t"
    using pmp_loop.simps(2) [of 0 3 pmp_guest] v p by (simp add: PMPADDR_def)
  then show ?thesis by blast
qed

theorem pmp_regions_unmapped_witness:
  "walkaddr demo_root 8 pmp_guest = demo_user \<and> (\<exists>s'. pmp_loop 0 4 pmp_guest = Some s' \<and> walkaddr demo_root 8 s' = 0)"
proof -
  have m: "mem pmp_guest = mem demo_vm" "new_ptable pmp_guest = demo_root" "freelist pmp_guest = freelist demo_vm" "kend pmp_guest = kend demo_vm"
    by (simp_all add: pmp_guest_def set_reg_def PMPADDR_def PMPCFG_def demo_vm_def reg_codes_def)
      (simp_all add: demo_guest_def trap_and_emulate_init_def)
  have v: "reg_val 30 pmp_guest = 7" "reg_val 31 pmp_guest = 0x4000000000000000" "reg_val 32 pmp_guest = 1024"
    by (simp_all add: pmp_guest_def set_reg_def PMPADDR_def PMPCFG_def reg_val_def all_regs_def nth_append reg_codes_def)
  obtain s' where s': "pmp_loop 0 4 pmp_guest = Some s'" using pmp_guest_run by blast
  have inv: "pt_inv pmp_guest (new_ptable pmp_guest) []" using pt_inv_same [OF m(1,3,4) demo_pt_inv] m(2) by simp
  have "\<exists>j < 4. (\<forall>l \<le> j. reg_val (PMPADDR + l) pmp_guest \<noteq> 0) \<and> pmp_rwx j pmp_guest \<noteq> 7 \<and>
          (if j > 0 then pmp_end (j - 1) pmp_guest else GUEST_START) \<le> PGROUNDDOWN 8 \<and> PGROUNDDOWN 8 < pmp_end j pmp_guest"
    by (rule exI [of _ 1]) (simp add: v PMPADDR_def PMPCFG_def pmp_rwx_def pmp_end_def PGROUNDDOWN_def le_Suc_eq)
  then have "walkaddr demo_root 8 s' = 0" using pmp_regions_unmapped [OF s' inv, of 8] m(2) by simp
  moreover have "walkaddr demo_root 8 pmp_guest = demo_user"
    using walkaddr_mem [OF m(1), of demo_root 8] by (simp add: demo_walkaddr MAXVA_def PGROUNDDOWN_def)
  ultimately show ?thesis using s' by blast
qed

end
