(* ===== verification/Vmm_Trap.thy ===== *)
theory Vmm_Trap
  imports Vmm
begin

unbundle bit_operations_syntax

text \<open>
  The way into the monitor of assignment 4: \<open>usertrap\<close> of its kernel/trap.c, which sends the privileged instructions and the
  calls of a guest to \<open>trap_and_emulate\<close> and ends a guest on any other exception. What \<open>devintr\<close> returns is the
  argument \<open>which_dev\<close>; where the code leaves \<open>usertrap\<close> is the result.
\<close>

datatype vm_outcome =
    User vmm_state
  | Preempted vmm_state
  | Exits vmm_state
  | System_call vmm_state

text \<open>The name of the process starts with \<open>vm-\<close>.\<close>

definition is_vm :: "nat \<Rightarrow> vmm_state \<Rightarrow> bool" where
  "is_vm i s \<longleftrightarrow> take 3 (p_name (procs s ! i)) = [118, 109, 45]"

text \<open>
  The end of \<open>usertrap\<close>: a killed process exits, a timer interrupt gives up the CPU. When the process has it
  again, all that is left is \<open>usertrapret\<close>.
\<close>

definition vm_return :: "nat \<Rightarrow> int \<Rightarrow> vmm_state \<Rightarrow> vm_outcome" where
  "vm_return i which_dev s = (if killed i s \<noteq> 0 then Exits s else if which_dev = 2 then Preempted s else User s)"

definition vm_usertrap :: "u64 \<Rightarrow> u64 \<Rightarrow> u64 \<Rightarrow> int \<Rightarrow> vmm_state \<Rightarrow> vm_outcome option" where
  "vm_usertrap sstatus scause sepc which_dev s = do {
     _ \<leftarrow> (if sstatus AND 0x100 \<noteq> 0 then None else Some ()); \<comment> \<open>panic usertrap: not from user mode\<close>
     i \<leftarrow> myproc s;
     let s1 = set_tf i tf_epc sepc s;
     if is_vm i s1 \<and> (scause = 2 \<or> scause = 1) then map_option (vm_return i 0) (trap_and_emulate sepc s1)
     else if scause = 8 then
       if killed i s1 \<noteq> 0 then Some (Exits s1)
       else if is_vm i s1 then map_option (vm_return i 0) (trap_and_emulate sepc s1)
       else Some (System_call (set_tf i tf_epc (get_tf i tf_epc s1 + 4) s1))
     else if which_dev \<noteq> 0 then Some (vm_return i which_dev s1)
     else if is_vm i s1 then Some (vm_return i 0 (trap_and_emulate_init (setkilled i (switch_page_table i s1))))
     else Some (vm_return i 0 (setkilled i s1)) }"

definition outcome_state :: "vm_outcome \<Rightarrow> vmm_state" where
  "outcome_state out = (case out of User s \<Rightarrow> s | Preempted s \<Rightarrow> s | Exits s \<Rightarrow> s | System_call s \<Rightarrow> s)"

lemma outcome_simps [simp]:
  "outcome_state (User s) = s" "outcome_state (Preempted s) = s" "outcome_state (Exits s) = s" "outcome_state (System_call s) = s"
  by (simp_all add: outcome_state_def)

lemma outcome_vm_return [simp]: "outcome_state (vm_return i d s) = s" "vm_return i d s \<noteq> System_call t"
  by (simp_all add: vm_return_def)

lemma mode_step_same:
  "vm_ok s' \<Longrightarrow> current_mode s' \<le> current_mode s \<Longrightarrow> mode_step i s s'"
  by (simp add: mode_step_def)

text \<open>
  A guest cannot call the kernel: whatever traps, a guest goes back to itself after a step that the monitor allows, is
  preempted unchanged by an interrupt, or ends.
\<close>

theorem guest_contained:
  assumes "vm_ok s" and "myproc s = Some i" and "i < length (procs s)" and "is_vm i s" and "vm_usertrap sstatus scause sepc d s = Some out"
  shows "out \<noteq> System_call t \<and> (mode_step i s (outcome_state out) \<or> vm_killed i (outcome_state out) \<and> out = Exits (outcome_state out))"
proof -
  let ?s = "set_tf i tf_epc sepc s"
  have ok: "vm_ok ?s" using assms(1) by (simp add: vm_ok_def)
  have vm: "is_vm i ?s" using assms(4) by (simp add: is_vm_def)
  have v: "mode_step i s s'" if "mode_step i ?s s'" for s'
    using that by (simp add: mode_step_def trap_vector_def reg_val_def all_regs_def)
  have m: "myproc ?s = Some i" using assms(2) by (simp add: myproc_def set_tf_def)
  have emul: "mode_step i s s'" if "trap_and_emulate sepc ?s = Some s'" for s'
    using trap_mode [OF ok m _ that] assms(3) v by simp
  have same: "mode_step i s ?s" by (rule mode_step_same) (use ok in simp_all)
  let ?k = "trap_and_emulate_init (setkilled i (switch_page_table i ?s))"
  have k: "vm_killed i ?k" "killed i ?k \<noteq> 0"
    using assms(3) by (simp_all add: vm_killed_def killed_def setkilled_def switch_page_table_def set_pagetable_def trap_and_emulate_init_def)
  then have ke: "vm_return i 0 ?k = Exits ?k" by (simp add: vm_return_def)
  show ?thesis
    using assms(2,5) vm emul same k ke
    by (auto simp: vm_usertrap_def Let_def split: if_splits)
qed

text \<open>
  A guest that faults before its first privileged instruction has no saved page table, and the process is left without one: when
  it is freed, the kernel walks a null page table.
\<close>

theorem early_fault_loses_table:
  assumes "myproc s = Some i" and "i < length (procs s)" and "is_vm i s" and "old_ptable s = 0"
  shows "\<exists>s'. vm_usertrap 0 13 sepc 0 s = Some (Exits s') \<and> p_pagetable (procs s' ! i) = 0"
proof -
  let ?s = "set_tf i tf_epc sepc s"
  let ?k = "trap_and_emulate_init (setkilled i (switch_page_table i ?s))"
  have vm: "is_vm i ?s" using assms(3) by (simp add: is_vm_def)
  have "killed i ?k \<noteq> 0" "p_pagetable (procs ?k ! i) = 0"
    using assms(2,4) by (simp_all add: killed_def setkilled_def switch_page_table_def set_pagetable_def trap_and_emulate_init_def)
  then show ?thesis using assms(1) vm by (simp add: vm_usertrap_def Let_def vm_return_def)
qed

end
