(* ===== verification/Sha256.thy ===== *)
theory Sha256
  imports Xv6_Prelude
begin

text \<open>
  The hash of the secure boot loader of assignment 1, bootloader/sha256.c: the compression of a
  block, the incremental interface, and the padding; and FIPS 180-4 as the reference. The code is proved to
  compute the reference digest of the message, however the message is cut into calls of \<open>sha256_update\<close>.
\<close>

section \<open>The code\<close>

definition ROTRIGHT :: "u32 \<Rightarrow> nat \<Rightarrow> u32" where
  "ROTRIGHT a b = drop_bit b a OR push_bit (32 - b) a"

definition CH :: "u32 \<Rightarrow> u32 \<Rightarrow> u32 \<Rightarrow> u32" where "CH x y z = (x AND y) XOR (NOT x AND z)"
definition MAJ :: "u32 \<Rightarrow> u32 \<Rightarrow> u32 \<Rightarrow> u32" where "MAJ x y z = (x AND y) XOR (x AND z) XOR (y AND z)"
definition EP0 :: "u32 \<Rightarrow> u32" where "EP0 x = ROTRIGHT x 2 XOR ROTRIGHT x 13 XOR ROTRIGHT x 22"
definition EP1 :: "u32 \<Rightarrow> u32" where "EP1 x = ROTRIGHT x 6 XOR ROTRIGHT x 11 XOR ROTRIGHT x 25"
definition SIG0 :: "u32 \<Rightarrow> u32" where "SIG0 x = ROTRIGHT x 7 XOR ROTRIGHT x 18 XOR drop_bit 3 x"
definition SIG1 :: "u32 \<Rightarrow> u32" where "SIG1 x = ROTRIGHT x 17 XOR ROTRIGHT x 19 XOR drop_bit 10 x"

definition sha_k :: "u32 list" where
  "sha_k = concat [
     [0x428a2f98, 0x71374491, 0xb5c0fbcf, 0xe9b5dba5, 0x3956c25b, 0x59f111f1, 0x923f82a4, 0xab1c5ed5],
     [0xd807aa98, 0x12835b01, 0x243185be, 0x550c7dc3, 0x72be5d74, 0x80deb1fe, 0x9bdc06a7, 0xc19bf174],
     [0xe49b69c1, 0xefbe4786, 0x0fc19dc6, 0x240ca1cc, 0x2de92c6f, 0x4a7484aa, 0x5cb0a9dc, 0x76f988da],
     [0x983e5152, 0xa831c66d, 0xb00327c8, 0xbf597fc7, 0xc6e00bf3, 0xd5a79147, 0x06ca6351, 0x14292967],
     [0x27b70a85, 0x2e1b2138, 0x4d2c6dfc, 0x53380d13, 0x650a7354, 0x766a0abb, 0x81c2c92e, 0x92722c85],
     [0xa2bfe8a1, 0xa81a664b, 0xc24b8b70, 0xc76c51a3, 0xd192e819, 0xd6990624, 0xf40e3585, 0x106aa070],
     [0x19a4c116, 0x1e376c08, 0x2748774c, 0x34b0bcb5, 0x391c0cb3, 0x4ed8aa4a, 0x5b9cca4f, 0x682e6ff3],
     [0x748f82ee, 0x78a5636f, 0x84c87814, 0x8cc70208, 0x90befffa, 0xa4506ceb, 0xbef9a3f7, 0xc67178f2]]"

record sha_ctx =
  sdata :: "u8 list"
  datalen :: u32
  bitlen :: u64
  sstate :: "u32 list"

text \<open>The message schedule \<open>m\<close>: sixteen words of the block, then the other 48 one by one.\<close>

definition sha_schedule :: "u8 list \<Rightarrow> u32 list" where
  "sha_schedule d =
     fold (\<lambda>i m. m @ [SIG1 (m ! (i - 2)) + m ! (i - 7) + SIG0 (m ! (i - 15)) + m ! (i - 16)]) [16..<64]
       (map (\<lambda>i. push_bit 24 (ucast (d ! (4 * i))) OR push_bit 16 (ucast (d ! (4 * i + 1))) OR
                 push_bit 8 (ucast (d ! (4 * i + 2))) OR ucast (d ! (4 * i + 3))) [0..<16])"

type_synonym sha_vars = "u32 \<times> u32 \<times> u32 \<times> u32 \<times> u32 \<times> u32 \<times> u32 \<times> u32"

definition sha_round :: "u32 list \<Rightarrow> nat \<Rightarrow> sha_vars \<Rightarrow> sha_vars" where
  "sha_round m i = (\<lambda>(a, b, c, d, e, f, g, h).
     let t1 = h + EP1 e + CH e f g + sha_k ! i + m ! i;
         t2 = EP0 a + MAJ a b c
     in (t1 + t2, a, b, c, d + t1, e, f, g))"

definition sha256_transform :: "sha_ctx \<Rightarrow> u8 list \<Rightarrow> sha_ctx" where
  "sha256_transform ctx d =
     (let s = sstate ctx; m = sha_schedule d in
      case fold (sha_round m) [0..<64] (s ! 0, s ! 1, s ! 2, s ! 3, s ! 4, s ! 5, s ! 6, s ! 7) of
        (a, b, c, d, e, f, g, h) \<Rightarrow>
          ctx\<lparr>sstate := [s ! 0 + a, s ! 1 + b, s ! 2 + c, s ! 3 + d, s ! 4 + e, s ! 5 + f, s ! 6 + g, s ! 7 + h]\<rparr>)"

definition sha256_init :: "sha_ctx \<Rightarrow> sha_ctx" where
  "sha256_init ctx = ctx\<lparr>datalen := 0, bitlen := 0,
     sstate := [0x6a09e667, 0xbb67ae85, 0x3c6ef372, 0xa54ff53a, 0x510e527f, 0x9b05688c, 0x1f83d9ab, 0x5be0cd19]\<rparr>"

definition sha_byte :: "u8 \<Rightarrow> sha_ctx \<Rightarrow> sha_ctx" where
  "sha_byte b ctx =
     (let c = ctx\<lparr>sdata := (sdata ctx)[unat (datalen ctx) := b], datalen := datalen ctx + 1\<rparr> in
      if datalen c = 64
      then (let c1 = sha256_transform c (sdata c) in c1\<lparr>bitlen := bitlen c1 + 512, datalen := 0\<rparr>)
      else c)"

text \<open>The loop counts in 32 bits: with 2^32 bytes or more it never ends.\<close>

definition sha256_update :: "u8 list \<Rightarrow> sha_ctx \<Rightarrow> sha_ctx option" where
  "sha256_update bytes ctx = (if length bytes < 2 ^ 32 then Some (fold sha_byte bytes ctx) else None)"

definition sha_zero :: "nat \<Rightarrow> nat \<Rightarrow> u8 list \<Rightarrow> u8 list" where
  "sha_zero i n = fold (\<lambda>j d. d[j := 0]) [i..<n]"

definition sha256_final :: "sha_ctx \<Rightarrow> sha_ctx \<times> u8 list" where
  "sha256_final ctx =
     (let n = unat (datalen ctx);
          d1 = (sdata ctx)[n := 0x80];
          c1 = (if datalen ctx < 56 then ctx\<lparr>sdata := sha_zero (n + 1) 56 d1\<rparr>
                else let d = sha_zero (n + 1) 64 d1; c = sha256_transform (ctx\<lparr>sdata := d\<rparr>) d
                     in c\<lparr>sdata := sha_zero 0 56 (sdata c)\<rparr>);
          bl = bitlen c1 + ucast (datalen c1 * 8);
          d2 = fold (\<lambda>j d. d[63 - j := ucast (drop_bit (8 * j) bl)]) [0..<8] (sdata c1);
          c2 = sha256_transform (c1\<lparr>bitlen := bl, sdata := d2\<rparr>) d2
      in (c2, map (\<lambda>i. ucast (drop_bit (24 - i mod 4 * 8) (sstate c2 ! (i div 4)) AND 0xff)) [0..<32]))"

section \<open>FIPS 180-4\<close>

definition big_sigma0 :: "u32 \<Rightarrow> u32" where "big_sigma0 x = word_rotr 2 x XOR word_rotr 13 x XOR word_rotr 22 x"
definition big_sigma1 :: "u32 \<Rightarrow> u32" where "big_sigma1 x = word_rotr 6 x XOR word_rotr 11 x XOR word_rotr 25 x"
definition small_sigma0 :: "u32 \<Rightarrow> u32" where "small_sigma0 x = word_rotr 7 x XOR word_rotr 18 x XOR drop_bit 3 x"
definition small_sigma1 :: "u32 \<Rightarrow> u32" where "small_sigma1 x = word_rotr 17 x XOR word_rotr 19 x XOR drop_bit 10 x"

definition fips_ch :: "u32 \<Rightarrow> u32 \<Rightarrow> u32 \<Rightarrow> u32" where "fips_ch x y z = (x AND y) XOR (NOT x AND z)"
definition fips_maj :: "u32 \<Rightarrow> u32 \<Rightarrow> u32 \<Rightarrow> u32" where "fips_maj x y z = (x AND y) XOR (x AND z) XOR (y AND z)"

text \<open>
  The constants: the first 32 bits of the fractional parts of the cube roots of the first 64 primes, and of
  the square roots of the first eight. \<open>iroot k n\<close> is the integer part of the root, found bit by bit.
\<close>

definition primes64 :: "nat list" where
  "primes64 = [2, 3, 5, 7, 11, 13, 17, 19, 23, 29, 31, 37, 41, 43, 47, 53, 59, 61, 67, 71, 73, 79, 83, 89, 97, 101,
     103, 107, 109, 113, 127, 131, 137, 139, 149, 151, 157, 163, 167, 173, 179, 181, 191, 193, 197, 199, 211, 223,
     227, 229, 233, 239, 241, 251, 257, 263, 269, 271, 277, 281, 283, 293, 307, 311]"

definition iroot :: "nat \<Rightarrow> nat \<Rightarrow> nat" where
  "iroot k n = fold (\<lambda>b c. if (c + 2 ^ b) ^ k \<le> n then c + 2 ^ b else c) (rev [0..<37]) 0"

definition fips_k :: "u32 list" where
  "fips_k = map (\<lambda>p. of_nat (iroot 3 (p * 2 ^ 96) mod 2 ^ 32)) primes64"

definition fips_h0 :: "u32 list" where
  "fips_h0 = map (\<lambda>p. of_nat (iroot 2 (p * 2 ^ 64) mod 2 ^ 32)) (take 8 primes64)"

text \<open>The word of four bytes, the first one on top.\<close>

definition be_word :: "u8 list \<Rightarrow> u32" where
  "be_word bs = of_nat (foldl (\<lambda>n b. 256 * n + unat b) 0 bs)"

fun fips_w :: "u8 list \<Rightarrow> nat \<Rightarrow> u32" where
  "fips_w block t =
     (if t < 16 then be_word (take 4 (drop (4 * t) block))
      else small_sigma1 (fips_w block (t - 2)) + fips_w block (t - 7) + small_sigma0 (fips_w block (t - 15)) + fips_w block (t - 16))"

declare fips_w.simps [simp del]

fun fips_rounds :: "u8 list \<Rightarrow> nat \<Rightarrow> u32 list \<Rightarrow> u32 list" where
  "fips_rounds block 0 vs = vs"
| "fips_rounds block (Suc t) vs =
     (case fips_rounds block t vs of [a, b, c, d, e, f, g, h] \<Rightarrow>
        let t1 = h + big_sigma1 e + fips_ch e f g + fips_k ! t + fips_w block t; t2 = big_sigma0 a + fips_maj a b c
        in [t1 + t2, a, b, c, d + t1, e, f, g]
      | xs \<Rightarrow> xs)"

definition fips_compress :: "u32 list \<Rightarrow> u8 list \<Rightarrow> u32 list" where
  "fips_compress hs block = map2 (+) hs (fips_rounds block 64 hs)"

definition be_bytes :: "nat \<Rightarrow> nat \<Rightarrow> u8 list" where
  "be_bytes n v = map (\<lambda>i. of_nat (v div 256 ^ (n - 1 - i))) [0..<n]"

definition fips_pad :: "u8 list \<Rightarrow> u8 list" where
  "fips_pad msg = msg @ [0x80] @ replicate ((119 - length msg mod 64) mod 64) 0 @ be_bytes 8 (8 * length msg)"

definition blocks :: "u8 list \<Rightarrow> u8 list list" where
  "blocks xs = map (\<lambda>i. take 64 (drop (64 * i) xs)) [0..<length xs div 64]"

definition fips_sha256 :: "u8 list \<Rightarrow> u8 list" where
  "fips_sha256 msg = concat (map (\<lambda>w. be_bytes 4 (unat w)) (foldl fips_compress fips_h0 (blocks (fips_pad msg))))"

section \<open>One block\<close>

lemma ROTRIGHT_rotr: "0 < n \<Longrightarrow> n < 32 \<Longrightarrow> ROTRIGHT x n = word_rotr n x"
proof (rule bit_word_eqI)
  fix m assume n: "0 < n" "n < 32" and m: "m < LENGTH(32)"
  have "(m + n) mod 32 = (if m + n < 32 then m + n else m + n - 32)" using n m by (simp add: mod_if)
  moreover have "\<not> bit x (m + n)" if "32 \<le> m + n" using that by (auto dest: bit_imp_le_length)
  ultimately show "bit (ROTRIGHT x n) m = bit (word_rotr n x) m"
    using n m by (auto simp: ROTRIGHT_def bit_simps ac_simps not_le)
qed

lemma sigmas: "EP0 = big_sigma0" "EP1 = big_sigma1" "SIG0 = small_sigma0" "SIG1 = small_sigma1"
  by (rule ext, simp add: EP0_def EP1_def SIG0_def SIG1_def big_sigma0_def big_sigma1_def small_sigma0_def small_sigma1_def ROTRIGHT_rotr)+

lemma choices: "CH = fips_ch" "MAJ = fips_maj"
  by (rule ext, rule ext, rule ext, simp add: CH_def MAJ_def fips_ch_def fips_maj_def)+

lemma iroot_step:
  fixes n :: nat
  assumes "0 < k" and "c ^ k \<le> n" and "n < (c + 2 ^ b) ^ k"
  shows "let r = fold (\<lambda>b c. if (c + 2 ^ b) ^ k \<le> n then c + 2 ^ b else c) (rev [0..<b]) c in r ^ k \<le> n \<and> n < (r + 1) ^ k"
  using assms(2,3)
proof (induction b arbitrary: c)
  case (Suc b)
  have u: "rev [0..<Suc b] = b # rev [0..<b]" by simp
  have two: "c + 2 ^ Suc b = (c + 2 ^ b) + 2 ^ b" by simp
  show ?case
  proof (cases "(c + 2 ^ b) ^ k \<le> n")
    case True
    then show ?thesis using Suc.IH [of "c + 2 ^ b"] Suc.prems(2) unfolding u two by simp
  next
    case False
    then show ?thesis using Suc.IH [of c] Suc.prems(1) unfolding u by (simp add: not_le)
  qed
qed simp

lemma iroot_eq:
  assumes "0 < k" and "c ^ k \<le> n" and "n < (c + 1) ^ k" and "n < (2 ^ 37) ^ k"
  shows "iroot k n = c"
proof -
  let ?r = "iroot k n"
  have z: "0 ^ k \<le> n" "n < (0 + 2 ^ 37) ^ k" using assms(1,4) by (simp_all add: zero_power)
  have r: "?r ^ k \<le> n" "n < (?r + 1) ^ k"
    using iroot_step [OF assms(1) z] by (simp_all only: iroot_def Let_def)
  have "?r < c + 1" using le_less_trans [OF r(1) assms(3)] by (rule power_less_imp_less_base) simp
  moreover have "c < ?r + 1" using le_less_trans [OF assms(2) r(2)] by (rule power_less_imp_less_base) simp
  ultimately show ?thesis by simp
qed

text \<open>The integer part of the root of a small prime, and the check that \<open>w\<close> is the fraction.\<close>

definition root_word :: "nat \<Rightarrow> nat \<Rightarrow> nat \<Rightarrow> u32 \<Rightarrow> bool" where
  "root_word k q p w \<longleftrightarrow> (q * 2 ^ 32 + unat w) ^ k \<le> p * 2 ^ (32 * k) \<and> p * 2 ^ (32 * k) < (q * 2 ^ 32 + unat w + 1) ^ k \<and> p < 2 ^ (5 * k)"

lemma root_wordD:
  assumes "root_word k q p w" and "0 < k"
  shows "of_nat (iroot k (p * 2 ^ (32 * k)) mod 2 ^ 32) = w"
proof -
  have "p * 2 ^ (32 * k) < 2 ^ (5 * k) * 2 ^ (32 * k)" using assms(1) by (simp add: root_word_def)
  also have "\<dots> = (2 ^ 37) ^ k" by (simp only: power_add [symmetric] power_mult [symmetric]) simp
  finally have "iroot k (p * 2 ^ (32 * k)) = q * 2 ^ 32 + unat w"
    using assms by (intro iroot_eq) (simp_all add: root_word_def)
  moreover have "(q * 2 ^ 32 + unat w) mod 2 ^ 32 = unat w" using unat_lt_u32 [of w] by simp
  ultimately show ?thesis by simp
qed

lemma root_words:
  assumes "list_all2 (\<lambda>p w. root_word k (f p) p w) ps ws" and "0 < k"
  shows "map (\<lambda>p. of_nat (iroot k (p * 2 ^ (32 * k)) mod 2 ^ 32)) ps = ws"
  using assms(1) by (induction rule: list_all2_induct) (use root_wordD [OF _ assms(2)] in simp_all)

definition small_cbrt :: "nat \<Rightarrow> nat" where
  "small_cbrt p = (if p < 8 then 1 else if p < 27 then 2 else if p < 64 then 3 else if p < 125 then 4 else if p < 216 then 5 else 6)"

definition small_sqrt :: "nat \<Rightarrow> nat" where
  "small_sqrt p = (if p < 4 then 1 else if p < 9 then 2 else if p < 16 then 3 else 4)"

lemma sha_k_fips: "sha_k = fips_k"
proof -
  have "list_all2 (\<lambda>p w. root_word 3 (small_cbrt p) p w) primes64 sha_k"
    unfolding primes64_def sha_k_def by (simp add: root_word_def small_cbrt_def)
  from root_words [OF this] show ?thesis by (simp add: fips_k_def)
qed

lemma sha_h0_fips: "fips_h0 = [0x6a09e667, 0xbb67ae85, 0x3c6ef372, 0xa54ff53a, 0x510e527f, 0x9b05688c, 0x1f83d9ab, 0x5be0cd19]"
proof -
  have "list_all2 (\<lambda>p w. root_word 2 (small_sqrt p) p w) (take 8 primes64)
      [0x6a09e667, 0xbb67ae85, 0x3c6ef372, 0xa54ff53a, 0x510e527f, 0x9b05688c, 0x1f83d9ab, 0x5be0cd19]"
    unfolding primes64_def by (simp add: root_word_def small_sqrt_def)
  from root_words [OF this] show ?thesis by (simp add: fips_h0_def)
qed

lemma be_word_4:
  "push_bit 24 (ucast a) OR push_bit 16 (ucast b) OR push_bit 8 (ucast c) OR ucast d = be_word [a, b, c, d :: u8]"
proof -
  let ?A = "push_bit 24 (ucast a) :: u32" and ?B = "push_bit 16 (ucast b) :: u32" and ?C = "push_bit 8 (ucast c) :: u32"
  have "?C OR ucast d = ?C + ucast d"
    by (rule disjunctive_add [symmetric]) (auto simp: bit_simps dest: bit_imp_le_length)
  moreover have "?B OR (?C OR ucast d) = ?B + (?C OR ucast d)"
    by (rule disjunctive_add [symmetric]) (auto simp: bit_simps dest: bit_imp_le_length)
  moreover have "?A OR (?B OR (?C OR ucast d)) = ?A + (?B OR (?C OR ucast d))"
    by (rule disjunctive_add [symmetric]) (auto simp: bit_simps dest: bit_imp_le_length)
  ultimately have "?A OR ?B OR ?C OR ucast d = ?A + (?B + (?C + ucast d))" by (simp add: or.assoc)
  also have "\<dots> = of_nat (unat a * 2 ^ 24 + unat b * 2 ^ 16 + unat c * 2 ^ 8 + unat d)"
    by (simp add: push_bit_eq_mult)
  also have "\<dots> = be_word [a, b, c, d]" by (simp add: be_word_def algebra_simps)
  finally show ?thesis .
qed

lemma sha_schedule_w:
  assumes "length d = 64"
  shows "sha_schedule d = map (fips_w d) [0..<64]"
proof -
  have four: "take 4 (drop (4 * i) d) = [d ! (4 * i), d ! (4 * i + 1), d ! (4 * i + 2), d ! (4 * i + 3)]" if "i < 16" for i
  proof (rule nth_equalityI)
    show "length (take 4 (drop (4 * i) d)) = length [d ! (4 * i), d ! (4 * i + 1), d ! (4 * i + 2), d ! (4 * i + 3)]"
      using that assms by simp
    fix j assume "j < length (take 4 (drop (4 * i) d))"
    then have "j = 0 \<or> j = 1 \<or> j = 2 \<or> j = 3" by auto
    then show "take 4 (drop (4 * i) d) ! j = [d ! (4 * i), d ! (4 * i + 1), d ! (4 * i + 2), d ! (4 * i + 3)] ! j"
      using that assms by auto
  qed
  have first: "map (\<lambda>i. push_bit 24 (ucast (d ! (4 * i))) OR push_bit 16 (ucast (d ! (4 * i + 1))) OR
                 push_bit 8 (ucast (d ! (4 * i + 2))) OR ucast (d ! (4 * i + 3))) [0..<16] = map (fips_w d) [0..<16]"
    by (rule map_cong) (simp_all add: be_word_4 fips_w.simps four)
  define f where "f = (\<lambda>i (m :: u32 list). m @ [SIG1 (m ! (i - 2)) + m ! (i - 7) + SIG0 (m ! (i - 15)) + m ! (i - 16)])"
  have "fold f [16..<16 + n] (map (fips_w d) [0..<16]) = map (fips_w d) [0..<16 + n]" for n
  proof (induction n)
    case (Suc n)
    have w: "fips_w d (16 + n) = small_sigma1 (fips_w d (16 + n - 2)) + fips_w d (16 + n - 7) + small_sigma0 (fips_w d (16 + n - 15)) + fips_w d (16 + n - 16)"
      by (subst fips_w.simps) simp
    have u: "[16..<16 + Suc n] = [16..<16 + n] @ [16 + n]" "[0..<16 + Suc n] = [0..<16 + n] @ [16 + n]"
      by (simp_all only: add_Suc_right upt_Suc if_P le_add1 le0)
    have "f (16 + n) (map (fips_w d) [0..<16 + n]) = map (fips_w d) [0..<16 + n] @ [fips_w d (16 + n)]"
      unfolding w by (simp add: f_def sigmas)
    then show ?case unfolding u using Suc by simp
  qed simp
  note r = this [of 48]
  have e: "16 + 48 = (64 :: nat)" by simp
  show ?thesis using r unfolding sha_schedule_def first f_def e .
qed


text \<open>The eight variables as a list, for the reference.\<close>

definition var_list :: "sha_vars \<Rightarrow> u32 list" where
  "var_list = (\<lambda>(a, b, c, d, e, f, g, h). [a, b, c, d, e, f, g, h])"

lemma sha_vars_cases: obtains a b c d e f g h where "(v :: sha_vars) = (a, b, c, d, e, f, g, h)"
  using that by (metis surj_pair)

lemma sha_rounds:
  assumes "length d = 64" and "t \<le> 64"
  shows "fips_rounds d t (var_list v) = var_list (fold (sha_round (sha_schedule d)) [0..<t] v)"
  using assms(2)
proof (induction t)
  case (Suc t)
  obtain a b c e f g h i where v: "fold (sha_round (sha_schedule d)) [0..<t] v = (a, b, c, e, f, g, h, i)" by (rule sha_vars_cases)
  have w: "sha_schedule d ! t = fips_w d t" using Suc.prems unfolding sha_schedule_w [OF assms(1)] by simp
  have F: "fips_rounds d t (var_list v) = [a, b, c, e, f, g, h, i]" using Suc v by (simp add: var_list_def)
  have R: "fold (sha_round (sha_schedule d)) [0..<Suc t] v = sha_round (sha_schedule d) t (a, b, c, e, f, g, h, i)"
    using v by simp
  show ?case unfolding R fips_rounds.simps F by (simp add: var_list_def sha_round_def Let_def sigmas choices sha_k_fips w)
qed simp

lemma transform_spec:
  assumes "length d = 64" and "length (sstate ctx) = 8"
  shows "sha256_transform ctx d = ctx\<lparr>sstate := fips_compress (sstate ctx) d\<rparr>"
proof -
  let ?s = "sstate ctx"
  have s: "?s = [?s ! 0, ?s ! 1, ?s ! 2, ?s ! 3, ?s ! 4, ?s ! 5, ?s ! 6, ?s ! 7]"
    using assms(2) by (intro nth_equalityI) (auto simp: less_Suc_eq numeral_eq_Suc)
  obtain a b c e f g h i where v: "fold (sha_round (sha_schedule d)) [0..<64] (?s ! 0, ?s ! 1, ?s ! 2, ?s ! 3, ?s ! 4, ?s ! 5, ?s ! 6, ?s ! 7)
     = (a, b, c, e, f, g, h, i)" by (rule sha_vars_cases)
  have "fips_rounds d 64 ?s = [a, b, c, e, f, g, h, i]"
    using sha_rounds [OF assms(1) order_refl, of "(?s ! 0, ?s ! 1, ?s ! 2, ?s ! 3, ?s ! 4, ?s ! 5, ?s ! 6, ?s ! 7)"] s
    unfolding v by (simp only: var_list_def prod.case)
  then have "fips_compress ?s d = [?s ! 0 + a, ?s ! 1 + b, ?s ! 2 + c, ?s ! 3 + e, ?s ! 4 + f, ?s ! 5 + g, ?s ! 6 + h, ?s ! 7 + i]"
    unfolding fips_compress_def by (subst s) simp
  then show ?thesis unfolding sha256_transform_def Let_def v by simp
qed

lemma fips_rounds_length: "length hs = 8 \<Longrightarrow> length (fips_rounds d t hs) = 8"
  by (induction t) (auto simp: Let_def split: list.split)

lemma fips_compress_length [simp]: "length hs = 8 \<Longrightarrow> length (fips_compress hs d) = 8"
  by (simp add: fips_compress_def fips_rounds_length)


section \<open>The stream of bytes\<close>

lemma blocks_append:
  assumes "length xs mod 64 = 0"
  shows "blocks (xs @ ys) = blocks xs @ blocks ys"
proof -
  obtain k where k: "length xs = 64 * k" using assms by auto
  have l: "length (xs @ ys) div 64 = k + length ys div 64" using k by simp
  have a: "map (\<lambda>i. take 64 (drop (64 * i) (xs @ ys))) [0..<k] = map (\<lambda>i. take 64 (drop (64 * i) xs)) [0..<k]"
  proof (rule map_cong [OF refl])
    fix i assume "i \<in> set [0..<k]"
    then have "64 * i + 64 \<le> length xs" using k by simp
    then show "take 64 (drop (64 * i) (xs @ ys)) = take 64 (drop (64 * i) xs)" by simp
  qed
  have b: "map (\<lambda>i. take 64 (drop (64 * i) (xs @ ys))) [k..<k + n] = map (\<lambda>i. take 64 (drop (64 * i) ys)) [0..<n]" for n
    by (rule nth_equalityI) (simp_all add: k algebra_simps)
  have u: "[0..<k + length ys div 64] = [0..<k] @ [k..<k + length ys div 64]" by (rule upt_add_eq_append) simp
  show ?thesis unfolding blocks_def l u map_append a b using k by simp
qed

lemma blocks_one: "length b = 64 \<Longrightarrow> blocks b = [b]"
  by (simp add: blocks_def)

lemma blocks_short [simp]: "length b < 64 \<Longrightarrow> blocks b = []"
  by (simp add: blocks_def)

text \<open>The state after \<open>sha256_init\<close> and the bytes \<open>M\<close>.\<close>

definition sha_after :: "u8 list \<Rightarrow> sha_ctx \<Rightarrow> bool" where
  "sha_after M ctx \<longleftrightarrow> length (sdata ctx) = 64 \<and> unat (datalen ctx) = length M mod 64 \<and>
     bitlen ctx = of_nat (512 * (length M div 64)) \<and>
     take (length M mod 64) (sdata ctx) = drop (length M - length M mod 64) M \<and>
     sstate ctx = foldl fips_compress fips_h0 (blocks (take (length M - length M mod 64) M))"

lemma fips_state_length [simp]: "length (foldl fips_compress fips_h0 bs) = 8"
proof -
  have "length (foldl fips_compress hs bs) = 8" if "length hs = 8" for hs
    using that by (induction bs arbitrary: hs) simp_all
  then show ?thesis by (simp add: sha_h0_fips)
qed

lemma sha_init_after: "length (sdata ctx) = 64 \<Longrightarrow> sha_after [] (sha256_init ctx)"
  by (simp add: sha_after_def sha256_init_def sha_h0_fips)

lemma sha_byte_after:
  assumes "sha_after M ctx"
  shows "sha_after (M @ [b]) (sha_byte b ctx)"
proof -
  let ?r = "length M mod 64" and ?q = "length M div 64"
  define c where "c = ctx\<lparr>sdata := (sdata ctx)[unat (datalen ctx) := b], datalen := datalen ctx + 1\<rparr>"
  note i = assms [unfolded sha_after_def]
  have r: "?r < 64" by simp
  have split: "length M - ?r = 64 * ?q" by (simp add: minus_mod_eq_mult_div)
  have le: "64 * ?q \<le> length M" by simp
  have n: "unat (datalen c) = ?r + 1" using r i unfolding c_def by (simp add: unat_word_ariths)
  have tail: "take (?r + 1) (sdata c) = drop (64 * ?q) M @ [b]"
    using i r split by (simp add: c_def take_Suc_conv_app_nth take_update_cancel)
  show ?thesis
  proof (cases "?r = 63")
    case True
    have full: "datalen c = 64" using n True by (simp add: word_unat_eq_iff)
    have d: "sdata c = drop (64 * ?q) M @ [b]" using tail True i by (simp add: c_def)
    have l: "length (M @ [b]) = 64 * (?q + 1)" using True div_mult_mod_eq [of "length M" 64] by simp
    have s: "sha_byte b ctx = (sha256_transform c (sdata c))\<lparr>bitlen := bitlen c + 512, datalen := 0\<rparr>"
    proof -
      have t: "sha256_transform c (sdata c) = c\<lparr>sstate := fips_compress (sstate c) (sdata c)\<rparr>"
        by (rule transform_spec) (use i in \<open>simp_all add: c_def\<close>)
      show ?thesis using full unfolding sha_byte_def c_def [symmetric] Let_def t by simp
    qed
    have t: "sha256_transform c (sdata c) = c\<lparr>sstate := fips_compress (sstate c) (sdata c)\<rparr>"
      by (rule transform_spec) (use i in \<open>simp_all add: c_def\<close>)
    have bl: "blocks (M @ [b]) = blocks (take (64 * ?q) M) @ [sdata c]"
    proof -
      have "M @ [b] = take (64 * ?q) M @ sdata c" unfolding d by simp
      moreover have "length (take (64 * ?q) M) mod 64 = 0" using le by (simp add: min_absorb2)
      moreover have "length (sdata c) = 64" using i by (simp add: c_def)
      ultimately show ?thesis using blocks_append blocks_one by metis
    qed
    have z: "length (M @ [b]) mod 64 = 0" "length (M @ [b]) div 64 = ?q + 1" unfolding l by simp_all
    show ?thesis unfolding sha_after_def s t z
      using i split bl by (simp add: c_def)
  next
    case False
    then have r63: "?r < 63" using r by linarith
    have m: "length (M @ [b]) mod 64 = ?r + 1" using r63 by (simp add: mod_Suc)
    have q: "length (M @ [b]) div 64 = ?q" using r63 by (simp add: div_Suc mod_Suc)
    have "datalen c \<noteq> 64" using n r63 by (simp add: word_unat_eq_iff)
    then have s: "sha_byte b ctx = c" unfolding sha_byte_def c_def [symmetric] Let_def by simp
    show ?thesis unfolding sha_after_def s m q
      using i n tail split by (simp add: c_def)
  qed
qed

lemma sha_bytes_after: "sha_after M ctx \<Longrightarrow> sha_after (M @ bs) (fold sha_byte bs ctx)"
proof (induction bs arbitrary: M ctx)
  case (Cons b bs)
  from Cons.IH [OF sha_byte_after [OF Cons.prems]] show ?case by simp
qed simp

section \<open>Padding\<close>

lemma sha_zero_spec:
  assumes "i \<le> n" and "n \<le> length d"
  shows "sha_zero i n d = take i d @ replicate (n - i) 0 @ drop n d"
  using assms
proof (induction n rule: dec_induct)
  case base
  then show ?case by (simp add: sha_zero_def)
next
  case (step n)
  have "sha_zero i (Suc n) d = (sha_zero i n d)[n := 0]" using step.hyps by (simp add: sha_zero_def)
  also have "\<dots> = take i d @ replicate (n - i) 0 @ (drop n d)[0 := 0]"
    using step by (simp add: list_update_append)
  also have "(drop n d)[0 := 0] = 0 # drop (Suc n) d" using step by (simp add: Cons_nth_drop_Suc [symmetric])
  finally show ?case using step.hyps by (simp add: Suc_diff_le replicate_append_same [symmetric])
qed

lemma length_bytes:
  assumes "length d = 64" and "n \<le> 64"
  shows "fold (\<lambda>j d. d[63 - j := f j]) [0..<n] d = take (64 - n) d @ map (\<lambda>i. f (n - 1 - i)) [0..<n]"
  using assms(2)
proof (induction n)
  case (Suc n)
  have s63: "64 - n = Suc (63 - n)" using Suc.prems by simp
  have "take (64 - n) d = take (63 - n) d @ [d ! (63 - n)]"
    using Suc.prems assms(1) take_Suc_conv_app_nth [of "63 - n" d] by (simp only: s63)
  moreover have "map (\<lambda>i. f (Suc n - 1 - i)) [0..<Suc n] = f n # map (\<lambda>i. f (n - 1 - i)) [0..<n]"
    unfolding map_upt_Suc by simp
  ultimately show ?case using Suc assms(1) by (simp add: list_update_append)
qed (use assms in simp)

lemma be_bytes_8: "map (\<lambda>i. ucast (drop_bit (8 * (8 - 1 - i)) (of_nat v :: u64))) [0..<8] = be_bytes 8 v"
proof -
  have "ucast (drop_bit (8 * j) (of_nat v :: u64)) = (of_nat (v div 256 ^ j) :: u8)" if "j < 8" for j
  proof -
    have "v div 256 ^ j = drop_bit (8 * j) v" by (simp add: drop_bit_eq_div power_mult)
    then show ?thesis using that by (auto intro!: bit_word_eqI simp: bit_simps)
  qed
  then show ?thesis unfolding be_bytes_def by (intro map_cong) simp_all
qed

lemma digest_byte: "k \<le> 24 \<Longrightarrow> ucast (drop_bit k (w :: u32) AND 0xff) = (of_nat (unat w div 2 ^ k) :: u8)"
proof -
  have "unat (drop_bit k w) = unat w div 2 ^ k" unfolding unat_drop_bit_eq by (rule drop_bit_eq_div)
  then have "(of_nat (unat w div 2 ^ k) :: u8) = ucast (drop_bit k w)" by (metis unsigned_def comp_apply of_nat_unat)
  moreover have m: "(0xff :: u32) = mask 8" by (simp add: mask_eq_exp_minus_1)
  ultimately show ?thesis unfolding m by (auto intro!: bit_word_eqI simp: bit_simps)
qed

lemma digest_spec:
  assumes "length (s :: u32 list) = 8"
  shows "map (\<lambda>i. ucast (drop_bit (24 - i mod 4 * 8) (s ! (i div 4)) AND 0xff)) [0..<32] = concat (map (\<lambda>w. be_bytes 4 (unat w)) s)"
proof -
  have "map (\<lambda>i. ucast (drop_bit (24 - i mod 4 * 8) (s ! (i div 4)) AND 0xff)) [0..<4 * n] = concat (map (\<lambda>w. be_bytes 4 (unat w)) (take n s))"
    if "n \<le> length s" for n
    using that
  proof (induction n)
    case (Suc n)
    let ?f = "\<lambda>i. ucast (drop_bit (24 - i mod 4 * 8) (s ! (i div 4)) AND 0xff) :: u8"
    have u: "[0..<4 * Suc n] = [0..<4 * n] @ [4 * n + 0, 4 * n + 1, 4 * n + 2, 4 * n + 3]"
      by (simp add: eval_nat_numeral)
    have f: "?f (4 * n + j) = of_nat (unat (s ! n) div 2 ^ (24 - j * 8))" if "j < 4" for j
      using that digest_byte [of "24 - j * 8"] by (simp add: div_add1_eq)
    have b: "be_bytes 4 v = [of_nat (v div 2 ^ 24), of_nat (v div 2 ^ 16), of_nat (v div 2 ^ 8), of_nat (v div 2 ^ 0)]" for v
      by (simp add: be_bytes_def upt_rec)
    have n: "n \<le> length s" "n < length s" using Suc.prems by simp_all
    have "map ?f [4 * n + 0, 4 * n + 1, 4 * n + 2, 4 * n + 3] = be_bytes 4 (unat (s ! n))"
      unfolding b list.map using f [of 0] f [of 1] f [of 2] f [of 3] by simp
    then show ?case unfolding u map_append Suc.IH [OF n(1)] take_Suc_conv_app_nth [OF n(2)] concat_append
      by simp
  qed simp
  from this [of 8] show ?thesis using assms by simp
qed

lemma pad_blocks:
  fixes M :: "u8 list"
  defines "r \<equiv> length M mod 64"
  defines "H \<equiv> take (length M - r) M" and "T \<equiv> drop (length M - r) M" and "L \<equiv> be_bytes 8 (8 * length M)"
  shows "r < 56 \<Longrightarrow> blocks (fips_pad M) = blocks H @ [T @ [0x80] @ replicate (55 - r) 0 @ L]"
    and "56 \<le> r \<Longrightarrow> blocks (fips_pad M) = blocks H @ [T @ [0x80] @ replicate (63 - r) 0, replicate 56 0 @ L]"
proof -
  have r: "r < 64" by (simp add: r_def)
  have H: "length H mod 64 = 0" by (simp add: H_def r_def min_absorb2 minus_mod_eq_mult_div)
  have M: "M = H @ T" by (simp add: H_def T_def)
  have T: "length T = r" by (simp add: T_def r_def)
  have L: "length L = 8" by (simp add: L_def be_bytes_def)
  have pad: "fips_pad M = H @ T @ [0x80] @ replicate ((119 - r) mod 64) 0 @ L"
    unfolding fips_pad_def r_def [symmetric] L_def [symmetric] by (subst M) simp
  {
    assume c: "r < 56"
    have "119 - r = 64 + (55 - r)" using c by simp
    then have z: "(119 - r) mod 64 = 55 - r" using c by (simp only: mod_add_self1) simp
    have "length (T @ [0x80] @ replicate (55 - r) 0 @ L) = 64" using c T L by simp
    then show "blocks (fips_pad M) = blocks H @ [T @ [0x80] @ replicate (55 - r) 0 @ L]"
      unfolding pad z by (simp only: blocks_append [OF H] blocks_one)
  next
    assume c: "56 \<le> r"
    have z: "(119 - r) mod 64 = (63 - r) + 56" using c r by (simp add: mod_if)
    have l1: "length (T @ [0x80] @ replicate (63 - r) 0) = 64" using c r T by simp
    then have m1: "length (T @ [0x80] @ replicate (63 - r) 0) mod 64 = 0" by simp
    have l2: "length (replicate 56 0 @ L) = 64" using L by simp
    have "T @ [0x80] @ replicate ((63 - r) + 56) 0 @ L = (T @ [0x80] @ replicate (63 - r) 0) @ replicate 56 0 @ L"
      unfolding replicate_add by simp
    then show "blocks (fips_pad M) = blocks H @ [T @ [0x80] @ replicate (63 - r) 0, replicate 56 0 @ L]"
      unfolding pad z by (simp only: blocks_append [OF H] blocks_append [OF m1] blocks_one [OF l1] blocks_one [OF l2]) simp
  }
qed

lemma final_spec:
  assumes "sha_after M ctx"
  shows "snd (sha256_final ctx) = fips_sha256 M"
proof -
  let ?r = "length M mod 64" and ?T = "drop (length M - length M mod 64) M" and ?L = "be_bytes 8 (8 * length M)"
  note i = assms [unfolded sha_after_def]
  have r: "?r < 64" by simp
  have comm: "c\<lparr>bitlen := a, sdata := b\<rparr> = c\<lparr>sdata := b, bitlen := a\<rparr>"
    "c\<lparr>sdata := b, sstate := e\<rparr> = c\<lparr>sstate := e, sdata := b\<rparr>"
    "c\<lparr>bitlen := a, sstate := e\<rparr> = c\<lparr>sstate := e, bitlen := a\<rparr>" for c a b e
    by (cases c, simp)+
  obtain BL :: u64 where BL: "BL = of_nat (8 * length M)" by blast
  define d1 where "d1 = (sdata ctx)[unat (datalen ctx) := 0x80]"
  have d1: "take (?r + 1) d1 = ?T @ [0x80]" "length d1 = 64"
    using i by (simp_all add: d1_def take_Suc_conv_app_nth take_update_cancel)
  have "unat (datalen ctx * 8) = 8 * ?r" using i r by (simp add: unat_word_ariths)
  then have "(ucast (datalen ctx * 8) :: u64) = of_nat (8 * ?r)" by (metis unsigned_def comp_apply of_nat_unat)
  then have bl: "bitlen ctx + ucast (datalen ctx * 8) = BL"
  proof -
    have "512 * (length M div 64) + 8 * ?r = 8 * length M" using div_mult_mod_eq [of "length M" 64] by linarith
    moreover have "bitlen ctx = of_nat (512 * (length M div 64))" using i by blast
    ultimately show ?thesis using \<open>ucast (datalen ctx * 8) = of_nat (8 * ?r)\<close> unfolding BL by (metis of_nat_add)
  qed
  have put: "fold (\<lambda>j d. d[63 - j := ucast (drop_bit (8 * j) BL)]) [0..<8] d = take 56 d @ ?L"
    if "length d = 64" for d
    using length_bytes [OF that, of 8 "\<lambda>j. ucast (drop_bit (8 * j) BL)"] be_bytes_8 [of "8 * length M"]
    unfolding BL [symmetric] by simp
  have lt: "datalen ctx < 56 \<longleftrightarrow> ?r < 56" using i by (simp add: word_less_nat_alt)
  show ?thesis
  proof (cases "?r < 56")
    case True
    have z: "sha_zero (?r + 1) 56 d1 = ?T @ [0x80] @ replicate (55 - ?r) 0 @ drop 56 d1"
      using True d1 by (simp add: sha_zero_spec)
    let ?c = "ctx\<lparr>sdata := sha_zero (?r + 1) 56 d1, bitlen := BL\<rparr>"
    let ?d = "?T @ [0x80] @ replicate (55 - ?r) 0 @ ?L"
    have lz: "length (sha_zero (?r + 1) 56 d1) = 64" unfolding z using True d1 by simp
    have d: "fold (\<lambda>j d. d[63 - j := ucast (drop_bit (8 * j) BL)]) [0..<8] (sha_zero (?r + 1) 56 d1) = ?d"
      unfolding put [OF lz] unfolding z using True by (simp add: take_Cons')
    have l: "length ?d = 64" using True by (simp add: be_bytes_def)
    have t: "sha256_transform (ctx\<lparr>sdata := ?d, bitlen := BL\<rparr>) ?d =
        (ctx\<lparr>sdata := ?d, bitlen := BL\<rparr>)\<lparr>sstate := fips_compress (sstate ctx) ?d\<rparr>"
      using transform_spec [OF l, of "ctx\<lparr>sdata := ?d, bitlen := BL\<rparr>"] i by simp
    have s: "fips_compress (sstate ctx) ?d = foldl fips_compress fips_h0 (blocks (fips_pad M))"
      unfolding pad_blocks(1) [OF True] using i by simp
    have "sha256_final ctx = (let c2 = sha256_transform (ctx\<lparr>sdata := ?d, bitlen := BL\<rparr>) ?d in
       (c2, map (\<lambda>i. ucast (drop_bit (24 - i mod 4 * 8) (sstate c2 ! (i div 4)) AND 0xff)) [0..<32]))"
      using True lt i(1) bl d unfolding sha256_final_def Let_def d1_def by (simp add: comm)
    then show ?thesis unfolding t s fips_sha256_def Let_def by (simp add: digest_spec s)
  next
    case False
    let ?d1 = "?T @ [0x80] @ replicate (63 - ?r) 0" and ?d2 = "replicate 56 0 @ ?L"
    have z: "sha_zero (?r + 1) 64 d1 = ?d1" using False r d1 by (simp add: sha_zero_spec)
    have l1: "length ?d1 = 64" using False r by simp
    have l2: "length ?d2 = 64" by (simp add: be_bytes_def)
    have lz: "length (sha_zero 0 56 ?d1) = 64" using l1 by (simp add: sha_zero_spec)
    have d2: "fold (\<lambda>j d. d[63 - j := ucast (drop_bit (8 * j) BL)]) [0..<8] (sha_zero 0 56 ?d1) = ?d2"
      unfolding put [OF lz] using l1 by (simp add: sha_zero_spec)
    let ?s1 = "fips_compress (sstate ctx) ?d1"
    have t1: "sha256_transform (ctx\<lparr>sdata := ?d1\<rparr>) ?d1 = ctx\<lparr>sdata := ?d1, sstate := ?s1\<rparr>"
      using transform_spec [OF l1, of "ctx\<lparr>sdata := ?d1\<rparr>"] i by simp
    have t2: "sha256_transform (ctx\<lparr>sdata := ?d2, bitlen := BL, sstate := ?s1\<rparr>) ?d2 =
        (ctx\<lparr>sdata := ?d2, bitlen := BL, sstate := ?s1\<rparr>)\<lparr>sstate := fips_compress ?s1 ?d2\<rparr>"
      using transform_spec [OF l2, of "ctx\<lparr>sdata := ?d2, bitlen := BL, sstate := ?s1\<rparr>"] i by simp
    have s: "fips_compress ?s1 ?d2 = foldl fips_compress fips_h0 (blocks (fips_pad M))"
      using False unfolding pad_blocks(2) [OF leI [OF False]] using i by simp
    have "sha256_final ctx = (let c2 = sha256_transform (ctx\<lparr>sdata := ?d2, bitlen := BL, sstate := ?s1\<rparr>) ?d2 in
       (c2, map (\<lambda>i. ucast (drop_bit (24 - i mod 4 * 8) (sstate c2 ! (i div 4)) AND 0xff)) [0..<32]))"
      using False lt i bl d2 z t1 unfolding sha256_final_def Let_def d1_def by (simp add: comm)
    then show ?thesis unfolding t2 s fips_sha256_def Let_def by (simp add: digest_spec s)
  qed
qed

section \<open>Any sequence of calls\<close>

primrec sha_updates :: "u8 list list \<Rightarrow> sha_ctx \<Rightarrow> sha_ctx option" where
  "sha_updates [] ctx = Some ctx"
| "sha_updates (bs # chunks) ctx = do { c \<leftarrow> sha256_update bs ctx; sha_updates chunks c }"

lemma sha_updates_after:
  assumes "sha_after M ctx" and "\<forall>bs \<in> set chunks. length bs < 2 ^ 32"
  shows "\<exists>c. sha_updates chunks ctx = Some c \<and> sha_after (M @ concat chunks) c"
  using assms
proof (induction chunks arbitrary: M ctx)
  case (Cons bs chunks)
  have "sha256_update bs ctx = Some (fold sha_byte bs ctx)" using Cons.prems(2) by (simp add: sha256_update_def)
  then show ?case using Cons.IH [OF sha_bytes_after [OF Cons.prems(1)], of bs] Cons.prems(2) by simp
qed simp

lemma sha_digest:
  assumes "length (sdata ctx) = 64" and "\<forall>bs \<in> set chunks. length bs < 2 ^ 32"
  shows "map_option (snd \<circ> sha256_final) (sha_updates chunks (sha256_init ctx)) = Some (fips_sha256 (concat chunks))"
  using sha_updates_after [OF sha_init_after [OF assms(1)] assms(2)] final_spec by fastforce

text \<open>
  C1: the incremental hash of the boot loader is SHA-256 as FIPS 180-4 defines it, of the message as a whole,
  however the message is cut into calls of \<open>sha256_update\<close>.
\<close>

theorem sha256_correct:
  assumes "length (sdata ctx) = 64" and "\<forall>bs \<in> set chunks. length bs < 2 ^ 32"
  shows "map_option (snd \<circ> sha256_final) (sha_updates chunks (sha256_init ctx)) = Some (fips_sha256 (concat chunks))"
  using assms by (rule sha_digest)

theorem sha256_correct_witness:
  "map_option (snd \<circ> sha256_final)
     (sha_updates [[0x61], [0x62, 0x63]] (sha256_init \<lparr>sdata = replicate 64 0, datalen = 7, bitlen = 0, sstate = []\<rparr>)) =
   Some (fips_sha256 [0x61, 0x62, 0x63])"
  using sha256_correct [of "\<lparr>sdata = replicate 64 0, datalen = 7, bitlen = 0, sstate = []\<rparr>" "[[0x61], [0x62, 0x63]]"] by simp

end
