(* ===== verification/Boot.thy ===== *)
theory Boot
  imports Sha256 Vm_Bytes
begin

text \<open>
  The secure boot loader of assignment 1 (bootloader/): elf.c, load.c and start.c. The kernel is entered only
  when the SHA-256 digest of its image is the trusted one; otherwise the recovery kernel is. The digest comes from
  a generated header (measurements.h), so it is the argument \<open>trusted_kernel_hash\<close>. Local variables (the
  block \<open>b\<close>), the static hash context and the machine registers are fields of the state; everything the code
  reaches through a pointer is in \<open>bmem\<close>.
\<close>

section \<open>State\<close>

datatype kernel = NORMAL | RECOVERY

definition RAMDISK :: u64 where "RAMDISK = 0x84000000"
definition RECOVERYDISK :: u64 where "RECOVERYDISK = 0x84500000"
definition BLSIZE :: nat where "BLSIZE = 1024"

text \<open>The build options of the loader, and the address of the linker's symbol \<open>end\<close>.\<close>

record boot_config =
  KERNELPMP1 :: bool
  KERNELPMP2 :: bool
  end_symbol :: u64
  mhartid :: u64

record machine =
  bmem :: memory
  kernel_elfhdr :: u64
  kernel_phdr :: u64
  sha256_ctx :: sha_ctx
  tp :: u64
  mstatus :: u64
  satp :: u64
  mepc :: u64
  pmpaddr :: "u64 list"
  pmpcfg0 :: u64
  medeleg :: u64
  mideleg :: u64
  sie_reg :: u64

record boot_buf =
  valid :: int
  blockno :: u32
  bdata :: "u8 list"

section \<open>elf.c\<close>

definition disk_of :: "kernel \<Rightarrow> u64" where
  "disk_of k = (if k = NORMAL then RAMDISK else RECOVERYDISK)"

text \<open>Fields of the ELF header at \<open>h\<close>.\<close>

definition elf_entry :: "memory \<Rightarrow> u64 \<Rightarrow> u64" where "elf_entry m h = load64 m (h + 24)"
definition elf_phoff :: "memory \<Rightarrow> u64 \<Rightarrow> u64" where "elf_phoff m h = load64 m (h + 32)"
definition elf_shoff :: "memory \<Rightarrow> u64 \<Rightarrow> u64" where "elf_shoff m h = load64 m (h + 40)"
definition elf_phentsize :: "memory \<Rightarrow> u64 \<Rightarrow> u16" where "elf_phentsize m h = load16 m (h + 54)"
definition elf_shentsize :: "memory \<Rightarrow> u64 \<Rightarrow> u16" where "elf_shentsize m h = load16 m (h + 58)"
definition elf_shnum :: "memory \<Rightarrow> u64 \<Rightarrow> u16" where "elf_shnum m h = load16 m (h + 60)"
definition ph_vaddr :: "memory \<Rightarrow> u64 \<Rightarrow> u64" where "ph_vaddr m p = load64 m (p + 16)"

text \<open>The load address is the virtual address of the second program header.\<close>

definition find_kernel_load_addr :: "kernel \<Rightarrow> machine \<Rightarrow> u64 \<times> machine" where
  "find_kernel_load_addr k s =
     (let h = disk_of k; p = h + elf_phoff (bmem s) h + ucast (elf_phentsize (bmem s) h)
      in (ph_vaddr (bmem s) p, s\<lparr>kernel_elfhdr := h, kernel_phdr := p\<rparr>))"

text \<open>
  The product of the two \<open>ushort\<close>s is an \<open>int\<close>; the two functions below look at the header the last
  call of \<open>find_kernel_load_addr\<close> left in \<open>kernel_elfhdr\<close>, not at their argument.
\<close>

definition find_kernel_size :: "kernel \<Rightarrow> machine \<Rightarrow> u64" where
  "find_kernel_size k s = (let h = kernel_elfhdr s in
     elf_shoff (bmem s) h + scast (ucast (elf_shentsize (bmem s) h) * ucast (elf_shnum (bmem s) h) :: u32))"

definition find_kernel_entry_addr :: "kernel \<Rightarrow> machine \<Rightarrow> u64" where
  "find_kernel_entry_addr k s = elf_entry (bmem s) (kernel_elfhdr s)"

section \<open>load.c\<close>

definition kernel_copy :: "kernel \<Rightarrow> boot_buf \<Rightarrow> machine \<Rightarrow> boot_buf option" where
  "kernel_copy k b s =
     (if blockno b \<ge> 2000 then None
      else Some (b\<lparr>bdata := read_bytes (bmem s) (disk_of k + ucast (blockno b * 1024)) BLSIZE, valid := 1\<rparr>))"

section \<open>start.c\<close>

text \<open>
  The loop that \<open>start\<close> and \<open>setup_recovery_kernel\<close> both contain: blocks from the fourth on go to the
  load address, one after the other.
\<close>

primrec load_blocks :: "kernel \<Rightarrow> u64 \<Rightarrow> nat list \<Rightarrow> boot_buf \<Rightarrow> machine \<Rightarrow> machine option" where
  "load_blocks k load_addr [] b s = Some s"
| "load_blocks k load_addr (i # is) b s = do {
     b' \<leftarrow> kernel_copy k (b\<lparr>valid := 0, blockno := of_nat i\<rparr>) s;
     load_blocks k load_addr is b'
       (if valid b' = 1 then s\<lparr>bmem := write_bytes (bmem s) (load_addr + of_nat ((i - 4) * BLSIZE)) (bdata b')\<rparr> else s) }"

definition block_num :: "u64 \<Rightarrow> int" where
  "block_num sz = sint (ucast ((sz + 1023) div 1024) :: u32)"

definition load_kernel :: "kernel \<Rightarrow> u64 \<Rightarrow> u64 \<Rightarrow> machine \<Rightarrow> machine option" where
  "load_kernel k load_addr sz s =
     load_blocks k load_addr [4..<nat (block_num sz)] \<lparr>valid = 0, blockno = 0, bdata = replicate 1024 0\<rparr> s"

definition setup_recovery_kernel :: "machine \<Rightarrow> machine option" where
  "setup_recovery_kernel s = do {
     let (load_addr, s1) = find_kernel_load_addr RECOVERY s;
     let sz = find_kernel_size RECOVERY s1;
     s2 \<leftarrow> load_kernel RECOVERY load_addr sz s1;
     Some (s2\<lparr>mepc := find_kernel_entry_addr RECOVERY s2\<rparr>) }"

text \<open>\<open>struct sys_info\<close> lies at a fixed address.\<close>

definition SYS_INFO :: u64 where "SYS_INFO = 0x80080000"

definition is_secure_boot :: "u8 list \<Rightarrow> machine \<Rightarrow> (bool \<times> machine) option" where
  "is_secure_boot trusted_kernel_hash s = do {
     let ctx = sha256_init (sha256_ctx s);
     let kernel_size = find_kernel_size NORMAL s;
     ctx1 \<leftarrow> sha256_update (read_bytes (bmem s) RAMDISK (unat kernel_size)) ctx;
     let (ctx2, observed) = sha256_final ctx1;
     let m1 = write_bytes (bmem s) (SYS_INFO + 64) observed;
     let m2 = write_bytes m1 (SYS_INFO + 32) (take 32 trusted_kernel_hash);
     let s1 = s\<lparr>sha256_ctx := ctx2, bmem := m2\<rparr>;
     let verification = (read_bytes m2 (SYS_INFO + 64) 32 = take 32 trusted_kernel_hash);
     s2 \<leftarrow> (if \<not> verification then setup_recovery_kernel s1 else Some s1);
     Some (verification, s2) }"

text \<open>The first half of \<open>start\<close>: the machine registers and the regions of physical memory protection.\<close>

definition start_registers :: "boot_config \<Rightarrow> machine \<Rightarrow> machine" where
  "start_registers cfg s =
     (let s1 = s\<lparr>tp := scast (ucast (mhartid cfg) :: u32), mstatus := (mstatus s AND NOT 0x1800) OR 0x800, satp := 0\<rparr>;
          s2 = (if \<not> KERNELPMP1 cfg \<or> \<not> KERNELPMP2 cfg
                then s1\<lparr>pmpaddr := (pmpaddr s1)[0 := 0x3fffffffffffff], pmpcfg0 := 0xf\<rparr> else s1);
          s3 = (if KERNELPMP1 cfg
                then s2\<lparr>pmpaddr := (pmpaddr s2)[0 := drop_bit 2 (0x80000000 + 117 * 1024 * 1024)], pmpcfg0 := 0xf\<rparr> else s2)
      in if KERNELPMP2 cfg
         then s3\<lparr>pmpaddr := (pmpaddr s3)[0 := drop_bit 2 (0x80000000 + (118 * 1024 * 1024 - 1)),
                   1 := 0x21DBFFFF, 2 := 0x21E3FFFF, 3 := 0x21EFFFFF, 4 := 0x21FBFFFF],
                 pmpcfg0 := 0xf OR push_bit 8 0x83 OR push_bit 16 0x1f OR push_bit 24 0x83 OR push_bit 32 0x1f\<rparr>
         else s3)"

text \<open>The second half: the system information, which \<open>end\<close> enters by its contents, and the delegation.\<close>

definition start_out :: "boot_config \<Rightarrow> machine \<Rightarrow> machine" where
  "start_out cfg s =
     (let m1 = store64 (bmem s) SYS_INFO 0x80000000;
          m2 = store64 m1 (SYS_INFO + 8) (load64 m1 (end_symbol cfg));
          m3 = store64 m2 (SYS_INFO + 16) (load64 m2 SYS_INFO);
          m4 = store64 m3 (SYS_INFO + 24) (0x80000000 + 128 * 1024 * 1024)
      in s\<lparr>bmem := m4, medeleg := 0xffff, mideleg := 0xffff, sie_reg := sie_reg s OR 0x222\<rparr>)"

definition start :: "boot_config \<Rightarrow> u8 list \<Rightarrow> machine \<Rightarrow> machine option" where
  "start cfg trusted_kernel_hash s = do {
     let s0 = start_registers cfg s;
     let (kernel_load_addr, s1) = find_kernel_load_addr NORMAL s0;
     (secure, s2) \<leftarrow> is_secure_boot trusted_kernel_hash s1;
     s3 \<leftarrow> (if \<not> secure then Some s2
            else do {
              s' \<leftarrow> load_kernel NORMAL kernel_load_addr (find_kernel_size NORMAL s2) s2;
              Some (s'\<lparr>mepc := find_kernel_entry_addr NORMAL s'\<rparr>) });
     Some (start_out cfg s3) }"

section \<open>Loading\<close>

lemma load_blocks_buf: "load_blocks k la is b s = load_blocks k la is b' s"
  by (cases "is"; cases b; cases b') (simp_all add: kernel_copy_def)

lemma load_blocks_append:
  "load_blocks k la (xs @ ys) b s = do { t \<leftarrow> load_blocks k la xs b s; load_blocks k la ys b t }"
proof (induction xs arbitrary: b s)
  case (Cons x xs)
  have "load_blocks k la ys b' t = load_blocks k la ys b t" for b' t by (rule load_blocks_buf)
  then show ?case by (auto simp: Cons.IH kernel_copy_def split: Option.bind_split)
qed simp

lemma write_bytes_append: "write_bytes m a (xs @ ys) = write_bytes (write_bytes m a xs) (a + of_nat (length xs)) ys"
  by (induction xs arbitrary: m a) (simp_all add: algebra_simps)

lemma read_bytes_cong: "(\<And>i. i < n \<Longrightarrow> m (a + of_nat i) = m' (a + of_nat i)) \<Longrightarrow> read_bytes m a n = read_bytes m' a n"
  by (simp add: read_bytes_def)

lemma unat_offset: "unat (a :: u64) + i < 2 ^ 64 \<Longrightarrow> unat (a + of_nat i) = unat a + i"
  using unat_of_nat_lt64 [of i] by (simp only: unat_word_ariths) simp

lemma disk_of_bounds: "0x84000000 \<le> unat (disk_of k)" "unat (disk_of k) \<le> 0x84500000"
  by (simp_all add: disk_of_def RAMDISK_def RECOVERYDISK_def)

lemma load_blocks_spec:
  assumes "j \<le> 1996" and "unat la + j * 1024 \<le> 0x84000000"
  shows "load_blocks k la [4..<4 + j] b s =
    Some (s\<lparr>bmem := write_bytes (bmem s) la (read_bytes (bmem s) (disk_of k + 4096) (j * 1024))\<rparr>)"
  using assms
proof (induction j)
  case (Suc j)
  let ?bs = "read_bytes (bmem s) (disk_of k + 4096) (j * 1024)"
  let ?m = "write_bytes (bmem s) la ?bs"
  have n32: "unat (of_nat (4 + j) :: u32) = 4 + j" using Suc.prems(1) by (simp only: unat_of_nat) (simp add: take_bit_nat_eq_self)
  have bn: "(of_nat (4 + j) :: u32) < 2000" using Suc.prems(1) by (simp only: word_less_nat_alt n32) simp
  have off: "ucast ((of_nat (4 + j) :: u32) * 1024) = (of_nat (4096 + j * 1024) :: u64)"
  proof -
    have "unat ((of_nat (4 + j) :: u32) * 1024) = 4096 + j * 1024"
      using Suc.prems(1) by (simp only: unat_word_ariths n32) simp
    from arg_cong [OF this, of "of_nat :: nat \<Rightarrow> u64"] show ?thesis by (simp only: of_nat_unat)
  qed
  have same: "read_bytes ?m (disk_of k + of_nat (4096 + j * 1024)) 1024 = read_bytes (bmem s) (disk_of k + of_nat (4096 + j * 1024)) 1024"
  proof (rule read_bytes_cong)
    fix i :: nat assume i: "i < 1024"
    let ?a = "disk_of k + of_nat (4096 + j * 1024) + of_nat i"
    have "?a = disk_of k + of_nat (4096 + j * 1024 + i)" by simp
    moreover have "unat (disk_of k + of_nat (4096 + j * 1024 + i)) = unat (disk_of k) + (4096 + j * 1024 + i)"
      by (rule unat_offset) (use Suc.prems(1) i disk_of_bounds(2) [of k] in simp)
    ultimately have "unat ?a = unat (disk_of k) + (4096 + j * 1024 + i)" by (simp only:)
    then have "\<not> in_region la (j * 1024) ?a"
      using Suc.prems(2) disk_of_bounds(1) [of k] by (subst in_region_unat) simp_all
    then show "?m ?a = bmem s ?a" using Suc.prems(1) by (subst write_bytes_apply) simp_all
  qed
  have w: "write_bytes ?m (la + of_nat (j * 1024)) (read_bytes (bmem s) (disk_of k + of_nat (4096 + j * 1024)) 1024) =
      write_bytes (bmem s) la (read_bytes (bmem s) (disk_of k + 4096) (Suc j * 1024))"
  proof -
    have "disk_of k + of_nat (4096 + j * 1024) = disk_of k + 4096 + of_nat (j * 1024)" by simp
    moreover have "read_bytes (bmem s) (disk_of k + 4096) (Suc j * 1024) =
        ?bs @ read_bytes (bmem s) (disk_of k + 4096 + of_nat (j * 1024)) 1024"
      using read_bytes_split [of "j * 1024" "Suc j * 1024" "bmem s" "disk_of k + 4096"] by simp
    ultimately show ?thesis by (simp only: write_bytes_append length_read_bytes)
  qed
  have IH: "load_blocks k la [4..<4 + j] b s = Some (s\<lparr>bmem := ?m\<rparr>)" using Suc by simp
  have u: "[4..<4 + Suc j] = [4..<4 + j] @ [4 + j]" by (simp only: add_Suc_right upt_Suc) simp
  have step: "load_blocks k la [4 + j] b (s\<lparr>bmem := ?m\<rparr>) = Some (s\<lparr>bmem := write_bytes ?m (la + of_nat (j * 1024))
      (read_bytes ?m (disk_of k + of_nat (4096 + j * 1024)) 1024)\<rparr>)"
    using bn off by (simp add: kernel_copy_def not_le BLSIZE_def)
  show ?case unfolding u load_blocks_append IH using step same w by simp
qed (simp add: read_bytes_def)

lemma read_write_bytes:
  assumes "length bs < 2 ^ 64"
  shows "read_bytes (write_bytes m a bs) a (length bs) = bs"
proof (rule nth_equalityI)
  fix i assume "i < length (read_bytes (write_bytes m a bs) a (length bs))"
  then have i: "i < length bs" "i < 2 ^ 64" using assms by simp_all
  show "read_bytes (write_bytes m a bs) a (length bs) ! i = bs ! i"
    using i assms by (simp add: read_bytes_def write_bytes_apply in_region_offset unat_of_nat_lt64)
qed simp

text \<open>The memory from the first disk on is as it was.\<close>

definition same_disks :: "memory \<Rightarrow> memory \<Rightarrow> bool" where
  "same_disks m m' \<longleftrightarrow> (\<forall>a. 0x84000000 \<le> unat a \<longrightarrow> m' a = m a)"

lemma same_disks_refl [simp]: "same_disks m m"
  by (simp add: same_disks_def)

lemma same_disks_trans: "same_disks m m' \<Longrightarrow> same_disks m' m'' \<Longrightarrow> same_disks m m''"
  by (simp add: same_disks_def)

lemma same_disks_write:
  assumes "unat a + length bs \<le> 0x84000000"
  shows "same_disks m (write_bytes m a bs)"
  unfolding same_disks_def
proof (intro allI impI)
  fix b :: u64 assume b: "0x84000000 \<le> unat b"
  have "\<not> in_region a (length bs) b" using assms b by (subst in_region_unat) simp_all
  then show "write_bytes m a bs b = m b" using assms by (subst write_bytes_apply) simp_all
qed

lemma same_disks_load:
  assumes "same_disks m m'" and "0x84000000 \<le> unat a" and "unat a + 8 \<le> 2 ^ 64"
  shows "load64 m' a = load64 m a" and "load16 m' a = load16 m a"
proof -
  have same: "m b = m' b" if "in_region a n b" "n \<le> 8" for b n
  proof -
    have "unat a \<le> unat b" using that assms(3) by (subst (asm) in_region_unat) simp_all
    then show ?thesis using assms(1,2) by (simp add: same_disks_def)
  qed
  show "load64 m' a = load64 m a" by (rule load64_cong [symmetric]) (use same in simp)
  show "load16 m' a = load16 m a"
    unfolding load16_def by (subst load_bytes_cong [of a 2 m m']) (use same in simp_all)
qed

lemma same_disks_bytes:
  assumes "same_disks m m'" and "o' + n < 2 ^ 63"
  shows "read_bytes m' (disk_of k + of_nat o') n = read_bytes m (disk_of k + of_nat o') n"
proof (rule read_bytes_cong)
  fix i assume i: "i < n"
  have "unat (disk_of k + of_nat (o' + i)) = unat (disk_of k) + (o' + i)"
    by (rule unat_offset) (use i assms(2) disk_of_bounds(2) [of k] in simp)
  then have "m' (disk_of k + of_nat (o' + i)) = m (disk_of k + of_nat (o' + i))"
    using assms(1) disk_of_bounds(1) [of k] by (simp add: same_disks_def del: of_nat_add)
  then show "m' (disk_of k + of_nat o' + of_nat i) = m (disk_of k + of_nat o' + of_nat i)" by (simp add: add.assoc)
qed

lemma unat_disk_field: "f \<le> 64 \<Longrightarrow> unat (disk_of k + of_nat f) = unat (disk_of k) + f"
  by (rule unat_offset) (use disk_of_bounds(2) [of k] in simp)

lemma same_disks_field:
  assumes "same_disks m m'" and "f \<le> 64"
  shows "load64 m' (disk_of k + of_nat f) = load64 m (disk_of k + of_nat f)" and "load16 m' (disk_of k + of_nat f) = load16 m (disk_of k + of_nat f)"
  by (rule same_disks_load [OF assms(1)]; use unat_disk_field [OF assms(2), of k] disk_of_bounds [of k] assms(2) in simp)+

lemma same_disks_elf:
  assumes "same_disks m m'"
  shows "elf_entry m' (disk_of k) = elf_entry m (disk_of k)" "elf_phoff m' (disk_of k) = elf_phoff m (disk_of k)"
    "elf_shoff m' (disk_of k) = elf_shoff m (disk_of k)" "elf_phentsize m' (disk_of k) = elf_phentsize m (disk_of k)"
    "elf_shentsize m' (disk_of k) = elf_shentsize m (disk_of k)" "elf_shnum m' (disk_of k) = elf_shnum m (disk_of k)"
  using same_disks_field [OF assms, of 24 k] same_disks_field [OF assms, of 32 k] same_disks_field [OF assms, of 40 k]
    same_disks_field [OF assms, of 54 k] same_disks_field [OF assms, of 58 k] same_disks_field [OF assms, of 60 k]
  by (simp_all add: elf_entry_def elf_phoff_def elf_shoff_def elf_phentsize_def elf_shentsize_def elf_shnum_def)

section \<open>What the images ask for\<close>

definition load_addr_of :: "kernel \<Rightarrow> memory \<Rightarrow> u64" where
  "load_addr_of k m = (let h = disk_of k in ph_vaddr m (h + elf_phoff m h + ucast (elf_phentsize m h)))"

definition size_of :: "kernel \<Rightarrow> memory \<Rightarrow> u64" where
  "size_of k m = (let h = disk_of k in
     elf_shoff m h + scast (ucast (elf_shentsize m h) * ucast (elf_shnum m h) :: u32))"

text \<open>
  The image has between 4 and 2000 blocks, its program headers lie in it, and it is loaded between the
  system information and the disks.
\<close>

definition kernel_fits :: "kernel \<Rightarrow> memory \<Rightarrow> bool" where
  "kernel_fits k m \<longleftrightarrow> (let n = block_num (size_of k m) in
     4 \<le> n \<and> n \<le> 2000 \<and> unat (elf_phoff m (disk_of k)) \<le> 2000 * 1024 \<and>
     unat SYS_INFO + 96 \<le> unat (load_addr_of k m) \<and> unat (load_addr_of k m) + (nat n - 4) * 1024 \<le> unat RAMDISK)"

lemma unat_lt_u16: "unat (x :: u16) < 65536"
  by (rule order_less_le_trans [OF unsigned_less]) simp

lemma same_disks_load_addr:
  assumes "same_disks m m'" and "unat (elf_phoff m (disk_of k)) \<le> 2000 * 1024"
  shows "load_addr_of k m' = load_addr_of k m"
proof -
  define q where "q = unat (elf_phoff m (disk_of k)) + unat (elf_phentsize m (disk_of k)) + 16"
  have q: "q \<le> 2000 * 1024 + 65536 + 16" using assms(2) unat_lt_u16 [of "elf_phentsize m (disk_of k)"] by (simp add: q_def)
  have a: "disk_of k + elf_phoff m (disk_of k) + ucast (elf_phentsize m (disk_of k)) + 16 = disk_of k + of_nat q"
    by (simp add: q_def)
  have u: "unat (disk_of k + of_nat q) = unat (disk_of k) + q"
    by (rule unat_offset) (use q disk_of_bounds(2) [of k] in simp)
  have "load64 m' (disk_of k + of_nat q) = load64 m (disk_of k + of_nat q)"
    by (rule same_disks_load [OF assms(1)]) (use u q disk_of_bounds [of k] in simp_all)
  then show ?thesis unfolding load_addr_of_def Let_def ph_vaddr_def same_disks_elf [OF assms(1)] a .
qed

lemma same_disks_fits:
  assumes "same_disks m m'" and "kernel_fits k m"
  shows "kernel_fits k m'" and "size_of k m' = size_of k m" and "load_addr_of k m' = load_addr_of k m"
    and "elf_entry m' (disk_of k) = elf_entry m (disk_of k)"
proof -
  have "unat (elf_phoff m (disk_of k)) \<le> 2000 * 1024" using assms(2) by (simp add: kernel_fits_def Let_def)
  from same_disks_load_addr [OF assms(1) this] show l: "load_addr_of k m' = load_addr_of k m" .
  show s: "size_of k m' = size_of k m" by (simp add: size_of_def same_disks_elf [OF assms(1)])
  show "elf_entry m' (disk_of k) = elf_entry m (disk_of k)" by (rule same_disks_elf [OF assms(1)])
  show "kernel_fits k m'" using assms(2) unfolding kernel_fits_def l s same_disks_elf [OF assms(1)] .
qed

lemma find_load_addr: "find_kernel_load_addr k s = (load_addr_of k (bmem s), s\<lparr>kernel_elfhdr := disk_of k,
    kernel_phdr := disk_of k + elf_phoff (bmem s) (disk_of k) + ucast (elf_phentsize (bmem s) (disk_of k))\<rparr>)"
  by (simp add: find_kernel_load_addr_def load_addr_of_def Let_def)

lemma find_size: "kernel_elfhdr s = disk_of k \<Longrightarrow> find_kernel_size k s = size_of k (bmem s)"
  by (simp add: find_kernel_size_def size_of_def Let_def)

text \<open>The bytes a kernel brings to memory, and where.\<close>

definition image_len :: "kernel \<Rightarrow> memory \<Rightarrow> nat" where
  "image_len k m = (nat (block_num (size_of k m)) - 4) * 1024"

definition image_of :: "kernel \<Rightarrow> memory \<Rightarrow> u8 list" where
  "image_of k m = read_bytes m (disk_of k + 4096) (image_len k m)"

lemma load_kernel_spec:
  assumes "kernel_fits k (bmem s)" and "kernel_elfhdr s = disk_of k"
  shows "load_kernel k (load_addr_of k (bmem s)) (size_of k (bmem s)) s =
    Some (s\<lparr>bmem := write_bytes (bmem s) (load_addr_of k (bmem s)) (image_of k (bmem s))\<rparr>)"
    and "same_disks (bmem s) (write_bytes (bmem s) (load_addr_of k (bmem s)) (image_of k (bmem s)))"
proof -
  let ?n = "nat (block_num (size_of k (bmem s)))"
  obtain j where j: "?n = 4 + j" using assms(1) unfolding kernel_fits_def Let_def
    by (metis le_Suc_ex nat_int nat_mono of_nat_numeral)
  have "block_num (size_of k (bmem s)) = 4 + int j" using assms(1) j unfolding kernel_fits_def Let_def by linarith
  then have le: "j \<le> 1996" "unat (load_addr_of k (bmem s)) + j * 1024 \<le> 0x84000000"
    using assms(1) by (simp_all add: kernel_fits_def Let_def RAMDISK_def nat_add_distrib)
  show "load_kernel k (load_addr_of k (bmem s)) (size_of k (bmem s)) s =
    Some (s\<lparr>bmem := write_bytes (bmem s) (load_addr_of k (bmem s)) (image_of k (bmem s))\<rparr>)"
    using load_blocks_spec [OF le] unfolding load_kernel_def image_of_def image_len_def j by simp
  show "same_disks (bmem s) (write_bytes (bmem s) (load_addr_of k (bmem s)) (image_of k (bmem s)))"
    by (rule same_disks_write) (use le j in \<open>simp add: image_of_def image_len_def\<close>)
qed

section \<open>The decision\<close>

lemma length_digest: "length (snd (sha256_final c)) = 32"
  by (simp add: sha256_final_def Let_def)

text \<open>The machine after the measurement: the context used up, the two digests in the system information.\<close>

definition measured :: "u8 list \<Rightarrow> u8 list \<Rightarrow> memory \<Rightarrow> memory" where
  "measured trusted digest m = write_bytes (write_bytes m (SYS_INFO + 64) digest) (SYS_INFO + 32) (take 32 trusted)"

lemma measured_disks: "length trusted = 32 \<Longrightarrow> length digest = 32 \<Longrightarrow> same_disks m (measured trusted digest m)"
  unfolding measured_def by (rule same_disks_trans; rule same_disks_write) (simp_all add: SYS_INFO_def)

lemma measured_digest:
  assumes "length trusted = 32" and "length digest = 32"
  shows "read_bytes (measured trusted digest m) (SYS_INFO + 64) 32 = digest"
    and "read_bytes (measured trusted digest m) (SYS_INFO + 32) 32 = trusted"
proof -
  let ?m = "write_bytes m (SYS_INFO + 64) digest"
  have "measured trusted digest m (SYS_INFO + 64 + of_nat i) = ?m (SYS_INFO + 64 + of_nat i)" if "i < 32" for i
  proof -
    have "unat (SYS_INFO + 64 + of_nat i :: u64) = 0x80080000 + 64 + i"
      using unat_offset [of "SYS_INFO + 64" i] that by (simp add: SYS_INFO_def)
    then have "\<not> in_region (SYS_INFO + 32) 32 (SYS_INFO + 64 + of_nat i)"
      by (subst in_region_unat) (simp_all add: SYS_INFO_def)
    then show ?thesis using assms(1) unfolding measured_def by (subst write_bytes_apply) simp_all
  qed
  then have "read_bytes (measured trusted digest m) (SYS_INFO + 64) 32 = read_bytes ?m (SYS_INFO + 64) 32"
    by (rule read_bytes_cong)
  then show "read_bytes (measured trusted digest m) (SYS_INFO + 64) 32 = digest"
    using read_write_bytes [of digest m "SYS_INFO + 64"] assms(2) by simp
  show "read_bytes (measured trusted digest m) (SYS_INFO + 32) 32 = trusted"
    using read_write_bytes [of "take 32 trusted" ?m "SYS_INFO + 32"] assms(1) by (simp add: measured_def)
qed

definition boot_digest :: "memory \<Rightarrow> u8 list" where
  "boot_digest m = fips_sha256 (read_bytes m RAMDISK (unat (size_of NORMAL m)))"

lemma secure_boot_spec:
  assumes "kernel_elfhdr s = disk_of NORMAL" and "unat (size_of NORMAL (bmem s)) < 2 ^ 32"
    and "length (sdata (sha256_ctx s)) = 64" and "length trusted = 32"
  shows "\<exists>ctx. is_secure_boot trusted s = do {
    let s1 = s\<lparr>sha256_ctx := ctx, bmem := measured trusted (boot_digest (bmem s)) (bmem s)\<rparr>;
    s2 \<leftarrow> (if boot_digest (bmem s) \<noteq> trusted then setup_recovery_kernel s1 else Some s1);
    Some (boot_digest (bmem s) = trusted, s2) }"
proof -
  let ?bs = "read_bytes (bmem s) RAMDISK (unat (size_of NORMAL (bmem s)))"
  obtain c where u: "sha256_update ?bs (sha256_init (sha256_ctx s)) = Some c" and d: "snd (sha256_final c) = boot_digest (bmem s)"
    using sha_digest [of "sha256_ctx s" "[?bs]"] assms(2,3) by (auto simp: boot_digest_def)
  have l: "length (boot_digest (bmem s)) = 32" using length_digest [of c] d by simp
  have t: "take 32 trusted = trusted" using assms(4) by simp
  obtain ctx where f: "sha256_final c = (ctx, boot_digest (bmem s))" using d by (cases "sha256_final c") auto
  show ?thesis
    using u f measured_digest(1) [OF assms(4) l, of "bmem s"]
    by (auto simp: is_secure_boot_def find_size [OF assms(1)] Let_def measured_def t)
qed

lemma load_addr_outside:
  assumes "kernel_fits k m" and "unat a < unat SYS_INFO + 96"
  shows "write_bytes x (load_addr_of k m) (image_of k m) a = x a"
proof -
  have f: "unat SYS_INFO + 96 \<le> unat (load_addr_of k m)" "unat (load_addr_of k m) + image_len k m \<le> unat RAMDISK"
    using assms(1) by (simp_all add: kernel_fits_def Let_def image_len_def)
  then have "\<not> in_region (load_addr_of k m) (image_len k m) a"
    using assms(2) by (subst in_region_unat) (simp_all add: RAMDISK_def)
  moreover have "image_len k m < 2 ^ 64" using f by (simp add: RAMDISK_def)
  ultimately show ?thesis by (simp add: write_bytes_apply image_of_def)
qed

text \<open>The system information written last does not touch the loaded kernel.\<close>

lemma store64_low: "a = SYS_INFO + of_nat d \<Longrightarrow> d \<le> 24 \<Longrightarrow> unat SYS_INFO + 96 \<le> unat b \<Longrightarrow> store64 m a v b = m b"
proof -
  assume a: "a = SYS_INFO + of_nat d" "d \<le> 24" and b: "unat SYS_INFO + 96 \<le> unat b"
  have "unat a = unat SYS_INFO + d" unfolding a(1) by (rule unat_offset) (use a(2) in \<open>simp add: SYS_INFO_def\<close>)
  then have "\<not> in_region a 8 b" using a(2) b by (subst in_region_unat) (simp_all add: SYS_INFO_def)
  then show ?thesis by (rule store64_frame)
qed

lemma start_out_high: "unat SYS_INFO + 96 \<le> unat b \<Longrightarrow> bmem (start_out cfg s) b = bmem s b"
  using store64_low [of SYS_INFO 0 b] store64_low [of "SYS_INFO + 8" 8 b] store64_low [of "SYS_INFO + 16" 16 b] store64_low [of "SYS_INFO + 24" 24 b]
  by (simp add: start_out_def Let_def)

definition booted :: "kernel \<Rightarrow> memory \<Rightarrow> machine \<Rightarrow> bool" where
  "booted k m s' \<longleftrightarrow> mepc s' = elf_entry m (disk_of k) \<and>
     read_bytes (bmem s') (load_addr_of k m) (image_len k m) = read_bytes m (disk_of k + 4096) (image_len k m) \<and>
     drop_bit 11 (mstatus s') AND 3 = 1 \<and> satp s' = 0"

lemma load_enters:
  assumes "kernel_fits k m0" and "same_disks m0 (bmem s)" and "kernel_elfhdr s = disk_of k"
    and "drop_bit 11 (mstatus s) AND 3 = 1" and "satp s = 0"
  shows "\<exists>t. load_kernel k (load_addr_of k m0) (size_of k m0) s = Some t \<and>
     booted k m0 (start_out cfg (t\<lparr>mepc := find_kernel_entry_addr k t\<rparr>))"
proof -
  let ?m = "write_bytes (bmem s) (load_addr_of k m0) (image_of k m0)"
  note e = same_disks_fits [OF assms(2,1)]
  have img: "image_of k (bmem s) = image_of k m0" and len: "image_len k (bmem s) = image_len k m0"
  proof -
    show l: "image_len k (bmem s) = image_len k m0" by (simp add: image_len_def e(2))
    have "unat (load_addr_of k m0) + image_len k m0 \<le> unat RAMDISK" using assms(1) by (simp add: kernel_fits_def Let_def image_len_def)
    then have "image_len k m0 \<le> 2 ^ 32" by (simp add: RAMDISK_def)
    then show "image_of k (bmem s) = image_of k m0"
      using same_disks_bytes [OF assms(2), of 4096 "image_len k m0" k] by (simp add: image_of_def l)
  qed
  have t: "load_kernel k (load_addr_of k m0) (size_of k m0) s = Some (s\<lparr>bmem := ?m\<rparr>)" and d: "same_disks (bmem s) ?m"
    using load_kernel_spec [OF e(1) assms(3)] by (simp_all add: e(2,3) img)
  have low: "unat SYS_INFO + 96 \<le> unat (load_addr_of k m0)"
    and hi: "unat (load_addr_of k m0) + image_len k m0 \<le> unat RAMDISK"
    using assms(1) by (simp_all add: kernel_fits_def Let_def image_len_def)
  then have len64: "image_len k m0 < 2 ^ 64" by (simp add: RAMDISK_def)
  let ?s' = "start_out cfg ((s\<lparr>bmem := ?m\<rparr>)\<lparr>mepc := find_kernel_entry_addr k (s\<lparr>bmem := ?m\<rparr>)\<rparr>)"
  have "read_bytes (bmem ?s') (load_addr_of k m0) (image_len k m0) = read_bytes ?m (load_addr_of k m0) (image_len k m0)"
  proof (rule read_bytes_cong)
    fix i assume i: "i < image_len k m0"
    have "unat (load_addr_of k m0 + of_nat i) = unat (load_addr_of k m0) + i"
      by (rule unat_offset) (use i hi in \<open>simp add: RAMDISK_def\<close>)
    then show "bmem ?s' (load_addr_of k m0 + of_nat i) = ?m (load_addr_of k m0 + of_nat i)"
      using low by (subst start_out_high) simp_all
  qed
  also have "\<dots> = image_of k m0"
    using read_write_bytes [of "image_of k m0" "bmem s" "load_addr_of k m0"] len64 by (simp add: image_of_def)
  finally have "booted k m0 ?s'"
    using assms(3,4,5) same_disks_elf(1) [OF d, of k] e(4)
    by (simp add: booted_def start_out_def Let_def find_kernel_entry_addr_def image_of_def)
  then show ?thesis using t by blast
qed

lemma start_registers_fields [simp]:
  "bmem (start_registers cfg s) = bmem s" "sha256_ctx (start_registers cfg s) = sha256_ctx s"
  "satp (start_registers cfg s) = 0" "mstatus (start_registers cfg s) = (mstatus s AND NOT 0x1800) OR 0x800"
  by (simp_all add: start_registers_def Let_def)

lemma mpp_supervisor: "drop_bit 11 ((x AND NOT 0x1800) OR 0x800) AND 3 = (1 :: u64)"
proof (rule bit_word_eqI)
  fix n assume "n < LENGTH(64)"
  have e: "(0x1800 :: u64) = push_bit 11 (mask 2)" "(0x800 :: u64) = push_bit 11 1" "(3 :: u64) = mask 2"
    by (simp_all add: mask_eq_exp_minus_1)
  show "bit (drop_bit 11 ((x AND NOT 0x1800) OR 0x800) AND 3 :: u64) n = bit (1 :: u64) n"
    unfolding e by (auto simp: bit_simps)
qed

lemma is_secure_boot_hangs:
  assumes "kernel_elfhdr s = disk_of NORMAL" and "2 ^ 32 \<le> unat (size_of NORMAL (bmem s))"
  shows "is_secure_boot trusted s = None"
  using assms by (simp add: is_secure_boot_def find_size sha256_update_def not_less)

text \<open>
  C2: nothing is assumed of the header of a \<open>NORMAL\<close> image that is not the trusted one. When that header asks
  for fewer than 2^32 bytes, the loader ends and enters, in supervisor mode with paging off, the \<open>NORMAL\<close>
  kernel when the SHA-256 digest of its image is the trusted one and the \<open>RECOVERY\<close> kernel otherwise, with
  the whole image of the kernel it enters at its load address. When the header asks for 2^32 bytes or more,
  the hash never ends: neither kernel is entered, the \<open>RECOVERY\<close> kernel as little as the other. The
  image the vendor trusts and the recovery image have to fit (\<open>kernel_fits\<close>).
\<close>

theorem secure_boot:
  assumes "kernel_fits RECOVERY (bmem s)" and "boot_digest (bmem s) = trusted \<longrightarrow> kernel_fits NORMAL (bmem s)"
    and "length (sdata (sha256_ctx s)) = 64" and "length trusted = 32"
  shows "if unat (size_of NORMAL (bmem s)) < 2 ^ 32
    then \<exists>s'. start cfg trusted s = Some s' \<and> booted (if boot_digest (bmem s) = trusted then NORMAL else RECOVERY) (bmem s) s'
    else start cfg trusted s = None"
proof -
  let ?m = "bmem s"
  obtain s1 where l1: "find_kernel_load_addr NORMAL (start_registers cfg s) = (load_addr_of NORMAL ?m, s1)"
    and s1: "kernel_elfhdr s1 = disk_of NORMAL" "bmem s1 = ?m" "sha256_ctx s1 = sha256_ctx s"
      "satp s1 = 0" and st: "mstatus s1 = (mstatus s AND NOT 0x1800) OR 0x800"
    by (simp add: find_load_addr)
  have mpp: "drop_bit 11 (mstatus s1) AND 3 = 1" unfolding st by (rule mpp_supervisor)
  have ends: "\<exists>s'. start cfg trusted s = Some s' \<and> booted (if boot_digest ?m = trusted then NORMAL else RECOVERY) ?m s'"
    if small: "unat (size_of NORMAL ?m) < 2 ^ 32"
  proof -
    obtain ctx where c: "is_secure_boot trusted s1 = do {
        let s2 = s1\<lparr>sha256_ctx := ctx, bmem := measured trusted (boot_digest ?m) ?m\<rparr>;
        s3 \<leftarrow> (if boot_digest ?m \<noteq> trusted then setup_recovery_kernel s2 else Some s2);
        Some (boot_digest ?m = trusted, s3) }"
      using secure_boot_spec [OF s1(1) _ _ assms(4)] small assms(3) unfolding s1 by blast
    let ?s2 = "s1\<lparr>sha256_ctx := ctx, bmem := measured trusted (boot_digest ?m) ?m\<rparr>"
    have "length (boot_digest ?m) = 32"
      by (simp add: boot_digest_def fips_sha256_def length_concat comp_def be_bytes_def sum_list_triv)
    then have d: "same_disks ?m (bmem ?s2)" using measured_disks [OF assms(4)] by simp
    show ?thesis
    proof (cases "boot_digest ?m = trusted")
      case True
      then have fits: "kernel_fits NORMAL ?m" using assms(2) by simp
      have sz: "find_kernel_size NORMAL ?s2 = size_of NORMAL ?m"
        using find_size [of ?s2 NORMAL] s1(1) same_disks_fits(2) [OF d fits] by simp
      have "\<exists>t. load_kernel NORMAL (load_addr_of NORMAL ?m) (size_of NORMAL ?m) ?s2 = Some t \<and>
          booted NORMAL ?m (start_out cfg (t\<lparr>mepc := find_kernel_entry_addr NORMAL t\<rparr>))"
        by (rule load_enters [OF fits d]) (use s1 mpp in simp_all)
      then obtain t where t: "load_kernel NORMAL (load_addr_of NORMAL ?m) (size_of NORMAL ?m) ?s2 = Some t"
          "booted NORMAL ?m (start_out cfg (t\<lparr>mepc := find_kernel_entry_addr NORMAL t\<rparr>))" by blast
      have "is_secure_boot trusted s1 = Some (True, ?s2)" using c True by simp
      then have "start cfg trusted s = Some (start_out cfg (t\<lparr>mepc := find_kernel_entry_addr NORMAL t\<rparr>))"
        unfolding start_def Let_def l1 prod.case by (simp add: sz t(1))
      then show ?thesis using t(2) True by simp
    next
      case False
      obtain s3 where l3: "find_kernel_load_addr RECOVERY ?s2 = (load_addr_of RECOVERY ?m, s3)"
        and s3: "kernel_elfhdr s3 = disk_of RECOVERY" "bmem s3 = bmem ?s2" "mstatus s3 = mstatus s1" "satp s3 = satp s1"
        using same_disks_fits(3) [OF d assms(1)] by (simp add: find_load_addr)
      have sz: "find_kernel_size RECOVERY s3 = size_of RECOVERY ?m"
        using find_size [OF s3(1)] same_disks_fits(2) [OF d assms(1)] s3(2) by simp
      have d3: "same_disks ?m (bmem s3)" using d s3(2) by simp
      have "\<exists>t. load_kernel RECOVERY (load_addr_of RECOVERY ?m) (size_of RECOVERY ?m) s3 = Some t \<and>
          booted RECOVERY ?m (start_out cfg (t\<lparr>mepc := find_kernel_entry_addr RECOVERY t\<rparr>))"
        by (rule load_enters [OF assms(1) d3 s3(1)]) (simp_all only: s3 s1 mpp)
      then obtain t where t: "load_kernel RECOVERY (load_addr_of RECOVERY ?m) (size_of RECOVERY ?m) s3 = Some t"
          "booted RECOVERY ?m (start_out cfg (t\<lparr>mepc := find_kernel_entry_addr RECOVERY t\<rparr>))" by blast
      have "setup_recovery_kernel ?s2 = Some (t\<lparr>mepc := find_kernel_entry_addr RECOVERY t\<rparr>)"
        unfolding setup_recovery_kernel_def l3 Let_def prod.case sz t(1) by simp
      then have "is_secure_boot trusted s1 = Some (False, t\<lparr>mepc := find_kernel_entry_addr RECOVERY t\<rparr>)" using c False by simp
      then have "start cfg trusted s = Some (start_out cfg (t\<lparr>mepc := find_kernel_entry_addr RECOVERY t\<rparr>))"
        unfolding start_def Let_def l1 prod.case by simp
      then show ?thesis using t(2) False by simp
    qed
  qed
  have "start cfg trusted s = None" if "\<not> unat (size_of NORMAL ?m) < 2 ^ 32"
    using is_secure_boot_hangs [OF s1(1)] that unfolding start_def Let_def l1 prod.case s1(2) by simp
  then show ?thesis using ends by simp
qed

text \<open>Two images of five blocks that ask to be loaded at 0x80200000.\<close>

definition demo_image :: "u64 \<Rightarrow> memory \<Rightarrow> memory" where
  "demo_image h m = m(h + 24 := 0x40, h + 26 := 0x20, h + 27 := 0x80, h + 32 := 64, h + 40 := 0x88, h + 41 := 0x13,
     h + 54 := 56, h + 136 := 0, h + 138 := 0x20, h + 139 := 0x80)"

definition demo_machine :: machine where
  "demo_machine = \<lparr>bmem = demo_image RECOVERYDISK (demo_image RAMDISK (\<lambda>_. 0)), kernel_elfhdr = 0, kernel_phdr = 0,
     sha256_ctx = \<lparr>sdata = replicate 64 0, datalen = 0, bitlen = 0, sstate = []\<rparr>, tp = 0, mstatus = 0, satp = 0, mepc = 0,
     pmpaddr = replicate 16 0, pmpcfg0 = 0, medeleg = 0, mideleg = 0, sie_reg = 0\<rparr>"

lemma load_bytes_8: "load_bytes m a 8 = unat (m a) + 256 * (unat (m (a + 1)) + 256 * (unat (m (a + 2)) + 256 * (unat (m (a + 3)) +
    256 * (unat (m (a + 4)) + 256 * (unat (m (a + 5)) + 256 * (unat (m (a + 6)) + 256 * unat (m (a + 7))))))))"
proof -
  have e: "(8 :: nat) = Suc (Suc (Suc (Suc (Suc (Suc (Suc (Suc 0)))))))" by simp
  show ?thesis unfolding e by (simp add: add.assoc)
qed

lemma load_bytes_2: "load_bytes m a 2 = unat (m a) + 256 * unat (m (a + 1))"
proof -
  have e: "(2 :: nat) = Suc (Suc 0)" by simp
  show ?thesis unfolding e by simp
qed

lemma demo_bytes:
  "load64 (bmem demo_machine) (disk_of k + 24) = 0x80200040" "load64 (bmem demo_machine) (disk_of k + 32) = 64"
  "load64 (bmem demo_machine) (disk_of k + 40) = 5000" "load16 (bmem demo_machine) (disk_of k + 54) = 56"
  "load16 (bmem demo_machine) (disk_of k + 58) = 0" "load16 (bmem demo_machine) (disk_of k + 60) = 0"
  "load64 (bmem demo_machine) (disk_of k + 136) = 0x80200000"
  by (cases k; simp add: demo_machine_def demo_image_def disk_of_def RAMDISK_def RECOVERYDISK_def
      load64_def load16_def load_bytes_8 load_bytes_2)+

lemma demo_fields:
  "size_of k (bmem demo_machine) = 5000" "load_addr_of k (bmem demo_machine) = 0x80200000"
  "elf_phoff (bmem demo_machine) (disk_of k) = 64" "elf_entry (bmem demo_machine) (disk_of k) = 0x80200040"
  by (simp_all add: size_of_def load_addr_of_def Let_def elf_phoff_def elf_shoff_def elf_phentsize_def elf_shentsize_def
      elf_shnum_def elf_entry_def ph_vaddr_def demo_bytes add.assoc)

lemma demo_fits: "kernel_fits k (bmem demo_machine)"
  by (simp add: kernel_fits_def demo_fields block_num_def SYS_INFO_def RAMDISK_def)

theorem secure_boot_witness:
  "\<exists>s'. start \<lparr>KERNELPMP1 = False, KERNELPMP2 = False, end_symbol = 0x80010000, mhartid = 0\<rparr> (boot_digest (bmem demo_machine)) demo_machine = Some s' \<and>
     mepc s' = 0x80200040"
proof -
  have "length (boot_digest (bmem demo_machine)) = 32"
    by (simp add: boot_digest_def fips_sha256_def length_concat comp_def be_bytes_def sum_list_triv)
  then show ?thesis
    using secure_boot [OF demo_fits, of "boot_digest (bmem demo_machine)" "\<lparr>KERNELPMP1 = False, KERNELPMP2 = False, end_symbol = 0x80010000, mhartid = 0\<rparr>"]
    by (auto simp: demo_fits demo_fields booted_def) (auto simp: demo_machine_def)
qed

section \<open>Physical memory protection\<close>

text \<open>
  What the hardware does with the registers (RISC-V privileged architecture, section on PMP): the first entry
  that matches the address decides, and supervisor mode has no access where none matches. Mode 1 is TOR, 2 NA4,
  3 NAPOT.
\<close>

definition pmp_cfg :: "machine \<Rightarrow> nat \<Rightarrow> u64" where
  "pmp_cfg s i = drop_bit (8 * i) (pmpcfg0 s) AND 0xff"

definition pmp_match :: "machine \<Rightarrow> u64 \<Rightarrow> nat \<Rightarrow> bool" where
  "pmp_match s a i =
     (let mode = drop_bit 3 (pmp_cfg s i) AND 3; y = pmpaddr s ! i; free = y XOR (y + 1) in
      if mode = 1 then (if i = 0 then 0 else push_bit 2 (pmpaddr s ! (i - 1))) \<le> a \<and> a < push_bit 2 y
      else if mode = 2 then drop_bit 2 a = y
      else mode = 3 \<and> drop_bit 2 a OR free = y OR free)"

definition pmp_allows :: "machine \<Rightarrow> u64 \<Rightarrow> bool" where
  "pmp_allows s a = (case first_index (pmp_match s a) [0..<8] of None \<Rightarrow> False | Some i \<Rightarrow> pmp_cfg s i AND 7 = 7)"

definition RAMBASE :: u64 where "RAMBASE = 0x80000000"
definition MB :: nat where "MB = 1024 * 1024"

lemma or_mask_eq: "(x OR mask n = y OR mask n) \<longleftrightarrow> drop_bit n x = drop_bit n (y :: u64)"
proof
  assume "x OR mask n = y OR mask n"
  then have "drop_bit n (x OR mask n) = drop_bit n (y OR mask n)" by simp
  moreover have "drop_bit n (mask n :: u64) = 0" by (rule bit_word_eqI) (simp add: bit_simps)
  ultimately show "drop_bit n x = drop_bit n y" by (simp add: drop_bit_or)
next
  assume h: "drop_bit n x = drop_bit n y"
  show "x OR mask n = y OR mask n"
  proof (rule bit_word_eqI)
    fix i assume "i < LENGTH(64)"
    have "bit x i = bit y i" if "n \<le> i" using arg_cong [OF h, of "\<lambda>w. bit w (i - n)"] that by (simp add: bit_simps)
    then show "bit (x OR mask n) i = bit (y OR mask n) i" using \<open>i < LENGTH(64)\<close> by (cases "n \<le> i") (auto simp: bit_simps)
  qed
qed

lemma drop_bit_range:
  assumes "k < 2 ^ 40"
  shows "drop_bit 21 (a :: u64) = of_nat k \<longleftrightarrow> k * 2 ^ 21 \<le> unat a \<and> unat a < (k + 1) * 2 ^ 21"
proof -
  have "unat (of_nat k :: u64) = k" using assms by (intro unat_of_nat_lt64) simp
  moreover have "unat (drop_bit 21 a) = unat a div 2 ^ 21" unfolding unat_drop_bit_eq by (rule drop_bit_eq_div)
  ultimately have "drop_bit 21 a = of_nat k \<longleftrightarrow> unat a div 2 ^ 21 = k" by (simp add: word_unat_eq_iff)
  then show ?thesis by auto
qed

text \<open>A NAPOT register whose low 18 bits are ones covers two megabytes.\<close>

lemma napot_2mb:
  assumes "y XOR (y + 1) = mask 19" and "drop_bit 19 y = of_nat k" and "k < 2 ^ 40"
  shows "drop_bit 2 (a :: u64) OR (y XOR (y + 1)) = y OR (y XOR (y + 1)) \<longleftrightarrow> k * 2 ^ 21 \<le> unat a \<and> unat a < (k + 1) * 2 ^ 21"
  unfolding assms(1) or_mask_eq assms(2) drop_bit_drop_bit using drop_bit_range [OF assms(3), of a] by simp

lemma napot_entries:
  "drop_bit 2 (a :: u64) OR (0x21E3FFFF XOR (0x21E3FFFF + 1)) = 0x21E3FFFF OR (0x21E3FFFF XOR (0x21E3FFFF + 1)) \<longleftrightarrow>
     0x87800000 \<le> unat a \<and> unat a < 0x87A00000"
  "drop_bit 2 a OR (0x21FBFFFF XOR (0x21FBFFFF + 1)) = 0x21FBFFFF OR (0x21FBFFFF XOR (0x21FBFFFF + 1)) \<longleftrightarrow>
     0x87E00000 \<le> unat a \<and> unat a < 0x88000000"
proof -
  have "(0x21E3FFFF :: u64) XOR (0x21E3FFFF + 1) = mask 19" "drop_bit 19 (0x21E3FFFF :: u64) = of_nat 0x43C"
    "(0x21FBFFFF :: u64) XOR (0x21FBFFFF + 1) = mask 19" "drop_bit 19 (0x21FBFFFF :: u64) = of_nat 0x43F"
    by (simp_all add: mask_eq_exp_minus_1)
  note n = napot_2mb [OF this(1,2)] napot_2mb [OF this(3,4)]
  show "drop_bit 2 a OR (0x21E3FFFF XOR (0x21E3FFFF + 1)) = 0x21E3FFFF OR (0x21E3FFFF XOR (0x21E3FFFF + 1)) \<longleftrightarrow>
     0x87800000 \<le> unat a \<and> unat a < 0x87A00000" using n(1) [of a] by simp
  show "drop_bit 2 a OR (0x21FBFFFF XOR (0x21FBFFFF + 1)) = 0x21FBFFFF OR (0x21FBFFFF XOR (0x21FBFFFF + 1)) \<longleftrightarrow>
     0x87E00000 \<le> unat a \<and> unat a < 0x88000000" using n(2) [of a] by simp
qed

lemma update_first: "8 \<le> length xs \<Longrightarrow> xs[0 := x] ! 0 = x"
  by (cases xs) simp_all

lemma pmp2_registers:
  assumes "KERNELPMP2 cfg" and "8 \<le> length (pmpaddr s)"
  shows "pmpaddr (start_registers cfg s) ! 0 = 0x21D7FFFF" "pmpaddr (start_registers cfg s) ! 2 = 0x21E3FFFF"
    "pmpaddr (start_registers cfg s) ! 4 = 0x21FBFFFF" "pmpcfg0 (start_registers cfg s) = 0x1f831f830f"
  using assms by (simp_all add: start_registers_def Let_def nth_list_update update_first)

lemma pmp2_modes:
  assumes "pmpcfg0 s = 0x1f831f830f"
  shows "pmp_cfg s 0 = 0x0f" "pmp_cfg s 1 = 0x83" "pmp_cfg s 2 = 0x1f" "pmp_cfg s 3 = 0x83" "pmp_cfg s 4 = 0x1f" "pmp_cfg s 5 = 0"
    "pmp_cfg s 6 = 0" "pmp_cfg s 7 = 0"
  by (simp_all add: pmp_cfg_def assms)

lemma upt_8: "[0..<8] = [0, 1, 2, 3, 4, 5, 6, 7]"
  by (simp add: upt_rec)

lemma pmp2_allows:
  assumes "KERNELPMP2 cfg" and "8 \<le> length (pmpaddr s)"
  shows "pmp_allows (start_registers cfg s) a \<longleftrightarrow>
    unat a < 0x875FFFFC \<or> 0x87800000 \<le> unat a \<and> unat a < 0x87A00000 \<or> 0x87E00000 \<le> unat a \<and> unat a < 0x88000000"
proof -
  let ?s = "start_registers cfg s"
  note r = pmp2_registers [OF assms] and m = pmp2_modes [OF pmp2_registers(4) [OF assms]]
  have 0: "pmp_match ?s a 0 \<longleftrightarrow> unat a < 0x875FFFFC" by (simp add: pmp_match_def m r word_less_nat_alt)
  have 2: "pmp_match ?s a 2 \<longleftrightarrow> 0x87800000 \<le> unat a \<and> unat a < 0x87A00000"
    unfolding pmp_match_def m r Let_def using napot_entries(1) [of a] by simp
  have 4: "pmp_match ?s a 4 \<longleftrightarrow> 0x87E00000 \<le> unat a \<and> unat a < 0x88000000"
    unfolding pmp_match_def m r Let_def using napot_entries(2) [of a] by simp
  have off: "\<not> pmp_match ?s a 1" "\<not> pmp_match ?s a 3" "\<not> pmp_match ?s a 5" "\<not> pmp_match ?s a 6" "\<not> pmp_match ?s a 7"
    unfolding pmp_match_def m Let_def by simp_all
  have n: "Suc (Suc 0) = 2" "Suc (Suc (Suc (Suc 0))) = 4" by simp_all
  show ?thesis unfolding pmp_allows_def upt_8 by (simp add: 0 2 4 off n m del: One_nat_def)
qed

lemma pmp1_allows:
  assumes "KERNELPMP1 cfg" and "\<not> KERNELPMP2 cfg" and "8 \<le> length (pmpaddr s)"
  shows "pmp_allows (start_registers cfg s) a \<longleftrightarrow> unat a < 0x87500000"
proof -
  let ?s = "start_registers cfg s"
  have r: "pmpaddr ?s ! 0 = 0x21D40000" "pmpcfg0 ?s = 0xf"
    using assms by (simp_all add: start_registers_def Let_def update_first)
  have m: "pmp_cfg ?s 0 = 0x0f" "pmp_cfg ?s 1 = 0" "pmp_cfg ?s 2 = 0" "pmp_cfg ?s 3 = 0" "pmp_cfg ?s 4 = 0" "pmp_cfg ?s 5 = 0"
    "pmp_cfg ?s 6 = 0" "pmp_cfg ?s 7 = 0"
    by (simp_all add: pmp_cfg_def r)
  have 0: "pmp_match ?s a 0 \<longleftrightarrow> unat a < 0x87500000" by (simp add: pmp_match_def m r word_less_nat_alt)
  have off: "\<not> pmp_match ?s a 1" "\<not> pmp_match ?s a 2" "\<not> pmp_match ?s a 3" "\<not> pmp_match ?s a 4" "\<not> pmp_match ?s a 5"
    "\<not> pmp_match ?s a 6" "\<not> pmp_match ?s a 7"
    unfolding pmp_match_def m Let_def by simp_all
  show ?thesis unfolding pmp_allows_def upt_8 by (simp add: 0 off m del: One_nat_def)
qed

text \<open>
  C3: with \<open>KERNELPMP2\<close> the kernel reaches the first 118 megabytes of memory less the last word, the
  megabytes 120 to 122 and 126 to 128, and nothing else; with \<open>KERNELPMP1\<close> alone the first 117 megabytes,
  so that the upper 11 are isolated where the comment in start.c speaks of 10.
\<close>

theorem pmp_boot_regions:
  assumes "8 \<le> length (pmpaddr s)"
  shows "(KERNELPMP2 cfg \<longrightarrow> (pmp_allows (start_registers cfg s) a \<longleftrightarrow>
      unat a < unat RAMBASE + 118 * MB - 4 \<or> unat RAMBASE + 120 * MB \<le> unat a \<and> unat a < unat RAMBASE + 122 * MB \<or>
      unat RAMBASE + 126 * MB \<le> unat a \<and> unat a < unat RAMBASE + 128 * MB)) \<and>
    (KERNELPMP1 cfg \<and> \<not> KERNELPMP2 cfg \<longrightarrow> (pmp_allows (start_registers cfg s) a \<longleftrightarrow> unat a < unat RAMBASE + 117 * MB))"
  using pmp2_allows [of cfg s a] pmp1_allows [of cfg s a] assms by (auto simp: RAMBASE_def MB_def)

theorem pmp_boot_regions_witness:
  "\<not> pmp_allows (start_registers \<lparr>KERNELPMP1 = False, KERNELPMP2 = True, end_symbol = 0, mhartid = 0\<rparr> demo_machine) 0x875FFFFC"
  using pmp_boot_regions [of demo_machine "\<lparr>KERNELPMP1 = False, KERNELPMP2 = True, end_symbol = 0, mhartid = 0\<rparr>" "0x875FFFFC"]
  by (simp add: demo_machine_def RAMBASE_def MB_def)

end
