(* ===== verification/Spec2Isabelle.thy ===== *)
theory Spec2Isabelle
  imports Vm_Props Kvm Log_Crash Log_Space Fs_Alloc Syscall Pipe_Queue Proc_Steps Grep Wc Ulthread Spinlock Sleeplock Console
    Umalloc_Props Trap Sh_Run Virtio_Inv Vmm_Trap Boot
begin

text \<open>
  The operating systems of this repository: a secure boot loader (assignment 1), the xv6-riscv kernel with
  copy-on-write fork, on-demand paging and swapping (assignment 2), user-level threads (assignment 3) and a
  trap-and-emulate monitor (assignment 4). The kernel modelled is the one of assignment 2
  (src/assignment2/src/xv6-riscv/); the copies in assignments 3 and 4 differ from it only where those
  assignments add to it, and their additions are theories of their own.

  \<^bold>\<open>The program and its model.\<close> A kernel state is a chain of extensible records, one per C file that owns state,
  so that an operation runs on every state that contains what it needs:
  \<open>kmem_state\<close> (memory and free list, kalloc.c), \<open>cow_state\<close> (the copy-on-write groups, cow.c), \<open>proc_state\<close>
  (process table and CPUs, proc.c), \<open>kernel_state\<close> (open files and the file system), \<open>console_state\<close> (console.c and
  uart.c), \<open>trap_state\<close> (supervisor registers and clock, trap.c). The field \<open>fsys\<close> of \<open>kernel_state\<close> holds the
  second chain: \<open>disk_state\<close>, \<open>bio_state\<close> (bio.c), \<open>log_state\<close> (log.c), \<open>fs_state\<close> (fs.c). Memory is a function from
  64-bit addresses to bytes; page tables, trap frames, user memory and the free list lie in it, as in C. A pipe is the
  entry of the field \<open>pipes\<close> at the address of its page: the page is allocated and freed, its bytes are not looked at.

  A function of the code is a definition with its name. The value \<open>None\<close> of the option monad stands for a panic, an
  endless loop or undefined behaviour, so a theorem that a call returns \<open>Some\<close> says that it does none of these; an error
  code of C is an ordinary value. A call that may sleep returns an \<open>outcome\<close>, \<open>Done\<close> or \<open>Asleep\<close> with its channel.
  The body of a critical section is one step; that the locks exclude one another is shown in Spinlock. Machine
  integers keep their width where it matters; a counter in C's \<open>int\<close> that only counts locks held, blocks or rounds of a loop
  is an unbounded number here, and \<open>nextpid\<close>, which only grows, is \<open>None\<close> where the \<open>int\<close> overflows.

  \<^bold>\<open>Theories.\<close>
  \<^item> Xv6_Prelude: bytes, regions, little-endian loads and stores, the option monad. Riscv: macros of riscv.h and
    memlayout.h. Cstring: kernel/string.c.
  \<^item> Kalloc: kernel/kalloc.c, with the locale \<open>page_allocator\<close> of what its clients need, interpreted on \<open>kalloc\<close> and \<open>kfree\<close>.
    Cow_Groups and Cow: kernel/cow.c.
  \<^item> Vm: kernel/vm.c. Vm_Tree reads a page table as a tree of pages, Vm_Map says what each operation does to the map
    from pages to entries, Vm_User gives user memory as the process sees it, Vm_Props collects the properties,
    Vm_Room counts the table pages that a map can take, Kvm is the map of the kernel that \<open>kvmmake\<close> builds,
    Vm_Bytes is for copies whose kernel side is a C object, Vm_Frame shows what the memory code leaves alone.
  \<^item> Disk_Layout (fs.h, param.h), Bio (bio.c, with the locale \<open>block_cache\<close>: an abstract cache is a disk plus the buffers held), Log
    (log.c), Log_Crash (the commit protocol at every point where the machine can stop), Log_Space (begin_op, log_write
    and end_op interleaved), Fs (fs.c), Fs_Alloc (the block allocator inside a transaction).
  \<^item> Proc (proc.c without fork, exit and wait), Process (those three and userinit), Proc_Table (the table as an abstract state
    machine), Proc_Steps (each operation of proc.c against it, and the step relation of several CPUs).
  \<^item> File (file.c, pipe.c), Ring (the locale \<open>ring\<close>: a buffer with free-running counters is a bounded queue), User_Io (what
    loops that move single bytes to and from user memory do to it), Pipe_Queue (pipes as an interpretation of the ring, one call of
    the loops of pipe.c, and runs of calls by many processes), Exec (exec.c), Swap (pfault.c), Syscall (syscall.c, sysfile.c), Trap (sysproc.c, the
    dispatch of syscall.c, plic.c, trap.c; a trap that gives up the CPU goes on when the process has it again), Demo_Kernel (a small kernel for the witnesses).
  \<^item> Spinlock: spinlock.c at the grain of its atomic instructions. Printf: both printf.c. Console: console.c and uart.c.
  \<^item> Sha256 and Boot: the boot loader of assignment 1. Ulthread: user/ulthread.c and ulthread_swtch.S of assignment 3.
    Vmm: kernel/trap-and-emulate.c of assignment 4; Vmm_Trap: \<open>usertrap\<close> of its kernel/trap.c.
  \<^item> Virtio: kernel/virtio_disk.c, with the device as a process of its own; Virtio_Inv its invariant and properties.
    Sleeplock: kernel/sleeplock.c.
  \<^item> User programs: Grep (user/grep.c), Wc (wc.c), Ulib (ulib.c), Umalloc and Umalloc_Props (umalloc.c), and the shell, user/sh.c: Sh
    (parser and runcmd), Sh_Parse (the parser ends and what it returns is well formed), Sh_Print (every command has a
    text), Sh_Run (the programs a line starts and their descriptors).

  \<^bold>\<open>What is shown.\<close>
  The boot loader's hash is SHA-256 of the message however it is fed; whatever the header of an image that is not
  trusted says, the kernel that is entered, if any is, is the trusted one or the recovery one, and none is only when the header
  makes the hash endless. The PMP registers allow exactly the ranges that are stated. The page allocator hands out RAM pages and
  takes them back; copies to and from user memory are exact over page boundaries and fail without a panic. The
  kernel's own map is the one meant, with an unmapped page below each stack. A commit is
  atomic under a crash at any disk write; the log never overflows when its reservation matches its size, and with the
  size that mkfs writes it can. The process table keeps its invariant in every reachable state of a
  multiprocessor kernel, and no exit is lost. Pipes and the UART queue refine bounded queues, the console refines
  a line editor; both are followed into the memory of the user, with the byte that is lost at an address that is not mapped.
  A trap goes back to user space only for a process that was not killed when the code last looked. Locks exclude one another in every interleaving of their instructions. The disk driver panics on a
  status of the device that is not 0 and on nothing else, and moves each block atomically, however requests, interrupts and the
  device interleave. grep's matcher decides the language of its pattern, and grep writes the matching lines of any input
  up to the first line that its buffer or a NUL stops at; the shell's parser is total, inverts a printer, and what it starts has exactly the descriptors
  its pipes and redirections say. malloc never hands out overlapping memory and always returns. The scheduler of the user
  threads is fair under round robin while the clock advances between yields, and serves in order of creation or priority under
  the other policies. The guest of the monitor never gains a mode it was not given.

  \<^bold>\<open>Loops, bounds and fuel.\<close> Loops that count are structural recursion or \<open>function\<close>s with a measure. Loops
  whose end depends on the state (list walks, \<open>freewalk\<close>, the copy loops, \<open>malloc\<close>) are \<open>partial_function (option)\<close>, and
  that they return is proved where it is claimed. Retries after a sleep are not loops: the call ends \<open>Asleep\<close> and is
  entered again by the step relation. Only the parser of the shell takes fuel, \<open>4 * length line + 4\<close>:
  four levels of the grammar per byte and one more round at the end; that this is enough is part of its
  property.

  \<^bold>\<open>Not modelled.\<close> The assembly (entry.S, swtch.S, kernelvec.S, trampoline.S) and the CSR accessors, whose effect on
  registers is a field of the state where the C code relies on it; machine-mode start.c and main.c, which call the
  initialisers once; the RAM disk of ramdisk.c; trace prints; the test programs of user/
  (usertests.c, grind.c, forktest.c, stressfs.c and test*.c) and the small programs that only pass arguments to a system call; mkfs, which runs on the host; the kernel images of
  assignment 1, which are copies of xv6 or binaries. Weak memory order, the TLB and interrupts between two instructions of
  a critical section are outside the model. Code under kernel/ of assignments 3 and 4 that is the code of
  assignment 2 is not modelled a second time.
\<close>

end
